(* ===== verification/Nano_Prelude.thy ===== *)
theory Nano_Prelude
  imports Main "HOL-Library.Word"
begin

text \<open>
  Shared vocabulary of the development: C++ exceptions as values, decimal rendering of
  integers (\<open>std::to_string\<close>), the index sequence of a strided CUDA loop, and the generic
  lemmas on lists, division and modular ring arithmetic that the components use.
\<close>

named_theorems nano_arith \<open>arithmetic facts on ceilings, alignment and ring positions\<close>
named_theorems nano_exec \<open>unfolding rules that evaluate the model on concrete inputs\<close>

type_synonym byte = "8 word"

section \<open>Exceptions as values\<close>

text \<open>The exception classes the sources throw, with their messages.\<close>

datatype exn = Runtime_error string | Invalid_argument string | Logic_error string

type_synonym 'a result = "exn + 'a"

definition rbind :: "'a result \<Rightarrow> ('a \<Rightarrow> 'b result) \<Rightarrow> 'b result" where
  "rbind m f = (case m of Inl e \<Rightarrow> Inl e | Inr a \<Rightarrow> f a)"

fun what :: "exn \<Rightarrow> string" where
  "what (Runtime_error m) = m"
| "what (Invalid_argument m) = m"
| "what (Logic_error m) = m"

definition is_ok :: "'e + 'a \<Rightarrow> bool" where
  "is_ok m = (case m of Inl _ \<Rightarrow> False | Inr _ \<Rightarrow> True)"

text \<open>A loop over the elements of a list whose body may throw.\<close>

fun rfold :: "('a \<Rightarrow> 's \<Rightarrow> 's result) \<Rightarrow> 'a list \<Rightarrow> 's \<Rightarrow> 's result" where
  "rfold f [] s = Inr s"
| "rfold f (x # xs) s = rbind (f x s) (rfold f xs)"

definition throw_if :: "bool \<Rightarrow> exn \<Rightarrow> unit result" where
  "throw_if b e = (if b then Inl e else Inr ())"

section \<open>Decimal rendering\<close>

fun string_of_nat :: "nat \<Rightarrow> string" where
  "string_of_nat n =
     (if n < 10 then [char_of (48 + n)]
      else string_of_nat (n div 10) @ [char_of (48 + n mod 10)])"

declare string_of_nat.simps [simp del]

definition string_of_int :: "int \<Rightarrow> string" where
  "string_of_int i = (if i < 0 then CHR ''-'' # string_of_nat (nat (- i)) else string_of_nat (nat i))"

section \<open>Strided loops\<close>

text \<open>
  The indices visited by \<open>for (i = start; i < bound; i += stride)\<close>. Every loop of this shape
  in the kernels runs behind a guard that makes the stride positive; the guard is repeated in
  the equation so that the function is total.
\<close>

function strided :: "nat \<Rightarrow> nat \<Rightarrow> nat \<Rightarrow> nat list" where
  "strided i bound stride =
     (if i < bound \<and> 0 < stride then i # strided (i + stride) bound stride else [])"
  by pat_completeness auto
termination
  by (relation "measure (\<lambda>(i, bound, stride). bound - i)") auto

declare strided.simps [simp del]

section \<open>Generic lemmas\<close>

lemma rbind_simps [simp]: "rbind (Inl e) f = Inl e" "rbind (Inr a) f = f a"
  by (simp_all add: rbind_def)

lemma rbind_eq_Inr_iff: "rbind m f = Inr b \<longleftrightarrow> (\<exists>a. m = Inr a \<and> f a = Inr b)"
  by (cases m) auto

lemma is_ok_simps [simp]: "is_ok (Inr a)" "\<not> is_ok (Inl e)"
  by (simp_all add: is_ok_def)

lemma throw_if_simps [simp]:
  "throw_if True e = Inl e" "throw_if False e = Inr ()"
  "throw_if b e = Inr u \<longleftrightarrow> \<not> b" "throw_if b e = Inl e' \<longleftrightarrow> b \<and> e' = e"
  by (auto simp: throw_if_def)

lemma rbind_throw_if: "rbind (throw_if b e) f = (if b then Inl e else f ())"
  by (simp add: throw_if_def)

lemma rfold_append: "rfold f (xs @ ys) s = rbind (rfold f xs s) (rfold f ys)"
  by (induction xs arbitrary: s) (auto simp: rbind_def split: sum.splits)

text \<open>A loop whose iterations fail independently of the state: the first offending element decides.\<close>

lemma rfold_step:
  assumes "\<And>x s. x \<in> set xs \<Longrightarrow> f x s = (case bad x of None \<Rightarrow> Inr (g x s) | Some e \<Rightarrow> Inl e)"
  shows "rfold f xs s = (case List.find (\<lambda>x. bad x \<noteq> None) xs of None \<Rightarrow> Inr (fold g xs s)
                         | Some x \<Rightarrow> Inl (the (bad x)))"
  using assms by (induction xs arbitrary: s) (auto split: option.splits)

lemma rfold_inv:
  assumes "rfold f xs s = Inr s'" "I s" "\<And>x s s'. x \<in> set xs \<Longrightarrow> I s \<Longrightarrow> f x s = Inr s' \<Longrightarrow> I s'"
  shows "I s'"
  using assms by (induction xs arbitrary: s) (auto simp: rbind_eq_Inr_iff)

text \<open>A loop that fills one cell of a vector per index.\<close>

lemma fold_update_nth:
  "distinct is \<Longrightarrow> k < length xs \<Longrightarrow>
   fold (\<lambda>i xs. xs[i := v i]) is xs ! k = (if k \<in> set is then v k else xs ! k)"
proof (induction "is" arbitrary: xs)
  case (Cons i "is")
  then show ?case by (cases "k = i") auto
qed simp

lemma length_fold_update [simp]: "length (fold (\<lambda>i xs. xs[i := v i]) is xs) = length xs"
  by (induction "is" arbitrary: xs) auto

lemma fold_update_upt: "length xs = n \<Longrightarrow> fold (\<lambda>i xs. xs[i := v i]) [0..<n] xs = map v [0..<n]"
  by (rule nth_equalityI) (simp_all add: fold_update_nth)

lemma set_strided:
  assumes "0 < stride"
  shows "set (strided i bound stride) = {k. i \<le> k \<and> k < bound \<and> (k - i) mod stride = 0}"
  using assms
proof (induction i bound stride rule: strided.induct)
  case (1 i bound stride)
  show ?case
  proof (cases "i < bound")
    case lt: True
    have eq: "{k. i \<le> k \<and> k < bound \<and> (k - i) mod stride = 0} =
        insert i {k. i + stride \<le> k \<and> k < bound \<and> (k - (i + stride)) mod stride = 0}" (is "?L = ?R")
    proof (rule set_eqI)
      fix k
      show "k \<in> ?L \<longleftrightarrow> k \<in> ?R"
      proof (cases "i + stride \<le> k")
        case True
        then have "k - i = (k - (i + stride)) + stride" by simp
        then have "(k - i) mod stride = (k - (i + stride)) mod stride" by simp
        with True lt show ?thesis by auto
      next
        case False
        then show ?thesis using lt "1.prems" by auto
      qed
    qed
    from lt 1 show ?thesis by (subst strided.simps) (simp add: eq)
  next
    case False
    then show ?thesis by (subst strided.simps) auto
  qed
qed

lemma strided_ge: "k \<in> set (strided i bound stride) \<Longrightarrow> i \<le> k"
proof (induction i bound stride rule: strided.induct)
  case (1 i bound stride)
  from "1.prems" have "i < bound \<and> 0 < stride \<and> (k = i \<or> k \<in> set (strided (i + stride) bound stride))"
    by (subst (asm) strided.simps) (simp split: if_splits)
  with "1.IH" show ?case by fastforce
qed

lemma distinct_strided: "distinct (strided i bound stride)"
proof (induction i bound stride rule: strided.induct)
  case (1 i bound stride)
  show ?case
  proof (cases "i < bound \<and> 0 < stride")
    case True
    then have "i \<notin> set (strided (i + stride) bound stride)"
      by (auto dest: strided_ge)
    with True 1 show ?thesis by (subst strided.simps) simp
  next
    case False
    then show ?thesis by (subst strided.simps) auto
  qed
qed

lemma mult_add_less: "q < a \<Longrightarrow> i < n \<Longrightarrow> q * n + i < a * (n::nat)"
proof -
  assume "q < a" "i < n"
  then have "Suc q * n \<le> a * n" by (intro mult_le_mono1) simp
  with \<open>i < n\<close> show ?thesis unfolding mult_Suc by linarith
qed

lemma mod_neq_close:
  fixes a b n :: nat
  assumes "a < b" "b < a + n" shows "a mod n \<noteq> b mod n"
proof
  assume "a mod n = b mod n"
  then have "n dvd b - a" using mod_eq_dvd_iff_nat[of a b n] assms(1) by simp
  then have "n \<le> b - a" using assms(1) by (intro dvd_imp_le) simp_all
  with assms show False by linarith
qed

lemma map_upt_mult:
  "map f [0..<a * b] = concat (map (\<lambda>i. map (\<lambda>j. f (i * b + j)) [0..<b]) [0..<a])"
proof (induction a)
  case (Suc a)
  have "map f [0..<Suc a * b] = map f [0..<a * b] @ map f [a * b..<a * b + b]"
    using upt_add_eq_append[of 0 "a * b" b] by (simp add: add.commute)
  also have "map f [a * b..<a * b + b] = map (\<lambda>j. f (a * b + j)) [0..<b]"
    by (rule nth_equalityI) simp_all
  finally show ?case using Suc by simp
qed simp

lemma upt_split: "n < t \<Longrightarrow> [0..<t] = [0..<n] @ n # [Suc n..<t]"
  using upt_add_eq_append[of 0 n "t - n"] upt_conv_Cons[of n t] by simp

section \<open>64-bit words as bounded naturals\<close>

lemma unat64_of_nat: "a < 2 ^ 64 \<Longrightarrow> unat (of_nat a :: 64 word) = a"
  by (simp add: unat_of_nat)

lemma word64_div_of_nat:
  "a < 2 ^ 64 \<Longrightarrow> b < 2 ^ 64 \<Longrightarrow> (of_nat a :: 64 word) div of_nat b = of_nat (a div b)"
  by (simp only: word_arith_nat_div unat64_of_nat)

lemma word64_eq_iff:
  "a < 2 ^ 64 \<Longrightarrow> b < 2 ^ 64 \<Longrightarrow> (of_nat a :: 64 word) = of_nat b \<longleftrightarrow> a = b"
  by (metis unat64_of_nat)

section \<open>Decimal numbers\<close>

definition is_digit :: "char \<Rightarrow> bool" where
  "is_digit c = ((48 :: nat) \<le> of_char c \<and> of_char c \<le> (57 :: nat))"

definition digit_value :: "char \<Rightarrow> nat" where
  "digit_value c = of_char c - 48"

definition digits_value :: "string \<Rightarrow> nat" where
  "digits_value ds = fold (\<lambda>c v. 10 * v + digit_value c) ds 0"

lemma digits_value_append: "digits_value (ds @ [c]) = 10 * digits_value ds + digit_value c"
  by (simp add: digits_value_def)

lemma digit_of_nat: "n < 10 \<Longrightarrow> is_digit (char_of (48 + n)) \<and> digit_value (char_of (48 + n)) = n"
  by (simp add: is_digit_def digit_value_def of_char_of)

lemma digits_string_of_nat: "list_all is_digit (string_of_nat n) \<and> digits_value (string_of_nat n) = n \<and> string_of_nat n \<noteq> []"
proof (induction n rule: string_of_nat.induct)
  case (1 n)
  then show ?case using digit_of_nat[of "n mod 10"] digit_of_nat[of n] digits_value_append[of "[]"]
    by (cases "n < 10") (simp_all add: string_of_nat.simps[of n] digits_value_append digits_value_def[of "[]"])
qed

end
