(* ===== verification/Types.thy ===== *)
theory Types
  imports Nano_Prelude
begin

text \<open>
  The public vocabulary of the library: data types, transports and reduction operators with
  their textual names (\<open>include/nano_nccl/types.h\<close>), the elementwise reduction of
  \<open>include/nano_nccl/traits.h\<close>, and the benchmark size sweep of \<open>src/benchmark.cc\<close>.

  Floating-point arithmetic is done by the GPU and is a parameter: a value of type
  \<open>'t num\<close> supplies addition, the three comparisons, the scaling by \<open>1 / nranks\<close>, and the
  lane functions of the packed intrinsics \<open>__hadd2\<close>, \<open>__hmax2_nan\<close>, \<open>__hmin2_nan\<close>.
  No law about it is assumed anywhere unless a statement says so.
\<close>

section \<open>Enumerations and their names\<close>

datatype DType = Float | Float16 | BFloat16

datatype TransportKind = Auto | Shm | P2p | Socket | Rdma | Mixed

datatype RedOp = RSum | RAvg | RMax | RMin

fun transport_name :: "TransportKind \<Rightarrow> string" where
  "transport_name Auto = ''auto''"
| "transport_name Shm = ''shm''"
| "transport_name P2p = ''p2p''"
| "transport_name Socket = ''socket''"
| "transport_name Rdma = ''rdma''"
| "transport_name Mixed = ''mixed''"

definition parse_transport :: "string \<Rightarrow> TransportKind option" where
  "parse_transport text =
     (if text = ''auto'' then Some Auto
      else if text = ''shm'' then Some Shm
      else if text = ''p2p'' then Some P2p
      else if text = ''socket'' then Some Socket
      else if text = ''rdma'' then Some Rdma
      else None)"

fun dtype_name :: "DType \<Rightarrow> string" where
  "dtype_name Float = ''float''"
| "dtype_name Float16 = ''fp16''"
| "dtype_name BFloat16 = ''bf16''"

definition parse_dtype :: "string \<Rightarrow> DType option" where
  "parse_dtype text =
     (if text = ''float'' then Some Float
      else if text = ''fp16'' then Some Float16
      else if text = ''bf16'' then Some BFloat16
      else None)"

fun redop_name :: "RedOp \<Rightarrow> string" where
  "redop_name RSum = ''sum''"
| "redop_name RAvg = ''avg''"
| "redop_name RMax = ''max''"
| "redop_name RMin = ''min''"

definition parse_redop :: "string \<Rightarrow> RedOp option" where
  "parse_redop text =
     (if text = ''sum'' then Some RSum
      else if text = ''avg'' then Some RAvg
      else if text = ''max'' then Some RMax
      else if text = ''min'' then Some RMin
      else None)"

text \<open>\<open>sizeof(DTypeTraits<dtype>::type)\<close>: \<open>float\<close>, \<open>__half\<close> and \<open>__nv_bfloat16\<close>.\<close>

fun sizeof :: "DType \<Rightarrow> nat" where
  "sizeof Float = 4"
| "sizeof Float16 = 2"
| "sizeof BFloat16 = 2"

section \<open>Elementwise reduction\<close>

record 't num =
  num_add :: "'t \<Rightarrow> 't \<Rightarrow> 't"
  num_ne :: "'t \<Rightarrow> 't \<Rightarrow> bool"
  num_gt :: "'t \<Rightarrow> 't \<Rightarrow> bool"
  num_lt :: "'t \<Rightarrow> 't \<Rightarrow> bool"
  num_scale :: "nat \<Rightarrow> 't \<Rightarrow> 't"
  num_hadd2 :: "'t \<Rightarrow> 't \<Rightarrow> 't"
  num_hmax2_nan :: "'t \<Rightarrow> 't \<Rightarrow> 't"
  num_hmin2_nan :: "'t \<Rightarrow> 't \<Rightarrow> 't"

fun redop_apply :: "'t num \<Rightarrow> RedOp \<Rightarrow> 't \<Rightarrow> 't \<Rightarrow> 't" where
  "redop_apply nm RSum a b = num_add nm a b"
| "redop_apply nm RAvg a b = num_add nm a b"
| "redop_apply nm RMax a b =
     (if num_ne nm a a then a else if num_ne nm b b then b else if num_gt nm a b then a else b)"
| "redop_apply nm RMin a b =
     (if num_ne nm a a then a else if num_ne nm b b then b else if num_lt nm a b then a else b)"

section \<open>Benchmark sizes\<close>

definition size_t_max :: nat where
  "size_t_max = 2 ^ 64 - 1"

lemma size_mult_no_wrap:
  assumes "\<not> size_t_max div factor < sz" "2 \<le> factor"
  shows "sz * factor mod 2 ^ 64 = sz * factor"
proof -
  have "sz * factor \<le> size_t_max div factor * factor"
    using assms by (intro mult_le_mono1) simp
  also have "\<dots> \<le> size_t_max" by simp
  finally show ?thesis by (simp add: size_t_max_def)
qed

text \<open>
  The loop of \<open>make_sizes\<close>. Its caller has checked \<open>0 < size\<close> and \<open>2 \<le> factor\<close>; the loop
  repeats the check so that it is total. The multiplication is the \<open>size_t\<close> one.
\<close>

function make_sizes_loop :: "nat \<Rightarrow> nat \<Rightarrow> nat \<Rightarrow> nat list" where
  "make_sizes_loop sz max_bytes factor =
     (if 0 < sz \<and> 2 \<le> factor \<and> sz \<le> max_bytes then
        sz # (if size_t_max div factor < sz then []
                else make_sizes_loop (sz * factor mod 2 ^ 64) max_bytes factor)
      else [])"
  by pat_completeness auto

termination
proof (relation "measure (\<lambda>(sz, max_bytes, factor). Suc max_bytes - sz)", goal_cases)
  case 1
  show ?case by simp
next
  case (2 sz max_bytes factor)
  then have "sz * factor mod 2 ^ 64 = sz * factor" "sz < sz * factor"
    using size_mult_no_wrap by auto
  with 2 diff_less_mono2[of sz "sz * factor" "Suc max_bytes"] show ?case by simp
qed

declare make_sizes_loop.simps [simp del]

definition make_sizes :: "nat \<Rightarrow> nat \<Rightarrow> int \<Rightarrow> nat list" where
  "make_sizes min_bytes max_bytes factor =
     (if min_bytes = 0 \<or> max_bytes < min_bytes \<or> factor < 2 then []
      else make_sizes_loop min_bytes max_bytes (nat factor))"

section \<open>Properties\<close>

lemma sizeof_cases: "sizeof dt = 4 \<or> sizeof dt = 2"
  by (cases dt) simp_all

lemma sizeof_pos [simp]: "0 < sizeof dt"
  by (cases dt) simp_all

lemma parse_name_roundtrips:
  "parse_dtype (dtype_name dt) = Some dt"
  "parse_redop (redop_name op) = Some op"
  by (cases dt; simp add: parse_dtype_def) (cases op; simp add: parse_redop_def)

lemma parse_transport_name:
  "parse_transport (transport_name k) = (if k = Mixed then None else Some k)"
  by (cases k) (simp_all add: parse_transport_def)

lemma parse_transport_sound: "parse_transport s = Some k \<Longrightarrow> transport_name k = s \<and> k \<noteq> Mixed"
  by (auto simp: parse_transport_def split: if_splits)

lemma parse_dtype_sound: "parse_dtype s = Some dt \<Longrightarrow> dtype_name dt = s"
  by (auto simp: parse_dtype_def split: if_splits)

lemma parse_redop_sound: "parse_redop s = Some op \<Longrightarrow> redop_name op = s"
  by (auto simp: parse_redop_def split: if_splits)

lemma make_sizes_loop_eq:
  assumes "0 < sz" "2 \<le> factor" "max_bytes \<le> size_t_max"
  shows "\<exists>n. make_sizes_loop sz max_bytes factor = map (\<lambda>k. sz * factor ^ k) [0..<n]
            \<and> max_bytes < sz * factor ^ n \<and> (\<forall>k<n. sz * factor ^ k \<le> max_bytes)"
  using assms
proof (induction sz max_bytes factor rule: make_sizes_loop.induct)
  case (1 sz max_bytes factor)
  consider (stop) "max_bytes < sz" | (last) "sz \<le> max_bytes" "size_t_max div factor < sz"
    | (go) "sz \<le> max_bytes" "\<not> size_t_max div factor < sz" by linarith
  then show ?case
  proof cases
    case stop
    then show ?thesis by (intro exI[of _ 0]) (simp add: make_sizes_loop.simps[of sz])
  next
    case last
    have "size_t_max < sz * factor"
      using last(2) "1.prems"(2) by (metis div_less_iff_less_mult less_le_trans zero_less_numeral)
    then show ?thesis
      using last "1.prems" by (intro exI[of _ 1]) (simp add: make_sizes_loop.simps[of sz])
  next
    case go
    have nw: "sz * factor mod 2 ^ 64 = sz * factor"
      using size_mult_no_wrap go "1.prems" by blast
    obtain n where n: "make_sizes_loop (sz * factor) max_bytes factor
          = map (\<lambda>k. sz * factor * factor ^ k) [0..<n]"
        "max_bytes < sz * factor * factor ^ n" "\<forall>k<n. sz * factor * factor ^ k \<le> max_bytes"
      using "1.IH" go "1.prems" unfolding nw by auto
    have "make_sizes_loop sz max_bytes factor = sz # map (\<lambda>k. sz * factor * factor ^ k) [0..<n]"
      using go "1.prems" n(1) nw by (simp add: make_sizes_loop.simps[of sz])
    also have "\<dots> = map (\<lambda>k. sz * factor ^ k) [0..<Suc n]"
      by (simp only: upt_conv_Cons[OF zero_less_Suc] map_Suc_upt[symmetric] list.map map_map)
         (simp add: o_def mult.assoc)
    finally have eq: "make_sizes_loop sz max_bytes factor = map (\<lambda>k. sz * factor ^ k) [0..<Suc n]" .
    have "\<forall>k<Suc n. sz * factor ^ k \<le> max_bytes"
      using n(3) go(1) by (auto simp: less_Suc_eq_0_disj mult.assoc)
    with eq n(2) show ?thesis by (intro exI[of _ "Suc n"]) (simp add: mult.assoc)
  qed
qed

end
