(* ===== verification/Geometry.thy ===== *)
theory Geometry
  imports Types
begin

text \<open>
  The arithmetic that cuts a buffer into channel parts, chunks, loops and slices
  (\<open>collective/all_reduce/ring_simple_geometry.h\<close>, \<open>transport/simple/geometry.h\<close>,
  \<open>transport/simple/protocol.h\<close>, \<open>transport/simple/step.h\<close>), and the layout of the
  head and tail counters of an edge (\<open>transport/simple/connection.h\<close>,
  \<open>transport/shm/shm_fifo.h\<close>, \<open>transport/p2p/p2p_step_counters.cu\<close>).

  The compile-time constants \<open>kRanks\<close> and \<open>kChannels\<close> are arguments. Sizes are natural
  numbers; \<open>cbd_part_word\<close> is the same computation on the 64-bit \<open>size_t\<close>, and a lemma
  gives the range in which the two agree.
\<close>

section \<open>Protocol constants\<close>

definition kFifoSteps :: nat where "kFifoSteps = 8"
definition kSliceSteps :: nat where "kSliceSteps = 2"
definition kChunkSteps :: nat where "kChunkSteps = 4"
definition kVectorBytes :: nat where "kVectorBytes = 16"
definition kFifoBytes :: nat where "kFifoBytes = 33554432"

lemmas simple_consts = kFifoSteps_def kSliceSteps_def kChunkSteps_def kVectorBytes_def kFifoBytes_def

definition step_elems :: "DType \<Rightarrow> nat" where
  "step_elems dt = kFifoBytes div kFifoSteps div sizeof dt"

section \<open>Chunks and slices\<close>

definition div_up :: "nat \<Rightarrow> nat \<Rightarrow> nat" where
  "div_up v divisor = (v + divisor - 1) div divisor"

definition align_up :: "nat \<Rightarrow> nat \<Rightarrow> nat" where
  "align_up v alignment = div_up v alignment * alignment"

definition vector_elems :: "DType \<Rightarrow> nat" where
  "vector_elems dt = kVectorBytes div sizeof dt"

definition slice_elems :: "DType \<Rightarrow> nat \<Rightarrow> nat \<Rightarrow> nat" where
  "slice_elems dt count nominal_step_elems =
     (let by_count = div_up count (vector_elems dt * kChunkSteps div kSliceSteps) * vector_elems dt;
          by_step = nominal_step_elems * kSliceSteps div 32
      in if by_step < by_count then by_count else by_step)"

definition simple_grain_elems :: "DType \<Rightarrow> nat" where
  "simple_grain_elems dt = 512 div sizeof dt"

definition ring_edge_index :: "nat \<Rightarrow> nat \<Rightarrow> nat \<Rightarrow> int" where
  "ring_edge_index src dst nranks = (if dst = (src + 1) mod nranks then int src else -1)"

text \<open>The three results \<open>(part_offset, part_count, chunk_count)\<close> of \<open>cbd_part<T>\<close>.\<close>

definition cbd_part :: "nat \<Rightarrow> nat \<Rightarrow> DType \<Rightarrow> nat \<Rightarrow> nat \<Rightarrow> nat \<times> nat \<times> nat" where
  "cbd_part kRanks kChannels dt count channel =
     (let v = vector_elems dt;
          begin0 = count * channel div kChannels;
          end0 = count * (channel + 1) div kChannels;
          part_begin = begin0 div v * v;
          part_end = (if channel + 1 \<noteq> kChannels then end0 div v * v else end0);
          part_count = part_end - part_begin
      in (part_begin, part_count,
          if part_count = 0 then 0
          else align_up (div_up part_count kRanks) (simple_grain_elems dt)))"

definition channel_part :: "nat \<Rightarrow> nat \<Rightarrow> nat \<Rightarrow> nat \<times> nat" where
  "channel_part kChannels count channel =
     (let part_begin = count * channel div kChannels;
          part_end = count * (channel + 1) div kChannels
      in (part_begin, part_end - part_begin))"

definition loop_chunk_elems :: "nat \<Rightarrow> nat \<Rightarrow> nat" where
  "loop_chunk_elems chunk_elems slot_elems = (if chunk_elems < slot_elems then chunk_elems else slot_elems)"

definition nelem :: "nat \<Rightarrow> nat \<Rightarrow> nat \<Rightarrow> nat" where
  "nelem chunk_count rem_count chunk_offset =
     (if rem_count \<le> chunk_offset then 0
      else let rem = rem_count - chunk_offset in if rem < chunk_count then rem else chunk_count)"

text \<open>\<open>cbd_part\<close> on the machine's \<open>size_t\<close>: the products and sums wrap at 64 bits.\<close>

definition cbd_part_word ::
  "64 word \<Rightarrow> 64 word \<Rightarrow> DType \<Rightarrow> 64 word \<Rightarrow> 64 word \<Rightarrow> 64 word \<times> 64 word \<times> 64 word" where
  "cbd_part_word kRanks kChannels dt count channel =
     (let v = of_nat (vector_elems dt);
          g = of_nat (simple_grain_elems dt);
          begin0 = count * channel div kChannels;
          end0 = count * (channel + 1) div kChannels;
          part_begin = begin0 div v * v;
          part_end = (if channel + 1 \<noteq> kChannels then end0 div v * v else end0);
          part_count = part_end - part_begin;
          per_rank = (part_count + kRanks - 1) div kRanks
      in (part_begin, part_count,
          if part_count = 0 then 0 else (per_rank + g - 1) div g * g))"

section \<open>Counters of an edge\<close>

text \<open>Byte offsets inside one connection region; \<open>sizeof(std::uint64_t)\<close> is 8.\<close>

definition kConnectionControlBytes :: "nat \<Rightarrow> nat" where
  "kConnectionControlBytes kChannels = 2 * kChannels * 8"

definition kConnectionDataOffset :: "nat \<Rightarrow> nat" where
  "kConnectionDataOffset kChannels = (kConnectionControlBytes kChannels + 255) div 256 * 256"

definition kConnectionRegionBytes :: "nat \<Rightarrow> nat" where
  "kConnectionRegionBytes kChannels = kConnectionDataOffset kChannels + kChannels * kFifoBytes"

definition connection_head :: "nat \<Rightarrow> nat \<Rightarrow> nat" where
  "connection_head region channel = region + channel * 8"

definition connection_tail :: "nat \<Rightarrow> nat \<Rightarrow> nat \<Rightarrow> nat" where
  "connection_tail kChannels region channel = region + (kChannels + channel) * 8"

definition connection_fifo :: "nat \<Rightarrow> nat \<Rightarrow> nat \<Rightarrow> nat" where
  "connection_fifo kChannels region channel =
     region + kConnectionDataOffset kChannels + channel * kFifoBytes"

text \<open>
  \<open>ControlArgs\<close> of one rank. A pointer is a value of an arbitrary type; \<open>None\<close> is the null
  pointer of the value-initialised struct.
\<close>

record 'p control_args =
  send_head :: "nat \<Rightarrow> 'p option"
  recv_tail :: "nat \<Rightarrow> 'p option"
  send_tail :: "nat \<Rightarrow> 'p option"
  recv_head :: "nat \<Rightarrow> 'p option"
  send_base_steps :: "'p option"
  recv_base_steps :: "'p option"

definition step_idx :: "nat \<Rightarrow> nat \<Rightarrow> nat \<Rightarrow> nat \<Rightarrow> nat \<Rightarrow> nat" where
  "step_idx kRanks kChannels kind channel edge = (kind * kChannels + channel) * kRanks + edge"

definition make_simple_control_args :: "nat \<Rightarrow> nat \<Rightarrow> nat \<Rightarrow> nat \<Rightarrow> nat \<Rightarrow> nat control_args" where
  "make_simple_control_args kRanks kChannels steps base_steps rank =
     (let send_edge = rank; recv_edge = (rank + kRanks - 1) mod kRanks in
      \<lparr> send_head = (\<lambda>ch. if ch < kChannels then Some (steps + step_idx kRanks kChannels 0 ch send_edge) else None),
        recv_tail = (\<lambda>ch. if ch < kChannels then Some (steps + step_idx kRanks kChannels 1 ch recv_edge) else None),
        send_tail = (\<lambda>ch. if ch < kChannels then Some (steps + step_idx kRanks kChannels 1 ch send_edge) else None),
        recv_head = (\<lambda>ch. if ch < kChannels then Some (steps + step_idx kRanks kChannels 0 ch recv_edge) else None),
        send_base_steps = Some (base_steps + rank * kChannels),
        recv_base_steps = Some (base_steps + (kRanks + rank) * kChannels) \<rparr>)"

text \<open>
  \<open>P2pStepCounters\<close>: one buffer of \<open>4 * kChannels\<close> counters per rank; a pointer is the
  owning rank with the index into its buffer. \<open>edge_kind\<close> is \<open>RingTransportPlan::edge_kind\<close>
  and \<open>allocated\<close> says which entries of \<open>counters_\<close> are non-null.
\<close>

definition p2p_counters_allocated :: "nat \<Rightarrow> (nat \<Rightarrow> TransportKind) \<Rightarrow> nat \<Rightarrow> bool" where
  "p2p_counters_allocated kRanks edge_kind rank =
     (\<not> (edge_kind rank \<noteq> P2p \<and> edge_kind ((rank + kRanks - 1) mod kRanks) \<noteq> P2p))"

definition p2p_control_args ::
  "nat \<Rightarrow> nat \<Rightarrow> (nat \<Rightarrow> TransportKind) \<Rightarrow> (nat \<Rightarrow> bool) \<Rightarrow> nat \<Rightarrow> (nat \<times> nat) control_args" where
  "p2p_control_args kRanks kChannels edge_kind allocated rank =
     (let prev = (rank + kRanks - 1) mod kRanks in
      \<lparr> send_head = (\<lambda>ch. if ch < kChannels \<and> edge_kind rank = P2p then Some (rank, ch) else None),
        recv_tail = (\<lambda>ch. if ch < kChannels \<and> edge_kind prev = P2p then Some (rank, kChannels + ch) else None),
        send_tail = (\<lambda>ch. if ch < kChannels \<and> edge_kind rank = P2p
                          then Some ((rank + 1) mod kRanks, kChannels + ch) else None),
        recv_head = (\<lambda>ch. if ch < kChannels \<and> edge_kind prev = P2p then Some (prev, ch) else None),
        send_base_steps = (if allocated rank then Some (rank, 2 * kChannels) else None),
        recv_base_steps = (if allocated rank then Some (rank, 3 * kChannels) else None) \<rparr>)"

section \<open>Merging the resources of several transports\<close>

text \<open>
  \<open>SimpleConnectionView\<close> and \<open>merge_connection_resources\<close>: each of the up to four transports
  fills in the channels it serves; filling one side of a channel twice is a logic error.
  The list of owners is kept as a list of tokens.
\<close>

record ('p, 'o) connection_resources =
  v_send_fifo :: "nat \<Rightarrow> 'p option"
  v_recv_fifo :: "nat \<Rightarrow> 'p option"
  v_send_head :: "nat \<Rightarrow> 'p option"
  v_send_tail :: "nat \<Rightarrow> 'p option"
  v_recv_head :: "nat \<Rightarrow> 'p option"
  v_recv_tail :: "nat \<Rightarrow> 'p option"
  owners :: "'o list"

definition merge_send ::
  "('p, 'o) connection_resources \<Rightarrow> nat \<Rightarrow> ('p, 'o) connection_resources \<Rightarrow>
   ('p, 'o) connection_resources result" where
  "merge_send src ch d =
     (if v_send_fifo src ch \<noteq> None then
        if v_send_fifo d ch \<noteq> None
        then Inl (Logic_error ''multiple transports published one Simple send connection'')
        else Inr (d\<lparr> v_send_fifo := (v_send_fifo d)(ch := v_send_fifo src ch),
                     v_send_head := (v_send_head d)(ch := v_send_head src ch),
                     v_send_tail := (v_send_tail d)(ch := v_send_tail src ch) \<rparr>)
      else Inr d)"

definition merge_recv ::
  "('p, 'o) connection_resources \<Rightarrow> nat \<Rightarrow> ('p, 'o) connection_resources \<Rightarrow>
   ('p, 'o) connection_resources result" where
  "merge_recv src ch d =
     (if v_recv_fifo src ch \<noteq> None then
        if v_recv_fifo d ch \<noteq> None
        then Inl (Logic_error ''multiple transports published one Simple receive connection'')
        else Inr (d\<lparr> v_recv_fifo := (v_recv_fifo d)(ch := v_recv_fifo src ch),
                     v_recv_head := (v_recv_head d)(ch := v_recv_head src ch),
                     v_recv_tail := (v_recv_tail d)(ch := v_recv_tail src ch) \<rparr>)
      else Inr d)"

fun merge_channels ::
  "('p, 'o) connection_resources \<Rightarrow> nat list \<Rightarrow> ('p, 'o) connection_resources \<Rightarrow>
   ('p, 'o) connection_resources result" where
  "merge_channels src [] d = Inr d"
| "merge_channels src (ch # chs) d =
     rbind (merge_send src ch d) (\<lambda>d1. rbind (merge_recv src ch d1) (merge_channels src chs))"

definition merge_connection_resources ::
  "nat \<Rightarrow> ('p, 'o) connection_resources \<Rightarrow> ('p, 'o) connection_resources \<Rightarrow>
   ('p, 'o) connection_resources result" where
  "merge_connection_resources kChannels d src =
     rbind (merge_channels src [0..<kChannels] d) (\<lambda>d1. Inr (d1\<lparr>owners := owners d1 @ owners src\<rparr>))"

section \<open>Lemmas on ceilings and slices\<close>

lemma div_up_mult_ge [nano_arith]: "0 < d \<Longrightarrow> v \<le> div_up v d * d"
proof -
  assume d: "0 < d"
  have "v + d - 1 < ((v + d - 1) div d + 1) * d"
    using d by (simp add: dividend_less_div_times)
  with d show ?thesis by (simp add: div_up_def)
qed

lemma div_up_le_iff: "0 < d \<Longrightarrow> div_up v d \<le> k \<longleftrightarrow> v \<le> k * d"
proof -
  assume d: "0 < d"
  have "div_up v d \<le> k \<longleftrightarrow> (v + d - 1) div d < k + 1" by (simp add: div_up_def less_Suc_eq_le)
  also have "\<dots> \<longleftrightarrow> v + d - 1 < (k + 1) * d" using d by (simp add: div_less_iff_less_mult)
  also have "\<dots> \<longleftrightarrow> v \<le> k * d" using d by auto
  finally show ?thesis .
qed

lemma div_up_pos: "0 < d \<Longrightarrow> 0 < v \<Longrightarrow> 0 < div_up v d"
  using div_up_mult_ge[of d v] by (metis gr0I leD mult_0)

lemma align_up_ge [nano_arith]: "0 < a \<Longrightarrow> v \<le> align_up v a"
  by (simp add: align_up_def div_up_mult_ge)

lemma align_up_le_multiple:
  assumes "0 < a" "a dvd k" "v \<le> k" shows "align_up v a \<le> k"
proof -
  from assms(2) obtain m where m: "k = m * a" by (metis dvdE mult.commute)
  have "div_up v a \<le> m" using assms m by (simp add: div_up_le_iff)
  then show ?thesis by (simp add: align_up_def m)
qed

lemma align_up_dvd [simp]: "a dvd align_up v a"
  by (simp add: align_up_def)

lemma vector_elems_eq: "vector_elems dt = (case dt of Float \<Rightarrow> 4 | Float16 \<Rightarrow> 8 | BFloat16 \<Rightarrow> 8)"
  by (cases dt) (simp_all add: vector_elems_def simple_consts)

lemma vector_elems_pos [simp]: "0 < vector_elems dt"
  by (cases dt) (simp_all add: vector_elems_eq)

lemma simple_grain_elems_eq: "simple_grain_elems dt = 32 * vector_elems dt"
  by (cases dt) (simp_all add: vector_elems_eq simple_grain_elems_def)

lemma slice_elems_covers: "n \<le> 2 * slice_elems dt n st"
proof -
  have v: "vector_elems dt * kChunkSteps div kSliceSteps = 2 * vector_elems dt"
    by (simp add: simple_consts)
  have "n \<le> div_up n (2 * vector_elems dt) * (2 * vector_elems dt)"
    by (rule div_up_mult_ge) simp
  also have "\<dots> = 2 * (div_up n (2 * vector_elems dt) * vector_elems dt)" by simp
  also have "\<dots> \<le> 2 * slice_elems dt n st"
    unfolding slice_elems_def v Let_def by auto
  finally show ?thesis .
qed

lemma slice_elems_pos: "0 < n \<Longrightarrow> 0 < slice_elems dt n st"
  using slice_elems_covers[of n dt st] by linarith

lemma nelem_le: "nelem c rem off \<le> c" "nelem c rem off \<le> rem - off"
  by (auto simp: nelem_def Let_def)

lemma nelem_eq: "nelem c rem off = min c (rem - off)"
  by (auto simp: nelem_def Let_def)

section \<open>Channel parts\<close>

text \<open>Start of channel \<open>ch\<close> under either partition: \<open>cbd_begin\<close> rounds down to the vector width.\<close>

definition cbd_begin :: "nat \<Rightarrow> DType \<Rightarrow> nat \<Rightarrow> nat \<Rightarrow> nat" where
  "cbd_begin kChannels dt count ch =
     (if ch = kChannels then count
      else count * ch div kChannels div vector_elems dt * vector_elems dt)"

lemma cbd_part_begin:
  assumes "ch < kChannels"
  shows "fst (cbd_part kRanks kChannels dt count ch) = cbd_begin kChannels dt count ch"
    and "fst (snd (cbd_part kRanks kChannels dt count ch)) =
           cbd_begin kChannels dt count (Suc ch) - cbd_begin kChannels dt count ch"
  using assms nonzero_mult_div_cancel_right[of "Suc ch" count]
  by (auto simp: cbd_part_def cbd_begin_def Let_def simp del: mult_Suc_right)

lemma cbd_begin_mono_Suc:
  assumes "ch < kChannels"
  shows "cbd_begin kChannels dt count ch \<le> cbd_begin kChannels dt count (Suc ch)"
proof -
  have le: "count * ch div kChannels \<le> count * Suc ch div kChannels"
    by (intro div_le_mono mult_le_mono2) simp
  show ?thesis
  proof (cases "Suc ch = kChannels")
    case True
    have "count * ch div kChannels div vector_elems dt * vector_elems dt \<le> count * ch div kChannels"
      by simp
    also have "\<dots> \<le> count * kChannels div kChannels" using le True by simp
    finally show ?thesis using True assms by (simp add: cbd_begin_def)
  next
    case False
    then show ?thesis using assms le by (simp add: cbd_begin_def div_le_mono mult_le_mono1)
  qed
qed

lemma mono_upto:
  fixes b :: "nat \<Rightarrow> nat"
  assumes mono: "\<And>ch. ch < n \<Longrightarrow> b ch \<le> b (Suc ch)" and "i \<le> j" "j \<le> n"
  shows "b i \<le> b j"
  using assms(2,3)
proof (induction j)
  case 0 then show ?case by simp
next
  case (Suc j)
  then show ?case using mono[of j] by (cases "i = Suc j") fastforce+
qed

lemma partition_cover:
  fixes b :: "nat \<Rightarrow> nat"
  assumes mono: "\<And>ch. ch < n \<Longrightarrow> b ch \<le> b (Suc ch)" and "b 0 = 0"
  shows "(\<Union>ch<n. {b ch..<b (Suc ch)}) = {0..<b n}"
  using mono
proof (induction n)
  case 0
  then show ?case using assms(2) by simp
next
  case (Suc n)
  have "(\<Union>ch<Suc n. {b ch..<b (Suc ch)}) = {0..<b n} \<union> {b n..<b (Suc n)}"
    using Suc by (auto simp: lessThan_Suc)
  also have "\<dots> = {0..<b (Suc n)}" using Suc.prems[of n] by (simp add: ivl_disj_un)
  finally show ?case .
qed

lemma cbd_chunk_bounds:
  assumes "cbd_part kRanks kChannels dt count ch = (po, pc, cc)" "0 < kRanks"
  shows "pc \<le> kRanks * cc" and "simple_grain_elems dt dvd cc" and "pc = 0 \<longleftrightarrow> cc = 0"
proof -
  have cc: "cc = (if pc = 0 then 0 else align_up (div_up pc kRanks) (simple_grain_elems dt))"
    using assms(1) by (auto simp: cbd_part_def Let_def)
  have g: "0 < simple_grain_elems dt" by (simp add: simple_grain_elems_eq)
  have le: "div_up pc kRanks \<le> align_up (div_up pc kRanks) (simple_grain_elems dt)"
    using g by (rule align_up_ge)
  have "pc \<le> div_up pc kRanks * kRanks" using assms(2) by (rule div_up_mult_ge)
  also have "\<dots> \<le> align_up (div_up pc kRanks) (simple_grain_elems dt) * kRanks"
    using le by (rule mult_le_mono1)
  finally show "pc \<le> kRanks * cc" using cc by (auto simp: mult.commute)
  show "simple_grain_elems dt dvd cc" using cc by simp
  show "pc = 0 \<longleftrightarrow> cc = 0"
    using cc le div_up_pos[OF assms(2), of pc] by (cases "pc = 0") auto
qed

section \<open>Machine-word agreement\<close>

lemma cbd_part_word_agrees:
  assumes ch: "ch < kChannels" and mul: "count * kChannels < 2 ^ 64"
    and room: "count + kRanks + 256 \<le> 2 ^ 64" and kC: "kChannels < 2 ^ 64" and kR: "0 < kRanks"
  shows "cbd_part_word (of_nat kRanks) (of_nat kChannels) dt (of_nat count) (of_nat ch) =
         map_prod of_nat (map_prod of_nat of_nat) (cbd_part kRanks kChannels dt count ch)"
proof -
  define v g where "v = vector_elems dt" and "g = simple_grain_elems dt"
  have vg: "0 < v" "v \<le> 8" "0 < g" "g \<le> 256"
    by (cases dt; simp add: v_def g_def vector_elems_eq simple_grain_elems_eq)+
  define b0 e0 where "b0 = count * ch div kChannels" and "e0 = count * (ch + 1) div kChannels"
  define b e where "b = b0 div v * v" and "e = (if ch + 1 \<noteq> kChannels then e0 div v * v else e0)"
  have m1: "count * ch < 2 ^ 64" "count * (ch + 1) < 2 ^ 64"
    using mul ch mult_le_mono2[of ch kChannels count] mult_le_mono2[of "ch + 1" kChannels count]
    by linarith+
  have e0c: "e0 \<le> count" and b0c: "b0 \<le> count"
    using div_le_mono[OF mult_le_mono2[of "ch + 1" kChannels count], of kChannels]
      div_le_mono[OF mult_le_mono2[of ch kChannels count], of kChannels] ch
    unfolding e0_def b0_def by auto
  have be: "b = cbd_begin kChannels dt count ch" "e = cbd_begin kChannels dt count (Suc ch)"
    using ch nonzero_mult_div_cancel_right[of "Suc ch" count]
    by (auto simp: b_def e_def b0_def e0_def v_def cbd_begin_def simp del: mult_Suc_right)
  have ble: "b \<le> e" unfolding be using ch by (rule cbd_begin_mono_Suc)
  have ec: "e \<le> count" unfolding e_def using e0c le_trans[OF div_times_less_eq_dividend[of e0 v], of count] by simp
  have lt: "b < 2 ^ 64" "e < 2 ^ 64" "b0 < 2 ^ 64" "e0 < 2 ^ 64" using ble ec b0c e0c room by auto
  have wb0: "(of_nat count :: 64 word) * of_nat ch div of_nat kChannels = of_nat b0"
    unfolding b0_def of_nat_mult[symmetric] using m1(1) kC by (rule word64_div_of_nat)
  have we0: "(of_nat count :: 64 word) * (of_nat ch + 1) div of_nat kChannels = of_nat e0"
    unfolding e0_def using word64_div_of_nat[OF m1(2) kC] by (simp only: of_nat_mult of_nat_add of_nat_1)
  have neq: "(of_nat ch + 1 :: 64 word) \<noteq> of_nat kChannels \<longleftrightarrow> ch + 1 \<noteq> kChannels"
    using word64_eq_iff[of "ch + 1" kChannels] ch kC by (simp add: add.commute)
  have wb: "(of_nat b0 :: 64 word) div of_nat v * of_nat v = of_nat b"
    using word64_div_of_nat[of b0 v] lt vg by (simp add: b_def)
  have we: "(if (of_nat ch + 1 :: 64 word) \<noteq> of_nat kChannels
             then of_nat e0 div of_nat v * of_nat v else of_nat e0) = (of_nat e :: 64 word)"
    unfolding neq using word64_div_of_nat[of e0 v] lt vg by (simp add: e_def)
  have pc: "(of_nat e - of_nat b :: 64 word) = of_nat (e - b)" using ble by simp
  have pc0: "(of_nat (e - b) :: 64 word) = 0 \<longleftrightarrow> e - b = 0"
    using word64_eq_iff[of "e - b" 0] lt by simp
  have per: "(of_nat (e - b) + of_nat kRanks - 1 :: 64 word) div of_nat kRanks = of_nat (div_up (e - b) kRanks)"
    using word64_div_of_nat[of "e - b + kRanks - 1" kRanks] room ec kR
    by (simp add: div_up_def of_nat_diff)
  have dle: "div_up (e - b) kRanks \<le> e - b"
    using kR by (subst div_up_le_iff) auto
  have al: "(of_nat (div_up (e - b) kRanks) + of_nat g - 1 :: 64 word) div of_nat g * of_nat g
            = of_nat (align_up (div_up (e - b) kRanks) g)"
    using word64_div_of_nat[of "div_up (e - b) kRanks + g - 1" g] dle room ec vg
    by (simp add: align_up_def div_up_def[of _ g] of_nat_diff)
  show ?thesis
    unfolding cbd_part_word_def cbd_part_def Let_def v_def[symmetric] g_def[symmetric] wb0 we0 wb we pc
      pc0 per al b0_def[symmetric] e0_def[symmetric] b_def[symmetric] e_def[symmetric]
    by simp
qed

section \<open>Properties of the geometry\<close>

definition part_range :: "nat \<times> nat \<times> nat \<Rightarrow> nat set" where
  "part_range = (\<lambda>(part_offset, part_count, chunk_count). {part_offset..<part_offset + part_count})"

lemma part_range_cbd:
  assumes "ch < kChannels"
  shows "part_range (cbd_part kRanks kChannels dt count ch) =
         {cbd_begin kChannels dt count ch..<cbd_begin kChannels dt count (Suc ch)}"
  using cbd_part_begin[OF assms, of kRanks dt count] cbd_begin_mono_Suc[OF assms, of dt count]
  by (cases "cbd_part kRanks kChannels dt count ch") (simp add: part_range_def)

lemma disjoint_consecutive:
  fixes b :: "nat \<Rightarrow> nat"
  assumes mono: "\<And>ch. ch < n \<Longrightarrow> b ch \<le> b (Suc ch)" and "i < n" "j < n" "i \<noteq> j"
  shows "{b i..<b (Suc i)} \<inter> {b j..<b (Suc j)} = {}"
proof -
  have "b (Suc i) \<le> b j \<or> b (Suc j) \<le> b i"
    using assms(2-4) mono_upto[of n b "Suc i" j] mono_upto[of n b "Suc j" i] mono
    by (cases "i < j") auto
  then show ?thesis by auto
qed

lemma cbd_begin_0: "0 < kChannels \<Longrightarrow> cbd_begin kChannels dt count 0 = 0"
  and cbd_begin_top: "cbd_begin kChannels dt count kChannels = count"
  by (simp_all add: cbd_begin_def)

text \<open>\<open>cbd_part\<close> cuts a buffer of \<open>count\<close> elements into channel parts that cover every
  element exactly once (the union is the buffer and distinct channels are disjoint), every
  channel starts on the 16-byte vector width, and the ranks' chunks of a part cover it.\<close>

theorem cbd_part_partition:
  assumes "0 < kChannels" "0 < kRanks"
  shows "(\<Union>ch<kChannels. part_range (cbd_part kRanks kChannels dt count ch)) = {0..<count} \<and>
         (\<forall>i<kChannels. \<forall>j<kChannels. i \<noteq> j \<longrightarrow>
            part_range (cbd_part kRanks kChannels dt count i) \<inter>
            part_range (cbd_part kRanks kChannels dt count j) = {}) \<and>
         (\<forall>ch<kChannels. case cbd_part kRanks kChannels dt count ch of (part_offset, part_count, chunk_count) \<Rightarrow>
            16 dvd part_offset * sizeof dt \<and> part_count \<le> kRanks * chunk_count)"
proof (intro conjI allI impI)
  let ?b = "cbd_begin kChannels dt count"
  show "(\<Union>ch<kChannels. part_range (cbd_part kRanks kChannels dt count ch)) = {0..<count}"
    using partition_cover[of kChannels ?b] cbd_begin_mono_Suc[of _ kChannels dt count] assms(1)
    by (simp add: part_range_cbd cbd_begin_0 cbd_begin_top)
  fix i j assume "i < kChannels" "j < kChannels" "i \<noteq> j"
  then show "part_range (cbd_part kRanks kChannels dt count i) \<inter>
             part_range (cbd_part kRanks kChannels dt count j) = {}"
    using disjoint_consecutive[of kChannels ?b i j] cbd_begin_mono_Suc[of _ kChannels dt count]
    by (simp add: part_range_cbd)
next
  fix ch assume ch: "ch < kChannels"
  obtain po pc cc where p: "cbd_part kRanks kChannels dt count ch = (po, pc, cc)"
    by (cases "cbd_part kRanks kChannels dt count ch") auto
  have "vector_elems dt dvd po" using cbd_part_begin(1)[OF ch, of kRanks dt count] ch p
    by (simp add: cbd_begin_def)
  then have "vector_elems dt * sizeof dt dvd po * sizeof dt" by (rule mult_dvd_mono) simp
  moreover have "vector_elems dt * sizeof dt = 16" by (cases dt) (simp_all add: vector_elems_eq)
  ultimately show "case cbd_part kRanks kChannels dt count ch of (part_offset, part_count, chunk_count) \<Rightarrow>
            16 dvd part_offset * sizeof dt \<and> part_count \<le> kRanks * chunk_count"
    using cbd_chunk_bounds(1)[OF p assms(2)] p by simp
qed

theorem cbd_part_partition_witness:
  "(\<Union>ch<3. part_range (cbd_part 4 3 Float16 1001 ch)) = {0..<1001} \<and>
   part_range (cbd_part 4 3 Float16 1001 1) = {328..<664}"
proof
  show "(\<Union>ch<3. part_range (cbd_part 4 3 Float16 1001 ch)) = {0..<1001}"
    by (rule cbd_part_partition[THEN conjunct1]) simp_all
  show "part_range (cbd_part 4 3 Float16 1001 1) = {328..<664}"
    by (simp add: cbd_part_def part_range_def vector_elems_eq Let_def)
qed

lemma channel_begin_mono: "count * ch div C \<le> count * Suc ch div (C::nat)"
  by (intro div_le_mono mult_le_mono2) simp

text \<open>\<open>channel_part\<close>, the partition used by ReduceScatter and AllGather, assigns every
  index below \<open>count\<close> to exactly one channel.\<close>

theorem channel_part_partition:
  assumes "0 < kChannels" "i < count"
  shows "\<exists>!ch. ch < kChannels \<and>
           (case channel_part kChannels count ch of (part_offset, part_count) \<Rightarrow>
              part_offset \<le> i \<and> i < part_offset + part_count)"
proof -
  let ?b = "\<lambda>ch. count * ch div kChannels"
  have eq: "(case channel_part kChannels count ch of (part_offset, part_count) \<Rightarrow>
              part_offset \<le> i \<and> i < part_offset + part_count) \<longleftrightarrow> i \<in> {?b ch..<?b (Suc ch)}" for ch
    using channel_begin_mono[of count ch kChannels] by (auto simp: channel_part_def Let_def)
  have "i \<in> (\<Union>ch<kChannels. {?b ch..<?b (Suc ch)})"
    using partition_cover[of kChannels ?b] channel_begin_mono assms by simp
  then obtain ch where ch: "ch < kChannels" "i \<in> {?b ch..<?b (Suc ch)}" by blast
  have "ch' = ch" if "ch' < kChannels" "i \<in> {?b ch'..<?b (Suc ch')}" for ch'
    using disjoint_consecutive[of kChannels ?b ch ch'] channel_begin_mono ch that by blast
  with ch show ?thesis unfolding eq by blast
qed

theorem channel_part_partition_witness:
  "(\<exists>!ch. ch < 4 \<and> (case channel_part 4 10 ch of (part_offset, part_count) \<Rightarrow>
      part_offset \<le> 7 \<and> 7 < part_offset + part_count)) \<and> channel_part 4 10 3 = (7, 3)"
  using channel_part_partition[of 4 7 10] by (simp add: channel_part_def)

text \<open>on the 64-bit \<open>size_t\<close> of the machine \<open>cbd_part\<close> computes the mathematical
  partition as long as \<open>count * kChannels\<close> does not reach \<open>2 ^ 64\<close>.\<close>

theorem cbd_part_word_refines:
  assumes "ch < kChannels" "count * kChannels < 2 ^ 64" "count + kRanks + 256 \<le> 2 ^ 64"
    "kChannels < 2 ^ 64" "0 < kRanks"
  shows "cbd_part_word (of_nat kRanks) (of_nat kChannels) dt (of_nat count) (of_nat ch) =
         map_prod of_nat (map_prod of_nat of_nat) (cbd_part kRanks kChannels dt count ch)"
  using assms by (rule cbd_part_word_agrees)

theorem cbd_part_word_refines_witness:
  "cbd_part_word 4 4 Float 1000 2 = (500, 248, 128)"
  using cbd_part_word_refines[of 2 4 1000 4 Float]
  by (simp add: cbd_part_def Let_def vector_elems_eq simple_grain_elems_eq align_up_def div_up_def)

text \<open>Outside that range the product wraps: the last channel of \<open>2 ^ 62\<close> floats ends at 0.\<close>

lemma cbd_part_word_wraps:
  "fst (snd (cbd_part 4 4 Float (2 ^ 62) 3)) = 2 ^ 60 \<and>
   fst (snd (cbd_part_word 4 4 Float (2 ^ 62) 3)) = - 3 * 2 ^ 60"
  by (simp add: cbd_part_word_def cbd_part_def Let_def vector_elems_eq)

section \<open>Properties of the counters\<close>

lemma ring_prev_next:
  "r < n \<Longrightarrow> ((r + 1) mod n + n - 1) mod n = (r::nat)"
  by (cases "r + 1 = n") auto

lemma ring_next_prev:
  "r < n \<Longrightarrow> ((r + n - 1) mod n + 1) mod n = (r::nat)"
  by (cases "r = 0") (auto simp: mod_if)

lemma step_idx_inj:
  assumes "c < C" "c' < C" "e < N" "e' < N" "step_idx N C k c e = step_idx N C k' c' e'"
  shows "k = k' \<and> c = c' \<and> e = e'"
proof -
  have "(k * C + c) * N + e = (k' * C + c') * N + e'" using assms(5) by (simp add: step_idx_def)
  then have "e = e'" "k * C + c = k' * C + c'"
    using assms(3,4) by (metis mod_mult_self3 mod_less, metis div_mult_self3 div_less add.right_neutral less_nat_zero_code)
  moreover from this(2) have "c = c'" "k = k'"
    using assms(1,2) by (metis mod_mult_self3 mod_less, metis div_mult_self3 div_less add.right_neutral less_nat_zero_code)
  ultimately show ?thesis by simp
qed

text \<open>in the shared-memory control block the two ends of a ring edge use the same head and
  the same tail counter, and counters of different kinds, channels or edges are different words.\<close>

theorem shm_control_args_shared:
  assumes "r < kRanks" "ch < kChannels"
  shows "let s = make_simple_control_args kRanks kChannels steps base r;
             d = make_simple_control_args kRanks kChannels steps base ((r + 1) mod kRanks)
         in send_head s ch = recv_head d ch \<and> send_tail s ch = recv_tail d ch \<and>
            send_head s ch \<noteq> send_tail s ch \<and>
            (\<forall>r'<kRanks. \<forall>ch'<kChannels. (r', ch') \<noteq> (r, ch) \<longrightarrow>
               send_head (make_simple_control_args kRanks kChannels steps base r') ch' \<noteq> send_head s ch \<and>
               send_tail (make_simple_control_args kRanks kChannels steps base r') ch' \<noteq> send_tail s ch)"
proof -
  have "((r + 1) mod kRanks + kRanks - 1) mod kRanks = r" using assms(1) by (rule ring_prev_next)
  moreover have "step_idx kRanks kChannels 0 ch r \<noteq> step_idx kRanks kChannels 1 ch r"
    using step_idx_inj[of ch kChannels ch r kRanks r 0 1] assms by auto
  moreover have "step_idx kRanks kChannels k ch' r' \<noteq> step_idx kRanks kChannels k ch r"
    if "r' < kRanks" "ch' < kChannels" "(r', ch') \<noteq> (r, ch)" for r' ch' k
    using step_idx_inj[of ch' kChannels ch r' kRanks r k k] assms that by auto
  ultimately show ?thesis using assms by (simp add: make_simple_control_args_def Let_def)
qed

theorem shm_control_args_shared_witness:
  "send_tail (make_simple_control_args 4 2 100 500 3) 1 = Some 115 \<and>
   recv_tail (make_simple_control_args 4 2 100 500 0) 1 = Some 115"
  using shm_control_args_shared[of 3 4 1 2 100 500]
  by (simp add: make_simple_control_args_def step_idx_def Let_def)

text \<open>the same for the peer-to-peer counters: both ends of a P2P edge use the head kept by
  the sender and the tail kept by the receiver, those pointers are null on other edges, and a
  rank with a P2P edge on either side has its counter buffer.\<close>

theorem p2p_control_args_shared:
  assumes "r < kRanks" "ch < kChannels"
  shows "let alloc = p2p_counters_allocated kRanks ek;
             s = p2p_control_args kRanks kChannels ek alloc r;
             d = p2p_control_args kRanks kChannels ek alloc ((r + 1) mod kRanks)
         in send_head s ch = recv_head d ch \<and> send_tail s ch = recv_tail d ch \<and>
            (send_head s ch \<noteq> None \<longleftrightarrow> ek r = P2p) \<and>
            (ek r = P2p \<longrightarrow> send_head s ch \<noteq> send_tail s ch \<and>
               send_base_steps s \<noteq> None \<and> recv_base_steps d \<noteq> None)"
  using assms ring_prev_next[OF assms(1)]
  by (auto simp: p2p_control_args_def p2p_counters_allocated_def Let_def)

theorem p2p_control_args_shared_witness:
  "send_tail (p2p_control_args 4 2 (\<lambda>_. P2p) (p2p_counters_allocated 4 (\<lambda>_. P2p)) 3) 1 = Some (0, 3)"
  using p2p_control_args_shared[of 3 4 1 2 "\<lambda>_. P2p"]
  by (simp add: p2p_control_args_def Let_def)

text \<open>the layout of a connection region: head words, tail words and FIFO rings of all
  channels lie inside the region, do not overlap, and every ring starts 256-byte aligned
  relative to the region.\<close>

theorem connection_layout:
  assumes "a < kChannels" "b < kChannels"
  shows "connection_head R a + 8 \<le> connection_tail kChannels R b \<and>
         connection_tail kChannels R b + 8 \<le> connection_fifo kChannels R a \<and>
         connection_fifo kChannels R a + kFifoBytes \<le> R + kConnectionRegionBytes kChannels \<and>
         256 dvd connection_fifo kChannels R a - R \<and>
         (a < b \<longrightarrow> connection_head R a + 8 \<le> connection_head R b \<and>
            connection_tail kChannels R a + 8 \<le> connection_tail kChannels R b \<and>
            connection_fifo kChannels R a + kFifoBytes \<le> connection_fifo kChannels R b)"
proof -
  have "a * kFifoBytes + kFifoBytes \<le> kChannels * kFifoBytes"
    using mult_le_mono1[of "Suc a" kChannels kFifoBytes] assms by simp
  moreover have "a < b \<Longrightarrow> a * kFifoBytes + kFifoBytes \<le> b * kFifoBytes"
    using mult_le_mono1[of "Suc a" b kFifoBytes] by simp
  moreover have "2 * kChannels * 8 \<le> (2 * kChannels * 8 + 255) div 256 * 256"
    using div_up_mult_ge[of 256 "2 * kChannels * 8"] by (simp add: div_up_def)
  moreover have "256 dvd a * kFifoBytes" by (simp add: kFifoBytes_def)
  ultimately show ?thesis using assms
    by (auto simp: connection_head_def connection_tail_def connection_fifo_def
        kConnectionRegionBytes_def kConnectionDataOffset_def kConnectionControlBytes_def)
qed

theorem connection_layout_witness:
  "connection_fifo 4 4096 1 = 4096 + 256 + 33554432 \<and> kConnectionRegionBytes 4 = 134217984"
  using connection_layout[of 1 4 3 4096]
  by (simp add: connection_fifo_def kConnectionRegionBytes_def kConnectionDataOffset_def
      kConnectionControlBytes_def kFifoBytes_def)

section \<open>Properties of merging\<close>

definition merge_conflict ::
  "('p, 'o) connection_resources \<Rightarrow> ('p, 'o) connection_resources \<Rightarrow> nat \<Rightarrow> bool" where
  "merge_conflict d src ch =
     (v_send_fifo src ch \<noteq> None \<and> v_send_fifo d ch \<noteq> None \<or>
      v_recv_fifo src ch \<noteq> None \<and> v_recv_fifo d ch \<noteq> None)"

definition pick :: "nat set \<Rightarrow> (nat \<Rightarrow> 'p option) \<Rightarrow> (nat \<Rightarrow> 'p option) \<Rightarrow> (nat \<Rightarrow> 'p option) \<Rightarrow> nat \<Rightarrow> 'p option" where
  "pick S guard a b = (\<lambda>ch. if ch \<in> S \<and> guard ch \<noteq> None then a ch else b ch)"

definition merged_on ::
  "nat set \<Rightarrow> ('p, 'o) connection_resources \<Rightarrow> ('p, 'o) connection_resources \<Rightarrow> ('p, 'o) connection_resources" where
  "merged_on S d src = d\<lparr>
     v_send_fifo := pick S (v_send_fifo src) (v_send_fifo src) (v_send_fifo d),
     v_send_head := pick S (v_send_fifo src) (v_send_head src) (v_send_head d),
     v_send_tail := pick S (v_send_fifo src) (v_send_tail src) (v_send_tail d),
     v_recv_fifo := pick S (v_recv_fifo src) (v_recv_fifo src) (v_recv_fifo d),
     v_recv_head := pick S (v_recv_fifo src) (v_recv_head src) (v_recv_head d),
     v_recv_tail := pick S (v_recv_fifo src) (v_recv_tail src) (v_recv_tail d) \<rparr>"

lemma merge_one_channel:
  "rbind (merge_send src ch d) (merge_recv src ch) =
     (if v_send_fifo src ch \<noteq> None \<and> v_send_fifo d ch \<noteq> None
      then Inl (Logic_error ''multiple transports published one Simple send connection'')
      else if v_recv_fifo src ch \<noteq> None \<and> v_recv_fifo d ch \<noteq> None
      then Inl (Logic_error ''multiple transports published one Simple receive connection'')
      else Inr (merged_on {ch} d src))"
  by (auto simp: merge_send_def merge_recv_def merged_on_def pick_def fun_eq_iff
      intro!: connection_resources.equality)

lemma merged_on_compose:
  "ch \<notin> S \<Longrightarrow> merged_on S (merged_on {ch} d src) src = merged_on (insert ch S) d src"
  by (auto simp: merged_on_def pick_def fun_eq_iff intro!: connection_resources.equality)

lemma merge_conflict_merged: "c \<noteq> ch \<Longrightarrow> merge_conflict (merged_on {ch} d src) src c = merge_conflict d src c"
  by (simp add: merge_conflict_def merged_on_def pick_def)

lemma merge_channels_eq:
  "distinct chs \<Longrightarrow> merge_channels src chs d = Inr d' \<longleftrightarrow>
     (\<forall>ch\<in>set chs. \<not> merge_conflict d src ch) \<and> d' = merged_on (set chs) d src"
proof (induction chs arbitrary: d)
  case Nil
  show ?case by (auto simp: merged_on_def pick_def intro!: connection_resources.equality)
next
  case (Cons ch chs)
  have assoc: "merge_channels src (ch # chs) d =
      rbind (rbind (merge_send src ch d) (merge_recv src ch)) (merge_channels src chs)"
    by (cases "merge_send src ch d") auto
  have "\<forall>c\<in>set chs. merge_conflict (merged_on {ch} d src) src c = merge_conflict d src c"
  proof
    fix c assume "c \<in> set chs"
    with Cons.prems have "c \<noteq> ch" by auto
    then show "merge_conflict (merged_on {ch} d src) src c = merge_conflict d src c"
      by (rule merge_conflict_merged)
  qed
  note pres = this
  show ?case
  proof (cases "merge_conflict d src ch")
    case True
    then have "\<exists>e. merge_channels src (ch # chs) d = Inl e"
      unfolding assoc merge_one_channel by (auto simp: merge_conflict_def)
    with True show ?thesis by auto
  next
    case False
    then have "merge_channels src (ch # chs) d = merge_channels src chs (merged_on {ch} d src)"
      unfolding assoc merge_one_channel by (auto simp: merge_conflict_def)
    then show ?thesis using Cons False pres by (simp add: merged_on_compose)
  qed
qed

text \<open>merging the resources of two transports succeeds exactly when no channel has a send or
  a receive connection from both; the result then takes each channel side from the transport
  that published it and keeps the owners of both.\<close>

theorem merge_connection_resources_spec:
  "merge_connection_resources kChannels d src = Inr d' \<longleftrightarrow>
     (\<forall>ch<kChannels. \<not> merge_conflict d src ch) \<and>
     d' = (merged_on {..<kChannels} d src)\<lparr>owners := owners d @ owners src\<rparr>"
proof -
  have "set [0..<kChannels] = {..<kChannels}" by auto
  moreover have "owners (merged_on S d src) = owners d" for S by (simp add: merged_on_def)
  ultimately show ?thesis
    by (auto simp: merge_connection_resources_def rbind_eq_Inr_iff merge_channels_eq)
qed

definition empty_resources :: "(nat, nat) connection_resources" where
  "empty_resources = \<lparr> v_send_fifo = (\<lambda>_. None), v_recv_fifo = (\<lambda>_. None), v_send_head = (\<lambda>_. None),
     v_send_tail = (\<lambda>_. None), v_recv_head = (\<lambda>_. None), v_recv_tail = (\<lambda>_. None), owners = [] \<rparr>"

theorem merge_connection_resources_spec_witness:
  "merge_connection_resources 1 empty_resources (empty_resources\<lparr>v_send_fifo := \<lambda>_. Some 7, owners := [3]\<rparr>)
     = Inr (empty_resources\<lparr>v_send_fifo := (\<lambda>_. None)(0 := Some 7), owners := [3]\<rparr>)"
  unfolding merge_connection_resources_spec
  by (auto simp: merge_conflict_def empty_resources_def merged_on_def pick_def fun_eq_iff)

end
