(* ===== verification/Worker.thy ===== *)
theory Worker
  imports Geometry
begin

text \<open>
  The data movers of \<open>kernels/ring_simple_kernel.cuh\<close> (lines 81--861): what one thread of a
  block does for a copy, a broadcast copy, a reduction and a reducing broadcast, with the
  \<open>float4\<close> body (unrolled or not), the packed 16-bit body and the scalar tail.

  Device memory is one function from element addresses to elements. A pointer is an element
  address; its byte address is the element address times \<open>sizeof(T)\<close>, which is what the
  alignment tests look at. A \<open>volatile\<close> load is a load. \<open>t\<close> is \<open>threadIdx.x\<close>, \<open>nw\<close> is
  \<open>nworkers\<close>, \<open>U\<close> is \<open>kFloat4Unroll\<close> and \<open>nr\<close> is the rank count whose inverse is
  \<open>inverse_nranks\<close>. A block runs its threads one after the other; the order is shown not
  to matter.
\<close>

unbundle bit_operations_syntax

section \<open>Packed 16-bit lanes\<close>

definition half2_from_bits :: "32 word \<Rightarrow> 16 word \<times> 16 word" where
  "half2_from_bits bits = (ucast bits, ucast (drop_bit 16 bits))"

definition half2_to_bits :: "16 word \<times> 16 word \<Rightarrow> 32 word" where
  "half2_to_bits v = ucast (fst v) OR push_bit 16 (ucast (snd v))"

text \<open>\<open>Packed16Traits::apply\<close> on the two lanes of a 32-bit word.\<close>

fun packed16_lane :: "'t num \<Rightarrow> RedOp \<Rightarrow> 't \<Rightarrow> 't \<Rightarrow> 't" where
  "packed16_lane nm RSum a b = num_hadd2 nm a b"
| "packed16_lane nm RAvg a b = num_hadd2 nm a b"
| "packed16_lane nm RMax a b = num_hmax2_nan nm a b"
| "packed16_lane nm RMin a b = num_hmin2_nan nm a b"

definition packed16_apply :: "16 word num \<Rightarrow> RedOp \<Rightarrow> 32 word \<Rightarrow> 32 word \<Rightarrow> 32 word" where
  "packed16_apply nm op a b =
     (let lhs = half2_from_bits a; rhs = half2_from_bits b in
      half2_to_bits (packed16_lane nm op (fst lhs) (fst rhs), packed16_lane nm op (snd lhs) (snd rhs)))"

definition scale_avg_packed16 :: "16 word num \<Rightarrow> nat \<Rightarrow> 32 word \<Rightarrow> 32 word" where
  "scale_avg_packed16 nm nr bits =
     (let v = half2_from_bits bits in half2_to_bits (num_scale nm nr (fst v), num_scale nm nr (snd v)))"

section \<open>Memory and loops\<close>

type_synonym 't mem = "nat \<Rightarrow> 't"

definition aligned16 :: "DType \<Rightarrow> nat \<Rightarrow> nat \<Rightarrow> nat \<Rightarrow> bool" where
  "aligned16 dt a b c = ((a * sizeof dt OR b * sizeof dt OR c * sizeof dt) AND 15 = 0)"

text \<open>The \<open>V\<close> elements of vector \<open>i\<close> from pointer \<open>p\<close>, loaded and stored as a unit.\<close>

definition load_vec :: "nat \<Rightarrow> nat \<Rightarrow> 't mem \<Rightarrow> nat \<Rightarrow> 't list" where
  "load_vec V p m i = map (\<lambda>k. m (p + V * i + k)) [0..<V]"

definition store_vec :: "nat \<Rightarrow> nat \<Rightarrow> nat \<Rightarrow> 't list \<Rightarrow> 't mem \<Rightarrow> 't mem" where
  "store_vec V p i vs m =
     (\<lambda>a. if p + V * i \<le> a \<and> a < p + V * i + V then vs ! (a - (p + V * i)) else m a)"

text \<open>One round of an unrolled loop: all loads of the round come before its stores.\<close>

definition unrolled_body ::
  "nat \<Rightarrow> ('t mem \<Rightarrow> nat \<Rightarrow> 'v) \<Rightarrow> (nat \<Rightarrow> 'v \<Rightarrow> 't mem \<Rightarrow> 't mem) \<Rightarrow> nat \<Rightarrow> nat \<Rightarrow> nat \<Rightarrow> 't mem \<Rightarrow> 't mem" where
  "unrolled_body U ld st vec_count nw b m =
     (let vals = map (\<lambda>u. let i = b + u * nw in if i < vec_count then Some (ld m i) else None) [0..<U]
      in fold (\<lambda>u m. case vals ! u of Some v \<Rightarrow> st (b + u * nw) v m | None \<Rightarrow> m) [0..<U] m)"

definition vec_loop ::
  "nat \<Rightarrow> ('t mem \<Rightarrow> nat \<Rightarrow> 'v) \<Rightarrow> (nat \<Rightarrow> 'v \<Rightarrow> 't mem \<Rightarrow> 't mem) \<Rightarrow> nat \<Rightarrow> nat \<Rightarrow> nat \<Rightarrow> 't mem \<Rightarrow> 't mem" where
  "vec_loop U ld st t vec_count nw m =
     (if U = 1 then fold (\<lambda>i m. st i (ld m i) m) (strided t vec_count nw) m
      else fold (unrolled_body U ld st vec_count nw) (strided t vec_count (nw * U)) m)"

definition scalar_loop :: "(nat \<Rightarrow> 't mem \<Rightarrow> 't mem) \<Rightarrow> nat \<Rightarrow> nat \<Rightarrow> nat \<Rightarrow> 't mem \<Rightarrow> 't mem" where
  "scalar_loop body start count nw m = fold body (strided start count nw) m"

section \<open>Copies\<close>

definition copy_packed16_worker :: "nat \<Rightarrow> nat \<Rightarrow> nat \<Rightarrow> nat \<Rightarrow> nat \<Rightarrow> 't mem \<Rightarrow> 't mem" where
  "copy_packed16_worker nw src dst count t m =
     (if nw \<le> t then m else
      let vec_count = count div 8;
          m1 = vec_loop 1 (load_vec 8 src) (store_vec 8 dst) t vec_count nw m
      in scalar_loop (\<lambda>i m. m(dst + i := m (src + i))) (vec_count * 8 + t) count nw m1)"

definition copy_volatile_packed16_worker :: "nat \<Rightarrow> nat \<Rightarrow> nat \<Rightarrow> nat \<Rightarrow> nat \<Rightarrow> 't mem \<Rightarrow> 't mem" where
  "copy_volatile_packed16_worker nw src dst count t m =
     (if nw \<le> t then m else
      let vec_count = count div 8;
          m1 = vec_loop 1 (load_vec 8 src) (store_vec 8 dst) t vec_count nw m
      in scalar_loop (\<lambda>i m. m(dst + i := m (src + i))) (vec_count * 8 + t) count nw m1)"

definition copy_float_worker :: "nat \<Rightarrow> nat \<Rightarrow> nat \<Rightarrow> nat \<Rightarrow> nat \<Rightarrow> nat \<Rightarrow> 't mem \<Rightarrow> 't mem" where
  "copy_float_worker U nw src dst count t m =
     (if nw \<le> t then m else
      let vec_count = count div 4;
          vec = aligned16 Float src dst dst;
          m1 = (if vec then vec_loop U (load_vec 4 src) (store_vec 4 dst) t vec_count nw m else m);
          scalar_begin = (if vec then vec_count * 4 else 0)
      in scalar_loop (\<lambda>i m. m(dst + i := m (src + i))) (scalar_begin + t) count nw m1)"

definition copy_volatile_float_worker :: "nat \<Rightarrow> nat \<Rightarrow> nat \<Rightarrow> nat \<Rightarrow> nat \<Rightarrow> nat \<Rightarrow> 't mem \<Rightarrow> 't mem" where
  "copy_volatile_float_worker U nw src dst count t m =
     (if nw \<le> t then m else
      let vec_count = count div 4;
          vec = aligned16 Float src dst dst;
          m1 = (if vec then vec_loop U (load_vec 4 src) (store_vec 4 dst) t vec_count nw m else m);
          scalar_begin = (if vec then vec_count * 4 else 0)
      in scalar_loop (\<lambda>i m. m(dst + i := m (src + i))) (scalar_begin + t) count nw m1)"

definition copy_scalar_worker :: "nat \<Rightarrow> nat \<Rightarrow> nat \<Rightarrow> nat \<Rightarrow> nat \<Rightarrow> 't mem \<Rightarrow> 't mem" where
  "copy_scalar_worker nw src dst count t m =
     (if nw \<le> t then m
      else scalar_loop (\<lambda>i m. m(dst + i := m (src + i))) t count nw m)"

definition copy_worker :: "DType \<Rightarrow> nat \<Rightarrow> nat \<Rightarrow> nat \<Rightarrow> nat \<Rightarrow> nat \<Rightarrow> nat \<Rightarrow> 't mem \<Rightarrow> 't mem" where
  "copy_worker dt U nw src dst count t m =
     (if dt = Float then copy_float_worker U nw src dst count t m
      else if aligned16 dt src dst dst then copy_packed16_worker nw src dst count t m
      else copy_scalar_worker nw src dst count t m)"

definition copy_volatile_worker :: "DType \<Rightarrow> nat \<Rightarrow> nat \<Rightarrow> nat \<Rightarrow> nat \<Rightarrow> nat \<Rightarrow> nat \<Rightarrow> 't mem \<Rightarrow> 't mem" where
  "copy_volatile_worker dt U nw src dst count t m =
     (if dt = Float then copy_volatile_float_worker U nw src dst count t m
      else if aligned16 dt src dst dst then copy_volatile_packed16_worker nw src dst count t m
      else copy_scalar_worker nw src dst count t m)"

section \<open>Reductions\<close>

text \<open>One lane: the scalar operator or the packed one, then the optional average scaling.\<close>

definition scaled :: "'t num \<Rightarrow> RedOp \<Rightarrow> bool \<Rightarrow> nat \<Rightarrow> 't \<Rightarrow> 't" where
  "scaled nm op scale nr v = (if scale \<and> op = RAvg then num_scale nm nr v else v)"

definition lane_float :: "'t num \<Rightarrow> RedOp \<Rightarrow> bool \<Rightarrow> nat \<Rightarrow> 't \<Rightarrow> 't \<Rightarrow> 't" where
  "lane_float nm op scale nr a b = scaled nm op scale nr (redop_apply nm op a b)"

definition lane_packed :: "'t num \<Rightarrow> RedOp \<Rightarrow> bool \<Rightarrow> nat \<Rightarrow> 't \<Rightarrow> 't \<Rightarrow> 't" where
  "lane_packed nm op scale nr a b = scaled nm op scale nr (packed16_lane nm op a b)"

text \<open>Load two vectors; combine them lane by lane and store the result once or twice.\<close>

definition load_two :: "nat \<Rightarrow> nat \<Rightarrow> nat \<Rightarrow> 't mem \<Rightarrow> nat \<Rightarrow> 't list \<times> 't list" where
  "load_two V p q m i = (load_vec V p m i, load_vec V q m i)"

definition store_reduced ::
  "('t \<Rightarrow> 't \<Rightarrow> 't) \<Rightarrow> nat \<Rightarrow> nat \<Rightarrow> nat \<Rightarrow> 't list \<times> 't list \<Rightarrow> 't mem \<Rightarrow> 't mem" where
  "store_reduced g V dst i ab m = store_vec V dst i (map2 g (fst ab) (snd ab)) m"

definition store_reduced_twice ::
  "('t \<Rightarrow> 't \<Rightarrow> 't) \<Rightarrow> nat \<Rightarrow> nat \<Rightarrow> nat \<Rightarrow> nat \<Rightarrow> 't list \<times> 't list \<Rightarrow> 't mem \<Rightarrow> 't mem" where
  "store_reduced_twice g V dst0 dst1 i ab m =
     (let v = map2 g (fst ab) (snd ab) in store_vec V dst1 i v (store_vec V dst0 i v m))"

definition reduce_volatile_packed16_worker ::
  "'t num \<Rightarrow> RedOp \<Rightarrow> bool \<Rightarrow> nat \<Rightarrow> nat \<Rightarrow> nat \<Rightarrow> nat \<Rightarrow> nat \<Rightarrow> nat \<Rightarrow> nat \<Rightarrow> 't mem \<Rightarrow> 't mem" where
  "reduce_volatile_packed16_worker nm op scale nr nw loc recv dst count t m =
     (if nw \<le> t then m else
      let vec_count = count div 8;
          m1 = vec_loop 1 (load_two 8 loc recv) (store_reduced (lane_packed nm op scale nr) 8 dst)
                 t vec_count nw m
      in scalar_loop (\<lambda>i m. m(dst + i := lane_float nm op scale nr (m (loc + i)) (m (recv + i))))
           (vec_count * 8 + t) count nw m1)"

definition reduce_volatile_worker ::
  "'t num \<Rightarrow> RedOp \<Rightarrow> bool \<Rightarrow> nat \<Rightarrow> DType \<Rightarrow> nat \<Rightarrow> nat \<Rightarrow> nat \<Rightarrow> nat \<Rightarrow> nat \<Rightarrow> nat \<Rightarrow> nat \<Rightarrow> 't mem \<Rightarrow> 't mem" where
  "reduce_volatile_worker nm op scale nr dt U nw loc recv dst count t m =
     (if nw \<le> t then m
      else if dt \<noteq> Float \<and> aligned16 dt loc recv dst
      then reduce_volatile_packed16_worker nm op scale nr nw loc recv dst count t m
      else
      let vec = (dt = Float \<and> aligned16 Float loc recv dst);
          vec_count = count div 4;
          m1 = (if vec then vec_loop U (load_two 4 loc recv)
                              (store_reduced (lane_float nm op scale nr) 4 dst) t vec_count nw m
                else m);
          scalar_begin = (if vec then vec_count * 4 else 0)
      in scalar_loop (\<lambda>i m. m(dst + i := lane_float nm op scale nr (m (loc + i)) (m (recv + i))))
           (scalar_begin + t) count nw m1)"

definition reduce_local_into_dst ::
  "'t num \<Rightarrow> RedOp \<Rightarrow> bool \<Rightarrow> nat \<Rightarrow> DType \<Rightarrow> nat \<Rightarrow> nat \<Rightarrow> nat \<Rightarrow> nat \<Rightarrow> nat \<Rightarrow> nat \<Rightarrow> 't mem \<Rightarrow> 't mem" where
  "reduce_local_into_dst nm op scale nr dt U nw loc dst count t m =
     (if nw \<le> t then m else
      let vec = aligned16 dt loc dst dst;
          V = (if dt = Float then 4 else 8);
          vec_count = count div V;
          m1 = (if \<not> vec then m
                else if dt = Float then
                  vec_loop U (load_two 4 loc dst) (store_reduced (lane_float nm op scale nr) 4 dst)
                    t vec_count nw m
                else
                  vec_loop 1 (load_two 8 loc dst) (store_reduced (lane_packed nm op scale nr) 8 dst)
                    t vec_count nw m);
          scalar_begin = (if vec then vec_count * V else 0)
      in scalar_loop (\<lambda>i m. m(dst + i := lane_float nm op scale nr (m (loc + i)) (m (dst + i))))
           (scalar_begin + t) count nw m1)"

section \<open>Broadcasts\<close>

definition store_twice :: "nat \<Rightarrow> nat \<Rightarrow> nat \<Rightarrow> nat \<Rightarrow> 't list \<Rightarrow> 't mem \<Rightarrow> 't mem" where
  "store_twice V dst0 dst1 i v m = store_vec V dst1 i v (store_vec V dst0 i v m)"

definition copy_broadcast_volatile_packed16_worker ::
  "nat \<Rightarrow> nat \<Rightarrow> nat \<Rightarrow> nat \<Rightarrow> nat \<Rightarrow> nat \<Rightarrow> 't mem \<Rightarrow> 't mem" where
  "copy_broadcast_volatile_packed16_worker nw src dst0 dst1 count t m =
     (if nw \<le> t then m else
      let vec_count = count div 8;
          m1 = vec_loop 1 (load_vec 8 src) (store_twice 8 dst0 dst1) t vec_count nw m
      in scalar_loop (\<lambda>i m. let v = m (src + i) in m(dst0 + i := v, dst1 + i := v))
           (vec_count * 8 + t) count nw m1)"

definition copy_broadcast_volatile_worker ::
  "DType \<Rightarrow> nat \<Rightarrow> nat \<Rightarrow> nat \<Rightarrow> nat \<Rightarrow> nat \<Rightarrow> nat \<Rightarrow> nat \<Rightarrow> 't mem \<Rightarrow> 't mem" where
  "copy_broadcast_volatile_worker dt U nw src dst0 dst1 count t m =
     (if nw \<le> t then m
      else if dt \<noteq> Float \<and> aligned16 dt src dst0 dst1
      then copy_broadcast_volatile_packed16_worker nw src dst0 dst1 count t m
      else
      let vec = (dt = Float \<and> aligned16 Float src dst0 dst1);
          vec_count = count div 4;
          m1 = (if vec then vec_loop U (load_vec 4 src) (store_twice 4 dst0 dst1) t vec_count nw m else m);
          scalar_begin = (if vec then vec_count * 4 else 0)
      in scalar_loop (\<lambda>i m. let v = m (src + i) in m(dst0 + i := v, dst1 + i := v))
           (scalar_begin + t) count nw m1)"

definition reduce_broadcast_volatile_packed16_worker ::
  "'t num \<Rightarrow> RedOp \<Rightarrow> nat \<Rightarrow> nat \<Rightarrow> nat \<Rightarrow> nat \<Rightarrow> nat \<Rightarrow> nat \<Rightarrow> nat \<Rightarrow> nat \<Rightarrow> 't mem \<Rightarrow> 't mem" where
  "reduce_broadcast_volatile_packed16_worker nm op nr nw loc recv dst0 dst1 count t m =
     (if nw \<le> t then m else
      let vec_count = count div 8;
          m1 = vec_loop 1 (load_two 8 loc recv)
                 (store_reduced_twice (lane_packed nm op True nr) 8 dst0 dst1) t vec_count nw m
      in scalar_loop
           (\<lambda>i m. let v = lane_float nm op True nr (m (loc + i)) (m (recv + i)) in m(dst0 + i := v, dst1 + i := v))
           (vec_count * 8 + t) count nw m1)"

definition reduce_broadcast_volatile_worker ::
  "'t num \<Rightarrow> RedOp \<Rightarrow> nat \<Rightarrow> DType \<Rightarrow> nat \<Rightarrow> nat \<Rightarrow> nat \<Rightarrow> nat \<Rightarrow> nat \<Rightarrow> nat \<Rightarrow> nat \<Rightarrow> nat \<Rightarrow> 't mem \<Rightarrow> 't mem" where
  "reduce_broadcast_volatile_worker nm op nr dt U nw loc recv dst0 dst1 count t m =
     (if nw \<le> t then m
      else if dt \<noteq> Float \<and> aligned16 dt loc recv dst0 \<and> aligned16 dt loc recv dst1
      then reduce_broadcast_volatile_packed16_worker nm op nr nw loc recv dst0 dst1 count t m
      else
      let vec = (dt = Float \<and> aligned16 Float loc recv dst0 \<and> aligned16 Float loc recv dst1);
          vec_count = count div 4;
          m1 = (if vec then vec_loop U (load_two 4 loc recv)
                  (store_reduced_twice (lane_float nm op True nr) 4 dst0 dst1) t vec_count nw m else m);
          scalar_begin = (if vec then vec_count * 4 else 0)
      in scalar_loop
           (\<lambda>i m. let v = lane_float nm op True nr (m (loc + i)) (m (recv + i)) in m(dst0 + i := v, dst1 + i := v))
           (scalar_begin + t) count nw m1)"

definition reduce_local_broadcast_worker ::
  "'t num \<Rightarrow> RedOp \<Rightarrow> nat \<Rightarrow> DType \<Rightarrow> nat \<Rightarrow> nat \<Rightarrow> nat \<Rightarrow> nat \<Rightarrow> nat \<Rightarrow> nat \<Rightarrow> nat \<Rightarrow> 't mem \<Rightarrow> 't mem" where
  "reduce_local_broadcast_worker nm op nr dt U nw loc dst0 dst1 count t m =
     (if nw \<le> t then m else
      let vec = aligned16 dt loc dst0 dst1;
          V = (if dt = Float then 4 else 8);
          vec_count = count div V;
          m1 = (if \<not> vec then m
                else if dt = Float then
                  vec_loop U (load_two 4 loc dst1)
                    (store_reduced_twice (lane_float nm op True nr) 4 dst0 dst1) t vec_count nw m
                else
                  vec_loop 1 (load_two 8 loc dst1)
                    (store_reduced_twice (lane_packed nm op True nr) 8 dst0 dst1) t vec_count nw m);
          scalar_begin = (if vec then vec_count * V else 0)
      in scalar_loop
           (\<lambda>i m. let v = lane_float nm op True nr (m (loc + i)) (m (dst1 + i)) in m(dst0 + i := v, dst1 + i := v))
           (scalar_begin + t) count nw m1)"

section \<open>Blocks\<close>

text \<open>All threads of a block, in the order given by \<open>ts\<close>.\<close>

definition run_threads :: "(nat \<Rightarrow> 't mem \<Rightarrow> 't mem) \<Rightarrow> nat list \<Rightarrow> 't mem \<Rightarrow> 't mem" where
  "run_threads w ts m = fold w ts m"

definition run_block :: "(nat \<Rightarrow> 't mem \<Rightarrow> 't mem) \<Rightarrow> nat \<Rightarrow> 't mem \<Rightarrow> 't mem" where
  "run_block w nthreads m = run_threads w [0..<nthreads] m"

text \<open>\<open>nworkers = blockDim.x >= 3 * 32 ? blockDim.x - 32 : blockDim.x\<close>\<close>

definition nworkers :: "nat \<Rightarrow> nat" where
  "nworkers blockDim = (if 96 \<le> blockDim then blockDim - 32 else blockDim)"

section \<open>Elementwise effects\<close>

text \<open>
  The reference behaviour of a mover: \<open>own a\<close> says which index of the transfer the cell \<open>a\<close>
  belongs to, \<open>f m i\<close> is the value of index \<open>i\<close>, and \<open>eff own f S\<close> writes the indices in
  \<open>S\<close>. \<open>local_to own f\<close> says that the value of an index reads no cell of another index, which
  is what makes the order of iterations and of threads irrelevant.
\<close>

definition eff :: "(nat \<Rightarrow> nat option) \<Rightarrow> ('t mem \<Rightarrow> nat \<Rightarrow> 't) \<Rightarrow> nat set \<Rightarrow> 't mem \<Rightarrow> 't mem" where
  "eff own f S m = (\<lambda>a. case own a of Some i \<Rightarrow> if i \<in> S then f m i else m a | None \<Rightarrow> m a)"

definition local_to :: "(nat \<Rightarrow> nat option) \<Rightarrow> ('t mem \<Rightarrow> nat \<Rightarrow> 't) \<Rightarrow> bool" where
  "local_to own f \<longleftrightarrow>
     (\<forall>m m' i. i \<in> ran own \<longrightarrow> (\<forall>a. own a = None \<or> own a = Some i \<longrightarrow> m a = m' a) \<longrightarrow> f m i = f m' i)"

lemma eff_empty [simp]: "eff own f {} m = m"
  by (auto simp: eff_def fun_eq_iff split: option.splits)

lemma eff_other: "i \<notin> S \<Longrightarrow> own a = None \<or> own a = Some i \<Longrightarrow> eff own f S m a = m a"
  by (auto simp: eff_def)

lemma local_toD:
  "local_to own f \<Longrightarrow> i \<in> ran own \<Longrightarrow> i \<notin> S \<Longrightarrow> f (eff own f S m) i = f m i"
  unfolding local_to_def using eff_other[of i S own _ f m] by blast

lemma eff_eff:
  assumes "local_to own f" "S \<inter> S' = {}"
  shows "eff own f S' (eff own f S m) = eff own f (S \<union> S') m"
proof
  fix a
  show "eff own f S' (eff own f S m) a = eff own f (S \<union> S') m a"
  proof (cases "own a")
    case (Some i)
    then have "i \<in> ran own" by (rule ranI)
    with Some show ?thesis using local_toD[OF assms(1), of i S m] assms(2) by (auto simp: eff_def)
  qed (simp add: eff_def)
qed

lemma fold_eff:
  assumes loc: "local_to own f" and "distinct xs"
    and "\<And>x y. x \<in> set xs \<Longrightarrow> y \<in> set xs \<Longrightarrow> x \<noteq> y \<Longrightarrow> B x \<inter> B y = {}"
    and "\<And>x m. x \<in> set xs \<Longrightarrow> step x m = eff own f (B x) m"
  shows "fold step xs m = eff own f (\<Union>x\<in>set xs. B x) m"
  using assms(2-4)
proof (induction xs arbitrary: m)
  case (Cons x xs)
  have dis: "B x \<inter> (\<Union>y\<in>set xs. B y) = {}" using Cons.prems by (auto simp: disjoint_iff)
  have "fold step (x # xs) m = eff own f (\<Union>y\<in>set xs. B y) (eff own f (B x) m)"
    using Cons.IH[of "eff own f (B x) m"] Cons.prems by simp
  then show ?case by (simp add: eff_eff[OF loc dis])
qed simp

section \<open>Loops as effects\<close>

definition blk :: "nat \<Rightarrow> nat \<Rightarrow> nat set" where
  "blk V i = {V * i..<V * i + V}"

lemma blk_disjoint: "i \<noteq> j \<Longrightarrow> blk V i \<inter> blk V j = {}"
proof (induction i j rule: linorder_wlog)
  case (le a b)
  then have "V * a + V \<le> V * b" using mult_le_mono2[of "Suc a" b V] by simp
  then show ?case by (auto simp: blk_def)
next
  case (sym a b)
  then show ?case by blast
qed

lemma blk_UN: "0 < V \<Longrightarrow> (\<Union>i\<in>I. blk V i) = {k. k div V \<in> I}"
proof -
  assume V: "0 < V"
  have "k \<in> blk V i \<longleftrightarrow> k div V = i" for k i
    using V dividend_less_div_times[of V k]
    by (auto simp: blk_def div_nat_eqI mult.commute add.commute)
  then show ?thesis by auto
qed

text \<open>What a vector body has to satisfy: a store of freshly loaded data is the effect on its block,
  and a load sees no other block.\<close>

definition vec_ok ::
  "(nat \<Rightarrow> nat option) \<Rightarrow> ('t mem \<Rightarrow> nat \<Rightarrow> 't) \<Rightarrow> nat \<Rightarrow> nat \<Rightarrow>
   ('t mem \<Rightarrow> nat \<Rightarrow> 'v) \<Rightarrow> (nat \<Rightarrow> 'v \<Rightarrow> 't mem \<Rightarrow> 't mem) \<Rightarrow> bool" where
  "vec_ok own f V vec_count ld st \<longleftrightarrow>
     (\<forall>i<vec_count. \<forall>m. st i (ld m i) m = eff own f (blk V i) m) \<and>
     (\<forall>i<vec_count. \<forall>m S. S \<inter> blk V i = {} \<longrightarrow> ld (eff own f S m) i = ld m i)"

lemma unrolled_body_eff:
  assumes loc: "local_to own f" and ok: "vec_ok own f V vc ld st" and nw: "0 < nw"
  shows "unrolled_body U ld st vc nw b m =
           eff own f (\<Union>i\<in>{b + u * nw |u. u < U \<and> b + u * nw < vc}. blk V i) m"
proof -
  define vals where
    "vals = map (\<lambda>u. let i = b + u * nw in if i < vc then Some (ld m i) else None) [0..<U]"
  let ?I = "\<lambda>k. {b + u * nw |u. u < k \<and> b + u * nw < vc}"
  have "k \<le> U \<Longrightarrow> fold (\<lambda>u m. case vals ! u of Some v \<Rightarrow> st (b + u * nw) v m | None \<Rightarrow> m) [0..<k] m
        = eff own f (\<Union>i\<in>?I k. blk V i) m" for k
  proof (induction k)
    case (Suc k)
    let ?S = "\<Union>i\<in>?I k. blk V i" and ?i = "b + k * nw"
    have vk: "vals ! k = (if ?i < vc then Some (ld m ?i) else None)"
      using Suc.prems by (simp add: vals_def Let_def)
    show ?case
    proof (cases "?i < vc")
      case True
      have fresh: "?S \<inter> blk V ?i = {}"
      proof -
        have "i \<noteq> ?i" if "i \<in> ?I k" for i using that nw by auto
        then show ?thesis using blk_disjoint by blast
      qed
      have "st ?i (ld m ?i) (eff own f ?S m) = st ?i (ld (eff own f ?S m) ?i) (eff own f ?S m)"
        using ok True fresh by (simp add: vec_ok_def)
      also have "\<dots> = eff own f (blk V ?i) (eff own f ?S m)"
        using ok True by (simp add: vec_ok_def)
      also have "\<dots> = eff own f (?S \<union> blk V ?i) m" by (rule eff_eff[OF loc fresh])
      also have "?S \<union> blk V ?i = (\<Union>i\<in>?I (Suc k). blk V i)"
        using True by (auto simp: less_Suc_eq)
      finally show ?thesis using Suc True by (simp add: vk)
    next
      case False
      then have "?I (Suc k) = ?I k" by (auto simp: less_Suc_eq)
      with False Suc show ?thesis by (simp add: vk)
    qed
  qed simp
  from this[of U] show ?thesis by (simp add: unrolled_body_def vals_def Let_def)
qed

lemma strided_thread:
  assumes "t < nw"
  shows "set (strided t n nw) = {i. i < n \<and> i mod nw = t}"
proof -
  have "i mod nw = t" if "t \<le> i" "(i - t) mod nw = 0" for i
    using that assms by (metis le_add_diff_inverse mod_add_right_eq add.right_neutral mod_less)
  moreover have "t \<le> i \<and> (i - t) mod nw = 0" if "i mod nw = t" for i
    using that by (metis minus_mod_eq_mult_div mod_less_eq_dividend mod_mult_self1_is_0)
  ultimately show ?thesis using assms by (auto simp: set_strided)
qed

lemma unrolled_indices:
  assumes t: "t < nw" and U: "0 < U"
  shows "(\<Union>b\<in>set (strided t n (nw * U)). {b + u * nw |u. u < U \<and> b + u * nw < n}) = {i. i < n \<and> i mod nw = t}"
    and "\<And>b b'. b \<in> set (strided t n (nw * U)) \<Longrightarrow> b' \<in> set (strided t n (nw * U)) \<Longrightarrow> b \<noteq> b' \<Longrightarrow>
           {b + u * nw |u. u < U \<and> b + u * nw < n} \<inter> {b' + u * nw |u. u < U \<and> b' + u * nw < n} = {}"
proof -
  have nwU: "0 < nw * U" using t U by simp
  have bs: "b \<in> set (strided t n (nw * U)) \<longleftrightarrow> b < n \<and> (\<exists>q. b = t + q * (nw * U))" for b
  proof
    assume "b \<in> set (strided t n (nw * U))"
    then have "t \<le> b" "b < n" "(b - t) mod (nw * U) = 0" using set_strided[OF nwU] by auto
    then show "b < n \<and> (\<exists>q. b = t + q * (nw * U))"
      by (metis le_add_diff_inverse mod_eq_0_iff_dvd dvdE mult.commute)
  qed (auto simp: set_strided[OF nwU])
  show "(\<Union>b\<in>set (strided t n (nw * U)). {b + u * nw |u. u < U \<and> b + u * nw < n}) = {i. i < n \<and> i mod nw = t}"
    (is "?L = ?R")
  proof (intro equalityI subsetI)
    fix i assume "i \<in> ?L"
    then obtain q u where "i = t + q * (nw * U) + u * nw" "i < n" using bs by auto
    then have "i = t + (q * U + u) * nw" by (simp add: algebra_simps)
    then have "i mod nw = t" using t by simp
    with \<open>i < n\<close> show "i \<in> ?R" by simp
  next
    fix i assume i: "i \<in> ?R"
    define q where "q = i div nw"
    have iq: "i = t + q * nw" using i by (auto simp: q_def)
    let ?b = "t + (q div U) * (nw * U)"
    have "(q div U * U + q mod U) * nw = q div U * (nw * U) + q mod U * nw"
      by (simp only: distrib_right mult.assoc mult.commute[of U nw])
    then have eq: "i = ?b + (q mod U) * nw" using iq by simp
    moreover have "?b \<in> set (strided t n (nw * U))" using bs eq i by auto
    ultimately show "i \<in> ?L" using i U by (intro UN_I[of ?b]) auto
  qed
  fix b b' assume "b \<in> set (strided t n (nw * U))" "b' \<in> set (strided t n (nw * U))" and ne: "b \<noteq> b'"
  then obtain q q' where b: "b = t + q * (nw * U)" "b' = t + q' * (nw * U)" using bs by blast
  have "b = b'" if e: "b + u * nw = b' + u' * nw" "u < U" "u' < U" for u u'
  proof -
    have "(q * U + u) * nw = (q' * U + u') * nw" using e b by (simp add: algebra_simps)
    then have "q * U + u = q' * U + u'" using t by simp
    then have "q = q'" using e by (metis div_mult_self3 div_less add.right_neutral less_nat_zero_code)
    then show ?thesis using b by simp
  qed
  with ne show "{b + u * nw |u. u < U \<and> b + u * nw < n} \<inter> {b' + u * nw |u. u < U \<and> b' + u * nw < n} = {}"
    by blast
qed

lemma vec_loop_eff:
  assumes loc: "local_to own f" and ok: "vec_ok own f V vc ld st" and t: "t < nw" and U: "0 < U"
  shows "vec_loop U ld st t vc nw m = eff own f (\<Union>i\<in>{i. i < vc \<and> i mod nw = t}. blk V i) m"
proof (cases "U = 1")
  case True
  have "fold (\<lambda>i m. st i (ld m i) m) (strided t vc nw) m = eff own f (\<Union>i\<in>set (strided t vc nw). blk V i) m"
    by (rule fold_eff[OF loc distinct_strided])
       (use ok strided_thread[OF t] blk_disjoint in \<open>auto simp: vec_ok_def\<close>)
  then show ?thesis using True by (simp add: vec_loop_def strided_thread[OF t])
next
  case False
  let ?I = "\<lambda>b. {b + u * nw |u. u < U \<and> b + u * nw < vc}"
  have "fold (unrolled_body U ld st vc nw) (strided t vc (nw * U)) m
      = eff own f (\<Union>b\<in>set (strided t vc (nw * U)). \<Union>i\<in>?I b. blk V i) m"
  proof (rule fold_eff[OF loc distinct_strided])
    fix b b' assume "b \<in> set (strided t vc (nw * U))" "b' \<in> set (strided t vc (nw * U))" "b \<noteq> b'"
    then have "?I b \<inter> ?I b' = {}" by (rule unrolled_indices(2)[OF t U])
    then show "(\<Union>i\<in>?I b. blk V i) \<inter> (\<Union>i\<in>?I b'. blk V i) = {}" using blk_disjoint by blast
  qed (use unrolled_body_eff[OF loc ok] t in auto)
  also have "(\<Union>b\<in>set (strided t vc (nw * U)). \<Union>i\<in>?I b. blk V i)
      = (\<Union>i\<in>(\<Union>b\<in>set (strided t vc (nw * U)). ?I b). blk V i)" by blast
  finally show ?thesis using False unfolding unrolled_indices(1)[OF t U] by (simp add: vec_loop_def)
qed

text \<open>The thread that handles index \<open>k\<close> when the first \<open>vc\<close> vectors of \<open>V\<close> are done by the vector loop.\<close>

definition thread_of :: "nat \<Rightarrow> nat \<Rightarrow> nat \<Rightarrow> nat \<Rightarrow> nat" where
  "thread_of V vc nw k = (if k < vc * V then k div V mod nw else (k - vc * V) mod nw)"

lemma strided_tail:
  assumes t: "t < nw" and le: "s \<le> count"
  shows "set (strided (s + t) count nw) = {k. s \<le> k \<and> k < count \<and> (k - s) mod nw = t}"
proof (rule set_eqI)
  fix k
  have nw: "0 < nw" using t by simp
  have "k \<in> set (strided (s + t) count nw) \<longleftrightarrow> s + t \<le> k \<and> k < count \<and> (k - (s + t)) mod nw = 0"
    unfolding set_strided[OF nw] by simp
  also have "\<dots> \<longleftrightarrow> s \<le> k \<and> k < count \<and> t \<le> k - s \<and> (k - s - t) mod nw = 0" by auto
  also have "\<dots> \<longleftrightarrow> s \<le> k \<and> k < count \<and> k - s \<in> set (strided t (count - s) nw)"
    unfolding set_strided[OF nw] by auto
  also have "\<dots> \<longleftrightarrow> s \<le> k \<and> k < count \<and> (k - s) mod nw = t"
    unfolding strided_thread[OF t] by auto
  finally show "k \<in> set (strided (s + t) count nw) \<longleftrightarrow> k \<in> {k. s \<le> k \<and> k < count \<and> (k - s) mod nw = t}"
    by simp
qed

lemma worker_eff:
  assumes loc: "local_to own f" and ok: "vec_ok own f V vc ld st" and t: "t < nw" and U: "0 < U"
    and V: "0 < V" and le: "vc * V \<le> count"
    and body: "\<And>i m. vc * V \<le> i \<Longrightarrow> i < count \<Longrightarrow> body i m = eff own f {i} m"
  shows "scalar_loop body (vc * V + t) count nw (vec_loop U ld st t vc nw m) =
         eff own f {k. k < count \<and> thread_of V vc nw k = t} m"
proof -
  have vecs: "(\<Union>i\<in>{i. i < vc \<and> i mod nw = t}. blk V i) = {k. k < vc * V \<and> k div V mod nw = t}"
    using V by (auto simp: blk_UN div_less_iff_less_mult)
  have sc: "set (strided (vc * V + t) count nw) = {k. vc * V \<le> k \<and> k < count \<and> (k - vc * V) mod nw = t}"
    by (rule strided_tail[OF t le])
  have "scalar_loop body (vc * V + t) count nw m' = eff own f (\<Union>k\<in>set (strided (vc * V + t) count nw). {k}) m'" for m'
    unfolding scalar_loop_def using sc body by (intro fold_eff[OF loc distinct_strided]) auto
  then have "scalar_loop body (vc * V + t) count nw (vec_loop U ld st t vc nw m) =
      eff own f {k. vc * V \<le> k \<and> k < count \<and> (k - vc * V) mod nw = t}
        (eff own f {k. k < vc * V \<and> k div V mod nw = t} m)"
    by (simp add: vec_loop_eff[OF loc ok t U] vecs sc)
  also have "\<dots> = eff own f ({k. k < vc * V \<and> k div V mod nw = t} \<union>
                            {k. vc * V \<le> k \<and> k < count \<and> (k - vc * V) mod nw = t}) m"
    by (rule eff_eff[OF loc]) auto
  also have "\<dots> = eff own f {k. k < count \<and> thread_of V vc nw k = t} m"
    using le by (intro arg_cong2[where f = "eff own f"]) (auto simp: thread_of_def)
  finally show ?thesis .
qed

text \<open>A block: every thread handles its own indices, extra threads do nothing.\<close>

lemma block_eff:
  assumes loc: "local_to own f" and "distinct ts" "{0..<nw} \<subseteq> set ts" "0 < nw"
    and th: "\<And>t m. t < nw \<Longrightarrow> w t m = eff own f {k. k < count \<and> tof k = t} m"
    and idle: "\<And>t m. nw \<le> t \<Longrightarrow> w t m = m" and tof: "\<And>k. tof k < nw"
  shows "run_threads w ts m = eff own f {..<count} m"
proof -
  have "fold w ts m = eff own f (\<Union>t\<in>set ts. {k. k < count \<and> tof k = t}) m"
  proof (rule fold_eff[OF loc assms(2)])
    fix t m assume "t \<in> set ts"
    show "w t m = eff own f {k. k < count \<and> tof k = t} m"
    proof (cases "t < nw")
      case False
      then have "{k. k < count \<and> tof k = t} = {}" using tof by auto
      then have "eff own f {k. k < count \<and> tof k = t} m = m" by (simp only: eff_empty)
      with False idle show ?thesis by simp
    qed (rule th)
  qed auto
  moreover have "(\<Union>t\<in>set ts. {k. k < count \<and> tof k = t}) = {..<count}"
    using assms(3) tof by fastforce
  ultimately show ?thesis by (simp add: run_threads_def)
qed

lemma thread_of_less: "0 < nw \<Longrightarrow> thread_of V vc nw k < nw"
  by (simp add: thread_of_def)

section \<open>Ownership maps\<close>

definition own1 :: "nat \<Rightarrow> nat \<Rightarrow> nat \<Rightarrow> nat option" where
  "own1 dst count a = (if dst \<le> a \<and> a < dst + count then Some (a - dst) else None)"

definition own2 :: "nat \<Rightarrow> nat \<Rightarrow> nat \<Rightarrow> nat \<Rightarrow> nat option" where
  "own2 dst0 dst1 count a =
     (if dst0 \<le> a \<and> a < dst0 + count then Some (a - dst0) else own1 dst1 count a)"

text \<open>Two ranges of \<open>count\<close> elements that do not overlap, and a source that does not overlap a
  destination or is the destination itself.\<close>

definition apart :: "nat \<Rightarrow> nat \<Rightarrow> nat \<Rightarrow> bool" where
  "apart p q count \<longleftrightarrow> p + count \<le> q \<or> q + count \<le> p"

definition readable :: "nat \<Rightarrow> nat \<Rightarrow> nat \<Rightarrow> bool" where
  "readable src dst count \<longleftrightarrow> src = dst \<or> apart src dst count"

lemma own1_src: "readable src dst count \<Longrightarrow> i < count \<Longrightarrow> own1 dst count (src + i) = None \<or> own1 dst count (src + i) = Some i"
  by (auto simp: own1_def readable_def apart_def)

lemma own2_src:
  "readable src dst0 count \<Longrightarrow> readable src dst1 count \<Longrightarrow> i < count \<Longrightarrow>
   own2 dst0 dst1 count (src + i) = None \<or> own2 dst0 dst1 count (src + i) = Some i"
  by (auto simp: own2_def own1_def readable_def apart_def)

lemma ran_own1: "i \<in> ran (own1 dst count) \<Longrightarrow> i < count"
  by (auto simp: ran_def own1_def split: if_splits)

lemma ran_own2: "i \<in> ran (own2 dst0 dst1 count) \<Longrightarrow> i < count"
  by (auto simp: ran_def own2_def own1_def split: if_splits)

lemma local_copy1: "readable src dst count \<Longrightarrow> local_to (own1 dst count) (\<lambda>m k. m (src + k))"
  unfolding local_to_def using own1_src ran_own1 by meson

lemma local_copy2:
  "readable src dst0 count \<Longrightarrow> readable src dst1 count \<Longrightarrow> local_to (own2 dst0 dst1 count) (\<lambda>m k. m (src + k))"
  unfolding local_to_def using own2_src ran_own2 by meson

lemma local_comb:
  fixes g :: "nat \<Rightarrow> 't \<Rightarrow> 't \<Rightarrow> 't"
  assumes "local_to own (\<lambda>m k. m (p + k) :: 't)" "local_to own (\<lambda>m k. m (q + k) :: 't)"
  shows "local_to own (\<lambda>m k. g k (m (p + k)) (m (q + k)))"
  unfolding local_to_def
proof (intro allI impI)
  fix m m' :: "'t mem" and i
  assume a: "i \<in> ran own" "\<forall>a. own a = None \<or> own a = Some i \<longrightarrow> m a = m' a"
  have "m (p + i) = m' (p + i)" "m (q + i) = m' (q + i)"
    using assms a unfolding local_to_def by metis+
  then show "g i (m (p + i)) (m (q + i)) = g i (m' (p + i)) (m' (q + i))" by simp
qed

lemma load_vec_eff:
  assumes "\<And>k. k \<in> blk V i \<Longrightarrow> own (p + k) = None \<or> own (p + k) = Some k" "S \<inter> blk V i = {}"
  shows "load_vec V p (eff own f S m) i = load_vec V p m i"
proof -
  have "eff own f S m (p + V * i + k) = m (p + V * i + k)" if "k < V" for k
  proof -
    have "V * i + k \<in> blk V i" using that by (simp add: blk_def)
    then show ?thesis using eff_other[of "V * i + k" S own "p + (V * i + k)" f m] assms
      by (auto simp: add.assoc)
  qed
  then show ?thesis by (simp add: load_vec_def)
qed

lemma blk_bound: "i < vc \<Longrightarrow> k \<in> blk V i \<Longrightarrow> vc * V \<le> count \<Longrightarrow> k < count"
  using mult_le_mono2[of "Suc i" vc V] by (auto simp: blk_def mult.commute)

lemma load_vec_nth: "k < V \<Longrightarrow> load_vec V p m i ! k = m (p + V * i + k)"
  by (simp add: load_vec_def)

lemma length_load_vec [simp]: "length (load_vec V p m i) = V"
  by (simp add: load_vec_def)

lemma store_vec_own1:
  assumes "i < vc" "vc * V \<le> count" "\<And>k. k < V \<Longrightarrow> vs ! k = f m (V * i + k)"
  shows "store_vec V dst i vs m = eff (own1 dst count) f (blk V i) m"
proof
  fix a
  have "V * i + V \<le> count" using mult_le_mono2[of "Suc i" vc V] assms by (simp add: mult.commute)
  moreover have "dst + V * i \<le> a \<Longrightarrow> V * i + (a - (dst + V * i)) = a - dst" by simp
  ultimately show "store_vec V dst i vs m a = eff (own1 dst count) f (blk V i) m a"
    using assms(3)[of "a - (dst + V * i)"]
    by (auto simp: store_vec_def eff_def own1_def blk_def split: option.splits)
qed

lemma store_vec_own2:
  assumes "i < vc" "vc * V \<le> count" and vs: "\<And>k. k < V \<Longrightarrow> vs ! k = f m (V * i + k)"
    and ap: "apart dst0 dst1 count"
  shows "store_vec V dst1 i vs (store_vec V dst0 i vs m) = eff (own2 dst0 dst1 count) f (blk V i) m"
proof
  fix a
  have b: "V * i + V \<le> count" using mult_le_mono2[of "Suc i" vc V] assms(1,2) by (simp add: mult.commute)
  let ?in = "\<lambda>d. d + V * i \<le> a \<and> a < d + V * i + V"
  have own: "own2 dst0 dst1 count a = Some (a - d)"
    if "?in d" "d = dst0 \<or> d = dst1" for d
    using that b ap by (auto simp: own2_def own1_def apart_def)
  consider "?in dst1" | "?in dst0" "\<not> ?in dst1" | "\<not> ?in dst0" "\<not> ?in dst1" by blast
  then show "store_vec V dst1 i vs (store_vec V dst0 i vs m) a = eff (own2 dst0 dst1 count) f (blk V i) m a"
  proof cases
    case 1
    then show ?thesis using own[of dst1] vs[of "a - (dst1 + V * i)"]
      by (auto simp: store_vec_def eff_def blk_def)
  next
    case 2
    then show ?thesis using own[of dst0] vs[of "a - (dst0 + V * i)"]
      by (auto simp: store_vec_def eff_def blk_def)
  next
    case 3
    then have "own2 dst0 dst1 count a = Some k \<Longrightarrow> k \<notin> blk V i" for k
      by (auto simp: own2_def own1_def blk_def split: if_splits)
    then show ?thesis using 3 by (auto simp: store_vec_def eff_def split: option.splits)
  qed
qed

lemma load_eff1:
  assumes "readable p dst count" "vc * V \<le> count" "i < vc" "S \<inter> blk V i = {}"
  shows "load_vec V p (eff (own1 dst count) f S m) i = load_vec V p m i"
  using own1_src[OF assms(1)] blk_bound[OF assms(3) _ assms(2)] assms(4) by (intro load_vec_eff) auto

lemma load_eff2:
  assumes "readable p dst0 count" "readable p dst1 count" "vc * V \<le> count" "i < vc" "S \<inter> blk V i = {}"
  shows "load_vec V p (eff (own2 dst0 dst1 count) f S m) i = load_vec V p m i"
  using own2_src[OF assms(1,2)] blk_bound[OF assms(4) _ assms(3)] assms(5) by (intro load_vec_eff) auto

lemma lane_bound: "i < vc \<Longrightarrow> k < V \<Longrightarrow> V * i + k < vc * (V::nat)"
  using mult_le_mono2[of "Suc i" vc V] by (simp add: mult.commute)

lemma vec_ok_copy1:
  assumes "readable src dst count" "vc * V \<le> count"
  shows "vec_ok (own1 dst count) (\<lambda>m k. m (src + k)) V vc (load_vec V src) (store_vec V dst)"
  unfolding vec_ok_def
  using assms by (auto intro!: store_vec_own1 simp: load_eff1 load_vec_nth add.assoc)

lemma vec_ok_copy2:
  assumes "readable src dst0 count" "readable src dst1 count" "apart dst0 dst1 count" "vc * V \<le> count"
  shows "vec_ok (own2 dst0 dst1 count) (\<lambda>m k. m (src + k)) V vc (load_vec V src) (store_twice V dst0 dst1)"
  unfolding vec_ok_def store_twice_def
  using assms by (auto intro!: store_vec_own2 simp: load_eff2 load_vec_nth add.assoc)

lemma vec_ok_reduce1:
  assumes "readable p dst count" "readable q dst count" "vc * V \<le> count" "\<And>k. k < vc * V \<Longrightarrow> G k = g"
  shows "vec_ok (own1 dst count) (\<lambda>m k. G k (m (p + k)) (m (q + k))) V vc (load_two V p q) (store_reduced g V dst)"
  unfolding vec_ok_def load_two_def store_reduced_def
  using assms by (auto intro!: store_vec_own1 simp: load_eff1 load_vec_nth add.assoc lane_bound)

lemma vec_ok_reduce2:
  assumes "readable p dst0 count" "readable p dst1 count" "readable q dst0 count" "readable q dst1 count"
    "apart dst0 dst1 count" "vc * V \<le> count" "\<And>k. k < vc * V \<Longrightarrow> G k = g"
  shows "vec_ok (own2 dst0 dst1 count) (\<lambda>m k. G k (m (p + k)) (m (q + k))) V vc (load_two V p q)
           (store_reduced_twice g V dst0 dst1)"
  unfolding vec_ok_def load_two_def store_reduced_twice_def Let_def
  using assms by (auto intro!: store_vec_own2 simp: load_eff2 load_vec_nth add.assoc lane_bound)

section \<open>Threads as effects\<close>

lemma vec_loop_0 [simp]: "vec_loop U ld st t 0 nw m = m"
  by (simp add: vec_loop_def strided.simps)

lemma store_vec_1: "store_vec (Suc 0) d i [v] m = m(d + i := v)"
  by (auto simp: store_vec_def fun_eq_iff)

lemma upd_own1: "i < count \<Longrightarrow> m(dst + i := f m i) = eff (own1 dst count) f {i} m"
  by (auto simp: eff_def own1_def fun_eq_iff)

lemma upd_own2:
  "i < count \<Longrightarrow> apart dst0 dst1 count \<Longrightarrow>
   m(dst0 + i := f m i, dst1 + i := f m i) = eff (own2 dst0 dst1 count) f {i} m"
  using store_vec_own2[of i count 1 count "[f m i]" f m dst0 dst1]
  by (simp add: store_vec_1 blk_def)

lemma thread_copy1:
  assumes "readable src dst count" "t < nw" "0 < U" "0 < V" "vc * V \<le> count"
  shows "scalar_loop (\<lambda>i m. m(dst + i := m (src + i))) (vc * V + t) count nw
           (vec_loop U (load_vec V src) (store_vec V dst) t vc nw m)
         = eff (own1 dst count) (\<lambda>m k. m (src + k)) {k. k < count \<and> thread_of V vc nw k = t} m"
  using assms by (intro worker_eff local_copy1 vec_ok_copy1) (auto simp: upd_own1[where f = "\<lambda>m k. m (src + k)"])

lemma thread_copy2:
  assumes "readable src dst0 count" "readable src dst1 count" "apart dst0 dst1 count"
    "t < nw" "0 < U" "0 < V" "vc * V \<le> count"
  shows "scalar_loop (\<lambda>i m. let v = m (src + i) in m(dst0 + i := v, dst1 + i := v)) (vc * V + t) count nw
           (vec_loop U (load_vec V src) (store_twice V dst0 dst1) t vc nw m)
         = eff (own2 dst0 dst1 count) (\<lambda>m k. m (src + k)) {k. k < count \<and> thread_of V vc nw k = t} m"
  using assms by (intro worker_eff local_copy2 vec_ok_copy2)
    (auto simp: upd_own2[where f = "\<lambda>m k. m (src + k)"] Let_def)

text \<open>Lane function of index \<open>k\<close> when the first \<open>n\<close> indices use the vector operator.\<close>

definition lane_at :: "nat \<Rightarrow> ('t \<Rightarrow> 't \<Rightarrow> 't) \<Rightarrow> ('t \<Rightarrow> 't \<Rightarrow> 't) \<Rightarrow> nat \<Rightarrow> 't \<Rightarrow> 't \<Rightarrow> 't" where
  "lane_at n vec_op scalar_op k = (if k < n then vec_op else scalar_op)"

lemma thread_reduce1:
  assumes "readable p dst count" "readable q dst count" "t < nw" "0 < U" "0 < V" "vc * V \<le> count"
  shows "scalar_loop (\<lambda>i m. m(dst + i := h (m (p + i)) (m (q + i)))) (vc * V + t) count nw
           (vec_loop U (load_two V p q) (store_reduced g V dst) t vc nw m)
         = eff (own1 dst count) (\<lambda>m k. lane_at (vc * V) g h k (m (p + k)) (m (q + k)))
             {k. k < count \<and> thread_of V vc nw k = t} m"
proof (rule worker_eff[OF _ vec_ok_reduce1])
  fix i m assume "vc * V \<le> i" "i < count"
  then show "m(dst + i := h (m (p + i)) (m (q + i))) =
      eff (own1 dst count) (\<lambda>m k. lane_at (vc * V) g h k (m (p + k)) (m (q + k))) {i} m"
    by (subst upd_own1[symmetric]) (auto simp: lane_at_def)
qed (use assms in \<open>auto intro: local_comb local_copy1 simp: lane_at_def\<close>)

lemma thread_reduce2:
  assumes "readable p dst0 count" "readable p dst1 count" "readable q dst0 count" "readable q dst1 count"
    "apart dst0 dst1 count" "t < nw" "0 < U" "0 < V" "vc * V \<le> count"
  shows "scalar_loop (\<lambda>i m. let v = h (m (p + i)) (m (q + i)) in m(dst0 + i := v, dst1 + i := v))
           (vc * V + t) count nw
           (vec_loop U (load_two V p q) (store_reduced_twice g V dst0 dst1) t vc nw m)
         = eff (own2 dst0 dst1 count) (\<lambda>m k. lane_at (vc * V) g h k (m (p + k)) (m (q + k)))
             {k. k < count \<and> thread_of V vc nw k = t} m"
proof (rule worker_eff[OF _ vec_ok_reduce2])
  fix i m assume "vc * V \<le> i" "i < count"
  then show "(let v = h (m (p + i)) (m (q + i)) in m(dst0 + i := v, dst1 + i := v)) =
      eff (own2 dst0 dst1 count) (\<lambda>m k. lane_at (vc * V) g h k (m (p + k)) (m (q + k))) {i} m"
    using assms(5) by (subst upd_own2[symmetric]) (auto simp: lane_at_def Let_def)
qed (use assms in \<open>auto intro: local_comb local_copy2 simp: lane_at_def\<close>)

text \<open>Vector width, and number of vectors handled by the vector body, as the movers choose them.\<close>

definition vwidth :: "DType \<Rightarrow> nat" where
  "vwidth dt = (if dt = Float then 4 else 8)"

definition vcount :: "DType \<Rightarrow> bool \<Rightarrow> nat \<Rightarrow> nat" where
  "vcount dt al count = (if al then count div vwidth dt else 0)"

lemma vwidth_pos: "0 < vwidth dt" and vcount_le: "vcount dt al count * vwidth dt \<le> count"
  by (simp_all add: vwidth_def vcount_def)

lemma copy_worker_eff:
  assumes "readable src dst count" "t < nw" "0 < U"
  shows "copy_worker dt U nw src dst count t m =
         eff (own1 dst count) (\<lambda>m k. m (src + k))
           {k. k < count \<and> thread_of (vwidth dt) (vcount dt (aligned16 dt src dst dst) count) nw k = t} m"
  using thread_copy1[OF assms vwidth_pos[of dt] vcount_le[of dt "aligned16 dt src dst dst" count], of m]
    thread_copy1[OF assms(1,2) zero_less_one vwidth_pos[of dt] vcount_le[of dt "aligned16 dt src dst dst" count], of m]
    assms(2)
  by (auto simp: copy_worker_def copy_float_worker_def copy_packed16_worker_def copy_scalar_worker_def
      vwidth_def vcount_def Let_def)

lemma copy_volatile_worker_eff:
  assumes "readable src dst count" "t < nw" "0 < U"
  shows "copy_volatile_worker dt U nw src dst count t m =
         eff (own1 dst count) (\<lambda>m k. m (src + k))
           {k. k < count \<and> thread_of (vwidth dt) (vcount dt (aligned16 dt src dst dst) count) nw k = t} m"
  using thread_copy1[OF assms vwidth_pos[of dt] vcount_le[of dt "aligned16 dt src dst dst" count], of m]
    thread_copy1[OF assms(1,2) zero_less_one vwidth_pos[of dt] vcount_le[of dt "aligned16 dt src dst dst" count], of m]
    assms(2)
  by (auto simp: copy_volatile_worker_def copy_volatile_float_worker_def copy_volatile_packed16_worker_def
      copy_scalar_worker_def vwidth_def vcount_def Let_def)

lemma copy_broadcast_worker_eff:
  assumes "readable src dst0 count" "readable src dst1 count" "apart dst0 dst1 count" "t < nw" "0 < U"
  shows "copy_broadcast_volatile_worker dt U nw src dst0 dst1 count t m =
         eff (own2 dst0 dst1 count) (\<lambda>m k. m (src + k))
           {k. k < count \<and> thread_of (vwidth dt) (vcount dt (aligned16 dt src dst0 dst1) count) nw k = t} m"
  using thread_copy2[OF assms vwidth_pos[of dt] vcount_le[of dt "aligned16 dt src dst0 dst1" count], of m]
    thread_copy2[OF assms(1-4) zero_less_one vwidth_pos[of dt] vcount_le[of dt "aligned16 dt src dst0 dst1" count], of m]
    assms(4)
  by (auto simp: copy_broadcast_volatile_worker_def copy_broadcast_volatile_packed16_worker_def
      vwidth_def vcount_def Let_def)

text \<open>The lane functions of a reduction: \<open>lane_packed\<close> on the packed prefix, \<open>lane_float\<close> elsewhere.\<close>

definition red_lane :: "'t num \<Rightarrow> RedOp \<Rightarrow> bool \<Rightarrow> nat \<Rightarrow> DType \<Rightarrow> bool \<Rightarrow> nat \<Rightarrow> nat \<Rightarrow> 't \<Rightarrow> 't \<Rightarrow> 't" where
  "red_lane nm op scale nr dt al count =
     lane_at (vcount dt al count * vwidth dt)
       (if dt = Float then lane_float nm op scale nr else lane_packed nm op scale nr)
       (lane_float nm op scale nr)"

lemma red_lane_scalar: "red_lane nm op scale nr dt False count k = lane_float nm op scale nr"
  by (simp add: red_lane_def lane_at_def vcount_def)

lemma red_lane_float: "red_lane nm op scale nr Float al count k = lane_float nm op scale nr"
  by (simp add: red_lane_def lane_at_def)

lemma reduce_volatile_worker_eff:
  assumes "readable loc dst count" "readable recv dst count" "t < nw" "0 < U"
  shows "reduce_volatile_worker nm op scale nr dt U nw loc recv dst count t m =
         eff (own1 dst count) (\<lambda>m k. red_lane nm op scale nr dt (aligned16 dt loc recv dst) count k (m (loc + k)) (m (recv + k)))
           {k. k < count \<and> thread_of (vwidth dt) (vcount dt (aligned16 dt loc recv dst) count) nw k = t} m"
  using thread_reduce1[OF assms vwidth_pos[of dt] vcount_le[of dt "aligned16 dt loc recv dst" count],
      of "lane_float nm op scale nr" "lane_float nm op scale nr" m]
    thread_reduce1[OF assms(1-3) zero_less_one vwidth_pos[of dt] vcount_le[of dt "aligned16 dt loc recv dst" count],
      of "lane_float nm op scale nr" "lane_packed nm op scale nr" m] assms(3)
  by (auto simp: reduce_volatile_worker_def reduce_volatile_packed16_worker_def vwidth_def vcount_def
      red_lane_def Let_def)

lemma reduce_local_into_dst_eff:
  assumes "readable loc dst count" "t < nw" "0 < U"
  shows "reduce_local_into_dst nm op scale nr dt U nw loc dst count t m =
         eff (own1 dst count) (\<lambda>m k. red_lane nm op scale nr dt (aligned16 dt loc dst dst) count k (m (loc + k)) (m (dst + k)))
           {k. k < count \<and> thread_of (vwidth dt) (vcount dt (aligned16 dt loc dst dst) count) nw k = t} m"
proof -
  have dd: "readable dst dst count" by (simp add: readable_def)
  show ?thesis
    using thread_reduce1[OF assms(1) dd assms(2,3) vwidth_pos[of dt] vcount_le[of dt "aligned16 dt loc dst dst" count],
        of "lane_float nm op scale nr" "lane_float nm op scale nr" m]
      thread_reduce1[OF assms(1) dd assms(2) zero_less_one vwidth_pos[of dt] vcount_le[of dt "aligned16 dt loc dst dst" count],
        of "lane_float nm op scale nr" "lane_packed nm op scale nr" m] assms(2)
    by (auto simp: reduce_local_into_dst_def vwidth_def vcount_def red_lane_def Let_def)
qed

definition bcast_aligned :: "DType \<Rightarrow> nat \<Rightarrow> nat \<Rightarrow> nat \<Rightarrow> nat \<Rightarrow> bool" where
  "bcast_aligned dt loc recv dst0 dst1 \<longleftrightarrow> aligned16 dt loc recv dst0 \<and> aligned16 dt loc recv dst1"

lemma reduce_broadcast_worker_eff:
  assumes "readable loc dst0 count" "readable loc dst1 count" "readable recv dst0 count" "readable recv dst1 count"
    "apart dst0 dst1 count" "t < nw" "0 < U"
  shows "reduce_broadcast_volatile_worker nm op nr dt U nw loc recv dst0 dst1 count t m =
         eff (own2 dst0 dst1 count)
           (\<lambda>m k. red_lane nm op True nr dt (bcast_aligned dt loc recv dst0 dst1) count k (m (loc + k)) (m (recv + k)))
           {k. k < count \<and> thread_of (vwidth dt) (vcount dt (bcast_aligned dt loc recv dst0 dst1) count) nw k = t} m"
  using thread_reduce2[OF assms vwidth_pos[of dt] vcount_le[of dt "bcast_aligned dt loc recv dst0 dst1" count],
      of "lane_float nm op True nr" "lane_float nm op True nr" m]
    thread_reduce2[OF assms(1-6) zero_less_one vwidth_pos[of dt] vcount_le[of dt "bcast_aligned dt loc recv dst0 dst1" count],
      of "lane_float nm op True nr" "lane_packed nm op True nr" m] assms(6)
  by (auto simp: reduce_broadcast_volatile_worker_def reduce_broadcast_volatile_packed16_worker_def
      vwidth_def vcount_def red_lane_def bcast_aligned_def Let_def)

lemma reduce_local_broadcast_worker_eff:
  assumes "readable loc dst0 count" "readable loc dst1 count" "apart dst0 dst1 count" "t < nw" "0 < U"
  shows "reduce_local_broadcast_worker nm op nr dt U nw loc dst0 dst1 count t m =
         eff (own2 dst0 dst1 count)
           (\<lambda>m k. red_lane nm op True nr dt (aligned16 dt loc dst0 dst1) count k (m (loc + k)) (m (dst1 + k)))
           {k. k < count \<and> thread_of (vwidth dt) (vcount dt (aligned16 dt loc dst0 dst1) count) nw k = t} m"
proof -
  have dd: "readable dst1 dst0 count" "readable dst1 dst1 count"
    using assms(3) by (auto simp: readable_def apart_def)
  show ?thesis
    using thread_reduce2[OF assms(1,2) dd assms(3-5) vwidth_pos[of dt] vcount_le[of dt "aligned16 dt loc dst0 dst1" count],
        of "lane_float nm op True nr" "lane_float nm op True nr" m]
      thread_reduce2[OF assms(1,2) dd assms(3,4) zero_less_one vwidth_pos[of dt] vcount_le[of dt "aligned16 dt loc dst0 dst1" count],
        of "lane_float nm op True nr" "lane_packed nm op True nr" m] assms(4)
    by (auto simp: reduce_local_broadcast_worker_def vwidth_def vcount_def red_lane_def Let_def)
qed

section \<open>Blocks as elementwise transfers\<close>

definition write1 :: "nat \<Rightarrow> nat \<Rightarrow> (nat \<Rightarrow> 't) \<Rightarrow> 't mem \<Rightarrow> 't mem" where
  "write1 dst count v m = (\<lambda>a. if dst \<le> a \<and> a < dst + count then v (a - dst) else m a)"

lemma eff_write1: "eff (own1 dst count) f {..<count} m = write1 dst count (f m) m"
  by (auto simp: eff_def own1_def write1_def fun_eq_iff)

lemma eff_write2:
  "apart dst0 dst1 count \<Longrightarrow>
   eff (own2 dst0 dst1 count) f {..<count} m = write1 dst1 count (f m) (write1 dst0 count (f m) m)"
  by (auto simp: eff_def own1_def own2_def write1_def apart_def fun_eq_iff)

text \<open>A schedule of the block's threads: each worker thread once, in any order.\<close>

definition thread_order :: "nat \<Rightarrow> nat list \<Rightarrow> bool" where
  "thread_order nw ts \<longleftrightarrow> 0 < nw \<and> distinct ts \<and> {0..<nw} \<subseteq> set ts"

lemma block_write1:
  assumes "thread_order nw ts" "local_to (own1 dst count) f"
    "\<And>t m. t < nw \<Longrightarrow> w t m = eff (own1 dst count) f {k. k < count \<and> thread_of V vc nw k = t} m"
    "\<And>t m. nw \<le> t \<Longrightarrow> w t m = m"
  shows "run_threads w ts m = write1 dst count (f m) m"
  using block_eff[of "own1 dst count" f ts nw w count "thread_of V vc nw" m] assms thread_of_less[of nw V vc]
  by (simp add: thread_order_def eff_write1)

lemma block_write2:
  assumes "thread_order nw ts" "local_to (own2 dst0 dst1 count) f" "apart dst0 dst1 count"
    "\<And>t m. t < nw \<Longrightarrow> w t m = eff (own2 dst0 dst1 count) f {k. k < count \<and> thread_of V vc nw k = t} m"
    "\<And>t m. nw \<le> t \<Longrightarrow> w t m = m"
  shows "run_threads w ts m = write1 dst1 count (f m) (write1 dst0 count (f m) m)"
  using block_eff[of "own2 dst0 dst1 count" f ts nw w count "thread_of V vc nw" m] assms thread_of_less[of nw V vc]
  by (simp add: thread_order_def eff_write2)

lemma copy_block:
  assumes "thread_order nw ts" "readable src dst count" "0 < U"
  shows "run_threads (copy_worker dt U nw src dst count) ts m = write1 dst count (\<lambda>k. m (src + k)) m"
  by (rule block_write1[where f = "\<lambda>m k. m (src + k)", OF assms(1) local_copy1[OF assms(2)] copy_worker_eff[OF assms(2) _ assms(3)]])
     (auto simp: copy_worker_def copy_float_worker_def copy_packed16_worker_def copy_scalar_worker_def)

lemma copy_volatile_block:
  assumes "thread_order nw ts" "readable src dst count" "0 < U"
  shows "run_threads (copy_volatile_worker dt U nw src dst count) ts m = write1 dst count (\<lambda>k. m (src + k)) m"
  by (rule block_write1[where f = "\<lambda>m k. m (src + k)", OF assms(1) local_copy1[OF assms(2)] copy_volatile_worker_eff[OF assms(2) _ assms(3)]])
     (auto simp: copy_volatile_worker_def copy_volatile_float_worker_def copy_volatile_packed16_worker_def copy_scalar_worker_def)

lemma copy_broadcast_block:
  assumes "thread_order nw ts" "readable src dst0 count" "readable src dst1 count" "apart dst0 dst1 count" "0 < U"
  shows "run_threads (copy_broadcast_volatile_worker dt U nw src dst0 dst1 count) ts m =
         write1 dst1 count (\<lambda>k. m (src + k)) (write1 dst0 count (\<lambda>k. m (src + k)) m)"
  by (rule block_write2[where f = "\<lambda>m k. m (src + k)", OF assms(1) local_copy2[OF assms(2,3)] assms(4)
        copy_broadcast_worker_eff[OF assms(2-4) _ assms(5)]])
     (auto simp: copy_broadcast_volatile_worker_def)

lemma reduce_volatile_block:
  assumes "thread_order nw ts" "readable loc dst count" "readable recv dst count" "0 < U"
  shows "run_threads (reduce_volatile_worker nm op scale nr dt U nw loc recv dst count) ts m =
         write1 dst count (\<lambda>k. red_lane nm op scale nr dt (aligned16 dt loc recv dst) count k (m (loc + k)) (m (recv + k))) m"
  by (rule block_write1[where f = "\<lambda>m k. red_lane nm op scale nr dt (aligned16 dt loc recv dst) count k (m (loc + k)) (m (recv + k))",
        OF assms(1) local_comb[OF local_copy1[OF assms(2)] local_copy1[OF assms(3)]]
        reduce_volatile_worker_eff[OF assms(2,3) _ assms(4)]])
     (auto simp: reduce_volatile_worker_def)

lemma reduce_local_into_dst_block:
  assumes "thread_order nw ts" "readable loc dst count" "0 < U"
  shows "run_threads (reduce_local_into_dst nm op scale nr dt U nw loc dst count) ts m =
         write1 dst count (\<lambda>k. red_lane nm op scale nr dt (aligned16 dt loc dst dst) count k (m (loc + k)) (m (dst + k))) m"
proof -
  have dd: "readable dst dst count" by (simp add: readable_def)
  show ?thesis
    by (rule block_write1[where f = "\<lambda>m k. red_lane nm op scale nr dt (aligned16 dt loc dst dst) count k (m (loc + k)) (m (dst + k))",
          OF assms(1) local_comb[OF local_copy1[OF assms(2)] local_copy1[OF dd]]
          reduce_local_into_dst_eff[OF assms(2) _ assms(3)]])
       (auto simp: reduce_local_into_dst_def)
qed

lemma reduce_broadcast_block:
  assumes "thread_order nw ts" "readable loc dst0 count" "readable loc dst1 count" "readable recv dst0 count"
    "readable recv dst1 count" "apart dst0 dst1 count" "0 < U"
  shows "run_threads (reduce_broadcast_volatile_worker nm op nr dt U nw loc recv dst0 dst1 count) ts m =
         (let v = (\<lambda>k. red_lane nm op True nr dt (bcast_aligned dt loc recv dst0 dst1) count k (m (loc + k)) (m (recv + k)))
          in write1 dst1 count v (write1 dst0 count v m))"
  unfolding Let_def
  by (rule block_write2[where f = "\<lambda>m k. red_lane nm op True nr dt (bcast_aligned dt loc recv dst0 dst1) count k (m (loc + k)) (m (recv + k))",
        OF assms(1) local_comb[OF local_copy2[OF assms(2,3)] local_copy2[OF assms(4,5)]] assms(6)
        reduce_broadcast_worker_eff[OF assms(2-6) _ assms(7)]])
     (auto simp: reduce_broadcast_volatile_worker_def)

lemma reduce_local_broadcast_block:
  assumes "thread_order nw ts" "readable loc dst0 count" "readable loc dst1 count" "apart dst0 dst1 count" "0 < U"
  shows "run_threads (reduce_local_broadcast_worker nm op nr dt U nw loc dst0 dst1 count) ts m =
         (let v = (\<lambda>k. red_lane nm op True nr dt (aligned16 dt loc dst0 dst1) count k (m (loc + k)) (m (dst1 + k)))
          in write1 dst1 count v (write1 dst0 count v m))"
proof -
  have dd: "readable dst1 dst0 count" "readable dst1 dst1 count"
    using assms(4) by (auto simp: readable_def apart_def)
  show ?thesis
    unfolding Let_def
    by (rule block_write2[where f = "\<lambda>m k. red_lane nm op True nr dt (aligned16 dt loc dst0 dst1) count k (m (loc + k)) (m (dst1 + k))",
          OF assms(1) local_comb[OF local_copy2[OF assms(2,3)] local_copy2[OF dd]] assms(4)
          reduce_local_broadcast_worker_eff[OF assms(2-4) _ assms(5)]])
       (auto simp: reduce_local_broadcast_worker_def)
qed

text \<open>
  The packed intrinsics compute the scalar operator in each lane. For \<open>Float\<close> nothing is asked. For the sums and averages
  of the 16-bit types this is the documented behaviour of \<open>__hadd2\<close>. The documentation of \<open>__hmax2_nan\<close> and \<open>__hmin2_nan\<close>
  gives it for operands that are numbers, zeros of one sign included: they return the canonical NaN when an operand is NaN, and they
  order the zeros by sign, where the scalar operators return one of the operands. For 16-bit maxima and minima over such operands the
  results below thus hold up to the payload of a NaN and the sign of a zero.
\<close>

definition packed_agrees :: "'t num \<Rightarrow> RedOp \<Rightarrow> DType \<Rightarrow> bool" where
  "packed_agrees nm op dt \<longleftrightarrow> dt = Float \<or> (\<forall>a b. packed16_lane nm op a b = redop_apply nm op a b)"

lemma red_lane_agrees:
  "packed_agrees nm op dt \<Longrightarrow> red_lane nm op scale nr dt al count k = lane_float nm op scale nr"
  by (auto simp: packed_agrees_def red_lane_def lane_at_def lane_float_def lane_packed_def fun_eq_iff)

lemma write1_at: "k < count \<Longrightarrow> write1 dst count v m (dst + k) = v k"
  by (simp add: write1_def)

lemma write1_outside: "a < dst \<or> dst + count \<le> a \<Longrightarrow> write1 dst count v m a = m a"
  by (auto simp: write1_def)

lemma write1_cong: "(\<And>k. k < count \<Longrightarrow> v k = v' k) \<Longrightarrow> write1 dst count v m = write1 dst count v' m"
  by (auto simp: write1_def fun_eq_iff)

lemma write1_write1: "write1 dst count v (write1 dst count v' m) = write1 dst count v m"
  by (auto simp: write1_def fun_eq_iff)

section \<open>Properties of the movers\<close>

text \<open>Exact integer arithmetic, the instance of \<open>num\<close> used for concrete evaluations.\<close>

definition int_num :: "int num" where
  "int_num = \<lparr> num_add = (+), num_ne = (\<noteq>), num_gt = (>), num_lt = (<), num_scale = (\<lambda>n v. v div int n),
     num_hadd2 = (+), num_hmax2_nan = (\<lambda>a b. if b < a then a else b), num_hmin2_nan = (\<lambda>a b. if a < b then a else b) \<rparr>"

lemma int_num_agrees: "packed_agrees int_num op dt"
  by (cases op) (auto simp: packed_agrees_def int_num_def)

lemma thread_order_3: "thread_order 3 [2, 0, 1]"
  by (auto simp: thread_order_def)

lemma bit16_False: "\<not> bit (a :: 16 word) (16 + n)"
  using bit_imp_le_length[of a "16 + n"] by auto

lemma half2_roundtrip: "half2_to_bits (half2_from_bits w) = w" "half2_from_bits (half2_to_bits v) = v"
proof -
  show "half2_to_bits (half2_from_bits w) = w"
    by (rule bit_word_eqI)
       (auto simp: half2_to_bits_def half2_from_bits_def bit_or_iff bit_push_bit_iff bit_unsigned_iff bit_drop_bit_eq
         dest: bit_imp_le_length)
  show "half2_from_bits (half2_to_bits v) = v"
    by (cases v) (auto simp: half2_to_bits_def half2_from_bits_def bit_or_iff bit_push_bit_iff bit_unsigned_iff
        bit_drop_bit_eq bit16_False intro!: bit_word_eqI dest: bit_imp_le_length)
qed

text \<open>the 32-bit packing of two 16-bit values is a bijection in both directions, and the packed
  reduction and the packed average scaling act on each half separately.\<close>

theorem packed16_lanewise:
  "half2_to_bits (half2_from_bits w) = w \<and> half2_from_bits (half2_to_bits v) = v \<and>
   half2_from_bits (packed16_apply nm op a b) =
     (packed16_lane nm op (fst (half2_from_bits a)) (fst (half2_from_bits b)),
      packed16_lane nm op (snd (half2_from_bits a)) (snd (half2_from_bits b))) \<and>
   half2_from_bits (scale_avg_packed16 nm nr a) =
     map_prod (num_scale nm nr) (num_scale nm nr) (half2_from_bits a)"
  by (simp add: packed16_apply_def scale_avg_packed16_def half2_roundtrip Let_def map_prod_def split_beta)

text \<open>whatever the alignment of the pointers, the unrolling and the order in which the threads
  of a block run, \<open>copy_worker\<close> and \<open>copy_volatile_worker\<close> copy exactly the \<open>count\<close> elements
  and change nothing else, provided the two ranges do not overlap.\<close>

theorem copy_workers_elementwise:
  assumes "thread_order nw ts" "apart src dst count" "0 < U"
  shows "run_threads (copy_worker dt U nw src dst count) ts m =
           (\<lambda>a. if dst \<le> a \<and> a < dst + count then m (src + (a - dst)) else m a) \<and>
         run_threads (copy_volatile_worker dt U nw src dst count) ts m =
           (\<lambda>a. if dst \<le> a \<and> a < dst + count then m (src + (a - dst)) else m a)"
proof -
  have "readable src dst count" using assms(2) by (simp add: readable_def)
  then show ?thesis using assms by (simp add: copy_block copy_volatile_block write1_def)
qed

theorem copy_workers_elementwise_witness:
  "run_threads (copy_worker Float 8 3 0 100 7) [2, 0, 1] (\<lambda>a. a) 106 = 6"
  using copy_workers_elementwise[OF thread_order_3, of 0 100 7 8 Float "\<lambda>a. a"]
  by (simp add: apart_def)

text \<open>C40: \<open>reduce_volatile_worker\<close> writes to every index of the destination the operator applied to
  the local and the received element (scaled for averages when asked), for any schedule of the
  threads, and nothing else, if the packed intrinsics compute the scalar operator lane by lane.\<close>

theorem reduce_worker_elementwise:
  assumes "thread_order nw ts" "apart loc dst count" "apart recv dst count" "0 < U" "packed_agrees nm op dt"
  shows "run_threads (reduce_volatile_worker nm op scale nr dt U nw loc recv dst count) ts m =
         (\<lambda>a. if dst \<le> a \<and> a < dst + count
              then scaled nm op scale nr (redop_apply nm op (m (loc + (a - dst))) (m (recv + (a - dst))))
              else m a)"
proof -
  have "readable loc dst count" "readable recv dst count" using assms(2,3) by (simp_all add: readable_def)
  then show ?thesis using assms
    by (simp add: reduce_volatile_block red_lane_agrees lane_float_def write1_def)
qed

theorem reduce_worker_elementwise_witness:
  "run_threads (reduce_volatile_worker int_num RAvg True 2 Float16 1 3 0 20 40 9) [2, 0, 1] int 48 = 18"
  using reduce_worker_elementwise[OF thread_order_3, of 0 40 9 20 1 int_num RAvg Float16 True 2 int]
  by (simp add: apart_def int_num_agrees) (simp add: scaled_def int_num_def)

text \<open>the two-phase path for small slices (copy the received slice out, return the credit, then
  reduce in place) leaves the same memory as the single-pass reduction used for large slices.\<close>

theorem two_phase_reduce_equiv:
  assumes "thread_order nw ts" "apart loc dst count" "apart recv dst count" "0 < U" "packed_agrees nm op dt"
  shows "run_threads (reduce_local_into_dst nm op scale nr dt U nw loc dst count) ts
           (run_threads (copy_volatile_worker dt U nw recv dst count) ts m) =
         run_threads (reduce_volatile_worker nm op scale nr dt U nw loc recv dst count) ts m"
proof -
  have rd: "readable loc dst count" "readable recv dst count" using assms(2,3) by (simp_all add: readable_def)
  have "write1 dst count (\<lambda>k. m (recv + k)) m (loc + k) = m (loc + k)" if "k < count" for k
    using assms(2) that by (intro write1_outside) (auto simp: apart_def)
  then show ?thesis using assms rd
    by (simp add: copy_volatile_block reduce_local_into_dst_block reduce_volatile_block red_lane_agrees write1_write1 write1_at
        cong: write1_cong)
qed

theorem two_phase_reduce_equiv_witness:
  "run_threads (reduce_local_into_dst int_num RMax False 4 Float 8 3 0 40 9) [2, 0, 1]
     (run_threads (copy_volatile_worker Float 8 3 20 40 9) [2, 0, 1] int) =
   run_threads (reduce_volatile_worker int_num RMax False 4 Float 8 3 0 20 40 9) [2, 0, 1] int"
  by (rule two_phase_reduce_equiv[OF thread_order_3]) (simp_all add: apart_def int_num_agrees)

end
