(* ===== verification/Ring_Kernel.thy ===== *)
theory Ring_Kernel
  imports Worker
begin

text \<open>
  The three ring kernels of \<open>kernels/ring_simple_kernel.cuh\<close> (lines 862--1737).

  A block (one rank, one channel) executes a straight-line program of operations between block
  barriers: waits on the two counters of its edges, data movers, counter stores. The program of
  a launch is computed by \<open>all_reduce_program\<close>, \<open>reduce_scatter_program\<close> and
  \<open>all_gather_program\<close>, which mirror the loops of the three kernels; each primitive
  (\<open>direct_send\<close>, \<open>recv_reduce_send\<close>, ...) yields one list of operations per slice, empty
  when the slice carries no data. \<open>kstep\<close> executes the next operation of one block; a run of the
  machine is any interleaving of such steps of all blocks of all ranks.

  Memory is global: the user buffers and the FIFO rings of all edges live in one address
  space, as they do for the shared-memory and peer-to-peer transports. Step counters are
  unbounded naturals. A failed poll stays at the wait and refreshes the cached counter.
\<close>

section \<open>Configuration and operations\<close>

type_synonym pid = "nat \<times> nat"

record 't kcfg =
  kc_num :: "'t num"
  kc_dt :: DType
  kc_op :: RedOp
  kc_unroll :: nat
  kc_block :: nat
  kc_nranks :: nat
  kc_channels :: nat
  kc_count :: nat
  kc_slot_elems :: nat
  kc_step_elems :: nat
  kc_input :: "nat \<Rightarrow> nat"
  kc_output :: "nat \<Rightarrow> nat"
  kc_fifo :: "pid \<Rightarrow> nat"
  kc_payload :: "pid \<Rightarrow> bool"

datatype kop =
    Wait_send_credit
  | Wait_recv_ready
  | Wait_recv_ready_and_send_credit
  | Copy_in nat nat
  | Copy_local nat nat nat
  | Copy_recv_to_slot nat
  | Copy_recv_to_out nat nat
  | Reduce_into_slot nat nat
  | Reduce_into_out nat nat nat
  | Reduce_slot nat nat
  | Reduce_out nat nat nat
  | Reduce_local_bcast nat nat nat
  | Reduce_bcast nat nat nat
  | Bcast nat nat
  | Post_recv_credit
  | Post_send_ready nat
  | Advance_recv
  | Advance_send
  | Store_base_steps

definition kEarlyRecvCreditMaxBytes :: nat where
  "kEarlyRecvCreditMaxBytes = 4096"

section \<open>Primitives, one operation list per slice\<close>

definition slice_work :: "'t kcfg \<Rightarrow> nat \<Rightarrow> nat \<Rightarrow> nat \<times> nat" where
  "slice_work c n s =
     (let slice_size = slice_elems (kc_dt c) n (kc_step_elems c);
          slice_offset = s * slice_size
      in (slice_offset, if slice_offset < n then nelem slice_size n slice_offset else 0))"

definition slices :: "'t kcfg \<Rightarrow> nat \<Rightarrow> (nat \<Rightarrow> nat \<Rightarrow> kop list) \<Rightarrow> kop list list" where
  "slices c n body =
     map (\<lambda>s. case slice_work c n s of (slice_offset, work) \<Rightarrow> if work = 0 then [] else body slice_offset work)
       [0..<kChunkSteps div kSliceSteps]"

definition is_small :: "'t kcfg \<Rightarrow> nat \<Rightarrow> bool" where
  "is_small c work \<longleftrightarrow> work * sizeof (kc_dt c) \<le> kEarlyRecvCreditMaxBytes"

definition direct_send :: "'t kcfg \<Rightarrow> nat \<Rightarrow> nat \<Rightarrow> kop list list" where
  "direct_send c src n = slices c n (\<lambda>off work.
     [Wait_send_credit, Copy_in (src + off) work, Post_send_ready (work * sizeof (kc_dt c)), Advance_send])"

definition recv_reduce_send :: "'t kcfg \<Rightarrow> nat \<Rightarrow> nat \<Rightarrow> kop list list" where
  "recv_reduce_send c loc n = slices c n (\<lambda>off work.
     if is_small c work then
       [Wait_recv_ready_and_send_credit, Copy_recv_to_slot work, Post_recv_credit,
        Reduce_into_slot (loc + off) work, Post_send_ready (work * sizeof (kc_dt c)),
        Advance_recv, Advance_send]
     else
       [Wait_recv_ready_and_send_credit, Reduce_slot (loc + off) work, Post_recv_credit,
        Post_send_ready (work * sizeof (kc_dt c)), Advance_recv, Advance_send])"

definition recv_reduce_copy_send :: "'t kcfg \<Rightarrow> nat \<Rightarrow> nat \<Rightarrow> nat \<Rightarrow> kop list list" where
  "recv_reduce_copy_send c loc out n = slices c n (\<lambda>off work.
     if is_small c work then
       [Wait_recv_ready_and_send_credit, Copy_recv_to_slot work, Post_recv_credit,
        Reduce_local_bcast (loc + off) (out + off) work, Post_send_ready (work * sizeof (kc_dt c)),
        Advance_recv, Advance_send]
     else
       [Wait_recv_ready_and_send_credit, Reduce_bcast (loc + off) (out + off) work, Post_recv_credit,
        Post_send_ready (work * sizeof (kc_dt c)), Advance_recv, Advance_send])"

definition recv_reduce_copy :: "'t kcfg \<Rightarrow> nat \<Rightarrow> nat \<Rightarrow> nat \<Rightarrow> kop list list" where
  "recv_reduce_copy c loc out n = slices c n (\<lambda>off work.
     if is_small c work then
       [Wait_recv_ready, Copy_recv_to_out (out + off) work, Post_recv_credit,
        Reduce_into_out (loc + off) (out + off) work, Advance_recv]
     else
       [Wait_recv_ready, Reduce_out (loc + off) (out + off) work, Post_recv_credit, Advance_recv])"

definition recv_copy_send :: "'t kcfg \<Rightarrow> nat \<Rightarrow> nat \<Rightarrow> kop list list" where
  "recv_copy_send c out n = slices c n (\<lambda>off work.
     [Wait_recv_ready_and_send_credit, Bcast (out + off) work, Post_recv_credit,
      Post_send_ready (work * sizeof (kc_dt c)), Advance_recv, Advance_send])"

definition direct_recv :: "'t kcfg \<Rightarrow> nat \<Rightarrow> nat \<Rightarrow> kop list list" where
  "direct_recv c out n = slices c n (\<lambda>off work.
     [Wait_recv_ready, Copy_recv_to_out (out + off) work, Post_recv_credit, Advance_recv])"

section \<open>The kernels\<close>

text \<open>
  The \<open>(elem_offset, loop_chunk)\<close> pairs of the outer loop of \<open>ring_simple_kernel\<close>. The loop
  does not end when a round makes no progress (\<open>slot_elems = 0\<close>), hence the option.
\<close>

definition ar_loop_chunk :: "nat \<Rightarrow> DType \<Rightarrow> nat \<Rightarrow> nat \<Rightarrow> nat \<Rightarrow> nat" where
  "ar_loop_chunk nranks dt slot chunk_count rem_count =
     (let loop_chunk = loop_chunk_elems chunk_count slot in
      if rem_count < nranks * loop_chunk
      then align_up (div_up rem_count nranks) (kVectorBytes div sizeof dt) else loop_chunk)"

partial_function (option) ar_loops ::
  "nat \<Rightarrow> DType \<Rightarrow> nat \<Rightarrow> nat \<Rightarrow> nat \<Rightarrow> nat \<Rightarrow> (nat \<times> nat) list option" where
  "ar_loops nranks dt slot part_count chunk_count elem_offset =
     (if elem_offset < part_count then
        let loop_chunk = ar_loop_chunk nranks dt slot chunk_count (part_count - elem_offset) in
        Option.bind (ar_loops nranks dt slot part_count chunk_count (elem_offset + nranks * loop_chunk))
          (\<lambda>rest. Some ((elem_offset, loop_chunk) # rest))
      else Some [])"

definition all_reduce_iter :: "'t kcfg \<Rightarrow> nat \<Rightarrow> nat \<Rightarrow> nat \<Rightarrow> nat \<times> nat \<Rightarrow> kop list list" where
  "all_reduce_iter c ring_ix part_offset part_count = (\<lambda>(elem_offset, loop_chunk).
     let nranks = kc_nranks c;
         rem_count = part_count - elem_offset;
         offset = (\<lambda>chunk. part_offset + elem_offset + chunk * loop_chunk);
         work = (\<lambda>chunk. nelem loop_chunk rem_count (chunk * loop_chunk));
         inp = kc_input c ring_ix;
         outp = kc_output c ring_ix
     in (let chunk = (ring_ix + nranks - 1) mod nranks in direct_send c (inp + offset chunk) (work chunk)) @
        concat (map (\<lambda>j. let chunk = (ring_ix + nranks - j) mod nranks in
                          recv_reduce_send c (inp + offset chunk) (work chunk)) [2..<nranks]) @
        (let chunk = ring_ix in
           recv_reduce_copy_send c (inp + offset chunk) (outp + offset chunk) (work chunk)) @
        concat (map (\<lambda>j. let chunk = (ring_ix + nranks - j) mod nranks in
                          recv_copy_send c (outp + offset chunk) (work chunk)) [1..<nranks - 1]) @
        (let chunk = (ring_ix + 1) mod nranks in direct_recv c (outp + offset chunk) (work chunk)))"

definition all_reduce_program :: "'t kcfg \<Rightarrow> pid \<Rightarrow> kop list list option" where
  "all_reduce_program c = (\<lambda>(rank, channel).
     if kc_channels c \<le> channel then Some []
     else case cbd_part (kc_nranks c) (kc_channels c) (kc_dt c) (kc_count c) channel of
       (part_offset, part_count, chunk_count) \<Rightarrow>
         if part_count = 0 \<or> chunk_count = 0 then Some []
         else map_option (\<lambda>loops. concat (map (all_reduce_iter c rank part_offset part_count) loops) @ [[Store_base_steps]])
                (ar_loops (kc_nranks c) (kc_dt c) (kc_slot_elems c) part_count chunk_count 0))"

text \<open>The \<open>(elem_offset, work)\<close> pairs of the outer loop of the two other kernels.\<close>

partial_function (option) part_loops :: "nat \<Rightarrow> nat \<Rightarrow> nat \<Rightarrow> (nat \<times> nat) list option" where
  "part_loops slot part_count elem_offset =
     (if elem_offset < part_count then
        let remaining = part_count - elem_offset;
            work = (if remaining < slot then remaining else slot)
        in Option.bind (part_loops slot part_count (elem_offset + work)) (\<lambda>rest. Some ((elem_offset, work) # rest))
      else Some [])"

definition all_gather_iter :: "'t kcfg \<Rightarrow> nat \<Rightarrow> nat \<Rightarrow> nat \<times> nat \<Rightarrow> kop list list" where
  "all_gather_iter c rank part_offset = (\<lambda>(elem_offset, work).
     let nranks = kc_nranks c;
         input_offset = part_offset + elem_offset;
         inp = kc_input c rank;
         outp = (\<lambda>source_rank. kc_output c rank + (source_rank * kc_count c + input_offset))
     in [[Copy_local (inp + input_offset) (outp rank) work]] @
        direct_send c (inp + input_offset) work @
        concat (map (\<lambda>step. recv_copy_send c (outp ((rank + nranks - step) mod nranks)) work) [1..<nranks - 1]) @
        direct_recv c (outp ((rank + 1) mod nranks)) work)"

definition all_gather_program :: "'t kcfg \<Rightarrow> pid \<Rightarrow> kop list list option" where
  "all_gather_program c = (\<lambda>(rank, channel).
     if kc_channels c \<le> channel then Some []
     else case channel_part (kc_channels c) (kc_count c) channel of (part_offset, part_count) \<Rightarrow>
       if part_count = 0 then Some []
       else map_option (\<lambda>loops. concat (map (all_gather_iter c rank part_offset) loops) @ [[Store_base_steps]])
              (part_loops (kc_slot_elems c) part_count 0))"

definition reduce_scatter_iter :: "'t kcfg \<Rightarrow> nat \<Rightarrow> nat \<Rightarrow> nat \<times> nat \<Rightarrow> kop list list" where
  "reduce_scatter_iter c rank part_offset = (\<lambda>(elem_offset, work).
     let nranks = kc_nranks c;
         rank_part_offset = part_offset + elem_offset;
         inp = (\<lambda>chunk. kc_input c rank + (chunk * kc_count c + rank_part_offset))
     in direct_send c (inp ((rank + nranks - 1) mod nranks)) work @
        concat (map (\<lambda>step. recv_reduce_send c (inp ((rank + nranks - step) mod nranks)) work) [2..<nranks]) @
        recv_reduce_copy c (inp rank) (kc_output c rank + rank_part_offset) work)"

definition reduce_scatter_program :: "'t kcfg \<Rightarrow> pid \<Rightarrow> kop list list option" where
  "reduce_scatter_program c = (\<lambda>(rank, channel).
     if kc_channels c \<le> channel then Some []
     else case channel_part (kc_channels c) (kc_count c) channel of (part_offset, part_count) \<Rightarrow>
       if part_count = 0 then Some []
       else map_option (\<lambda>loops. concat (map (reduce_scatter_iter c rank part_offset) loops) @ [[Store_base_steps]])
              (part_loops (kc_slot_elems c) part_count 0))"

section \<open>State and steps\<close>

record proc =
  prog :: "kop list"
  send_step :: nat
  recv_step :: nat
  send_head_cache :: nat
  recv_tail_cache :: nat
  send_base_step :: nat
  recv_base_step :: nat
  stopped :: bool

text \<open>Edge of a sender: \<open>e_head\<close> is advanced by the receiver, \<open>e_tail\<close> and the payload sizes by the sender.\<close>

record edge =
  e_head :: nat
  e_tail :: nat
  e_payload :: "nat \<Rightarrow> nat"

record 't net =
  net_mem :: "'t mem"
  procs :: "pid \<Rightarrow> proc"
  edges :: "pid \<Rightarrow> edge"

definition next_pid :: "'t kcfg \<Rightarrow> pid \<Rightarrow> pid" where
  "next_pid c p = ((fst p + 1) mod kc_nranks c, snd p)"

definition prev_pid :: "'t kcfg \<Rightarrow> pid \<Rightarrow> pid" where
  "prev_pid c p = ((fst p + kc_nranks c - 1) mod kc_nranks c, snd p)"

definition slot_addr :: "'t kcfg \<Rightarrow> pid \<Rightarrow> nat \<Rightarrow> nat" where
  "slot_addr c p step = kc_fifo c p + step mod kFifoSteps * kc_slot_elems c"

definition data_op :: "'t kcfg \<Rightarrow> pid \<Rightarrow> proc \<Rightarrow> kop \<Rightarrow> 't mem \<Rightarrow> 't mem" where
  "data_op c p pr opr =
     (let dt = kc_dt c; U = kc_unroll c; nw = nworkers (kc_block c); nm = kc_num c; rop = kc_op c; nr = kc_nranks c;
          recv = slot_addr c (prev_pid c p) (recv_step pr);
          dst = slot_addr c p (send_step pr);
          block = (\<lambda>w. run_block w (kc_block c))
      in case opr of
        Copy_in src work \<Rightarrow> block (copy_worker dt U nw src dst work)
      | Copy_local src out work \<Rightarrow> block (copy_worker dt U nw src out work)
      | Copy_recv_to_slot work \<Rightarrow> block (copy_volatile_worker dt U nw recv dst work)
      | Copy_recv_to_out out work \<Rightarrow> block (copy_volatile_worker dt U nw recv out work)
      | Reduce_into_slot loc work \<Rightarrow> block (reduce_local_into_dst nm rop False nr dt U nw loc dst work)
      | Reduce_into_out loc out work \<Rightarrow> block (reduce_local_into_dst nm rop True nr dt U nw loc out work)
      | Reduce_slot loc work \<Rightarrow> block (reduce_volatile_worker nm rop False nr dt U nw loc recv dst work)
      | Reduce_out loc out work \<Rightarrow> block (reduce_volatile_worker nm rop True nr dt U nw loc recv out work)
      | Reduce_local_bcast loc out work \<Rightarrow> block (reduce_local_broadcast_worker nm rop nr dt U nw loc out dst work)
      | Reduce_bcast loc out work \<Rightarrow> block (reduce_broadcast_volatile_worker nm rop nr dt U nw loc recv out dst work)
      | Bcast out work \<Rightarrow> block (copy_broadcast_volatile_worker dt U nw recv out dst work)
      | _ \<Rightarrow> (\<lambda>m. m))"

definition send_blocked :: "proc \<Rightarrow> bool" where
  "send_blocked pr \<longleftrightarrow> send_head_cache pr + kFifoSteps < send_step pr + kSliceSteps"

definition recv_blocked :: "proc \<Rightarrow> bool" where
  "recv_blocked pr \<longleftrightarrow> recv_tail_cache pr < recv_step pr + kSliceSteps"

text \<open>
  The three waits of a block that no abort interrupts, seen as turns of the whole block: a blocked
  side reloads its cached counter, and when neither side is blocked the wait is over. The threads
  that poll inside a wait, the status word they share and the abort flag are modelled one memory
  access at a time in \<open>Block_Threads\<close>, which also proves that these turns lose no behaviour.
\<close>

definition wait_send_credit :: "nat \<Rightarrow> kop list \<Rightarrow> proc \<Rightarrow> proc" where
  "wait_send_credit head rest pr =
     (if send_blocked pr then pr\<lparr>send_head_cache := head\<rparr> else pr\<lparr>prog := rest\<rparr>)"

definition wait_recv_ready :: "nat \<Rightarrow> kop list \<Rightarrow> proc \<Rightarrow> proc" where
  "wait_recv_ready tail rest pr =
     (if recv_blocked pr then pr\<lparr>recv_tail_cache := tail\<rparr> else pr\<lparr>prog := rest\<rparr>)"

definition wait_recv_ready_and_send_credit :: "nat \<Rightarrow> nat \<Rightarrow> kop list \<Rightarrow> proc \<Rightarrow> proc" where
  "wait_recv_ready_and_send_credit tail head rest pr =
     (if recv_blocked pr \<or> send_blocked pr
      then pr\<lparr>send_head_cache := (if send_blocked pr then head else send_head_cache pr),
              recv_tail_cache := (if recv_blocked pr then tail else recv_tail_cache pr)\<rparr>
      else pr\<lparr>prog := rest\<rparr>)"

definition post_send_ready :: "bool \<Rightarrow> nat \<Rightarrow> nat \<Rightarrow> edge \<Rightarrow> edge" where
  "post_send_ready has_payload step payload_bytes e =
     e\<lparr>e_payload := (if has_payload then (e_payload e)(step mod kFifoSteps := payload_bytes mod 2 ^ 32) else e_payload e),
       e_tail := step + kSliceSteps\<rparr>"

definition post_recv_credit :: "nat \<Rightarrow> edge \<Rightarrow> edge" where
  "post_recv_credit step e = e\<lparr>e_head := step + kSliceSteps\<rparr>"

definition set_proc :: "pid \<Rightarrow> proc \<Rightarrow> 't net \<Rightarrow> 't net" where
  "set_proc p pr s = s\<lparr>procs := (procs s)(p := pr)\<rparr>"

definition set_edge :: "pid \<Rightarrow> edge \<Rightarrow> 't net \<Rightarrow> 't net" where
  "set_edge p e s = s\<lparr>edges := (edges s)(p := e)\<rparr>"

definition kstep :: "'t kcfg \<Rightarrow> pid \<Rightarrow> 't net \<Rightarrow> 't net" where
  "kstep c p s =
     (let pr = procs s p; q = prev_pid c p in
      case prog pr of
        [] \<Rightarrow> s
      | opr # rest \<Rightarrow>
          (case opr of
             Wait_send_credit \<Rightarrow> set_proc p (wait_send_credit (e_head (edges s p)) rest pr) s
           | Wait_recv_ready \<Rightarrow> set_proc p (wait_recv_ready (e_tail (edges s q)) rest pr) s
           | Wait_recv_ready_and_send_credit \<Rightarrow>
               set_proc p (wait_recv_ready_and_send_credit (e_tail (edges s q)) (e_head (edges s p)) rest pr) s
           | Post_recv_credit \<Rightarrow>
               set_proc p (pr\<lparr>prog := rest\<rparr>) (set_edge q (post_recv_credit (recv_step pr) (edges s q)) s)
           | Post_send_ready bytes \<Rightarrow>
               set_proc p (pr\<lparr>prog := rest\<rparr>)
                 (set_edge p (post_send_ready (kc_payload c p) (send_step pr) bytes (edges s p)) s)
           | Advance_recv \<Rightarrow> set_proc p (pr\<lparr>prog := rest, recv_step := recv_step pr + kSliceSteps\<rparr>) s
           | Advance_send \<Rightarrow> set_proc p (pr\<lparr>prog := rest, send_step := send_step pr + kSliceSteps\<rparr>) s
           | Store_base_steps \<Rightarrow>
               set_proc p (pr\<lparr>prog := rest, send_base_step := send_step pr, recv_base_step := recv_step pr\<rparr>) s
           | _ \<Rightarrow> set_proc p (pr\<lparr>prog := rest\<rparr>) (s\<lparr>net_mem := data_op c p pr opr (net_mem s)\<rparr>)))"

text \<open>Start of a kernel: the step counters continue from the persistent base steps.\<close>

definition launch :: "kop list list \<Rightarrow> proc \<Rightarrow> proc" where
  "launch P pr = pr\<lparr>prog := concat P, send_step := send_base_step pr, recv_step := recv_base_step pr,
     send_head_cache := send_base_step pr, recv_tail_cache := recv_base_step pr, stopped := False\<rparr>"

text \<open>A run: the blocks named in the schedule take one step each, in order.\<close>

definition run :: "'t kcfg \<Rightarrow> pid list \<Rightarrow> 't net \<Rightarrow> 't net" where
  "run c sched s = fold (kstep c) sched s"

end
