(* ===== verification/Ring_Net.thy ===== *)
theory Ring_Net
  imports Ring_Kernel
begin

text \<open>
  Correctness of the handshake between neighbouring blocks, independently of the collective.

  \<open>slice_op\<close> gives a slice program a meaning of its own, in which the received slice and the
  slice to be sent are lists; it fails when the program touches a FIFO slot it does not hold.
  A system (\<open>'t rsys\<close>) describes what every block is expected to send at each position of
  its program; \<open>ring_ok\<close> says that every slice program, given the message its predecessor sends
  two positions earlier, sends the expected one. Under \<open>ring_ok\<close>, every interleaving keeps the
  invariant \<open>rinv\<close>, no reachable state is stuck, and a finished run has the expected memory.
\<close>

section \<open>Slice programs in isolation\<close>

datatype rphase = RNone | RHeld | RCred | RDone

datatype 't sphase = SNone | SHeld "'t list" | SPub | SDone

definition rd :: "'t mem \<Rightarrow> nat \<Rightarrow> nat \<Rightarrow> 't list" where
  "rd m a w = map (\<lambda>k. m (a + k)) [0..<w]"

definition rng :: "nat \<Rightarrow> nat \<Rightarrow> nat set" where
  "rng a w = {a..<a + w}"

text \<open>Footprint of a data operation: work, local operand, user destination, writes the send slot,
  reads the received slot, reads the send slot.\<close>

fun op_foot :: "kop \<Rightarrow> (nat \<times> nat option \<times> nat option \<times> bool \<times> bool \<times> bool) option" where
  "op_foot (Copy_in src w) = Some (w, Some src, None, True, False, False)"
| "op_foot (Copy_local src out w) = Some (w, Some src, Some out, False, False, False)"
| "op_foot (Copy_recv_to_slot w) = Some (w, None, None, True, True, False)"
| "op_foot (Copy_recv_to_out out w) = Some (w, None, Some out, False, True, False)"
| "op_foot (Reduce_into_slot loc w) = Some (w, Some loc, None, True, False, True)"
| "op_foot (Reduce_into_out loc out w) = Some (w, Some loc, Some out, False, False, False)"
| "op_foot (Reduce_slot loc w) = Some (w, Some loc, None, True, True, False)"
| "op_foot (Reduce_out loc out w) = Some (w, Some loc, Some out, False, True, False)"
| "op_foot (Reduce_local_bcast loc out w) = Some (w, Some loc, Some out, True, False, True)"
| "op_foot (Reduce_bcast loc out w) = Some (w, Some loc, Some out, True, True, False)"
| "op_foot (Bcast out w) = Some (w, None, Some out, True, True, False)"
| "op_foot _ = None"

definition red :: "'t kcfg \<Rightarrow> bool \<Rightarrow> 't \<Rightarrow> 't \<Rightarrow> 't" where
  "red c scale = lane_float (kc_num c) (kc_op c) scale (kc_nranks c)"

text \<open>Values written by a data operation, from user memory, received slice and send slot.\<close>

fun op_val :: "'t kcfg \<Rightarrow> 't mem \<Rightarrow> 't list \<Rightarrow> 't list \<Rightarrow> kop \<Rightarrow> 't list" where
  "op_val c m inm xs (Copy_in src w) = rd m src w"
| "op_val c m inm xs (Copy_local src out w) = rd m src w"
| "op_val c m inm xs (Copy_recv_to_slot w) = inm"
| "op_val c m inm xs (Copy_recv_to_out out w) = inm"
| "op_val c m inm xs (Reduce_into_slot loc w) = map2 (red c False) (rd m loc w) xs"
| "op_val c m inm xs (Reduce_into_out loc out w) = map2 (red c True) (rd m loc w) (rd m out w)"
| "op_val c m inm xs (Reduce_slot loc w) = map2 (red c False) (rd m loc w) inm"
| "op_val c m inm xs (Reduce_out loc out w) = map2 (red c True) (rd m loc w) inm"
| "op_val c m inm xs (Reduce_local_bcast loc out w) = map2 (red c True) (rd m loc w) xs"
| "op_val c m inm xs (Reduce_bcast loc out w) = map2 (red c True) (rd m loc w) inm"
| "op_val c m inm xs (Bcast out w) = inm"
| "op_val c m inm xs _ = []"

fun held :: "'t sphase \<Rightarrow> 't list option" where
  "held (SHeld xs) = Some xs"
| "held _ = None"

definition data_ok ::
  "'t kcfg \<Rightarrow> nat set \<Rightarrow> 't list \<Rightarrow> rphase \<Rightarrow> 't sphase \<Rightarrow> nat \<times> nat option \<times> nat option \<times> bool \<times> bool \<times> bool \<Rightarrow> bool" where
  "data_ok c U inm rp sp = (\<lambda>(w, loc, out, slot, recv, slotrd).
     0 < w \<and>
     (recv \<longrightarrow> rp = RHeld \<and> length inm = w) \<and>
     (slot \<longrightarrow> held sp \<noteq> None \<and> w \<le> kc_slot_elems c) \<and>
     (slotrd \<longrightarrow> map_option length (held sp) = Some w) \<and>
     (case loc of None \<Rightarrow> True | Some a \<Rightarrow> rng a w \<subseteq> U) \<and>
     (case out of None \<Rightarrow> True | Some b \<Rightarrow> rng b w \<subseteq> U \<and>
        (case loc of None \<Rightarrow> True | Some a \<Rightarrow> apart a b w)))"

definition slice_op ::
  "'t kcfg \<Rightarrow> nat set \<Rightarrow> 't list \<Rightarrow> 't list \<Rightarrow> kop \<Rightarrow> 't mem \<times> rphase \<times> 't sphase \<Rightarrow> ('t mem \<times> rphase \<times> 't sphase) option" where
  "slice_op c U inm outm opr = (\<lambda>(m, rp, sp).
     case op_foot opr of
       Some ft \<Rightarrow>
         (if data_ok c U inm rp sp ft then
            case ft of (w, loc, out, slot, recv, slotrd) \<Rightarrow>
              let v = op_val c m inm (case held sp of None \<Rightarrow> [] | Some xs \<Rightarrow> xs) opr in
              Some (case out of None \<Rightarrow> m | Some b \<Rightarrow> write1 b w (nth v) m, rp, if slot then SHeld v else sp)
          else None)
     | None \<Rightarrow>
         (case opr of
            Wait_send_credit \<Rightarrow> if sp = SNone \<and> outm \<noteq> [] then Some (m, rp, SHeld []) else None
          | Wait_recv_ready \<Rightarrow> if rp = RNone \<and> inm \<noteq> [] then Some (m, RHeld, sp) else None
          | Wait_recv_ready_and_send_credit \<Rightarrow>
              if rp = RNone \<and> inm \<noteq> [] \<and> sp = SNone \<and> outm \<noteq> [] then Some (m, RHeld, SHeld []) else None
          | Post_recv_credit \<Rightarrow> if rp = RHeld then Some (m, RCred, sp) else None
          | Post_send_ready b \<Rightarrow>
              if sp = SHeld outm \<and> outm \<noteq> [] \<and> b = length outm * sizeof (kc_dt c) then Some (m, rp, SPub) else None
          | Advance_recv \<Rightarrow> if rp = RCred then Some (m, RDone, sp) else None
          | Advance_send \<Rightarrow> if sp = SPub then Some (m, rp, SDone) else None
          | _ \<Rightarrow> Some (m, rp, sp)))"

fun slice_exec ::
  "'t kcfg \<Rightarrow> nat set \<Rightarrow> 't list \<Rightarrow> 't list \<Rightarrow> kop list \<Rightarrow> 't mem \<times> rphase \<times> 't sphase \<Rightarrow> ('t mem \<times> rphase \<times> 't sphase) option" where
  "slice_exec c U inm outm [] q = Some q"
| "slice_exec c U inm outm (x # xs) q = Option.bind (slice_op c U inm outm x q) (slice_exec c U inm outm xs)"

definition rfinal :: "'t list \<Rightarrow> rphase" where "rfinal inm = (if inm = [] then RNone else RDone)"
definition sfinal :: "'t list \<Rightarrow> 't sphase" where "sfinal outm = (if outm = [] then SNone else SDone)"

text \<open>A slice program that consumes \<open>inm\<close>, turns memory \<open>m\<close> into \<open>m'\<close> and sends \<open>outm\<close>.\<close>

definition slice_ok :: "'t kcfg \<Rightarrow> nat set \<Rightarrow> 't list \<Rightarrow> 't list \<Rightarrow> kop list \<Rightarrow> 't mem \<Rightarrow> 't mem \<Rightarrow> bool" where
  "slice_ok c U inm outm ops m m' \<longleftrightarrow>
     slice_exec c U inm outm ops (m, RNone, SNone) = Some (m', rfinal inm, sfinal outm)"

section \<open>Systems\<close>

record 't rsys =
  rs_cfg :: "'t kcfg"
  rs_P :: "pid set"
  rs_sl :: "pid \<Rightarrow> kop list list"
  rs_U :: "pid \<Rightarrow> nat set"
  rs_T :: nat
  rs_sm :: "pid \<Rightarrow> nat \<Rightarrow> 't list"
  rs_mm :: "pid \<Rightarrow> nat \<Rightarrow> 't mem"
  rs_base :: "pid \<Rightarrow> nat"

abbreviation nxt :: "'t rsys \<Rightarrow> pid \<Rightarrow> pid" where "nxt S \<equiv> next_pid (rs_cfg S)"
abbreviation prv :: "'t rsys \<Rightarrow> pid \<Rightarrow> pid" where "prv S \<equiv> prev_pid (rs_cfg S)"

definition rs_in :: "'t rsys \<Rightarrow> pid \<Rightarrow> nat \<Rightarrow> 't list" where
  "rs_in S p t = (if t < 2 then [] else rs_sm S (prv S p) (t - 2))"

definition fifo_rng :: "'t rsys \<Rightarrow> pid \<Rightarrow> nat set" where
  "fifo_rng S p = rng (kc_fifo (rs_cfg S) p) (kFifoSteps * kc_slot_elems (rs_cfg S))"

text \<open>The memory layout: user regions and FIFO rings of distinct blocks do not meet.\<close>

definition rs_layout :: "'t rsys \<Rightarrow> bool" where
  "rs_layout S \<longleftrightarrow>
     (\<forall>p\<in>rs_P S. \<forall>q\<in>rs_P S. fifo_rng S p \<inter> rs_U S q = {} \<and>
        (p \<noteq> q \<longrightarrow> rs_U S p \<inter> rs_U S q = {} \<and> fifo_rng S p \<inter> fifo_rng S q = {}))"

definition ring_ok :: "'t rsys \<Rightarrow> bool" where
  "ring_ok S \<longleftrightarrow>
     finite (rs_P S) \<and>
     (\<forall>p\<in>rs_P S. nxt S p \<in> rs_P S \<and> prv S p \<in> rs_P S \<and> prv S (nxt S p) = p \<and> nxt S (prv S p) = p \<and> nxt S p \<noteq> p) \<and>
     rs_layout S \<and>
     0 < kc_unroll (rs_cfg S) \<and> 0 < kc_block (rs_cfg S) \<and>
     packed_agrees (kc_num (rs_cfg S)) (kc_op (rs_cfg S)) (kc_dt (rs_cfg S)) \<and>
     (\<forall>p\<in>rs_P S. length (rs_sl S p) = rs_T S \<and>
        (\<forall>t<rs_T S. slice_ok (rs_cfg S) (rs_U S p) (rs_in S p t) (rs_sm S p t) (rs_sl S p ! t)
                       (rs_mm S p t) (rs_mm S p (Suc t))))"

text \<open>Number of messages a block has sent, or received, before position \<open>t\<close>.\<close>

definition cnt :: "'t rsys \<Rightarrow> pid \<Rightarrow> nat \<Rightarrow> nat" where
  "cnt S p t = length (filter (\<lambda>xs. xs \<noteq> []) (map (rs_sm S p) [0..<t]))"

definition rcnt :: "'t rsys \<Rightarrow> pid \<Rightarrow> nat \<Rightarrow> nat" where
  "rcnt S p t = length (filter (\<lambda>xs. xs \<noteq> []) (map (rs_in S p) [0..<t]))"

text \<open>The \<open>k\<close>-th message of a block.\<close>

definition msg :: "'t rsys \<Rightarrow> pid \<Rightarrow> nat \<Rightarrow> 't list" where
  "msg S p k = filter (\<lambda>xs. xs \<noteq> []) (map (rs_sm S p) [0..<rs_T S]) ! k"

lemma cnt_0 [simp]: "cnt S p 0 = 0" "rcnt S p 0 = 0"
  by (simp_all add: cnt_def rcnt_def)

lemma cnt_Suc: "cnt S p (Suc t) = cnt S p t + (if rs_sm S p t = [] then 0 else 1)"
  and rcnt_Suc: "rcnt S p (Suc t) = rcnt S p t + (if rs_in S p t = [] then 0 else 1)"
  by (simp_all add: cnt_def rcnt_def)

lemma cnt_mono: "t \<le> t' \<Longrightarrow> cnt S p t \<le> cnt S p t'"
  by (induction t' rule: dec_induct) (simp_all add: cnt_Suc)

lemma rcnt_eq_cnt: "rcnt S p t = cnt S (prv S p) (t - 2)"
proof (induction t)
  case (Suc t)
  show ?case
  proof (cases "t < 2")
    case True
    then show ?thesis using Suc by (auto simp: rcnt_Suc rs_in_def less_2_cases_iff)
  next
    case False
    then have "Suc t - 2 = Suc (t - 2)" by simp
    with Suc False show ?thesis by (simp only: rcnt_Suc cnt_Suc) (simp add: rs_in_def)
  qed
qed simp

lemma cnt_minus_2: "cnt S p t \<le> cnt S p (t - 2) + 2"
proof (cases t)
  case (Suc t')
  then show ?thesis by (cases t') (auto simp: cnt_Suc)
qed simp

lemma msg_at: "t < rs_T S \<Longrightarrow> rs_sm S p t \<noteq> [] \<Longrightarrow> msg S p (cnt S p t) = rs_sm S p t"
proof -
  assume t: "t < rs_T S" and ne: "rs_sm S p t \<noteq> []"
  have "[0..<rs_T S] = [0..<t] @ t # [Suc t..<rs_T S]"
    using t by (rule upt_split)
  then show ?thesis using ne by (simp add: msg_def cnt_def nth_append)
qed

section \<open>Data operations on shared memory\<close>

lemma thread_order_block: "0 < b \<Longrightarrow> thread_order (nworkers b) [0..<b]"
  by (auto simp: thread_order_def nworkers_def)

lemma apart_rng: "rng a w \<inter> rng b w = {} \<Longrightarrow> 0 < w \<Longrightarrow> apart a b w"
  by (force simp: rng_def apart_def disjoint_iff)

lemma rng_mono: "w \<le> w' \<Longrightarrow> rng a w \<subseteq> rng a w'"
  by (auto simp: rng_def)

lemma rng_mem: "k < w \<Longrightarrow> a + k \<in> rng a w"
  by (simp add: rng_def)

lemma length_rd [simp]: "length (rd m a w) = w"
  by (simp add: rd_def)

lemma rd_nth [simp]: "k < w \<Longrightarrow> rd m a w ! k = m (a + k)"
  by (simp add: rd_def)

lemma op_val_length:
  "op_foot opr = Some ft \<Longrightarrow> data_ok c U inm rp sp ft \<Longrightarrow>
   length (op_val c m inm (case held sp of None \<Rightarrow> [] | Some xs \<Rightarrow> xs) opr) = fst ft"
  by (cases "held sp"; cases opr; clarsimp simp: data_ok_def)

lemma write2_cong:
  "(\<And>k. k < n \<Longrightarrow> v k = v' k) \<Longrightarrow> write1 d1 n v (write1 d0 n v m) = write1 d1 n v' (write1 d0 n v' m)"
  by (auto simp: write1_def fun_eq_iff)

definition opt_write :: "nat option \<Rightarrow> nat \<Rightarrow> 't list \<Rightarrow> 't mem \<Rightarrow> 't mem" where
  "opt_write dst w v m = (case dst of None \<Rightarrow> m | Some a \<Rightarrow> write1 a w (nth v) m)"

lemma readableI: "apart a b w \<Longrightarrow> readable a b w"
  by (simp add: readable_def)

text \<open>
  What a data operation does to the shared memory, when user memory agrees with the local view
  \<open>m\<close>, the received slot holds \<open>inm\<close> and the send slot holds \<open>xs\<close>.
\<close>

lemma data_op_effect:
  assumes foot: "op_foot opr = Some (w, loc, out, slot, recv, slotrd)"
    and ok: "data_ok c U inm rp sp (w, loc, out, slot, recv, slotrd)"
    and xs: "xs = (case held sp of None \<Rightarrow> [] | Some xs \<Rightarrow> xs)"
    and usr: "\<forall>a\<in>U. mem a = m a"
    and rc: "recv \<Longrightarrow> \<forall>i<w. mem (slot_addr c (prev_pid c p) (recv_step pr) + i) = inm ! i"
    and sx: "slotrd \<Longrightarrow> \<forall>i<w. mem (slot_addr c p (send_step pr) + i) = xs ! i"
    and ru: "recv \<Longrightarrow> rng (slot_addr c (prev_pid c p) (recv_step pr)) w \<inter> U = {}"
    and su: "slot \<Longrightarrow> rng (slot_addr c p (send_step pr)) w \<inter> U = {}"
    and rs: "recv \<Longrightarrow> slot \<Longrightarrow> rng (slot_addr c (prev_pid c p) (recv_step pr)) w \<inter> rng (slot_addr c p (send_step pr)) w = {}"
    and cfg: "0 < kc_unroll c" "0 < kc_block c" "packed_agrees (kc_num c) (kc_op c) (kc_dt c)"
  shows "data_op c p pr opr mem =
         opt_write (if slot then Some (slot_addr c p (send_step pr)) else None) w (op_val c m inm xs opr)
           (opt_write out w (op_val c m inm xs opr) mem)"
proof -
  define rv ds where "rv = slot_addr c (prev_pid c p) (recv_step pr)" and "ds = slot_addr c p (send_step pr)"
  have w: "0 < w" using ok by (simp add: data_ok_def)
  note to = thread_order_block[OF cfg(2)]
  note blk = copy_block[OF to _ cfg(1)] copy_volatile_block[OF to _ cfg(1)] copy_broadcast_block[OF to _ _ _ cfg(1)]
    reduce_volatile_block[OF to _ _ cfg(1)] reduce_local_into_dst_block[OF to _ cfg(1)]
    reduce_broadcast_block[OF to _ _ _ _ _ cfg(1)] reduce_local_broadcast_block[OF to _ _ _ cfg(1)]
  have ap: "apart a b w" if "rng a w \<inter> X = {}" "rng b w \<subseteq> X" for a b X
    using that w by (intro apart_rng) auto
  have sym: "apart a b w \<Longrightarrow> apart b a w" for a b by (auto simp: apart_def)
  have ul: "mem (a + k) = m (a + k)" if "rng a w \<subseteq> U" "k < w" for a k using usr that rng_mem by blast
  note rl = red_lane_agrees[OF cfg(3)]
  note defs = data_op_def Let_def run_block_def rv_def[symmetric] ds_def[symmetric] opt_write_def red_def[symmetric]
  show ?thesis
  proof (cases opr)
    case (Copy_in src work)
    with foot have e: "w = work" "loc = Some src" "out = None" "slot" by auto
    have "apart src ds work" using ok e su ap[of ds U src] sym by (auto simp: data_ok_def ds_def)
    then show ?thesis using Copy_in e ok ul
      by (auto simp: defs blk(1) readableI data_ok_def intro!: write1_cong)
  next
    case (Copy_local src o' work)
    with foot have e: "w = work" "loc = Some src" "out = Some o'" "\<not> slot" by auto
    then have "apart src o' work" "rng src work \<subseteq> U" using ok by (auto simp: data_ok_def)
    then show ?thesis using Copy_local e ul by (auto simp: defs blk(1) readableI intro!: write1_cong)
  next
    case (Copy_recv_to_slot work)
    with foot have e: "w = work" "loc = None" "out = None" "slot" "recv" by auto
    have "apart rv ds work" using e rs w by (auto simp: rv_def ds_def intro: apart_rng)
    then show ?thesis using Copy_recv_to_slot e rc by (auto simp: defs blk(2) readableI intro!: write1_cong)
  next
    case (Copy_recv_to_out o' work)
    with foot have e: "w = work" "loc = None" "out = Some o'" "\<not> slot" "recv" by auto
    have "apart rv o' work" using e ru ok ap[of rv U o'] by (auto simp: data_ok_def rv_def)
    then show ?thesis using Copy_recv_to_out e rc by (auto simp: defs blk(2) readableI intro!: write1_cong)
  next
    case (Reduce_into_slot a work)
    with foot have e: "w = work" "loc = Some a" "out = None" "slot" "slotrd" by auto
    have "apart a ds work" "rng a work \<subseteq> U" "length xs = work"
      using ok e su ap[of ds U a] sym xs by (auto simp: data_ok_def ds_def)
    then show ?thesis using Reduce_into_slot e ul sx
      by (auto simp: defs blk(5) readableI rl intro!: write1_cong)
  next
    case (Reduce_into_out a o' work)
    with foot have e: "w = work" "loc = Some a" "out = Some o'" "\<not> slot" by auto
    then have "apart a o' work" "rng a work \<subseteq> U" "rng o' work \<subseteq> U" using ok by (auto simp: data_ok_def)
    then show ?thesis using Reduce_into_out e ul
      by (auto simp: defs blk(5) readableI rl intro!: write1_cong)
  next
    case (Reduce_slot a work)
    with foot have e: "w = work" "loc = Some a" "out = None" "slot" "recv" by auto
    have "apart a ds work" "rng a work \<subseteq> U" "length inm = work" "apart rv ds work"
      using ok e su ap[of ds U a] sym rs w by (auto simp: data_ok_def ds_def rv_def intro: apart_rng)
    then show ?thesis using Reduce_slot e ul rc
      by (auto simp: defs blk(4) readableI rl intro!: write1_cong)
  next
    case (Reduce_out a o' work)
    with foot have e: "w = work" "loc = Some a" "out = Some o'" "\<not> slot" "recv" by auto
    have "apart a o' work" "rng a work \<subseteq> U" "length inm = work" "apart rv o' work"
      using ok e ru ap[of rv U o'] by (auto simp: data_ok_def rv_def)
    then show ?thesis using Reduce_out e ul rc
      by (auto simp: defs blk(4) readableI rl intro!: write1_cong)
  next
    case (Reduce_local_bcast a o' work)
    with foot have e: "w = work" "loc = Some a" "out = Some o'" "slot" "slotrd" by auto
    have "apart a o' work" "apart a ds work" "apart o' ds work" "rng a work \<subseteq> U" "length xs = work"
      using ok e su ap[of ds U a] ap[of ds U o'] sym xs by (auto simp: data_ok_def ds_def)
    then show ?thesis using Reduce_local_bcast e ul sx
      by (auto simp: defs blk(7) readableI rl intro!: write2_cong)
  next
    case (Reduce_bcast a o' work)
    with foot have e: "w = work" "loc = Some a" "out = Some o'" "slot" "recv" by auto
    have "apart a o' work" "apart a ds work" "apart o' ds work" "rng a work \<subseteq> U" "length inm = work"
      "apart rv o' work" "apart rv ds work"
      using ok e su ru rs w ap[of ds U a] ap[of ds U o'] ap[of rv U o'] sym
      by (auto simp: data_ok_def ds_def rv_def intro: apart_rng)
    then show ?thesis using Reduce_bcast e ul rc
      by (auto simp: defs blk(6) readableI rl intro!: write2_cong)
  next
    case (Bcast o' work)
    with foot have e: "w = work" "loc = None" "out = Some o'" "slot" "recv" by auto
    have "apart o' ds work" "apart rv o' work" "apart rv ds work"
      using ok e su ru rs w ap[of ds U o'] ap[of rv U o'] sym
      by (auto simp: data_ok_def ds_def rv_def intro: apart_rng)
    then show ?thesis using Bcast e rc by (auto simp: defs blk(3) readableI intro!: write2_cong)
  qed (use foot in auto)
qed

section \<open>Edges\<close>

definition slot_has :: "'t rsys \<Rightarrow> 't mem \<Rightarrow> pid \<Rightarrow> nat \<Rightarrow> 't list \<Rightarrow> bool" where
  "slot_has S mem p k xs \<longleftrightarrow> (\<forall>i<length xs. mem (slot_addr (rs_cfg S) p (rs_base S p + 2 * k) + i) = xs ! i)"

text \<open>
  The state of the edge of sender \<open>p\<close> after \<open>np\<close> published and \<open>nc\<close> consumed slices: the
  counters, the cached copies (\<open>hc\<close> at the sender, \<open>tc\<close> at the receiver), at most four slices
  in flight, their contents and payload sizes, the slot being filled, and the slot being read.
\<close>

definition edge_inv ::
  "'t rsys \<Rightarrow> 't mem \<Rightarrow> pid \<Rightarrow> edge \<Rightarrow> nat \<Rightarrow> nat \<Rightarrow> 't sphase \<Rightarrow> rphase \<Rightarrow> nat \<Rightarrow> nat \<Rightarrow> bool" where
  "edge_inv S mem p e np nc sp rp hc tc \<longleftrightarrow>
     e_tail e = rs_base S p + 2 * np \<and> e_head e = rs_base S p + 2 * nc \<and> hc \<le> e_head e \<and> tc \<le> e_tail e \<and>
     nc \<le> np \<and> np \<le> nc + 4 \<and>
     (\<forall>k. nc \<le> k \<and> k < np \<longrightarrow> slot_has S mem p k (msg S p k) \<and> length (msg S p k) \<le> kc_slot_elems (rs_cfg S) \<and>
        (kc_payload (rs_cfg S) p \<longrightarrow>
           e_payload e ((rs_base S p + 2 * k) mod 8) = length (msg S p k) * sizeof (kc_dt (rs_cfg S)) mod 2 ^ 32)) \<and>
     (\<forall>xs. sp = SHeld xs \<longrightarrow> np < nc + 4 \<and> slot_has S mem p np xs \<and> length xs \<le> kc_slot_elems (rs_cfg S)) \<and>
     (rp = RHeld \<longrightarrow> nc < np)"

lemma slot_in_fifo: "i < kc_slot_elems (rs_cfg S) \<Longrightarrow> slot_addr (rs_cfg S) p st + i \<in> fifo_rng S p"
proof -
  assume i: "i < kc_slot_elems (rs_cfg S)"
  have "st mod 8 * kc_slot_elems (rs_cfg S) + i < 8 * kc_slot_elems (rs_cfg S)"
    using i by (intro mult_add_less) simp_all
  then show ?thesis by (simp add: slot_addr_def fifo_rng_def rng_def kFifoSteps_def)
qed

lemma slot_step_distinct:
  assumes "k < n + 4" "k' < n + 4" "n \<le> k" "n \<le> k'" "k \<noteq> k'"
  shows "(b + 2 * k) mod 8 \<noteq> (b + 2 * k') mod (8::nat)"
  using assms mod_neq_close[of "b + 2 * k" "b + 2 * k'" 8] mod_neq_close[of "b + 2 * k'" "b + 2 * k" 8]
  by (cases "k < k'") fastforce+

lemma slot_addr_distinct:
  assumes "k < n + 4" "k' < n + 4" "n \<le> k" "n \<le> k'" "k \<noteq> k'"
    "i < kc_slot_elems c" "i' < kc_slot_elems c"
  shows "slot_addr c p (b + 2 * k) + i \<noteq> slot_addr c p (b + 2 * k') + i'"
proof -
  have "(b + 2 * k) mod 8 \<noteq> (b + 2 * k') mod 8" using assms(1-5) by (rule slot_step_distinct)
  moreover have "x = y" if "x * kc_slot_elems c + i = y * kc_slot_elems c + i'" for x y
    using that assms(6,7) by (metis div_mult_self3 div_less add.right_neutral less_nat_zero_code)
  ultimately show ?thesis by (auto simp: slot_addr_def kFifoSteps_def add.assoc)
qed

lemma slot_has_cong:
  "\<forall>a\<in>fifo_rng S p. mem' a = mem a \<Longrightarrow> length xs \<le> kc_slot_elems (rs_cfg S) \<Longrightarrow>
   slot_has S mem' p k xs = slot_has S mem p k xs"
  using slot_in_fifo[of _ S p] by (auto simp: slot_has_def)

lemma edge_frame:
  "edge_inv S mem p e np nc sp rp hc tc \<Longrightarrow> \<forall>a\<in>fifo_rng S p. mem' a = mem a \<Longrightarrow>
   edge_inv S mem' p e np nc sp rp hc tc"
  using slot_has_cong[of S p mem' mem] by (auto simp: edge_inv_def)

lemma edge_phase:
  "edge_inv S mem p e np nc sp rp hc tc \<Longrightarrow> held sp' = None \<or> sp' = sp \<Longrightarrow> rp' \<noteq> RHeld \<or> rp' = rp \<Longrightarrow>
   edge_inv S mem p e np nc sp' rp' hc tc"
  unfolding edge_inv_def by (cases sp') auto

lemma edge_cache:
  "edge_inv S mem p e np nc sp rp hc tc \<Longrightarrow> hc' = hc \<or> hc' = e_head e \<Longrightarrow> tc' = tc \<or> tc' = e_tail e \<Longrightarrow>
   edge_inv S mem p e np nc sp rp hc' tc'"
  unfolding edge_inv_def by auto

lemma edge_wait_send:
  "edge_inv S mem p e np nc sp rp hc tc \<Longrightarrow> \<not> hc + 8 < rs_base S p + 2 * np + 2 \<Longrightarrow>
   edge_inv S mem p e np nc (SHeld []) rp hc tc"
  unfolding edge_inv_def by (auto simp: slot_has_def)

lemma edge_wait_recv:
  "edge_inv S mem p e np nc sp rp hc tc \<Longrightarrow> \<not> tc < rs_base S p + 2 * nc + 2 \<Longrightarrow>
   edge_inv S mem p e np nc sp RHeld hc tc"
  unfolding edge_inv_def by auto

lemma edge_credit:
  "edge_inv S mem p e np nc sp RHeld hc tc \<Longrightarrow>
   edge_inv S mem p (post_recv_credit (rs_base S p + 2 * nc) e) np (Suc nc) sp RCred hc tc"
  unfolding edge_inv_def post_recv_credit_def by (auto simp: simple_consts)

lemma edge_publish:
  assumes "edge_inv S mem p e np nc (SHeld xs) rp hc tc" "xs = msg S p np"
  shows "edge_inv S mem p (post_send_ready (kc_payload (rs_cfg S) p) (rs_base S p + 2 * np)
           (length xs * sizeof (kc_dt (rs_cfg S))) e) (Suc np) nc SPub rp hc tc"
proof -
  have "(rs_base S p + 2 * k) mod 8 \<noteq> (rs_base S p + 2 * np) mod 8" if "nc \<le> k" "k < np" for k
    using slot_step_distinct[of k nc np] assms(1) that by (simp add: edge_inv_def)
  then show ?thesis using assms
    by (auto simp: edge_inv_def post_send_ready_def simple_consts less_Suc_eq)
qed

lemma edge_fill:
  assumes inv: "edge_inv S mem p e np nc (SHeld xs) rp hc tc" and len: "length v \<le> kc_slot_elems (rs_cfg S)"
  shows "edge_inv S (write1 (slot_addr (rs_cfg S) p (rs_base S p + 2 * np)) (length v) (nth v) mem) p e np nc (SHeld v) rp hc tc"
proof -
  let ?sl = "slot_addr (rs_cfg S) p (rs_base S p + 2 * np)"
  have "slot_has S (write1 ?sl (length v) (nth v) mem) p k (msg S p k)"
    if "nc \<le> k" "k < np" "slot_has S mem p k (msg S p k)" "length (msg S p k) \<le> kc_slot_elems (rs_cfg S)" for k
    unfolding slot_has_def
  proof (intro allI impI)
    fix i assume i: "i < length (msg S p k)"
    let ?a = "slot_addr (rs_cfg S) p (rs_base S p + 2 * k) + i"
    have "?a \<noteq> ?sl + i'" if "i' < length v" for i'
      using slot_addr_distinct[of k nc np i "rs_cfg S" i' p "rs_base S p"] inv that len i \<open>nc \<le> k\<close> \<open>k < np\<close>
        \<open>length (msg S p k) \<le> kc_slot_elems (rs_cfg S)\<close>
      by (auto simp: edge_inv_def)
    then have "?a < ?sl \<or> ?sl + length v \<le> ?a" by (metis le_add_diff_inverse linorder_not_less nat_add_left_cancel_less)
    then have "write1 ?sl (length v) (nth v) mem ?a = mem ?a" by (rule write1_outside)
    with that i show "write1 ?sl (length v) (nth v) mem ?a = msg S p k ! i" by (simp add: slot_has_def)
  qed
  then show ?thesis using inv len by (auto simp: edge_inv_def slot_has_def[of _ _ _ np] write1_at)
qed

section \<open>The invariant\<close>

text \<open>Position of a block in its program and its state in the isolated semantics.\<close>

record 't ghost =
  g_t :: nat
  g_os :: "kop list"
  g_m :: "'t mem"
  g_rp :: rphase
  g_sp :: "'t sphase"

definition spub :: "'t sphase \<Rightarrow> nat" where "spub sp = (if sp = SPub \<or> sp = SDone then 1 else 0)"
definition sdone :: "'t sphase \<Rightarrow> nat" where "sdone sp = (if sp = SDone then 1 else 0)"
definition rcred :: "rphase \<Rightarrow> nat" where "rcred rp = (if rp = RCred \<or> rp = RDone then 1 else 0)"
definition rdone :: "rphase \<Rightarrow> nat" where "rdone rp = (if rp = RDone then 1 else 0)"

lemmas phase_defs = spub_def sdone_def rcred_def rdone_def rfinal_def sfinal_def

definition pub :: "'t rsys \<Rightarrow> 't ghost \<Rightarrow> pid \<Rightarrow> nat" where
  "pub S g p = cnt S p (g_t g) + spub (g_sp g)"

definition cred :: "'t rsys \<Rightarrow> 't ghost \<Rightarrow> pid \<Rightarrow> nat" where
  "cred S g p = rcnt S p (g_t g) + rcred (g_rp g)"

definition loc_inv :: "'t rsys \<Rightarrow> 't mem \<Rightarrow> proc \<Rightarrow> 't ghost \<Rightarrow> pid \<Rightarrow> bool" where
  "loc_inv S mem pr g p \<longleftrightarrow>
     g_t g \<le> rs_T S \<and> prog pr = g_os g @ concat (drop (Suc (g_t g)) (rs_sl S p)) \<and>
     (if g_t g < rs_T S
      then slice_exec (rs_cfg S) (rs_U S p) (rs_in S p (g_t g)) (rs_sm S p (g_t g)) (g_os g) (g_m g, g_rp g, g_sp g)
             = Some (rs_mm S p (Suc (g_t g)), rfinal (rs_in S p (g_t g)), sfinal (rs_sm S p (g_t g)))
      else g_os g = [] \<and> g_rp g = RNone \<and> g_sp g = SNone \<and> g_m g = rs_mm S p (rs_T S)) \<and>
     (\<forall>a\<in>rs_U S p. mem a = g_m g a) \<and>
     send_step pr = rs_base S p + 2 * (cnt S p (g_t g) + sdone (g_sp g)) \<and>
     recv_step pr = rs_base S (prv S p) + 2 * (rcnt S p (g_t g) + rdone (g_rp g)) \<and> \<not> stopped pr"

definition rinv :: "'t rsys \<Rightarrow> (pid \<Rightarrow> 't ghost) \<Rightarrow> 't net \<Rightarrow> bool" where
  "rinv S G s \<longleftrightarrow> (\<forall>p\<in>rs_P S.
     loc_inv S (net_mem s) (procs s p) (G p) p \<and>
     edge_inv S (net_mem s) p (edges s p) (pub S (G p) p) (cred S (G (nxt S p)) (nxt S p))
       (g_sp (G p)) (g_rp (G (nxt S p))) (send_head_cache (procs s p)) (recv_tail_cache (procs s (nxt S p))))"

lemma ring_okD:
  assumes "ring_ok S" "p \<in> rs_P S"
  shows "nxt S p \<in> rs_P S" "prv S p \<in> rs_P S" "prv S (nxt S p) = p" "nxt S (prv S p) = p" "nxt S p \<noteq> p"
    "prv S p \<noteq> p" "length (rs_sl S p) = rs_T S"
    "t < rs_T S \<Longrightarrow> slice_ok (rs_cfg S) (rs_U S p) (rs_in S p t) (rs_sm S p t) (rs_sl S p ! t) (rs_mm S p t) (rs_mm S p (Suc t))"
  using assms by (auto simp: ring_ok_def)

text \<open>
  A step of block \<open>x\<close>: the other blocks' own state and the other edges are untouched, so it
  suffices to re-establish the invariant of \<open>x\<close> and of its two edges.
\<close>

lemma rinv_update:
  assumes ok: "ring_ok S" and inv: "rinv S G s" and x: "x \<in> rs_P S"
    and procs: "\<And>q. q \<noteq> x \<Longrightarrow> procs s' q = procs s q"
    and edges: "\<And>q. q \<noteq> x \<Longrightarrow> q \<noteq> prv S x \<Longrightarrow> edges s' q = edges s q"
    and mem: "\<And>a. a \<notin> rs_U S x \<Longrightarrow> a \<notin> fifo_rng S x \<Longrightarrow> net_mem s' a = net_mem s a"
    and loc: "loc_inv S (net_mem s') (procs s' x) g x"
    and out: "edge_inv S (net_mem s') x (edges s' x) (pub S g x) (cred S (G (nxt S x)) (nxt S x))
       (g_sp g) (g_rp (G (nxt S x))) (send_head_cache (procs s' x)) (recv_tail_cache (procs s (nxt S x)))"
    and inn: "edge_inv S (net_mem s) (prv S x) (edges s' (prv S x)) (pub S (G (prv S x)) (prv S x)) (cred S g x)
       (g_sp (G (prv S x))) (g_rp g) (send_head_cache (procs s (prv S x))) (recv_tail_cache (procs s' x))"
  shows "rinv S (G(x := g)) s'"
  unfolding rinv_def
proof
  fix p assume p: "p \<in> rs_P S"
  have lay: "rs_layout S" using ok by (simp add: ring_ok_def)
  have memU: "\<forall>a\<in>rs_U S p. net_mem s' a = net_mem s a" if "p \<noteq> x"
    using mem lay x p that by (fastforce simp: rs_layout_def disjoint_iff)
  have memF: "\<forall>a\<in>fifo_rng S p. net_mem s' a = net_mem s a" if "p \<noteq> x"
    using mem lay x p that by (fastforce simp: rs_layout_def disjoint_iff)
  have l: "loc_inv S (net_mem s') (procs s' p) ((G(x := g)) p) p"
  proof (cases "p = x")
    case False
    have "loc_inv S (net_mem s) (procs s p) (G p) p" using inv p by (simp add: rinv_def)
    then show ?thesis using memU False procs by (auto simp: loc_inv_def)
  qed (use loc in simp)
  have nx: "nxt S x \<noteq> x" "nxt S p = x \<longleftrightarrow> p = prv S x" using ring_okD[OF ok x] ring_okD[OF ok p] by auto
  have e0: "edge_inv S (net_mem s) p (edges s p) (pub S (G p) p) (cred S (G (nxt S p)) (nxt S p))
       (g_sp (G p)) (g_rp (G (nxt S p))) (send_head_cache (procs s p)) (recv_tail_cache (procs s (nxt S p)))"
    using inv p by (simp add: rinv_def)
  have "edge_inv S (net_mem s') p (edges s' p) (pub S ((G(x := g)) p) p) (cred S ((G(x := g)) (nxt S p)) (nxt S p))
       (g_sp ((G(x := g)) p)) (g_rp ((G(x := g)) (nxt S p))) (send_head_cache (procs s' p)) (recv_tail_cache (procs s' (nxt S p)))"
  proof -
    consider "p = x" | "p = prv S x" "p \<noteq> x" | "p \<noteq> x" "p \<noteq> prv S x" by blast
    then show ?thesis
    proof cases
      case 1
      with out nx procs show ?thesis by simp
    next
      case 2
      with edge_frame[OF inn] memF nx procs show ?thesis by simp
    next
      case 3
      with edge_frame[OF e0] memF nx procs edges show ?thesis by simp
    qed
  qed
  with l show "loc_inv S (net_mem s') (procs s' p) ((G(x := g)) p) p \<and>
    edge_inv S (net_mem s') p (edges s' p) (pub S ((G(x := g)) p) p) (cred S ((G(x := g)) (nxt S p)) (nxt S p))
       (g_sp ((G(x := g)) p)) (g_rp ((G(x := g)) (nxt S p))) (send_head_cache (procs s' p)) (recv_tail_cache (procs s' (nxt S p)))"
    by blast
qed

lemma rinvD:
  assumes "ring_ok S" "rinv S G s" "x \<in> rs_P S"
  shows "loc_inv S (net_mem s) (procs s x) (G x) x"
    "edge_inv S (net_mem s) x (edges s x) (pub S (G x) x) (cred S (G (nxt S x)) (nxt S x))
       (g_sp (G x)) (g_rp (G (nxt S x))) (send_head_cache (procs s x)) (recv_tail_cache (procs s (nxt S x)))"
    "edge_inv S (net_mem s) (prv S x) (edges s (prv S x)) (pub S (G (prv S x)) (prv S x)) (cred S (G x) x)
       (g_sp (G (prv S x))) (g_rp (G x)) (send_head_cache (procs s (prv S x))) (recv_tail_cache (procs s x))"
  using assms ring_okD[OF assms(1,3)] by (auto simp: rinv_def dest: bspec[where x = "prv S x"])

section \<open>Moving to the next slice\<close>

lemma rinv_advance:
  assumes ok: "ring_ok S" and inv: "rinv S G s" and x: "x \<in> rs_P S"
    and os: "g_os (G x) = []" and t: "g_t (G x) < rs_T S"
  shows "\<exists>g. rinv S (G(x := g)) s \<and> g_t g = Suc (g_t (G x))"
proof -
  define t where "t = g_t (G x)"
  define g where "g = \<lparr>g_t = Suc t, g_os = (if Suc t < rs_T S then rs_sl S x ! Suc t else []),
    g_m = rs_mm S x (Suc t), g_rp = RNone, g_sp = SNone\<rparr>"
  note I = rinvD[OF ok inv x]
  have fin: "g_m (G x) = rs_mm S x (Suc t)" "g_rp (G x) = rfinal (rs_in S x t)" "g_sp (G x) = sfinal (rs_sm S x t)"
    using I(1) os t by (auto simp: loc_inv_def t_def)
  have len: "length (rs_sl S x) = rs_T S" using ring_okD[OF ok x] by simp
  have pc: "pub S g x = pub S (G x) x" "cred S g x = cred S (G x) x"
    using fin by (auto simp: pub_def cred_def g_def t_def[symmetric] cnt_Suc rcnt_Suc phase_defs)
  have "loc_inv S (net_mem s) (procs s x) g x"
  proof -
    have "concat (drop (Suc t) (rs_sl S x)) = g_os g @ concat (drop (Suc (Suc t)) (rs_sl S x))"
      using len by (cases "Suc t < rs_T S") (auto simp: g_def Cons_nth_drop_Suc[symmetric])
    moreover have "Suc t < rs_T S \<Longrightarrow> slice_exec (rs_cfg S) (rs_U S x) (rs_in S x (Suc t)) (rs_sm S x (Suc t))
        (rs_sl S x ! Suc t) (rs_mm S x (Suc t), RNone, SNone)
        = Some (rs_mm S x (Suc (Suc t)), rfinal (rs_in S x (Suc t)), sfinal (rs_sm S x (Suc t)))"
      using ring_okD(8)[OF ok x, of "Suc t"] by (simp add: slice_ok_def)
    ultimately show ?thesis using I(1) os t fin
      by (auto simp: loc_inv_def g_def t_def[symmetric] cnt_Suc rcnt_Suc phase_defs)
         (metis Suc_leI le_neq_implies_less)
  qed
  moreover have "edge_inv S (net_mem s) x (edges s x) (pub S g x) (cred S (G (nxt S x)) (nxt S x))
       (g_sp g) (g_rp (G (nxt S x))) (send_head_cache (procs s x)) (recv_tail_cache (procs s (nxt S x)))"
    unfolding pc using I(2) by (rule edge_phase) (simp_all add: g_def)
  moreover have "edge_inv S (net_mem s) (prv S x) (edges s (prv S x)) (pub S (G (prv S x)) (prv S x)) (cred S g x)
       (g_sp (G (prv S x))) (g_rp g) (send_head_cache (procs s (prv S x))) (recv_tail_cache (procs s x))"
    unfolding pc using I(3) by (rule edge_phase) (simp_all add: g_def)
  ultimately have "rinv S (G(x := g)) s" using rinv_update[OF ok inv x, of s g] by simp
  then show ?thesis by (intro exI[of _ g]) (simp add: g_def t_def)
qed

lemma rinv_normal:
  assumes ok: "ring_ok S" and x: "x \<in> rs_P S" and "rinv S G s"
  shows "\<exists>g. rinv S (G(x := g)) s \<and> (g_os g \<noteq> [] \<or> g_t g = rs_T S)"
  using assms(3)
proof (induction "rs_T S - g_t (G x)" arbitrary: G rule: less_induct)
  case less
  have le: "g_t (G x) \<le> rs_T S" using rinvD(1)[OF ok less.prems x] by (simp add: loc_inv_def)
  show ?case
  proof (cases "g_os (G x) \<noteq> [] \<or> g_t (G x) = rs_T S")
    case True
    then show ?thesis using less.prems by (intro exI[of _ "G x"]) simp
  next
    case False
    then obtain g where g: "rinv S (G(x := g)) s" "g_t g = Suc (g_t (G x))"
      using rinv_advance[OF ok less.prems x] le by auto
    moreover have "rs_T S - Suc (g_t (G x)) < rs_T S - g_t (G x)" using False le by (intro diff_less_mono2) auto
    ultimately show ?thesis using less.hyps[of "G(x := g)"] by simp
  qed
qed

section \<open>Every step keeps the invariant\<close>

text \<open>A control operation: memory is unchanged, the block and its two edges move together.\<close>

lemma rinv_control:
  assumes ok: "ring_ok S" and inv: "rinv S G s" and x: "x \<in> rs_P S" and t: "g_t (G x) < rs_T S"
    and ex: "slice_exec (rs_cfg S) (rs_U S x) (rs_in S x (g_t (G x))) (rs_sm S x (g_t (G x))) os (g_m (G x), rp, sp)
             = Some (rs_mm S x (Suc (g_t (G x))), rfinal (rs_in S x (g_t (G x))), sfinal (rs_sm S x (g_t (G x))))"
    and pr: "prog pr = os @ concat (drop (Suc (g_t (G x))) (rs_sl S x))" "\<not> stopped pr"
      "send_step pr = rs_base S x + 2 * (cnt S x (g_t (G x)) + sdone sp)"
      "recv_step pr = rs_base S (prv S x) + 2 * (rcnt S x (g_t (G x)) + rdone rp)"
    and s': "net_mem s' = net_mem s" "procs s' = (procs s)(x := pr)"
      "\<And>q. q \<noteq> x \<Longrightarrow> q \<noteq> prv S x \<Longrightarrow> edges s' q = edges s q"
    and out: "edge_inv S (net_mem s) x (edges s' x) (cnt S x (g_t (G x)) + spub sp) (cred S (G (nxt S x)) (nxt S x))
       sp (g_rp (G (nxt S x))) (send_head_cache pr) (recv_tail_cache (procs s (nxt S x)))"
    and inn: "edge_inv S (net_mem s) (prv S x) (edges s' (prv S x)) (pub S (G (prv S x)) (prv S x))
       (rcnt S x (g_t (G x)) + rcred rp) (g_sp (G (prv S x))) rp (send_head_cache (procs s (prv S x))) (recv_tail_cache pr)"
  shows "\<exists>G'. rinv S G' s'"
proof -
  define g where "g = (G x)\<lparr>g_os := os, g_rp := rp, g_sp := sp\<rparr>"
  have "loc_inv S (net_mem s') (procs s' x) g x"
    using rinvD(1)[OF ok inv x] t ex pr s' by (simp add: loc_inv_def g_def)
  moreover have "pub S g x = cnt S x (g_t (G x)) + spub sp" "cred S g x = rcnt S x (g_t (G x)) + rcred rp"
    by (simp_all add: pub_def cred_def g_def)
  ultimately have "rinv S (G(x := g)) s'"
    using out inn s' by (intro rinv_update[OF ok inv x]) (simp_all add: g_def)
  then show ?thesis by blast
qed

lemma slice_op_control:
  assumes "op_foot opr = None" "slice_op c U inm outm opr (m, rp, sp) = Some q"
  shows "(case opr of
       Wait_send_credit \<Rightarrow> sp = SNone \<and> q = (m, rp, SHeld [])
     | Wait_recv_ready \<Rightarrow> rp = RNone \<and> inm \<noteq> [] \<and> q = (m, RHeld, sp)
     | Wait_recv_ready_and_send_credit \<Rightarrow> rp = RNone \<and> inm \<noteq> [] \<and> sp = SNone \<and> q = (m, RHeld, SHeld [])
     | Post_recv_credit \<Rightarrow> rp = RHeld \<and> q = (m, RCred, sp)
     | Post_send_ready b \<Rightarrow> sp = SHeld outm \<and> outm \<noteq> [] \<and> b = length outm * sizeof (kc_dt c) \<and> q = (m, rp, SPub)
     | Advance_recv \<Rightarrow> rp = RCred \<and> q = (m, RDone, sp)
     | Advance_send \<Rightarrow> sp = SPub \<and> q = (m, rp, SDone)
     | _ \<Rightarrow> q = (m, rp, sp))"
  using assms by (cases opr) (auto simp: slice_op_def split: if_splits)

lemma rinv_step_control:
  assumes ok: "ring_ok S" and inv: "rinv S G s" and x: "x \<in> rs_P S" and t: "g_t (G x) < rs_T S"
    and os: "g_os (G x) = opr # os" and foot: "op_foot opr = None"
  shows "\<exists>G'. rinv S G' (kstep (rs_cfg S) x s)"
proof -
  note I = rinvD[OF ok inv x]
  obtain q where q: "slice_op (rs_cfg S) (rs_U S x) (rs_in S x (g_t (G x))) (rs_sm S x (g_t (G x))) opr
        (g_m (G x), g_rp (G x), g_sp (G x)) = Some q"
      "slice_exec (rs_cfg S) (rs_U S x) (rs_in S x (g_t (G x))) (rs_sm S x (g_t (G x))) os q
        = Some (rs_mm S x (Suc (g_t (G x))), rfinal (rs_in S x (g_t (G x))), sfinal (rs_sm S x (g_t (G x))))"
    using I(1) t os by (auto simp: loc_inv_def bind_eq_Some_conv)
  note Q = slice_op_control[OF foot q(1)]
  let ?pr = "procs s x"
  have P: "prog ?pr = opr # os @ concat (drop (Suc (g_t (G x))) (rs_sl S x))" "\<not> stopped ?pr"
    "send_step ?pr = rs_base S x + 2 * (cnt S x (g_t (G x)) + sdone (g_sp (G x)))"
    "recv_step ?pr = rs_base S (prv S x) + 2 * (rcnt S x (g_t (G x)) + rdone (g_rp (G x)))"
    using I(1) os by (auto simp: loc_inv_def)
  have nx: "prv S x \<noteq> x" "x \<noteq> prv S x" using ring_okD[OF ok x] by auto
  note E = I(2,3)[unfolded pub_def[of S "G x"] cred_def[of S "G x"]]
  note D = kstep_def Let_def set_proc_def set_edge_def
  have stay: "\<exists>G'. rinv S G' s'" if "s' = set_proc x pr s" "pr = ?pr\<lparr>send_head_cache := hc, recv_tail_cache := tc\<rparr>"
      "hc = send_head_cache ?pr \<or> hc = e_head (edges s x)" "tc = recv_tail_cache ?pr \<or> tc = e_tail (edges s (prv S x))" for s' pr hc tc
    using rinv_control[OF ok inv x t, of "opr # os" "g_rp (G x)" "g_sp (G x)" pr s'] I(1) t os P E that
    by (auto simp: loc_inv_def set_proc_def intro: edge_cache)
  show ?thesis
  proof (cases opr)
    case Wait_send_credit
    show ?thesis
    proof (cases "send_blocked ?pr")
      case True
      then show ?thesis using Wait_send_credit P
        by (intro stay[where hc = "e_head (edges s x)" and tc = "recv_tail_cache ?pr"]) (auto simp: kstep_def Let_def wait_send_credit_def)
    next
      case False
      with Wait_send_credit P Q q E nx show ?thesis
        by (intro rinv_control[OF ok inv x t, where os = os and rp = "g_rp (G x)" and sp = "SHeld []" and pr = "?pr\<lparr>prog := os @ concat (drop (Suc (g_t (G x))) (rs_sl S x))\<rparr>"])
           (auto simp: D wait_send_credit_def send_blocked_def phase_defs simple_consts intro!: edge_wait_send)
    qed
  next
    case Wait_recv_ready
    show ?thesis
    proof (cases "recv_blocked ?pr")
      case True
      then show ?thesis using Wait_recv_ready P
        by (intro stay[where hc = "send_head_cache ?pr" and tc = "e_tail (edges s (prv S x))"]) (auto simp: kstep_def Let_def wait_recv_ready_def)
    next
      case False
      with Wait_recv_ready P Q q E nx show ?thesis
        by (intro rinv_control[OF ok inv x t, where os = os and rp = RHeld and sp = "g_sp (G x)" and pr = "?pr\<lparr>prog := os @ concat (drop (Suc (g_t (G x))) (rs_sl S x))\<rparr>"])
           (auto simp: D wait_recv_ready_def recv_blocked_def phase_defs simple_consts intro!: edge_wait_recv)
    qed
  next
    case Wait_recv_ready_and_send_credit
    show ?thesis
    proof (cases "recv_blocked ?pr \<or> send_blocked ?pr")
      case True
      then show ?thesis using Wait_recv_ready_and_send_credit P
        by (intro stay[where hc = "if send_blocked ?pr then e_head (edges s x) else send_head_cache ?pr"
                        and tc = "if recv_blocked ?pr then e_tail (edges s (prv S x)) else recv_tail_cache ?pr"])
           (auto simp: kstep_def Let_def wait_recv_ready_and_send_credit_def)
    next
      case False
      with Wait_recv_ready_and_send_credit P Q q E nx show ?thesis
        by (intro rinv_control[OF ok inv x t, where os = os and rp = RHeld and sp = "SHeld []" and pr = "?pr\<lparr>prog := os @ concat (drop (Suc (g_t (G x))) (rs_sl S x))\<rparr>"])
           (auto simp: D wait_recv_ready_and_send_credit_def recv_blocked_def send_blocked_def phase_defs simple_consts
             intro!: edge_wait_recv edge_wait_send)
    qed
  next
    case Post_recv_credit
    have "edge_inv S (net_mem s) (prv S x) (post_recv_credit (rs_base S (prv S x) + 2 * rcnt S x (g_t (G x))) (edges s (prv S x)))
        (pub S (G (prv S x)) (prv S x)) (Suc (rcnt S x (g_t (G x)))) (g_sp (G (prv S x))) RCred
        (send_head_cache (procs s (prv S x))) (recv_tail_cache ?pr)"
      using E(2) Q Post_recv_credit by (intro edge_credit) (simp add: phase_defs)
    with Post_recv_credit P Q q E nx show ?thesis
      by (intro rinv_control[OF ok inv x t, where os = os and rp = RCred and sp = "g_sp (G x)" and pr = "?pr\<lparr>prog := os @ concat (drop (Suc (g_t (G x))) (rs_sl S x))\<rparr>"])
         (auto simp: D phase_defs)
  next
    case (Post_send_ready b)
    have "msg S x (cnt S x (g_t (G x))) = rs_sm S x (g_t (G x))"
      using Q Post_send_ready t by (intro msg_at) auto
    then have "edge_inv S (net_mem s) x (post_send_ready (kc_payload (rs_cfg S) x) (rs_base S x + 2 * cnt S x (g_t (G x))) b (edges s x))
        (Suc (cnt S x (g_t (G x)))) (cred S (G (nxt S x)) (nxt S x)) SPub (g_rp (G (nxt S x)))
        (send_head_cache ?pr) (recv_tail_cache (procs s (nxt S x)))"
      using E(1) Q Post_send_ready edge_publish[of S "net_mem s" x "edges s x" "cnt S x (g_t (G x))"] by (simp add: phase_defs)
    with Post_send_ready P Q q E nx show ?thesis
      by (intro rinv_control[OF ok inv x t, where os = os and rp = "g_rp (G x)" and sp = SPub and pr = "?pr\<lparr>prog := os @ concat (drop (Suc (g_t (G x))) (rs_sl S x))\<rparr>"])
         (auto simp: D phase_defs)
  next
    case Advance_recv
    with P Q q E show ?thesis
      by (intro rinv_control[OF ok inv x t, where os = os and rp = RDone and sp = "g_sp (G x)"
            and pr = "?pr\<lparr>prog := os @ concat (drop (Suc (g_t (G x))) (rs_sl S x)), recv_step := recv_step ?pr + kSliceSteps\<rparr>"])
         (auto simp: D phase_defs simple_consts intro: edge_phase)
  next
    case Advance_send
    with P Q q E show ?thesis
      by (intro rinv_control[OF ok inv x t, where os = os and rp = "g_rp (G x)" and sp = SDone
            and pr = "?pr\<lparr>prog := os @ concat (drop (Suc (g_t (G x))) (rs_sl S x)), send_step := send_step ?pr + kSliceSteps\<rparr>"])
         (auto simp: D phase_defs simple_consts intro: edge_phase)
  next
    case Store_base_steps
    with P Q q E show ?thesis
      by (intro rinv_control[OF ok inv x t, where os = os and rp = "g_rp (G x)" and sp = "g_sp (G x)"
            and pr = "?pr\<lparr>prog := os @ concat (drop (Suc (g_t (G x))) (rs_sl S x)), send_base_step := send_step ?pr, recv_base_step := recv_step ?pr\<rparr>"])
         (auto simp: D)
  qed (use foot in auto)
qed

text \<open>The slots a block reads and writes, as addresses.\<close>

lemma slot_rng_fifo: "w \<le> kc_slot_elems (rs_cfg S) \<Longrightarrow> rng (slot_addr (rs_cfg S) p st) w \<subseteq> fifo_rng S p"
proof
  fix a assume "w \<le> kc_slot_elems (rs_cfg S)" "a \<in> rng (slot_addr (rs_cfg S) p st) w"
  then have "a = slot_addr (rs_cfg S) p st + (a - slot_addr (rs_cfg S) p st)"
    "a - slot_addr (rs_cfg S) p st < kc_slot_elems (rs_cfg S)" by (auto simp: rng_def)
  then show "a \<in> fifo_rng S p" using slot_in_fifo by metis
qed

lemma layoutD:
  assumes "ring_ok S" "x \<in> rs_P S"
  shows "fifo_rng S x \<inter> rs_U S x = {}" "fifo_rng S (prv S x) \<inter> rs_U S x = {}"
    "fifo_rng S (prv S x) \<inter> fifo_rng S x = {}"
  using assms ring_okD[OF assms] by (auto simp: ring_ok_def rs_layout_def)

lemma write1_notin: "a \<notin> rng d w \<Longrightarrow> write1 d w v m a = m a"
  by (auto simp: rng_def write1_def)

lemma opt_write_notin: "(\<And>d. dst = Some d \<Longrightarrow> a \<notin> rng d w) \<Longrightarrow> opt_write dst w v m a = m a"
  by (cases dst) (simp_all add: opt_write_def write1_notin)

lemma kstep_data:
  assumes "op_foot opr = Some ft" "prog (procs s x) = opr # rest"
  shows "kstep c x s = set_proc x ((procs s x)\<lparr>prog := rest\<rparr>)
           (s\<lparr>net_mem := data_op c x (procs s x) opr (net_mem s)\<rparr>)"
  using assms by (cases opr) (simp_all add: kstep_def Let_def)

lemma rinv_step_data:
  assumes ok: "ring_ok S" and inv: "rinv S G s" and x: "x \<in> rs_P S" and t: "g_t (G x) < rs_T S"
    and os: "g_os (G x) = opr # os" and foot: "op_foot opr = Some ft"
  shows "\<exists>G'. rinv S G' (kstep (rs_cfg S) x s)"
proof -
  let ?c = "rs_cfg S" and ?t = "g_t (G x)" and ?pr = "procs s x" and ?mem = "net_mem s"
  let ?inm = "rs_in S x ?t" and ?outm = "rs_sm S x ?t"
  note I = rinvD[OF ok inv x] and lay = layoutD[OF ok x]
  obtain w loc out slot recv slotrd where ft: "ft = (w, loc, out, slot, recv, slotrd)" by (cases ft) auto
  define xs where "xs = (case held (g_sp (G x)) of None \<Rightarrow> [] | Some xs \<Rightarrow> xs)"
  define v where "v = op_val ?c (g_m (G x)) ?inm xs opr"
  define m' where "m' = opt_write out w v (g_m (G x))"
  define sp' where "sp' = (if slot then SHeld v else g_sp (G x))"
  define ds where "ds = slot_addr ?c x (send_step ?pr)"
  have dok: "data_ok ?c (rs_U S x) ?inm (g_rp (G x)) (g_sp (G x)) ft"
    and ex: "slice_exec ?c (rs_U S x) ?inm ?outm os (m', g_rp (G x), sp')
        = Some (rs_mm S x (Suc ?t), rfinal ?inm, sfinal ?outm)"
    using I(1) t os foot
    by (auto simp: loc_inv_def bind_eq_Some_conv slice_op_def ft Let_def m'_def sp'_def v_def xs_def opt_write_def
        split: if_splits)
  have lv: "length v = w" using op_val_length[OF foot dok] by (simp add: v_def xs_def ft)
  have w0: "0 < w" using dok by (simp add: data_ok_def ft)
  note E = I(2,3)[unfolded pub_def[of S "G x"] cred_def[of S "G x"]]
  have steps: "send_step ?pr = rs_base S x + 2 * (cnt S x ?t + sdone (g_sp (G x)))"
    "recv_step ?pr = rs_base S (prv S x) + 2 * (rcnt S x ?t + rdone (g_rp (G x)))"
    using I(1) by (auto simp: loc_inv_def)
  have recv: "g_rp (G x) = RHeld" "length ?inm = w" "w \<le> kc_slot_elems ?c"
      "\<forall>i<w. ?mem (slot_addr ?c (prv S x) (recv_step ?pr) + i) = ?inm ! i" if "recv"
  proof -
    show rp: "g_rp (G x) = RHeld" and li: "length ?inm = w" using dok that by (simp_all add: data_ok_def ft)
    have "?inm \<noteq> []" using li w0 by auto
    then have tt: "2 \<le> ?t" "?inm = rs_sm S (prv S x) (?t - 2)" by (auto simp: rs_in_def split: if_splits)
    then have "msg S (prv S x) (rcnt S x ?t) = ?inm"
      using \<open>?inm \<noteq> []\<close> t msg_at[of "?t - 2" S "prv S x"] by (simp add: rcnt_eq_cnt)
    then show "w \<le> kc_slot_elems ?c" "\<forall>i<w. ?mem (slot_addr ?c (prv S x) (recv_step ?pr) + i) = ?inm ! i"
      using E(2) rp li steps(2) by (auto simp: edge_inv_def phase_defs slot_has_def)
  qed
  have slot: "w \<le> kc_slot_elems ?c" "g_sp (G x) = SHeld xs" "send_step ?pr = rs_base S x + 2 * cnt S x ?t" if "slot"
    using dok that steps(1) by (cases "g_sp (G x)"; simp add: data_ok_def ft xs_def phase_defs)+
  have rd: "g_sp (G x) = SHeld xs" "length xs = w" "\<forall>i<w. ?mem (ds + i) = xs ! i" if "slotrd"
  proof -
    show sp: "g_sp (G x) = SHeld xs" and "length xs = w"
      using dok that by (cases "g_sp (G x)"; simp add: data_ok_def ft xs_def)+
    then show "\<forall>i<w. ?mem (ds + i) = xs ! i"
      using E(1) steps(1) by (auto simp: edge_inv_def phase_defs slot_has_def ds_def)
  qed
  have outU: "rng b w \<subseteq> rs_U S x" if "out = Some b" for b using dok that by (simp add: data_ok_def ft)
  have dsF: "rng ds w \<subseteq> fifo_rng S x" if slot using slot(1)[OF that] unfolding ds_def by (rule slot_rng_fifo)
  have eff: "data_op ?c x ?pr opr ?mem = opt_write (if slot then Some ds else None) w v (opt_write out w v ?mem)"
    unfolding v_def ds_def
  proof (rule data_op_effect)
    show "op_foot opr = Some (w, loc, out, slot, recv, slotrd)" using foot ft by simp
    show "data_ok ?c (rs_U S x) ?inm (g_rp (G x)) (g_sp (G x)) (w, loc, out, slot, recv, slotrd)" using dok ft by simp
    show "\<forall>a\<in>rs_U S x. ?mem a = g_m (G x) a" using I(1) by (simp add: loc_inv_def)
  qed (use recv rd dsF lay slot_rng_fifo[of w S "prv S x" "recv_step ?pr"] ok in \<open>auto simp: xs_def ds_def ring_ok_def\<close>)
  define mem' where "mem' = data_op ?c x ?pr opr ?mem"
  define s' where "s' = kstep ?c x s"
  have prog: "prog ?pr = opr # os @ concat (drop (Suc ?t) (rs_sl S x))" using I(1) os by (simp add: loc_inv_def)
  have s': "net_mem s' = mem'" "procs s' = (procs s)(x := ?pr\<lparr>prog := os @ concat (drop (Suc ?t) (rs_sl S x))\<rparr>)"
      "edges s' = edges s"
    using kstep_data[OF foot prog, of ?c] by (simp_all add: s'_def set_proc_def mem'_def)
  define g where "g = (G x)\<lparr>g_os := os, g_m := m', g_sp := sp'\<rparr>"
  have same: "sdone sp' = sdone (g_sp (G x))" "spub sp' = spub (g_sp (G x))"
    using slot(2) by (auto simp: sp'_def phase_defs)
  have memU: "\<forall>a\<in>rs_U S x. mem' a = m' a"
  proof
    fix a assume a: "a \<in> rs_U S x"
    have "mem' a = opt_write out w v ?mem a"
      unfolding mem'_def eff using dsF lay(1) a by (intro opt_write_notin) (auto split: if_splits)
    also have "\<dots> = m' a" using I(1) a by (cases out) (auto simp: m'_def opt_write_def write1_def loc_inv_def)
    finally show "mem' a = m' a" .
  qed
  have memO: "mem' a = ?mem a" if "a \<notin> rs_U S x" "a \<notin> fifo_rng S x" for a
    unfolding mem'_def eff using that dsF outU by (subst opt_write_notin | auto split: if_splits)+
  have memF: "\<forall>a\<in>fifo_rng S x. opt_write out w v ?mem a = ?mem a"
    using outU lay(1) by (auto intro!: opt_write_notin)
  have eout: "edge_inv S mem' x (edges s' x) (pub S g x) (cred S (G (nxt S x)) (nxt S x)) (g_sp g) (g_rp (G (nxt S x)))
       (send_head_cache (procs s' x)) (recv_tail_cache (procs s (nxt S x)))"
  proof -
    have fr: "edge_inv S (opt_write out w v ?mem) x (edges s x) (cnt S x ?t + spub (g_sp (G x))) (cred S (G (nxt S x)) (nxt S x))
        (g_sp (G x)) (g_rp (G (nxt S x))) (send_head_cache ?pr) (recv_tail_cache (procs s (nxt S x)))"
      using edge_frame[OF E(1) memF] .
    show ?thesis
    proof (cases slot)
      case True
      have "edge_inv S (opt_write out w v ?mem) x (edges s x) (cnt S x ?t) (cred S (G (nxt S x)) (nxt S x))
        (SHeld xs) (g_rp (G (nxt S x))) (send_head_cache ?pr) (recv_tail_cache (procs s (nxt S x)))"
        using fr slot(2)[OF True] by (simp add: phase_defs)
      from edge_fill[OF this, of v] show ?thesis
        using True slot lv unfolding mem'_def eff
        by (simp add: s' g_def pub_def sp'_def phase_defs opt_write_def ds_def)
    next
      case False
      then show ?thesis using fr unfolding mem'_def eff by (simp add: s' g_def pub_def sp'_def opt_write_def)
    qed
  qed
  have "rinv S (G(x := g)) s'"
  proof (rule rinv_update[OF ok inv x])
    show "loc_inv S (net_mem s') (procs s' x) g x"
      using I(1) t ex steps memU same by (simp add: loc_inv_def g_def s')
    show "edge_inv S (net_mem s) (prv S x) (edges s' (prv S x)) (pub S (G (prv S x)) (prv S x)) (cred S g x)
       (g_sp (G (prv S x))) (g_rp g) (send_head_cache (procs s (prv S x))) (recv_tail_cache (procs s' x))"
      using I(3) by (simp add: s' g_def cred_def)
  qed (use s' memO eout in auto)
  then show ?thesis unfolding s'_def by blast
qed

lemma rinv_step:
  assumes ok: "ring_ok S" and inv: "rinv S G s" and x: "x \<in> rs_P S"
  shows "\<exists>G'. rinv S G' (kstep (rs_cfg S) x s)"
proof -
  obtain g where g: "rinv S (G(x := g)) s" "g_os g \<noteq> [] \<or> g_t g = rs_T S" using rinv_normal[OF ok x inv] by blast
  note L = rinvD(1)[OF ok g(1) x]
  show ?thesis
  proof (cases "g_t g = rs_T S")
    case True
    then have "prog (procs s x) = []" using L ring_okD(7)[OF ok x] by (simp add: loc_inv_def)
    then show ?thesis using inv by (auto simp: kstep_def Let_def)
  next
    case False
    then have t: "g_t ((G(x := g)) x) < rs_T S" using L by (simp add: loc_inv_def)
    obtain opr os where os: "g_os ((G(x := g)) x) = opr # os" using g(2) False by (cases "g_os g") auto
    show ?thesis using rinv_step_control[OF ok g(1) x t os] rinv_step_data[OF ok g(1) x t os] by (cases "op_foot opr") auto
  qed
qed

section \<open>Runs\<close>

text \<open>The state in which all blocks have just been launched on quiet edges.\<close>

definition ring_init :: "'t rsys \<Rightarrow> 't net \<Rightarrow> bool" where
  "ring_init S s \<longleftrightarrow> (\<forall>p\<in>rs_P S.
     prog (procs s p) = concat (rs_sl S p) \<and> \<not> stopped (procs s p) \<and>
     send_step (procs s p) = rs_base S p \<and> recv_step (procs s p) = rs_base S (prv S p) \<and>
     send_head_cache (procs s p) \<le> rs_base S p \<and> recv_tail_cache (procs s p) \<le> rs_base S (prv S p) \<and>
     e_head (edges s p) = rs_base S p \<and> e_tail (edges s p) = rs_base S p \<and>
     (\<forall>a\<in>rs_U S p. net_mem s a = rs_mm S p 0 a))"

lemma rinv_init:
  assumes ok: "ring_ok S" and init: "ring_init S s"
  shows "\<exists>G. rinv S G s"
proof -
  define G where "G p = \<lparr>g_t = 0, g_os = (if 0 < rs_T S then rs_sl S p ! 0 else []), g_m = rs_mm S p 0,
    g_rp = RNone, g_sp = SNone\<rparr>" for p
  have "loc_inv S (net_mem s) (procs s p) (G p) p" if p: "p \<in> rs_P S" for p
  proof -
    have "concat (rs_sl S p) = g_os (G p) @ concat (drop (Suc 0) (rs_sl S p))"
      using ring_okD(7)[OF ok p] by (cases "rs_sl S p") (auto simp: G_def)
    then show ?thesis using init p ring_okD(8)[OF ok p, of 0]
      by (simp add: loc_inv_def ring_init_def G_def slice_ok_def phase_defs)
  qed
  moreover have "edge_inv S (net_mem s) p (edges s p) (pub S (G p) p) (cred S (G (nxt S p)) (nxt S p))
       (g_sp (G p)) (g_rp (G (nxt S p))) (send_head_cache (procs s p)) (recv_tail_cache (procs s (nxt S p)))"
    if p: "p \<in> rs_P S" for p
    using init p ring_okD(1,3)[OF ok p] by (auto simp: ring_init_def edge_inv_def pub_def cred_def G_def phase_defs)
  ultimately have "rinv S G s" unfolding rinv_def by blast
  then show ?thesis by blast
qed

lemma rinv_run: "ring_ok S \<Longrightarrow> rinv S G s \<Longrightarrow> set sched \<subseteq> rs_P S \<Longrightarrow> \<exists>G'. rinv S G' (run (rs_cfg S) sched s)"
proof (induction sched arbitrary: G s)
  case Nil
  then show ?case by (auto simp: run_def)
next
  case (Cons x sched)
  have "x \<in> rs_P S" using Cons.prems(3) by simp
  from rinv_step[OF Cons.prems(1,2) this] obtain G' where "rinv S G' (kstep (rs_cfg S) x s)" by blast
  from Cons.IH[OF Cons.prems(1) this] show ?case using Cons.prems(3) by (simp add: run_def)
qed

section \<open>Progress\<close>

text \<open>The next operation of a block can complete, given the counters as they are now.\<close>

definition able :: "'t kcfg \<Rightarrow> 't net \<Rightarrow> pid \<Rightarrow> bool" where
  "able c s p \<longleftrightarrow> (let pr = procs s p in
     (prog pr \<noteq> [] \<and> hd (prog pr) \<in> {Wait_send_credit, Wait_recv_ready_and_send_credit} \<longrightarrow>
        send_step pr + 2 \<le> e_head (edges s p) + 8) \<and>
     (prog pr \<noteq> [] \<and> hd (prog pr) \<in> {Wait_recv_ready, Wait_recv_ready_and_send_credit} \<longrightarrow>
        recv_step pr + 2 \<le> e_tail (edges s (prev_pid c p))))"

lemma rinv_normal_all:
  assumes ok: "ring_ok S" and inv: "rinv S G s"
  shows "\<exists>G'. rinv S G' s \<and> (\<forall>p\<in>rs_P S. g_os (G' p) \<noteq> [] \<or> g_t (G' p) = rs_T S)"
proof -
  have fin: "finite (rs_P S)" using ok by (simp add: ring_ok_def)
  have "finite X \<Longrightarrow> X \<subseteq> rs_P S \<Longrightarrow> \<exists>G'. rinv S G' s \<and> (\<forall>p\<in>X. g_os (G' p) \<noteq> [] \<or> g_t (G' p) = rs_T S)" for X
  proof (induction X rule: finite_induct)
    case empty
    then show ?case using inv by auto
  next
    case (insert p X)
    then obtain G' where G': "rinv S G' s" "\<forall>p\<in>X. g_os (G' p) \<noteq> [] \<or> g_t (G' p) = rs_T S" by auto
    obtain g where g: "rinv S (G'(p := g)) s" "g_os g \<noteq> [] \<or> g_t g = rs_T S"
      using rinv_normal[OF ok _ G'(1)] insert.prems by blast
    then have "\<forall>q\<in>insert p X. g_os ((G'(p := g)) q) \<noteq> [] \<or> g_t ((G'(p := g)) q) = rs_T S"
      using G'(2) by simp
    with g(1) show ?case by blast
  qed
  from this[OF fin subset_refl] show ?thesis .
qed

lemma ring_progress:
  assumes ok: "ring_ok S" and inv: "rinv S G s" and p: "p \<in> rs_P S" "prog (procs s p) \<noteq> []"
  shows "\<exists>x\<in>rs_P S. prog (procs s x) \<noteq> [] \<and> able (rs_cfg S) s x"
proof -
  obtain H where H: "rinv S H s" "\<forall>p\<in>rs_P S. g_os (H p) \<noteq> [] \<or> g_t (H p) = rs_T S"
    using rinv_normal_all[OF ok inv] by blast
  let ?A = "{p \<in> rs_P S. prog (procs s p) \<noteq> []}"
  have "p \<in> ?A" using p by simp
  then obtain x where x: "x \<in> ?A" "\<forall>y\<in>?A. g_t (H x) \<le> g_t (H y)"
    using ex_has_least_nat[of "\<lambda>x. x \<in> ?A" p "\<lambda>p. g_t (H p)"] by blast
  then have xP: "x \<in> rs_P S" by simp
  note I = rinvD[OF ok H(1) xP]
  have min: "g_t (H x) \<le> g_t (H y)" if y: "y \<in> rs_P S" for y
  proof (cases "prog (procs s y) = []")
    case True
    have L: "loc_inv S (net_mem s) (procs s y) (H y) y" using rinvD(1)[OF ok H(1) y] .
    then have "g_os (H y) = []" using True by (simp add: loc_inv_def)
    then have "g_t (H y) = rs_T S" using H(2) y by auto
    then show ?thesis using I(1) by (simp add: loc_inv_def)
  next
    case False
    with y have "y \<in> ?A" by simp
    with x(2) show ?thesis by blast
  qed
  have os: "g_os (H x) \<noteq> []"
  proof
    assume "g_os (H x) = []"
    then have "g_t (H x) = rs_T S" using H(2) xP by auto
    then show False using I(1) x ring_okD(7)[OF ok xP] by (auto simp: loc_inv_def)
  qed
  then obtain opr os where oo: "g_os (H x) = opr # os" by (cases "g_os (H x)") auto
  have t: "g_t (H x) < rs_T S" using I(1) os by (auto simp: loc_inv_def split: if_splits)
  obtain q where q: "slice_op (rs_cfg S) (rs_U S x) (rs_in S x (g_t (H x))) (rs_sm S x (g_t (H x))) opr
        (g_m (H x), g_rp (H x), g_sp (H x)) = Some q"
    using I(1) t oo by (auto simp: loc_inv_def bind_eq_Some_conv)
  have hd: "hd (prog (procs s x)) = opr" using I(1) oo by (simp add: loc_inv_def)
  have send: "send_step (procs s x) + 2 \<le> e_head (edges s x) + 8" if "g_sp (H x) = SNone"
  proof -
    have "cnt S x (g_t (H x)) \<le> cnt S x (g_t (H x) - 2) + 2" by (rule cnt_minus_2)
    also have "cnt S x (g_t (H x) - 2) \<le> rcnt S (nxt S x) (g_t (H (nxt S x)))"
      using min[of "nxt S x"] ring_okD[OF ok xP] by (simp add: rcnt_eq_cnt cnt_mono)
    also have "\<dots> \<le> cred S (H (nxt S x)) (nxt S x)" by (simp add: cred_def)
    finally show ?thesis using I(1,2) that by (simp add: loc_inv_def edge_inv_def phase_defs)
  qed
  have recv: "recv_step (procs s x) + 2 \<le> e_tail (edges s (prv S x))" if "g_rp (H x) = RNone" "rs_in S x (g_t (H x)) \<noteq> []"
  proof -
    have "Suc (rcnt S x (g_t (H x))) = rcnt S x (Suc (g_t (H x)))" using that(2) by (simp add: rcnt_Suc)
    also have "\<dots> \<le> cnt S (prv S x) (g_t (H (prv S x)))"
      unfolding rcnt_eq_cnt using min[of "prv S x"] ring_okD[OF ok xP] by (intro cnt_mono) simp
    also have "\<dots> \<le> pub S (H (prv S x)) (prv S x)" by (simp add: pub_def)
    finally show ?thesis using I(1,3) that by (simp add: loc_inv_def edge_inv_def phase_defs)
  qed
  have "able (rs_cfg S) s x"
  proof (cases "op_foot opr")
    case None
    from slice_op_control[OF None q] send recv show ?thesis by (cases opr) (auto simp: able_def Let_def hd)
  qed (auto simp: able_def Let_def hd)
  with x show ?thesis by auto
qed

section \<open>Termination of every fair run\<close>

definition unblocked :: "'t net \<Rightarrow> pid \<Rightarrow> bool" where
  "unblocked s p \<longleftrightarrow> (let pr = procs s p in
     (prog pr \<noteq> [] \<and> hd (prog pr) \<in> {Wait_send_credit, Wait_recv_ready_and_send_credit} \<longrightarrow> \<not> send_blocked pr) \<and>
     (prog pr \<noteq> [] \<and> hd (prog pr) \<in> {Wait_recv_ready, Wait_recv_ready_and_send_credit} \<longrightarrow> \<not> recv_blocked pr))"

lemma kstep_other: "x \<noteq> p \<Longrightarrow> procs (kstep c x s) p = procs s p"
  by (auto simp: kstep_def Let_def set_proc_def set_edge_def split: list.splits kop.splits)

lemma kstep_prog_le: "length (prog (procs (kstep c x s) p)) \<le> length (prog (procs s p))"
  by (auto simp: kstep_def Let_def set_proc_def set_edge_def wait_send_credit_def wait_recv_ready_def
      wait_recv_ready_and_send_credit_def split: list.splits kop.splits)

lemma kstep_unblocked:
  "unblocked s p \<Longrightarrow> prog (procs s p) \<noteq> [] \<Longrightarrow> prog (procs (kstep c p s) p) = tl (prog (procs s p))"
  by (cases "prog (procs s p)"; cases "hd (prog (procs s p))")
     (auto simp: unblocked_def kstep_def Let_def set_proc_def set_edge_def wait_send_credit_def wait_recv_ready_def
      wait_recv_ready_and_send_credit_def)

lemma kstep_able:
  assumes "able c s p" "prog (procs s p) \<noteq> []"
  shows "prog (procs (kstep c p s) p) = tl (prog (procs s p)) \<or>
         prog (procs (kstep c p s) p) = prog (procs s p) \<and> unblocked (kstep c p s) p"
  using assms
  by (cases "prog (procs s p)"; cases "hd (prog (procs s p))")
     (auto simp: able_def unblocked_def kstep_def Let_def set_proc_def set_edge_def wait_send_credit_def wait_recv_ready_def
      wait_recv_ready_and_send_credit_def send_blocked_def recv_blocked_def simple_consts)

lemma kstep_counters_mono:
  assumes ok: "ring_ok S" and inv: "rinv S G s" and x: "x \<in> rs_P S"
  shows "e_head (edges s p) \<le> e_head (edges (kstep (rs_cfg S) x s) p)"
    "e_tail (edges s p) \<le> e_tail (edges (kstep (rs_cfg S) x s) p)"
proof -
  obtain g where g: "rinv S (G(x := g)) s" "g_os g \<noteq> [] \<or> g_t g = rs_T S" using rinv_normal[OF ok x inv] by blast
  note I = rinvD[OF ok g(1) x]
  have nx: "prv S x \<noteq> x" "nxt S x \<noteq> x" using ring_okD[OF ok x] by auto
  have hd: "e_head (edges s (prv S x)) \<le> recv_step (procs s x) + 2 \<and> e_tail (edges s x) \<le> send_step (procs s x) + 2"
    using I nx by (auto simp: loc_inv_def edge_inv_def pub_def cred_def phase_defs)
  show "e_head (edges s p) \<le> e_head (edges (kstep (rs_cfg S) x s) p)"
    "e_tail (edges s p) \<le> e_tail (edges (kstep (rs_cfg S) x s) p)"
    using hd by (auto simp: kstep_def Let_def set_proc_def set_edge_def post_recv_credit_def post_send_ready_def simple_consts
        split: list.splits kop.splits)
qed

lemma able_kstep_other:
  assumes ok: "ring_ok S" and inv: "rinv S G s" and x: "x \<in> rs_P S" "x \<noteq> p" and ab: "able (rs_cfg S) s p"
  shows "able (rs_cfg S) (kstep (rs_cfg S) x s) p"
  using ab kstep_other[OF x(2), of "rs_cfg S" s]
    kstep_counters_mono(1)[OF ok inv x(1), of p] kstep_counters_mono(2)[OF ok inv x(1), of "prv S p"]
  by (auto simp: able_def Let_def)

lemma unblocked_kstep_other: "x \<noteq> p \<Longrightarrow> unblocked s p \<Longrightarrow> unblocked (kstep c x s) p"
  by (simp add: unblocked_def kstep_other)

lemma run_prog_le: "length (prog (procs (run c sched s) p)) \<le> length (prog (procs s p))"
proof (induction sched arbitrary: s)
  case (Cons x sched)
  from Cons.IH[of "kstep c x s"] kstep_prog_le[of c x s p] show ?case by (simp add: run_def)
qed (simp add: run_def)

lemma run_Cons: "run c (x # sched) s = run c sched (kstep c x s)"
  by (simp add: run_def)

lemma run_append: "run c (a @ b) s = run c b (run c a s)"
  by (simp add: run_def)

lemma run_unblocked:
  assumes "unblocked s p" "prog (procs s p) \<noteq> []" "p \<in> set sched"
  shows "length (prog (procs (run c sched s) p)) < length (prog (procs s p))"
  using assms
proof (induction sched arbitrary: s)
  case (Cons x sched)
  show ?case
  proof (cases "x = p")
    case True
    then have "prog (procs (kstep c x s) p) = tl (prog (procs s p))" using kstep_unblocked Cons.prems by blast
    then show ?thesis using run_prog_le[of c sched "kstep c x s" p] Cons.prems(2) True
      by (cases "prog (procs s p)") (auto simp: run_Cons)
  next
    case False
    then show ?thesis using Cons.IH[of "kstep c x s"] Cons.prems unblocked_kstep_other[of x p s c] kstep_other[of x p c s]
      by (simp add: run_Cons)
  qed
qed simp

lemma run_able:
  assumes ok: "ring_ok S" and "rinv S G s" "able (rs_cfg S) s p" "prog (procs s p) \<noteq> []"
    "2 \<le> count_list sched p" "set sched \<subseteq> rs_P S"
  shows "length (prog (procs (run (rs_cfg S) sched s) p)) < length (prog (procs s p))"
  using assms(2-6)
proof (induction sched arbitrary: s G)
  case (Cons x sched)
  let ?s = "kstep (rs_cfg S) x s"
  have x: "x \<in> rs_P S" "set sched \<subseteq> rs_P S" using Cons.prems by auto
  show ?case
  proof (cases "x = p")
    case True
    then have in_rest: "p \<in> set sched" using Cons.prems(4) count_notin[of p sched] by fastforce
    from kstep_able[OF Cons.prems(2,3)] consider "prog (procs ?s p) = tl (prog (procs s p))"
      | "prog (procs ?s p) = prog (procs s p)" "unblocked ?s p" using True by auto
    then show ?thesis
    proof cases
      case 1
      then show ?thesis using run_prog_le[of "rs_cfg S" sched ?s p] Cons.prems(3) by (cases "prog (procs s p)") (auto simp: run_Cons)
    next
      case 2
      then show ?thesis using run_unblocked[OF 2(2) _ in_rest, of "rs_cfg S"] Cons.prems(3) by (simp add: run_Cons)
    qed
  next
    case False
    obtain G' where "rinv S G' ?s" using rinv_step[OF ok Cons.prems(1) x(1)] by blast
    from Cons.IH[OF this able_kstep_other[OF ok Cons.prems(1) x(1) False Cons.prems(2)]] Cons.prems(3,4) x(2) False
    show ?thesis by (simp add: run_Cons kstep_other)
  qed
qed simp

text \<open>A round in which every block gets two turns; total number of operations left.\<close>

definition fair_round :: "'t rsys \<Rightarrow> pid list \<Rightarrow> bool" where
  "fair_round S r \<longleftrightarrow> set r \<subseteq> rs_P S \<and> (\<forall>p\<in>rs_P S. 2 \<le> count_list r p)"

definition ops_left :: "'t rsys \<Rightarrow> 't net \<Rightarrow> nat" where
  "ops_left S s = (\<Sum>p\<in>rs_P S. length (prog (procs s p)))"

lemma round_decreases:
  assumes ok: "ring_ok S" and inv: "rinv S G s" and r: "fair_round S r" and "0 < ops_left S s"
  shows "ops_left S (run (rs_cfg S) r s) < ops_left S s"
proof -
  have fin: "finite (rs_P S)" using ok by (simp add: ring_ok_def)
  have "\<not> (\<forall>p\<in>rs_P S. prog (procs s p) = [])"
  proof
    assume "\<forall>p\<in>rs_P S. prog (procs s p) = []"
    then have "ops_left S s = 0" by (simp add: ops_left_def)
    with assms(4) show False by simp
  qed
  then obtain p where "p \<in> rs_P S" "prog (procs s p) \<noteq> []" by blast
  then obtain x where x: "x \<in> rs_P S" "prog (procs s x) \<noteq> []" "able (rs_cfg S) s x" using ring_progress[OF ok inv] by blast
  then have "length (prog (procs (run (rs_cfg S) r s) x)) < length (prog (procs s x))"
    using run_able[OF ok inv x(3,2)] r by (auto simp: fair_round_def)
  then show ?thesis unfolding ops_left_def using fin x(1) run_prog_le by (intro sum_strict_mono_ex1) auto
qed

lemma rounds_finish:
  "ring_ok S \<Longrightarrow> rinv S G s \<Longrightarrow> \<forall>r\<in>set rs. fair_round S r \<Longrightarrow> ops_left S s \<le> length rs \<Longrightarrow>
   ops_left S (run (rs_cfg S) (concat rs) s) = 0"
proof (induction rs arbitrary: G s)
  case Nil
  then show ?case by (simp add: run_def)
next
  case (Cons r rs)
  have sub: "set r \<subseteq> rs_P S" using Cons.prems(3) by (simp add: fair_round_def)
  obtain G' where G': "rinv S G' (run (rs_cfg S) r s)" using rinv_run[OF Cons.prems(1,2) sub] by blast
  have "ops_left S (run (rs_cfg S) r s) \<le> length rs"
  proof (cases "ops_left S s = 0")
    case True
    have "ops_left S (run (rs_cfg S) r s) \<le> ops_left S s"
      unfolding ops_left_def by (intro sum_mono run_prog_le)
    with True show ?thesis by simp
  next
    case False
    then show ?thesis using round_decreases[OF Cons.prems(1,2), of r] Cons.prems(3,4) by simp
  qed
  then show ?case using Cons.IH[OF Cons.prems(1) G'] Cons.prems(3) by (simp add: run_append)
qed

section \<open>Finished runs\<close>

lemma ring_final:
  assumes ok: "ring_ok S" and inv: "rinv S G s" and fin: "\<forall>p\<in>rs_P S. prog (procs s p) = []"
    and quiet: "\<And>p t. p \<in> rs_P S \<Longrightarrow> rs_T S \<le> t + 2 \<Longrightarrow> t < rs_T S \<Longrightarrow> rs_sm S p t = []" and p: "p \<in> rs_P S"
  shows "\<forall>a\<in>rs_U S p. net_mem s a = rs_mm S p (rs_T S) a"
    "send_step (procs s p) = rs_base S p + 2 * cnt S p (rs_T S)"
    "recv_step (procs s (nxt S p)) = send_step (procs s p)"
    "e_head (edges s p) = send_step (procs s p)" "e_tail (edges s p) = send_step (procs s p)" "\<not> stopped (procs s p)"
proof -
  obtain H where H: "rinv S H s" "\<forall>p\<in>rs_P S. g_os (H p) \<noteq> [] \<or> g_t (H p) = rs_T S"
    using rinv_normal_all[OF ok inv] by blast
  have T: "g_t (H q) = rs_T S \<and> loc_inv S (net_mem s) (procs s q) (H q) q" if q: "q \<in> rs_P S" for q
  proof -
    have L: "loc_inv S (net_mem s) (procs s q) (H q) q" using rinvD(1)[OF ok H(1) q] .
    then have "g_os (H q) = []" using fin q by (simp add: loc_inv_def)
    with H(2) q L show ?thesis by auto
  qed
  have np: "nxt S p \<in> rs_P S" "prv S (nxt S p) = p" using ring_okD[OF ok p] by auto
  have "cnt S p (rs_T S) = cnt S p (rs_T S - 2)"
  proof (cases "rs_T S")
    case (Suc n)
    then show ?thesis using quiet[OF p, of n] quiet[OF p, of "n - 1"] by (cases n) (simp_all add: cnt_Suc)
  qed simp
  then have rc: "rcnt S (nxt S p) (rs_T S) = cnt S p (rs_T S)" by (simp add: rcnt_eq_cnt np)
  have Lp: "\<forall>a\<in>rs_U S p. net_mem s a = rs_mm S p (rs_T S) a" "\<not> stopped (procs s p)"
    "send_step (procs s p) = rs_base S p + 2 * cnt S p (rs_T S)" "g_sp (H p) = SNone"
    using T[OF p] by (simp_all add: loc_inv_def phase_defs)
  have Ln: "recv_step (procs s (nxt S p)) = rs_base S p + 2 * cnt S p (rs_T S)" "g_rp (H (nxt S p)) = RNone"
    using T[OF np(1)] rc np(2) by (simp_all add: loc_inv_def phase_defs)
  have "pub S (H p) p = cnt S p (rs_T S)" "cred S (H (nxt S p)) (nxt S p) = cnt S p (rs_T S)"
    using T[OF p] T[OF np(1)] rc Lp(4) Ln(2) by (simp_all add: pub_def cred_def phase_defs)
  then have "e_head (edges s p) = rs_base S p + 2 * cnt S p (rs_T S)" "e_tail (edges s p) = rs_base S p + 2 * cnt S p (rs_T S)"
    using rinvD(2)[OF ok H(1) p] by (simp_all add: edge_inv_def)
  then show "\<forall>a\<in>rs_U S p. net_mem s a = rs_mm S p (rs_T S) a"
    "send_step (procs s p) = rs_base S p + 2 * cnt S p (rs_T S)"
    "recv_step (procs s (nxt S p)) = send_step (procs s p)"
    "e_head (edges s p) = send_step (procs s p)" "e_tail (edges s p) = send_step (procs s p)" "\<not> stopped (procs s p)"
    using Lp Ln by simp_all
qed

end
