(* ===== verification/Ring_System.thy ===== *)
theory Ring_System
  imports Ring_Net
begin

text \<open>
  From slice descriptors to ring systems. A collective is described by what every block does at
  every position: which primitive, on which local operand and destination, how many elements.
  The messages and the memory follow by recursion on the position; \<open>desc_ok\<close> lists what a
  description has to satisfy, and then the described system is a correct ring system.
\<close>

section \<open>The primitives, slice by slice\<close>

datatype skind = K_idle | K_end | K_local | K_send | K_rrs | K_rrcs | K_rrc | K_rcs | K_recv

type_synonym sdesc = "skind \<times> nat \<times> nat \<times> nat"

definition desc_ops :: "'t kcfg \<Rightarrow> sdesc \<Rightarrow> kop list" where
  "desc_ops c = (\<lambda>(k, loc, out, w).
     let b = w * sizeof (kc_dt c) in
     case k of
       K_idle \<Rightarrow> []
     | K_end \<Rightarrow> [Store_base_steps]
     | K_local \<Rightarrow> [Copy_local loc out w]
     | K_send \<Rightarrow> [Wait_send_credit, Copy_in loc w, Post_send_ready b, Advance_send]
     | K_rrs \<Rightarrow> if is_small c w
         then [Wait_recv_ready_and_send_credit, Copy_recv_to_slot w, Post_recv_credit, Reduce_into_slot loc w,
               Post_send_ready b, Advance_recv, Advance_send]
         else [Wait_recv_ready_and_send_credit, Reduce_slot loc w, Post_recv_credit, Post_send_ready b,
               Advance_recv, Advance_send]
     | K_rrcs \<Rightarrow> if is_small c w
         then [Wait_recv_ready_and_send_credit, Copy_recv_to_slot w, Post_recv_credit, Reduce_local_bcast loc out w,
               Post_send_ready b, Advance_recv, Advance_send]
         else [Wait_recv_ready_and_send_credit, Reduce_bcast loc out w, Post_recv_credit, Post_send_ready b,
               Advance_recv, Advance_send]
     | K_rrc \<Rightarrow> if is_small c w
         then [Wait_recv_ready, Copy_recv_to_out out w, Post_recv_credit, Reduce_into_out loc out w, Advance_recv]
         else [Wait_recv_ready, Reduce_out loc out w, Post_recv_credit, Advance_recv]
     | K_rcs \<Rightarrow> [Wait_recv_ready_and_send_credit, Bcast out w, Post_recv_credit, Post_send_ready b,
               Advance_recv, Advance_send]
     | K_recv \<Rightarrow> [Wait_recv_ready, Copy_recv_to_out out w, Post_recv_credit, Advance_recv])"

text \<open>What the primitives turn into: the slice lists of the kernels consist of these programs.\<close>

definition prim :: "'t kcfg \<Rightarrow> skind \<Rightarrow> nat \<Rightarrow> nat \<Rightarrow> nat \<Rightarrow> nat \<Rightarrow> sdesc" where
  "prim c k loc out n s = (case slice_work c n s of (off, w) \<Rightarrow>
     if w = 0 then (K_idle, 0, 0, 0) else (k, loc + off, out + off, w))"

lemma slices_count: "kChunkSteps div kSliceSteps = 2"
  by (simp add: simple_consts)

lemma prim_slices:
  "direct_send c src n = map (\<lambda>s. desc_ops c (prim c K_send src out n s)) [0..<2]"
  "recv_reduce_send c src n = map (\<lambda>s. desc_ops c (prim c K_rrs src out n s)) [0..<2]"
  "recv_reduce_copy_send c src out n = map (\<lambda>s. desc_ops c (prim c K_rrcs src out n s)) [0..<2]"
  "recv_reduce_copy c src out n = map (\<lambda>s. desc_ops c (prim c K_rrc src out n s)) [0..<2]"
  "recv_copy_send c out n = map (\<lambda>s. desc_ops c (prim c K_rcs src out n s)) [0..<2]"
  "direct_recv c out n = map (\<lambda>s. desc_ops c (prim c K_recv src out n s)) [0..<2]"
  by (simp_all add: direct_send_def recv_reduce_send_def recv_reduce_copy_send_def recv_reduce_copy_def
      recv_copy_send_def direct_recv_def slices_def slices_count desc_ops_def prim_def Let_def split: prod.splits)

section \<open>Each slice program does its job\<close>

definition desc_in :: "sdesc \<Rightarrow> bool" where
  "desc_in d \<longleftrightarrow> fst d \<in> {K_rrs, K_rrcs, K_rrc, K_rcs, K_recv}"

definition desc_out :: "sdesc \<Rightarrow> bool" where
  "desc_out d \<longleftrightarrow> fst d \<in> {K_send, K_rrs, K_rrcs, K_rcs}"

definition desc_writes :: "sdesc \<Rightarrow> bool" where
  "desc_writes d \<longleftrightarrow> fst d \<in> {K_local, K_rrcs, K_rrc, K_rcs, K_recv}"

definition desc_reads :: "sdesc \<Rightarrow> bool" where
  "desc_reads d \<longleftrightarrow> fst d \<in> {K_local, K_send, K_rrs, K_rrcs, K_rrc}"

text \<open>The value a slice computes from its operand and the received slice.\<close>

definition desc_val :: "'t kcfg \<Rightarrow> 't mem \<Rightarrow> 't list \<Rightarrow> sdesc \<Rightarrow> 't list" where
  "desc_val c m inm = (\<lambda>(k, loc, out, w).
     case k of
       K_local \<Rightarrow> rd m loc w
     | K_send \<Rightarrow> rd m loc w
     | K_rrs \<Rightarrow> map2 (red c False) (rd m loc w) inm
     | K_rrcs \<Rightarrow> map2 (red c True) (rd m loc w) inm
     | K_rrc \<Rightarrow> map2 (red c True) (rd m loc w) inm
     | K_rcs \<Rightarrow> inm
     | K_recv \<Rightarrow> inm
     | _ \<Rightarrow> [])"

definition desc_width :: "sdesc \<Rightarrow> nat" where "desc_width = (\<lambda>(k, loc, out, w). w)"
definition desc_loc :: "sdesc \<Rightarrow> nat" where "desc_loc = (\<lambda>(k, loc, out, w). loc)"
definition desc_dst :: "sdesc \<Rightarrow> nat" where "desc_dst = (\<lambda>(k, loc, out, w). out)"

lemmas desc_defs = desc_in_def desc_out_def desc_writes_def desc_reads_def desc_val_def desc_width_def
  desc_loc_def desc_dst_def

lemma rd_write1_apart: "apart a b w \<Longrightarrow> rd (write1 b w v m) a w = rd m a w"
  by (auto simp: rd_def write1_def apart_def)

lemma rd_write1_same: "length v = w \<Longrightarrow> rd (write1 b w (nth v) m) b w = v"
  by (auto simp: rd_def write1_def intro: nth_equalityI)

lemma desc_slice_ok:
  assumes "0 < desc_width d" "desc_width d \<le> kc_slot_elems c"
    "desc_in d \<Longrightarrow> length inm = desc_width d" "\<not> desc_in d \<Longrightarrow> inm = []"
    "desc_reads d \<Longrightarrow> rng (desc_loc d) (desc_width d) \<subseteq> U"
    "desc_writes d \<Longrightarrow> rng (desc_dst d) (desc_width d) \<subseteq> U"
    "desc_reads d \<Longrightarrow> desc_writes d \<Longrightarrow> apart (desc_loc d) (desc_dst d) (desc_width d)"
  shows "slice_ok c U inm (if desc_out d then desc_val c m inm d else []) (desc_ops c d) m
           (if desc_writes d then write1 (desc_dst d) (desc_width d) (nth (desc_val c m inm d)) m else m)"
proof -
  obtain k loc out w where d: "d = (k, loc, out, w)" by (cases d) auto
  have ne: "inm \<noteq> []" if "desc_in d" using assms(1) assms(3)[OF that] by auto
  show ?thesis
    using assms ne
    by (cases k; cases "is_small c w")
       (auto simp: d desc_defs desc_ops_def slice_ok_def slice_op_def data_ok_def rfinal_def sfinal_def Let_def
         rd_write1_apart rd_write1_same write1_write1 rd_def[of _ _ 0] simp flip: length_greater_0_conv)
qed

section \<open>The system of a description\<close>

text \<open>Message sent by block \<open>p\<close> at position \<open>t\<close>, from the initial memory.\<close>

function smsg :: "'t kcfg \<Rightarrow> 't mem \<Rightarrow> (pid \<Rightarrow> nat \<Rightarrow> sdesc) \<Rightarrow> pid \<Rightarrow> nat \<Rightarrow> 't list" where
  "smsg c m0 D p t =
     (if desc_out (D p t)
      then desc_val c m0 (if t < 2 then [] else smsg c m0 D (prev_pid c p) (t - 2)) (D p t) else [])"
  by pat_completeness auto
termination
  by (relation "measure (\<lambda>(c, m0, D, p, t). t)") auto

declare smsg.simps [simp del]

definition sin :: "'t kcfg \<Rightarrow> 't mem \<Rightarrow> (pid \<Rightarrow> nat \<Rightarrow> sdesc) \<Rightarrow> pid \<Rightarrow> nat \<Rightarrow> 't list" where
  "sin c m0 D p t = (if t < 2 then [] else smsg c m0 D (prev_pid c p) (t - 2))"

definition sres :: "'t kcfg \<Rightarrow> 't mem \<Rightarrow> (pid \<Rightarrow> nat \<Rightarrow> sdesc) \<Rightarrow> pid \<Rightarrow> nat \<Rightarrow> 't list" where
  "sres c m0 D p t = desc_val c m0 (sin c m0 D p t) (D p t)"

primrec smm :: "'t kcfg \<Rightarrow> 't mem \<Rightarrow> (pid \<Rightarrow> nat \<Rightarrow> sdesc) \<Rightarrow> pid \<Rightarrow> nat \<Rightarrow> 't mem" where
  "smm c m0 D p 0 = m0"
| "smm c m0 D p (Suc t) =
     (if desc_writes (D p t)
      then write1 (desc_dst (D p t)) (desc_width (D p t)) (nth (sres c m0 D p t)) (smm c m0 D p t)
      else smm c m0 D p t)"

definition desc_sys ::
  "'t kcfg \<Rightarrow> pid set \<Rightarrow> (pid \<Rightarrow> nat set) \<Rightarrow> nat \<Rightarrow> (pid \<Rightarrow> nat \<Rightarrow> sdesc) \<Rightarrow> (pid \<Rightarrow> nat) \<Rightarrow> 't mem \<Rightarrow> 't rsys" where
  "desc_sys c P U T D base m0 = \<lparr> rs_cfg = c, rs_P = P, rs_sl = (\<lambda>p. map (\<lambda>t. desc_ops c (D p t)) [0..<T]), rs_U = U,
     rs_T = T, rs_sm = smsg c m0 D, rs_mm = smm c m0 D, rs_base = base \<rparr>"

text \<open>
  A description is consistent when a block receives at position \<open>t\<close> exactly when its
  predecessor sends at \<open>t - 2\<close>, with the same width; every slice fits a FIFO slot and
  stays in the block's region; operands are never destinations, and no cell is written twice.
\<close>

definition desc_ok :: "'t kcfg \<Rightarrow> pid set \<Rightarrow> (pid \<Rightarrow> nat set) \<Rightarrow> nat \<Rightarrow> (pid \<Rightarrow> nat \<Rightarrow> sdesc) \<Rightarrow> bool" where
  "desc_ok c P U T D \<longleftrightarrow>
     (\<forall>p\<in>P. \<forall>t<T.
        (fst (D p t) \<noteq> K_idle \<and> fst (D p t) \<noteq> K_end \<longrightarrow> 0 < desc_width (D p t) \<and> desc_width (D p t) \<le> kc_slot_elems c) \<and>
        (desc_in (D p t) \<longrightarrow> 2 \<le> t \<and> desc_out (D (prev_pid c p) (t - 2)) \<and> desc_width (D (prev_pid c p) (t - 2)) = desc_width (D p t)) \<and>
        (\<not> desc_in (D p t) \<longrightarrow> t < 2 \<or> \<not> desc_out (D (prev_pid c p) (t - 2))) \<and>
        (T \<le> t + 2 \<longrightarrow> \<not> desc_out (D p t)) \<and>
        (desc_reads (D p t) \<longrightarrow> rng (desc_loc (D p t)) (desc_width (D p t)) \<subseteq> U p) \<and>
        (desc_writes (D p t) \<longrightarrow> rng (desc_dst (D p t)) (desc_width (D p t)) \<subseteq> U p) \<and>
        (\<forall>t'<T. desc_reads (D p t) \<and> desc_writes (D p t') \<longrightarrow>
           rng (desc_loc (D p t)) (desc_width (D p t)) \<inter> rng (desc_dst (D p t')) (desc_width (D p t')) = {}) \<and>
        (\<forall>t'<T. t \<noteq> t' \<and> desc_writes (D p t) \<and> desc_writes (D p t') \<longrightarrow>
           rng (desc_dst (D p t)) (desc_width (D p t)) \<inter> rng (desc_dst (D p t')) (desc_width (D p t')) = {}))"

text \<open>The blocks form rings of at least two ranks.\<close>

definition grid :: "'t kcfg \<Rightarrow> pid set" where
  "grid c = {0..<kc_nranks c} \<times> {0..<kc_channels c}"

lemma grid_ring:
  assumes "2 \<le> kc_nranks c" "p \<in> grid c"
  shows "next_pid c p \<in> grid c" "prev_pid c p \<in> grid c" "prev_pid c (next_pid c p) = p"
    "next_pid c (prev_pid c p) = p" "next_pid c p \<noteq> p"
proof -
  obtain r ch where p: "p = (r, ch)" "r < kc_nranks c" "ch < kc_channels c" using assms(2) by (auto simp: grid_def)
  have n0: "0 < kc_nranks c" using assms(1) by simp
  then show "next_pid c p \<in> grid c" "prev_pid c p \<in> grid c"
    using p by (auto simp: grid_def next_pid_def prev_pid_def)
  show "prev_pid c (next_pid c p) = p" using ring_prev_next[OF p(2)] p(1) by (simp add: next_pid_def prev_pid_def)
  show "next_pid c (prev_pid c p) = p" using ring_next_prev[OF p(2)] p(1) by (simp add: next_pid_def prev_pid_def)
  have "(r + 1) mod kc_nranks c \<noteq> r"
  proof (cases "r + 1 = kc_nranks c")
    case True
    then have "(r + 1) mod kc_nranks c = 0" by (metis mod_self)
    with True assms(1) show ?thesis by linarith
  next
    case False
    with p(2) show ?thesis by simp
  qed
  then show "next_pid c p \<noteq> p" by (simp add: p next_pid_def)
qed

lemma smsg_sin: "smsg c m0 D p t = (if desc_out (D p t) then desc_val c m0 (sin c m0 D p t) (D p t) else [])"
  by (subst smsg.simps) (simp add: sin_def)

lemma desc_val_length:
  assumes "desc_in d \<Longrightarrow> length inm = desc_width d" "desc_out d \<or> desc_writes d"
  shows "length (desc_val c m inm d) = desc_width d"
proof -
  obtain k loc out w where d: "d = (k, loc, out, w)" by (cases d) auto
  show ?thesis using assms by (cases k) (simp_all add: d desc_defs)
qed

lemma smsg_length:
  assumes "desc_ok c P U T D" "\<And>p. p \<in> P \<Longrightarrow> prev_pid c p \<in> P" "p \<in> P" "t < T"
  shows "length (smsg c m0 D p t) = (if desc_out (D p t) then desc_width (D p t) else 0)"
  using assms(3,4)
proof (induction t arbitrary: p rule: less_induct)
  case (less t)
  have ok: "desc_in (D p t) \<longrightarrow> 2 \<le> t \<and> desc_out (D (prev_pid c p) (t - 2)) \<and> desc_width (D (prev_pid c p) (t - 2)) = desc_width (D p t)"
    using assms(1) less.prems by (simp add: desc_ok_def)
  have "length (smsg c m0 D (prev_pid c p) (t - 2)) = desc_width (D p t)" if "desc_in (D p t)"
    using less.IH[of "t - 2" "prev_pid c p"] ok that assms(2) less.prems by auto
  then have "length (sin c m0 D p t) = desc_width (D p t)" if "desc_in (D p t)"
    using ok that by (simp add: sin_def)
  then show ?case using desc_val_length[of "D p t" "sin c m0 D p t" c m0] by (simp add: smsg_sin)
qed

lemma sin_length:
  assumes "desc_ok c P U T D" "\<And>p. p \<in> P \<Longrightarrow> prev_pid c p \<in> P" "p \<in> P" "t < T"
  shows "length (sin c m0 D p t) = (if desc_in (D p t) then desc_width (D p t) else 0)"
proof -
  have "(desc_in (D p t) \<longrightarrow> 2 \<le> t \<and> desc_out (D (prev_pid c p) (t - 2)) \<and> desc_width (D (prev_pid c p) (t - 2)) = desc_width (D p t)) \<and>
        (\<not> desc_in (D p t) \<longrightarrow> t < 2 \<or> \<not> desc_out (D (prev_pid c p) (t - 2)))"
    using assms(1,3,4) by (simp add: desc_ok_def)
  then show ?thesis using smsg_length[OF assms(1,2), of "prev_pid c p" "t - 2" m0] assms(2)[OF assms(3)] assms(4)
    by (auto simp: sin_def)
qed

text \<open>Operands keep their initial value; results stay once written.\<close>

lemma smm_unwritten:
  "(\<And>t'. t' < t \<Longrightarrow> desc_writes (D p t') \<Longrightarrow> a \<notin> rng (desc_dst (D p t')) (desc_width (D p t'))) \<Longrightarrow>
   smm c m0 D p t a = m0 a"
  by (induction t) (auto simp: write1_notin)

lemma smm_written:
  assumes "desc_ok c P U T D" "p \<in> P" "t' < t" "t \<le> T" "desc_writes (D p t')" "i < desc_width (D p t')"
  shows "smm c m0 D p t (desc_dst (D p t') + i) = sres c m0 D p t' ! i"
  using assms(3,4)
proof (induction t)
  case (Suc t)
  let ?a = "desc_dst (D p t') + i"
  have in': "?a \<in> rng (desc_dst (D p t')) (desc_width (D p t'))" using assms(6) by (simp add: rng_def)
  show ?case
  proof (cases "t' = t")
    case True
    then show ?thesis using assms(5,6) by (simp add: write1_at)
  next
    case False
    then have lt: "t' < t" using Suc.prems by simp
    have "?a \<notin> rng (desc_dst (D p t)) (desc_width (D p t))" if "desc_writes (D p t)"
      using assms(1,2,5) lt Suc.prems that in' unfolding desc_ok_def by (metis Suc_le_lessD disjoint_iff less_trans nat_less_le)
    then show ?thesis using Suc.IH lt Suc.prems by (auto simp: write1_notin)
  qed
qed simp

lemma desc_sys_simps [simp]:
  "rs_cfg (desc_sys c P U T D base m0) = c" "rs_P (desc_sys c P U T D base m0) = P"
  "rs_sl (desc_sys c P U T D base m0) p = map (\<lambda>t. desc_ops c (D p t)) [0..<T]"
  "rs_U (desc_sys c P U T D base m0) = U" "rs_T (desc_sys c P U T D base m0) = T"
  "rs_sm (desc_sys c P U T D base m0) = smsg c m0 D" "rs_mm (desc_sys c P U T D base m0) = smm c m0 D"
  "rs_base (desc_sys c P U T D base m0) = base"
  "rs_in (desc_sys c P U T D base m0) p t = sin c m0 D p t"
  by (simp_all add: desc_sys_def rs_in_def sin_def)

definition cfg_ok :: "'t kcfg \<Rightarrow> bool" where
  "cfg_ok c \<longleftrightarrow> 2 \<le> kc_nranks c \<and> 0 < kc_unroll c \<and> 0 < kc_block c \<and>
     packed_agrees (kc_num c) (kc_op c) (kc_dt c)"

lemma desc_slice:
  assumes ok: "desc_ok c P U T D" and prev: "\<And>p. p \<in> P \<Longrightarrow> prev_pid c p \<in> P" and p: "p \<in> P" and t: "t < T"
  shows "slice_ok c (U p) (sin c m0 D p t) (smsg c m0 D p t) (desc_ops c (D p t)) (smm c m0 D p t) (smm c m0 D p (Suc t))"
proof -
  let ?d = "D p t" and ?m = "smm c m0 D p t" and ?inm = "sin c m0 D p t"
  have dk: "(fst ?d \<noteq> K_idle \<and> fst ?d \<noteq> K_end \<longrightarrow> 0 < desc_width ?d \<and> desc_width ?d \<le> kc_slot_elems c) \<and>
      (desc_reads ?d \<longrightarrow> rng (desc_loc ?d) (desc_width ?d) \<subseteq> U p) \<and>
      (desc_writes ?d \<longrightarrow> rng (desc_dst ?d) (desc_width ?d) \<subseteq> U p) \<and>
      (\<forall>t'<T. desc_reads ?d \<and> desc_writes (D p t') \<longrightarrow>
           rng (desc_loc ?d) (desc_width ?d) \<inter> rng (desc_dst (D p t')) (desc_width (D p t')) = {})"
    using ok p t by (simp add: desc_ok_def)
  have len: "length ?inm = (if desc_in ?d then desc_width ?d else 0)" using sin_length[OF ok prev p t] .
  have val: "desc_val c ?m ?inm ?d = desc_val c m0 ?inm ?d"
  proof (cases "desc_reads ?d")
    case True
    have "?m (desc_loc ?d + i) = m0 (desc_loc ?d + i)" if i: "i < desc_width ?d" for i
    proof (rule smm_unwritten)
      fix t' assume "t' < t" "desc_writes (D p t')"
      with dk True t have "rng (desc_loc ?d) (desc_width ?d) \<inter> rng (desc_dst (D p t')) (desc_width (D p t')) = {}"
        using less_trans by blast
      with rng_mem[OF i, of "desc_loc ?d"]
      show "desc_loc ?d + i \<notin> rng (desc_dst (D p t')) (desc_width (D p t'))" by blast
    qed
    then have "rd ?m (desc_loc ?d) (desc_width ?d) = rd m0 (desc_loc ?d) (desc_width ?d)"
      by (simp add: rd_def)
    then show ?thesis by (cases ?d) (auto simp: desc_val_def desc_width_def desc_loc_def split: skind.splits)
  next
    case False
    then show ?thesis by (cases ?d) (auto simp: desc_val_def desc_reads_def split: skind.splits)
  qed
  show ?thesis
  proof (cases "fst ?d = K_idle \<or> fst ?d = K_end")
    case True
    then have "\<not> desc_in ?d" "\<not> desc_out ?d" "\<not> desc_writes ?d" by (auto simp: desc_defs)
    moreover from this len have "?inm = []" by simp
    ultimately show ?thesis using True
      by (cases ?d) (auto simp: slice_ok_def smsg_sin desc_ops_def slice_op_def rfinal_def sfinal_def)
  next
    case False
    have "apart (desc_loc ?d) (desc_dst ?d) (desc_width ?d)" if "desc_reads ?d" "desc_writes ?d"
      using dk that t False by (intro apart_rng) auto
    then have "slice_ok c (U p) ?inm (if desc_out ?d then desc_val c ?m ?inm ?d else []) (desc_ops c ?d) ?m
           (if desc_writes ?d then write1 (desc_dst ?d) (desc_width ?d) (nth (desc_val c ?m ?inm ?d)) ?m else ?m)"
      using dk False len by (intro desc_slice_ok) auto
    then show ?thesis unfolding val by (simp only: smm.simps smsg_sin sres_def)
  qed
qed

lemma desc_ring_ok:
  assumes "cfg_ok c" "desc_ok c (grid c) U T D" "rs_layout (desc_sys c (grid c) U T D base m0)"
  shows "ring_ok (desc_sys c (grid c) U T D base m0)"
proof -
  have n: "2 \<le> kc_nranks c" and c: "0 < kc_unroll c" "0 < kc_block c" "packed_agrees (kc_num c) (kc_op c) (kc_dt c)"
    using assms(1) by (simp_all add: cfg_ok_def)
  note ring = grid_ring[OF n]
  have "finite (grid c)" by (simp add: grid_def)
  moreover have "\<forall>p\<in>grid c. \<forall>t<T. slice_ok c (U p) (sin c m0 D p t) (smsg c m0 D p t) (desc_ops c (D p t))
      (smm c m0 D p t) (smm c m0 D p (Suc t))"
    using desc_slice[OF assms(2) ring(2)] by blast
  ultimately show ?thesis using assms(3) ring c by (simp add: ring_ok_def del: smm.simps)
qed

lemma desc_quiet:
  assumes "desc_ok c P U T D" "p \<in> P" "T \<le> t + 2" "t < T"
  shows "smsg c m0 D p t = []"
  using assms by (simp add: smsg_sin desc_ok_def)

section \<open>Staged descriptions\<close>

text \<open>
  All three kernels are a number of loops of \<open>J\<close> stages of two slices; the number of loops
  may differ between channels. \<open>SD p l j s\<close> describes slice \<open>s\<close> of stage \<open>j\<close> of loop \<open>l\<close>.
\<close>

definition staged :: "nat \<Rightarrow> (pid \<Rightarrow> nat) \<Rightarrow> (pid \<Rightarrow> nat \<Rightarrow> nat \<Rightarrow> nat \<Rightarrow> sdesc) \<Rightarrow> pid \<Rightarrow> nat \<Rightarrow> sdesc" where
  "staged J L SD p t =
     (if t < L p * (2 * J) then SD p (t div (2 * J)) (t mod (2 * J) div 2) (t mod (2 * J) mod 2)
      else if t = L p * (2 * J) \<and> 0 < L p then (K_end, 0, 0, 0) else (K_idle, 0, 0, 0))"

definition staged_ok ::
  "'t kcfg \<Rightarrow> pid set \<Rightarrow> (pid \<Rightarrow> nat set) \<Rightarrow> nat \<Rightarrow> (pid \<Rightarrow> nat) \<Rightarrow> (pid \<Rightarrow> nat \<Rightarrow> nat \<Rightarrow> nat \<Rightarrow> sdesc) \<Rightarrow> bool" where
  "staged_ok c P U J L SD \<longleftrightarrow> 2 \<le> J \<and>
     (\<forall>p\<in>P. L (prev_pid c p) = L p \<and>
       (\<forall>l<L p. \<forall>j<J. \<forall>s<2. let d = SD p l j s in
          (fst d \<noteq> K_idle \<longrightarrow> 0 < desc_width d \<and> desc_width d \<le> kc_slot_elems c) \<and> fst d \<noteq> K_end \<and>
          (desc_in d \<longrightarrow> 1 \<le> j \<and> desc_out (SD (prev_pid c p) l (j - 1) s) \<and> desc_width (SD (prev_pid c p) l (j - 1) s) = desc_width d) \<and>
          (\<not> desc_in d \<longrightarrow> j = 0 \<or> \<not> desc_out (SD (prev_pid c p) l (j - 1) s)) \<and>
          (Suc j = J \<longrightarrow> \<not> desc_out d) \<and>
          (desc_reads d \<longrightarrow> rng (desc_loc d) (desc_width d) \<subseteq> U p) \<and>
          (desc_writes d \<longrightarrow> rng (desc_dst d) (desc_width d) \<subseteq> U p) \<and>
          (\<forall>l'<L p. \<forall>j'<J. \<forall>s'<2. let d' = SD p l' j' s' in
             (desc_reads d \<and> desc_writes d' \<longrightarrow> rng (desc_loc d) (desc_width d) \<inter> rng (desc_dst d') (desc_width d') = {}) \<and>
             ((l, j, s) \<noteq> (l', j', s') \<and> desc_writes d \<and> desc_writes d' \<longrightarrow>
                rng (desc_dst d) (desc_width d) \<inter> rng (desc_dst d') (desc_width d') = {}))))"

lemma staged_at:
  assumes "l < L p" "j < J" "s < 2"
  shows "staged J L SD p (l * (2 * J) + (2 * j + s)) = SD p l j s"
    and "l * (2 * J) + (2 * j + s) < L p * (2 * J)"
proof -
  have u: "2 * j + s < 2 * J" using assms by simp
  show lt: "l * (2 * J) + (2 * j + s) < L p * (2 * J)" using assms(1) u by (rule mult_add_less)
  have "(l * (2 * J) + (2 * j + s)) div (2 * J) = l" using u by simp
  moreover have "(l * (2 * J) + (2 * j + s)) mod (2 * J) = 2 * j + s" using u by simp
  ultimately show "staged J L SD p (l * (2 * J) + (2 * j + s)) = SD p l j s"
    using lt assms(3) unfolding staged_def by simp
qed

lemma staged_decode:
  fixes t L J :: nat
  assumes "t < L * (2 * J)"
  obtains l j s where "l < L" "j < J" "s < 2" "t = l * (2 * J) + (2 * j + s)"
proof
  have J: "0 < 2 * J" using assms by (cases J) auto
  have u: "t mod (2 * J) < 2 * J" using J by simp
  show "t div (2 * J) < L" using assms J by (simp add: div_less_iff_less_mult)
  show "t mod (2 * J) div 2 < J" using u by (simp add: div_less_iff_less_mult mult.commute)
  show "t mod (2 * J) mod 2 < 2" by simp
  show "t = t div (2 * J) * (2 * J) + (2 * (t mod (2 * J) div 2) + t mod (2 * J) mod 2)"
    by (simp only: mult_div_mod_eq div_mult_mod_eq)
qed

lemma decode_unique:
  fixes l j s J :: nat
  assumes "j < J" "s < 2" "j' < J" "s' < 2" "l * (2 * J) + (2 * j + s) = l' * (2 * J) + (2 * j' + s')"
  shows "l = l' \<and> j = j' \<and> s = s'"
proof -
  have u: "2 * j + s < 2 * J" "2 * j' + s' < 2 * J" using assms(1-4) by simp_all
  then have "l = l'" using assms(5) by (metis div_mult_self3 div_less add.right_neutral less_nat_zero_code)
  then have e: "2 * j + s = 2 * j' + s'" using assms(5) by simp
  have "(2 * j + s) div 2 = j" "(2 * j' + s') div 2 = j'" using assms(2,4) by simp_all
  then have "j = j'" using e by metis
  with e \<open>l = l'\<close> show ?thesis by simp
qed

lemma staged_outside:
  "L p * (2 * J) \<le> t \<Longrightarrow> \<not> desc_in (staged J L SD p t) \<and> \<not> desc_out (staged J L SD p t) \<and>
     \<not> desc_reads (staged J L SD p t) \<and> \<not> desc_writes (staged J L SD p t) \<and> fst (staged J L SD p t) \<in> {K_idle, K_end}"
  by (simp add: staged_def desc_defs)

lemma staged_out:
  assumes st: "staged_ok c P U J L SD" and p: "p \<in> P" and out: "desc_out (staged J L SD p t)"
  obtains l j s where "l < L p" "Suc j < J" "s < 2" "t = l * (2 * J) + (2 * j + s)"
proof -
  have "t < L p * (2 * J)" using out staged_outside[of L p J t SD] by (meson leI)
  then obtain l j s where lj: "l < L p" "j < J" "s < 2" "t = l * (2 * J) + (2 * j + s)" by (rule staged_decode)
  then have "desc_out (SD p l j s)" using out staged_at(1)[of l L p j J s SD] by simp
  moreover have "Suc j = J \<longrightarrow> \<not> desc_out (SD p l j s)" using st p lj unfolding staged_ok_def Let_def by blast
  ultimately have "Suc j < J" using lj(2) by linarith
  with lj that show ?thesis by blast
qed

text \<open>A position that does not receive follows no sending position of the predecessor.\<close>

lemma staged_no_out_before:
  assumes st: "staged_ok c P U J L SD" and p: "p \<in> P" and q: "prev_pid c p \<in> P"
    and no: "\<not> desc_in (staged J L SD p t)" and t: "2 \<le> t"
  shows "\<not> desc_out (staged J L SD (prev_pid c p) (t - 2))"
proof
  let ?q = "prev_pid c p"
  assume out: "desc_out (staged J L SD ?q (t - 2))"
  obtain l j s where lj: "l < L ?q" "Suc j < J" "s < 2" "t - 2 = l * (2 * J) + (2 * j + s)"
    using staged_out[OF st q out] by blast
  have Lq: "L ?q = L p" using st p by (simp add: staged_ok_def)
  have te: "t = l * (2 * J) + (2 * Suc j + s)" using lj(4) t by simp
  have "staged J L SD p t = SD p l (Suc j) s" "staged J L SD ?q (t - 2) = SD ?q l j s"
    using te lj Lq staged_at(1)[of l L p "Suc j" J s SD] staged_at(1)[of l L ?q j J s SD] by simp_all
  moreover have "\<not> desc_in (SD p l (Suc j) s) \<longrightarrow> Suc j = 0 \<or> \<not> desc_out (SD ?q l (Suc j - 1) s)"
    using st p lj Lq unfolding staged_ok_def Let_def by (metis (no_types, lifting))
  ultimately show False using no out by simp
qed

lemma staged_desc_ok:
  assumes st: "staged_ok c P U J L SD" and T: "\<And>p. p \<in> P \<Longrightarrow> L p * (2 * J) < T"
    and prev: "\<And>p. p \<in> P \<Longrightarrow> prev_pid c p \<in> P"
  shows "desc_ok c P U T (staged J L SD)"
  unfolding desc_ok_def
proof (intro ballI allI impI)
  fix p t assume p: "p \<in> P" and t: "t < T"
  let ?D = "staged J L SD" let ?q = "prev_pid c p"
  have Lq: "L ?q = L p" using st p by (simp add: staged_ok_def)
  have notin: "\<not> desc_in (?D p t) \<longrightarrow> t < 2 \<or> \<not> desc_out (?D ?q (t - 2))"
    using staged_no_out_before[OF st p prev[OF p]] by (meson linorder_not_less)
  have last: "T \<le> t + 2 \<longrightarrow> \<not> desc_out (?D p t)"
  proof (intro impI notI)
    assume tt: "T \<le> t + 2" and out: "desc_out (?D p t)"
    obtain l j s where lj: "l < L p" "Suc j < J" "s < 2" "t = l * (2 * J) + (2 * j + s)"
      using staged_out[OF st p out] by blast
    then have "t + 2 < L p * (2 * J)" using staged_at(2)[of l L p "Suc j" J s] by simp
    with T[OF p] tt show False by simp
  qed
  show "(fst (?D p t) \<noteq> K_idle \<and> fst (?D p t) \<noteq> K_end \<longrightarrow> 0 < desc_width (?D p t) \<and> desc_width (?D p t) \<le> kc_slot_elems c) \<and>
        (desc_in (?D p t) \<longrightarrow> 2 \<le> t \<and> desc_out (?D ?q (t - 2)) \<and> desc_width (?D ?q (t - 2)) = desc_width (?D p t)) \<and>
        (\<not> desc_in (?D p t) \<longrightarrow> t < 2 \<or> \<not> desc_out (?D ?q (t - 2))) \<and>
        (T \<le> t + 2 \<longrightarrow> \<not> desc_out (?D p t)) \<and>
        (desc_reads (?D p t) \<longrightarrow> rng (desc_loc (?D p t)) (desc_width (?D p t)) \<subseteq> U p) \<and>
        (desc_writes (?D p t) \<longrightarrow> rng (desc_dst (?D p t)) (desc_width (?D p t)) \<subseteq> U p) \<and>
        (\<forall>t'<T. desc_reads (?D p t) \<and> desc_writes (?D p t') \<longrightarrow>
           rng (desc_loc (?D p t)) (desc_width (?D p t)) \<inter> rng (desc_dst (?D p t')) (desc_width (?D p t')) = {}) \<and>
        (\<forall>t'<T. t \<noteq> t' \<and> desc_writes (?D p t) \<and> desc_writes (?D p t') \<longrightarrow>
           rng (desc_dst (?D p t)) (desc_width (?D p t)) \<inter> rng (desc_dst (?D p t')) (desc_width (?D p t')) = {})"
  proof (cases "t < L p * (2 * J)")
    case True
    then obtain l j s where lj: "l < L p" "j < J" "s < 2" and te: "t = l * (2 * J) + (2 * j + s)"
      by (rule staged_decode)
    define d0 where "d0 = SD p l j s"
    have d: "?D p t = d0" unfolding te d0_def using lj by (intro staged_at(1))
    have F: "(fst d0 \<noteq> K_idle \<longrightarrow> 0 < desc_width d0 \<and> desc_width d0 \<le> kc_slot_elems c)"
      "(desc_in d0 \<longrightarrow> 1 \<le> j \<and> desc_out (SD ?q l (j - 1) s) \<and> desc_width (SD ?q l (j - 1) s) = desc_width d0)"
      "(desc_reads d0 \<longrightarrow> rng (desc_loc d0) (desc_width d0) \<subseteq> U p)"
      "(desc_writes d0 \<longrightarrow> rng (desc_dst d0) (desc_width d0) \<subseteq> U p)"
      using st p lj unfolding staged_ok_def Let_def d0_def by blast+
    have prevD: "2 \<le> t \<and> ?D ?q (t - 2) = SD ?q l (j - 1) s" if "1 \<le> j"
    proof -
      have "t - 2 = l * (2 * J) + (2 * (j - 1) + s)" "2 \<le> t" using that te by (cases j; simp)+
      then show ?thesis using staged_at(1)[of l L ?q "j - 1" J s SD] lj Lq by simp
    qed
    have G: "(desc_reads d0 \<and> desc_writes (?D p t') \<longrightarrow>
          rng (desc_loc d0) (desc_width d0) \<inter> rng (desc_dst (?D p t')) (desc_width (?D p t')) = {}) \<and>
        (t \<noteq> t' \<and> desc_writes d0 \<and> desc_writes (?D p t') \<longrightarrow>
          rng (desc_dst d0) (desc_width d0) \<inter> rng (desc_dst (?D p t')) (desc_width (?D p t')) = {})" for t'
    proof (cases "t' < L p * (2 * J)")
      case True
      then obtain l' j' s' where lj': "l' < L p" "j' < J" "s' < 2" and te': "t' = l' * (2 * J) + (2 * j' + s')"
        by (rule staged_decode)
      have d': "?D p t' = SD p l' j' s'" unfolding te' using lj' by (intro staged_at(1))
      have "t \<noteq> t' \<Longrightarrow> (l, j, s) \<noteq> (l', j', s')" using te te' by auto
      then show ?thesis unfolding d' using st p lj lj' unfolding staged_ok_def Let_def d0_def by blast
    next
      case False
      then show ?thesis using staged_outside[of L p J t' SD] by simp
    qed
    show ?thesis unfolding d using F prevD G notin last d by auto
  next
    case False
    then show ?thesis using staged_outside[of L p J t SD] notin last by auto
  qed
qed

section \<open>Programs of staged descriptions\<close>

lemma concat_staged:
  "concat (map (\<lambda>t. desc_ops c (staged J L SD p t)) [0..<L p * (2 * J)]) =
   concat (concat (map (\<lambda>l. concat (map (\<lambda>j. map (\<lambda>s. desc_ops c (SD p l j s)) [0..<2]) [0..<J])) [0..<L p]))"
proof -
  have "map (\<lambda>t. desc_ops c (staged J L SD p t)) [0..<L p * (2 * J)] =
      concat (map (\<lambda>l. map (\<lambda>u. desc_ops c (staged J L SD p (l * (2 * J) + u))) [0..<2 * J]) [0..<L p])"
    by (rule map_upt_mult)
  also have "\<dots> = concat (map (\<lambda>l. concat (map (\<lambda>j. map (\<lambda>s. desc_ops c (SD p l j s)) [0..<2]) [0..<J])) [0..<L p])"
  proof (rule arg_cong[where f = concat], rule map_cong[OF refl])
    fix l assume "l \<in> set [0..<L p]"
    then have l: "l < L p" by simp
    have "map (\<lambda>u. desc_ops c (staged J L SD p (l * (2 * J) + u))) [0..<J * 2] =
        concat (map (\<lambda>j. map (\<lambda>s. desc_ops c (staged J L SD p (l * (2 * J) + (j * 2 + s)))) [0..<2]) [0..<J])"
      by (rule map_upt_mult)
    also have "\<dots> = concat (map (\<lambda>j. map (\<lambda>s. desc_ops c (SD p l j s)) [0..<2]) [0..<J])"
    proof (rule arg_cong[where f = concat], rule map_cong[OF refl], rule map_cong[OF refl])
      fix j s assume "j \<in> set [0..<J]" "s \<in> set [0..<2 :: nat]"
      then show "desc_ops c (staged J L SD p (l * (2 * J) + (j * 2 + s))) = desc_ops c (SD p l j s)"
        using staged_at(1)[of l L p j J s SD] l by (simp add: mult.commute)
    qed
    finally show "map (\<lambda>u. desc_ops c (staged J L SD p (l * (2 * J) + u))) [0..<2 * J] =
        concat (map (\<lambda>j. map (\<lambda>s. desc_ops c (SD p l j s)) [0..<2]) [0..<J])"
      by (simp only: mult.commute[of J 2])
  qed
  finally show ?thesis by simp
qed

lemma concat_staged_end:
  assumes "0 < L p" "L p * (2 * J) < T"
  shows "concat (map (\<lambda>t. desc_ops c (staged J L SD p t)) [0..<T]) =
         concat (map (\<lambda>t. desc_ops c (staged J L SD p t)) [0..<L p * (2 * J)]) @ [Store_base_steps]"
proof -
  let ?n = "L p * (2 * J)" and ?f = "\<lambda>t. desc_ops c (staged J L SD p t)"
  have split: "[0..<T] = [0..<?n] @ ?n # [Suc ?n..<T]"
    using assms(2) by (rule upt_split)
  have "?f t = []" if "t \<in> set [Suc ?n..<T]" for t
    using that by (simp add: staged_def desc_ops_def)
  then have "concat (map ?f [Suc ?n..<T]) = []" by (simp add: concat_eq_Nil_conv)
  moreover have "?f ?n = [Store_base_steps]" using assms(1) by (simp add: staged_def desc_ops_def)
  ultimately show ?thesis unfolding split by simp
qed

lemma concat_staged_empty:
  "L p = 0 \<Longrightarrow> concat (map (\<lambda>t. desc_ops c (staged J L SD p t)) [0..<T]) = []"
  by (simp add: staged_def desc_ops_def)

end
