(* ===== verification/Ring_Collective.thy ===== *)
theory Ring_Collective
  imports Ring_System
begin

text \<open>
  The contract between a ring kernel and its launcher. The locale \<open>ring_collective\<close> asks of a
  kernel that its programs are staged ring programs (what to send and receive at each position,
  inside the block's own part of the buffers); it then guarantees, for every schedule of the
  blocks, that no reachable state is stuck, that every fair run finishes, that a finished run
  leaves the described results in memory and that the edges are quiet again, so that the
  next collective can be launched. The kernels' theories interpret it.
\<close>

section \<open>Launching a collective on all ranks\<close>

definition launch_all :: "'t kcfg \<Rightarrow> (pid \<Rightarrow> kop list list option) \<Rightarrow> 't net \<Rightarrow> 't net" where
  "launch_all c prog_of s = s\<lparr>procs := (\<lambda>p. if p \<in> grid c then launch (the (prog_of p)) (procs s p) else procs s p)\<rparr>"

text \<open>Both ends of every edge agree on the step reached, and nothing is in flight.\<close>

definition quiescent :: "'t kcfg \<Rightarrow> 't net \<Rightarrow> bool" where
  "quiescent c s \<longleftrightarrow> (\<forall>p\<in>grid c.
     recv_base_step (procs s (next_pid c p)) = send_base_step (procs s p) \<and>
     e_head (edges s p) = send_base_step (procs s p) \<and> e_tail (edges s p) = send_base_step (procs s p))"

definition finished :: "'t kcfg \<Rightarrow> 't net \<Rightarrow> bool" where
  "finished c s \<longleftrightarrow> (\<forall>p\<in>grid c. prog (procs s p) = [])"

definition ops_total :: "'t kcfg \<Rightarrow> (pid \<Rightarrow> kop list list option) \<Rightarrow> nat" where
  "ops_total c prog_of = (\<Sum>p\<in>grid c. length (concat (the (prog_of p))))"

text \<open>A round of turns in which every block occurs at least twice.\<close>

definition fair :: "'t kcfg \<Rightarrow> pid list \<Rightarrow> bool" where
  "fair c r \<longleftrightarrow> set r \<subseteq> grid c \<and> (\<forall>p\<in>grid c. 2 \<le> count_list r p)"

section \<open>Layout of the buffers\<close>

definition buffers_ok :: "'t kcfg \<Rightarrow> nat \<Rightarrow> nat \<Rightarrow> bool" where
  "buffers_ok c in_len out_len \<longleftrightarrow>
     (\<forall>r<kc_nranks c. \<forall>r'<kc_nranks c.
        rng (kc_input c r) in_len \<inter> rng (kc_output c r') out_len = {} \<and>
        (r \<noteq> r' \<longrightarrow> rng (kc_input c r) in_len \<inter> rng (kc_input c r') in_len = {} \<and>
                   rng (kc_output c r) out_len \<inter> rng (kc_output c r') out_len = {})) \<and>
     (\<forall>p\<in>grid c. \<forall>r<kc_nranks c.
        rng (kc_fifo c p) (8 * kc_slot_elems c) \<inter> rng (kc_input c r) in_len = {} \<and>
        rng (kc_fifo c p) (8 * kc_slot_elems c) \<inter> rng (kc_output c r) out_len = {}) \<and>
     (\<forall>p\<in>grid c. \<forall>q\<in>grid c. p \<noteq> q \<longrightarrow>
        rng (kc_fifo c p) (8 * kc_slot_elems c) \<inter> rng (kc_fifo c q) (8 * kc_slot_elems c) = {})"

definition region_layout :: "'t kcfg \<Rightarrow> (pid \<Rightarrow> nat set) \<Rightarrow> bool" where
  "region_layout c U \<longleftrightarrow>
     (\<forall>p\<in>grid c. \<forall>q\<in>grid c. rng (kc_fifo c p) (8 * kc_slot_elems c) \<inter> U q = {} \<and>
        (p \<noteq> q \<longrightarrow> U p \<inter> U q = {} \<and>
           rng (kc_fifo c p) (8 * kc_slot_elems c) \<inter> rng (kc_fifo c q) (8 * kc_slot_elems c) = {}))"

lemma rs_layout_iff: "rs_layout (desc_sys c (grid c) U T D base m0) \<longleftrightarrow> region_layout c U"
  by (simp add: rs_layout_def region_layout_def fifo_rng_def kFifoSteps_def)

section \<open>Results by stage\<close>

text \<open>The value computed by slice \<open>s\<close> of stage \<open>j\<close> of loop \<open>l\<close> from the initial memory.\<close>

fun stval :: "'t kcfg \<Rightarrow> 't mem \<Rightarrow> (pid \<Rightarrow> nat \<Rightarrow> nat \<Rightarrow> nat \<Rightarrow> sdesc) \<Rightarrow> pid \<Rightarrow> nat \<Rightarrow> nat \<Rightarrow> nat \<Rightarrow> 't list" where
  "stval c m0 SD p l 0 s = desc_val c m0 [] (SD p l 0 s)"
| "stval c m0 SD p l (Suc j) s = desc_val c m0 (stval c m0 SD (prev_pid c p) l j s) (SD p l (Suc j) s)"

lemma desc_val_no_in: "\<not> desc_in d \<Longrightarrow> desc_val c m inm d = desc_val c m inm' d"
  by (cases d) (auto simp: desc_val_def desc_in_def split: skind.splits)

lemma sres_stval:
  assumes st: "staged_ok c P U J L SD" and prev: "\<And>p. p \<in> P \<Longrightarrow> prev_pid c p \<in> P"
    and "p \<in> P" "l < L p" "j < J" "s < 2"
  shows "sres c m0 (staged J L SD) p (l * (2 * J) + (2 * j + s)) = stval c m0 SD p l j s"
  using assms(3-6)
proof (induction j arbitrary: p)
  case 0
  have d: "staged J L SD p (l * (2 * J) + (2 * 0 + s)) = SD p l 0 s" using 0 by (intro staged_at(1))
  have "desc_in (SD p l 0 s) \<longrightarrow> (1 :: nat) \<le> 0" using st 0 unfolding staged_ok_def Let_def by blast
  then show ?case unfolding sres_def d stval.simps by (intro desc_val_no_in) simp
next
  case (Suc j)
  let ?q = "prev_pid c p" and ?t = "l * (2 * J) + (2 * Suc j + s)"
  have d: "staged J L SD p ?t = SD p l (Suc j) s" using Suc.prems by (intro staged_at(1))
  have q: "?q \<in> P" "l < L ?q" using prev Suc.prems st by (auto simp: staged_ok_def)
  show ?case
  proof (cases "desc_in (SD p l (Suc j) s)")
    case True
    have "desc_in (SD p l (Suc j) s) \<longrightarrow> desc_out (SD ?q l (Suc j - 1) s)"
      using st Suc.prems unfolding staged_ok_def Let_def by blast
    then have out: "desc_out (SD ?q l j s)" using True by simp
    have t2: "?t - 2 = l * (2 * J) + (2 * j + s)" "\<not> ?t < 2" by simp_all
    have dq: "staged J L SD ?q (l * (2 * J) + (2 * j + s)) = SD ?q l j s" using q Suc.prems by (intro staged_at(1)) auto
    have "sin c m0 (staged J L SD) p ?t = smsg c m0 (staged J L SD) ?q (l * (2 * J) + (2 * j + s))"
      by (simp only: sin_def t2 if_False)
    also have "\<dots> = sres c m0 (staged J L SD) ?q (l * (2 * J) + (2 * j + s))"
      using out dq by (simp add: smsg_sin sres_def)
    also have "\<dots> = stval c m0 SD ?q l j s" using Suc.IH[OF q] Suc.prems by simp
    finally show ?thesis by (simp only: sres_def d stval.simps)
  next
    case False
    then show ?thesis unfolding sres_def d stval.simps by (rule desc_val_no_in)
  qed
qed

section \<open>The contract\<close>

text \<open>The program of a staged block: all slices of all loops, then the store of the base steps.\<close>

definition staged_program ::
  "'t kcfg \<Rightarrow> nat \<Rightarrow> (pid \<Rightarrow> nat) \<Rightarrow> (pid \<Rightarrow> nat \<Rightarrow> nat \<Rightarrow> nat \<Rightarrow> sdesc) \<Rightarrow> pid \<Rightarrow> kop list" where
  "staged_program c J L SD p =
     concat (concat (map (\<lambda>l. concat (map (\<lambda>j. map (\<lambda>s. desc_ops c (SD p l j s)) [0..<2]) [0..<J])) [0..<L p])) @
     (if L p = 0 then [] else [Store_base_steps])"

lemma concat_staged_program:
  assumes "L p * (2 * J) < T"
  shows "concat (map (\<lambda>t. desc_ops c (staged J L SD p t)) [0..<T]) = staged_program c J L SD p"
proof (cases "L p = 0")
  case True
  then show ?thesis by (simp only: concat_staged_empty staged_program_def) simp
next
  case False
  then show ?thesis using assms by (simp add: concat_staged_end concat_staged staged_program_def)
qed

text \<open>The base steps are stored by the last operation of a non-empty program.\<close>

definition based :: "proc \<Rightarrow> bool" where
  "based pr \<longleftrightarrow> (if prog pr = [] then send_base_step pr = send_step pr \<and> recv_base_step pr = recv_step pr
                 else last (prog pr) = Store_base_steps)"

lemma based_kstep:
  assumes "based (procs s p)"
  shows "based (procs (kstep c x s) p)"
proof (cases "x = p")
  case True
  show ?thesis
  proof (cases "prog (procs s p)")
    case Nil
    then show ?thesis using assms True by (simp add: kstep_def)
  next
    case (Cons opr rest)
    show ?thesis
      using assms True Cons
      by (cases opr; cases rest)
         (auto simp: based_def kstep_def Let_def set_proc_def set_edge_def wait_send_credit_def
          wait_recv_ready_def wait_recv_ready_and_send_credit_def)
  qed
qed (use assms in \<open>simp add: kstep_other\<close>)

lemma based_run: "based (procs s p) \<Longrightarrow> based (procs (run c sched s) p)"
  by (induction sched arbitrary: s) (auto simp: run_def based_kstep)

lemma based_launch:
  assumes "concat P = staged_program c J L SD p"
  shows "based (launch P pr)"
  using assms by (auto simp: based_def launch_def staged_program_def)

lemma finite_grid: "finite (grid c)"
  by (simp add: grid_def)

locale ring_collective =
  fixes valid :: "'t kcfg \<Rightarrow> bool"
    and prog_of :: "'t kcfg \<Rightarrow> pid \<Rightarrow> kop list list option"
    and region :: "'t kcfg \<Rightarrow> pid \<Rightarrow> nat set"
    and stages :: "'t kcfg \<Rightarrow> nat"
    and loops :: "'t kcfg \<Rightarrow> pid \<Rightarrow> nat"
    and slice :: "'t kcfg \<Rightarrow> pid \<Rightarrow> nat \<Rightarrow> nat \<Rightarrow> nat \<Rightarrow> sdesc"
  assumes valid_cfg: "valid c \<Longrightarrow> cfg_ok c"
    and valid_staged: "valid c \<Longrightarrow> staged_ok c (grid c) (region c) (stages c) (loops c) (slice c)"
    and valid_layout: "valid c \<Longrightarrow> region_layout c (region c)"
    and valid_program: "valid c \<Longrightarrow> p \<in> grid c \<Longrightarrow>
      \<exists>P. prog_of c p = Some P \<and> concat P = staged_program c (stages c) (loops c) (slice c) p"
begin

abbreviation "horizon c \<equiv> Suc (Max ((\<lambda>p. loops c p * (2 * stages c)) ` grid c))"

abbreviation "sys c base m0 \<equiv>
  desc_sys c (grid c) (region c) (horizon c) (staged (stages c) (loops c) (slice c)) base m0"

lemma horizon_bound: "p \<in> grid c \<Longrightarrow> loops c p * (2 * stages c) < horizon c"
  by (rule le_imp_less_Suc, rule Max_ge) (auto simp: finite_grid)

lemma sys_desc_ok:
  assumes v: "valid c"
  shows "desc_ok c (grid c) (region c) (horizon c) (staged (stages c) (loops c) (slice c))"
  using v valid_cfg[OF v] grid_ring[of c] horizon_bound
  by (intro staged_desc_ok valid_staged) (auto simp: cfg_ok_def)

lemma sys_ok: "valid c \<Longrightarrow> ring_ok (sys c base m0)"
  using desc_ring_ok[OF valid_cfg sys_desc_ok, of c base m0] valid_layout by (simp add: rs_layout_iff)

lemma sys_init:
  assumes v: "valid c" and q: "quiescent c s"
  shows "ring_init (sys c (\<lambda>p. send_base_step (procs s p)) (net_mem s)) (launch_all c (prog_of c) s)"
proof -
  have n: "2 \<le> kc_nranks c" using valid_cfg[OF v] by (simp add: cfg_ok_def)
  have pr: "concat (the (prog_of c p)) =
      concat (map (\<lambda>t. desc_ops c (staged (stages c) (loops c) (slice c) p t)) [0..<horizon c])" if p: "p \<in> grid c" for p
    using valid_program[OF v p] concat_staged_program[of "loops c" p "stages c" "horizon c" c "slice c"] horizon_bound[OF p]
    by auto
  have rb: "recv_base_step (procs s p) = send_base_step (procs s (prev_pid c p))" if p: "p \<in> grid c" for p
  proof -
    have "prev_pid c p \<in> grid c" "next_pid c (prev_pid c p) = p" using grid_ring[OF n p] by auto
    with q show ?thesis unfolding quiescent_def by metis
  qed
  show ?thesis using pr rb q unfolding ring_init_def desc_sys_simps
    by (simp add: quiescent_def launch_all_def launch_def)
qed

lemma sys_reach:
  assumes v: "valid c" and q: "quiescent c s" and sched: "set sched \<subseteq> grid c"
  shows "\<exists>G. rinv (sys c (\<lambda>p. send_base_step (procs s p)) (net_mem s)) G (run c sched (launch_all c (prog_of c) s))"
  using rinv_init[OF sys_ok[OF v] sys_init[OF v q]] rinv_run[OF sys_ok[OF v]] sched by force

text \<open>No reachable state is stuck: while a block is unfinished, some block's next operation can complete.\<close>

lemma no_deadlock:
  assumes v: "valid c" and q: "quiescent c s" and sched: "set sched \<subseteq> grid c"
    and nf: "\<not> finished c (run c sched (launch_all c (prog_of c) s))"
  shows "\<exists>p\<in>grid c. prog (procs (run c sched (launch_all c (prog_of c) s)) p) \<noteq> [] \<and>
           able c (run c sched (launch_all c (prog_of c) s)) p"
proof -
  obtain G where G: "rinv (sys c (\<lambda>p. send_base_step (procs s p)) (net_mem s)) G (run c sched (launch_all c (prog_of c) s))"
    using sys_reach[OF v q sched] by blast
  obtain p where "p \<in> grid c" "prog (procs (run c sched (launch_all c (prog_of c) s)) p) \<noteq> []"
    using nf unfolding finished_def by blast
  then show ?thesis using ring_progress[OF sys_ok[OF v] G, of p] by simp
qed

text \<open>Every fair run finishes, within as many rounds as there are operations.\<close>

lemma fair_run_finishes:
  assumes v: "valid c" and q: "quiescent c s" and rs: "\<forall>r\<in>set rounds. fair c r"
    and len: "ops_total c (prog_of c) \<le> length rounds"
  shows "finished c (run c (concat rounds) (launch_all c (prog_of c) s))"
proof -
  let ?S = "sys c (\<lambda>p. send_base_step (procs s p)) (net_mem s)"
  obtain G where G: "rinv ?S G (launch_all c (prog_of c) s)"
    using rinv_init[OF sys_ok[OF v] sys_init[OF v q]] by blast
  have "ops_left ?S (launch_all c (prog_of c) s) = ops_total c (prog_of c)"
    by (simp add: ops_left_def ops_total_def launch_all_def launch_def)
  moreover have "\<forall>r\<in>set rounds. fair_round ?S r" using rs by (simp add: fair_def fair_round_def)
  ultimately have "ops_left ?S (run c (concat rounds) (launch_all c (prog_of c) s)) = 0"
    using rounds_finish[OF sys_ok[OF v] G, of rounds] len by simp
  then show ?thesis using finite_grid[of c] by (simp add: ops_left_def finished_def)
qed

text \<open>A finished run: every destination holds the value of its slice, other cells of the part are
  untouched, and the edges are quiet, so the next collective can start.\<close>

lemma finished_memory:
  assumes v: "valid c" and q: "quiescent c s" and sched: "set sched \<subseteq> grid c"
    and s': "s' = run c sched (launch_all c (prog_of c) s)" and fin: "finished c s'"
    and p: "p \<in> grid c" "l < loops c p" "j < stages c" "x < 2"
    and w: "desc_writes (slice c p l j x)" "i < desc_width (slice c p l j x)"
  shows "net_mem s' (desc_dst (slice c p l j x) + i) = stval c (net_mem s) (slice c) p l j x ! i"
proof -
  let ?S = "sys c (\<lambda>p. send_base_step (procs s p)) (net_mem s)"
  let ?D = "staged (stages c) (loops c) (slice c)"
  let ?t = "l * (2 * stages c) + (2 * j + x)"
  have n: "2 \<le> kc_nranks c" using valid_cfg[OF v] by (simp add: cfg_ok_def)
  obtain G where G: "rinv ?S G s'" using sys_reach[OF v q sched] s' by blast
  have mem: "\<forall>a\<in>region c p. net_mem s' a = smm c (net_mem s) ?D p (horizon c) a"
    using ring_final(1)[OF sys_ok[OF v] G, of p] fin p(1) desc_quiet[OF sys_desc_ok[OF v]] by (simp add: finished_def)
  have d: "?D p ?t = slice c p l j x" using p(2-4) by (intro staged_at(1))
  have lt: "?t < horizon c" using staged_at(2)[of l "loops c" p j "stages c" x] p horizon_bound[OF p(1)] by simp
  have "rng (desc_dst (slice c p l j x)) (desc_width (slice c p l j x)) \<subseteq> region c p"
    using sys_desc_ok[OF v] p(1) lt w(1) d unfolding desc_ok_def by metis
  then have "net_mem s' (desc_dst (slice c p l j x) + i) = smm c (net_mem s) ?D p (horizon c) (desc_dst (slice c p l j x) + i)"
    using mem rng_mem[OF w(2)] by blast
  also have "\<dots> = sres c (net_mem s) ?D p ?t ! i"
    using smm_written[OF sys_desc_ok[OF v] p(1) lt order.refl, of i] w d by simp
  also have "\<dots> = stval c (net_mem s) (slice c) p l j x ! i"
    using sres_stval[OF valid_staged[OF v] grid_ring(2)[OF n] p] by simp
  finally show ?thesis .
qed

lemma finished_untouched:
  assumes v: "valid c" and q: "quiescent c s" and sched: "set sched \<subseteq> grid c"
    and s': "s' = run c sched (launch_all c (prog_of c) s)" and fin: "finished c s'"
    and p: "p \<in> grid c" and a: "a \<in> region c p"
    and nw: "\<And>l j x. l < loops c p \<Longrightarrow> j < stages c \<Longrightarrow> x < 2 \<Longrightarrow> desc_writes (slice c p l j x) \<Longrightarrow>
       a \<notin> rng (desc_dst (slice c p l j x)) (desc_width (slice c p l j x))"
  shows "net_mem s' a = net_mem s a"
proof -
  let ?S = "sys c (\<lambda>p. send_base_step (procs s p)) (net_mem s)"
  let ?D = "staged (stages c) (loops c) (slice c)"
  obtain G where G: "rinv ?S G s'" using sys_reach[OF v q sched] s' by blast
  have "net_mem s' a = smm c (net_mem s) ?D p (horizon c) a"
    using ring_final(1)[OF sys_ok[OF v] G, of p] fin p a desc_quiet[OF sys_desc_ok[OF v]] by (simp add: finished_def)
  also have "\<dots> = net_mem s a"
  proof (rule smm_unwritten)
    fix t assume w: "desc_writes (?D p t)"
    then have "t < loops c p * (2 * stages c)" using staged_outside[of "loops c" p "stages c" t "slice c"] by (meson leI)
    then obtain l j x where lj: "l < loops c p" "j < stages c" "x < 2" "t = l * (2 * stages c) + (2 * j + x)" by (rule staged_decode)
    then have "?D p t = slice c p l j x" using staged_at(1)[of l "loops c" p j "stages c" x "slice c"] by simp
    with nw[OF lj(1-3)] w show "a \<notin> rng (desc_dst (?D p t)) (desc_width (?D p t))" by simp
  qed
  finally show ?thesis .
qed

lemma finished_quiescent:
  assumes v: "valid c" and q: "quiescent c s" and sched: "set sched \<subseteq> grid c"
    and s': "s' = run c sched (launch_all c (prog_of c) s)" and fin: "finished c s'"
  shows "quiescent c s'"
  unfolding quiescent_def
proof
  fix p assume p: "p \<in> grid c"
  let ?S = "sys c (\<lambda>p. send_base_step (procs s p)) (net_mem s)"
  have n: "2 \<le> kc_nranks c" using valid_cfg[OF v] by (simp add: cfg_ok_def)
  obtain G where G: "rinv ?S G s'" using sys_reach[OF v q sched] s' by blast
  have based: "based (procs s' x)" if x: "x \<in> grid c" for x
  proof -
    obtain P where "prog_of c x = Some P" "concat P = staged_program c (stages c) (loops c) (slice c) x"
      using valid_program[OF v x] by blast
    then have "based (procs (launch_all c (prog_of c) s) x)" using x based_launch[of P c "stages c" "loops c" "slice c" x] by (simp add: launch_all_def)
    then show ?thesis unfolding s' by (rule based_run)
  qed
  note F = ring_final[OF sys_ok[OF v] G, of p]
  have np: "next_pid c p \<in> grid c" using grid_ring[OF n p] by simp
  have b: "send_base_step (procs s' p) = send_step (procs s' p)" "recv_base_step (procs s' (next_pid c p)) = recv_step (procs s' (next_pid c p))"
    using based[OF p] based[OF np] fin p np by (auto simp: based_def finished_def)
  show "recv_base_step (procs s' (next_pid c p)) = send_base_step (procs s' p) \<and>
     e_head (edges s' p) = send_base_step (procs s' p) \<and> e_tail (edges s' p) = send_base_step (procs s' p)"
    using F(3-5) fin p b desc_quiet[OF sys_desc_ok[OF v]] by (simp add: finished_def)
qed

end

end
