(* ===== verification/Ring_Parts.thy ===== *)
theory Ring_Parts
  imports Ring_Collective
begin

text \<open>
  The loops, chunks and slices of a channel part: the outer loops of the kernels end, their
  rounds tile the part, the chunks of a round and the slices of a chunk tile the round, and no
  slice is larger than a FIFO slot.
\<close>

section \<open>Rounds of the outer loop\<close>

text \<open>\<open>ls\<close> is a sequence of rounds of \<open>n\<close> chunks each, from offset \<open>e\<close> to the end of the part.\<close>

fun chain :: "nat \<Rightarrow> nat \<Rightarrow> nat \<Rightarrow> nat \<Rightarrow> (nat \<times> nat) list \<Rightarrow> bool" where
  "chain n pc slot e [] \<longleftrightarrow> pc \<le> e"
| "chain n pc slot e ((e', lc) # ls) \<longleftrightarrow>
     e' = e \<and> e < pc \<and> 0 < lc \<and> lc \<le> slot \<and> chain n pc slot (e + n * lc) ls"

lemma chain_nth:
  assumes "chain n pc slot e ls" "k < length ls"
  shows "e \<le> fst (ls ! k) \<and> fst (ls ! k) < pc \<and> 0 < snd (ls ! k) \<and> snd (ls ! k) \<le> slot"
  using assms
proof (induction ls arbitrary: e k)
  case (Cons x ls)
  obtain e' lc where x: "x = (e', lc)" by (cases x)
  show ?case
  proof (cases k)
    case 0
    then show ?thesis using Cons.prems x by simp
  next
    case (Suc k')
    then have "e + n * lc \<le> fst (ls ! k') \<and> fst (ls ! k') < pc \<and> 0 < snd (ls ! k') \<and> snd (ls ! k') \<le> slot"
      using Cons.IH[of "e + n * lc" k'] Cons.prems x by simp
    then show ?thesis using Suc by simp
  qed
qed simp

lemma chain_sep:
  assumes "chain n pc slot e ls" "k < k'" "k' < length ls"
  shows "fst (ls ! k) + n * snd (ls ! k) \<le> fst (ls ! k')"
  using assms
proof (induction ls arbitrary: e k k')
  case (Cons x ls)
  obtain e' lc where x: "x = (e', lc)" by (cases x)
  obtain m where m: "k' = Suc m" using Cons.prems by (cases k') auto
  show ?case
  proof (cases k)
    case 0
    have "e + n * lc \<le> fst (ls ! m)" using chain_nth[of n pc slot "e + n * lc" ls m] Cons.prems x m by simp
    then show ?thesis using 0 Cons.prems x m by simp
  next
    case (Suc k0)
    then show ?thesis using Cons.IH[of "e + n * lc" k0 m] Cons.prems x m by simp
  qed
qed simp

lemma chain_cover:
  assumes "chain n pc slot e ls" "e \<le> i" "i < pc"
  shows "\<exists>k<length ls. fst (ls ! k) \<le> i \<and> i < fst (ls ! k) + n * snd (ls ! k)"
  using assms
proof (induction ls arbitrary: e)
  case (Cons x ls)
  obtain e' lc where x: "x = (e', lc)" by (cases x)
  show ?case
  proof (cases "i < e + n * lc")
    case True
    then show ?thesis using Cons.prems x by (intro exI[of _ 0]) simp
  next
    case False
    then obtain k where "k < length ls" "fst (ls ! k) \<le> i" "i < fst (ls ! k) + n * snd (ls ! k)"
      using Cons.IH[of "e + n * lc"] Cons.prems x by auto
    then show ?thesis by (intro exI[of _ "Suc k"]) simp
  qed
qed simp

lemma chain_empty: "chain n pc slot 0 ls \<Longrightarrow> 0 < pc \<Longrightarrow> ls \<noteq> []"
  by (cases ls) auto

text \<open>The loop of the AllReduce kernel ends.\<close>

lemma ar_loop_chunk_bounds:
  assumes "0 < n" "0 < slot" "vector_elems dt dvd slot" "0 < cc" "0 < rem"
  shows "0 < ar_loop_chunk n dt slot cc rem" "ar_loop_chunk n dt slot cc rem \<le> slot"
proof -
  let ?lc = "loop_chunk_elems cc slot"
  have lc: "0 < ?lc" "?lc \<le> slot" using assms by (auto simp: loop_chunk_elems_def)
  have v: "kVectorBytes div sizeof dt = vector_elems dt" by (simp add: vector_elems_def)
  have "div_up rem n \<le> align_up (div_up rem n) (vector_elems dt)" by (rule align_up_ge) simp
  moreover have "0 < div_up rem n" using assms by (intro div_up_pos)
  moreover have "align_up (div_up rem n) (vector_elems dt) \<le> slot" if "rem < n * ?lc"
  proof (rule align_up_le_multiple[OF _ assms(3)])
    have "div_up rem n \<le> ?lc" using that assms(1) by (simp add: div_up_le_iff mult.commute less_imp_le)
    then show "div_up rem n \<le> slot" using lc by simp
  qed simp
  ultimately show "0 < ar_loop_chunk n dt slot cc rem" "ar_loop_chunk n dt slot cc rem \<le> slot"
    using lc by (auto simp: ar_loop_chunk_def Let_def v)
qed

lemma ar_loops_chain:
  assumes "0 < n" "0 < slot" "vector_elems dt dvd slot" "0 < cc"
  shows "\<exists>ls. ar_loops n dt slot pc cc e = Some ls \<and> chain n pc slot e ls"
proof (induction "pc - e" arbitrary: e rule: less_induct)
  case less
  show ?case
  proof (cases "e < pc")
    case True
    let ?lc = "ar_loop_chunk n dt slot cc (pc - e)"
    have lc: "0 < ?lc" "?lc \<le> slot" using ar_loop_chunk_bounds[OF assms, of "pc - e"] True by simp_all
    then have "0 < n * ?lc" using assms(1) by simp
    then have "pc - (e + n * ?lc) < pc - e" using True by linarith
    from less[OF this] obtain ls where "ar_loops n dt slot pc cc (e + n * ?lc) = Some ls" "chain n pc slot (e + n * ?lc) ls" by blast
    then show ?thesis using True lc by (subst ar_loops.simps) (simp add: Let_def)
  next
    case False
    then show ?thesis by (subst ar_loops.simps) simp
  qed
qed

text \<open>So does the loop of the two other kernels; there a round never passes the end of the part.\<close>

lemma part_loops_chain:
  assumes "0 < slot"
  shows "\<exists>ls. part_loops slot pc e = Some ls \<and> chain 1 pc slot e ls \<and> (\<forall>x\<in>set ls. fst x + snd x \<le> pc)"
proof (induction "pc - e" arbitrary: e rule: less_induct)
  case less
  show ?case
  proof (cases "e < pc")
    case True
    let ?w = "if pc - e < slot then pc - e else slot"
    have w: "0 < ?w" "?w \<le> slot" "e + ?w \<le> pc" using True assms by auto
    then have "pc - (e + ?w) < pc - e" using True by linarith
    from less[OF this] obtain ls where "part_loops slot pc (e + ?w) = Some ls" "chain 1 pc slot (e + ?w) ls"
      "\<forall>x\<in>set ls. fst x + snd x \<le> pc" by blast
    then show ?thesis using True w by (subst part_loops.simps) (simp add: Let_def)
  next
    case False
    then show ?thesis by (subst part_loops.simps) simp
  qed
qed

section \<open>Slices of a chunk\<close>

lemma slice_work_eq:
  "slice_work c n s = (s * slice_elems (kc_dt c) n (kc_step_elems c),
     min (slice_elems (kc_dt c) n (kc_step_elems c)) (n - s * slice_elems (kc_dt c) n (kc_step_elems c)))"
  by (auto simp: slice_work_def Let_def nelem_eq)

lemma slice_tile:
  assumes "y < n"
  shows "\<exists>s<2. fst (slice_work c n s) \<le> y \<and> y < fst (slice_work c n s) + snd (slice_work c n s)"
proof -
  let ?ss = "slice_elems (kc_dt c) n (kc_step_elems c)"
  have cov: "n \<le> 2 * ?ss" by (rule slice_elems_covers)
  show ?thesis
  proof (cases "y < ?ss")
    case True
    with assms show ?thesis by (intro exI[of _ 0]) (simp add: slice_work_eq)
  next
    case False
    with assms cov show ?thesis by (intro exI[of _ 1]) (simp add: slice_work_eq)
  qed
qed

lemma slice_unique:
  assumes "fst (slice_work c n s) \<le> y" "y < fst (slice_work c n s) + snd (slice_work c n s)"
    "fst (slice_work c n s') \<le> y" "y < fst (slice_work c n s') + snd (slice_work c n s')"
  shows "s = s'"
proof -
  let ?ss = "slice_elems (kc_dt c) n (kc_step_elems c)"
  have a: "s * ?ss \<le> y" "y < s * ?ss + ?ss" "s' * ?ss \<le> y" "y < s' * ?ss + ?ss"
    using assms by (auto simp: slice_work_eq)
  then have "0 < ?ss" by linarith
  have "y div ?ss = s" using a(1,2) by (intro div_nat_eqI) (simp_all add: mult.commute add.commute)
  moreover have "y div ?ss = s'" using a(3,4) by (intro div_nat_eqI) (simp_all add: mult.commute add.commute)
  ultimately show ?thesis by simp
qed

lemma slice_bound: "fst (slice_work c n s) + snd (slice_work c n s) \<le> n \<or> snd (slice_work c n s) = 0"
  by (auto simp: slice_work_eq)

section \<open>Cells of a part\<close>

text \<open>First index and width of slice \<open>s\<close> of chunk \<open>k\<close> of round \<open>(e, lc)\<close>, relative to the part.\<close>

definition cell :: "'t kcfg \<Rightarrow> nat \<Rightarrow> nat \<times> nat \<Rightarrow> nat \<Rightarrow> nat \<Rightarrow> nat \<times> nat" where
  "cell c pc = (\<lambda>(e, lc) k s. case slice_work c (nelem lc (pc - e) (k * lc)) s of (off, w) \<Rightarrow> (e + k * lc + off, w))"

definition in_cell :: "nat \<times> nat \<Rightarrow> nat \<Rightarrow> bool" where
  "in_cell x i \<longleftrightarrow> fst x \<le> i \<and> i < fst x + snd x"

lemma in_cell_decode:
  assumes "in_cell (cell c pc (e, lc) k s) i"
  shows "e + k * lc \<le> i" "i < e + k * lc + lc" "i < pc"
    "fst (slice_work c (nelem lc (pc - e) (k * lc)) s) \<le> i - (e + k * lc)"
    "i - (e + k * lc) < fst (slice_work c (nelem lc (pc - e) (k * lc)) s) + snd (slice_work c (nelem lc (pc - e) (k * lc)) s)"
proof -
  let ?n = "nelem lc (pc - e) (k * lc)"
  obtain off w where sw: "slice_work c ?n s = (off, w)" by (cases "slice_work c ?n s")
  have i: "e + k * lc + off \<le> i" "i < e + k * lc + off + w" using assms sw by (auto simp: in_cell_def cell_def)
  then have "off + w \<le> ?n" using slice_bound[of c ?n s] sw by auto
  then show "e + k * lc \<le> i" "i < e + k * lc + lc" "i < pc"
    using i nelem_le[of lc "pc - e" "k * lc"] by auto
  show "fst (slice_work c ?n s) \<le> i - (e + k * lc)" "i - (e + k * lc) < fst (slice_work c ?n s) + snd (slice_work c ?n s)"
    using i sw by auto
qed

lemma cell_unique:
  assumes ch: "chain n pc slot 0 ls" and l: "l < length ls" "l' < length ls" and k: "k < n" "k' < n"
    and i: "in_cell (cell c pc (ls ! l) k s) i" "in_cell (cell c pc (ls ! l') k' s') i"
  shows "l = l' \<and> k = k' \<and> s = s'"
proof -
  obtain e lc e' lc' where ls: "ls ! l = (e, lc)" "ls ! l' = (e', lc')" by (cases "ls ! l"; cases "ls ! l'") auto
  have pos: "0 < lc" "0 < lc'" using chain_nth[OF ch l(1)] chain_nth[OF ch l(2)] ls by auto
  note d = in_cell_decode[OF i(1)[unfolded ls]] and d' = in_cell_decode[OF i(2)[unfolded ls]]
  have kl: "k * lc + lc \<le> n * lc" "k' * lc' + lc' \<le> n * lc'"
    using k mult_le_mono1[of "Suc k" n lc] mult_le_mono1[of "Suc k'" n lc'] by auto
  have ll: "l = l'"
  proof (rule ccontr)
    assume "l \<noteq> l'"
    then consider "l < l'" | "l' < l" by linarith
    then show False
      using chain_sep[OF ch, of l l'] chain_sep[OF ch, of l' l] l ls d(1,2) d'(1,2) kl by cases auto
  qed
  then have e: "e' = e" "lc' = lc" using ls by auto
  have "(i - e) div lc = k" using d(1,2) by (intro div_nat_eqI) (auto simp: mult.commute)
  moreover have "(i - e) div lc = k'" using d'(1,2) e by (intro div_nat_eqI) (auto simp: mult.commute)
  ultimately have kk: "k = k'" by simp
  then have "s = s'" using slice_unique[OF d(4,5)] d'(4,5) e by simp
  with ll kk show ?thesis by simp
qed

lemma cell_cover:
  assumes ch: "chain n pc slot 0 ls" and i: "i < pc"
  shows "\<exists>l k s. l < length ls \<and> k < n \<and> s < 2 \<and> in_cell (cell c pc (ls ! l) k s) i"
proof -
  obtain l where l: "l < length ls" "fst (ls ! l) \<le> i" "i < fst (ls ! l) + n * snd (ls ! l)"
    using chain_cover[OF ch _ i] by auto
  obtain e lc where ls: "ls ! l = (e, lc)" by (cases "ls ! l")
  have lc: "0 < lc" using chain_nth[OF ch l(1)] ls by simp
  define k where "k = (i - e) div lc"
  have k: "k < n" using l ls lc by (simp add: k_def div_less_iff_less_mult less_diff_conv2 add.commute)
  have b: "k * lc \<le> i - e" "i - e < k * lc + lc"
    using dividend_less_div_times[OF lc, of "i - e"] by (simp_all add: k_def add.commute)
  have y: "i - e - k * lc < nelem lc (pc - e) (k * lc)" using b i l ls by (auto simp: nelem_eq)
  then obtain s where s: "s < 2" "fst (slice_work c (nelem lc (pc - e) (k * lc)) s) \<le> i - e - k * lc"
    "i - e - k * lc < fst (slice_work c (nelem lc (pc - e) (k * lc)) s) + snd (slice_work c (nelem lc (pc - e) (k * lc)) s)"
    using slice_tile by blast
  have "in_cell (cell c pc (ls ! l) k s) i"
    using s b l ls by (auto simp: in_cell_def cell_def split: prod.splits)
  with l k s show ?thesis by blast
qed

lemma cell_width:
  assumes ch: "chain n pc slot 0 ls" and l: "l < length ls"
  shows "snd (cell c pc (ls ! l) k s) \<le> slot"
proof -
  obtain e lc where ls: "ls ! l = (e, lc)" by (cases "ls ! l")
  have "snd (slice_work c (nelem lc (pc - e) (k * lc)) s) \<le> nelem lc (pc - e) (k * lc)"
    by (simp add: slice_work_eq)
  also have "\<dots> \<le> lc" by (rule nelem_le)
  also have "lc \<le> slot" using chain_nth[OF ch l] ls by simp
  finally show ?thesis using ls by (auto simp: cell_def split: prod.splits)
qed

text \<open>The slice of a primitive, as a cell.\<close>

lemma prim_cell:
  assumes "cell c pc (e, lc) k s = (start, w)"
  shows "prim c kd (a + (po + e + k * lc)) (b + (po + e + k * lc)) (nelem lc (pc - e) (k * lc)) s =
         (if w = 0 then (K_idle, 0, 0, 0) else (kd, a + (po + start), b + (po + start), w))"
  using assms by (auto simp: prim_def cell_def add.assoc split: prod.splits)

section \<open>Regions\<close>

text \<open>The cells of a block: its part of its rank's input and output buffers.\<close>

definition image_region :: "'t kcfg \<Rightarrow> (nat \<Rightarrow> nat set) \<Rightarrow> (nat \<Rightarrow> nat set) \<Rightarrow> pid \<Rightarrow> nat set" where
  "image_region c A B = (\<lambda>(r, ch). (\<lambda>i. kc_input c r + i) ` A ch \<union> (\<lambda>i. kc_output c r + i) ` B ch)"

lemma image_in_rng: "X \<subseteq> {..<n} \<Longrightarrow> (\<lambda>i. a + i) ` X \<subseteq> rng a n"
  by (auto simp: rng_def)

lemma disjoint_shift: "X \<inter> Y = {} \<Longrightarrow> (\<lambda>i. a + i :: nat) ` X \<inter> (\<lambda>i. a + i) ` Y = {}"
  by auto

lemma buffers_okD:
  assumes "buffers_ok c il ol" "r < kc_nranks c" "r' < kc_nranks c"
  shows "rng (kc_input c r) il \<inter> rng (kc_output c r') ol = {}"
    "r \<noteq> r' \<Longrightarrow> rng (kc_input c r) il \<inter> rng (kc_input c r') il = {}"
    "r \<noteq> r' \<Longrightarrow> rng (kc_output c r) ol \<inter> rng (kc_output c r') ol = {}"
  using assms by (simp_all add: buffers_ok_def)

lemma buffers_ok_fifoD:
  assumes "buffers_ok c il ol" "p \<in> grid c"
  shows "r < kc_nranks c \<Longrightarrow> rng (kc_fifo c p) (8 * kc_slot_elems c) \<inter> rng (kc_input c r) il = {}"
    "r < kc_nranks c \<Longrightarrow> rng (kc_fifo c p) (8 * kc_slot_elems c) \<inter> rng (kc_output c r) ol = {}"
    "q \<in> grid c \<Longrightarrow> p \<noteq> q \<Longrightarrow> rng (kc_fifo c p) (8 * kc_slot_elems c) \<inter> rng (kc_fifo c q) (8 * kc_slot_elems c) = {}"
  using assms by (simp_all add: buffers_ok_def)

lemma image_region_layout:
  assumes buf: "buffers_ok c il ol"
    and A: "\<And>ch. ch < kc_channels c \<Longrightarrow> A ch \<subseteq> {..<il}" and B: "\<And>ch. ch < kc_channels c \<Longrightarrow> B ch \<subseteq> {..<ol}"
    and dis: "\<And>ch ch'. ch < kc_channels c \<Longrightarrow> ch' < kc_channels c \<Longrightarrow> ch \<noteq> ch' \<Longrightarrow> A ch \<inter> A ch' = {} \<and> B ch \<inter> B ch' = {}"
  shows "region_layout c (image_region c A B)"
  unfolding region_layout_def
proof (intro ballI conjI impI)
  fix p q assume pq: "p \<in> grid c" "q \<in> grid c"
  obtain r ch r' ch' where e: "p = (r, ch)" "q = (r', ch')" by (cases p; cases q)
  have b: "r < kc_nranks c" "ch < kc_channels c" "r' < kc_nranks c" "ch' < kc_channels c" using pq e by (auto simp: grid_def)
  note sub = image_in_rng[OF A[OF b(2)], of "kc_input c r"] image_in_rng[OF B[OF b(2)], of "kc_output c r"]
    image_in_rng[OF A[OF b(4)], of "kc_input c r'"] image_in_rng[OF B[OF b(4)], of "kc_output c r'"]
  have f: "rng (kc_fifo c p) (8 * kc_slot_elems c) \<inter> rng (kc_input c r') il = {}"
    "rng (kc_fifo c p) (8 * kc_slot_elems c) \<inter> rng (kc_output c r') ol = {}"
    using buffers_ok_fifoD[OF buf pq(1)] b by auto
  show "rng (kc_fifo c p) (8 * kc_slot_elems c) \<inter> image_region c A B q = {}"
    using f sub(3,4) by (auto simp: image_region_def e)
  assume ne: "p \<noteq> q"
  then show "rng (kc_fifo c p) (8 * kc_slot_elems c) \<inter> rng (kc_fifo c q) (8 * kc_slot_elems c) = {}"
    using buffers_ok_fifoD(3)[OF buf pq] by simp
  have io: "rng (kc_input c r) il \<inter> rng (kc_output c r') ol = {}" "rng (kc_input c r') il \<inter> rng (kc_output c r) ol = {}"
    using buffers_okD(1)[OF buf] b by auto
  have ii: "(\<lambda>i. kc_input c r + i) ` A ch \<inter> (\<lambda>i. kc_input c r' + i) ` A ch' = {}"
    "(\<lambda>i. kc_output c r + i) ` B ch \<inter> (\<lambda>i. kc_output c r' + i) ` B ch' = {}"
  proof -
    have "r \<noteq> r' \<Longrightarrow> rng (kc_input c r) il \<inter> rng (kc_input c r') il = {} \<and> rng (kc_output c r) ol \<inter> rng (kc_output c r') ol = {}"
      using buffers_okD(2,3)[OF buf] b by auto
    then show "(\<lambda>i. kc_input c r + i) ` A ch \<inter> (\<lambda>i. kc_input c r' + i) ` A ch' = {}"
      "(\<lambda>i. kc_output c r + i) ` B ch \<inter> (\<lambda>i. kc_output c r' + i) ` B ch' = {}"
      using sub dis[OF b(2,4)] ne e by (cases "r = r'"; fastforce)+
  qed
  show "image_region c A B p \<inter> image_region c A B q = {}"
  proof -
    have "(\<lambda>i. kc_input c r + i) ` A ch \<inter> (\<lambda>i. kc_output c r' + i) ` B ch' = {}" using io(1) sub(1,4) by blast
    moreover have "(\<lambda>i. kc_output c r + i) ` B ch \<inter> (\<lambda>i. kc_input c r' + i) ` A ch' = {}" using io(2) sub(2,3) by blast
    ultimately show ?thesis using ii unfolding image_region_def e by (simp add: Int_Un_distrib Int_Un_distrib2)
  qed
qed

section \<open>Staged descriptions whose kind depends on the stage only\<close>

definition uniform :: "(nat \<Rightarrow> skind) \<Rightarrow> (nat \<Rightarrow> nat \<Rightarrow> nat) \<Rightarrow> (nat \<Rightarrow> nat \<Rightarrow> nat) \<Rightarrow> (nat \<Rightarrow> nat \<Rightarrow> nat) \<Rightarrow> nat \<Rightarrow> nat \<Rightarrow> sdesc" where
  "uniform kd loc dst W j s = (if W j s = 0 then (K_idle, 0, 0, 0) else (kd j, loc j s, dst j s, W j s))"

lemma uniform_desc:
  "0 < W j s \<Longrightarrow> uniform kd loc dst W j s = (kd j, loc j s, dst j s, W j s)"
  "W j s = 0 \<Longrightarrow> uniform kd loc dst W j s = (K_idle, 0, 0, 0)"
  by (simp_all add: uniform_def)

lemma idle_desc [simp]:
  "\<not> desc_in (K_idle, x)" "\<not> desc_out (K_idle, x)" "\<not> desc_reads (K_idle, x)" "\<not> desc_writes (K_idle, x)"
  by (simp_all add: desc_defs)

lemma desc_sel [simp]: "desc_width (k, a, b, w) = w" "desc_loc (k, a, b, w) = a" "desc_dst (k, a, b, w) = b"
  by (simp_all add: desc_defs)

lemma uniform_flags:
  "desc_in (uniform kd loc dst W j s) \<longleftrightarrow> 0 < W j s \<and> desc_in (kd j, x)"
  "desc_out (uniform kd loc dst W j s) \<longleftrightarrow> 0 < W j s \<and> desc_out (kd j, x)"
  "desc_reads (uniform kd loc dst W j s) \<longleftrightarrow> 0 < W j s \<and> desc_reads (kd j, x)"
  "desc_writes (uniform kd loc dst W j s) \<longleftrightarrow> 0 < W j s \<and> desc_writes (kd j, x)"
  by (auto simp: uniform_def desc_defs)

lemma uniform_width [simp]: "desc_width (uniform kd loc dst W j s) = W j s"
  by (simp add: uniform_def)

lemma staged_okI:
  fixes kd :: "nat \<Rightarrow> skind" and loc dst W :: "pid \<Rightarrow> nat \<Rightarrow> nat \<Rightarrow> nat \<Rightarrow> nat"
  assumes J: "2 \<le> J" and L: "\<And>p. p \<in> P \<Longrightarrow> prev_pid c p \<in> P \<and> L (prev_pid c p) = L p"
    and SD: "\<And>p l j s. p \<in> P \<Longrightarrow> l < L p \<Longrightarrow> j < J \<Longrightarrow> s < 2 \<Longrightarrow> SD p l j s = uniform kd (loc p l) (dst p l) (W p l) j s"
    and kd: "\<And>j. j < J \<Longrightarrow> kd j \<noteq> K_end" "\<And>j. desc_in (kd j, 0, 0, 0) \<Longrightarrow> 0 < j"
      "\<And>j. Suc j < J \<Longrightarrow> desc_in (kd (Suc j), 0, 0, 0) \<longleftrightarrow> desc_out (kd j, 0, 0, 0)"
      "\<not> desc_out (kd (J - 1), 0, 0, 0)"
    and W: "\<And>p l j s. p \<in> P \<Longrightarrow> l < L p \<Longrightarrow> j < J \<Longrightarrow> s < 2 \<Longrightarrow> W p l j s \<le> kc_slot_elems c"
      "\<And>p l j s. p \<in> P \<Longrightarrow> l < L p \<Longrightarrow> Suc j < J \<Longrightarrow> s < 2 \<Longrightarrow> desc_in (kd (Suc j), 0, 0, 0) \<Longrightarrow>
         W (prev_pid c p) l j s = W p l (Suc j) s"
    and A: "\<And>p l j s. p \<in> P \<Longrightarrow> l < L p \<Longrightarrow> j < J \<Longrightarrow> s < 2 \<Longrightarrow> desc_reads (kd j, 0, 0, 0) \<Longrightarrow> 0 < W p l j s \<Longrightarrow>
         rng (loc p l j s) (W p l j s) \<subseteq> A p"
    and B: "\<And>p l j s. p \<in> P \<Longrightarrow> l < L p \<Longrightarrow> j < J \<Longrightarrow> s < 2 \<Longrightarrow> desc_writes (kd j, 0, 0, 0) \<Longrightarrow> 0 < W p l j s \<Longrightarrow>
         rng (dst p l j s) (W p l j s) \<subseteq> B p"
    and AB: "\<And>p. p \<in> P \<Longrightarrow> A p \<inter> B p = {}" and U: "\<And>p. p \<in> P \<Longrightarrow> U p = A p \<union> B p"
    and uniq: "\<And>p l j s l' j' s' a. p \<in> P \<Longrightarrow> l < L p \<Longrightarrow> j < J \<Longrightarrow> s < 2 \<Longrightarrow> l' < L p \<Longrightarrow> j' < J \<Longrightarrow> s' < 2 \<Longrightarrow>
         desc_writes (kd j, 0, 0, 0) \<Longrightarrow> desc_writes (kd j', 0, 0, 0) \<Longrightarrow>
         a \<in> rng (dst p l j s) (W p l j s) \<Longrightarrow> a \<in> rng (dst p l' j' s') (W p l' j' s') \<Longrightarrow> (l, j, s) = (l', j', s')"
  shows "staged_ok c P U J L SD"
proof -
  have loc: "rng (desc_loc (SD p l j s)) (desc_width (SD p l j s)) \<subseteq> A p"
    if p: "p \<in> P" "l < L p" "j < J" "s < 2" and r: "desc_reads (SD p l j s)" for p l j s
    using A[OF p] r by (auto simp: SD[OF p] uniform_flags[where x = "(0, 0, 0)"] uniform_desc)
  have dst: "rng (desc_dst (SD p l j s)) (desc_width (SD p l j s)) = rng (dst p l j s) (W p l j s)"
      "desc_writes (kd j, 0, 0, 0)"
    if p: "p \<in> P" "l < L p" "j < J" "s < 2" and r: "desc_writes (SD p l j s)" for p l j s
    using r by (auto simp: SD[OF p] uniform_flags[where x = "(0, 0, 0)"] uniform_desc)
  have dstB: "rng (desc_dst (SD p l j s)) (desc_width (SD p l j s)) \<subseteq> B p"
    if p: "p \<in> P" "l < L p" "j < J" "s < 2" and r: "desc_writes (SD p l j s)" for p l j s
    using B[OF p] r by (auto simp: SD[OF p] uniform_flags[where x = "(0, 0, 0)"] uniform_desc)
  show ?thesis
    unfolding staged_ok_def Let_def
  proof (intro conjI ballI allI impI)
    fix p assume p: "p \<in> P"
    show "L (prev_pid c p) = L p" using L[OF p] by simp
    fix l j s assume b: "l < L p" "j < J" "s < (2::nat)"
    note S = SD[OF p b] and q = L[OF p]
    show "0 < desc_width (SD p l j s)" "desc_width (SD p l j s) \<le> kc_slot_elems c" if "fst (SD p l j s) \<noteq> K_idle"
      using that W(1)[OF p b] unfolding S by (auto simp: uniform_def split: if_splits)
    show "fst (SD p l j s) \<noteq> K_end" using kd(1)[OF b(2)] unfolding S by (simp add: uniform_def)
    show "1 \<le> j" if "desc_in (SD p l j s)"
      using that kd(2)[of j] unfolding S by (auto simp: uniform_flags[where x = "(0, 0, 0)"])
    show "desc_out (SD (prev_pid c p) l (j - 1) s)" "desc_width (SD (prev_pid c p) l (j - 1) s) = desc_width (SD p l j s)"
      if i: "desc_in (SD p l j s)"
    proof -
      have k: "desc_in (kd j, 0, 0, 0)" "0 < W p l j s" using i unfolding S by (auto simp: uniform_flags[where x = "(0, 0, 0)"])
      obtain j0 where j: "j = Suc j0" using kd(2)[OF k(1)] by (cases j) auto
      have "SD (prev_pid c p) l j0 s = uniform kd (loc (prev_pid c p) l) (dst (prev_pid c p) l) (W (prev_pid c p) l) j0 s"
        using q b j by (intro SD) auto
      then show "desc_out (SD (prev_pid c p) l (j - 1) s)" "desc_width (SD (prev_pid c p) l (j - 1) s) = desc_width (SD p l j s)"
        using k j W(2)[OF p b(1), of j0 s] b kd(3)[of j0] unfolding S by (auto simp: uniform_flags[where x = "(0, 0, 0)"])
    qed
    show "j = 0 \<or> \<not> desc_out (SD (prev_pid c p) l (j - 1) s)" if i: "\<not> desc_in (SD p l j s)"
    proof (cases j)
      case (Suc j0)
      have "SD (prev_pid c p) l j0 s = uniform kd (loc (prev_pid c p) l) (dst (prev_pid c p) l) (W (prev_pid c p) l) j0 s"
        using q b Suc by (intro SD) auto
      then show ?thesis using i Suc W(2)[OF p b(1), of j0 s] b kd(3)[of j0] unfolding S
        by (auto simp: uniform_flags[where x = "(0, 0, 0)"])
    qed simp
    show "\<not> desc_out (SD p l j s)" if "Suc j = J"
    proof -
      have "j = J - 1" using that by simp
      then show ?thesis using kd(4) unfolding S by (simp add: uniform_flags[where x = "(0, 0, 0)"])
    qed
    show "rng (desc_loc (SD p l j s)) (desc_width (SD p l j s)) \<subseteq> U p" if "desc_reads (SD p l j s)"
      using loc[OF p b that] U[OF p] by blast
    show "rng (desc_dst (SD p l j s)) (desc_width (SD p l j s)) \<subseteq> U p" if "desc_writes (SD p l j s)"
      using dstB[OF p b that] U[OF p] by blast
    fix l' j' s' assume b': "l' < L p" "j' < J" "s' < (2::nat)"
    show "rng (desc_loc (SD p l j s)) (desc_width (SD p l j s)) \<inter> rng (desc_dst (SD p l' j' s')) (desc_width (SD p l' j' s')) = {}"
      if "desc_reads (SD p l j s) \<and> desc_writes (SD p l' j' s')"
      using loc[OF p b] dstB[OF p b'] AB[OF p] that by blast
    show "rng (desc_dst (SD p l j s)) (desc_width (SD p l j s)) \<inter> rng (desc_dst (SD p l' j' s')) (desc_width (SD p l' j' s')) = {}"
      if "(l, j, s) \<noteq> (l', j', s') \<and> desc_writes (SD p l j s) \<and> desc_writes (SD p l' j' s')"
      using uniq[OF p b b'] dst[OF p b] dst[OF p b'] that by blast
  qed (rule J)
qed

end
