(* ===== verification/All_Reduce.thy ===== *)
theory All_Reduce
  imports Ring_Parts
begin

text \<open>
  The AllReduce kernel as a staged ring collective: \<open>2 * nranks - 1\<close> stages per round, rank \<open>r\<close>
  working on chunk \<open>(r - 1 - j) mod nranks\<close> in stage \<open>j\<close>. The interpretation at the end
  discharges the contract of \<open>ring_collective\<close> for \<open>all_reduce_program\<close>.
\<close>

section \<open>Stages and chunks\<close>

definition ring_chunk :: "nat \<Rightarrow> nat \<Rightarrow> nat \<Rightarrow> nat" where
  "ring_chunk n r j = (r + 2 * n - 1 - j) mod n"

definition ar_kind :: "nat \<Rightarrow> nat \<Rightarrow> skind" where
  "ar_kind n j = (if j = 0 then K_send else if j < n - 1 then K_rrs else if j = n - 1 then K_rrcs
                  else if j < 2 * n - 2 then K_rcs else K_recv)"

definition ar_rounds :: "'t kcfg \<Rightarrow> nat \<Rightarrow> (nat \<times> nat) list" where
  "ar_rounds c ch = (case cbd_part (kc_nranks c) (kc_channels c) (kc_dt c) (kc_count c) ch of (po, pc, cc) \<Rightarrow>
     if pc = 0 \<or> cc = 0 then [] else the (ar_loops (kc_nranks c) (kc_dt c) (kc_slot_elems c) pc cc 0))"

definition ar_slice :: "'t kcfg \<Rightarrow> pid \<Rightarrow> nat \<Rightarrow> nat \<Rightarrow> nat \<Rightarrow> sdesc" where
  "ar_slice c = (\<lambda>(r, ch) l j s. case cbd_part (kc_nranks c) (kc_channels c) (kc_dt c) (kc_count c) ch of (po, pc, cc) \<Rightarrow>
     case ar_rounds c ch ! l of (e, lc) \<Rightarrow>
       let k = ring_chunk (kc_nranks c) r j in
       prim c (ar_kind (kc_nranks c) j) (kc_input c r + (po + e + k * lc)) (kc_output c r + (po + e + k * lc))
         (nelem lc (pc - e) (k * lc)) s)"

definition ar_part :: "'t kcfg \<Rightarrow> nat \<Rightarrow> nat set" where
  "ar_part c ch = part_range (cbd_part (kc_nranks c) (kc_channels c) (kc_dt c) (kc_count c) ch)"

definition ar_valid :: "'t kcfg \<Rightarrow> bool" where
  "ar_valid c \<longleftrightarrow> cfg_ok c \<and> 0 < kc_channels c \<and> 0 < kc_slot_elems c \<and> vector_elems (kc_dt c) dvd kc_slot_elems c \<and>
     buffers_ok c (kc_count c) (kc_count c)"

lemma ring_chunk_less: "0 < n \<Longrightarrow> ring_chunk n r j < n"
  by (simp add: ring_chunk_def)

lemma ring_chunk_prev:
  assumes "2 \<le> n" "r < n" "Suc j < 2 * n"
  shows "ring_chunk n ((r + n - 1) mod n) j = ring_chunk n r (Suc j)"
proof (cases "r = 0")
  case True
  have "n - 1 + 2 * n - 1 - j = (2 * n - 1 - Suc j) + n" using assms by simp
  then have "(n - 1 + 2 * n - 1 - j) mod n = (2 * n - 1 - Suc j) mod n" by (simp only: mod_add_self2)
  then show ?thesis using True assms by (simp add: ring_chunk_def)
next
  case False
  have "(r + n - 1) mod n = r - 1" using False assms by (simp add: mod_if)
  moreover have "r - 1 + 2 * n - 1 - j = r + 2 * n - 1 - Suc j" using False assms by simp
  ultimately show ?thesis by (simp only: ring_chunk_def)
qed

lemma ring_chunk_neq:
  assumes "2 \<le> n" "n - 1 \<le> j" "j < j'" "j' < 2 * n - 1"
  shows "ring_chunk n r j \<noteq> ring_chunk n r j'"
proof -
  have "r + 2 * n - 1 - j' < r + 2 * n - 1 - j" "r + 2 * n - 1 - j < r + 2 * n - 1 - j' + n"
    using assms by linarith+
  from mod_neq_close[OF this] show ?thesis unfolding ring_chunk_def by metis
qed

lemma ring_chunk_inj:
  assumes "2 \<le> n" "n - 1 \<le> j" "j < 2 * n - 1" "n - 1 \<le> j'" "j' < 2 * n - 1" "ring_chunk n r j = ring_chunk n r j'"
  shows "j = j'"
  using ring_chunk_neq[OF assms(1,2) _ assms(5), of r] ring_chunk_neq[OF assms(1,4) _ assms(3), of r] assms(6)
  by (metis linorder_neqE_nat)

lemma ring_chunk_surj:
  assumes "2 \<le> n" "r < n" "k < n"
  shows "\<exists>j. n - 1 \<le> j \<and> j < 2 * n - 1 \<and> ring_chunk n r j = k"
proof -
  define d where "d = (if k \<le> r then r - k else r + n - k)"
  have d: "d < n" using assms by (auto simp: d_def)
  have "r + 2 * n - 1 - (n - 1 + d) = (if k \<le> r then k + n else k)" using assms d by (auto simp: d_def)
  then have "ring_chunk n r (n - 1 + d) = k" using assms unfolding ring_chunk_def by (auto split: if_splits)
  with d assms show ?thesis by (intro exI[of _ "n - 1 + d"]) auto
qed

section \<open>The rounds of a channel\<close>

lemma ar_rounds_chain:
  assumes v: "ar_valid c" and ch: "ch < kc_channels c"
    and part: "cbd_part (kc_nranks c) (kc_channels c) (kc_dt c) (kc_count c) ch = (po, pc, cc)"
  shows "chain (kc_nranks c) pc (kc_slot_elems c) 0 (ar_rounds c ch)"
    and "0 < pc \<Longrightarrow> ar_loops (kc_nranks c) (kc_dt c) (kc_slot_elems c) pc cc 0 = Some (ar_rounds c ch)"
    and "pc = 0 \<longleftrightarrow> cc = 0" "pc = 0 \<Longrightarrow> ar_rounds c ch = []"
proof -
  have n: "0 < kc_nranks c" using v by (simp add: ar_valid_def cfg_ok_def)
  show z: "pc = 0 \<longleftrightarrow> cc = 0" using cbd_chunk_bounds(3)[OF part n] .
  have ex: "\<exists>ls. ar_loops (kc_nranks c) (kc_dt c) (kc_slot_elems c) pc cc 0 = Some ls \<and> chain (kc_nranks c) pc (kc_slot_elems c) 0 ls" if "0 < pc"
    using v n z that by (intro ar_loops_chain) (auto simp: ar_valid_def)
  show "pc = 0 \<Longrightarrow> ar_rounds c ch = []" by (simp add: ar_rounds_def part)
  show "0 < pc \<Longrightarrow> ar_loops (kc_nranks c) (kc_dt c) (kc_slot_elems c) pc cc 0 = Some (ar_rounds c ch)"
    using ex z by (auto simp: ar_rounds_def part)
  show "chain (kc_nranks c) pc (kc_slot_elems c) 0 (ar_rounds c ch)"
    using ex z by (cases "pc = 0") (auto simp: ar_rounds_def part)
qed

lemma cell_in_part:
  assumes "cell c pc (e, lc) k s = (start, w)" "0 < w"
  shows "start + w \<le> pc"
proof -
  have "in_cell (cell c pc (e, lc) k s) (start + w - 1)" using assms by (simp add: in_cell_def)
  from in_cell_decode(3)[OF this] assms(2) show ?thesis by simp
qed

lemma part_in_count:
  assumes "ch < kc_channels c" "cbd_part (kc_nranks c) (kc_channels c) (kc_dt c) (kc_count c) ch = (po, pc, cc)"
  shows "po + pc \<le> kc_count c"
proof -
  let ?b = "cbd_begin (kc_channels c) (kc_dt c) (kc_count c)"
  have "po = ?b ch" "pc = ?b (Suc ch) - ?b ch"
    using cbd_part_begin[OF assms(1), of "kc_nranks c" "kc_dt c" "kc_count c"] assms(2) by simp_all
  moreover have "?b ch \<le> ?b (Suc ch)" using assms(1) by (rule cbd_begin_mono_Suc)
  moreover have "?b (Suc ch) \<le> ?b (kc_channels c)"
    by (rule mono_upto[where n = "kc_channels c"]) (use assms(1) in \<open>simp_all add: cbd_begin_mono_Suc\<close>)
  ultimately show ?thesis by (simp add: cbd_begin_top)
qed

lemma rng_image_part:
  assumes "cbd_part (kc_nranks c) (kc_channels c) (kc_dt c) (kc_count c) ch = (po, pc, cc)" "start + w \<le> pc"
  shows "rng (a + (po + start)) w \<subseteq> (\<lambda>i. a + i) ` ar_part c ch"
proof
  fix x assume x: "x \<in> rng (a + (po + start)) w"
  then have "x = a + (x - a)" "x - a \<in> ar_part c ch"
    using assms by (auto simp: rng_def ar_part_def part_range_def)
  then show "x \<in> (\<lambda>i. a + i) ` ar_part c ch" by blast
qed

section \<open>Slices as cells\<close>

definition ar_off :: "'t kcfg \<Rightarrow> nat \<Rightarrow> nat" where
  "ar_off c ch = fst (cbd_part (kc_nranks c) (kc_channels c) (kc_dt c) (kc_count c) ch)"

definition ar_cnt :: "'t kcfg \<Rightarrow> nat \<Rightarrow> nat" where
  "ar_cnt c ch = fst (snd (cbd_part (kc_nranks c) (kc_channels c) (kc_dt c) (kc_count c) ch))"

definition ar_cell :: "'t kcfg \<Rightarrow> pid \<Rightarrow> nat \<Rightarrow> nat \<Rightarrow> nat \<Rightarrow> nat \<times> nat" where
  "ar_cell c = (\<lambda>(r, ch) l j s. cell c (ar_cnt c ch) (ar_rounds c ch ! l) (ring_chunk (kc_nranks c) r j) s)"

lemma ar_slice_uniform:
  "ar_slice c (r, ch) l j s =
     uniform (ar_kind (kc_nranks c)) (\<lambda>j s. kc_input c r + (ar_off c ch + fst (ar_cell c (r, ch) l j s)))
       (\<lambda>j s. kc_output c r + (ar_off c ch + fst (ar_cell c (r, ch) l j s))) (\<lambda>j s. snd (ar_cell c (r, ch) l j s)) j s"
proof -
  obtain po pc cc where pt: "cbd_part (kc_nranks c) (kc_channels c) (kc_dt c) (kc_count c) ch = (po, pc, cc)" by (metis prod_cases3)
  obtain e lc where el: "ar_rounds c ch ! l = (e, lc)" by (cases "ar_rounds c ch ! l")
  obtain st w where cl: "cell c pc (e, lc) (ring_chunk (kc_nranks c) r j) s = (st, w)"
    by (cases "cell c pc (e, lc) (ring_chunk (kc_nranks c) r j) s")
  show ?thesis using prim_cell[OF cl]
    by (simp add: ar_slice_def ar_cell_def ar_off_def ar_cnt_def pt el cl Let_def uniform_def)
qed

lemma ar_kind_flags:
  assumes "2 \<le> n" "j < 2 * n - 1"
  shows "ar_kind n j \<noteq> K_end" "desc_in (ar_kind n j, x) \<longleftrightarrow> 0 < j" "desc_out (ar_kind n j, x) \<longleftrightarrow> Suc j < 2 * n - 1"
    "desc_reads (ar_kind n j, x) \<longleftrightarrow> j \<le> n - 1" "desc_writes (ar_kind n j, x) \<longleftrightarrow> n - 1 \<le> j"
  using assms by (auto simp: ar_kind_def desc_defs)

lemma ar_chain:
  assumes "ar_valid c" "ch < kc_channels c"
  shows "chain (kc_nranks c) (ar_cnt c ch) (kc_slot_elems c) 0 (ar_rounds c ch)"
proof -
  obtain po pc cc where pt: "cbd_part (kc_nranks c) (kc_channels c) (kc_dt c) (kc_count c) ch = (po, pc, cc)" by (metis prod_cases3)
  show ?thesis using ar_rounds_chain(1)[OF assms pt] by (simp add: ar_cnt_def pt)
qed

lemma ar_part_eq: "ar_part c ch = {ar_off c ch..<ar_off c ch + ar_cnt c ch}"
  by (simp add: ar_part_def part_range_def ar_off_def ar_cnt_def split: prod.splits)

lemma shift_rng_subset: "st + w \<le> n \<Longrightarrow> rng (a + (off + st)) w \<subseteq> (\<lambda>i. a + i) ` {off..<off + n}"
  by (auto simp: rng_def image_iff intro!: bexI[of _ "_ - a"])

lemma in_shift_rng: "x \<in> rng (a + (off + fst y)) (snd y) \<Longrightarrow> in_cell y (x - a - off)"
  by (auto simp: rng_def in_cell_def)

lemma ar_cell_rng:
  assumes "0 < snd (ar_cell c (r, ch) l j s)"
  shows "rng (a + (ar_off c ch + fst (ar_cell c (r, ch) l j s))) (snd (ar_cell c (r, ch) l j s)) \<subseteq> (\<lambda>i. a + i) ` ar_part c ch"
proof -
  obtain e lc where el: "ar_rounds c ch ! l = (e, lc)" by (cases "ar_rounds c ch ! l")
  obtain st w where cl: "cell c (ar_cnt c ch) (e, lc) (ring_chunk (kc_nranks c) r j) s = (st, w)"
    by (cases "cell c (ar_cnt c ch) (e, lc) (ring_chunk (kc_nranks c) r j) s")
  have "st + w \<le> ar_cnt c ch" using cell_in_part[OF cl] assms by (simp add: ar_cell_def el cl)
  then show ?thesis unfolding ar_part_eq ar_cell_def by (simp only: prod.case el cl fst_conv snd_conv shift_rng_subset)
qed

lemma ar_part_bound: "ch < kc_channels c \<Longrightarrow> ar_part c ch \<subseteq> {..<kc_count c}"
  using part_in_count[of ch c] by (cases "cbd_part (kc_nranks c) (kc_channels c) (kc_dt c) (kc_count c) ch") (auto simp: ar_part_def part_range_def)

lemma ar_part_disjoint:
  assumes "ch < kc_channels c" "ch' < kc_channels c" "ch \<noteq> ch'"
  shows "ar_part c ch \<inter> ar_part c ch' = {}"
proof -
  let ?b = "cbd_begin (kc_channels c) (kc_dt c) (kc_count c)"
  have m: "\<And>i. i < kc_channels c \<Longrightarrow> ?b i \<le> ?b (Suc i)" by (rule cbd_begin_mono_Suc)
  show ?thesis using disjoint_consecutive[of "kc_channels c" ?b ch ch', OF m] assms
    unfolding ar_part_def by (simp add: part_range_cbd)
qed

section \<open>The contract of a ring collective\<close>

lemma ar_staged:
  assumes v: "ar_valid c"
  shows "staged_ok c (grid c) (image_region c (ar_part c) (ar_part c)) (2 * kc_nranks c - 1)
           (\<lambda>p. length (ar_rounds c (snd p))) (ar_slice c)"
proof -
  have n: "2 \<le> kc_nranks c" and buf: "buffers_ok c (kc_count c) (kc_count c)"
    using v by (simp_all add: ar_valid_def cfg_ok_def)
  show ?thesis
  proof (rule staged_okI[where kd = "ar_kind (kc_nranks c)"
        and loc = "\<lambda>p l j s. kc_input c (fst p) + (ar_off c (snd p) + fst (ar_cell c p l j s))"
        and dst = "\<lambda>p l j s. kc_output c (fst p) + (ar_off c (snd p) + fst (ar_cell c p l j s))"
        and W = "\<lambda>p l j s. snd (ar_cell c p l j s)"
        and A = "\<lambda>p. (\<lambda>i. kc_input c (fst p) + i) ` ar_part c (snd p)"
        and B = "\<lambda>p. (\<lambda>i. kc_output c (fst p) + i) ` ar_part c (snd p)"])
    fix p assume p: "p \<in> grid c"
    obtain r ch where e: "p = (r, ch)" by (cases p)
    have rc: "r < kc_nranks c" "ch < kc_channels c" using p e by (auto simp: grid_def)
    note ch = ar_chain[OF v rc(2)]
    show "prev_pid c p \<in> grid c \<and> length (ar_rounds c (snd (prev_pid c p))) = length (ar_rounds c (snd p))"
      using grid_ring(2)[OF n p] by (simp add: prev_pid_def)
    show "(\<lambda>i. kc_input c (fst p) + i) ` ar_part c (snd p) \<inter> (\<lambda>i. kc_output c (fst p) + i) ` ar_part c (snd p) = {}"
      using buffers_okD(1)[OF buf rc(1) rc(1)] image_in_rng[OF ar_part_bound[OF rc(2)]] by (simp add: e) blast
    show "image_region c (ar_part c) (ar_part c) p = (\<lambda>i. kc_input c (fst p) + i) ` ar_part c (snd p) \<union> (\<lambda>i. kc_output c (fst p) + i) ` ar_part c (snd p)"
      by (simp add: image_region_def e)
    fix l assume l: "l < length (ar_rounds c (snd p))"
    fix s assume s: "s < (2::nat)"
    { fix j assume j: "j < 2 * kc_nranks c - 1"
      show "ar_slice c p l j s = uniform (ar_kind (kc_nranks c)) (\<lambda>j s. kc_input c (fst p) + (ar_off c (snd p) + fst (ar_cell c p l j s)))
          (\<lambda>j s. kc_output c (fst p) + (ar_off c (snd p) + fst (ar_cell c p l j s))) (\<lambda>j s. snd (ar_cell c p l j s)) j s"
        by (simp add: e ar_slice_uniform)
      show "snd (ar_cell c p l j s) \<le> kc_slot_elems c" using cell_width[OF ch] l by (simp add: e ar_cell_def)
      assume "0 < snd (ar_cell c p l j s)"
      from ar_cell_rng[OF this[unfolded e]]
      show "rng (kc_input c (fst p) + (ar_off c (snd p) + fst (ar_cell c p l j s))) (snd (ar_cell c p l j s)) \<subseteq> (\<lambda>i. kc_input c (fst p) + i) ` ar_part c (snd p)"
        "rng (kc_output c (fst p) + (ar_off c (snd p) + fst (ar_cell c p l j s))) (snd (ar_cell c p l j s)) \<subseteq> (\<lambda>i. kc_output c (fst p) + i) ` ar_part c (snd p)"
        by (simp_all add: e) }
    { fix j assume j: "Suc j < 2 * kc_nranks c - 1"
      have "ring_chunk (kc_nranks c) ((r + kc_nranks c - 1) mod kc_nranks c) j = ring_chunk (kc_nranks c) r (Suc j)"
        using n rc(1) j by (intro ring_chunk_prev) auto
      then show "snd (ar_cell c (prev_pid c p) l j s) = snd (ar_cell c p l (Suc j) s)"
        by (simp add: e prev_pid_def ar_cell_def) }
    fix j l' j' s' a
    assume j: "j < 2 * kc_nranks c - 1" "j' < 2 * kc_nranks c - 1" and l': "l' < length (ar_rounds c (snd p))"
      and w: "desc_writes (ar_kind (kc_nranks c) j, 0, 0, 0)" "desc_writes (ar_kind (kc_nranks c) j', 0, 0, 0)"
      and a: "a \<in> rng (kc_output c (fst p) + (ar_off c (snd p) + fst (ar_cell c p l j s))) (snd (ar_cell c p l j s))"
        "a \<in> rng (kc_output c (fst p) + (ar_off c (snd p) + fst (ar_cell c p l' j' s'))) (snd (ar_cell c p l' j' s'))"
    have "l = l' \<and> ring_chunk (kc_nranks c) r j = ring_chunk (kc_nranks c) r j' \<and> s = s'"
      using a[THEN in_shift_rng] l l' n by (intro cell_unique[OF ch]) (simp_all add: e ar_cell_def ring_chunk_less)
    moreover have "kc_nranks c - 1 \<le> j" "kc_nranks c - 1 \<le> j'" using w ar_kind_flags(5)[OF n] j by blast+
    ultimately show "(l, j, s) = (l', j', s')" using ring_chunk_inj[OF n _ j(1) _ j(2)] by blast
  next
    show "0 < j" if "desc_in (ar_kind (kc_nranks c) j, 0, 0, 0)" for j
      using that by (cases j) (simp_all add: ar_kind_def desc_defs)
  qed (use n in \<open>simp_all add: ar_kind_flags\<close>)
qed

text \<open>The stages of a round in the order of the kernel.\<close>

lemma ar_stage_list:
  assumes "2 \<le> n"
  shows "[0..<2 * n - 1] = 0 # map (\<lambda>j. j - 1) [2..<n] @ [n - 1] @ map (\<lambda>j. j + (n - 1)) [1..<n - 1] @ [2 * n - 2]"
proof -
  obtain k where n: "n = Suc (Suc k)" using assms by (metis add_2_eq_Suc le_Suc_ex)
  have a: "map (\<lambda>j. j - 1) [2..<n] = [1..<n - 1]"
    by (rule nth_equalityI) auto
  have b: "map (\<lambda>j. j + (n - 1)) [1..<n - 1] = [n..<2 * n - 2]"
    using assms by (intro nth_equalityI) auto
  have "2 * n - 1 = n - 1 + n" by (simp add: n)
  then have "[0..<2 * n - 1] = [0..<n - 1] @ [n - 1..<2 * n - 1]"
    by (simp only: upt_add_eq_append[OF le0])
  also have "[0..<n - 1] = 0 # [1..<n - 1]" by (simp add: upt_conv_Cons n)
  also have "[n - 1..<2 * n - 1] = (n - 1) # [n..<2 * n - 1]" by (simp add: upt_conv_Cons n)
  also have "[n..<2 * n - 1] = [n..<2 * n - 2] @ [2 * n - 2]" using upt_Suc_append[of n "2 * n - 2"] by (simp add: n)
  finally show ?thesis by (simp only: a b append_Cons append_assoc append_Nil)
qed

lemma ring_chunk_code:
  assumes "2 \<le> n" "r < n"
  shows "ring_chunk n r 0 = (r + n - 1) mod n" "ring_chunk n r (n - 1) = r" "ring_chunk n r (2 * n - 2) = (r + 1) mod n"
    "2 \<le> j \<Longrightarrow> j < n \<Longrightarrow> ring_chunk n r (j - 1) = (r + n - j) mod n"
    "1 \<le> j \<Longrightarrow> j < n - 1 \<Longrightarrow> ring_chunk n r (j + (n - 1)) = (r + n - j) mod n"
proof -
  have "r + 2 * n - 1 - 0 = (r + n - 1) + n" using assms by simp
  then show "ring_chunk n r 0 = (r + n - 1) mod n" unfolding ring_chunk_def by (simp only: mod_add_self2)
  have "r + 2 * n - 1 - (n - 1) = r + n" using assms by simp
  then show "ring_chunk n r (n - 1) = r" unfolding ring_chunk_def using assms by simp
  have "r + 2 * n - 1 - (2 * n - 2) = r + 1" using assms by simp
  then show "ring_chunk n r (2 * n - 2) = (r + 1) mod n" unfolding ring_chunk_def by (simp only:)
  show "ring_chunk n r (j - 1) = (r + n - j) mod n" if "2 \<le> j" "j < n"
  proof -
    have "r + 2 * n - 1 - (j - 1) = (r + n - j) + n" using assms that by simp
    then show ?thesis unfolding ring_chunk_def by (simp only: mod_add_self2)
  qed
  show "ring_chunk n r (j + (n - 1)) = (r + n - j) mod n" if "1 \<le> j" "j < n - 1"
  proof -
    have "r + 2 * n - 1 - (j + (n - 1)) = r + n - j" using assms that by simp
    then show ?thesis unfolding ring_chunk_def by (simp only:)
  qed
qed

lemma ar_kind_code:
  assumes "2 \<le> n"
  shows "ar_kind n 0 = K_send" "ar_kind n (n - 1) = K_rrcs" "ar_kind n (2 * n - 2) = K_recv"
    "2 \<le> j \<Longrightarrow> j < n \<Longrightarrow> ar_kind n (j - 1) = K_rrs" "1 \<le> j \<Longrightarrow> j < n - 1 \<Longrightarrow> ar_kind n (j + (n - 1)) = K_rcs"
  using assms by (auto simp: ar_kind_def)

lemma all_reduce_iter_stages:
  assumes n: "2 \<le> kc_nranks c" and r: "r < kc_nranks c"
    and pt: "cbd_part (kc_nranks c) (kc_channels c) (kc_dt c) (kc_count c) ch = (po, pc, cc)"
  shows "all_reduce_iter c r po pc (ar_rounds c ch ! l) =
         concat (map (\<lambda>j. map (\<lambda>s. desc_ops c (ar_slice c (r, ch) l j s)) [0..<2]) [0..<2 * kc_nranks c - 1])"
proof -
  obtain e lc where el: "ar_rounds c ch ! l = (e, lc)" by (cases "ar_rounds c ch ! l")
  let ?N = "kc_nranks c"
  let ?pr = "\<lambda>kd k. map (\<lambda>s. desc_ops c (prim c kd (kc_input c r + (po + e + k * lc)) (kc_output c r + (po + e + k * lc))
      (nelem lc (pc - e) (k * lc)) s)) [0..<2]"
  have st: "map (\<lambda>s. desc_ops c (ar_slice c (r, ch) l j s)) [0..<2] = ?pr (ar_kind ?N j) (ring_chunk ?N r j)" for j
    by (simp add: ar_slice_def pt el Let_def)
  note code = ar_kind_code[OF n] ring_chunk_code[OF n r]
  have mid: "map (\<lambda>j. ?pr (ar_kind ?N (j - 1)) (ring_chunk ?N r (j - 1))) [2..<?N] =
      map (\<lambda>j. ?pr K_rrs ((r + ?N - j) mod ?N)) [2..<?N]"
    by (rule map_cong[OF refl]) (simp only: set_upt atLeastLessThan_iff code)
  have gat: "map (\<lambda>j. ?pr (ar_kind ?N (j + (?N - 1))) (ring_chunk ?N r (j + (?N - 1)))) [1..<?N - 1] =
      map (\<lambda>j. ?pr K_rcs ((r + ?N - j) mod ?N)) [1..<?N - 1]"
    by (rule map_cong[OF refl]) (simp only: set_upt atLeastLessThan_iff code)
  show ?thesis
    unfolding st ar_stage_list[OF n] el all_reduce_iter_def Let_def prod.case
    unfolding list.map map_append map_map o_def mid gat concat.simps concat_append append_Nil2
    unfolding code(1-3,6-8) by (simp only: prim_slices[symmetric])
qed

lemma all_reduce_staged_program:
  assumes v: "ar_valid c" and p: "p \<in> grid c"
  shows "\<exists>P. all_reduce_program c p = Some P \<and>
    concat P = staged_program c (2 * kc_nranks c - 1) (\<lambda>p. length (ar_rounds c (snd p))) (ar_slice c) p"
proof -
  obtain r ch where e: "p = (r, ch)" by (cases p)
  have rc: "r < kc_nranks c" "ch < kc_channels c" using p e by (auto simp: grid_def)
  have n: "2 \<le> kc_nranks c" using v by (simp add: ar_valid_def cfg_ok_def)
  obtain po pc cc where pt: "cbd_part (kc_nranks c) (kc_channels c) (kc_dt c) (kc_count c) ch = (po, pc, cc)" by (metis prod_cases3)
  note R = ar_rounds_chain[OF v rc(2) pt]
  show ?thesis
  proof (cases "pc = 0")
    case True
    then show ?thesis using R(4) rc by (simp add: e all_reduce_program_def pt staged_program_def)
  next
    case False
    then have cc: "cc \<noteq> 0" and ls: "ar_loops (kc_nranks c) (kc_dt c) (kc_slot_elems c) pc cc 0 = Some (ar_rounds c ch)"
      using R(2,3) by auto
    have ne: "ar_rounds c ch \<noteq> []" using chain_empty[OF R(1)] False by simp
    have "map (all_reduce_iter c r po pc) (ar_rounds c ch) =
        map (\<lambda>l. concat (map (\<lambda>j. map (\<lambda>s. desc_ops c (ar_slice c (r, ch) l j s)) [0..<2]) [0..<2 * kc_nranks c - 1])) [0..<length (ar_rounds c ch)]"
      by (rule nth_equalityI) (simp_all add: all_reduce_iter_stages[OF n rc(1) pt])
    then show ?thesis using rc False cc ls ne by (simp add: e all_reduce_program_def pt staged_program_def)
  qed
qed

interpretation ar: ring_collective ar_valid all_reduce_program "\<lambda>c. image_region c (ar_part c) (ar_part c)"
  "\<lambda>c. 2 * kc_nranks c - 1" "\<lambda>c p. length (ar_rounds c (snd p))" ar_slice
proof
  fix c :: "'a kcfg" and p
  assume v: "ar_valid c"
  show "cfg_ok c" using v by (simp add: ar_valid_def)
  show "staged_ok c (grid c) (image_region c (ar_part c) (ar_part c)) (2 * kc_nranks c - 1) (\<lambda>p. length (ar_rounds c (snd p))) (ar_slice c)"
    using v by (rule ar_staged)
  show "region_layout c (image_region c (ar_part c) (ar_part c))"
    using v ar_part_bound ar_part_disjoint by (intro image_region_layout[of c "kc_count c" "kc_count c"]) (simp_all add: ar_valid_def)
  assume "p \<in> grid c"
  then show "\<exists>P. all_reduce_program c p = Some P \<and>
    concat P = staged_program c (2 * kc_nranks c - 1) (\<lambda>p. length (ar_rounds c (snd p))) (ar_slice c) p"
    using v by (intro all_reduce_staged_program)
qed

section \<open>The values computed\<close>

text \<open>
  The value of element \<open>i\<close> after \<open>j\<close> combinations of the partial result that starts at rank \<open>q\<close>:
  each rank reduces its own element with the received one. The last combination scales.
\<close>

fun ring_partial :: "'t kcfg \<Rightarrow> (nat \<Rightarrow> 't) \<Rightarrow> nat \<Rightarrow> nat \<Rightarrow> 't" where
  "ring_partial c x q 0 = x q"
| "ring_partial c x q (Suc j) =
     red c (Suc (Suc j) = kc_nranks c) (x ((q + Suc j) mod kc_nranks c)) (ring_partial c x q j)"

text \<open>The result for an element of chunk \<open>k\<close>: from rank \<open>k + 1\<close> once around the ring.\<close>

definition ring_result :: "'t kcfg \<Rightarrow> (nat \<Rightarrow> 't) \<Rightarrow> nat \<Rightarrow> 't" where
  "ring_result c x k = ring_partial c x ((k + 1) mod kc_nranks c) (kc_nranks c - 1)"

lemma ring_start_prev:
  assumes "2 \<le> n" "r < n" "Suc j < 2 * n"
  shows "((r + n - 1) mod n + 2 * n - j) mod n = (r + 2 * n - Suc j) mod n"
proof (cases "r = 0")
  case True
  have "n - 1 + 2 * n - j = (2 * n - Suc j) + n" using assms by simp
  then have "(n - 1 + 2 * n - j) mod n = (2 * n - Suc j) mod n" by (simp only: mod_add_self2)
  then show ?thesis using True assms by simp
next
  case False
  have "(r + n - 1) mod n = r - 1" using False assms by (simp add: mod_if)
  moreover have "r - 1 + 2 * n - j = r + 2 * n - Suc j" using False assms by simp
  ultimately show ?thesis by (simp only:)
qed

lemma ring_start_chunk:
  assumes "2 \<le> n" "r < n" "j < 2 * n - 1"
  shows "(r + 2 * n - j) mod n = (ring_chunk n r j + 1) mod n"
proof -
  have "r + 2 * n - j = r + 2 * n - 1 - j + 1" using assms by simp
  then show ?thesis unfolding ring_chunk_def by (simp only: mod_add_left_eq)
qed

lemma ring_start_owner:
  assumes "r < n" "j \<le> n"
  shows "((r + 2 * n - j) mod n + j) mod n = (r :: nat)"
proof -
  have "((r + 2 * n - j) mod n + j) mod n = (r + 2 * n - j + j) mod n" by (simp only: mod_add_left_eq)
  also have "r + 2 * n - j + j = r + n * 2" using assms by simp
  finally show ?thesis using assms(1) by simp
qed

lemma ar_stval:
  assumes v: "ar_valid c" and "r < kc_nranks c" "ch < kc_channels c" "j < 2 * kc_nranks c - 1"
  shows "stval c m0 (ar_slice c) (r, ch) l j s =
     map (\<lambda>i. ring_partial c (\<lambda>r'. m0 (kc_input c r' + (ar_off c ch + fst (ar_cell c (r, ch) l j s) + i)))
                ((r + 2 * kc_nranks c - j) mod kc_nranks c) (min j (kc_nranks c - 1))) [0..<snd (ar_cell c (r, ch) l j s)]"
  using assms(2-4)
proof (induction j arbitrary: r)
  case 0
  have n: "2 \<le> kc_nranks c" using v by (simp add: ar_valid_def cfg_ok_def)
  have "(r + 2 * kc_nranks c) mod kc_nranks c = r" using 0 by simp
  then show ?case
    by (simp add: ar_slice_uniform uniform_def desc_val_def ar_kind_code(1)[OF n] rd_def add.assoc)
next
  case (Suc j)
  let ?N = "kc_nranks c" and ?q = "(r + kc_nranks c - 1) mod kc_nranks c"
  have n: "2 \<le> ?N" using v by (simp add: ar_valid_def cfg_ok_def)
  have "ring_chunk ?N ?q j = ring_chunk ?N r (Suc j)" using n Suc.prems by (intro ring_chunk_prev) auto
  then have cl: "ar_cell c (?q, ch) l j s = ar_cell c (r, ch) l (Suc j) s" by (simp add: ar_cell_def)
  have q: "?q < ?N" using n by simp
  have st: "(?q + 2 * ?N - j) mod ?N = (r + 2 * ?N - Suc j) mod ?N" using n Suc.prems by (intro ring_start_prev) auto
  note IH = Suc.IH[OF q Suc.prems(2)] Suc.prems(3)
  have in': "stval c m0 (ar_slice c) (?q, ch) l j s =
     map (\<lambda>i. ring_partial c (\<lambda>r'. m0 (kc_input c r' + (ar_off c ch + fst (ar_cell c (r, ch) l (Suc j) s) + i)))
                ((r + 2 * ?N - Suc j) mod ?N) (min j (?N - 1))) [0..<snd (ar_cell c (r, ch) l (Suc j) s)]"
    using IH unfolding cl st by simp
  consider (red) "Suc j \<le> ?N - 1" | (cp) "?N - 1 < Suc j" by linarith
  then show ?case
  proof cases
    case red
    have own: "((r + 2 * ?N - Suc j) mod ?N + Suc j) mod ?N = r" using Suc.prems red by (intro ring_start_owner) auto
    have mins: "min (Suc j) (?N - 1) = Suc j" "min j (?N - 1) = j" using red by simp_all
    have kd: "ar_kind ?N (Suc j) = (if Suc (Suc j) = ?N then K_rrcs else K_rrs)" using red n by (auto simp: ar_kind_def)
    show ?thesis
      unfolding stval.simps prev_pid_def fst_conv snd_conv in' mins ring_partial.simps own
      by (auto simp: ar_slice_uniform uniform_def desc_val_def kd rd_def map2_map_map add.assoc intro!: nth_equalityI)
  next
    case cp
    have kd: "ar_kind ?N (Suc j) \<in> {K_rcs, K_recv}" using cp n by (auto simp: ar_kind_def)
    have mins: "min (Suc j) (?N - 1) = min j (?N - 1)" using cp by simp
    show ?thesis using kd
      unfolding stval.simps prev_pid_def fst_conv snd_conv in' mins
      by (auto simp: ar_slice_uniform uniform_def desc_val_def)
  qed
qed

section \<open>Results of a finished run\<close>

lemma ar_locate:
  assumes v: "ar_valid c" and i: "i < kc_count c"
  obtains ch l k s where "ch < kc_channels c" "l < length (ar_rounds c ch)" "k < kc_nranks c" "s < 2" "ar_off c ch \<le> i"
    "in_cell (cell c (ar_cnt c ch) (ar_rounds c ch ! l) k s) (i - ar_off c ch)"
proof -
  let ?b = "cbd_begin (kc_channels c) (kc_dt c) (kc_count c)"
  have C: "0 < kc_channels c" using v by (simp add: ar_valid_def)
  have m: "\<And>i. i < kc_channels c \<Longrightarrow> ?b i \<le> ?b (Suc i)" by (rule cbd_begin_mono_Suc)
  have "i \<in> (\<Union>ch<kc_channels c. ar_part c ch)"
    using partition_cover[of "kc_channels c" ?b, OF m] i C unfolding ar_part_def
    by (simp add: part_range_cbd cbd_begin_0 cbd_begin_top)
  then obtain ch where ch: "ch < kc_channels c" "ar_off c ch \<le> i" "i - ar_off c ch < ar_cnt c ch"
    by (auto simp: ar_part_eq)
  obtain l k s where "l < length (ar_rounds c ch)" "k < kc_nranks c" "s < 2"
      "in_cell (cell c (ar_cnt c ch) (ar_rounds c ch ! l) k s) (i - ar_off c ch)"
    using cell_cover[OF ar_chain[OF v ch(1)] ch(3)] by blast
  with ch that show ?thesis by blast
qed

lemma ar_result_at:
  assumes v: "ar_valid c" and q: "quiescent c s" and sched: "set sched \<subseteq> grid c"
    and s': "s' = run c sched (launch_all c (all_reduce_program c) s)" and fin: "finished c s'"
    and ch: "ch < kc_channels c" "l < length (ar_rounds c ch)" and k: "k < kc_nranks c" "x < 2" and off: "ar_off c ch \<le> i"
    and cl: "in_cell (cell c (ar_cnt c ch) (ar_rounds c ch ! l) k x) (i - ar_off c ch)" and r: "r < kc_nranks c"
  shows "net_mem s' (kc_output c r + i) = ring_result c (\<lambda>r'. net_mem s (kc_input c r' + i)) k"
proof -
  have n: "2 \<le> kc_nranks c" using v by (simp add: ar_valid_def cfg_ok_def)
  obtain j where j: "kc_nranks c - 1 \<le> j" "j < 2 * kc_nranks c - 1" "ring_chunk (kc_nranks c) r j = k"
    using ring_chunk_surj[OF n r k(1)] by blast
  have p: "(r, ch) \<in> grid c" using r ch by (simp add: grid_def)
  let ?cl = "ar_cell c (r, ch) l j x"
  have cell: "in_cell ?cl (i - ar_off c ch)" using cl j by (simp add: ar_cell_def)
  define d where "d = i - ar_off c ch - fst ?cl"
  have d: "d < snd ?cl" "i = ar_off c ch + fst ?cl + d" using cell off by (auto simp: in_cell_def d_def)
  have dsc: "ar_slice c (r, ch) l j x = (ar_kind (kc_nranks c) j, kc_input c r + (ar_off c ch + fst ?cl),
      kc_output c r + (ar_off c ch + fst ?cl), snd ?cl)"
    using d(1) unfolding ar_slice_uniform by (simp add: uniform_def)
  have "net_mem s' (kc_output c r + (ar_off c ch + fst ?cl) + d) = stval c (net_mem s) (ar_slice c) (r, ch) l j x ! d"
    using ar.finished_memory[OF v q sched s' fin p _ j(2) k(2), of l d] ch(2) d(1) ar_kind_flags(5)[OF n j(2)] j(1)
    unfolding dsc by simp
  also have "\<dots> = ring_partial c (\<lambda>r'. net_mem s (kc_input c r' + i)) ((k + 1) mod kc_nranks c) (kc_nranks c - 1)"
    using d ar_stval[OF v r ch(1) j(2)] ring_start_chunk[OF n r j(2)] j by (simp add: min_def)
  finally show ?thesis using d(2) by (simp add: ring_result_def add.assoc)
qed

lemma ar_input_kept:
  assumes v: "ar_valid c" and q: "quiescent c s" and sched: "set sched \<subseteq> grid c"
    and s': "s' = run c sched (launch_all c (all_reduce_program c) s)" and fin: "finished c s'"
    and i: "i < kc_count c" and r: "r < kc_nranks c"
  shows "net_mem s' (kc_input c r + i) = net_mem s (kc_input c r + i)"
proof -
  have buf: "buffers_ok c (kc_count c) (kc_count c)" using v by (simp add: ar_valid_def)
  obtain ch l k x where ch: "ch < kc_channels c" "ar_off c ch \<le> i"
      "in_cell (cell c (ar_cnt c ch) (ar_rounds c ch ! l) k x) (i - ar_off c ch)"
    using ar_locate[OF v i] by metis
  have p: "(r, ch) \<in> grid c" using r ch by (simp add: grid_def)
  have "i - ar_off c ch < ar_cnt c ch"
    using in_cell_decode(3)[of c "ar_cnt c ch" "fst (ar_rounds c ch ! l)" "snd (ar_rounds c ch ! l)" k x] ch(3) by simp
  then have "i \<in> ar_part c ch" using ch(2) by (simp add: ar_part_eq)
  then have a: "kc_input c r + i \<in> image_region c (ar_part c) (ar_part c) (r, ch)" by (simp add: image_region_def)
  show ?thesis
  proof (rule ar.finished_untouched[OF v q sched s' fin p a])
    fix l j x assume b: "desc_writes (ar_slice c (r, ch) l j x)"
    then have w: "0 < snd (ar_cell c (r, ch) l j x)" unfolding ar_slice_uniform by (simp add: uniform_flags[where x = "(0, 0, 0)"])
    have "rng (desc_dst (ar_slice c (r, ch) l j x)) (desc_width (ar_slice c (r, ch) l j x)) \<subseteq> rng (kc_output c r) (kc_count c)"
      using ar_cell_rng[OF w, of "kc_output c r"] image_in_rng[OF ar_part_bound[OF ch(1)], of "kc_output c r"] w
      unfolding ar_slice_uniform uniform_def using w by simp
    then show "kc_input c r + i \<notin> rng (desc_dst (ar_slice c (r, ch) l j x)) (desc_width (ar_slice c (r, ch) l j x))"
      using buffers_okD(1)[OF buf r r] rng_mem[OF i] by blast
  qed
qed

lemma ring_partial_sum:
  assumes "kc_num c = int_num" "kc_op c = RSum"
  shows "ring_partial c x q j = x q + (\<Sum>i<j. x ((q + Suc i) mod kc_nranks c))"
  using assms by (induction j) (auto simp: red_def lane_float_def scaled_def int_num_def)

lemma ring_result_sum:
  assumes c: "kc_num c = int_num" "kc_op c = RSum" and k: "k < kc_nranks c"
  shows "ring_result c x k = (\<Sum>r<kc_nranks c. x r)"
proof -
  let ?N = "kc_nranks c" and ?f = "\<lambda>i. (k + 1 + i) mod kc_nranks c"
  have inj: "inj_on ?f {..<?N}"
  proof (rule linorder_inj_onI)
    fix i j assume "i < j" "i \<in> {..<?N}" "j \<in> {..<?N}"
    then have "k + 1 + i < k + 1 + j" "k + 1 + j < k + 1 + i + ?N" by simp_all
    then show "?f i \<noteq> ?f j" by (rule mod_neq_close)
  qed auto
  have im: "?f ` {..<?N} = {..<?N}" using k by (intro endo_inj_surj[OF _ _ inj]) auto
  obtain n where n: "?N = Suc n" using k by (cases ?N) auto
  have "ring_result c x k = x (?f 0) + (\<Sum>i<n. x (?f (Suc i)))"
    using n by (simp add: ring_result_def ring_partial_sum[OF c] mod_add_left_eq flip: add_Suc_right)
  also have "\<dots> = (\<Sum>i<?N. x (?f i))" unfolding n by (subst sum.lessThan_Suc_shift) (simp add: n)
  also have "\<dots> = (\<Sum>r<?N. x r)" using sum.reindex[OF inj, of x] im by simp
  finally show ?thesis .
qed

section \<open>A small machine\<close>

text \<open>Two ranks, one channel, three \<open>float\<close> elements, slots of four elements.\<close>

definition demo_cfg :: "int kcfg" where
  "demo_cfg = \<lparr> kc_num = int_num, kc_dt = Float, kc_op = RSum, kc_unroll = 1, kc_block = 64, kc_nranks = 2, kc_channels = 1,
     kc_count = 3, kc_slot_elems = 4, kc_step_elems = 4, kc_input = (\<lambda>r. 10 * r), kc_output = (\<lambda>r. 20 + 10 * r),
     kc_fifo = (\<lambda>p. 100 + 100 * fst p), kc_payload = (\<lambda>_. False) \<rparr>"

definition demo_net :: "int net" where
  "demo_net = \<lparr> net_mem = int,
     procs = (\<lambda>_. \<lparr> prog = [], send_step = 0, recv_step = 0, send_head_cache = 0, recv_tail_cache = 0,
                    send_base_step = 0, recv_base_step = 0, stopped = False \<rparr>),
     edges = (\<lambda>_. \<lparr> e_head = 0, e_tail = 0, e_payload = (\<lambda>_. 0) \<rparr>) \<rparr>"

definition demo_rounds :: "(pid \<Rightarrow> kop list list option) \<Rightarrow> pid list list" where
  "demo_rounds prog_of = replicate (ops_total demo_cfg prog_of) [(0, 0), (1, 0), (1, 0), (0, 0)]"

lemma demo_grid: "grid demo_cfg = {(0, 0), (1, 0)}"
proof -
  have "{0..<2} = {0, Suc 0}" by auto
  then show ?thesis by (simp add: grid_def demo_cfg_def)
qed

lemma demo_cfg_ok: "cfg_ok demo_cfg"
  by (simp add: cfg_ok_def demo_cfg_def int_num_agrees)

lemma demo_buffers: "il \<le> 10 \<Longrightarrow> ol \<le> 10 \<Longrightarrow> buffers_ok demo_cfg il ol"
  unfolding buffers_ok_def demo_grid by (auto simp: demo_cfg_def rng_def less_2_cases_iff)

lemma demo_quiescent: "quiescent demo_cfg demo_net"
  by (simp add: quiescent_def demo_net_def)

lemma demo_fair: "\<forall>r\<in>set (demo_rounds P). fair demo_cfg r" "ops_total demo_cfg P \<le> length (demo_rounds P)"
  by (auto simp: demo_rounds_def fair_def demo_grid)

lemma demo_sched: "set (concat (demo_rounds P)) \<subseteq> grid demo_cfg"
  by (auto simp: demo_rounds_def demo_grid)

lemma demo_valid: "ar_valid demo_cfg"
  using demo_cfg_ok demo_buffers[of 3 3] by (simp add: ar_valid_def demo_cfg_def vector_elems_eq)

section \<open>Properties\<close>

text \<open>C1: AllReduce is correct. Whatever order the blocks of all ranks and channels run in, once
  they have finished, element \<open>i\<close> of every rank's output is one and the same value: the reduction
  of the ranks' input elements \<open>i\<close> once around the ring, starting behind the rank that owns the
  chunk, scaled at the end for averages. Ranks agree bit by bit although floating point addition
  is not associative, and the inputs are left as they were.\<close>

theorem all_reduce_correct:
  assumes "ar_valid c" "quiescent c s" "set sched \<subseteq> grid c"
    "s' = run c sched (launch_all c (all_reduce_program c) s)" "finished c s'" "i < kc_count c"
  shows "(\<exists>k<kc_nranks c. \<forall>r<kc_nranks c.
           net_mem s' (kc_output c r + i) = ring_result c (\<lambda>r'. net_mem s (kc_input c r' + i)) k) \<and>
         (\<forall>r<kc_nranks c. net_mem s' (kc_input c r + i) = net_mem s (kc_input c r + i))"
  using ar_locate[OF assms(1,6)] ar_result_at[OF assms(1-5)] ar_input_kept[OF assms] by metis

theorem all_reduce_correct_witness:
  "net_mem (run demo_cfg (concat (demo_rounds (all_reduce_program demo_cfg)))
     (launch_all demo_cfg (all_reduce_program demo_cfg) demo_net)) (kc_output demo_cfg 0 + 2) = 2 + 12 \<and>
   net_mem (run demo_cfg (concat (demo_rounds (all_reduce_program demo_cfg)))
     (launch_all demo_cfg (all_reduce_program demo_cfg) demo_net)) (kc_output demo_cfg 1 + 2) = 2 + 12"
proof -
  have d: "kc_nranks demo_cfg = 2" "kc_num demo_cfg = int_num" "kc_op demo_cfg = RSum" "(2::nat) < kc_count demo_cfg"
    "kc_input demo_cfg = (\<lambda>r. 10 * r)" "net_mem demo_net = int" by (simp_all add: demo_cfg_def demo_net_def)
  have fin: "finished demo_cfg (run demo_cfg (concat (demo_rounds (all_reduce_program demo_cfg)))
           (launch_all demo_cfg (all_reduce_program demo_cfg) demo_net))"
    by (rule ar.fair_run_finishes[OF demo_valid demo_quiescent demo_fair])
  have s2: "(\<Sum>r<2. int (10 * r + 2)) = 2 + 12" by (simp add: numeral_2_eq_2)
  show ?thesis
    using all_reduce_correct[OF demo_valid demo_quiescent demo_sched refl fin d(4)]
      ring_result_sum[OF d(2,3), unfolded d(1), of _ "\<lambda>r. int (10 * r + 2)", unfolded s2]
    unfolding d(1,5,6) by auto
qed

text \<open>C2: AllReduce never deadlocks: in every state reachable from a launch, while some block is
  unfinished, some block's next operation can complete; waiting blocks only wait for blocks
  that can still move.\<close>

theorem all_reduce_no_deadlock:
  assumes "ar_valid c" "quiescent c s" "set sched \<subseteq> grid c"
    "s' = run c sched (launch_all c (all_reduce_program c) s)" "\<not> finished c s'"
  shows "\<exists>p\<in>grid c. prog (procs s' p) \<noteq> [] \<and> able c s' p"
  using ar.no_deadlock[OF assms(1-3)] assms(4,5) by simp

theorem all_reduce_no_deadlock_witness:
  "\<exists>p\<in>grid demo_cfg. prog (procs (launch_all demo_cfg (all_reduce_program demo_cfg) demo_net) p) \<noteq> [] \<and>
     able demo_cfg (launch_all demo_cfg (all_reduce_program demo_cfg) demo_net) p"
proof -
  have part: "cbd_part 2 (Suc 0) Float 3 0 = (0, 3, 128)"
    by (simp add: cbd_part_def Let_def align_up_def div_up_def simple_grain_elems_eq vector_elems_eq)
  obtain P where P: "all_reduce_program demo_cfg (0, 0) = Some P"
    using all_reduce_staged_program[OF demo_valid, of "(0, 0)"] by (auto simp: demo_grid)
  then have "concat P \<noteq> []" by (auto simp: all_reduce_program_def demo_cfg_def part)
  then have nf: "\<not> finished demo_cfg (run demo_cfg [] (launch_all demo_cfg (all_reduce_program demo_cfg) demo_net))"
    by (simp add: finished_def run_def launch_all_def launch_def demo_grid P)
  from all_reduce_no_deadlock[OF demo_valid demo_quiescent _ refl nf] show ?thesis by (simp add: run_def)
qed

text \<open>C3: AllReduce terminates: any run in which every block keeps getting turns (rounds in which
  each block is scheduled at least twice) has finished after at most as many rounds as
  there are operations, whatever the order inside the rounds.\<close>

theorem all_reduce_terminates:
  assumes "ar_valid c" "quiescent c s" "\<forall>r\<in>set rounds. fair c r" "ops_total c (all_reduce_program c) \<le> length rounds"
  shows "finished c (run c (concat rounds) (launch_all c (all_reduce_program c) s))"
  using assms by (rule ar.fair_run_finishes)

theorem all_reduce_terminates_witness:
  "finished demo_cfg (run demo_cfg (concat (demo_rounds (all_reduce_program demo_cfg)))
     (launch_all demo_cfg (all_reduce_program demo_cfg) demo_net))"
  by (rule all_reduce_terminates[OF demo_valid demo_quiescent demo_fair])

text \<open>C4: after a finished AllReduce the edges are quiet again: the step counters stored for the
  next launch agree at both ends of every edge and nothing is in flight, so collectives can
  follow each other on the same connections without resetting them.\<close>

theorem all_reduce_quiescent:
  assumes "ar_valid c" "quiescent c s" "set sched \<subseteq> grid c"
    "s' = run c sched (launch_all c (all_reduce_program c) s)" "finished c s'"
  shows "quiescent c s'"
  using assms by (rule ar.finished_quiescent)

theorem all_reduce_quiescent_witness:
  "quiescent demo_cfg (run demo_cfg (concat (demo_rounds (all_reduce_program demo_cfg)))
     (launch_all demo_cfg (all_reduce_program demo_cfg) demo_net))"
  by (rule all_reduce_quiescent[OF demo_valid demo_quiescent demo_sched refl
        ar.fair_run_finishes[OF demo_valid demo_quiescent demo_fair]])

end
