(* ===== verification/Reduce_Scatter.thy ===== *)
theory Reduce_Scatter
  imports All_Reduce
begin

text \<open>
  The ReduceScatter kernel as a staged ring collective of \<open>nranks\<close> stages, on the dense
  channel parts that it shares with AllGather. The interpretation discharges the contract of
  \<open>ring_collective\<close> for \<open>reduce_scatter_program\<close>.
\<close>

section \<open>Dense parts\<close>

definition dense_off :: "'t kcfg \<Rightarrow> nat \<Rightarrow> nat" where
  "dense_off c ch = fst (channel_part (kc_channels c) (kc_count c) ch)"

definition dense_cnt :: "'t kcfg \<Rightarrow> nat \<Rightarrow> nat" where
  "dense_cnt c ch = snd (channel_part (kc_channels c) (kc_count c) ch)"

definition dense_rounds :: "'t kcfg \<Rightarrow> nat \<Rightarrow> (nat \<times> nat) list" where
  "dense_rounds c ch = (if dense_cnt c ch = 0 then [] else the (part_loops (kc_slot_elems c) (dense_cnt c ch) 0))"

definition dense_part :: "'t kcfg \<Rightarrow> nat \<Rightarrow> nat set" where
  "dense_part c ch = {dense_off c ch..<dense_off c ch + dense_cnt c ch}"

definition dense_cell :: "'t kcfg \<Rightarrow> nat \<Rightarrow> nat \<Rightarrow> nat \<Rightarrow> nat \<times> nat" where
  "dense_cell c ch l s = cell c (dense_cnt c ch) (dense_rounds c ch ! l) 0 s"

lemma dense_part_begin:
  "dense_part c ch = {kc_count c * ch div kc_channels c..<kc_count c * Suc ch div kc_channels c}"
  using channel_begin_mono[of "kc_count c" ch "kc_channels c"]
  by (simp add: dense_part_def dense_off_def dense_cnt_def channel_part_def Let_def)

lemma dense_part_bound: "ch < kc_channels c \<Longrightarrow> dense_part c ch \<subseteq> {..<kc_count c}"
proof -
  assume ch: "ch < kc_channels c"
  have "kc_count c * Suc ch div kc_channels c \<le> kc_count c * kc_channels c div kc_channels c"
    using ch by (intro div_le_mono mult_le_mono2) simp
  then show ?thesis using ch unfolding dense_part_begin by auto
qed

lemma dense_part_disjoint:
  assumes "ch < kc_channels c" "ch' < kc_channels c" "ch \<noteq> ch'"
  shows "dense_part c ch \<inter> dense_part c ch' = {}"
  unfolding dense_part_begin
  using disjoint_consecutive[of "kc_channels c" "\<lambda>ch. kc_count c * ch div kc_channels c" ch ch'] assms channel_begin_mono by simp

lemma dense_part_cover:
  assumes "0 < kc_channels c" "i < kc_count c"
  obtains ch where "ch < kc_channels c" "i \<in> dense_part c ch"
proof -
  have "i \<in> (\<Union>ch<kc_channels c. dense_part c ch)"
    unfolding dense_part_begin
    using partition_cover[of "kc_channels c" "\<lambda>ch. kc_count c * ch div kc_channels c"] assms channel_begin_mono by simp
  with that show ?thesis by blast
qed

lemma dense_chain:
  assumes "0 < kc_slot_elems c"
  shows "chain 1 (dense_cnt c ch) (kc_slot_elems c) 0 (dense_rounds c ch)"
    and "x \<in> set (dense_rounds c ch) \<Longrightarrow> fst x + snd x \<le> dense_cnt c ch"
    and "0 < dense_cnt c ch \<Longrightarrow> part_loops (kc_slot_elems c) (dense_cnt c ch) 0 = Some (dense_rounds c ch)"
  using part_loops_chain[OF assms, of "dense_cnt c ch" 0] by (auto simp: dense_rounds_def split: if_splits)

text \<open>A round of a dense part is one chunk, wholly inside the part.\<close>

lemma dense_nelem:
  assumes "0 < kc_slot_elems c" "l < length (dense_rounds c ch)" "dense_rounds c ch ! l = (e, lc)"
  shows "nelem lc (dense_cnt c ch - e) 0 = lc"
  using dense_chain(2)[OF assms(1), of "(e, lc)" ch] nth_mem[OF assms(2)] assms(3) by (simp add: nelem_eq)

lemma dense_cell_rng:
  assumes "0 < snd (dense_cell c ch l s)"
  shows "fst (dense_cell c ch l s) + snd (dense_cell c ch l s) \<le> dense_cnt c ch"
proof -
  obtain e lc where el: "dense_rounds c ch ! l = (e, lc)" by (cases "dense_rounds c ch ! l")
  obtain st w where cl: "cell c (dense_cnt c ch) (e, lc) 0 s = (st, w)" by (cases "cell c (dense_cnt c ch) (e, lc) 0 s")
  show ?thesis using cell_in_part[OF cl] assms by (simp add: dense_cell_def el cl)
qed

lemma dense_locate:
  assumes "0 < kc_slot_elems c" "i \<in> dense_part c ch"
  obtains l s where "l < length (dense_rounds c ch)" "s < 2" "in_cell (dense_cell c ch l s) (i - dense_off c ch)"
proof -
  have "i - dense_off c ch < dense_cnt c ch" using assms(2) by (auto simp: dense_part_def)
  from cell_cover[OF dense_chain(1)[OF assms(1)] this]
  obtain l k s where "l < length (dense_rounds c ch)" "k < 1" "s < 2"
    "in_cell (cell c (dense_cnt c ch) (dense_rounds c ch ! l) k s) (i - dense_off c ch)" by blast
  with that show ?thesis by (auto simp: dense_cell_def)
qed

lemma dense_cell_unique:
  assumes "0 < kc_slot_elems c" "l < length (dense_rounds c ch)" "l' < length (dense_rounds c ch)"
    "in_cell (dense_cell c ch l s) i" "in_cell (dense_cell c ch l' s') i"
  shows "l = l' \<and> s = s'"
  using cell_unique[OF dense_chain(1)[OF assms(1)] assms(2,3), of 0 0] assms(4,5) by (simp add: dense_cell_def)

text \<open>Chunks of \<open>count\<close> elements side by side.\<close>

definition chunks :: "'t kcfg \<Rightarrow> nat \<Rightarrow> nat set" where
  "chunks c ch = (\<Union>k<kc_nranks c. (\<lambda>i. k * kc_count c + i) ` dense_part c ch)"

lemma chunk_decode:
  assumes "k * n + i = k' * n + i'" "i < n" "i' < (n :: nat)"
  shows "k = k' \<and> i = i'"
proof -
  have "(k * n + i) div n = k" "(k' * n + i') div n = k'" using assms(2,3) by simp_all
  then have "k = k'" using assms(1) by metis
  with assms(1) show ?thesis by simp
qed

lemma chunks_bound:
  assumes "ch < kc_channels c" shows "chunks c ch \<subseteq> {..<kc_nranks c * kc_count c}"
  using dense_part_bound[OF assms] by (auto simp: chunks_def intro!: mult_add_less)

lemma chunks_disjoint:
  assumes "ch < kc_channels c" "ch' < kc_channels c" "ch \<noteq> ch'"
  shows "chunks c ch \<inter> chunks c ch' = {}"
proof (rule ccontr)
  assume "chunks c ch \<inter> chunks c ch' \<noteq> {}"
  then obtain k i k' i' where e: "k * kc_count c + i = k' * kc_count c + i'" "i \<in> dense_part c ch" "i' \<in> dense_part c ch'"
    by (auto simp: chunks_def)
  moreover have "i < kc_count c" "i' < kc_count c" using e dense_part_bound[OF assms(1)] dense_part_bound[OF assms(2)] by auto
  ultimately have "i = i'" using chunk_decode by blast
  with e dense_part_disjoint[OF assms] show False by blast
qed

lemma chunk_rng:
  assumes "k < kc_nranks c" "st + w \<le> dense_cnt c ch"
  shows "rng (a + (k * kc_count c + (dense_off c ch + st))) w \<subseteq> (\<lambda>i. a + i) ` chunks c ch"
proof
  fix x assume x: "x \<in> rng (a + (k * kc_count c + (dense_off c ch + st))) w"
  define i where "i = x - a - k * kc_count c"
  have "x = a + (k * kc_count c + i)" "i \<in> dense_part c ch" using x assms(2) by (auto simp: i_def rng_def dense_part_def)
  with assms(1) show "x \<in> (\<lambda>i. a + i) ` chunks c ch" by (auto simp: chunks_def)
qed

section \<open>Stages\<close>

definition rs_kind :: "nat \<Rightarrow> nat \<Rightarrow> skind" where
  "rs_kind n j = (if j = 0 then K_send else if j < n - 1 then K_rrs else K_rrc)"

definition rs_slice :: "'t kcfg \<Rightarrow> pid \<Rightarrow> nat \<Rightarrow> nat \<Rightarrow> nat \<Rightarrow> sdesc" where
  "rs_slice c = (\<lambda>(r, ch) l j s. case dense_rounds c ch ! l of (e, lc) \<Rightarrow>
     prim c (rs_kind (kc_nranks c) j) (kc_input c r + (ring_chunk (kc_nranks c) r j * kc_count c + (dense_off c ch + e)))
       (kc_output c r + (dense_off c ch + e)) lc s)"

definition rs_valid :: "'t kcfg \<Rightarrow> bool" where
  "rs_valid c \<longleftrightarrow> cfg_ok c \<and> 0 < kc_channels c \<and> 0 < kc_slot_elems c \<and>
     buffers_ok c (kc_nranks c * kc_count c) (kc_count c)"

lemma dense_prim:
  assumes "0 < kc_slot_elems c" "l < length (dense_rounds c ch)" "dense_rounds c ch ! l = (e, lc)"
  shows "prim c kd (a + (x + (y + e))) (b + (z + (y + e))) lc s =
    (if snd (dense_cell c ch l s) = 0 then (K_idle, 0, 0, 0)
     else (kd, a + (x + (y + fst (dense_cell c ch l s))), b + (z + (y + fst (dense_cell c ch l s))), snd (dense_cell c ch l s)))"
  using dense_nelem[OF assms] assms(3) by (simp add: prim_def dense_cell_def cell_def add.assoc split: prod.splits)

lemma rs_slice_uniform:
  assumes "0 < kc_slot_elems c" "l < length (dense_rounds c ch)"
  shows "rs_slice c (r, ch) l j s =
     uniform (rs_kind (kc_nranks c))
       (\<lambda>j s. kc_input c r + (ring_chunk (kc_nranks c) r j * kc_count c + (dense_off c ch + fst (dense_cell c ch l s))))
       (\<lambda>j s. kc_output c r + (dense_off c ch + fst (dense_cell c ch l s))) (\<lambda>j s. snd (dense_cell c ch l s)) j s"
proof -
  obtain e lc where el: "dense_rounds c ch ! l = (e, lc)" by (cases "dense_rounds c ch ! l")
  show ?thesis
    using dense_prim[OF assms el, of "rs_kind (kc_nranks c) j" "kc_input c r" _ _ "kc_output c r" 0]
    by (simp add: rs_slice_def el uniform_def)
qed

lemma rs_kind_flags:
  assumes "2 \<le> n" "j < n"
  shows "rs_kind n j \<noteq> K_end" "desc_in (rs_kind n j, x) \<longleftrightarrow> 0 < j" "desc_out (rs_kind n j, x) \<longleftrightarrow> Suc j < n"
    "desc_reads (rs_kind n j, x)" "desc_writes (rs_kind n j, x) \<longleftrightarrow> j = n - 1"
  using assms by (auto simp: rs_kind_def desc_defs)

lemma rs_staged:
  assumes v: "rs_valid c"
  shows "staged_ok c (grid c) (image_region c (chunks c) (dense_part c)) (kc_nranks c)
           (\<lambda>p. length (dense_rounds c (snd p))) (rs_slice c)"
proof -
  have n: "2 \<le> kc_nranks c" and sl: "0 < kc_slot_elems c" and buf: "buffers_ok c (kc_nranks c * kc_count c) (kc_count c)"
    using v by (simp_all add: rs_valid_def cfg_ok_def)
  show ?thesis
  proof (rule staged_okI[where kd = "rs_kind (kc_nranks c)"
        and loc = "\<lambda>p l j s. kc_input c (fst p) + (ring_chunk (kc_nranks c) (fst p) j * kc_count c + (dense_off c (snd p) + fst (dense_cell c (snd p) l s)))"
        and dst = "\<lambda>p l j s. kc_output c (fst p) + (dense_off c (snd p) + fst (dense_cell c (snd p) l s))"
        and W = "\<lambda>p l j s. snd (dense_cell c (snd p) l s)"
        and A = "\<lambda>p. (\<lambda>i. kc_input c (fst p) + i) ` chunks c (snd p)"
        and B = "\<lambda>p. (\<lambda>i. kc_output c (fst p) + i) ` dense_part c (snd p)"])
    fix p assume p: "p \<in> grid c"
    obtain r ch where e: "p = (r, ch)" by (cases p)
    have rc: "r < kc_nranks c" "ch < kc_channels c" using p e by (auto simp: grid_def)
    show "prev_pid c p \<in> grid c \<and> length (dense_rounds c (snd (prev_pid c p))) = length (dense_rounds c (snd p))"
      using grid_ring(2)[OF n p] by (simp add: prev_pid_def)
    show "(\<lambda>i. kc_input c (fst p) + i) ` chunks c (snd p) \<inter> (\<lambda>i. kc_output c (fst p) + i) ` dense_part c (snd p) = {}"
      using buffers_okD(1)[OF buf rc(1) rc(1)] image_in_rng[OF chunks_bound[OF rc(2)], of "kc_input c r"]
        image_in_rng[OF dense_part_bound[OF rc(2)], of "kc_output c r"] by (simp add: e) blast
    show "image_region c (chunks c) (dense_part c) p = (\<lambda>i. kc_input c (fst p) + i) ` chunks c (snd p) \<union> (\<lambda>i. kc_output c (fst p) + i) ` dense_part c (snd p)"
      by (simp add: image_region_def e)
    fix l assume l: "l < length (dense_rounds c (snd p))"
    fix s assume s: "s < (2::nat)"
    { fix j assume j: "j < kc_nranks c"
      show "rs_slice c p l j s = uniform (rs_kind (kc_nranks c))
          (\<lambda>j s. kc_input c (fst p) + (ring_chunk (kc_nranks c) (fst p) j * kc_count c + (dense_off c (snd p) + fst (dense_cell c (snd p) l s))))
          (\<lambda>j s. kc_output c (fst p) + (dense_off c (snd p) + fst (dense_cell c (snd p) l s))) (\<lambda>j s. snd (dense_cell c (snd p) l s)) j s"
        using l by (simp add: e rs_slice_uniform[OF sl])
      show "snd (dense_cell c (snd p) l s) \<le> kc_slot_elems c"
        using cell_width[OF dense_chain(1)[OF sl]] l by (simp add: dense_cell_def)
      assume w: "0 < snd (dense_cell c (snd p) l s)"
      show "rng (kc_input c (fst p) + (ring_chunk (kc_nranks c) (fst p) j * kc_count c + (dense_off c (snd p) + fst (dense_cell c (snd p) l s))))
          (snd (dense_cell c (snd p) l s)) \<subseteq> (\<lambda>i. kc_input c (fst p) + i) ` chunks c (snd p)"
        using n by (intro chunk_rng ring_chunk_less dense_cell_rng[OF w]) simp
      show "rng (kc_output c (fst p) + (dense_off c (snd p) + fst (dense_cell c (snd p) l s))) (snd (dense_cell c (snd p) l s)) \<subseteq> (\<lambda>i. kc_output c (fst p) + i) ` dense_part c (snd p)"
        unfolding dense_part_def by (intro shift_rng_subset dense_cell_rng[OF w]) }
    fix j l' j' s' a
    assume j: "j < kc_nranks c" "j' < kc_nranks c" and l': "l' < length (dense_rounds c (snd p))"
      and w: "desc_writes (rs_kind (kc_nranks c) j, 0, 0, 0)" "desc_writes (rs_kind (kc_nranks c) j', 0, 0, 0)"
      and a: "a \<in> rng (kc_output c (fst p) + (dense_off c (snd p) + fst (dense_cell c (snd p) l s))) (snd (dense_cell c (snd p) l s))"
        "a \<in> rng (kc_output c (fst p) + (dense_off c (snd p) + fst (dense_cell c (snd p) l' s'))) (snd (dense_cell c (snd p) l' s'))"
    have "l = l' \<and> s = s'" using dense_cell_unique[OF sl l l' a[THEN in_shift_rng]] .
    moreover have "j = j'" using w rs_kind_flags(5)[OF n] j by metis
    ultimately show "(l, j, s) = (l', j', s')" by blast
  next
    show "0 < j" if "desc_in (rs_kind (kc_nranks c) j, 0, 0, 0)" for j
      using that by (cases j) (simp_all add: rs_kind_def desc_defs)
  qed (use n in \<open>simp_all add: rs_kind_flags prev_pid_def\<close>)
qed

section \<open>Program and contract\<close>

lemma rs_stage_list:
  assumes "2 \<le> n"
  shows "[0..<n] = 0 # map (\<lambda>j. j - 1) [2..<n] @ [n - 1]"
proof -
  have a: "map (\<lambda>j. j - 1) [2..<n] = [1..<n - 1]" by (rule nth_equalityI) auto
  have "[0..<n] = 0 # [1..<n]" using assms by (simp add: upt_conv_Cons)
  also have "[1..<n] = [1..<n - 1] @ [n - 1]" using assms upt_Suc_append[of 1 "n - 1"] by simp
  finally show ?thesis by (simp only: a)
qed

lemma rs_kind_code:
  assumes "2 \<le> n"
  shows "rs_kind n 0 = K_send" "rs_kind n (n - 1) = K_rrc" "2 \<le> j \<Longrightarrow> j < n \<Longrightarrow> rs_kind n (j - 1) = K_rrs"
  using assms by (auto simp: rs_kind_def)

lemma reduce_scatter_iter_stages:
  assumes n: "2 \<le> kc_nranks c" and r: "r < kc_nranks c"
  shows "reduce_scatter_iter c r (dense_off c ch) (dense_rounds c ch ! l) =
         concat (map (\<lambda>j. map (\<lambda>s. desc_ops c (rs_slice c (r, ch) l j s)) [0..<2]) [0..<kc_nranks c])"
proof -
  obtain e lc where el: "dense_rounds c ch ! l = (e, lc)" by (cases "dense_rounds c ch ! l")
  let ?N = "kc_nranks c"
  let ?pr = "\<lambda>kd k. map (\<lambda>s. desc_ops c (prim c kd (kc_input c r + (k * kc_count c + (dense_off c ch + e)))
      (kc_output c r + (dense_off c ch + e)) lc s)) [0..<2]"
  have st: "map (\<lambda>s. desc_ops c (rs_slice c (r, ch) l j s)) [0..<2] = ?pr (rs_kind ?N j) (ring_chunk ?N r j)" for j
    by (simp add: rs_slice_def el)
  note code = rs_kind_code[OF n] ring_chunk_code(1,2,4)[OF n r]
  have mid: "map (\<lambda>j. ?pr (rs_kind ?N (j - 1)) (ring_chunk ?N r (j - 1))) [2..<?N] =
      map (\<lambda>j. ?pr K_rrs ((r + ?N - j) mod ?N)) [2..<?N]"
    by (rule map_cong[OF refl]) (simp only: set_upt atLeastLessThan_iff code)
  show ?thesis
    unfolding st rs_stage_list[OF n] el reduce_scatter_iter_def Let_def prod.case
    unfolding list.map map_append map_map o_def mid concat.simps concat_append append_Nil2
    unfolding code(1,2,4,5) by (simp only: prim_slices[symmetric])
qed

lemma reduce_scatter_staged_program:
  assumes v: "rs_valid c" and p: "p \<in> grid c"
  shows "\<exists>P. reduce_scatter_program c p = Some P \<and>
    concat P = staged_program c (kc_nranks c) (\<lambda>p. length (dense_rounds c (snd p))) (rs_slice c) p"
proof -
  obtain r ch where e: "p = (r, ch)" by (cases p)
  have rc: "r < kc_nranks c" "ch < kc_channels c" using p e by (auto simp: grid_def)
  have n: "2 \<le> kc_nranks c" and sl: "0 < kc_slot_elems c" using v by (simp_all add: rs_valid_def cfg_ok_def)
  have pt: "channel_part (kc_channels c) (kc_count c) ch = (dense_off c ch, dense_cnt c ch)" by (simp add: dense_off_def dense_cnt_def)
  show ?thesis
  proof (cases "dense_cnt c ch = 0")
    case True
    then show ?thesis using rc by (simp add: e reduce_scatter_program_def pt staged_program_def dense_rounds_def)
  next
    case False
    have ls: "part_loops (kc_slot_elems c) (dense_cnt c ch) 0 = Some (dense_rounds c ch)" using dense_chain(3)[OF sl] False by simp
    have ne: "dense_rounds c ch \<noteq> []" using chain_empty[OF dense_chain(1)[OF sl]] False by simp
    have "map (reduce_scatter_iter c r (dense_off c ch)) (dense_rounds c ch) =
        map (\<lambda>l. concat (map (\<lambda>j. map (\<lambda>s. desc_ops c (rs_slice c (r, ch) l j s)) [0..<2]) [0..<kc_nranks c])) [0..<length (dense_rounds c ch)]"
      by (rule nth_equalityI) (simp_all add: reduce_scatter_iter_stages[OF n rc(1)])
    then show ?thesis using rc False ls ne by (simp add: e reduce_scatter_program_def pt staged_program_def)
  qed
qed

interpretation rs: ring_collective rs_valid reduce_scatter_program "\<lambda>c. image_region c (chunks c) (dense_part c)"
  kc_nranks "\<lambda>c p. length (dense_rounds c (snd p))" rs_slice
proof
  fix c :: "'a kcfg" and p
  assume v: "rs_valid c"
  show "cfg_ok c" using v by (simp add: rs_valid_def)
  show "staged_ok c (grid c) (image_region c (chunks c) (dense_part c)) (kc_nranks c) (\<lambda>p. length (dense_rounds c (snd p))) (rs_slice c)"
    using v by (rule rs_staged)
  show "region_layout c (image_region c (chunks c) (dense_part c))"
    using v by (intro image_region_layout[of c "kc_nranks c * kc_count c" "kc_count c"] conjI chunks_bound
      dense_part_bound chunks_disjoint dense_part_disjoint) (simp_all add: rs_valid_def)
  assume "p \<in> grid c"
  then show "\<exists>P. reduce_scatter_program c p = Some P \<and>
    concat P = staged_program c (kc_nranks c) (\<lambda>p. length (dense_rounds c (snd p))) (rs_slice c) p"
    using v by (intro reduce_scatter_staged_program)
qed

section \<open>Results\<close>

lemma rs_stval:
  assumes v: "rs_valid c" and l: "l < length (dense_rounds c ch)" and "r < kc_nranks c" "j < kc_nranks c"
  shows "stval c m0 (rs_slice c) (r, ch) l j s =
     map (\<lambda>i. ring_partial c (\<lambda>r'. m0 (kc_input c r' + (ring_chunk (kc_nranks c) r j * kc_count c +
                 (dense_off c ch + fst (dense_cell c ch l s) + i))))
                ((r + 2 * kc_nranks c - j) mod kc_nranks c) j) [0..<snd (dense_cell c ch l s)]"
  using assms(3,4)
proof (induction j arbitrary: r)
  case 0
  have n: "2 \<le> kc_nranks c" "0 < kc_slot_elems c" using v by (simp_all add: rs_valid_def cfg_ok_def)
  have "(r + 2 * kc_nranks c) mod kc_nranks c = r" using 0 by simp
  then show ?case
    by (simp add: rs_slice_uniform[OF n(2) l] uniform_def desc_val_def rs_kind_code(1)[OF n(1)] rd_def add.assoc)
next
  case (Suc j)
  let ?N = "kc_nranks c" and ?q = "(r + kc_nranks c - 1) mod kc_nranks c"
  have n: "2 \<le> ?N" "0 < kc_slot_elems c" using v by (simp_all add: rs_valid_def cfg_ok_def)
  have ck: "ring_chunk ?N ?q j = ring_chunk ?N r (Suc j)" using n Suc.prems by (intro ring_chunk_prev) auto
  have q: "?q < ?N" using n by simp
  have st: "(?q + 2 * ?N - j) mod ?N = (r + 2 * ?N - Suc j) mod ?N" using n Suc.prems by (intro ring_start_prev) auto
  have j: "j < ?N" using Suc.prems by simp
  have own: "((r + 2 * ?N - Suc j) mod ?N + Suc j) mod ?N = r" using Suc.prems by (intro ring_start_owner) auto
  have kd: "rs_kind ?N (Suc j) = (if Suc (Suc j) = ?N then K_rrc else K_rrs)" using Suc.prems by (auto simp: rs_kind_def)
  show ?case
    unfolding stval.simps prev_pid_def fst_conv snd_conv Suc.IH[OF q j] ck st ring_partial.simps own
    by (auto simp: rs_slice_uniform[OF n(2) l] uniform_def desc_val_def kd rd_def map2_map_map add.assoc intro!: nth_equalityI)
qed

lemma rs_result:
  assumes v: "rs_valid c" and q: "quiescent c s" and sched: "set sched \<subseteq> grid c"
    and s': "s' = run c sched (launch_all c (reduce_scatter_program c) s)" and fin: "finished c s'"
    and r: "r < kc_nranks c" and i: "i < kc_count c"
  shows "net_mem s' (kc_output c r + i) = ring_result c (\<lambda>r'. net_mem s (kc_input c r' + (r * kc_count c + i))) r"
proof -
  have n: "2 \<le> kc_nranks c" and C: "0 < kc_channels c" and sl: "0 < kc_slot_elems c" using v by (simp_all add: rs_valid_def cfg_ok_def)
  obtain ch where ch: "ch < kc_channels c" "i \<in> dense_part c ch" using dense_part_cover[OF C i] .
  obtain l x where l: "l < length (dense_rounds c ch)" "x < 2" "in_cell (dense_cell c ch l x) (i - dense_off c ch)"
    using dense_locate[OF sl ch(2)] .
  let ?cl = "dense_cell c ch l x" and ?j = "kc_nranks c - 1"
  define d where "d = i - dense_off c ch - fst ?cl"
  have off: "dense_off c ch \<le> i" using ch(2) by (simp add: dense_part_def)
  have d: "d < snd ?cl" "i = dense_off c ch + fst ?cl + d" using l(3) off by (auto simp: in_cell_def d_def)
  have p: "(r, ch) \<in> grid c" using r ch by (simp add: grid_def)
  have j: "?j < kc_nranks c" "?j < 2 * kc_nranks c - 1" using n by simp_all
  have dsc: "rs_slice c (r, ch) l ?j x = (K_rrc, kc_input c r + (r * kc_count c + (dense_off c ch + fst ?cl)),
      kc_output c r + (dense_off c ch + fst ?cl), snd ?cl)"
    using d(1) unfolding rs_slice_uniform[OF sl l(1)] uniform_def rs_kind_code(2)[OF n] ring_chunk_code(2)[OF n r] by simp
  have "net_mem s' (kc_output c r + (dense_off c ch + fst ?cl) + d) = stval c (net_mem s) (rs_slice c) (r, ch) l ?j x ! d"
    using rs.finished_memory[OF v q sched s' fin p _ j(1) l(2), of l d] l(1) d(1) unfolding dsc by (simp add: desc_writes_def)
  also have "\<dots> = ring_partial c (\<lambda>r'. net_mem s (kc_input c r' + (r * kc_count c + i))) ((r + 1) mod kc_nranks c) ?j"
    using d unfolding rs_stval[OF v l(1) r j(1)] ring_start_chunk[OF n r j(2)] ring_chunk_code(2)[OF n r] by simp
  finally show ?thesis using d(2) by (simp add: ring_result_def add.assoc)
qed

section \<open>Properties\<close>

lemma demo_rs_valid: "rs_valid demo_cfg"
  using demo_cfg_ok demo_buffers[of 6 3] by (simp add: rs_valid_def demo_cfg_def)

text \<open>C5: ReduceScatter is correct. For every schedule, once all blocks have finished, element
  \<open>i\<close> of rank \<open>r\<close>'s output is the reduction, once around the ring, of element \<open>i\<close> of chunk
  \<open>r\<close> of all ranks' inputs.\<close>

theorem reduce_scatter_correct:
  assumes "rs_valid c" "quiescent c s" "set sched \<subseteq> grid c"
    "s' = run c sched (launch_all c (reduce_scatter_program c) s)" "finished c s'" "r < kc_nranks c" "i < kc_count c"
  shows "net_mem s' (kc_output c r + i) = ring_result c (\<lambda>r'. net_mem s (kc_input c r' + (r * kc_count c + i))) r"
  using assms by (rule rs_result)

theorem reduce_scatter_correct_witness:
  "net_mem (run demo_cfg (concat (demo_rounds (reduce_scatter_program demo_cfg)))
     (launch_all demo_cfg (reduce_scatter_program demo_cfg) demo_net)) (kc_output demo_cfg 1 + 2) = 5 + 15"
proof -
  have d: "kc_nranks demo_cfg = 2" "kc_num demo_cfg = int_num" "kc_op demo_cfg = RSum" "(2::nat) < kc_count demo_cfg"
    "(1::nat) < kc_nranks demo_cfg" "kc_input demo_cfg = (\<lambda>r. 10 * r)" "net_mem demo_net = int" "kc_count demo_cfg = 3"
    by (simp_all add: demo_cfg_def demo_net_def)
  have fin: "finished demo_cfg (run demo_cfg (concat (demo_rounds (reduce_scatter_program demo_cfg)))
           (launch_all demo_cfg (reduce_scatter_program demo_cfg) demo_net))"
    by (rule rs.fair_run_finishes[OF demo_rs_valid demo_quiescent demo_fair])
  have "(\<Sum>r<2. int (10 * r + (1 * 3 + 2))) = 5 + 15" by (simp add: numeral_2_eq_2)
  then show ?thesis
    using reduce_scatter_correct[OF demo_rs_valid demo_quiescent demo_sched refl fin d(5,4)] ring_result_sum[OF d(2,3,5)]
    unfolding d(1,6,7,8) by simp
qed

text \<open>ReduceScatter makes progress: every fair run finishes, within as many rounds as there are
  operations, and leaves the edges quiet for the next collective.\<close>

theorem reduce_scatter_terminates:
  assumes "rs_valid c" "quiescent c s" "\<forall>r\<in>set rounds. fair c r" "ops_total c (reduce_scatter_program c) \<le> length rounds"
  shows "finished c (run c (concat rounds) (launch_all c (reduce_scatter_program c) s)) \<and>
         quiescent c (run c (concat rounds) (launch_all c (reduce_scatter_program c) s))"
proof -
  have "set (concat rounds) \<subseteq> grid c" using assms(3) by (auto simp: fair_def)
  with rs.fair_run_finishes[OF assms] rs.finished_quiescent[OF assms(1,2) _ refl] show ?thesis by blast
qed

theorem reduce_scatter_terminates_witness:
  "finished demo_cfg (run demo_cfg (concat (demo_rounds (reduce_scatter_program demo_cfg)))
     (launch_all demo_cfg (reduce_scatter_program demo_cfg) demo_net))"
  using reduce_scatter_terminates[OF demo_rs_valid demo_quiescent demo_fair] by blast

end
