(* ===== verification/All_Gather.thy ===== *)
theory All_Gather
  imports Reduce_Scatter
begin

text \<open>
  The AllGather kernel as a staged ring collective of \<open>nranks + 1\<close> stages: the copy of the own
  block to the own output, then one full turn of every block around the ring. The
  interpretation discharges the contract of \<open>ring_collective\<close> for \<open>all_gather_program\<close>.
\<close>

section \<open>Stages\<close>

definition ag_kind :: "nat \<Rightarrow> nat \<Rightarrow> skind" where
  "ag_kind n j = (if j = 0 then K_local else if j = 1 then K_send else if j < n then K_rcs else K_recv)"

text \<open>Rank whose block is handled in stage \<open>j\<close>.\<close>

definition ag_source :: "nat \<Rightarrow> nat \<Rightarrow> nat \<Rightarrow> nat" where
  "ag_source n r j = (if j = 0 then r else (r + n + 1 - j) mod n)"

definition ag_cell :: "'t kcfg \<Rightarrow> nat \<Rightarrow> nat \<Rightarrow> nat \<Rightarrow> nat \<Rightarrow> nat \<times> nat" where
  "ag_cell c ch l j s =
     (if j = 0 then if s = 0 then dense_rounds c ch ! l else (0, 0) else dense_cell c ch l s)"

definition ag_slice :: "'t kcfg \<Rightarrow> pid \<Rightarrow> nat \<Rightarrow> nat \<Rightarrow> nat \<Rightarrow> sdesc" where
  "ag_slice c = (\<lambda>(r, ch) l.
     uniform (ag_kind (kc_nranks c)) (\<lambda>j s. kc_input c r + (dense_off c ch + fst (ag_cell c ch l j s)))
       (\<lambda>j s. kc_output c r + (ag_source (kc_nranks c) r j * kc_count c + (dense_off c ch + fst (ag_cell c ch l j s))))
       (\<lambda>j s. snd (ag_cell c ch l j s)))"

definition ag_valid :: "'t kcfg \<Rightarrow> bool" where
  "ag_valid c \<longleftrightarrow> cfg_ok c \<and> 0 < kc_channels c \<and> 0 < kc_slot_elems c \<and>
     buffers_ok c (kc_count c) (kc_nranks c * kc_count c)"

lemma ag_kind_flags:
  assumes "2 \<le> n" "j < n + 1"
  shows "ag_kind n j \<noteq> K_end" "desc_in (ag_kind n j, x) \<longleftrightarrow> 1 < j" "desc_out (ag_kind n j, x) \<longleftrightarrow> 0 < j \<and> j < n"
    "desc_reads (ag_kind n j, x) \<longleftrightarrow> j \<le> 1" "desc_writes (ag_kind n j, x) \<longleftrightarrow> j \<noteq> 1"
  using assms by (auto simp: ag_kind_def desc_defs)

lemma ag_source_less: "0 < n \<Longrightarrow> r < n \<Longrightarrow> ag_source n r j < n"
  by (simp add: ag_source_def)

text \<open>The blocks arriving in the stages that store are those of distinct ranks.\<close>

lemma ag_source_neq:
  assumes "2 \<le> n" "r < n" "j < j'" "j' < n + 1" "j \<noteq> 1" "j' \<noteq> 1"
  shows "ag_source n r j \<noteq> ag_source n r j'"
proof (cases "j = 0")
  case True
  have "r + n + 1 - j' < r + n" "r + n < r + n + 1 - j' + n" using assms True by linarith+
  from mod_neq_close[OF this] show ?thesis using True assms by (simp add: ag_source_def)
next
  case False
  have "r + n + 1 - j' < r + n + 1 - j" "r + n + 1 - j < r + n + 1 - j' + n" using assms False by linarith+
  from mod_neq_close[OF this] show ?thesis using False assms by (simp add: ag_source_def)
qed

lemma ag_source_inj:
  assumes "2 \<le> n" "r < n" "j < n + 1" "j' < n + 1" "j \<noteq> 1" "j' \<noteq> 1" "ag_source n r j = ag_source n r j'"
  shows "j = j'"
  using ag_source_neq[OF assms(1,2) _ assms(4,5,6)] ag_source_neq[OF assms(1,2) _ assms(3,6,5)] assms(7)
  by (metis linorder_neqE_nat)

lemma ag_source_prev:
  assumes "2 \<le> n" "r < n" "0 < j" "j < n"
  shows "ag_source n ((r + n - 1) mod n) j = ag_source n r (Suc j)"
proof (cases "r = 0")
  case True
  have "n - 1 + n + 1 - j = (n + 1 - Suc j) + n" using assms by simp
  then have "(n - 1 + n + 1 - j) mod n = (n + 1 - Suc j) mod n" by (simp only: mod_add_self2)
  then show ?thesis using True assms by (simp add: ag_source_def)
next
  case False
  have "(r + n - 1) mod n = r - 1" using False assms by (simp add: mod_if)
  moreover have "r - 1 + n + 1 - j = r + n + 1 - Suc j" using False assms by simp
  ultimately show ?thesis using assms by (simp add: ag_source_def)
qed

lemma ag_source_surj:
  assumes "2 \<le> n" "r < n" "k < n"
  shows "\<exists>j<n + 1. j \<noteq> 1 \<and> ag_source n r j = k"
proof (cases "k = r")
  case True
  then show ?thesis by (intro exI[of _ 0]) (simp add: ag_source_def)
next
  case False
  define d where "d = (if k < r then r - k else r + n - k)"
  have d: "0 < d" "d < n" using assms False by (auto simp: d_def)
  have "r + n + 1 - (d + 1) = (if k < r then k + n else k)" using assms False by (auto simp: d_def)
  then have "ag_source n r (d + 1) = k" using assms by (simp add: ag_source_def split: if_splits)
  with d show ?thesis by (intro exI[of _ "d + 1"]) simp
qed

section \<open>Cells\<close>

lemma ag_round_in_part:
  assumes "0 < kc_slot_elems c" "l < length (dense_rounds c ch)"
  shows "fst (dense_rounds c ch ! l) + snd (dense_rounds c ch ! l) \<le> dense_cnt c ch"
  using dense_chain(2)[OF assms(1)] nth_mem[OF assms(2)] by blast

lemma ag_cell_in_part:
  assumes "0 < kc_slot_elems c" "l < length (dense_rounds c ch)" "0 < snd (ag_cell c ch l j s)"
  shows "fst (ag_cell c ch l j s) + snd (ag_cell c ch l j s) \<le> dense_cnt c ch"
  using assms ag_round_in_part dense_cell_rng[of c ch l s] by (auto simp: ag_cell_def split: if_splits)

lemma ag_cell_width:
  assumes "0 < kc_slot_elems c" "l < length (dense_rounds c ch)"
  shows "snd (ag_cell c ch l j s) \<le> kc_slot_elems c"
  using chain_nth[OF dense_chain(1)[OF assms(1)] assms(2)] cell_width[OF dense_chain(1)[OF assms(1)] assms(2), of c 0 s]
  by (simp add: ag_cell_def dense_cell_def)

lemma ag_cell_unique:
  assumes sl: "0 < kc_slot_elems c" and l: "l < length (dense_rounds c ch)" "l' < length (dense_rounds c ch)"
    and i: "in_cell (ag_cell c ch l j s) i" "in_cell (ag_cell c ch l' j s') i" and s: "s < 2" "s' < 2"
  shows "l = l' \<and> s = s'"
proof (cases "j = 0")
  case True
  have z: "s = 0" "s' = 0" using i True by (auto simp: ag_cell_def in_cell_def split: if_splits)
  have "l = l'"
  proof (rule ccontr)
    assume "l \<noteq> l'"
    then consider "l < l'" | "l' < l" by linarith
    then show False
      using chain_sep[OF dense_chain(1)[OF sl, of ch], of l l'] chain_sep[OF dense_chain(1)[OF sl, of ch], of l' l] l i True z
      by cases (auto simp: ag_cell_def in_cell_def)
  qed
  with z show ?thesis by simp
next
  case False
  then show ?thesis using dense_cell_unique[OF sl l] i by (simp add: ag_cell_def)
qed

text \<open>An address of the gathered output determines the source and the index.\<close>

lemma ag_addr_unique:
  assumes cell: "in_cell y (a - out - k * n - off)" "in_cell y' (a - out - k' * n - off)"
    and b: "off + (fst y + snd y) \<le> n" "off + (fst y' + snd y') \<le> (n :: nat)"
    and a: "a \<in> rng (out + (k * n + (off + fst y))) (snd y)" "a \<in> rng (out + (k' * n + (off + fst y'))) (snd y')"
  shows "k = k' \<and> in_cell y' (a - out - k * n - off)"
proof -
  let ?i = "a - out - k * n" and ?i' = "a - out - k' * n"
  have "k * n + ?i = k' * n + ?i'" "?i < n" "?i' < n" using a b by (auto simp: rng_def)
  then have "k = k'" using chunk_decode by blast
  with cell show ?thesis by simp
qed

lemma in_shift2_rng: "x \<in> rng (a + (k + (off + fst y))) (snd y) \<Longrightarrow> in_cell y (x - a - k - off)"
  by (auto simp: rng_def in_cell_def)

section \<open>Contract\<close>

lemma dense_end_bound:
  assumes "ch < kc_channels c" "0 < dense_cnt c ch"
  shows "dense_off c ch + dense_cnt c ch \<le> kc_count c"
proof -
  have "dense_off c ch + dense_cnt c ch - 1 \<in> dense_part c ch" using assms(2) by (simp add: dense_part_def)
  then show ?thesis using dense_part_bound[OF assms(1)] assms(2) by auto
qed

lemma ag_staged:
  assumes v: "ag_valid c"
  shows "staged_ok c (grid c) (image_region c (dense_part c) (chunks c)) (kc_nranks c + 1)
           (\<lambda>p. length (dense_rounds c (snd p))) (ag_slice c)"
proof -
  let ?N = "kc_nranks c"
  have n: "2 \<le> ?N" and sl: "0 < kc_slot_elems c" and buf: "buffers_ok c (kc_count c) (?N * kc_count c)"
    using v by (simp_all add: ag_valid_def cfg_ok_def)
  show ?thesis
  proof (rule staged_okI[where kd = "ag_kind ?N"
        and loc = "\<lambda>p l j s. kc_input c (fst p) + (dense_off c (snd p) + fst (ag_cell c (snd p) l j s))"
        and dst = "\<lambda>p l j s. kc_output c (fst p) + (ag_source ?N (fst p) j * kc_count c + (dense_off c (snd p) + fst (ag_cell c (snd p) l j s)))"
        and W = "\<lambda>p l j s. snd (ag_cell c (snd p) l j s)"
        and A = "\<lambda>p. (\<lambda>i. kc_input c (fst p) + i) ` dense_part c (snd p)"
        and B = "\<lambda>p. (\<lambda>i. kc_output c (fst p) + i) ` chunks c (snd p)"])
    fix p assume p: "p \<in> grid c"
    obtain r ch where e: "p = (r, ch)" by (cases p)
    have rc: "r < ?N" "ch < kc_channels c" using p e by (auto simp: grid_def)
    note bnd = dense_end_bound[OF rc(2)]
    show "prev_pid c p \<in> grid c \<and> length (dense_rounds c (snd (prev_pid c p))) = length (dense_rounds c (snd p))"
      using grid_ring(2)[OF n p] by (simp add: prev_pid_def)
    show "(\<lambda>i. kc_input c (fst p) + i) ` dense_part c (snd p) \<inter> (\<lambda>i. kc_output c (fst p) + i) ` chunks c (snd p) = {}"
      using buffers_okD(1)[OF buf rc(1) rc(1)] image_in_rng[OF chunks_bound[OF rc(2)], of "kc_output c r"]
        image_in_rng[OF dense_part_bound[OF rc(2)], of "kc_input c r"] by (simp add: e) blast
    show "image_region c (dense_part c) (chunks c) p = (\<lambda>i. kc_input c (fst p) + i) ` dense_part c (snd p) \<union> (\<lambda>i. kc_output c (fst p) + i) ` chunks c (snd p)"
      by (simp add: image_region_def e)
    fix l assume l: "l < length (dense_rounds c (snd p))"
    fix s assume s: "s < (2::nat)"
    { fix j assume j: "j < ?N + 1"
      show "ag_slice c p l j s = uniform (ag_kind ?N)
          (\<lambda>j s. kc_input c (fst p) + (dense_off c (snd p) + fst (ag_cell c (snd p) l j s)))
          (\<lambda>j s. kc_output c (fst p) + (ag_source ?N (fst p) j * kc_count c + (dense_off c (snd p) + fst (ag_cell c (snd p) l j s))))
          (\<lambda>j s. snd (ag_cell c (snd p) l j s)) j s"
        by (simp add: e ag_slice_def)
      show "snd (ag_cell c (snd p) l j s) \<le> kc_slot_elems c" using ag_cell_width[OF sl l] .
      assume w: "0 < snd (ag_cell c (snd p) l j s)"
      show "rng (kc_input c (fst p) + (dense_off c (snd p) + fst (ag_cell c (snd p) l j s))) (snd (ag_cell c (snd p) l j s)) \<subseteq> (\<lambda>i. kc_input c (fst p) + i) ` dense_part c (snd p)"
        unfolding dense_part_def by (intro shift_rng_subset ag_cell_in_part[OF sl l w])
      show "rng (kc_output c (fst p) + (ag_source ?N (fst p) j * kc_count c + (dense_off c (snd p) + fst (ag_cell c (snd p) l j s))))
          (snd (ag_cell c (snd p) l j s)) \<subseteq> (\<lambda>i. kc_output c (fst p) + i) ` chunks c (snd p)"
        using n rc(1) by (intro chunk_rng ag_source_less ag_cell_in_part[OF sl l w]) (simp_all add: e) }
    fix j l' j' s' a
    assume j: "j < ?N + 1" "j' < ?N + 1" and l': "l' < length (dense_rounds c (snd p))" and s': "s' < 2"
      and w: "desc_writes (ag_kind ?N j, 0, 0, 0)" "desc_writes (ag_kind ?N j', 0, 0, 0)"
      and a: "a \<in> rng (kc_output c (fst p) + (ag_source ?N (fst p) j * kc_count c + (dense_off c (snd p) + fst (ag_cell c (snd p) l j s)))) (snd (ag_cell c (snd p) l j s))"
        "a \<in> rng (kc_output c (fst p) + (ag_source ?N (fst p) j' * kc_count c + (dense_off c (snd p) + fst (ag_cell c (snd p) l' j' s')))) (snd (ag_cell c (snd p) l' j' s'))"
    have pos: "0 < snd (ag_cell c (snd p) l j s)" "0 < snd (ag_cell c (snd p) l' j' s')" using a by (auto simp: rng_def)
    have in': "dense_off c (snd p) + (fst (ag_cell c (snd p) l j s) + snd (ag_cell c (snd p) l j s)) \<le> kc_count c"
      "dense_off c (snd p) + (fst (ag_cell c (snd p) l' j' s') + snd (ag_cell c (snd p) l' j' s')) \<le> kc_count c"
      using ag_cell_in_part[OF sl l pos(1)] ag_cell_in_part[OF sl l' pos(2)] bnd pos e by fastforce+
    note u = ag_addr_unique[OF a[THEN in_shift2_rng] in' a]
    have "j \<noteq> 1" "j' \<noteq> 1" using w ag_kind_flags(5)[OF n j(1)] ag_kind_flags(5)[OF n j(2)] by simp_all
    then have "j = j'" using rc(1) e u[THEN conjunct1] by (intro ag_source_inj[OF n _ j]) simp_all
    then show "(l, j, s) = (l', j', s')" using ag_cell_unique[OF sl l l' _ _ s s'] u a(1)[THEN in_shift2_rng] by blast
  next
    fix p l j s assume j: "Suc j < ?N + 1" and i: "desc_in (ag_kind ?N (Suc j), 0, 0, 0)"
    then have "0 < j" using ag_kind_flags(2)[OF n j, of "(0, 0, 0)"] by simp
    then show "snd (ag_cell c (snd (prev_pid c p)) l j s) = snd (ag_cell c (snd p) l (Suc j) s)"
      by (simp add: prev_pid_def ag_cell_def)
  next
    show "0 < j" if "desc_in (ag_kind ?N j, 0, 0, 0)" for j
      using that by (cases j) (simp_all add: ag_kind_def desc_defs)
  qed (use n in \<open>auto simp: ag_kind_flags\<close>)
qed

lemma ag_stage_list:
  assumes "2 \<le> n"
  shows "[0..<n + 1] = 0 # 1 # map Suc [1..<n - 1] @ [n]"
proof -
  have "[0..<n + 1] = 0 # 1 # [2..<n + 1]" using assms by (simp add: upt_conv_Cons numeral_2_eq_2)
  also have "[2..<n + 1] = [2..<n] @ [n]" using assms by simp
  also have "[2..<n] = map Suc [1..<n - 1]" using assms by (simp add: map_Suc_upt numeral_2_eq_2)
  finally show ?thesis by simp
qed

lemma ag_code:
  assumes "2 \<le> n" "r < n"
  shows "ag_kind n 1 = K_send" "ag_kind n n = K_recv" "1 \<le> j \<Longrightarrow> j < n - 1 \<Longrightarrow> ag_kind n (Suc j) = K_rcs"
    "ag_source n r 1 = r" "ag_source n r n = (r + 1) mod n" "ag_source n r (Suc j) = (r + n - j) mod n"
  using assms by (auto simp: ag_kind_def ag_source_def)

lemma ag_slice_prim:
  assumes "0 < kc_slot_elems c" "l < length (dense_rounds c ch)" "dense_rounds c ch ! l = (e, lc)" "0 < j"
  shows "ag_slice c (r, ch) l j s =
    prim c (ag_kind (kc_nranks c) j) (kc_input c r + (dense_off c ch + e))
      (kc_output c r + (ag_source (kc_nranks c) r j * kc_count c + (dense_off c ch + e))) lc s"
  using dense_prim[OF assms(1-3), of "ag_kind (kc_nranks c) j" "kc_input c r" 0] assms(4)
  by (simp add: ag_slice_def uniform_def ag_cell_def)

lemma ag_slice_local:
  assumes "0 < kc_slot_elems c" "l < length (dense_rounds c ch)" "dense_rounds c ch ! l = (e, lc)"
  shows "map (\<lambda>s. desc_ops c (ag_slice c (r, ch) l 0 s)) [0..<2] =
    [[Copy_local (kc_input c r + (dense_off c ch + e)) (kc_output c r + (r * kc_count c + (dense_off c ch + e))) lc], []]"
proof -
  have "0 < lc" using chain_nth[OF dense_chain(1)[OF assms(1)] assms(2)] assms(3) by simp
  then show ?thesis
    by (simp add: ag_slice_def uniform_def ag_cell_def assms(3) ag_kind_def ag_source_def desc_ops_def numeral_2_eq_2)
qed

lemma all_gather_iter_stages:
  assumes n: "2 \<le> kc_nranks c" and r: "r < kc_nranks c" and sl: "0 < kc_slot_elems c" and l: "l < length (dense_rounds c ch)"
  shows "concat (all_gather_iter c r (dense_off c ch) (dense_rounds c ch ! l)) =
         concat (concat (map (\<lambda>j. map (\<lambda>s. desc_ops c (ag_slice c (r, ch) l j s)) [0..<2]) [0..<kc_nranks c + 1]))"
proof -
  obtain e lc where el: "dense_rounds c ch ! l = (e, lc)" by (cases "dense_rounds c ch ! l")
  let ?N = "kc_nranks c"
  let ?pr = "\<lambda>kd k. map (\<lambda>s. desc_ops c (prim c kd (kc_input c r + (dense_off c ch + e))
      (kc_output c r + (k * kc_count c + (dense_off c ch + e))) lc s)) [0..<2]"
  have st: "map (\<lambda>s. desc_ops c (ag_slice c (r, ch) l j s)) [0..<2] = ?pr (ag_kind ?N j) (ag_source ?N r j)" if "0 < j" for j
    using ag_slice_prim[OF sl l el that] by simp
  note code = ag_code[OF n r]
  have mid: "map (\<lambda>j. map (\<lambda>s. desc_ops c (ag_slice c (r, ch) l (Suc j) s)) [0..<2]) [1..<?N - 1] =
      map (\<lambda>j. ?pr K_rcs ((r + ?N - j) mod ?N)) [1..<?N - 1]"
    by (rule map_cong[OF refl]) (simp only: set_upt atLeastLessThan_iff st[OF zero_less_Suc] code)
  have N: "0 < ?N" using n by simp
  have one: "(0::nat) < 1" by simp
  show ?thesis
    unfolding ag_stage_list[OF n] el all_gather_iter_def Let_def prod.case
    unfolding list.map map_append map_map o_def mid concat.simps concat_append append_Nil2
      ag_slice_local[OF sl l el] st[OF N] st[OF one]
    unfolding code(1,2,4,5) by (simp only: prim_slices[symmetric] concat.simps append.simps concat_append append_Nil2)
qed

lemma concat_concat_cong:
  "(\<And>x. x \<in> set xs \<Longrightarrow> concat (f x) = concat (g x)) \<Longrightarrow> concat (concat (map f xs)) = concat (concat (map g xs))"
  by (induction xs) auto

lemma all_gather_staged_program:
  assumes v: "ag_valid c" and p: "p \<in> grid c"
  shows "\<exists>P. all_gather_program c p = Some P \<and>
    concat P = staged_program c (kc_nranks c + 1) (\<lambda>p. length (dense_rounds c (snd p))) (ag_slice c) p"
proof -
  obtain r ch where e: "p = (r, ch)" by (cases p)
  have rc: "r < kc_nranks c" "ch < kc_channels c" using p e by (auto simp: grid_def)
  have n: "2 \<le> kc_nranks c" and sl: "0 < kc_slot_elems c" using v by (simp_all add: ag_valid_def cfg_ok_def)
  have pt: "channel_part (kc_channels c) (kc_count c) ch = (dense_off c ch, dense_cnt c ch)" by (simp add: dense_off_def dense_cnt_def)
  show ?thesis
  proof (cases "dense_cnt c ch = 0")
    case True
    then show ?thesis using rc by (simp add: e all_gather_program_def pt staged_program_def dense_rounds_def)
  next
    case False
    have ls: "part_loops (kc_slot_elems c) (dense_cnt c ch) 0 = Some (dense_rounds c ch)" using dense_chain(3)[OF sl] False by simp
    have ne: "dense_rounds c ch \<noteq> []" using chain_empty[OF dense_chain(1)[OF sl]] False by simp
    have nth: "map (all_gather_iter c r (dense_off c ch)) (dense_rounds c ch) =
        map (\<lambda>l. all_gather_iter c r (dense_off c ch) (dense_rounds c ch ! l)) [0..<length (dense_rounds c ch)]"
      by (rule nth_equalityI) simp_all
    have "concat (concat (map (all_gather_iter c r (dense_off c ch)) (dense_rounds c ch))) =
        concat (concat (map (\<lambda>l. concat (map (\<lambda>j. map (\<lambda>s. desc_ops c (ag_slice c (r, ch) l j s)) [0..<2]) [0..<kc_nranks c + 1])) [0..<length (dense_rounds c ch)]))"
      unfolding nth by (rule concat_concat_cong) (simp only: set_upt atLeastLessThan_iff all_gather_iter_stages[OF n rc(1) sl])
    then show ?thesis using rc False ls ne by (simp add: e all_gather_program_def pt staged_program_def del: upt_Suc)
  qed
qed

interpretation ag: ring_collective ag_valid all_gather_program "\<lambda>c. image_region c (dense_part c) (chunks c)"
  "\<lambda>c. kc_nranks c + 1" "\<lambda>c p. length (dense_rounds c (snd p))" ag_slice
proof
  fix c :: "'a kcfg" and p
  assume v: "ag_valid c"
  show "cfg_ok c" using v by (simp add: ag_valid_def)
  show "staged_ok c (grid c) (image_region c (dense_part c) (chunks c)) (kc_nranks c + 1) (\<lambda>p. length (dense_rounds c (snd p))) (ag_slice c)"
    using v by (rule ag_staged)
  show "region_layout c (image_region c (dense_part c) (chunks c))"
    using v by (intro image_region_layout[of c "kc_count c" "kc_nranks c * kc_count c"] conjI chunks_bound
      dense_part_bound chunks_disjoint dense_part_disjoint) (simp_all add: ag_valid_def)
  assume "p \<in> grid c"
  then show "\<exists>P. all_gather_program c p = Some P \<and>
    concat P = staged_program c (kc_nranks c + 1) (\<lambda>p. length (dense_rounds c (snd p))) (ag_slice c) p"
    using v by (intro all_gather_staged_program)
qed

section \<open>Results\<close>

lemma ag_stval:
  assumes v: "ag_valid c" and l: "l < length (dense_rounds c ch)" and "r < kc_nranks c" "j < kc_nranks c + 1"
  shows "stval c m0 (ag_slice c) (r, ch) l j s =
     map (\<lambda>i. m0 (kc_input c (ag_source (kc_nranks c) r j) + (dense_off c ch + fst (ag_cell c ch l j s) + i)))
       [0..<snd (ag_cell c ch l j s)]"
  using assms(3,4)
proof (induction j arbitrary: r)
  case 0
  show ?case by (simp add: ag_slice_def uniform_def desc_val_def ag_kind_def ag_source_def rd_def add.assoc)
next
  case (Suc j)
  let ?N = "kc_nranks c" and ?q = "(r + kc_nranks c - 1) mod kc_nranks c"
  have n: "2 \<le> ?N" using v by (simp add: ag_valid_def cfg_ok_def)
  have q: "?q < ?N" using n by simp
  have j: "j < ?N + 1" using Suc.prems by simp
  show ?case
  proof (cases "j = 0")
    case True
    then show ?thesis using ag_code(1,4)[OF n Suc.prems(1)]
      by (simp add: ag_slice_def uniform_def desc_val_def rd_def add.assoc)
  next
    case False
    have src: "ag_source ?N ?q j = ag_source ?N r (Suc j)" using n Suc.prems False by (intro ag_source_prev) simp_all
    have cl: "ag_cell c ch l j s = ag_cell c ch l (Suc j) s" using False by (simp add: ag_cell_def)
    have kd: "ag_kind ?N (Suc j) \<in> {K_rcs, K_recv}" using False by (auto simp: ag_kind_def)
    show ?thesis using kd unfolding stval.simps prev_pid_def fst_conv snd_conv Suc.IH[OF q j] src cl
      by (auto simp: ag_slice_def uniform_def desc_val_def)
  qed
qed

lemma ag_locate:
  assumes v: "ag_valid c" and i: "i < kc_count c"
  obtains ch l s where "ch < kc_channels c" "dense_off c ch \<le> i" "l < length (dense_rounds c ch)" "s < 2"
    "in_cell (ag_cell c ch l j s) (i - dense_off c ch)"
proof -
  have C: "0 < kc_channels c" and sl: "0 < kc_slot_elems c" using v by (simp_all add: ag_valid_def)
  obtain ch where ch: "ch < kc_channels c" "i \<in> dense_part c ch" using dense_part_cover[OF C i] .
  have off: "dense_off c ch \<le> i" "i - dense_off c ch < dense_cnt c ch" using ch(2) by (auto simp: dense_part_def)
  show ?thesis
  proof (cases "j = 0")
    case True
    obtain l where "l < length (dense_rounds c ch)" "fst (dense_rounds c ch ! l) \<le> i - dense_off c ch"
        "i - dense_off c ch < fst (dense_rounds c ch ! l) + 1 * snd (dense_rounds c ch ! l)"
      using chain_cover[OF dense_chain(1)[OF sl] _ off(2)] by blast
    with True off(1) ch(1) that[of ch l 0] show ?thesis by (simp add: ag_cell_def in_cell_def)
  next
    case False
    with dense_locate[OF sl ch(2)] off(1) ch(1) that show ?thesis by (metis ag_cell_def)
  qed
qed

lemma ag_result:
  assumes v: "ag_valid c" and q: "quiescent c s" and sched: "set sched \<subseteq> grid c"
    and s': "s' = run c sched (launch_all c (all_gather_program c) s)" and fin: "finished c s'"
    and r: "r < kc_nranks c" "k < kc_nranks c" and i: "i < kc_count c"
  shows "net_mem s' (kc_output c r + (k * kc_count c + i)) = net_mem s (kc_input c k + i)"
proof -
  have n: "2 \<le> kc_nranks c" using v by (simp add: ag_valid_def cfg_ok_def)
  obtain j where j: "j < kc_nranks c + 1" "j \<noteq> 1" "ag_source (kc_nranks c) r j = k" using ag_source_surj[OF n r] by blast
  obtain ch l x where ch: "ch < kc_channels c" "dense_off c ch \<le> i" and l: "l < length (dense_rounds c ch)" "x < 2"
    and cell: "in_cell (ag_cell c ch l j x) (i - dense_off c ch)" using ag_locate[OF v i] .
  let ?cl = "ag_cell c ch l j x"
  define d where "d = i - dense_off c ch - fst ?cl"
  have d: "d < snd ?cl" "i = dense_off c ch + fst ?cl + d" using cell ch(2) by (auto simp: in_cell_def d_def)
  have p: "(r, ch) \<in> grid c" using r ch by (simp add: grid_def)
  have dsc: "ag_slice c (r, ch) l j x = (ag_kind (kc_nranks c) j, kc_input c r + (dense_off c ch + fst ?cl),
      kc_output c r + (k * kc_count c + (dense_off c ch + fst ?cl)), snd ?cl)"
    using d(1) j(3) by (simp add: ag_slice_def uniform_def)
  have "net_mem s' (kc_output c r + (k * kc_count c + (dense_off c ch + fst ?cl)) + d) = stval c (net_mem s) (ag_slice c) (r, ch) l j x ! d"
    using ag.finished_memory[OF v q sched s' fin p _ j(1) l(2), of l d] l(1) d(1) ag_kind_flags(5)[OF n j(1)] j(2)
    unfolding dsc by simp
  also have "\<dots> = net_mem s (kc_input c k + i)" using d j(3) unfolding ag_stval[OF v l(1) r(1) j(1)] by simp
  finally show ?thesis using d(2) by (simp add: add.assoc)
qed

section \<open>Properties\<close>

lemma demo_ag_valid: "ag_valid demo_cfg"
  using demo_cfg_ok demo_buffers[of 3 6] by (simp add: ag_valid_def demo_cfg_def)

text \<open>C6: AllGather is correct. For every schedule, once all blocks have finished, chunk \<open>k\<close> of every
  rank's output is a copy of rank \<open>k\<close>'s input.\<close>

theorem all_gather_correct:
  assumes "ag_valid c" "quiescent c s" "set sched \<subseteq> grid c"
    "s' = run c sched (launch_all c (all_gather_program c) s)" "finished c s'"
    "r < kc_nranks c" "k < kc_nranks c" "i < kc_count c"
  shows "net_mem s' (kc_output c r + (k * kc_count c + i)) = net_mem s (kc_input c k + i)"
  using assms by (rule ag_result)

theorem all_gather_correct_witness:
  "net_mem (run demo_cfg (concat (demo_rounds (all_gather_program demo_cfg)))
     (launch_all demo_cfg (all_gather_program demo_cfg) demo_net)) (kc_output demo_cfg 0 + (1 * kc_count demo_cfg + 2)) = 12"
proof -
  have d: "0 < kc_nranks demo_cfg" "1 < kc_nranks demo_cfg" "2 < kc_count demo_cfg" "net_mem demo_net (kc_input demo_cfg 1 + 2) = 12"
    by (simp_all add: demo_cfg_def demo_net_def)
  have fin: "finished demo_cfg (run demo_cfg (concat (demo_rounds (all_gather_program demo_cfg)))
           (launch_all demo_cfg (all_gather_program demo_cfg) demo_net))"
    by (rule ag.fair_run_finishes[OF demo_ag_valid demo_quiescent demo_fair])
  show ?thesis
    using all_gather_correct[OF demo_ag_valid demo_quiescent demo_sched refl fin d(1,2,3)] unfolding d(4) .
qed

text \<open>AllGather makes progress: every fair run finishes, within as many rounds as there are
  operations, and leaves the edges quiet for the next collective.\<close>

theorem all_gather_terminates:
  assumes "ag_valid c" "quiescent c s" "\<forall>r\<in>set rounds. fair c r" "ops_total c (all_gather_program c) \<le> length rounds"
  shows "finished c (run c (concat rounds) (launch_all c (all_gather_program c) s)) \<and>
         quiescent c (run c (concat rounds) (launch_all c (all_gather_program c) s))"
proof -
  have "set (concat rounds) \<subseteq> grid c" using assms(3) by (auto simp: fair_def)
  with ag.fair_run_finishes[OF assms] ag.finished_quiescent[OF assms(1,2) _ refl] show ?thesis by blast
qed

theorem all_gather_terminates_witness:
  "finished demo_cfg (run demo_cfg (concat (demo_rounds (all_gather_program demo_cfg)))
     (launch_all demo_cfg (all_gather_program demo_cfg) demo_net))"
  using all_gather_terminates[OF demo_ag_valid demo_quiescent demo_fair] by blast

end
