(* ===== verification/Block_Threads.thy ===== *)
theory Block_Threads
  imports Ring_Collective
begin

text \<open>
  The inside of the waits of \<open>kernels/ring_simple_kernel.cuh\<close> (lines 863--1019), one access to shared
  state at a time. Thread 0 of the block polls the receive counter, thread 1 the send counter;
  both report through the word \<open>*wait_status\<close>, which thread 0 sets to one before the barrier at the
  entry and which the whole block tests behind the barrier at the exit. \<open>wait_send_credit\<close> uses
  thread 1 only, \<open>wait_recv_ready\<close> thread 0 only, \<open>wait_recv_ready_and_send_credit\<close> both.

  A schedule is a list of events: a thread of a block moves on, or the host raises the abort flag of
  a rank. The ranks of one process share a flag, which is then an event per rank; a rank launched without a
  flag is one whose flag is never raised. Left out: the test hook \<open>wait_observer\<close>, a word
  that the waits write and nothing reads, and the time stamps of the timeline build.

  With the flags down every run of the threads is matched by a run of the block turns of \<open>Ring_Kernel\<close>
  that has the same memory, the same edges and the same programs (\<open>threads_refine_turns\<close>).
\<close>

section \<open>One polling thread\<close>

text \<open>
  Where a polling thread stands: before the first load of the flag, before the store of zero after it,
  at the loop test, before the load of the flag in the loop, before the store of zero and the break,
  before the load of the counter, at the last test of the status, before the store of one, behind it all.
\<close>

datatype wait_pc = T_check | T_zero | T_loop | T_poll | T_break | T_load | T_final | T_one | T_done

text \<open>One move: the next point, the status word and whether the thread loads its counter into the cache.\<close>

fun thread_step :: "bool \<Rightarrow> bool \<Rightarrow> wait_pc \<Rightarrow> nat \<Rightarrow> wait_pc \<times> nat \<times> bool" where
  "thread_step abort blocked T_check status = (if abort then T_zero else T_loop, status, False)"
| "thread_step abort blocked T_zero status = (T_loop, 0, False)"
| "thread_step abort blocked T_loop status = (if blocked \<and> status \<noteq> 0 then T_poll else T_final, status, False)"
| "thread_step abort blocked T_poll status = (if abort then T_break else T_load, status, False)"
| "thread_step abort blocked T_break status = (T_final, 0, False)"
| "thread_step abort blocked T_load status = (T_loop, status, True)"
| "thread_step abort blocked T_final status = (if status \<noteq> 0 then T_one else T_done, status, False)"
| "thread_step abort blocked T_one status = (T_done, 1, False)"
| "thread_step abort blocked T_done status = (T_done, status, False)"

section \<open>Blocks at a wait\<close>

datatype wthread = Thread0 | Thread1

record wait_block =
  wait_status :: nat
  pc0 :: wait_pc
  pc1 :: wait_pc

definition is_wait :: "kop \<Rightarrow> bool" where
  "is_wait opr \<longleftrightarrow> opr \<in> {Wait_send_credit, Wait_recv_ready, Wait_recv_ready_and_send_credit}"

text \<open>Behind the first barrier: the status is one, and the threads that poll in this wait begin.\<close>

definition wait_entry :: "kop \<Rightarrow> wait_block" where
  "wait_entry opr =
     \<lparr>wait_status = 1,
      pc0 = (if opr = Wait_send_credit then T_done else T_check),
      pc1 = (if opr = Wait_recv_ready then T_done else T_check)\<rparr>"

definition wait_over :: "wait_block \<Rightarrow> bool" where
  "wait_over w \<longleftrightarrow> pc0 w = T_done \<and> pc1 w = T_done"

record 't tnet =
  t_net :: "'t net"
  t_wait :: "pid \<Rightarrow> wait_block option"
  t_abort :: "nat \<Rightarrow> bool"

definition tstart :: "'t net \<Rightarrow> 't tnet" where
  "tstart s = \<lparr>t_net = s, t_wait = (\<lambda>_. None), t_abort = (\<lambda>_. False)\<rparr>"

definition set_wait :: "pid \<Rightarrow> wait_block option \<Rightarrow> 't tnet \<Rightarrow> 't tnet" where
  "set_wait p w s = s\<lparr>t_wait := (t_wait s)(p := w)\<rparr>"

text \<open>A move of thread 0 or thread 1 inside the wait of block \<open>p\<close>.\<close>

definition poll_step :: "'t kcfg \<Rightarrow> pid \<Rightarrow> wthread \<Rightarrow> wait_block \<Rightarrow> 't tnet \<Rightarrow> 't tnet" where
  "poll_step c p th w s =
     (let n = t_net s; pr = procs n p in
      case th of
        Thread0 \<Rightarrow>
          (case thread_step (t_abort s (fst p)) (recv_blocked pr) (pc0 w) (wait_status w) of (pc, status, reload) \<Rightarrow>
             set_wait p (Some (w\<lparr>pc0 := pc, wait_status := status\<rparr>))
               (if reload then s\<lparr>t_net := set_proc p (pr\<lparr>recv_tail_cache := e_tail (edges n (prev_pid c p))\<rparr>) n\<rparr> else s))
      | Thread1 \<Rightarrow>
          (case thread_step (t_abort s (fst p)) (send_blocked pr) (pc1 w) (wait_status w) of (pc, status, reload) \<Rightarrow>
             set_wait p (Some (w\<lparr>pc1 := pc, wait_status := status\<rparr>))
               (if reload then s\<lparr>t_net := set_proc p (pr\<lparr>send_head_cache := e_head (edges n p)\<rparr>) n\<rparr> else s)))"

text \<open>Behind the second barrier: the block goes on when the status is not zero and returns otherwise.\<close>

definition wait_return :: "pid \<Rightarrow> kop list \<Rightarrow> wait_block \<Rightarrow> 't tnet \<Rightarrow> 't tnet" where
  "wait_return p rest w s =
     (let pr = procs (t_net s) p in
      set_wait p None (s\<lparr>t_net := set_proc p
        (if wait_status w \<noteq> 0 then pr\<lparr>prog := rest\<rparr> else pr\<lparr>prog := [], stopped := True\<rparr>) (t_net s)\<rparr>))"

datatype wevent = Raise_abort nat | Move pid wthread

definition tstep :: "'t kcfg \<Rightarrow> wevent \<Rightarrow> 't tnet \<Rightarrow> 't tnet" where
  "tstep c ev s =
     (case ev of
        Raise_abort rank \<Rightarrow> s\<lparr>t_abort := (t_abort s)(rank := True)\<rparr>
      | Move p th \<Rightarrow>
          (case prog (procs (t_net s) p) of
             [] \<Rightarrow> s
           | opr # rest \<Rightarrow>
               if is_wait opr then
                 (case t_wait s p of
                    None \<Rightarrow> set_wait p (Some (wait_entry opr)) s
                  | Some w \<Rightarrow> if wait_over w then wait_return p rest w s else poll_step c p th w s)
               else s\<lparr>t_net := kstep c p (t_net s)\<rparr>))"

definition trun :: "'t kcfg \<Rightarrow> wevent list \<Rightarrow> 't tnet \<Rightarrow> 't tnet" where
  "trun c evs s = fold (tstep c) evs s"

lemma trun_simps [simp]: "trun c [] s = s" "trun c (e # evs) s = trun c evs (tstep c e s)"
  by (simp_all add: trun_def)

lemma trun_append: "trun c (a @ b) s = trun c b (trun c a s)"
  by (simp add: trun_def)

lemma trun_snoc: "trun c (evs @ [e]) s = tstep c e (trun c evs s)"
  by (simp add: trun_def)

section \<open>Without an abort the threads refine the block turns\<close>

declare split_paired_All [simp del] split_paired_Ex [simp del]

text \<open>All of a block but its two cached counters.\<close>

definition core :: "proc \<Rightarrow> kop list \<times> nat \<times> nat \<times> nat \<times> nat \<times> bool" where
  "core pr = (prog pr, send_step pr, recv_step pr, send_base_step pr, recv_base_step pr, stopped pr)"

definition agree :: "'t net \<Rightarrow> 't net \<Rightarrow> bool" where
  "agree s u \<longleftrightarrow> net_mem s = net_mem u \<and> edges s = edges u \<and> (\<forall>p. core (procs s p) = core (procs u p))"

definition caches_le :: "'t kcfg \<Rightarrow> 't net \<Rightarrow> bool" where
  "caches_le c s \<longleftrightarrow> (\<forall>p\<in>grid c. send_head_cache (procs s p) \<le> e_head (edges s p) \<and>
     recv_tail_cache (procs s p) \<le> e_tail (edges s (prev_pid c p)))"

text \<open>A wait whose threads have seen no flag: a thread past its loop has found its side open.\<close>

definition calm :: "proc \<Rightarrow> wait_block \<Rightarrow> bool" where
  "calm pr w \<longleftrightarrow> prog pr \<noteq> [] \<and> is_wait (hd (prog pr)) \<and> wait_status w = 1 \<and>
     pc0 w \<notin> {T_zero, T_break} \<and> pc1 w \<notin> {T_zero, T_break} \<and>
     (hd (prog pr) = Wait_send_credit \<longrightarrow> pc0 w = T_done) \<and> (hd (prog pr) = Wait_recv_ready \<longrightarrow> pc1 w = T_done) \<and>
     (hd (prog pr) \<noteq> Wait_send_credit \<and> pc0 w \<in> {T_final, T_one, T_done} \<longrightarrow> \<not> recv_blocked pr) \<and>
     (hd (prog pr) \<noteq> Wait_recv_ready \<and> pc1 w \<in> {T_final, T_one, T_done} \<longrightarrow> \<not> send_blocked pr)"

definition tsim :: "'t kcfg \<Rightarrow> 't tnet \<Rightarrow> 't net \<Rightarrow> bool" where
  "tsim c s u \<longleftrightarrow> agree (t_net s) u \<and> caches_le c (t_net s) \<and> (\<forall>r. \<not> t_abort s r) \<and>
     (\<forall>p w. t_wait s p = Some w \<longrightarrow> calm (procs (t_net s) p) w)"

lemma agree_fields:
  assumes "agree s u"
  shows "prog (procs s p) = prog (procs u p)" "send_step (procs s p) = send_step (procs u p)"
    "recv_step (procs s p) = recv_step (procs u p)" "net_mem s = net_mem u" "edges s = edges u"
  using assms by (auto simp: agree_def core_def)

lemma data_op_steps:
  "send_step pr = send_step pr' \<Longrightarrow> recv_step pr = recv_step pr' \<Longrightarrow> data_op c p pr opr = data_op c p pr' opr"
  by (simp add: data_op_def Let_def)

lemma kstep_agree:
  assumes a: "agree s u" and n: "prog (procs s p) = opr # rest" "\<not> is_wait opr"
  shows "agree (kstep c p s) (kstep c p u)"
    "send_head_cache (procs (kstep c p s) q) = send_head_cache (procs s q)"
    "recv_tail_cache (procs (kstep c p s) q) = recv_tail_cache (procs s q)"
    "edges (kstep c p s) = edges (kstep c p u)"
    "q \<noteq> p \<Longrightarrow> procs (kstep c p s) q = procs s q"
proof -
  note f = agree_fields[OF a]
  have nu: "prog (procs u p) = opr # rest" using n f by simp
  have core: "core (procs s q) = core (procs u q)" for q using a by (simp add: agree_def)
  have d: "data_op c p (procs s p) opr = data_op c p (procs u p) opr" by (rule data_op_steps) (simp_all add: f)
  show "agree (kstep c p s) (kstep c p u)"
    using n nu core d f(4,5)
    by (cases opr) (auto simp: agree_def kstep_def Let_def set_proc_def set_edge_def is_wait_def core_def)
  then show "edges (kstep c p s) = edges (kstep c p u)" by (simp add: agree_def)
  show "send_head_cache (procs (kstep c p s) q) = send_head_cache (procs s q)"
    "recv_tail_cache (procs (kstep c p s) q) = recv_tail_cache (procs s q)"
    using n by (cases opr; auto simp: kstep_def Let_def set_proc_def set_edge_def is_wait_def)+
  show "q \<noteq> p \<Longrightarrow> procs (kstep c p s) q = procs s q" by (simp add: kstep_other)
qed

text \<open>A wait whose counters have arrived takes at most two turns of the block: a reload and the exit.\<close>

lemma wait_turns:
  assumes n: "prog (procs u p) = opr # rest" "is_wait opr" and ab: "able c u p"
  shows "\<exists>sched. set sched \<subseteq> {p} \<and> net_mem (run c sched u) = net_mem u \<and> edges (run c sched u) = edges u \<and>
    core (procs (run c sched u) p) = core ((procs u p)\<lparr>prog := rest\<rparr>) \<and> (\<forall>q. q \<noteq> p \<longrightarrow> procs (run c sched u) q = procs u q)"
proof -
  have one: "net_mem (kstep c p v) = net_mem v \<and> edges (kstep c p v) = edges v \<and>
      core (procs (kstep c p v) p) = core ((procs v p)\<lparr>prog := prog (procs (kstep c p v) p)\<rparr>) \<and>
      (\<forall>q. q \<noteq> p \<longrightarrow> procs (kstep c p v) q = procs v q)" if "prog (procs v p) = opr # rest" for v
    using n(2) that by (auto simp: is_wait_def kstep_def Let_def set_proc_def core_def wait_send_credit_def wait_recv_ready_def
        wait_recv_ready_and_send_credit_def split: if_splits)
  note k = kstep_able[OF ab] n(1)
  show ?thesis
  proof (cases "prog (procs (kstep c p u) p) = rest")
    case True
    then show ?thesis using one[OF n(1)] by (intro exI[of _ "[p]"]) (simp add: run_def)
  next
    case False
    then have u: "prog (procs (kstep c p u) p) = opr # rest" "unblocked (kstep c p u) p" using k by auto
    then have "prog (procs (kstep c p (kstep c p u)) p) = rest" using kstep_unblocked[of "kstep c p u" p c] by simp
    then show ?thesis using one[OF n(1)] one[OF u(1)] u(1) n(1)
      by (intro exI[of _ "[p, p]"]) (simp add: run_def core_def)
  qed
qed

lemma calm_able:
  assumes "calm (procs s p) w" "wait_over w" "caches_le c s" "p \<in> grid c"
  shows "able c s p"
  using assms
  by (auto simp: calm_def wait_over_def caches_le_def able_def Let_def is_wait_def send_blocked_def recv_blocked_def simple_consts)

lemma agree_able: "agree s u \<Longrightarrow> able c s p = able c u p"
  by (simp add: able_def Let_def agree_fields)

lemma calm_thread0:
  assumes "calm pr w" "thread_step False (recv_blocked pr) (pc0 w) (wait_status w) = (pc, st, ld)"
  shows "calm (if ld then pr\<lparr>recv_tail_cache := v\<rparr> else pr) (w\<lparr>pc0 := pc, wait_status := st\<rparr>)"
  using assms by (cases "pc0 w") (auto simp: calm_def recv_blocked_def send_blocked_def split: if_splits)

lemma calm_thread1:
  assumes "calm pr w" "thread_step False (send_blocked pr) (pc1 w) (wait_status w) = (pc, st, ld)"
  shows "calm (if ld then pr\<lparr>send_head_cache := v\<rparr> else pr) (w\<lparr>pc1 := pc, wait_status := st\<rparr>)"
  using assms by (cases "pc1 w") (auto simp: calm_def recv_blocked_def send_blocked_def split: if_splits)

lemma agree_set_caches:
  "agree s u \<Longrightarrow> core pr = core (procs s p) \<Longrightarrow> agree (set_proc p pr s) u"
  by (auto simp: agree_def set_proc_def)

lemma tsim_poll:
  assumes sim: "tsim c s u" and p: "p \<in> grid c" and w: "t_wait s p = Some w" "\<not> wait_over w"
  shows "tsim c (poll_step c p th w s) u"
proof -
  let ?n = "t_net s" and ?pr = "procs (t_net s) p"
  have a: "agree ?n u" "caches_le c ?n" "\<not> t_abort s (fst p)" "calm ?pr w" using sim w by (auto simp: tsim_def)
  have C: "tsim c (set_wait p (Some w') s') u"
    if s': "t_net s' = (if ld then set_proc p pr' ?n else ?n)" "t_abort s' = t_abort s" "t_wait s' = t_wait s"
      and pr': "core pr' = core ?pr" "send_head_cache pr' \<in> {send_head_cache ?pr, e_head (edges ?n p)}"
        "recv_tail_cache pr' \<in> {recv_tail_cache ?pr, e_tail (edges ?n (prev_pid c p))}"
      and calm: "calm (if ld then pr' else ?pr) w'" for w' s' pr' ld
  proof -
    have "caches_le c (set_proc p pr' ?n)" using a(2) pr'(2,3) by (auto simp: caches_le_def set_proc_def)
    then show ?thesis using sim s' calm agree_set_caches[OF a(1) pr'(1)]
      by (cases ld) (auto simp: tsim_def set_wait_def set_proc_def)
  qed
  show ?thesis
  proof (cases th)
    case Thread0
    obtain pc st ld where t: "thread_step False (recv_blocked ?pr) (pc0 w) (wait_status w) = (pc, st, ld)" by (metis prod_cases3)
    show ?thesis using a(3) t Thread0
      by (auto simp: poll_step_def Let_def core_def
          intro!: C[where ld = ld and pr' = "?pr\<lparr>recv_tail_cache := e_tail (edges ?n (prev_pid c p))\<rparr>"]
            calm_thread0[OF a(4) t])
  next
    case Thread1
    obtain pc st ld where t: "thread_step False (send_blocked ?pr) (pc1 w) (wait_status w) = (pc, st, ld)" by (metis prod_cases3)
    show ?thesis using a(3) t Thread1
      by (auto simp: poll_step_def Let_def core_def
          intro!: C[where ld = ld and pr' = "?pr\<lparr>send_head_cache := e_head (edges ?n p)\<rparr>"]
            calm_thread1[OF a(4) t])
  qed
qed

lemma tsim_return:
  assumes sim: "tsim c s u" and p: "p \<in> grid c" and w: "t_wait s p = Some w" "wait_over w"
    and n: "prog (procs (t_net s) p) = opr # rest"
  shows "\<exists>sched. set sched \<subseteq> {p} \<and> tsim c (wait_return p rest w s) (run c sched u)"
proof -
  let ?n = "t_net s" and ?pr = "procs (t_net s) p"
  have a: "agree ?n u" "caches_le c ?n" "calm ?pr w" using sim w by (auto simp: tsim_def)
  have op: "is_wait opr" "wait_status w = 1" using a(3) n by (auto simp: calm_def)
  have ab: "able c u p" using calm_able[OF a(3) w(2) a(2) p] agree_able[OF a(1)] by simp
  have nu: "prog (procs u p) = opr # rest" using n agree_fields[OF a(1)] by simp
  obtain sched where sc: "set sched \<subseteq> {p}" "net_mem (run c sched u) = net_mem u" "edges (run c sched u) = edges u"
    "core (procs (run c sched u) p) = core ((procs u p)\<lparr>prog := rest\<rparr>)" "\<forall>q. q \<noteq> p \<longrightarrow> procs (run c sched u) q = procs u q"
    using wait_turns[OF nu op(1) ab] by blast
  have "agree (set_proc p (?pr\<lparr>prog := rest\<rparr>) ?n) (run c sched u)"
    using a(1) sc by (auto simp: agree_def set_proc_def core_def)
  then have "tsim c (wait_return p rest w s) (run c sched u)"
    using sim op by (auto simp: tsim_def wait_return_def Let_def set_wait_def caches_le_def set_proc_def)
  with sc(1) show ?thesis by blast
qed

lemma tsim_step:
  assumes sim: "tsim c s u" and p: "p \<in> grid c"
    and mono: "\<And>q. e_head (edges u q) \<le> e_head (edges (kstep c p u) q)" "\<And>q. e_tail (edges u q) \<le> e_tail (edges (kstep c p u) q)"
  shows "\<exists>sched. set sched \<subseteq> {p} \<and> tsim c (tstep c (Move p th) s) (run c sched u)"
proof -
  have a: "agree (t_net s) u" "caches_le c (t_net s)" using sim by (auto simp: tsim_def)
  have stay: ?thesis if "tsim c (tstep c (Move p th) s) u" using that by (intro exI[of _ "[]"]) (simp add: run_def)
  show ?thesis
  proof (cases "prog (procs (t_net s) p)")
    case Nil
    then show ?thesis using sim by (intro stay) (simp add: tstep_def)
  next
    case n: (Cons opr rest)
    show ?thesis
    proof (cases "is_wait opr")
      case False
      note k = kstep_agree[OF a(1) n False, where c = c]
      have "calm (procs (t_net s) p) w" if "t_wait s p = Some w" for w using sim that by (simp add: tsim_def)
      then have "t_wait s p = None" using n False by (cases "t_wait s p") (auto simp: calm_def)
      moreover have "caches_le c (kstep c p (t_net s))"
        using a mono k(2-4) unfolding caches_le_def agree_def by (metis order_trans)
      ultimately have "tsim c (s\<lparr>t_net := kstep c p (t_net s)\<rparr>) (kstep c p u)"
        using sim k(1,5) by (auto simp: tsim_def) (metis option.distinct(1))
      then show ?thesis using n False by (intro exI[of _ "[p]"]) (simp add: tstep_def run_def)
    next
      case True
      show ?thesis
      proof (cases "t_wait s p")
        case None
        have "calm (procs (t_net s) p) (wait_entry opr)" using n True by (auto simp: calm_def wait_entry_def)
        then show ?thesis using sim None n True by (intro stay) (auto simp: tsim_def tstep_def set_wait_def)
      next
        case (Some w)
        show ?thesis
        proof (cases "wait_over w")
          case over: True
          then show ?thesis using Some n True tsim_return[OF sim p Some over n] by (simp add: tstep_def)
        next
          case over: False
          then show ?thesis using Some n True tsim_poll[OF sim p Some over] by (intro stay) (simp add: tstep_def)
        qed
      qed
    qed
  qed
qed

text \<open>The events of a run that nothing aborts.\<close>

definition calm_events :: "'t kcfg \<Rightarrow> wevent list \<Rightarrow> bool" where
  "calm_events c evs \<longleftrightarrow> (\<forall>e\<in>set evs. case e of Move p th \<Rightarrow> p \<in> grid c | Raise_abort r \<Rightarrow> False)"

lemma calm_events_simps [simp]:
  "calm_events c []" "calm_events c (a @ b) \<longleftrightarrow> calm_events c a \<and> calm_events c b"
  "calm_events c (Move p th # evs) \<longleftrightarrow> p \<in> grid c \<and> calm_events c evs" "\<not> calm_events c (Raise_abort r # evs)"
  by (auto simp: calm_events_def)

lemma calm_events_concat: "(\<forall>r\<in>set rs. calm_events c r) \<Longrightarrow> calm_events c (concat rs)"
  by (auto simp: calm_events_def)

context ring_collective
begin

lemma tsim_launch:
  assumes v: "valid c" and q: "quiescent c s"
  shows "tsim c (tstart (launch_all c (prog_of c) s)) (launch_all c (prog_of c) s)"
proof -
  have n: "2 \<le> kc_nranks c" using valid_cfg[OF v] by (simp add: cfg_ok_def)
  have "recv_base_step (procs s p) = e_tail (edges s (prev_pid c p)) \<and> send_base_step (procs s p) = e_head (edges s p)"
    if p: "p \<in> grid c" for p
  proof -
    have "prev_pid c p \<in> grid c" "next_pid c (prev_pid c p) = p" using grid_ring[OF n p] by auto
    with q p show ?thesis unfolding quiescent_def by metis
  qed
  then show ?thesis by (auto simp: tsim_def tstart_def agree_def caches_le_def launch_all_def launch_def)
qed

lemma turns_mono:
  assumes v: "valid c" and q: "quiescent c s" and sched: "set sched \<subseteq> grid c" and p: "p \<in> grid c"
    and u: "u = run c sched (launch_all c (prog_of c) s)"
  shows "e_head (edges u x) \<le> e_head (edges (kstep c p u) x)" "e_tail (edges u x) \<le> e_tail (edges (kstep c p u) x)"
proof -
  obtain G where G: "rinv (sys c (\<lambda>p. send_base_step (procs s p)) (net_mem s)) G u"
    using sys_reach[OF v q sched] u by blast
  show "e_head (edges u x) \<le> e_head (edges (kstep c p u) x)" "e_tail (edges u x) \<le> e_tail (edges (kstep c p u) x)"
    using kstep_counters_mono[OF sys_ok[OF v] G, of p x] p by simp_all
qed

lemma threads_refine_turns:
  assumes v: "valid c" and q: "quiescent c s" and evs: "calm_events c evs"
  shows "\<exists>sched. set sched \<subseteq> grid c \<and>
    tsim c (trun c evs (tstart (launch_all c (prog_of c) s))) (run c sched (launch_all c (prog_of c) s))"
  using evs
proof (induction evs rule: rev_induct)
  case Nil
  show ?case using tsim_launch[OF v q] by (intro exI[of _ "[]"]) (simp add: run_def)
next
  case (snoc e evs)
  then obtain p th where e: "e = Move p th" "p \<in> grid c" by (cases e) auto
  from snoc obtain sched where sc: "set sched \<subseteq> grid c"
    "tsim c (trun c evs (tstart (launch_all c (prog_of c) s))) (run c sched (launch_all c (prog_of c) s))" by auto
  from tsim_step[OF sc(2) e(2) turns_mono[OF v q sc(1) e(2) refl], of th] obtain more where "set more \<subseteq> {p}"
    "tsim c (trun c (evs @ [e]) (tstart (launch_all c (prog_of c) s))) (run c (sched @ more) (launch_all c (prog_of c) s))"
    by (auto simp: trun_snoc e(1) run_append)
  then show ?case using sc(1) e(2) by (intro exI[of _ "sched @ more"]) auto
qed

end

end
