(* ===== verification/Thread_Progress.thy ===== *)
theory Thread_Progress
  imports Block_Threads
begin

text \<open>
  The polling threads of a collective that nothing aborts do not starve: in every fair schedule of
  the threads of all blocks the collective ends. A round is fair when both polling threads of
  every block get a move; eighteen rounds complete at least one operation.
\<close>

declare split_paired_All [simp del] split_paired_Ex [simp del]

section \<open>Moves left in a wait whose counters have arrived\<close>

fun pc_rank :: "bool \<Rightarrow> wait_pc \<Rightarrow> nat" where
  "pc_rank blocked T_check = 8"
| "pc_rank blocked T_zero = 4"
| "pc_rank blocked T_loop = (if blocked then 7 else 3)"
| "pc_rank blocked T_poll = 6"
| "pc_rank blocked T_break = 4"
| "pc_rank blocked T_load = 5"
| "pc_rank blocked T_final = 2"
| "pc_rank blocked T_one = 1"
| "pc_rank blocked T_done = 0"

definition moves_left :: "'t tnet \<Rightarrow> pid \<Rightarrow> nat" where
  "moves_left s p = (case t_wait s p of
     None \<Rightarrow> 18
   | Some w \<Rightarrow> 1 + pc_rank (recv_blocked (procs (t_net s) p)) (pc0 w) + pc_rank (send_blocked (procs (t_net s) p)) (pc1 w))"

lemma pc_rank_le: "pc_rank b pc \<le> 8"
  by (cases pc) auto

lemma moves_left_bounds: "1 \<le> moves_left s p" "moves_left s p \<le> 18"
proof -
  have "pc_rank b pc + pc_rank b' pc' \<le> 17" for b pc b' pc' using pc_rank_le[of b pc] pc_rank_le[of b' pc'] by simp
  then show "1 \<le> moves_left s p" "moves_left s p \<le> 18" by (auto simp: moves_left_def split: option.splits)
qed

text \<open>A thread that has nothing left to do in a wait where the other one polls on.\<close>

definition idle :: "'t tnet \<Rightarrow> pid \<Rightarrow> wthread \<Rightarrow> bool" where
  "idle s p th \<longleftrightarrow> (\<exists>w. t_wait s p = Some w \<and> \<not> wait_over w \<and>
     (case th of Thread0 \<Rightarrow> pc0 w | Thread1 \<Rightarrow> pc1 w) = T_done)"

lemma not_both_idle: "\<not> (idle s p Thread0 \<and> idle s p Thread1)"
  by (auto simp: idle_def wait_over_def)

lemma calm_move_rank0:
  assumes "calm pr w" "pc0 w \<noteq> T_done" "recv_step pr + 2 \<le> v"
    "thread_step False (recv_blocked pr) (pc0 w) (wait_status w) = (pc, st, ld)"
  shows "pc_rank (recv_blocked (if ld then pr\<lparr>recv_tail_cache := v\<rparr> else pr)) pc < pc_rank (recv_blocked pr) (pc0 w)"
  using assms by (cases "pc0 w") (auto simp: calm_def recv_blocked_def simple_consts split: if_splits)

lemma calm_move_rank1:
  assumes "calm pr w" "pc1 w \<noteq> T_done" "send_step pr + 2 \<le> v + 8"
    "thread_step False (send_blocked pr) (pc1 w) (wait_status w) = (pc, st, ld)"
  shows "pc_rank (send_blocked (if ld then pr\<lparr>send_head_cache := v\<rparr> else pr)) pc < pc_rank (send_blocked pr) (pc1 w)"
  using assms by (cases "pc1 w") (auto simp: calm_def send_blocked_def simple_consts split: if_splits)

lemma blocked_other [simp]:
  "recv_blocked (pr\<lparr>send_head_cache := v\<rparr>) = recv_blocked pr" "send_blocked (pr\<lparr>recv_tail_cache := v\<rparr>) = send_blocked pr"
  by (simp_all add: recv_blocked_def send_blocked_def)

text \<open>A move of a polling thread inside a wait of a block whose counters have arrived.\<close>

lemma poll_step_progress:
  assumes calm: "calm (procs (t_net s) p) w" and w: "t_wait s p = Some w" and na: "\<not> t_abort s (fst p)"
    and ab: "able c (t_net s) p" and ni: "(case th of Thread0 \<Rightarrow> pc0 w | Thread1 \<Rightarrow> pc1 w) \<noteq> T_done"
  shows "moves_left (poll_step c p th w s) p < moves_left s p"
proof -
  let ?n = "t_net s" and ?pr = "procs (t_net s) p"
  show ?thesis
  proof (cases th)
    case Thread0
    obtain pc st ld where t: "thread_step False (recv_blocked ?pr) (pc0 w) (wait_status w) = (pc, st, ld)" by (metis prod_cases3)
    have "recv_step ?pr + 2 \<le> e_tail (edges ?n (prev_pid c p))"
      using calm ab ni Thread0 by (auto simp: calm_def able_def Let_def is_wait_def)
    from calm_move_rank0[OF calm _ this t] ni Thread0 t na w show ?thesis
      by (cases ld) (auto simp: poll_step_def Let_def moves_left_def set_wait_def set_proc_def)
  next
    case Thread1
    obtain pc st ld where t: "thread_step False (send_blocked ?pr) (pc1 w) (wait_status w) = (pc, st, ld)" by (metis prod_cases3)
    have "send_step ?pr + 2 \<le> e_head (edges ?n p) + 8"
      using calm ab ni Thread1 by (auto simp: calm_def able_def Let_def is_wait_def)
    from calm_move_rank1[OF calm _ this t] ni Thread1 t na w show ?thesis
      by (cases ld) (auto simp: poll_step_def Let_def moves_left_def set_wait_def set_proc_def)
  qed
qed

lemma poll_step_prog: "prog (procs (t_net (poll_step c p th w s)) q) = prog (procs (t_net s) q)"
  by (auto simp: poll_step_def Let_def set_wait_def set_proc_def split: wthread.splits prod.splits)

lemma poll_step_edges: "edges (t_net (poll_step c p th w s)) = edges (t_net s)"
  by (auto simp: poll_step_def Let_def set_wait_def set_proc_def split: wthread.splits prod.splits)

lemma move_progress:
  assumes sim: "tsim c s u" and n: "prog (procs (t_net s) p) \<noteq> []" and ab: "able c (t_net s) p" and ni: "\<not> idle s p th"
  shows "length (prog (procs (t_net (tstep c (Move p th) s)) p)) < length (prog (procs (t_net s) p)) \<or>
    (prog (procs (t_net (tstep c (Move p th) s)) p) = prog (procs (t_net s) p) \<and> is_wait (hd (prog (procs (t_net s) p))) \<and>
     edges (t_net (tstep c (Move p th) s)) = edges (t_net s) \<and>
     moves_left (tstep c (Move p th) s) p < moves_left s p)"
proof -
  obtain opr rest where p: "prog (procs (t_net s) p) = opr # rest" using n by (cases "prog (procs (t_net s) p)") auto
  show ?thesis
  proof (cases "is_wait opr")
    case False
    then have "unblocked (t_net s) p" using p by (auto simp: unblocked_def Let_def is_wait_def)
    then show ?thesis using kstep_unblocked[of "t_net s" p c] p False by (simp add: tstep_def)
  next
    case True
    show ?thesis
    proof (cases "t_wait s p")
      case None
      then show ?thesis using p True by (simp add: tstep_def set_wait_def moves_left_def wait_entry_def)
    next
      case (Some w)
      have calm: "calm (procs (t_net s) p) w" "\<not> t_abort s (fst p)" using sim Some by (auto simp: tsim_def)
      show ?thesis
      proof (cases "wait_over w")
        case over: True
        then show ?thesis using p True Some calm
          by (simp add: tstep_def wait_return_def Let_def set_wait_def set_proc_def calm_def)
      next
        case over: False
        then have "(case th of Thread0 \<Rightarrow> pc0 w | Thread1 \<Rightarrow> pc1 w) \<noteq> T_done" using ni Some by (auto simp: idle_def)
        from poll_step_progress[OF calm(1) Some calm(2) ab this] show ?thesis
          using p True Some over by (simp add: tstep_def poll_step_prog poll_step_edges)
      qed
    qed
  qed
qed

text \<open>What the moves of idle threads and of other blocks leave of a block.\<close>

definition same_block :: "pid \<Rightarrow> 't tnet \<Rightarrow> 't tnet \<Rightarrow> bool" where
  "same_block p s s' \<longleftrightarrow> procs (t_net s') p = procs (t_net s) p \<and> t_wait s' p = t_wait s p"

lemma same_block_moves: "same_block p s s' \<Longrightarrow> moves_left s' p = moves_left s p \<and> idle s' p th = idle s p th"
  by (cases "t_wait s p") (simp_all add: same_block_def moves_left_def idle_def)

lemma idle_same:
  assumes sim: "tsim c s u" and i: "idle s p th"
  shows "same_block p s (tstep c (Move p th) s) \<and> edges (t_net (tstep c (Move p th) s)) = edges (t_net s)"
proof -
  obtain w where w: "t_wait s p = Some w" "\<not> wait_over w" "(case th of Thread0 \<Rightarrow> pc0 w | Thread1 \<Rightarrow> pc1 w) = T_done"
    using i by (auto simp: idle_def)
  have "calm (procs (t_net s) p) w" using sim w by (simp add: tsim_def)
  then show ?thesis using w
    by (cases "prog (procs (t_net s) p)"; cases th)
       (auto simp: calm_def tstep_def poll_step_def Let_def set_wait_def same_block_def)
qed

lemma other_same: "x \<noteq> p \<Longrightarrow> same_block p s (tstep c (Move x th) s)"
  by (auto simp: same_block_def tstep_def set_wait_def wait_return_def poll_step_def Let_def set_proc_def kstep_other
      split: list.splits option.splits wthread.splits prod.splits)

lemma tstep_edges_mono:
  assumes sim: "tsim c s u"
    and mono: "\<And>q. e_head (edges u q) \<le> e_head (edges (kstep c p u) q)" "\<And>q. e_tail (edges u q) \<le> e_tail (edges (kstep c p u) q)"
  shows "e_head (edges (t_net s) x) \<le> e_head (edges (t_net (tstep c (Move p th) s)) x) \<and>
    e_tail (edges (t_net s) x) \<le> e_tail (edges (t_net (tstep c (Move p th) s)) x)"
proof (cases "prog (procs (t_net s) p)")
  case Nil
  then show ?thesis by (simp add: tstep_def)
next
  case n: (Cons opr rest)
  have a: "agree (t_net s) u" using sim by (simp add: tsim_def)
  show ?thesis
  proof (cases "is_wait opr")
    case False
    then show ?thesis using n mono[of x] kstep_agree(4)[OF a n False] agree_fields(5)[OF a] by (simp add: tstep_def)
  next
    case True
    then show ?thesis using n
      by (auto simp: tstep_def set_wait_def wait_return_def Let_def set_proc_def poll_step_edges split: option.splits)
  qed
qed

lemma able_mono:
  assumes "able c n p" "prog (procs n' p) = prog (procs n p)" "send_step (procs n' p) = send_step (procs n p)"
    "recv_step (procs n' p) = recv_step (procs n p)"
    "\<And>x. e_head (edges n x) \<le> e_head (edges n' x)" "\<And>x. e_tail (edges n x) \<le> e_tail (edges n' x)"
  shows "able c n' p"
  using assms(1-4) assms(5)[of p] assms(6)[of "prev_pid c p"] by (auto simp: able_def Let_def)

lemma wait_move_steps:
  assumes "is_wait (hd (prog (procs (t_net s) p)))"
  shows "send_step (procs (t_net (tstep c (Move p th) s)) p) = send_step (procs (t_net s) p)"
    "recv_step (procs (t_net (tstep c (Move p th) s)) p) = recv_step (procs (t_net s) p)"
  using assms
  by (auto simp: tstep_def set_wait_def wait_return_def poll_step_def Let_def set_proc_def
      split: list.splits option.splits wthread.splits prod.splits)

text \<open>One move of any thread, seen from a block whose counters have arrived.\<close>

lemma move_cases:
  assumes sim: "tsim c s u" and n: "prog (procs (t_net s) p) \<noteq> []" and ab: "able c (t_net s) p"
    and mono: "\<And>q. e_head (edges u q) \<le> e_head (edges (kstep c x u) q)" "\<And>q. e_tail (edges u q) \<le> e_tail (edges (kstep c x u) q)"
    and s': "s' = tstep c (Move x th) s"
  shows "length (prog (procs (t_net s') p)) < length (prog (procs (t_net s) p)) \<or>
    prog (procs (t_net s') p) = prog (procs (t_net s) p) \<and> able c (t_net s') p \<and>
    (same_block p s s' \<and> (x = p \<longrightarrow> idle s p th) \<or> moves_left s' p < moves_left s p)"
proof -
  note m = tstep_edges_mono[OF sim mono, of _ th, folded s']
  show ?thesis
  proof (cases "x = p \<and> \<not> idle s p th")
    case True
    from move_progress[OF sim n ab, of th] True s' show ?thesis
      using able_mono[OF ab, of "t_net s'"] wait_move_steps[of s p c th] m by auto
  next
    case False
    then have sb: "same_block p s s'" using other_same[of x p s c th] idle_same[OF sim, of p th] s' by auto
    then have "able c (t_net s') p" using m by (intro able_mono[OF ab]) (auto simp: same_block_def)
    then show ?thesis using sb False by (auto simp: same_block_def)
  qed
qed

section \<open>Fair schedules of the threads\<close>

definition fair_threads :: "'t kcfg \<Rightarrow> wevent list \<Rightarrow> bool" where
  "fair_threads c r \<longleftrightarrow> calm_events c r \<and> (\<forall>p\<in>grid c. Move p Thread0 \<in> set r \<and> Move p Thread1 \<in> set r)"

definition t_ops :: "'t kcfg \<Rightarrow> 't tnet \<Rightarrow> nat" where
  "t_ops c s = (\<Sum>p\<in>grid c. length (prog (procs (t_net s) p)))"

lemma tstep_prog_le: "length (prog (procs (t_net (tstep c e s)) p)) \<le> length (prog (procs (t_net s) p))"
  by (auto simp: tstep_def set_wait_def wait_return_def Let_def set_proc_def poll_step_prog kstep_prog_le
      split: wevent.splits list.splits option.splits)

lemma trun_prog_le: "length (prog (procs (t_net (trun c evs s)) p)) \<le> length (prog (procs (t_net s) p))"
proof (induction evs arbitrary: s)
  case (Cons e evs)
  from Cons.IH[of "tstep c e s"] tstep_prog_le[of c e s p] show ?case by simp
qed simp

lemma t_ops_less:
  assumes "p \<in> grid c" "length (prog (procs (t_net (trun c evs s)) p)) < length (prog (procs (t_net s) p))"
  shows "t_ops c (trun c evs s) < t_ops c s"
  unfolding t_ops_def using assms trun_prog_le by (intro sum_strict_mono_ex1 finite_grid) auto

context ring_collective
begin

text \<open>The states that the threads reach from a launch.\<close>

definition reached :: "'t kcfg \<Rightarrow> 't net \<Rightarrow> 't tnet \<Rightarrow> bool" where
  "reached c s t \<longleftrightarrow> (\<exists>evs. calm_events c evs \<and> t = trun c evs (tstart (launch_all c (prog_of c) s)))"

lemma reached_run: "reached c s t \<Longrightarrow> calm_events c evs \<Longrightarrow> reached c s (trun c evs t)"
  unfolding reached_def by (metis calm_events_simps(2) trun_append)

lemma reached_able:
  assumes v: "valid c" and q: "quiescent c s" and r: "reached c s t" and nf: "\<not> finished c (t_net t)"
  shows "\<exists>p\<in>grid c. prog (procs (t_net t) p) \<noteq> [] \<and> able c (t_net t) p"
proof -
  obtain sched where sc: "set sched \<subseteq> grid c" "tsim c t (run c sched (launch_all c (prog_of c) s))"
    using r threads_refine_turns[OF v q] unfolding reached_def by blast
  then have a: "agree (t_net t) (run c sched (launch_all c (prog_of c) s))" by (simp add: tsim_def)
  then have "\<not> finished c (run c sched (launch_all c (prog_of c) s))" using nf by (simp add: finished_def agree_fields)
  from no_deadlock[OF v q sc(1) this] show ?thesis using agree_able[OF a] by (simp add: agree_fields[OF a])
qed

lemma reached_move:
  assumes v: "valid c" and q: "quiescent c s" and r: "reached c s t" and x: "x \<in> grid c"
    and n: "prog (procs (t_net t) p) \<noteq> []" and ab: "able c (t_net t) p" and t': "t' = tstep c (Move x th) t"
  shows "length (prog (procs (t_net t') p)) < length (prog (procs (t_net t) p)) \<or>
    prog (procs (t_net t') p) = prog (procs (t_net t) p) \<and> able c (t_net t') p \<and>
    (same_block p t t' \<and> (x = p \<longrightarrow> idle t p th) \<or> moves_left t' p < moves_left t p)"
proof -
  obtain sched where sc: "set sched \<subseteq> grid c" "tsim c t (run c sched (launch_all c (prog_of c) s))"
    using r threads_refine_turns[OF v q] unfolding reached_def by blast
  show ?thesis by (rule move_cases[OF sc(2) n ab turns_mono[OF v q sc(1) x refl] t'])
qed

lemma progress_trans:
  assumes "length (P2 :: 'p list) < length P1 \<or> P2 = P1 \<and> A \<and> (k2 :: nat) \<le> k1 \<and> (k2 = k1 \<longrightarrow> (\<forall>th. Move p th \<in> E \<longrightarrow> I1 th))"
    and "k1 < k \<or> k1 = k \<and> (\<forall>th. I1 th = I th) \<and> (x = p \<longrightarrow> I th0)" "P1 = P"
  shows "length P2 < length P \<or> P2 = P \<and> A \<and> k2 \<le> k \<and> (k2 = k \<longrightarrow> (\<forall>th. Move p th \<in> insert (Move x th0) E \<longrightarrow> I th))"
  using assms by auto

lemma events_progress:
  assumes v: "valid c" and q: "quiescent c s" and "reached c s t" and "calm_events c evs"
    and "prog (procs (t_net t) p) \<noteq> []" and "able c (t_net t) p"
  shows "length (prog (procs (t_net (trun c evs t)) p)) < length (prog (procs (t_net t) p)) \<or>
    prog (procs (t_net (trun c evs t)) p) = prog (procs (t_net t) p) \<and> able c (t_net (trun c evs t)) p \<and>
    moves_left (trun c evs t) p \<le> moves_left t p \<and>
    (moves_left (trun c evs t) p = moves_left t p \<longrightarrow> (\<forall>th. Move p th \<in> set evs \<longrightarrow> idle t p th))"
  using assms(3-)
proof (induction evs arbitrary: t)
  case (Cons e evs)
  obtain x th where e: "e = Move x th" "x \<in> grid c" using Cons.prems(2) by (cases e) auto
  let ?t = "tstep c (Move x th) t"
  have r: "reached c s ?t" using reached_run[OF Cons.prems(1), of "[Move x th]"] e by simp
  from reached_move[OF v q Cons.prems(1) e(2) Cons.prems(3,4) refl, of th] show ?case
  proof
    assume "length (prog (procs (t_net ?t) p)) < length (prog (procs (t_net t) p))"
    then show ?case using trun_prog_le[of c evs ?t p] e(1) by simp
  next
    assume m: "prog (procs (t_net ?t) p) = prog (procs (t_net t) p) \<and> able c (t_net ?t) p \<and>
      (same_block p t ?t \<and> (x = p \<longrightarrow> idle t p th) \<or> moves_left ?t p < moves_left t p)"
    have "calm_events c evs" using Cons.prems(2) e by simp
    then have "length (prog (procs (t_net (trun c evs ?t)) p)) < length (prog (procs (t_net ?t) p)) \<or>
        prog (procs (t_net (trun c evs ?t)) p) = prog (procs (t_net ?t) p) \<and> able c (t_net (trun c evs ?t)) p \<and>
        moves_left (trun c evs ?t) p \<le> moves_left ?t p \<and>
        (moves_left (trun c evs ?t) p = moves_left ?t p \<longrightarrow> (\<forall>th. Move p th \<in> set evs \<longrightarrow> idle ?t p th))"
      using m Cons.prems(3) by (intro Cons.IH[OF r]) simp_all
    moreover have "moves_left ?t p < moves_left t p \<or>
        moves_left ?t p = moves_left t p \<and> (\<forall>th. idle ?t p th = idle t p th) \<and> (x = p \<longrightarrow> idle t p th)"
      using m same_block_moves[of p t ?t] by blast
    moreover have "prog (procs (t_net ?t) p) = prog (procs (t_net t) p)" using m by blast
    ultimately show ?case unfolding e(1) trun_simps list.set by (rule progress_trans)
  qed
qed simp

lemma fair_round_progress:
  assumes v: "valid c" and q: "quiescent c s" and r: "reached c s t" and f: "fair_threads c evs" and p: "p \<in> grid c"
    and n: "prog (procs (t_net t) p) \<noteq> []" and ab: "able c (t_net t) p"
  shows "length (prog (procs (t_net (trun c evs t)) p)) < length (prog (procs (t_net t) p)) \<or>
    prog (procs (t_net (trun c evs t)) p) = prog (procs (t_net t) p) \<and> able c (t_net (trun c evs t)) p \<and>
    moves_left (trun c evs t) p < moves_left t p"
proof -
  have "calm_events c evs" "Move p Thread0 \<in> set evs" "Move p Thread1 \<in> set evs" using f p by (auto simp: fair_threads_def)
  with events_progress[OF v q r _ n ab, of evs] not_both_idle[of t p] show ?thesis by (metis le_neq_implies_less)
qed

lemma rounds_shrink:
  assumes v: "valid c" and q: "quiescent c s" and "reached c s t" and "\<forall>r\<in>set rs. fair_threads c r" and p: "p \<in> grid c"
    and "prog (procs (t_net t) p) \<noteq> []" and "able c (t_net t) p" and "moves_left t p \<le> length rs"
  shows "length (prog (procs (t_net (trun c (concat rs) t)) p)) < length (prog (procs (t_net t) p))"
  using assms(3,4,6-)
proof (induction rs arbitrary: t)
  case Nil
  then show ?case using moves_left_bounds(1)[of t p] by simp
next
  case (Cons r rs)
  let ?t = "trun c r t"
  have f: "fair_threads c r" "reached c s ?t" using Cons.prems reached_run by (auto simp: fair_threads_def)
  from fair_round_progress[OF v q Cons.prems(1) f(1) p Cons.prems(3,4)] show ?case
  proof
    assume "length (prog (procs (t_net ?t) p)) < length (prog (procs (t_net t) p))"
    then show ?case using trun_prog_le[of c "concat rs" ?t p] by (simp add: trun_append)
  next
    assume "prog (procs (t_net ?t) p) = prog (procs (t_net t) p) \<and> able c (t_net ?t) p \<and> moves_left ?t p < moves_left t p"
    then show ?case using Cons.IH[OF f(2)] Cons.prems by (simp add: trun_append)
  qed
qed

lemma threads_finish:
  assumes v: "valid c" and q: "quiescent c s" and "reached c s t" and "\<forall>r\<in>set rs. fair_threads c r"
    and "18 * t_ops c t \<le> length rs"
  shows "finished c (t_net (trun c (concat rs) t))"
  using assms(3-)
proof (induction "t_ops c t" arbitrary: t rs rule: less_induct)
  case less
  have cr: "calm_events c (concat rs)" using less.prems(2) by (intro calm_events_concat) (simp add: fair_threads_def)
  show ?case
  proof (cases "finished c (t_net t)")
    case True
    then show ?thesis using trun_prog_le[of c "concat rs" t] by (simp add: finished_def) (metis le_zero_eq length_0_conv)
  next
    case False
    obtain p where p: "p \<in> grid c" "prog (procs (t_net t) p) \<noteq> []" "able c (t_net t) p"
      using reached_able[OF v q less.prems(1) False] by blast
    let ?a = "take 18 rs" and ?t = "trun c (concat (take 18 rs)) t"
    have "0 < t_ops c t" unfolding t_ops_def using p sum_pos2[OF finite_grid p(1), of "\<lambda>p. length (prog (procs (t_net t) p))"] by simp
    then have len: "length ?a = 18" using less.prems(3) by simp
    have fa: "\<forall>r\<in>set ?a. fair_threads c r" using less.prems(2) by (meson in_set_takeD)
    have "length (prog (procs (t_net ?t) p)) < length (prog (procs (t_net t) p))"
      using rounds_shrink[OF v q less.prems(1) fa p] moves_left_bounds(2)[of t p] len by simp
    then have lt: "t_ops c ?t < t_ops c t" by (rule t_ops_less[OF p(1)])
    have r: "reached c s ?t" using fa by (intro reached_run[OF less.prems(1)] calm_events_concat) (simp add: fair_threads_def)
    have "\<forall>r\<in>set (drop 18 rs). fair_threads c r" "18 * t_ops c ?t \<le> length (drop 18 rs)"
      using less.prems lt by (auto dest: in_set_dropD)
    from less.hyps[OF lt r this] show ?thesis
      by (metis append_take_drop_id concat_append trun_append)
  qed
qed

text \<open>A fair run of the threads from a launch ends, and ends like some run of block turns.\<close>

lemma launch_threads_finish:
  assumes v: "valid c" and q: "quiescent c s" and rs: "\<forall>r\<in>set rs. fair_threads c r"
    and len: "18 * ops_total c (prog_of c) \<le> length rs"
  shows "finished c (t_net (trun c (concat rs) (tstart (launch_all c (prog_of c) s))))"
    "\<exists>sched. set sched \<subseteq> grid c \<and> finished c (run c sched (launch_all c (prog_of c) s)) \<and>
       agree (t_net (trun c (concat rs) (tstart (launch_all c (prog_of c) s)))) (run c sched (launch_all c (prog_of c) s))"
proof -
  let ?t = "tstart (launch_all c (prog_of c) s)"
  have "reached c s ?t" unfolding reached_def by (intro exI[of _ "[]"]) simp
  moreover have "t_ops c ?t = ops_total c (prog_of c)"
    by (simp add: t_ops_def ops_total_def tstart_def launch_all_def launch_def)
  ultimately show fin: "finished c (t_net (trun c (concat rs) ?t))" using threads_finish[OF v q _ rs] len by simp
  have "calm_events c (concat rs)" using rs by (intro calm_events_concat) (simp add: fair_threads_def)
  from threads_refine_turns[OF v q this] obtain sched where sc: "set sched \<subseteq> grid c"
    "agree (t_net (trun c (concat rs) ?t)) (run c sched (launch_all c (prog_of c) s))" by (auto simp: tsim_def)
  then show "\<exists>sched. set sched \<subseteq> grid c \<and> finished c (run c sched (launch_all c (prog_of c) s)) \<and>
       agree (t_net (trun c (concat rs) ?t)) (run c sched (launch_all c (prog_of c) s))"
    using fin by (auto simp: finished_def agree_fields[OF sc(2)])
qed

end

end
