(* ===== verification/Ring_Abort.thy ===== *)
theory Ring_Abort
  imports All_Reduce Thread_Progress
begin

text \<open>
  The waits of the ring kernels with their threads and the abort flag. Without an abort an AllReduce of
  polling threads is as correct as one of block turns; with the flag up every block comes to an
  end by itself, whatever its neighbours do, and passes at most the wait it is in; and the status word that the
  two threads of the double wait share can lose the abort.
\<close>

declare split_paired_All [simp del] split_paired_Ex [simp del]

section \<open>Moves left under a raised flag\<close>

fun abort_rank :: "wait_pc \<Rightarrow> nat" where
  "abort_rank T_check = 8"
| "abort_rank T_zero = 7"
| "abort_rank T_loop = 6"
| "abort_rank T_poll = 5"
| "abort_rank T_break = 4"
| "abort_rank T_load = 7"
| "abort_rank T_final = 3"
| "abort_rank T_one = 2"
| "abort_rank T_done = 0"

definition abort_left :: "'t tnet \<Rightarrow> pid \<Rightarrow> nat" where
  "abort_left s p = (case prog (procs (t_net s) p) of
     [] \<Rightarrow> 0
   | opr # rest \<Rightarrow> 18 * length rest +
       (if is_wait opr then (case t_wait s p of None \<Rightarrow> 18 | Some w \<Rightarrow> 1 + abort_rank (pc0 w) + abort_rank (pc1 w)) else 18))"

lemma abort_rank_le: "abort_rank pc \<le> 8"
  by (cases pc) auto

lemma abort_rank_sum: "abort_rank pc + abort_rank pc' \<le> 17"
  using abort_rank_le[of pc] abort_rank_le[of pc'] by simp

lemma abort_left_le: "abort_left s p \<le> 18 * length (prog (procs (t_net s) p))"
  using abort_rank_sum by (auto simp: abort_left_def split: list.splits option.splits)

lemma abort_left_zero: "abort_left s p = 0 \<longleftrightarrow> prog (procs (t_net s) p) = []"
  by (auto simp: abort_left_def split: list.splits option.splits)

lemma abort_thread_rank:
  "thread_step True b pc st = (pc', st', ld) \<Longrightarrow> pc \<noteq> T_done \<Longrightarrow> abort_rank pc' < abort_rank pc"
  by (cases pc) (auto split: if_splits)

text \<open>The thread waits for the other one at the barrier of the exit.\<close>

definition at_barrier :: "'t tnet \<Rightarrow> pid \<Rightarrow> wthread \<Rightarrow> bool" where
  "at_barrier s p th \<longleftrightarrow> prog (procs (t_net s) p) = [] \<or> is_wait (hd (prog (procs (t_net s) p))) \<and> idle s p th"

lemma at_barrier_both: "at_barrier s p Thread0 \<Longrightarrow> at_barrier s p Thread1 \<Longrightarrow> prog (procs (t_net s) p) = []"
  using not_both_idle[of s p] by (auto simp: at_barrier_def)

lemma poll_left:
  assumes w: "t_wait s p = Some w" and n: "prog (procs (t_net s) p) = opr # rest" "is_wait opr" and up: "t_abort s (fst p)"
    and pc: "(case th of Thread0 \<Rightarrow> pc0 w | Thread1 \<Rightarrow> pc1 w) \<noteq> T_done"
  shows "abort_left (poll_step c p th w s) p < abort_left s p"
proof -
  let ?pr = "procs (t_net s) p"
  have "t_wait (poll_step c p th w s) p = Some w' \<Longrightarrow> abort_rank (pc0 w') + abort_rank (pc1 w') < abort_rank (pc0 w) + abort_rank (pc1 w)" for w'
  proof (cases th)
    case Thread0
    obtain a b d where t: "thread_step True (recv_blocked ?pr) (pc0 w) (wait_status w) = (a, b, d)" by (metis prod_cases3)
    assume "t_wait (poll_step c p th w s) p = Some w'"
    then show ?thesis using Thread0 t up pc abort_thread_rank[OF t] by (auto simp: poll_step_def Let_def set_wait_def)
  next
    case Thread1
    obtain a b d where t: "thread_step True (send_blocked ?pr) (pc1 w) (wait_status w) = (a, b, d)" by (metis prod_cases3)
    assume "t_wait (poll_step c p th w s) p = Some w'"
    then show ?thesis using Thread1 t up pc abort_thread_rank[OF t] by (auto simp: poll_step_def Let_def set_wait_def)
  qed
  moreover have "t_wait (poll_step c p th w s) p \<noteq> None"
    by (auto simp: poll_step_def Let_def set_wait_def split: wthread.splits prod.splits)
  then obtain w' where "t_wait (poll_step c p th w s) p = Some w'" by blast
  ultimately show ?thesis using w n by (simp add: abort_left_def poll_step_prog)
qed

lemma abort_move:
  assumes up: "t_abort s (fst p)" and nb: "\<not> at_barrier s p th"
  shows "abort_left (tstep c (Move p th) s) p < abort_left s p"
proof -
  obtain opr rest where n: "prog (procs (t_net s) p) = opr # rest"
    using nb by (cases "prog (procs (t_net s) p)") (auto simp: at_barrier_def)
  have short: "abort_left s' p < abort_left s p" if "length (prog (procs (t_net s') p)) \<le> length rest" for s'
    using abort_left_le[of s' p] that n by (auto simp: abort_left_def split: option.splits)
  show ?thesis
  proof (cases "is_wait opr")
    case False
    then have "unblocked (t_net s) p" using n by (auto simp: unblocked_def Let_def is_wait_def)
    then show ?thesis using kstep_unblocked[of "t_net s" p c] n False by (intro short) (simp add: tstep_def)
  next
    case True
    show ?thesis
    proof (cases "t_wait s p")
      case None
      have "abort_rank (pc0 (wait_entry opr)) + abort_rank (pc1 (wait_entry opr)) \<le> 16"
        by (simp add: wait_entry_def)
      then show ?thesis using None n True by (simp add: tstep_def set_wait_def abort_left_def)
    next
      case (Some w)
      show ?thesis
      proof (cases "wait_over w")
        case over: True
        then show ?thesis using Some n True
          by (intro short) (simp add: tstep_def wait_return_def Let_def set_wait_def set_proc_def)
      next
        case over: False
        have "(case th of Thread0 \<Rightarrow> pc0 w | Thread1 \<Rightarrow> pc1 w) \<noteq> T_done"
          using nb n True Some over by (auto simp: at_barrier_def idle_def)
        from poll_left[OF Some n True up this] show ?thesis using n True Some over by (simp add: tstep_def)
      qed
    qed
  qed
qed

lemma barrier_same:
  assumes "at_barrier s p th"
  shows "same_block p s (tstep c (Move p th) s)"
proof (cases "prog (procs (t_net s) p)")
  case Nil
  then show ?thesis by (simp add: same_block_def tstep_def)
next
  case (Cons opr rest)
  then obtain w where w: "t_wait s p = Some w" "\<not> wait_over w" "(case th of Thread0 \<Rightarrow> pc0 w | Thread1 \<Rightarrow> pc1 w) = T_done" "is_wait opr"
    using assms by (auto simp: at_barrier_def idle_def)
  then show ?thesis using Cons by (cases th) (auto simp: tstep_def poll_step_def Let_def set_wait_def same_block_def)
qed

lemma raise_same: "same_block p s (tstep c (Raise_abort r) s)"
  by (simp add: same_block_def tstep_def)

lemma same_block_left: "same_block p s s' \<Longrightarrow> abort_left s' p = abort_left s p \<and> at_barrier s' p th = at_barrier s p th"
  by (cases "t_wait s p"; cases "prog (procs (t_net s) p)") (simp_all add: same_block_def abort_left_def at_barrier_def idle_def)

lemma tstep_abort_up: "t_abort s r \<Longrightarrow> t_abort (tstep c e s) r"
  by (auto simp: tstep_def set_wait_def wait_return_def poll_step_def Let_def
      split: wevent.splits list.splits option.splits wthread.splits prod.splits)

lemma abort_event:
  assumes up: "t_abort s (fst p)"
  shows "abort_left (tstep c e s) p < abort_left s p \<or>
    same_block p s (tstep c e s) \<and> (\<forall>th. e = Move p th \<longrightarrow> at_barrier s p th)"
proof (cases e)
  case (Raise_abort r)
  then show ?thesis by (simp add: raise_same)
next
  case (Move x th)
  then show ?thesis using abort_move[OF up, of th c] barrier_same[of s p th c] other_same[of x p s c th] by (cases "x = p") auto
qed

lemma abort_events:
  assumes "t_abort s (fst p)"
  shows "abort_left (trun c evs s) p < abort_left s p \<or>
    abort_left (trun c evs s) p = abort_left s p \<and> (\<forall>th. Move p th \<in> set evs \<longrightarrow> at_barrier s p th)"
  using assms
proof (induction evs arbitrary: s)
  case (Cons e evs)
  have IH: "abort_left (trun c evs (tstep c e s)) p < abort_left (tstep c e s) p \<or>
      abort_left (trun c evs (tstep c e s)) p = abort_left (tstep c e s) p \<and>
      (\<forall>th. Move p th \<in> set evs \<longrightarrow> at_barrier (tstep c e s) p th)"
    using Cons.prems by (intro Cons.IH tstep_abort_up)
  from abort_event[OF Cons.prems, of c e] show ?case
  proof
    assume "abort_left (tstep c e s) p < abort_left s p"
    then show ?case using IH by auto
  next
    assume "same_block p s (tstep c e s) \<and> (\<forall>th. e = Move p th \<longrightarrow> at_barrier s p th)"
    then show ?case using IH same_block_left[of p s "tstep c e s"] by auto
  qed
qed simp

lemma trun_abort_up: "t_abort s r \<Longrightarrow> t_abort (trun c evs s) r"
  by (induction evs arbitrary: s) (simp_all add: tstep_abort_up)

lemma abort_rounds:
  assumes "t_abort s (fst p)" "\<forall>r\<in>set rs. Move p Thread0 \<in> set r \<and> Move p Thread1 \<in> set r"
  shows "abort_left (trun c (concat rs) s) p \<le> abort_left s p - length rs"
  using assms
proof (induction rs arbitrary: s)
  case (Cons r rs)
  have up: "t_abort (trun c r s) (fst p)" using Cons.prems(1) by (rule trun_abort_up)
  have "abort_left (trun c r s) p \<le> abort_left s p - 1"
    using abort_events[OF Cons.prems(1), of c r] at_barrier_both[of s p] Cons.prems(2) abort_left_zero[of s p] by auto
  then show ?case using Cons.IH[OF up] Cons.prems(2) by (simp add: trun_append)
qed simp

section \<open>What a block still does under a raised flag\<close>

definition waits :: "kop list \<Rightarrow> nat" where
  "waits P = length (filter is_wait P)"

lemma waits_simps [simp]: "waits [] = 0" "waits (opr # P) = (if is_wait opr then 1 else 0) + waits P"
  by (simp_all add: waits_def)

text \<open>A wait that was entered under a raised flag: the status becomes zero and stays it.\<close>

definition doomed :: "wait_block \<Rightarrow> bool" where
  "doomed w \<longleftrightarrow> pc0 w \<noteq> T_one \<and> pc1 w \<noteq> T_one \<and>
     (wait_status w \<noteq> 0 \<longrightarrow> pc0 w \<in> {T_check, T_zero, T_done} \<and> pc1 w \<in> {T_check, T_zero, T_done} \<and> \<not> wait_over w)"

lemma doomed_entry: "is_wait opr \<Longrightarrow> doomed (wait_entry opr)"
  by (auto simp: doomed_def wait_entry_def is_wait_def wait_over_def)

lemma doomed_thread:
  assumes "doomed w" "\<not> wait_over w"
  shows "thread_step True b (pc0 w) (wait_status w) = (pc, st, ld) \<Longrightarrow> doomed (w\<lparr>pc0 := pc, wait_status := st\<rparr>)"
    "thread_step True b (pc1 w) (wait_status w) = (pc, st, ld) \<Longrightarrow> doomed (w\<lparr>pc1 := pc, wait_status := st\<rparr>)"
  using assms by (cases "pc0 w"; auto simp: doomed_def wait_over_def split: if_splits; fail)
    (cases "pc1 w"; use assms in \<open>auto simp: doomed_def wait_over_def split: if_splits\<close>; fail)

text \<open>Only a block at a wait has polling threads.\<close>

definition wait_ok :: "'t tnet \<Rightarrow> pid \<Rightarrow> bool" where
  "wait_ok s p \<longleftrightarrow> (t_wait s p \<noteq> None \<longrightarrow> prog (procs (t_net s) p) \<noteq> [] \<and> is_wait (hd (prog (procs (t_net s) p))))"

lemma wait_ok_step: "wait_ok s p \<Longrightarrow> wait_ok (tstep c e s) p"
proof (cases e)
  case (Move x th)
  assume ok: "wait_ok s p"
  show ?thesis
  proof (cases "x = p")
    case True
    then show ?thesis using ok Move
      by (cases "prog (procs (t_net s) p)")
         (auto simp: wait_ok_def tstep_def set_wait_def wait_return_def Let_def poll_step_prog split: option.splits)
  next
    case False
    then show ?thesis using ok Move other_same[OF False, of s c th] by (simp add: wait_ok_def same_block_def)
  qed
qed (simp add: wait_ok_def tstep_def)

lemma wait_ok_run: "wait_ok (trun c evs (tstart n)) p"
  by (induction evs rule: rev_induct) (simp_all add: trun_snoc wait_ok_step, simp add: wait_ok_def tstart_def)

text \<open>The block has ended, or has at least \<open>k\<close> waits ahead that it will not pass.\<close>

definition held_back :: "nat \<Rightarrow> 't tnet \<Rightarrow> pid \<Rightarrow> bool" where
  "held_back k s p \<longleftrightarrow> prog (procs (t_net s) p) = [] \<or>
     (case t_wait s p of
        None \<Rightarrow> k \<le> waits (prog (procs (t_net s) p))
      | Some w \<Rightarrow> k + (if doomed w then 0 else 1) \<le> waits (prog (procs (t_net s) p)))"

lemma held_back_poll:
  assumes h: "held_back k s p" and w: "t_wait s p = Some w" "\<not> wait_over w" and up: "t_abort s (fst p)"
  shows "held_back k (poll_step c p th w s) p"
proof -
  have "\<exists>w'. t_wait (poll_step c p th w s) p = Some w' \<and> (doomed w \<longrightarrow> doomed w')"
    using up doomed_thread[OF _ w(2)]
    by (cases th) (auto simp: poll_step_def Let_def set_wait_def split: prod.splits)
  then show ?thesis using h w(1) by (auto simp: held_back_def poll_step_prog)
qed

lemma held_back_step:
  assumes h: "held_back k s p" and ok: "wait_ok s p" and up: "t_abort s (fst p)"
  shows "held_back k (tstep c e s) p"
proof (cases "\<exists>th. e = Move p th")
  case False
  then have "same_block p s (tstep c e s)" by (cases e) (auto simp: raise_same intro: other_same)
  then show ?thesis using h by (cases "t_wait s p") (simp_all add: held_back_def same_block_def)
next
  case True
  then obtain th where e: "e = Move p th" by blast
  show ?thesis
  proof (cases "prog (procs (t_net s) p)")
    case Nil
    then show ?thesis using e by (simp add: held_back_def tstep_def)
  next
    case n: (Cons opr rest)
    show ?thesis
    proof (cases "is_wait opr")
      case False
      then have "t_wait s p = None" "unblocked (t_net s) p" using ok n by (auto simp: wait_ok_def unblocked_def Let_def is_wait_def)
      then show ?thesis using h n False e kstep_unblocked[of "t_net s" p c] by (simp add: held_back_def tstep_def)
    next
      case True
      show ?thesis
      proof (cases "t_wait s p")
        case None
        then show ?thesis using h n True e doomed_entry[OF True] by (simp add: held_back_def tstep_def set_wait_def)
      next
        case (Some w)
        then show ?thesis using h n True e held_back_poll[OF h Some _ up]
          by (cases "wait_over w"; cases "doomed w")
             (auto simp: held_back_def tstep_def wait_return_def Let_def set_wait_def set_proc_def doomed_def)
      qed
    qed
  qed
qed

lemma held_back_run:
  "held_back k s p \<Longrightarrow> wait_ok s p \<Longrightarrow> t_abort s (fst p) \<Longrightarrow> held_back k (trun c evs s) p"
  by (induction evs arbitrary: s) (simp_all add: held_back_step wait_ok_step tstep_abort_up)

lemma held_back_waits:
  assumes "held_back k s p"
  shows "prog (procs (t_net s) p) = [] \<or> k \<le> waits (prog (procs (t_net s) p))"
  using assms by (auto simp: held_back_def split: option.splits if_splits)

lemma held_back_start:
  "held_back (waits (prog (procs (t_net s) p)) - (if t_wait s p = None then 0 else 1)) s p" if "wait_ok s p"
  using that by (cases "prog (procs (t_net s) p)") (auto simp: held_back_def wait_ok_def split: option.splits)

section \<open>Properties\<close>

text \<open>C30: AllReduce is correct down to the threads that poll inside its waits. With the flags down, in every
  schedule whose rounds give both polling threads of every block a move, the blocks of all ranks
  have ended after eighteen rounds per operation; every output element then is the one ring reduction of the ranks'
  input elements, the inputs are as they were and the edges are quiet again.\<close>

theorem all_reduce_threads_correct:
  assumes "ar_valid c" "quiescent c s" "\<forall>r\<in>set rounds. fair_threads c r" "18 * ops_total c (all_reduce_program c) \<le> length rounds"
    and "s' = t_net (trun c (concat rounds) (tstart (launch_all c (all_reduce_program c) s)))" "i < kc_count c"
  shows "finished c s' \<and> quiescent c s' \<and>
    (\<exists>k<kc_nranks c. \<forall>r<kc_nranks c.
       net_mem s' (kc_output c r + i) = ring_result c (\<lambda>r'. net_mem s (kc_input c r' + i)) k) \<and>
    (\<forall>r<kc_nranks c. net_mem s' (kc_input c r + i) = net_mem s (kc_input c r + i))"
proof -
  note T = ring_collective.launch_threads_finish[OF ar.ring_collective_axioms assms(1-4), folded assms(5)]
  obtain sched where sc: "set sched \<subseteq> grid c" "finished c (run c sched (launch_all c (all_reduce_program c) s))"
    "agree s' (run c sched (launch_all c (all_reduce_program c) s))" using T(2) by blast
  define u where u: "u = run c sched (launch_all c (all_reduce_program c) s)"
  note a = sc(3)[folded u] and f = sc(2)[folded u]
  have "quiescent c u" by (rule ar.finished_quiescent[OF assms(1,2) sc(1) u f])
  then have "quiescent c s'" using a unfolding quiescent_def agree_def core_def by (metis prod.inject)
  moreover have "net_mem s' = net_mem u" using a by (simp add: agree_def)
  ultimately show ?thesis
    using T(1) ar_locate[OF assms(1,6)] ar_result_at[OF assms(1,2) sc(1) u f] ar_input_kept[OF assms(1,2) sc(1) u f assms(6)]
    by metis
qed

text \<open>C23: the abort flag ends a collective. Take any history of thread moves and raised flags on any state of
  the blocks, memory and edges, also one in which peers are gone and every counter is stale,
  after which the flag of a block's rank is up. However the threads go on, the block passes at most the one
  wait inside which the flag found it, and no wait that it enters later; and
  after eighteen rounds per operation left, each with a move of its two polling threads, it has ended.\<close>

theorem abort_ends_kernel:
  assumes "s = trun c history (tstart n)" "t_abort s (fst p)"
  shows "(prog (procs (t_net (trun c evs s)) p) = [] \<or>
            waits (prog (procs (t_net s) p)) \<le>
              waits (prog (procs (t_net (trun c evs s)) p)) + (if t_wait s p = None then 0 else 1)) \<and>
         ((\<forall>r\<in>set rounds. Move p Thread0 \<in> set r \<and> Move p Thread1 \<in> set r) \<and>
          18 * length (prog (procs (t_net s) p)) \<le> length rounds \<longrightarrow>
            prog (procs (t_net (trun c (concat rounds) s)) p) = [])"
proof
  have ok: "wait_ok s p" unfolding assms(1) by (rule wait_ok_run)
  show "prog (procs (t_net (trun c evs s)) p) = [] \<or>
      waits (prog (procs (t_net s) p)) \<le> waits (prog (procs (t_net (trun c evs s)) p)) + (if t_wait s p = None then 0 else 1)"
    using held_back_waits[OF held_back_run[OF held_back_start[OF ok] ok assms(2)], of c evs] by auto
  show "(\<forall>r\<in>set rounds. Move p Thread0 \<in> set r \<and> Move p Thread1 \<in> set r) \<and>
      18 * length (prog (procs (t_net s) p)) \<le> length rounds \<longrightarrow> prog (procs (t_net (trun c (concat rounds) s)) p) = []"
    using abort_rounds[OF assms(2), of rounds c] abort_left_le[of s p] abort_left_zero[of "trun c (concat rounds) s" p] by auto
qed

text \<open>C36: the double wait can lose an abort. In \<open>wait_recv_ready_and_send_credit\<close>, from any state in which the receive
  side is open and no send credit has arrived, there is an order of the two threads' accesses in which thread 1 sees the raised
  flag and stores zero, thread 0, which has read the status before, stores one over it, and the block goes on
  without the credit, its counters and the memory unchanged, to an operation that may write the unread slot.\<close>

theorem double_wait_loses_abort:
  assumes "prog (procs n p) = Wait_recv_ready_and_send_credit # rest" "\<not> recv_blocked (procs n p)"
    and "e_head (edges n p) + kFifoSteps < send_step (procs n p) + kSliceSteps" "send_blocked (procs n p)"
  shows "\<exists>before after w. Raise_abort (fst p) \<in> set before \<and>
    t_wait (trun c before (tstart n)) p = Some w \<and> wait_status w = 0 \<and> pc1 w = T_done \<and>
    t_wait (trun c (before @ after) (tstart n)) p = None \<and>
    t_net (trun c (before @ after) (tstart n)) = set_proc p ((procs n p)\<lparr>prog := rest\<rparr>) n"
proof -
  let ?before = "[Move p Thread0, Move p Thread0, Move p Thread0, Move p Thread0, Move p Thread1, Move p Thread1,
    Raise_abort (fst p), Move p Thread1, Move p Thread1, Move p Thread1]"
  let ?after = "[Move p Thread0, Move p Thread0]"
  note D = tstep_def tstart_def set_wait_def poll_step_def wait_return_def wait_over_def wait_entry_def is_wait_def Let_def
  have "t_wait (trun c ?before (tstart n)) p = Some \<lparr>wait_status = 0, pc0 = T_one, pc1 = T_done\<rparr>"
    using assms(1,2,4) by (simp add: D)
  moreover have "t_wait (trun c (?before @ ?after) (tstart n)) p = None"
    "t_net (trun c (?before @ ?after) (tstart n)) = set_proc p ((procs n p)\<lparr>prog := rest\<rparr>) n"
    using assms(1,2,4) by (simp_all add: D)
  ultimately show ?thesis by (intro exI[of _ ?before] exI[of _ ?after] exI) auto
qed

section \<open>Witnesses\<close>

definition demo_thread_rounds :: "wevent list list" where
  "demo_thread_rounds = replicate (18 * ops_total demo_cfg (all_reduce_program demo_cfg))
     [Move (0, 0) Thread1, Move (1, 0) Thread0, Move (0, 0) Thread0, Move (1, 0) Thread1]"

theorem all_reduce_threads_correct_witness:
  "finished demo_cfg (t_net (trun demo_cfg (concat demo_thread_rounds)
     (tstart (launch_all demo_cfg (all_reduce_program demo_cfg) demo_net))))"
proof -
  have "\<forall>r\<in>set demo_thread_rounds. fair_threads demo_cfg r"
    "18 * ops_total demo_cfg (all_reduce_program demo_cfg) \<le> length demo_thread_rounds"
    by (auto simp: demo_thread_rounds_def fair_threads_def demo_grid)
  from all_reduce_threads_correct[OF demo_valid demo_quiescent this refl, of 0] show ?thesis by (simp add: demo_cfg_def)
qed

text \<open>A block that waits for a receive that never comes.\<close>

definition demo_stuck :: "kop list \<Rightarrow> int net" where
  "demo_stuck P = demo_net\<lparr>procs := (procs demo_net)((0, 0) := (procs demo_net (0, 0))\<lparr>prog := P\<rparr>)\<rparr>"

theorem abort_ends_kernel_witness:
  "prog (procs (t_net (trun demo_cfg (concat (replicate 36 [Move (0, 0) Thread1, Move (0, 0) Thread0]))
     (trun demo_cfg [Move (0, 0) Thread0, Raise_abort 0] (tstart (demo_stuck [Wait_recv_ready, Advance_recv]))))) (0, 0)) = []"
proof -
  let ?s = "trun demo_cfg [Move (0, 0) Thread0, Raise_abort 0] (tstart (demo_stuck [Wait_recv_ready, Advance_recv]))"
  have up: "t_abort ?s (fst (0, 0 :: nat))"
    by (simp add: tstep_def tstart_def demo_stuck_def is_wait_def set_wait_def)
  have "length (prog (procs (t_net ?s) (0, 0))) = 2"
    by (simp add: tstep_def tstart_def demo_stuck_def is_wait_def set_wait_def)
  then show ?thesis
    using abort_ends_kernel[OF refl up, of "[]" "replicate 36 [Move (0, 0) Thread1, Move (0, 0) Thread0]"] by simp
qed

theorem double_wait_loses_abort_witness:
  "\<exists>before after w. Raise_abort 0 \<in> set before \<and>
    t_wait (trun demo_cfg before (tstart (demo_net\<lparr>procs := (\<lambda>_. (procs demo_net (0, 0))\<lparr>prog := [Wait_recv_ready_and_send_credit, Bcast 0 1],
        send_step := 8, recv_tail_cache := 2\<rparr>)\<rparr>))) (0, 0) = Some w \<and> wait_status w = 0 \<and>
    prog (procs (t_net (trun demo_cfg (before @ after) (tstart (demo_net\<lparr>procs := (\<lambda>_. (procs demo_net (0, 0))
        \<lparr>prog := [Wait_recv_ready_and_send_credit, Bcast 0 1], send_step := 8, recv_tail_cache := 2\<rparr>)\<rparr>)))) (0, 0)) = [Bcast 0 1]"
proof -
  let ?n = "demo_net\<lparr>procs := (\<lambda>_. (procs demo_net (0, 0))\<lparr>prog := [Wait_recv_ready_and_send_credit, Bcast 0 1], send_step := 8, recv_tail_cache := 2\<rparr>)\<rparr>"
  have h: "prog (procs ?n (0, 0)) = [Wait_recv_ready_and_send_credit, Bcast 0 1]" "\<not> recv_blocked (procs ?n (0, 0))"
    "e_head (edges ?n (0, 0)) + kFifoSteps < send_step (procs ?n (0, 0)) + kSliceSteps" "send_blocked (procs ?n (0, 0))"
    by (simp_all add: demo_net_def recv_blocked_def send_blocked_def simple_consts)
  obtain before after w where r: "Raise_abort (fst (0, 0 :: nat)) \<in> set before"
    "t_wait (trun demo_cfg before (tstart ?n)) (0, 0) = Some w" "wait_status w = 0"
    "t_net (trun demo_cfg (before @ after) (tstart ?n)) = set_proc (0, 0) ((procs ?n (0, 0))\<lparr>prog := [Bcast 0 1]\<rparr>) ?n"
    using double_wait_loses_abort[OF h, of demo_cfg] by blast
  have "prog (procs (t_net (trun demo_cfg (before @ after) (tstart ?n))) (0, 0)) = [Bcast 0 1]"
    unfolding r(4) by (simp add: set_proc_def)
  with r(1-3) show ?thesis unfolding fst_conv by blast
qed

end
