(* ===== verification/C_Api.thy ===== *)
theory C_Api
  imports Types
begin

text \<open>
  The C interface: \<open>c_api.cc\<close>, \<open>c_api_internal.h\<close> and \<open>mpi_c_api.cc\<close>. Every entry point takes the
  state of the calling thread (\<open>last_error\<close>) and the handle and returns the status with the new
  state. The C++ communicator behind a handle is an object of an arbitrary type with the
  operations \<open>'c comm_ops\<close>; the theory \<open>Communicator\<close> provides them. Pointers, sizes and
  addresses are 64-bit words.
\<close>

section \<open>Status, enumerations, diagnostics\<close>

datatype nccl_status = NANO_NCCL_STATUS_SUCCESS | NANO_NCCL_STATUS_INVALID_ARGUMENT
  | NANO_NCCL_STATUS_UNSUPPORTED | NANO_NCCL_STATUS_ERROR

fun status_code :: "nccl_status \<Rightarrow> int" where
  "status_code NANO_NCCL_STATUS_SUCCESS = 0"
| "status_code NANO_NCCL_STATUS_INVALID_ARGUMENT = 1"
| "status_code NANO_NCCL_STATUS_UNSUPPORTED = 2"
| "status_code NANO_NCCL_STATUS_ERROR = 3"

definition nano_nccl_status_string :: "int \<Rightarrow> string" where
  "nano_nccl_status_string status =
     (if status = status_code NANO_NCCL_STATUS_SUCCESS then ''success''
      else if status = status_code NANO_NCCL_STATUS_INVALID_ARGUMENT then ''invalid argument''
      else if status = status_code NANO_NCCL_STATUS_UNSUPPORTED then ''unsupported''
      else if status = status_code NANO_NCCL_STATUS_ERROR then ''error''
      else ''unknown status'')"

definition to_cpp_dtype :: "int \<Rightarrow> DType option" where
  "to_cpp_dtype v = (if v = 0 then Some Float else if v = 1 then Some Float16 else if v = 2 then Some BFloat16 else None)"

definition to_cpp_redop :: "int \<Rightarrow> RedOp option" where
  "to_cpp_redop v = (if v = 0 then Some RSum else if v = 1 then Some RAvg else if v = 2 then Some RMax
     else if v = 3 then Some RMin else None)"

fun from_cpp_transport :: "TransportKind \<Rightarrow> int" where
  "from_cpp_transport Auto = 0"
| "from_cpp_transport Shm = 1"
| "from_cpp_transport P2p = 2"
| "from_cpp_transport Socket = 3"
| "from_cpp_transport Rdma = 4"
| "from_cpp_transport Mixed = 5"

text \<open>What a C++ call may do: return, throw a \<open>std::exception\<close>, throw something else.\<close>

datatype 'a call = Returned 'a | Threw exn | Threw_unknown

record 'c comm_ops =
  co_all_reduce :: "64 word \<Rightarrow> 64 word \<Rightarrow> 64 word \<Rightarrow> 64 word \<Rightarrow> DType \<Rightarrow> RedOp \<Rightarrow> 'c \<Rightarrow> unit call \<times> 'c"
  co_reduce_scatter :: "64 word \<Rightarrow> 64 word \<Rightarrow> 64 word \<Rightarrow> 64 word \<Rightarrow> DType \<Rightarrow> RedOp \<Rightarrow> 'c \<Rightarrow> unit call \<times> 'c"
  co_all_gather :: "64 word \<Rightarrow> 64 word \<Rightarrow> 64 word \<Rightarrow> 64 word \<Rightarrow> DType \<Rightarrow> 'c \<Rightarrow> unit call \<times> 'c"
  co_check_async_error :: "'c \<Rightarrow> unit call"
  co_local_rank_count :: "'c \<Rightarrow> int"
  co_global_rank_count :: "'c \<Rightarrow> int"
  co_transport :: "'c \<Rightarrow> TransportKind"
  co_edge_transport :: "'c \<Rightarrow> int \<Rightarrow> TransportKind call"
  co_edge_uses_gdr :: "'c \<Rightarrow> int \<Rightarrow> bool call"

text \<open>
  A handle: a null pointer, or an object whose communicator may itself be null. The handle state
  also carries the thread's diagnostic.
\<close>

record 'c cstate =
  last_error :: string
  handle :: "'c option option"

definition kLastErrorBytes :: nat where "kLastErrorBytes = 1024"

text \<open>\<open>snprintf\<close> into the 1024-byte buffer keeps at most 1023 characters.\<close>

definition fail :: "nccl_status \<Rightarrow> string \<Rightarrow> 'c cstate \<Rightarrow> nccl_status \<times> 'c cstate" where
  "fail status message st = (status, st\<lparr>last_error := take (kLastErrorBytes - 1) message\<rparr>)"

definition begin_call :: "'c cstate \<Rightarrow> 'c cstate" where
  "begin_call st = st\<lparr>last_error := []\<rparr>"

definition translate_exceptions :: "'a call \<Rightarrow> 'c cstate \<Rightarrow> nccl_status \<times> 'c cstate" where
  "translate_exceptions r st =
     (case r of
        Returned _ \<Rightarrow> (NANO_NCCL_STATUS_SUCCESS, st)
      | Threw (Invalid_argument m) \<Rightarrow> fail NANO_NCCL_STATUS_INVALID_ARGUMENT m st
      | Threw e \<Rightarrow> fail NANO_NCCL_STATUS_ERROR (what e) st
      | Threw_unknown \<Rightarrow> fail NANO_NCCL_STATUS_ERROR ''unknown C++ exception'' st)"

section \<open>Validation\<close>

type_synonym check = "string option"

definition validate_handle :: "'c option option \<Rightarrow> string + 'c" where
  "validate_handle h = (case h of Some (Some c) \<Rightarrow> Inr c | _ \<Rightarrow> Inl ''communicator must be non-null'')"

definition validate_buffer_args :: "64 word \<Rightarrow> 64 word \<Rightarrow> 64 word \<Rightarrow> 64 word \<Rightarrow> check" where
  "validate_buffer_args send_buffer recv_buffer stream count =
     (if send_buffer = 0 \<or> recv_buffer = 0 \<or> stream = 0 then Some ''collective buffers and stream must be non-null''
      else if count = 0 then Some ''collective count must be positive''
      else if send_buffer = recv_buffer then Some ''in-place collectives are unsupported''
      else None)"

definition checked_multiply :: "64 word \<Rightarrow> 64 word \<Rightarrow> 64 word option" where
  "checked_multiply lhs rhs = (if lhs > - 1 div rhs then None else Some (lhs * rhs))"

definition dtype_size :: "int \<Rightarrow> 64 word" where
  "dtype_size dtype = (if dtype = 0 then 4 else 2)"

definition validate_buffer_overlap :: "64 word \<Rightarrow> 64 word \<Rightarrow> 64 word \<Rightarrow> 64 word \<Rightarrow> int \<Rightarrow> check" where
  "validate_buffer_overlap send_buffer recv_buffer send_count recv_count dtype =
     (let element_size = dtype_size dtype in
      case checked_multiply send_count element_size of
        None \<Rightarrow> Some ''collective byte count overflows''
      | Some send_bytes \<Rightarrow>
          (case checked_multiply recv_count element_size of
             None \<Rightarrow> Some ''collective byte count overflows''
           | Some recv_bytes \<Rightarrow>
               if send_bytes > - 1 - send_buffer then Some ''collective send address range overflows''
               else if recv_bytes > - 1 - recv_buffer then Some ''collective receive address range overflows''
               else if send_buffer < recv_buffer + recv_bytes \<and> recv_buffer < send_buffer + send_bytes
               then Some ''overlapping send and receive buffers are unsupported''
               else None))"

definition invalid :: "string \<Rightarrow> 'c cstate \<Rightarrow> nccl_status \<times> 'c cstate" where
  "invalid message st = fail NANO_NCCL_STATUS_INVALID_ARGUMENT message st"

section \<open>Collectives\<close>

record cargs =
  a_send_buffer :: "64 word"
  a_recv_buffer :: "64 word"
  a_stream :: "64 word"
  a_count :: "64 word"
  a_dtype :: int
  a_redop :: int

text \<open>Run an operation of the communicator behind the handle and translate what it throws.\<close>

definition call_comm :: "('c \<Rightarrow> unit call \<times> 'c) \<Rightarrow> 'c \<Rightarrow> 'c cstate \<Rightarrow> nccl_status \<times> 'c cstate" where
  "call_comm f c st = (case f c of (r, c') \<Rightarrow> translate_exceptions r (st\<lparr>handle := Some (Some c')\<rparr>))"

definition nano_nccl_all_reduce :: "'c comm_ops \<Rightarrow> cargs option \<Rightarrow> 'c cstate \<Rightarrow> nccl_status \<times> 'c cstate" where
  "nano_nccl_all_reduce ops args st0 =
     (let st = begin_call st0 in
      case validate_handle (handle st) of Inl m \<Rightarrow> invalid m st | Inr c \<Rightarrow>
      (case args of None \<Rightarrow> invalid ''all_reduce args must be non-null'' st | Some a \<Rightarrow>
      (case validate_buffer_args (a_send_buffer a) (a_recv_buffer a) (a_stream a) (a_count a) of Some m \<Rightarrow> invalid m st | None \<Rightarrow>
      (case to_cpp_dtype (a_dtype a) of None \<Rightarrow> invalid ''unsupported dtype value'' st | Some dtype \<Rightarrow>
      (case validate_buffer_overlap (a_send_buffer a) (a_recv_buffer a) (a_count a) (a_count a) (a_dtype a) of
         Some m \<Rightarrow> invalid m st | None \<Rightarrow>
      (case to_cpp_redop (a_redop a) of None \<Rightarrow> invalid ''unsupported reduction operation value'' st | Some redop \<Rightarrow>
         call_comm (co_all_reduce ops (a_send_buffer a) (a_recv_buffer a) (a_stream a) (a_count a) dtype redop) c st))))))"

definition nano_nccl_reduce_scatter :: "'c comm_ops \<Rightarrow> cargs option \<Rightarrow> 'c cstate \<Rightarrow> nccl_status \<times> 'c cstate" where
  "nano_nccl_reduce_scatter ops args st0 =
     (let st = begin_call st0 in
      case validate_handle (handle st) of Inl m \<Rightarrow> invalid m st | Inr c \<Rightarrow>
      (case args of None \<Rightarrow> invalid ''reduce_scatter args must be non-null'' st | Some a \<Rightarrow>
      (case validate_buffer_args (a_send_buffer a) (a_recv_buffer a) (a_stream a) (a_count a) of Some m \<Rightarrow> invalid m st | None \<Rightarrow>
      (case to_cpp_dtype (a_dtype a) of None \<Rightarrow> invalid ''unsupported dtype value'' st | Some dtype \<Rightarrow>
      (case checked_multiply (a_count a) (of_int (co_global_rank_count ops c)) of
         None \<Rightarrow> invalid ''reduce_scatter element count overflows'' st | Some send_count \<Rightarrow>
      (case validate_buffer_overlap (a_send_buffer a) (a_recv_buffer a) send_count (a_count a) (a_dtype a) of
         Some m \<Rightarrow> invalid m st | None \<Rightarrow>
      (case to_cpp_redop (a_redop a) of None \<Rightarrow> invalid ''unsupported reduction operation value'' st | Some redop \<Rightarrow>
         call_comm (co_reduce_scatter ops (a_send_buffer a) (a_recv_buffer a) (a_stream a) (a_count a) dtype redop) c st)))))))"

text \<open>The arguments of AllGather have no reduction; the field is ignored.\<close>

definition nano_nccl_all_gather :: "'c comm_ops \<Rightarrow> cargs option \<Rightarrow> 'c cstate \<Rightarrow> nccl_status \<times> 'c cstate" where
  "nano_nccl_all_gather ops args st0 =
     (let st = begin_call st0 in
      case validate_handle (handle st) of Inl m \<Rightarrow> invalid m st | Inr c \<Rightarrow>
      (case args of None \<Rightarrow> invalid ''all_gather args must be non-null'' st | Some a \<Rightarrow>
      (case validate_buffer_args (a_send_buffer a) (a_recv_buffer a) (a_stream a) (a_count a) of Some m \<Rightarrow> invalid m st | None \<Rightarrow>
      (case to_cpp_dtype (a_dtype a) of None \<Rightarrow> invalid ''unsupported dtype value'' st | Some dtype \<Rightarrow>
      (case checked_multiply (a_count a) (of_int (co_global_rank_count ops c)) of
         None \<Rightarrow> invalid ''all_gather element count overflows'' st | Some recv_count \<Rightarrow>
      (case validate_buffer_overlap (a_send_buffer a) (a_recv_buffer a) (a_count a) recv_count (a_dtype a) of
         Some m \<Rightarrow> invalid m st | None \<Rightarrow>
         call_comm (co_all_gather ops (a_send_buffer a) (a_recv_buffer a) (a_stream a) (a_count a) dtype) c st))))))"

section \<open>Queries and destruction\<close>

text \<open>
  Destroying deletes the communicator and runs the cleanup of the handle. The handle is gone
  afterwards; a null handle is accepted. Whether the destructor throws is a parameter.
\<close>

definition nano_nccl_destroy_communicator :: "('c option \<Rightarrow> unit call) \<Rightarrow> 'c cstate \<Rightarrow> nccl_status \<times> 'c cstate" where
  "nano_nccl_destroy_communicator del st0 =
     (let st = begin_call st0 in
      case handle st of None \<Rightarrow> (NANO_NCCL_STATUS_SUCCESS, st)
      | Some c \<Rightarrow> translate_exceptions (del c) (st\<lparr>handle := None\<rparr>))"

definition nano_nccl_check_async_error :: "'c comm_ops \<Rightarrow> 'c cstate \<Rightarrow> nccl_status \<times> 'c cstate" where
  "nano_nccl_check_async_error ops st0 =
     (let st = begin_call st0 in
      case validate_handle (handle st) of Inl m \<Rightarrow> invalid m st
      | Inr c \<Rightarrow> translate_exceptions (co_check_async_error ops c) st)"

text \<open>The queries write through an output pointer: \<open>None\<close> is null, the new content is returned.\<close>

definition nano_nccl_local_rank_count :: "'c comm_ops \<Rightarrow> int option \<Rightarrow> 'c cstate \<Rightarrow> nccl_status \<times> int option \<times> 'c cstate" where
  "nano_nccl_local_rank_count ops out st0 =
     (let st = begin_call st0 in
      case validate_handle (handle st) of Inl m \<Rightarrow> (case invalid m st of (s, st') \<Rightarrow> (s, out, st'))
      | Inr c \<Rightarrow> (case out of None \<Rightarrow> (case invalid ''rank_count output must be non-null'' st of (s, st') \<Rightarrow> (s, out, st'))
                  | Some _ \<Rightarrow> (NANO_NCCL_STATUS_SUCCESS, Some (co_local_rank_count ops c), st)))"

definition nano_nccl_global_rank_count :: "'c comm_ops \<Rightarrow> int option \<Rightarrow> 'c cstate \<Rightarrow> nccl_status \<times> int option \<times> 'c cstate" where
  "nano_nccl_global_rank_count ops out st0 =
     (let st = begin_call st0 in
      case validate_handle (handle st) of Inl m \<Rightarrow> (case invalid m st of (s, st') \<Rightarrow> (s, out, st'))
      | Inr c \<Rightarrow> (case out of None \<Rightarrow> (case invalid ''rank_count output must be non-null'' st of (s, st') \<Rightarrow> (s, out, st'))
                  | Some _ \<Rightarrow> (NANO_NCCL_STATUS_SUCCESS, Some (co_global_rank_count ops c), st)))"

definition nano_nccl_transport :: "'c comm_ops \<Rightarrow> int option \<Rightarrow> 'c cstate \<Rightarrow> nccl_status \<times> int option \<times> 'c cstate" where
  "nano_nccl_transport ops out st0 =
     (let st = begin_call st0 in
      case validate_handle (handle st) of Inl m \<Rightarrow> (case invalid m st of (s, st') \<Rightarrow> (s, out, st'))
      | Inr c \<Rightarrow> (case out of None \<Rightarrow> (case invalid ''transport output must be non-null'' st of (s, st') \<Rightarrow> (s, out, st'))
                  | Some _ \<Rightarrow> (NANO_NCCL_STATUS_SUCCESS, Some (from_cpp_transport (co_transport ops c)), st)))"

text \<open>A throwing query leaves the output as it was.\<close>

definition write_result :: "('a \<Rightarrow> int) \<Rightarrow> 'a call \<Rightarrow> int option \<Rightarrow> int option" where
  "write_result f r out = (case r of Returned v \<Rightarrow> Some (f v) | _ \<Rightarrow> out)"

definition nano_nccl_edge_transport :: "'c comm_ops \<Rightarrow> int \<Rightarrow> int option \<Rightarrow> 'c cstate \<Rightarrow> nccl_status \<times> int option \<times> 'c cstate" where
  "nano_nccl_edge_transport ops source_global_rank out st0 =
     (let st = begin_call st0 in
      case validate_handle (handle st) of Inl m \<Rightarrow> (case invalid m st of (s, st') \<Rightarrow> (s, out, st'))
      | Inr c \<Rightarrow> (case out of None \<Rightarrow> (case invalid ''transport output must be non-null'' st of (s, st') \<Rightarrow> (s, out, st'))
                  | Some _ \<Rightarrow> (let r = co_edge_transport ops c source_global_rank in
                      case translate_exceptions r st of (s, st') \<Rightarrow> (s, write_result from_cpp_transport r out, st'))))"

definition nano_nccl_edge_uses_gdr :: "'c comm_ops \<Rightarrow> int \<Rightarrow> int option \<Rightarrow> 'c cstate \<Rightarrow> nccl_status \<times> int option \<times> 'c cstate" where
  "nano_nccl_edge_uses_gdr ops source_global_rank out st0 =
     (let st = begin_call st0 in
      case validate_handle (handle st) of Inl m \<Rightarrow> (case invalid m st of (s, st') \<Rightarrow> (s, out, st'))
      | Inr c \<Rightarrow> (case out of None \<Rightarrow> (case invalid ''uses_gdr output must be non-null'' st of (s, st') \<Rightarrow> (s, out, st'))
                  | Some _ \<Rightarrow> (let r = co_edge_uses_gdr ops c source_global_rank in
                      case translate_exceptions r st of (s, st') \<Rightarrow> (s, write_result (\<lambda>b. if b then 1 else 0) r out, st'))))"

section \<open>Arithmetic of the checks\<close>

lemma word64_less_2p: "unat (a :: 64 word) < 2 ^ 64"
  using unsigned_less[of a] by simp

lemma checked_multiply_spec:
  assumes "rhs \<noteq> 0"
  shows "checked_multiply lhs rhs = (if unat lhs * unat rhs < 2 ^ 64 then Some (lhs * rhs) else None)"
    and "unat lhs * unat rhs < 2 ^ 64 \<Longrightarrow> unat (lhs * rhs) = unat lhs * unat rhs"
proof -
  have r: "0 < unat rhs" using assms by (simp add: unat_gt_0)
  have m: "unat (- 1 :: 64 word) = 2 ^ 64 - 1" by (simp add: unsigned_minus_1_eq_mask mask_eq_exp_minus_1)
  have "lhs > - 1 div rhs \<longleftrightarrow> (2 ^ 64 - 1) div unat rhs < unat lhs" by (simp add: word_less_nat_alt unat_div_distrib m)
  also have "\<dots> \<longleftrightarrow> 2 ^ 64 - 1 < unat lhs * unat rhs" using r by (simp add: div_less_iff_less_mult)
  also have "\<dots> \<longleftrightarrow> \<not> unat lhs * unat rhs < 2 ^ 64" by auto
  finally show "checked_multiply lhs rhs = (if unat lhs * unat rhs < 2 ^ 64 then Some (lhs * rhs) else None)"
    by (simp add: checked_multiply_def)
  show "unat lhs * unat rhs < 2 ^ 64 \<Longrightarrow> unat (lhs * rhs) = unat lhs * unat rhs"
    by (simp add: unat_word_ariths)
qed

lemma range_fits: "\<not> n > - 1 - (p :: 64 word) \<longleftrightarrow> unat p + unat n < 2 ^ 64"
proof -
  have m: "unat (- 1 :: 64 word) = 2 ^ 64 - 1" by (simp add: unsigned_minus_1_eq_mask mask_eq_exp_minus_1)
  have "unat (- 1 - p) = 2 ^ 64 - 1 - unat p" by (subst unat_sub) (simp_all add: m)
  then have "\<not> n > - 1 - p \<longleftrightarrow> unat n \<le> 2 ^ 64 - 1 - unat p" by (simp add: word_le_nat_alt not_less)
  also have "\<dots> \<longleftrightarrow> unat p + unat n < 2 ^ 64" using word64_less_2p[of p] by linarith
  finally show ?thesis .
qed

text \<open>Bytes of a buffer as addresses.\<close>

definition bytes_of :: "64 word \<Rightarrow> nat \<Rightarrow> nat set" where
  "bytes_of p n = {unat p..<unat p + n}"

definition buffers_separate :: "64 word \<Rightarrow> nat \<Rightarrow> 64 word \<Rightarrow> nat \<Rightarrow> bool" where
  "buffers_separate sb sn rb rn \<longleftrightarrow> unat sb + sn < 2 ^ 64 \<and> unat rb + rn < 2 ^ 64 \<and> bytes_of sb sn \<inter> bytes_of rb rn = {}"

lemma interval_overlap:
  assumes "unat a + unat n < 2 ^ 64" "unat b + unat m < 2 ^ 64" "0 < unat n" "0 < unat m"
  shows "(a < b + m \<and> b < a + (n :: 64 word)) \<longleftrightarrow> bytes_of a (unat n) \<inter> bytes_of b (unat m) \<noteq> {}"
proof -
  have "unat (b + m) = unat b + unat m" "unat (a + n) = unat a + unat n" using assms(1,2) by (simp_all add: unat_word_ariths)
  then have w: "(a < b + m \<and> b < a + n) \<longleftrightarrow> unat a < unat b + unat m \<and> unat b < unat a + unat n" by (simp add: word_less_nat_alt)
  also have "\<dots> \<longleftrightarrow> max (unat a) (unat b) \<in> bytes_of a (unat n) \<inter> bytes_of b (unat m)"
    using assms(3,4) by (auto simp: bytes_of_def)
  also have "\<dots> \<longleftrightarrow> bytes_of a (unat n) \<inter> bytes_of b (unat m) \<noteq> {}" by (auto simp: bytes_of_def)
  finally show ?thesis .
qed

lemma dtype_size_nz: "dtype_size d \<noteq> 0" "unat (dtype_size d) = (if d = 0 then 4 else 2)"
  by (simp_all add: dtype_size_def)

lemma validate_buffer_overlap_iff:
  assumes "send_count \<noteq> 0" "recv_count \<noteq> 0"
  shows "validate_buffer_overlap sb rb send_count recv_count d = None \<longleftrightarrow>
    buffers_separate sb (unat send_count * unat (dtype_size d)) rb (unat recv_count * unat (dtype_size d))"
proof (cases "unat send_count * unat (dtype_size d) < 2 ^ 64 \<and> unat recv_count * unat (dtype_size d) < 2 ^ 64")
  case True
  let ?e = "dtype_size d"
  let ?s = "send_count * ?e" and ?r = "recv_count * ?e"
  have m: "checked_multiply send_count ?e = Some ?s" "checked_multiply recv_count ?e = Some ?r"
    "unat ?s = unat send_count * unat ?e" "unat ?r = unat recv_count * unat ?e"
    using True checked_multiply_spec[OF dtype_size_nz(1), of _ d] by auto
  have pos: "0 < unat ?s" "0 < unat ?r" using assms m(3,4) dtype_size_nz(2)[of d] by (auto simp: unat_gt_0)
  have "validate_buffer_overlap sb rb send_count recv_count d = None \<longleftrightarrow>
      \<not> ?s > - 1 - sb \<and> \<not> ?r > - 1 - rb \<and> \<not> (sb < rb + ?r \<and> rb < sb + ?s)"
    unfolding validate_buffer_overlap_def Let_def m(1,2) option.case by (simp only: split: if_split) blast
  also have "\<dots> \<longleftrightarrow> buffers_separate sb (unat ?s) rb (unat ?r)"
    unfolding range_fits buffers_separate_def using interval_overlap[of sb ?s rb ?r] pos by blast
  finally show ?thesis by (simp only: m(3,4))
next
  case False
  then show ?thesis using checked_multiply_spec(1)[OF dtype_size_nz(1), of _ d]
    unfolding validate_buffer_overlap_def Let_def buffers_separate_def by (auto split: option.splits)
qed

section \<open>Properties\<close>

text \<open>Arguments of a collective that moves \<open>sc\<close> elements out of and \<open>rc\<close> elements into the buffers.\<close>

definition args_ok :: "cargs \<Rightarrow> nat \<Rightarrow> nat \<Rightarrow> bool" where
  "args_ok a sc rc \<longleftrightarrow> a_send_buffer a \<noteq> 0 \<and> a_recv_buffer a \<noteq> 0 \<and> a_stream a \<noteq> 0 \<and> a_count a \<noteq> 0 \<and>
     a_dtype a \<in> {0, 1, 2} \<and> sc < 2 ^ 64 \<and> rc < 2 ^ 64 \<and>
     buffers_separate (a_send_buffer a) (sc * unat (dtype_size (a_dtype a)))
       (a_recv_buffer a) (rc * unat (dtype_size (a_dtype a)))"

lemma separate_distinct:
  "buffers_separate a n b m \<Longrightarrow> 0 < n \<Longrightarrow> 0 < m \<Longrightarrow> a \<noteq> b"
  by (auto simp: buffers_separate_def bytes_of_def)

lemma to_cpp_dtype_iff: "to_cpp_dtype v \<noteq> None \<longleftrightarrow> v \<in> {0, 1, 2}"
  by (auto simp: to_cpp_dtype_def)

lemma dtype_size_sizeof: "to_cpp_dtype v = Some dt \<Longrightarrow> unat (dtype_size v) = sizeof dt"
  by (auto simp: to_cpp_dtype_def dtype_size_def split: if_splits)

lemma args_ok_checks:
  assumes "unat sc \<noteq> 0" "unat rc \<noteq> 0"
  shows "args_ok a (unat sc) (unat rc) \<longleftrightarrow>
    validate_buffer_args (a_send_buffer a) (a_recv_buffer a) (a_stream a) (a_count a) = None \<and>
    to_cpp_dtype (a_dtype a) \<noteq> None \<and>
    validate_buffer_overlap (a_send_buffer a) (a_recv_buffer a) sc rc (a_dtype a) = None"
proof -
  have nz: "sc \<noteq> 0" "rc \<noteq> 0" using assms by auto
  have "0 < unat sc * unat (dtype_size (a_dtype a))" "0 < unat rc * unat (dtype_size (a_dtype a))"
    using assms dtype_size_nz(2)[of "a_dtype a"] by simp_all
  note distinct = separate_distinct[OF _ this]
  show ?thesis
    unfolding args_ok_def validate_buffer_overlap_iff[OF nz] to_cpp_dtype_iff validate_buffer_args_def
    using word64_less_2p[of sc] word64_less_2p[of rc] distinct by auto
qed

text \<open>An entry point that refuses: the status, a message, the communicator untouched.\<close>

definition refused :: "'c cstate \<Rightarrow> nccl_status \<times> 'c cstate \<Rightarrow> bool" where
  "refused st r \<longleftrightarrow> fst r = NANO_NCCL_STATUS_INVALID_ARGUMENT \<and> handle (snd r) = handle st \<and> last_error (snd r) \<noteq> []"

lemma refused_invalid: "m \<noteq> [] \<Longrightarrow> refused st (invalid m (begin_call st))"
  by (simp add: refused_def invalid_def fail_def begin_call_def kLastErrorBytes_def)

lemma validate_messages:
  "validate_buffer_args s r t n = Some m \<Longrightarrow> m \<noteq> []" "validate_buffer_overlap s r sc rc d = Some m \<Longrightarrow> m \<noteq> []"
  by (auto simp: validate_buffer_args_def validate_buffer_overlap_def Let_def split: if_splits option.splits)

text \<open>C39: \<open>validate_buffer_overlap\<close> decides, on 64-bit machine arithmetic, exactly whether both byte
  ranges fit into the address space and share no byte; no product or sum in it wraps.\<close>

theorem validate_buffer_overlap_exact:
  assumes "send_count \<noteq> 0" "recv_count \<noteq> 0"
  shows "validate_buffer_overlap sb rb send_count recv_count d = None \<longleftrightarrow>
    unat sb + unat send_count * unat (dtype_size d) < 2 ^ 64 \<and>
    unat rb + unat recv_count * unat (dtype_size d) < 2 ^ 64 \<and>
    {unat sb..<unat sb + unat send_count * unat (dtype_size d)} \<inter>
    {unat rb..<unat rb + unat recv_count * unat (dtype_size d)} = {}"
  using validate_buffer_overlap_iff[OF assms] by (simp add: buffers_separate_def bytes_of_def)

theorem validate_buffer_overlap_exact_witness:
  "validate_buffer_overlap 4096 8192 1024 1024 0 = None \<and> validate_buffer_overlap 4096 8188 1024 1024 0 \<noteq> None"
  using validate_buffer_overlap_exact[of 1024 1024 4096 8192 0] validate_buffer_overlap_exact[of 1024 1024 4096 8188 0]
  by (simp add: dtype_size_def)

text \<open>\<open>nano_nccl_all_reduce\<close> with a live handle runs the collective exactly when the buffers are
  non-null and separate, the count is positive and data type and reduction are known;
  otherwise it reports an invalid argument with a message and leaves the communicator alone.\<close>

theorem nano_nccl_all_reduce_checked:
  assumes "handle st = Some (Some c)"
  shows "if args_ok a (unat (a_count a)) (unat (a_count a)) \<and> a_redop a \<in> {0, 1, 2, 3}
         then nano_nccl_all_reduce ops (Some a) st =
           call_comm (co_all_reduce ops (a_send_buffer a) (a_recv_buffer a) (a_stream a) (a_count a)
             (the (to_cpp_dtype (a_dtype a))) (the (to_cpp_redop (a_redop a)))) c (begin_call st)
         else refused st (nano_nccl_all_reduce ops (Some a) st)"
proof -
  have h: "validate_handle (handle (begin_call st)) = Inr c" using assms by (simp add: begin_call_def validate_handle_def)
  have rd: "to_cpp_redop (a_redop a) \<noteq> None \<longleftrightarrow> a_redop a \<in> {0, 1, 2, 3}" by (auto simp: to_cpp_redop_def)
  show ?thesis
  proof (cases "a_count a = 0")
    case True
    then show ?thesis
      using h by (auto simp: args_ok_def nano_nccl_all_reduce_def validate_buffer_args_def Let_def intro!: refused_invalid)
  next
    case False
    then have nz: "unat (a_count a) \<noteq> 0" by (simp add: unat_eq_zero)
    show ?thesis unfolding args_ok_checks[OF nz nz] rd[symmetric] nano_nccl_all_reduce_def Let_def h
      by (auto intro!: refused_invalid dest: validate_messages split: option.split)
  qed
qed

definition demo_ops :: "nat comm_ops" where
  "demo_ops = \<lparr> co_all_reduce = (\<lambda>s r t n d op c. (Returned (), Suc c)), co_reduce_scatter = (\<lambda>s r t n d op c. (Returned (), Suc c)),
     co_all_gather = (\<lambda>s r t n d c. (Returned (), Suc c)), co_check_async_error = (\<lambda>c. Returned ()), co_local_rank_count = (\<lambda>c. 1),
     co_global_rank_count = (\<lambda>c. 4), co_transport = (\<lambda>c. Rdma), co_edge_transport = (\<lambda>c e. Returned Rdma),
     co_edge_uses_gdr = (\<lambda>c e. Returned False) \<rparr>"

definition demo_args :: "64 word \<Rightarrow> cargs" where
  "demo_args recv = \<lparr> a_send_buffer = 4096, a_recv_buffer = recv, a_stream = 7, a_count = 16, a_dtype = 1, a_redop = 2 \<rparr>"

theorem nano_nccl_all_reduce_checked_witness:
  "nano_nccl_all_reduce demo_ops (Some (demo_args 8192)) \<lparr> last_error = ''old'', handle = Some (Some 5) \<rparr> =
     (NANO_NCCL_STATUS_SUCCESS, \<lparr> last_error = [], handle = Some (Some 6) \<rparr>) \<and>
   refused \<lparr> last_error = ''old'', handle = Some (Some 5) \<rparr>
     (nano_nccl_all_reduce demo_ops (Some (demo_args 4100)) \<lparr> last_error = ''old'', handle = Some (Some 5) \<rparr>)"
proof -
  let ?st = "\<lparr> last_error = ''old'', handle = Some (Some (5::nat)) \<rparr>"
  have h: "handle ?st = Some (Some 5)" by simp
  have s: "unat (16 :: 64 word) = 16" "unat (4096 :: 64 word) = 4096" "unat (8192 :: 64 word) = 8192" "unat (4100 :: 64 word) = 4100" by simp_all
  have ok: "args_ok (demo_args 8192) (unat (a_count (demo_args 8192))) (unat (a_count (demo_args 8192)))"
    by (simp add: args_ok_def demo_args_def buffers_separate_def bytes_of_def dtype_size_def)
  have "4100 \<in> {4096..<4128 :: nat} \<inter> {4100..<4132}" by simp
  then have "{4096..<4128 :: nat} \<inter> {4100..<4132} \<noteq> {}" by blast
  then have bad: "\<not> args_ok (demo_args 4100) (unat (a_count (demo_args 4100))) (unat (a_count (demo_args 4100)))"
    by (simp add: args_ok_def demo_args_def buffers_separate_def bytes_of_def dtype_size_def)
  show ?thesis
    using nano_nccl_all_reduce_checked[OF h, of "demo_args 8192" demo_ops] nano_nccl_all_reduce_checked[OF h, of "demo_args 4100" demo_ops] ok bad
    by (simp add: demo_args_def demo_ops_def call_comm_def translate_exceptions_def begin_call_def)
qed

end
