(* ===== verification/Mpi_C_Api.thy ===== *)
theory Mpi_C_Api
  imports C_Api
begin

text \<open>
  \<open>mpi_c_api.cc\<close>: creation of a communicator over an MPI subgroup and the leases that decide when
  the adapter finalizes MPI. The MPI library and the construction of the C++ communicator are
  parameters: \<open>'m\<close> is the state of the library, \<open>mpi_ops\<close> its calls (an error carries the text
  of \<open>MPI_Error_string\<close>), and \<open>mpi_laws\<close> states what the MPI standard says of them.
\<close>

section \<open>The MPI library\<close>

record ('m, 'k) mpi_ops =
  MPI_Initialized :: "'m \<Rightarrow> string + bool"
  MPI_Init_thread :: "'m \<Rightarrow> (string + int) \<times> 'm"
  MPI_Finalized :: "'m \<Rightarrow> string + bool"
  MPI_Finalize :: "'m \<Rightarrow> 'm"
  MPI_Comm_split :: "int \<Rightarrow> int \<Rightarrow> 'm \<Rightarrow> (string + 'k) \<times> 'm"
  MPI_Comm_free :: "'k \<Rightarrow> 'm \<Rightarrow> 'm"

definition MPI_THREAD_FUNNELED :: int where "MPI_THREAD_FUNNELED = 1"

definition mpi_check :: "string + 'a \<Rightarrow> string \<Rightarrow> 'a result" where
  "mpi_check status operation =
     (case status of Inr v \<Rightarrow> Inr v | Inl message \<Rightarrow> Inl (Runtime_error (operation @ '': '' @ message)))"

definition to_cpp_transport :: "int \<Rightarrow> TransportKind result" where
  "to_cpp_transport t =
     (if t = 0 then Inr Auto else if t = 1 then Inr Shm else if t = 2 then Inr P2p else if t = 3 then Inr Socket
      else if t = 4 then Inr Rdma
      else Inl (Invalid_argument ''MPI subgroup transport must be auto, shm, p2p, socket, or rdma''))"

section \<open>Leases\<close>

record mpi_runtime_state =
  leases :: nat
  initialized_by_adapter :: bool

definition acquire_mpi ::
  "('m, 'k) mpi_ops \<Rightarrow> 'm \<times> mpi_runtime_state \<Rightarrow> unit result \<times> 'm \<times> mpi_runtime_state" where
  "acquire_mpi mpi = (\<lambda>(m, rt).
     case mpi_check (MPI_Initialized mpi m) ''MPI_Initialized'' of
       Inl e \<Rightarrow> (Inl e, m, rt)
     | Inr initialized \<Rightarrow>
         if \<not> initialized then
           (case MPI_Init_thread mpi m of (status, m1) \<Rightarrow>
             (case mpi_check status ''MPI_Init_thread'' of
                Inl e \<Rightarrow> (Inl e, m1, rt)
              | Inr provided \<Rightarrow>
                  if provided < MPI_THREAD_FUNNELED
                  then (Inl (Runtime_error ''MPI does not provide MPI_THREAD_FUNNELED''), MPI_Finalize mpi m1, rt)
                  else (Inr (), m1, rt\<lparr>initialized_by_adapter := True, leases := leases rt + 1\<rparr>)))
         else
           (case mpi_check (MPI_Finalized mpi m) ''MPI_Finalized'' of
              Inl e \<Rightarrow> (Inl e, m, rt)
            | Inr finalized \<Rightarrow>
                if finalized then (Inl (Runtime_error ''MPI has already been finalized''), m, rt)
                else (Inr (), m, rt\<lparr>leases := leases rt + 1\<rparr>)))"

definition release_mpi ::
  "('m, 'k) mpi_ops \<Rightarrow> 'k option \<Rightarrow> bool \<Rightarrow> 'm \<times> mpi_runtime_state \<Rightarrow> 'm \<times> mpi_runtime_state" where
  "release_mpi mpi communicator has_lease = (\<lambda>(m, rt).
     let mpi_active = (MPI_Finalized mpi m = Inr False);
         m1 = (case communicator of Some k \<Rightarrow> if mpi_active then MPI_Comm_free mpi k m else m | None \<Rightarrow> m)
     in if \<not> has_lease then (m1, rt)
        else let rt1 = rt\<lparr>leases := leases rt - 1\<rparr> in
             if mpi_active \<and> initialized_by_adapter rt1 \<and> leases rt1 = 0
             then (MPI_Finalize mpi m1, rt1\<lparr>initialized_by_adapter := False\<rparr>)
             else (m1, rt1))"

section \<open>Creation\<close>

record mpi_config =
  color :: int
  key :: int
  device :: int
  mpi_transport :: int

text \<open>
  A created handle remembers the control communicator; its cleanup releases it with the lease.
  \<open>create\<close> is \<open>create_communicator_from_mpi\<close>.
\<close>

datatype ('c, 'k) created = Created 'c 'k

definition create_body ::
  "('m, 'k) mpi_ops \<Rightarrow> ('k \<Rightarrow> int \<Rightarrow> TransportKind \<Rightarrow> 'm \<Rightarrow> 'c call \<times> 'm) \<Rightarrow> mpi_config \<Rightarrow> 'm \<times> mpi_runtime_state \<Rightarrow>
   ('c, 'k) created call \<times> 'm \<times> mpi_runtime_state" where
  "create_body mpi create config w =
     (case acquire_mpi mpi w of (Inl e, w1) \<Rightarrow> (Threw e, w1) | (Inr _, m1, rt1) \<Rightarrow>
      (case MPI_Comm_split mpi (color config) (key config) m1 of (status, m2) \<Rightarrow>
       (case mpi_check status ''MPI_Comm_split'' of
          Inl e \<Rightarrow> (Threw e, release_mpi mpi None True (m2, rt1))
        | Inr control_comm \<Rightarrow>
            (case to_cpp_transport (mpi_transport config) of
               Inl e \<Rightarrow> (Threw e, release_mpi mpi (Some control_comm) True (m2, rt1))
             | Inr tr \<Rightarrow>
                 (case create control_comm (device config) tr m2 of (r, m3) \<Rightarrow>
                    (case r of
                       Returned c \<Rightarrow> (Returned (Created c control_comm), m3, rt1)
                     | Threw e \<Rightarrow> (Threw e, release_mpi mpi (Some control_comm) True (m3, rt1))
                     | Threw_unknown \<Rightarrow> (Threw_unknown, release_mpi mpi (Some control_comm) True (m3, rt1)))))))) "

text \<open>The entry point: status, diagnostic, the new content of \<open>*output\<close> (when it is not null).\<close>

definition nano_nccl_create_mpi_subgroup_communicator ::
  "('m, 'k) mpi_ops \<Rightarrow> ('k \<Rightarrow> int \<Rightarrow> TransportKind \<Rightarrow> 'm \<Rightarrow> 'c call \<times> 'm) \<Rightarrow> mpi_config option \<Rightarrow> bool \<Rightarrow>
   'm \<times> mpi_runtime_state \<Rightarrow> nccl_status \<times> string \<times> ('c, 'k) created option \<times> 'm \<times> mpi_runtime_state" where
  "nano_nccl_create_mpi_subgroup_communicator mpi create config has_output w =
     (let st = \<lparr>last_error = [], handle = None\<rparr> :: unit cstate;
          refuse = (\<lambda>m. case invalid m st of (s, st') \<Rightarrow> (s, last_error st', None, w))
      in if \<not> has_output then refuse ''communicator output must be non-null''
         else case config of None \<Rightarrow> refuse ''MPI subgroup config must be non-null''
         | Some cf \<Rightarrow>
             if color cf < 0 \<or> key cf < 0 then refuse ''MPI subgroup color and key must be non-negative''
             else case create_body mpi create cf w of (r, w') \<Rightarrow>
               (case translate_exceptions r st of (s, st') \<Rightarrow>
                  (s, last_error st', case r of Returned h \<Rightarrow> Some h | _ \<Rightarrow> None, w')))"

text \<open>Destroying a created handle: the communicator first, then the cleanup.\<close>

definition destroy_created :: "('m, 'k) mpi_ops \<Rightarrow> ('c \<Rightarrow> 'm \<Rightarrow> 'm) \<Rightarrow> ('c, 'k) created \<Rightarrow> 'm \<times> mpi_runtime_state \<Rightarrow> 'm \<times> mpi_runtime_state" where
  "destroy_created mpi del h = (\<lambda>(m, rt). case h of Created c k \<Rightarrow> release_mpi mpi (Some k) True (del c m, rt))"

definition nano_nccl_mpi_channel_count :: "nat \<Rightarrow> int option \<Rightarrow> nccl_status \<times> string \<times> int option" where
  "nano_nccl_mpi_channel_count kChannels out =
     (case out of None \<Rightarrow> (NANO_NCCL_STATUS_INVALID_ARGUMENT, ''channel_count output must be non-null'', None)
      | Some _ \<Rightarrow> (NANO_NCCL_STATUS_SUCCESS, [], Some (int kChannels)))"

section \<open>A process that creates and destroys communicators\<close>

text \<open>
  The documented behaviour of MPI the adapter relies on: the two queries answer and report
  whether the library has been initialized and finalized; initializing and finalizing change just
  that; splitting, freeing and using communicators change neither.
\<close>

definition mpi_laws ::
  "('m, 'k) mpi_ops \<Rightarrow> ('k \<Rightarrow> int \<Rightarrow> TransportKind \<Rightarrow> 'm \<Rightarrow> 'c call \<times> 'm) \<Rightarrow> ('c \<Rightarrow> 'm \<Rightarrow> 'm) \<Rightarrow> ('m \<Rightarrow> bool) \<Rightarrow> ('m \<Rightarrow> bool) \<Rightarrow> bool" where
  "mpi_laws mpi create del is_init is_fin \<longleftrightarrow>
     (\<forall>m. MPI_Initialized mpi m = Inr (is_init m) \<and> MPI_Finalized mpi m = Inr (is_fin m)) \<and>
     (\<forall>m. is_fin m \<longrightarrow> is_init m) \<and>
     (\<forall>m p m'. MPI_Init_thread mpi m = (Inr p, m') \<longrightarrow> is_init m' \<and> is_fin m' = is_fin m) \<and>
     (\<forall>m e m'. MPI_Init_thread mpi m = (Inl e, m') \<longrightarrow> is_init m' = is_init m \<and> is_fin m' = is_fin m) \<and>
     (\<forall>m. is_init m \<longrightarrow> is_init (MPI_Finalize mpi m) \<and> is_fin (MPI_Finalize mpi m)) \<and>
     (\<forall>a b m. is_init (snd (MPI_Comm_split mpi a b m)) = is_init m \<and> is_fin (snd (MPI_Comm_split mpi a b m)) = is_fin m) \<and>
     (\<forall>k m. is_init (MPI_Comm_free mpi k m) = is_init m \<and> is_fin (MPI_Comm_free mpi k m) = is_fin m) \<and>
     (\<forall>k d t m. is_init (snd (create k d t m)) = is_init m \<and> is_fin (snd (create k d t m)) = is_fin m) \<and>
     (\<forall>c m. is_init (del c m) = is_init m \<and> is_fin (del c m) = is_fin m)"

datatype event = Create mpi_config | Destroy nat

text \<open>Destroying an index that is not live is not a call the process can make.\<close>

fun event_step ::
  "('m, 'k) mpi_ops \<Rightarrow> ('k \<Rightarrow> int \<Rightarrow> TransportKind \<Rightarrow> 'm \<Rightarrow> 'c call \<times> 'm) \<Rightarrow> ('c \<Rightarrow> 'm \<Rightarrow> 'm) \<Rightarrow> event \<Rightarrow>
   ('c, 'k) created list \<times> 'm \<times> mpi_runtime_state \<Rightarrow> ('c, 'k) created list \<times> 'm \<times> mpi_runtime_state" where
  "event_step mpi create del (Create cf) (hs, w) =
     (case nano_nccl_create_mpi_subgroup_communicator mpi create (Some cf) True w of
        (s, err, out, w') \<Rightarrow> (case out of None \<Rightarrow> (hs, w') | Some h \<Rightarrow> (h # hs, w')))"
| "event_step mpi create del (Destroy i) (hs, w) =
     (if i < length hs then (take i hs @ drop (Suc i) hs, destroy_created mpi del (hs ! i) w) else (hs, w))"

section \<open>The lease invariant\<close>

text \<open>\<open>n\<close> handles are live: as many leases; MPI is up while there is one; the adapter holds on to
  MPI only while there is one; if MPI was not up at the start (\<open>own\<close>), the adapter owns it while
  there is a handle and has finalized it otherwise.\<close>

definition mpi_inv :: "bool \<Rightarrow> ('m \<Rightarrow> bool) \<Rightarrow> ('m \<Rightarrow> bool) \<Rightarrow> nat \<Rightarrow> 'm \<times> mpi_runtime_state \<Rightarrow> bool" where
  "mpi_inv own is_init is_fin n = (\<lambda>(m, rt). leases rt = n \<and> (0 < n \<longrightarrow> is_init m \<and> \<not> is_fin m) \<and>
     (initialized_by_adapter rt \<longrightarrow> 0 < n) \<and>
     (own \<longrightarrow> (if 0 < n then initialized_by_adapter rt else is_init m \<longrightarrow> is_fin m)))"

lemma acquire_mpi_inv:
  assumes laws: "mpi_laws mpi create del is_init is_fin" and inv: "mpi_inv own is_init is_fin n w"
    and acq: "acquire_mpi mpi w = (r, w')"
  shows "mpi_inv own is_init is_fin (case r of Inl _ \<Rightarrow> n | Inr _ \<Rightarrow> Suc n) w'"
proof -
  obtain m rt where w: "w = (m, rt)" by (cases w)
  have q: "MPI_Initialized mpi m = Inr (is_init m)" "MPI_Finalized mpi m = Inr (is_fin m)" "is_fin m \<Longrightarrow> is_init m"
    using laws by (auto simp: mpi_laws_def)
  show ?thesis
  proof (cases "is_init m")
    case True
    then show ?thesis using acq inv q by (auto simp: acquire_mpi_def w mpi_check_def mpi_inv_def split: if_splits)
  next
    case False
    then have n: "n = 0" using inv w by (simp add: mpi_inv_def)
    obtain st m1 where i: "MPI_Init_thread mpi m = (st, m1)" by (cases "MPI_Init_thread mpi m")
    show ?thesis
    proof (cases st)
      case (Inl e)
      then have "is_init m1 = is_init m" using laws i by (auto simp: mpi_laws_def)
      then show ?thesis using acq inv q False i Inl by (auto simp: acquire_mpi_def w mpi_check_def mpi_inv_def n)
    next
      case (Inr p)
      then have "is_init m1" "is_fin m1 = is_fin m" "is_fin (MPI_Finalize mpi m1)" using laws i by (auto simp: mpi_laws_def)
      then show ?thesis using acq inv q False i Inr n by (auto simp: acquire_mpi_def w mpi_check_def mpi_inv_def split: if_splits)
    qed
  qed
qed

lemma mpi_inv_state:
  assumes "mpi_inv own is_init is_fin n (m, rt)" "is_init m' = is_init m" "is_fin m' = is_fin m"
  shows "mpi_inv own is_init is_fin n (m', rt)"
  using assms by (simp add: mpi_inv_def)

lemma release_mpi_inv:
  assumes laws: "mpi_laws mpi create del is_init is_fin" and inv: "mpi_inv own is_init is_fin (Suc n) w"
  shows "mpi_inv own is_init is_fin n (release_mpi mpi k True w)"
proof -
  obtain m rt where w: "w = (m, rt)" by (cases w)
  have q: "MPI_Finalized mpi m = Inr (is_fin m)" "\<And>m. is_init m \<Longrightarrow> is_fin (MPI_Finalize mpi m)" "\<And>k m. is_init (MPI_Comm_free mpi k m) = is_init m \<and> is_fin (MPI_Comm_free mpi k m) = is_fin m"
    using laws by (auto simp: mpi_laws_def)
  show ?thesis using inv q by (cases k; cases n) (auto simp: release_mpi_def w mpi_inv_def Let_def)
qed

lemma create_body_inv:
  assumes laws: "mpi_laws mpi create del is_init is_fin" and inv: "mpi_inv own is_init is_fin n w"
    and cr: "create_body mpi create cf w = (r, w')"
  shows "mpi_inv own is_init is_fin (case r of Returned _ \<Rightarrow> Suc n | _ \<Rightarrow> n) w'"
proof -
  obtain a m1 rt1 where acq: "acquire_mpi mpi w = (a, m1, rt1)" by (cases "acquire_mpi mpi w")
  note ai = acquire_mpi_inv[OF laws inv acq]
  note rel = release_mpi_inv[OF laws]
  show ?thesis
  proof (cases a)
    case (Inl e)
    then show ?thesis using cr ai by (auto simp: create_body_def acq)
  next
    case (Inr u)
    then have i1: "mpi_inv own is_init is_fin (Suc n) (m1, rt1)" using ai by simp
    obtain st m2 where sp: "MPI_Comm_split mpi (color cf) (key cf) m1 = (st, m2)" by (cases "MPI_Comm_split mpi (color cf) (key cf) m1")
    have "is_init (snd (MPI_Comm_split mpi (color cf) (key cf) m1)) = is_init m1 \<and> is_fin (snd (MPI_Comm_split mpi (color cf) (key cf) m1)) = is_fin m1"
      using laws by (auto simp: mpi_laws_def)
    then have i2: "mpi_inv own is_init is_fin (Suc n) (m2, rt1)" using i1 sp by (intro mpi_inv_state[OF i1]) auto
    have i3: "mpi_inv own is_init is_fin (Suc n) (snd (create k d t m2), rt1)" for k d t
      using laws by (intro mpi_inv_state[OF i2]) (auto simp: mpi_laws_def)
    show ?thesis
      using cr Inr acq sp rel[OF i2] rel[OF i3] i3
      by (auto simp: create_body_def mpi_check_def split: sum.splits prod.splits call.splits)
         (metis snd_conv)+
  qed
qed

lemma event_step_inv:
  assumes laws: "mpi_laws mpi create del is_init is_fin" and inv: "mpi_inv own is_init is_fin (length hs) w"
    and st: "event_step mpi create del e (hs, w) = (hs', w')"
  shows "mpi_inv own is_init is_fin (length hs') w'"
proof (cases e)
  case (Create cf)
  obtain r w1 where cb: "create_body mpi create cf w = (r, w1)" by (cases "create_body mpi create cf w")
  show ?thesis using create_body_inv[OF laws inv cb] st inv cb
    by (auto simp: Create nano_nccl_create_mpi_subgroup_communicator_def Let_def invalid_def fail_def
        translate_exceptions_def split: if_splits call.splits exn.splits)
next
  case (Destroy i)
  show ?thesis
  proof (cases "i < length hs")
    case True
    obtain m rt where w: "w = (m, rt)" by (cases w)
    obtain c k where h: "hs ! i = Created c k" by (cases "hs ! i")
    have "Suc (length hs - 1) = length hs" using True by simp
    then have "mpi_inv own is_init is_fin (Suc (length hs - 1)) (del c m, rt)"
      using inv laws mpi_inv_state[of own is_init is_fin "length hs" m rt "del c m"] by (simp add: w mpi_laws_def)
    from release_mpi_inv[OF laws this, of "Some k"] st True show ?thesis
      by (auto simp: Destroy destroy_created_def w h)
  next
    case False
    then show ?thesis using st inv by (auto simp: Destroy)
  qed
qed

text \<open>C22: leases of the MPI runtime. Whatever communicators a process creates and destroys, in any
  order and with any creations failing, the lease count is the number of live communicators, MPI
  is initialized and not finalized as long as one is live, and the adapter gives MPI up when
  the last one is gone and not before; when the process did not initialize MPI itself,
  it is then finalized.\<close>

theorem mpi_leases_exact:
  assumes "mpi_laws mpi create del is_init is_fin" "leases rt = 0" "\<not> initialized_by_adapter rt"
    "fold (event_step mpi create del) es ([], m, rt) = (hs, m', rt')"
  shows "leases rt' = length hs \<and> (hs \<noteq> [] \<longrightarrow> is_init m' \<and> \<not> is_fin m') \<and> (initialized_by_adapter rt' \<longrightarrow> hs \<noteq> []) \<and>
         (\<not> is_init m \<and> hs = [] \<and> is_init m' \<longrightarrow> is_fin m')"
proof -
  let ?own = "\<not> is_init m"
  have "mpi_inv ?own is_init is_fin (length hs0) w0 \<Longrightarrow> fold (event_step mpi create del) es (hs0, w0) = (hs', w') \<Longrightarrow>
      mpi_inv ?own is_init is_fin (length hs') w'" for hs0 w0 hs' w'
    by (induction es arbitrary: hs0 w0) (auto dest: event_step_inv[OF assms(1)] simp del: event_step.simps, metis surj_pair event_step_inv[OF assms(1)])
  from this[of "[]" "(m, rt)" hs "(m', rt')"] assms(2-4) show ?thesis by (auto simp: mpi_inv_def)
qed

text \<open>A library that always succeeds: its state is the phase (0 before, 1 after initialization, 2 after
  finalization) and the next communicator. Creating a communicator on control communicator 1 fails.\<close>

definition demo_mpi :: "(nat \<times> nat, nat) mpi_ops" where
  "demo_mpi = \<lparr> MPI_Initialized = (\<lambda>(p, k). Inr (0 < p)), MPI_Init_thread = (\<lambda>(p, k). (Inr 1, (if p = 0 then 1 else p, k))),
     MPI_Finalized = (\<lambda>(p, k). Inr (p = 2)), MPI_Finalize = (\<lambda>(p, k). (2, k)),
     MPI_Comm_split = (\<lambda>a b (p, k). (Inr k, (p, Suc k))), MPI_Comm_free = (\<lambda>c m. m) \<rparr>"

definition demo_create :: "nat \<Rightarrow> int \<Rightarrow> TransportKind \<Rightarrow> nat \<times> nat \<Rightarrow> nat call \<times> nat \<times> nat" where
  "demo_create k d t m = (if k = 1 then (Threw (Runtime_error ''no route''), m) else (Returned k, m))"

definition demo_config :: mpi_config where
  "demo_config = \<lparr> color = 0, key = 3, device = 0, mpi_transport = 4 \<rparr>"

definition demo_events :: "event list" where
  "demo_events = [Create demo_config, Create demo_config, Create demo_config, Destroy 1, Destroy 0]"

lemma demo_mpi_laws: "mpi_laws demo_mpi demo_create (\<lambda>c m. m) (\<lambda>m. 0 < fst m) (\<lambda>m. fst m = 2)"
  by (auto simp: mpi_laws_def demo_mpi_def demo_create_def split: if_splits)

lemma demo_leases:
  "fold (event_step demo_mpi demo_create (\<lambda>c m. m)) demo_events ([], (0, 0), \<lparr>leases = 0, initialized_by_adapter = False\<rparr>) =
     ([], (2, 3), \<lparr>leases = 0, initialized_by_adapter = False\<rparr>)"
  by (simp add: demo_events_def demo_config_def nano_nccl_create_mpi_subgroup_communicator_def create_body_def acquire_mpi_def
      release_mpi_def destroy_created_def demo_mpi_def demo_create_def mpi_check_def to_cpp_transport_def
      translate_exceptions_def fail_def MPI_THREAD_FUNNELED_def Let_def)

theorem mpi_leases_exact_witness:
  "leases \<lparr>leases = 0, initialized_by_adapter = False\<rparr> = 0 \<and> fst (2 :: nat, 3 :: nat) = 2 \<and>
   fold (event_step demo_mpi demo_create (\<lambda>c m. m)) demo_events ([], (0, 0), \<lparr>leases = 0, initialized_by_adapter = False\<rparr>) =
     ([], (2, 3), \<lparr>leases = 0, initialized_by_adapter = False\<rparr>)"
  using mpi_leases_exact[OF demo_mpi_laws _ _ demo_leases] demo_leases by simp

end
