(* ===== verification/Topology.thy ===== *)
theory Topology
  imports Types
begin

text \<open>
  Which transport each edge of the ring uses. \<open>collective/all_reduce/topology.cc\<close> (the process
  topology and its validation), \<open>transport/p2p/p2p_topology.cu\<close> (NVLink discovery, the ring
  transport plan and its resolution inside one process) and the resolution across processes of
  \<open>collective/all_reduce/mpi_communicator.cc\<close>.

  The number of ranks is the compile-time constant \<open>kRanks\<close>, here the argument \<open>K\<close>. The answers of
  the CUDA and NVML drivers are the parameter \<open>gpu_env\<close>; nothing is assumed about them. A rank is an
  \<open>int\<close> of the source and an integer here: sums of ranks and sizes are exact as long as
  \<open>local_rank_offset + devices.size()\<close> fits in 32 bits, which the source does not check before it adds.
\<close>

section \<open>Process topology\<close>

record process_topology =
  global_rank_count :: int
  local_rank_offset :: int
  devices :: "int list"
  edge_kinds :: "TransportKind list"
  distributed :: bool

definition is_resolved_edge_kind :: "TransportKind \<Rightarrow> bool" where
  "is_resolved_edge_kind kind = (kind = Shm \<or> kind = P2p \<or> kind = Socket \<or> kind = Rdma)"

definition validate_process_topology :: "nat \<Rightarrow> process_topology \<Rightarrow> unit result" where
  "validate_process_topology K t =
     (if global_rank_count t \<noteq> int K
      then Inl (Runtime_error ''process topology global rank count must match kRanks'')
      else if devices t = [] then Inl (Runtime_error ''process topology requires local devices'')
      else if distributed t \<and> length (devices t) \<noteq> 1
      then Inl (Runtime_error ''distributed topology requires exactly one local GPU rank'')
      else if local_rank_offset t < 0 \<or> global_rank_count t < local_rank_offset t + int (length (devices t))
      then Inl (Runtime_error ''process topology local ranks are out of range'')
      else if int (length (edge_kinds t)) \<noteq> global_rank_count t
      then Inl (Runtime_error ''process topology requires one kind per global edge'')
      else rbind (rfold (\<lambda>kind _. throw_if (\<not> is_resolved_edge_kind kind)
                    (Runtime_error ''process topology edge kind must be resolved'')) (edge_kinds t) ())
       (\<lambda>_. if \<not> distributed t \<and>
               (local_rank_offset t \<noteq> 0 \<or> int (length (devices t)) \<noteq> global_rank_count t)
            then Inl (Runtime_error ''single-process topology must own every rank'')
            else Inr ()))"

definition make_single_process_topology ::
    "nat \<Rightarrow> int list \<Rightarrow> TransportKind list \<Rightarrow> process_topology result" where
  "make_single_process_topology K devs kinds =
     (let t = \<lparr>global_rank_count = int (length devs), local_rank_offset = 0, devices = devs,
               edge_kinds = kinds, distributed = False\<rparr>
      in rbind (validate_process_topology K t) (\<lambda>_. Inr t))"

definition is_local_global_rank :: "process_topology \<Rightarrow> int \<Rightarrow> bool" where
  "is_local_global_rank t global_rank =
     (local_rank_offset t \<le> global_rank \<and> global_rank < local_rank_offset t + int (length (devices t)))"

definition local_rank_for_global_rank :: "process_topology \<Rightarrow> int \<Rightarrow> int result" where
  "local_rank_for_global_rank t global_rank =
     (if \<not> is_local_global_rank t global_rank
      then Inl (Runtime_error ''global rank is not local to this process'')
      else Inr (global_rank - local_rank_offset t))"

section \<open>PCI bus ids\<close>

text \<open>
  \<open>sscanf (text, "%x:%x:%x.%x")\<close>: each conversion skips white space, accepts a sign and a \<open>0x\<close>
  prefix, needs at least one hexadecimal digit, saturates at the widest unsigned value and is
  truncated to 32 bits; a literal character must match exactly.
\<close>

definition hex_digit :: "char \<Rightarrow> nat option" where
  "hex_digit c =
     (let n = of_char c :: nat in
      if 48 \<le> n \<and> n \<le> 57 then Some (n - 48)
      else if 97 \<le> n \<and> n \<le> 102 then Some (n - 87)
      else if 65 \<le> n \<and> n \<le> 70 then Some (n - 55)
      else None)"

fun hex_digits :: "string \<Rightarrow> nat list \<times> string" where
  "hex_digits [] = ([], [])"
| "hex_digits (c # cs) =
     (case hex_digit c of None \<Rightarrow> ([], c # cs)
      | Some d \<Rightarrow> (case hex_digits cs of (ds, rest) \<Rightarrow> (d # ds, rest)))"

definition is_space :: "char \<Rightarrow> bool" where
  "is_space c = (let n = of_char c :: nat in n = 32 \<or> 9 \<le> n \<and> n \<le> 13)"

definition scan_hex :: "string \<Rightarrow> (32 word \<times> string) option" where
  "scan_hex text =
     (let s0 = dropWhile is_space text;
          neg = (s0 \<noteq> [] \<and> hd s0 = CHR ''-'');
          s1 = (if s0 \<noteq> [] \<and> (hd s0 = CHR ''-'' \<or> hd s0 = CHR ''+'') then tl s0 else s0);
          s2 = (if take 2 s1 = ''0x'' \<or> take 2 s1 = ''0X'' then drop 2 s1 else s1) in
      case hex_digits s2 of (ds, rest) \<Rightarrow>
        if ds = [] then None
        else let v = foldl (\<lambda>a d. 16 * a + d) 0 ds;
                 u = (if 2 ^ 64 \<le> v then 2 ^ 64 - 1
                      else if neg then (2 ^ 64 - v) mod 2 ^ 64 else v)
             in Some (of_nat u, rest))"

definition scan_char :: "char \<Rightarrow> string \<Rightarrow> string option" where
  "scan_char c text = (case text of [] \<Rightarrow> None | x # xs \<Rightarrow> if x = c then Some xs else None)"

definition scan_pci_bus_id :: "string \<Rightarrow> (32 word \<times> 32 word \<times> 32 word \<times> 32 word) option" where
  "scan_pci_bus_id text =
     (case scan_hex text of None \<Rightarrow> None | Some (domain, r0) \<Rightarrow>
      (case scan_char (CHR '':'') r0 of None \<Rightarrow> None | Some r1 \<Rightarrow>
      (case scan_hex r1 of None \<Rightarrow> None | Some (bus, r2) \<Rightarrow>
      (case scan_char (CHR '':'') r2 of None \<Rightarrow> None | Some r3 \<Rightarrow>
      (case scan_hex r3 of None \<Rightarrow> None | Some (device, r4) \<Rightarrow>
      (case scan_char (CHR ''.'') r4 of None \<Rightarrow> None | Some r5 \<Rightarrow>
      (case scan_hex r5 of None \<Rightarrow> None | Some (func, r6) \<Rightarrow>
         Some (domain, bus, device, func))))))))"

definition pci_bus_ids_match :: "string \<Rightarrow> string \<Rightarrow> bool" where
  "pci_bus_ids_match left right =
     (scan_pci_bus_id left \<noteq> None \<and> scan_pci_bus_id right \<noteq> None \<and>
      scan_pci_bus_id left = scan_pci_bus_id right)"

section \<open>NVLink and peer access\<close>

text \<open>
  The drivers' answers. \<open>None\<close> stands for an error status; \<open>link_state\<close> says whether a link is
  enabled. \<open>set_device\<close> and \<open>enable_peer\<close> give the error text, if any; \<open>Peer_already\<close> carries the
  sticky error \<open>cudaGetLastError\<close> then reports.
\<close>

datatype peer_status = Peer_enabled | Peer_already "string option" | Peer_error string

record gpu_env =
  nvml_initialized :: bool
  nvlink_max_links :: nat
  cuda_device_pci_bus_id :: "int \<Rightarrow> string option"
  nvml_device :: "string \<Rightarrow> nat option"
  link_state :: "nat \<Rightarrow> nat \<Rightarrow> bool option"
  link_remote :: "nat \<Rightarrow> nat \<Rightarrow> string option"
  can_access_peer :: "int \<Rightarrow> int \<Rightarrow> bool option"
  set_device :: "int \<Rightarrow> string option"
  enable_peer :: "int \<Rightarrow> int \<Rightarrow> peer_status"

text \<open>The link scan of the overload on device numbers gives up at the first failing query.\<close>

fun scan_links :: "gpu_env \<Rightarrow> nat \<Rightarrow> string \<Rightarrow> nat list \<Rightarrow> bool" where
  "scan_links env dev dst [] = False"
| "scan_links env dev dst (link # links) =
     (case link_state env dev link of
        None \<Rightarrow> False
      | Some enabled \<Rightarrow>
          if \<not> enabled then scan_links env dev dst links
          else (case link_remote env dev link of
                  None \<Rightarrow> False
                | Some remote \<Rightarrow>
                    if pci_bus_ids_match remote dst then True else scan_links env dev dst links))"

definition has_active_direct_nvlink :: "gpu_env \<Rightarrow> int \<Rightarrow> int \<Rightarrow> bool" where
  "has_active_direct_nvlink env src dst =
     (if \<not> nvml_initialized env then False
      else case cuda_device_pci_bus_id env src of None \<Rightarrow> False | Some src_id \<Rightarrow>
      (case cuda_device_pci_bus_id env dst of None \<Rightarrow> False | Some dst_id \<Rightarrow>
      (case nvml_device env src_id of None \<Rightarrow> False
       | Some dev \<Rightarrow> scan_links env dev dst_id [0..<nvlink_max_links env])))"

text \<open>The overload on bus ids skips a link whose queries fail.\<close>

fun scan_links_by_id :: "gpu_env \<Rightarrow> nat \<Rightarrow> string \<Rightarrow> nat list \<Rightarrow> bool" where
  "scan_links_by_id env dev dst [] = False"
| "scan_links_by_id env dev dst (link # links) =
     (if link_state env dev link \<noteq> Some True then scan_links_by_id env dev dst links
      else case link_remote env dev link of
        Some remote \<Rightarrow> if pci_bus_ids_match remote dst then True else scan_links_by_id env dev dst links
      | None \<Rightarrow> scan_links_by_id env dev dst links)"

definition has_active_direct_nvlink_by_id :: "gpu_env \<Rightarrow> string \<Rightarrow> string \<Rightarrow> bool" where
  "has_active_direct_nvlink_by_id env source destination =
     (if \<not> nvml_initialized env then False
      else case nvml_device env source of None \<Rightarrow> False
      | Some dev \<Rightarrow> scan_links_by_id env dev destination [0..<nvlink_max_links env])"

definition has_bidirectional_direct_nvlink :: "gpu_env \<Rightarrow> string \<Rightarrow> string \<Rightarrow> bool" where
  "has_bidirectional_direct_nvlink env first second =
     (has_active_direct_nvlink_by_id env first second \<and> has_active_direct_nvlink_by_id env second first)"

definition cuda_peer_access_available :: "gpu_env \<Rightarrow> int \<Rightarrow> int \<Rightarrow> bool" where
  "cuda_peer_access_available env src dst = (can_access_peer env src dst = Some True)"

definition edge_supports_p2p :: "gpu_env \<Rightarrow> int \<Rightarrow> int \<Rightarrow> bool" where
  "edge_supports_p2p env sender receiver =
     (has_active_direct_nvlink env sender receiver \<and> has_active_direct_nvlink env receiver sender \<and>
      cuda_peer_access_available env sender receiver \<and> cuda_peer_access_available env receiver sender)"

definition is_local_edge :: "process_topology \<Rightarrow> nat \<Rightarrow> bool" where
  "is_local_edge t edge =
     (is_local_global_rank t (int edge) \<and>
      is_local_global_rank t ((int edge + 1) mod global_rank_count t))"

definition device_for_global_rank :: "process_topology \<Rightarrow> nat \<Rightarrow> int result" where
  "device_for_global_rank t global_rank =
     rbind (local_rank_for_global_rank t (int global_rank)) (\<lambda>r. Inr (devices t ! nat r))"

text \<open>The state is the list of peer mappings made so far, latest first.\<close>

definition enable_peer_access_or_throw ::
    "gpu_env \<Rightarrow> int \<Rightarrow> int \<Rightarrow> (int \<times> int) list \<Rightarrow> (int \<times> int) list result" where
  "enable_peer_access_or_throw env src dst peers =
     (case set_device env src of Some e \<Rightarrow> Inl (Runtime_error e) | None \<Rightarrow>
      (case enable_peer env src dst of
         Peer_enabled \<Rightarrow> Inr ((src, dst) # peers)
       | Peer_already None \<Rightarrow> Inr ((src, dst) # peers)
       | Peer_already (Some e) \<Rightarrow> Inl (Runtime_error e)
       | Peer_error e \<Rightarrow> Inl (Runtime_error e)))"

section \<open>Ring transport plan\<close>

type_synonym plan = "TransportKind list"

definition RingTransportPlan :: "nat \<Rightarrow> TransportKind list \<Rightarrow> plan result" where
  "RingTransportPlan K kinds =
     (if length kinds \<noteq> K then Inl (Invalid_argument ''ring transport plan rank count must match kRanks'')
      else rbind (rfold (\<lambda>kind _. throw_if (kind = Auto \<or> kind = Mixed)
                    (Invalid_argument ''ring transport edges must be p2p or shm'')) kinds ())
       (\<lambda>_. Inr kinds))"

definition uniform_plan :: "nat \<Rightarrow> TransportKind \<Rightarrow> plan result" where
  "uniform_plan K kind = RingTransportPlan K (replicate K kind)"

definition edge_kind :: "plan \<Rightarrow> nat \<Rightarrow> TransportKind result" where
  "edge_kind p edge = (if edge < length p then Inr (p ! edge) else Inl (Logic_error ''vector::_M_range_check''))"

fun all_same :: "TransportKind \<Rightarrow> TransportKind list \<Rightarrow> TransportKind" where
  "all_same first [] = first"
| "all_same first (kind # kinds) = (if kind \<noteq> first then Mixed else all_same first kinds)"

definition resolved_kind :: "plan \<Rightarrow> TransportKind" where
  "resolved_kind p = all_same (p ! 0) p"

fun uses_p2p :: "plan \<Rightarrow> bool" where
  "uses_p2p [] = False"
| "uses_p2p (kind # kinds) = (if kind = P2p then True else uses_p2p kinds)"

definition p2p_edge :: "nat \<Rightarrow> gpu_env \<Rightarrow> process_topology \<Rightarrow> nat \<Rightarrow> TransportKind list \<Rightarrow> TransportKind list result" where
  "p2p_edge K env t edge kinds =
     (if \<not> is_local_edge t edge then Inl (Runtime_error ''p2p transport requires local ring edges'')
      else rbind (device_for_global_rank t edge) (\<lambda>sender_device.
           rbind (device_for_global_rank t ((edge + 1) mod K)) (\<lambda>receiver_device.
             if \<not> cuda_peer_access_available env sender_device receiver_device \<or>
                \<not> cuda_peer_access_available env receiver_device sender_device
             then Inl (Runtime_error ''p2p unavailable for local ring edge'')
             else Inr (kinds[edge := P2p]))))"

definition auto_edge :: "nat \<Rightarrow> gpu_env \<Rightarrow> process_topology \<Rightarrow> nat \<Rightarrow> TransportKind list \<Rightarrow> TransportKind list result" where
  "auto_edge K env t edge kinds =
     (if \<not> is_local_edge t edge then Inr kinds
      else rbind (device_for_global_rank t edge) (\<lambda>sender_device.
           rbind (device_for_global_rank t ((edge + 1) mod K)) (\<lambda>receiver_device.
             Inr (kinds[edge := (if edge_supports_p2p env sender_device receiver_device then P2p else Shm)]))))"

definition resolve_ring_transport :: "nat \<Rightarrow> gpu_env \<Rightarrow> TransportKind \<Rightarrow> process_topology \<Rightarrow> plan result" where
  "resolve_ring_transport K env requested t =
     rbind (validate_process_topology K t) (\<lambda>_.
       if requested = Shm then uniform_plan K Shm
       else if requested = P2p
       then rbind (rfold (p2p_edge K env t) [0..<K] (replicate K Shm)) (RingTransportPlan K)
       else if requested \<noteq> Auto then Inl (Invalid_argument ''mixed is a resolved transport only'')
       else rbind (rfold (auto_edge K env t) [0..<K] (edge_kinds t)) (RingTransportPlan K))"

definition single_process :: "nat \<Rightarrow> TransportKind list \<Rightarrow> process_topology" where
  "single_process K kinds =
     \<lparr>global_rank_count = int K, local_rank_offset = 0, devices = map int [0..<K],
      edge_kinds = kinds, distributed = False\<rparr>"

definition resolve_ring_transport_local :: "nat \<Rightarrow> gpu_env \<Rightarrow> TransportKind \<Rightarrow> plan result" where
  "resolve_ring_transport_local K env requested =
     resolve_ring_transport K env requested (single_process K (replicate K Shm))"

definition enable_edge :: "nat \<Rightarrow> gpu_env \<Rightarrow> plan \<Rightarrow> process_topology \<Rightarrow> nat \<Rightarrow> (int \<times> int) list \<Rightarrow> (int \<times> int) list result" where
  "enable_edge K env p t edge peers =
     rbind (edge_kind p edge) (\<lambda>kind.
       if kind \<noteq> P2p \<or> \<not> is_local_edge t edge then Inr peers
       else rbind (device_for_global_rank t edge) (\<lambda>sender_device.
            rbind (device_for_global_rank t ((edge + 1) mod K)) (\<lambda>receiver_device.
            rbind (enable_peer_access_or_throw env sender_device receiver_device peers)
                  (enable_peer_access_or_throw env receiver_device sender_device))))"

definition enable_p2p_ring_peer_access_or_throw ::
    "nat \<Rightarrow> gpu_env \<Rightarrow> plan \<Rightarrow> process_topology \<Rightarrow> (int \<times> int) list \<Rightarrow> (int \<times> int) list result" where
  "enable_p2p_ring_peer_access_or_throw K env p t peers =
     rbind (validate_process_topology K t) (\<lambda>_. rfold (enable_edge K env p t) [0..<K] peers)"

definition enable_p2p_ring_peer_access_local ::
    "nat \<Rightarrow> gpu_env \<Rightarrow> plan \<Rightarrow> (int \<times> int) list \<Rightarrow> (int \<times> int) list result" where
  "enable_p2p_ring_peer_access_local K env p peers =
     enable_p2p_ring_peer_access_or_throw K env p (single_process K p) peers"

section \<open>Resolution across processes\<close>

text \<open>One edge of \<open>resolve_interprocess_transports\<close>; \<open>rdma\<close> is the build option \<open>NANO_NCCL_ENABLE_RDMA\<close>.\<close>

definition edge_text :: "string \<Rightarrow> nat \<Rightarrow> nat \<Rightarrow> string \<Rightarrow> string" where
  "edge_text name edge receiver reason =
     name @ '' edge '' @ string_of_nat edge @ ''->'' @ string_of_nat receiver @ reason"

definition interprocess_edge ::
    "nat \<Rightarrow> bool \<Rightarrow> TransportKind \<Rightarrow> int list \<Rightarrow> bool list \<Rightarrow> nat \<Rightarrow> TransportKind list \<Rightarrow> TransportKind list result" where
  "interprocess_edge K rdma requested node_ids p2p_capable edge kinds =
     (let receiver = (edge + 1) mod K;
          same_host = (node_ids ! edge = node_ids ! receiver) in
      case requested of
        Auto \<Rightarrow> Inr (kinds[edge := (if same_host then (if p2p_capable ! edge then P2p else Shm) else Socket)])
      | Shm \<Rightarrow>
          if \<not> same_host
          then Inl (Invalid_argument (edge_text ''SHM'' edge receiver '' unavailable across hosts; actual available backend is socket''))
          else Inr (kinds[edge := Shm])
      | P2p \<Rightarrow>
          if \<not> same_host
          then Inl (Invalid_argument (edge_text ''P2P'' edge receiver '' unavailable across hosts; actual available backend is socket''))
          else if \<not> p2p_capable ! edge
          then Inl (Invalid_argument (edge_text ''P2P'' edge receiver '' failed the CUDA IPC probe; actual available backend is shm''))
          else Inr (kinds[edge := P2p])
      | Socket \<Rightarrow> Inr (kinds[edge := Socket])
      | Rdma \<Rightarrow>
          if rdma then Inr (kinds[edge := (if same_host then (if p2p_capable ! edge then P2p else Shm) else Rdma)])
          else Inl (Invalid_argument ''rdma transport requires NANO_NCCL_ENABLE_RDMA=ON'')
      | Mixed \<Rightarrow> Inl (Invalid_argument ''mixed is a resolved transport and cannot be requested''))"

definition resolve_interprocess_transports ::
    "nat \<Rightarrow> bool \<Rightarrow> TransportKind \<Rightarrow> int list \<Rightarrow> bool list \<Rightarrow> TransportKind list result" where
  "resolve_interprocess_transports K rdma requested node_ids p2p_capable =
     rfold (interprocess_edge K rdma requested node_ids p2p_capable) [0..<K] (replicate K Shm)"

section \<open>Properties\<close>

text \<open>What a usable topology is: the process owns either one rank of the ring or the whole ring.\<close>

definition topology_ok :: "nat \<Rightarrow> process_topology \<Rightarrow> bool" where
  "topology_ok K t =
     (global_rank_count t = int K \<and> 0 < K \<and> length (edge_kinds t) = K \<and>
      (\<forall>k\<in>set (edge_kinds t). is_resolved_edge_kind k) \<and>
      (if distributed t then length (devices t) = 1 \<and> 0 \<le> local_rank_offset t \<and> local_rank_offset t < int K
       else local_rank_offset t = 0 \<and> length (devices t) = K))"

definition ring_dev :: "process_topology \<Rightarrow> nat \<Rightarrow> int" where
  "ring_dev t e = devices t ! nat (int e - local_rank_offset t)"

lemma throw_loop:
  "rfold (\<lambda>x _. throw_if (P x) e) xs () = (if \<exists>x\<in>set xs. P x then Inl e else Inr ())"
  by (induction xs) (auto simp: rbind_throw_if)

lemma is_resolved_edge_kind_iff: "is_resolved_edge_kind k \<longleftrightarrow> k \<noteq> Auto \<and> k \<noteq> Mixed"
  by (cases k) (simp_all add: is_resolved_edge_kind_def)

lemma RingTransportPlan_eq:
  "RingTransportPlan K kinds =
     (if length kinds = K \<and> (\<forall>k\<in>set kinds. is_resolved_edge_kind k) then Inr kinds
      else RingTransportPlan K kinds)"
  by (auto simp: RingTransportPlan_def throw_loop is_resolved_edge_kind_iff)

lemma RingTransportPlan_ok:
  "length kinds = K \<Longrightarrow> \<forall>k\<in>set kinds. is_resolved_edge_kind k \<Longrightarrow> RingTransportPlan K kinds = Inr kinds"
  by (subst RingTransportPlan_eq) simp

lemma local_edge_devices:
  assumes "topology_ok K t" "is_local_edge t e" "e < K"
  shows "device_for_global_rank t e = Inr (ring_dev t e)"
    and "device_for_global_rank t (Suc e mod K) = Inr (ring_dev t (Suc e mod K))"
proof -
  have m: "(int e + 1) mod global_rank_count t = int (Suc e mod K)"
    using assms(1) by (simp add: topology_ok_def zmod_int add.commute)
  from assms(2) show "device_for_global_rank t e = Inr (ring_dev t e)"
    by (simp add: is_local_edge_def device_for_global_rank_def local_rank_for_global_rank_def ring_dev_def)
  from assms(2) show "device_for_global_rank t (Suc e mod K) = Inr (ring_dev t (Suc e mod K))"
    by (simp add: is_local_edge_def m device_for_global_rank_def local_rank_for_global_rank_def ring_dev_def)
qed

lemma validate_process_topology_char: "validate_process_topology K t = Inr () \<longleftrightarrow> topology_ok K t"
  by (cases "distributed t"; cases "devices t")
     (auto simp: validate_process_topology_def topology_ok_def throw_loop)

definition auto_choice :: "nat \<Rightarrow> gpu_env \<Rightarrow> process_topology \<Rightarrow> nat \<Rightarrow> TransportKind" where
  "auto_choice K env t e =
     (if \<not> is_local_edge t e then edge_kinds t ! e
      else if edge_supports_p2p env (ring_dev t e) (ring_dev t ((e + 1) mod K)) then P2p else Shm)"

definition peers_reachable :: "nat \<Rightarrow> gpu_env \<Rightarrow> process_topology \<Rightarrow> nat \<Rightarrow> bool" where
  "peers_reachable K env t e =
     (cuda_peer_access_available env (ring_dev t e) (ring_dev t ((e + 1) mod K)) \<and>
      cuda_peer_access_available env (ring_dev t ((e + 1) mod K)) (ring_dev t e))"

lemma auto_edges:
  assumes "topology_ok K t"
  shows "rfold (auto_edge K env t) [0..<K] (edge_kinds t) = Inr (map (auto_choice K env t) [0..<K])"
proof -
  have len: "length (edge_kinds t) = K" using assms by (simp add: topology_ok_def)
  let ?L = "filter (is_local_edge t) [0..<K]"
  let ?g = "\<lambda>e ks. if is_local_edge t e then ks[e := auto_choice K env t e] else ks"
  have "rfold (auto_edge K env t) [0..<K] (edge_kinds t) = Inr (fold ?g [0..<K] (edge_kinds t))"
    by (subst rfold_step[where bad = "\<lambda>_. None" and g = ?g])
       (auto simp: auto_edge_def local_edge_devices[OF assms] auto_choice_def find_None_iff split: option.splits)
  also have "fold ?g [0..<K] (edge_kinds t) = fold (\<lambda>e ks. ks[e := auto_choice K env t e]) ?L (edge_kinds t)"
    unfolding fold_filter by (rule fold_cong) (auto simp: fun_eq_iff)
  also have "\<dots> = map (auto_choice K env t) [0..<K]"
    by (rule nth_equalityI) (auto simp: len fold_update_nth auto_choice_def)
  finally show ?thesis .
qed

lemma p2p_edges:
  assumes "topology_ok K t"
  shows "rfold (p2p_edge K env t) [0..<K] (replicate K Shm) =
    (case List.find (\<lambda>e. \<not> (is_local_edge t e \<and> peers_reachable K env t e)) [0..<K] of
       None \<Rightarrow> Inr (replicate K P2p)
     | Some e \<Rightarrow> Inl (Runtime_error (if is_local_edge t e then ''p2p unavailable for local ring edge''
                                     else ''p2p transport requires local ring edges'')))"
proof -
  let ?bad = "\<lambda>e. if is_local_edge t e \<and> peers_reachable K env t e then None
    else Some (Runtime_error (if is_local_edge t e then ''p2p unavailable for local ring edge''
                              else ''p2p transport requires local ring edges''))"
  have eq: "(\<lambda>e. ?bad e \<noteq> None) = (\<lambda>e. \<not> (is_local_edge t e \<and> peers_reachable K env t e))" by auto
  have "rfold (p2p_edge K env t) [0..<K] (replicate K Shm) =
     (case List.find (\<lambda>e. ?bad e \<noteq> None) [0..<K] of
        None \<Rightarrow> Inr (fold (\<lambda>e ks. ks[e := P2p]) [0..<K] (replicate K Shm)) | Some e \<Rightarrow> Inl (the (?bad e)))"
    by (rule rfold_step)
       (auto simp: p2p_edge_def local_edge_devices[OF assms] peers_reachable_def)
  then have r: "rfold (p2p_edge K env t) [0..<K] (replicate K Shm) =
     (case List.find (\<lambda>e. \<not> (is_local_edge t e \<and> peers_reachable K env t e)) [0..<K] of
        None \<Rightarrow> Inr (replicate K P2p) | Some e \<Rightarrow> Inl (the (?bad e)))"
    unfolding eq fold_update_upt[OF length_replicate] map_replicate_const length_upt diff_zero .
  show ?thesis
  proof (cases "List.find (\<lambda>e. \<not> (is_local_edge t e \<and> peers_reachable K env t e)) [0..<K]")
    case (Some e)
    then have "\<not> (is_local_edge t e \<and> peers_reachable K env t e)" unfolding find_Some_iff by blast
    then show ?thesis unfolding r Some by auto
  qed (simp only: r option.case)
qed

text \<open>On a valid topology the requested transport decides the plan: \<open>Shm\<close> puts every edge on shared
  memory; \<open>P2p\<close> puts every edge on peer access and fails at the first edge that is not local or not
  reachable both ways; \<open>Auto\<close> keeps the kinds of the edges to other processes and gives every local
  edge \<open>P2p\<close> exactly when both directions have an active NVLink and peer access, else \<open>Shm\<close>; every
  other request is refused.\<close>

theorem resolve_ring_transport_cases:
  assumes "topology_ok K t"
  shows "resolve_ring_transport K env requested t =
    (case requested of
       Shm \<Rightarrow> Inr (replicate K Shm)
     | P2p \<Rightarrow> (case List.find (\<lambda>e. \<not> (is_local_edge t e \<and> peers_reachable K env t e)) [0..<K] of
         None \<Rightarrow> Inr (replicate K P2p)
       | Some e \<Rightarrow> Inl (Runtime_error (if is_local_edge t e then ''p2p unavailable for local ring edge''
                                       else ''p2p transport requires local ring edges'')))
     | Auto \<Rightarrow> Inr (map (auto_choice K env t) [0..<K])
     | _ \<Rightarrow> Inl (Invalid_argument ''mixed is a resolved transport only''))"
proof -
  have v: "validate_process_topology K t = Inr ()"
    using assms validate_process_topology_char by simp
  have c: "\<forall>k\<in>set (map (auto_choice K env t) [0..<K]). is_resolved_edge_kind k"
    using assms by (auto simp: auto_choice_def topology_ok_def is_resolved_edge_kind_def)
  have u: "RingTransportPlan K (replicate K k) = Inr (replicate K k)" if "is_resolved_edge_kind k" for k
    using that by (intro RingTransportPlan_ok) auto
  have s: "is_resolved_edge_kind Shm" "is_resolved_edge_kind P2p" by (simp_all add: is_resolved_edge_kind_def)
  show ?thesis
  proof (cases requested)
    case Auto
    then show ?thesis using RingTransportPlan_ok[OF _ c]
      by (simp add: resolve_ring_transport_def v auto_edges[OF assms])
  next
    case P2p
    then show ?thesis using u[OF s(2)]
      by (auto simp: resolve_ring_transport_def v p2p_edges[OF assms] split: option.splits)
  qed (simp_all add: resolve_ring_transport_def v u[OF s(1)] uniform_plan_def)
qed

text \<open>Two GPUs joined by one NVLink, and a driver that grants peer access.\<close>

definition demo_env :: gpu_env where
  "demo_env = \<lparr>nvml_initialized = True, nvlink_max_links = 2,
     cuda_device_pci_bus_id = (\<lambda>d. Some (if d = 0 then ''0000:3b:00.0'' else ''0000:86:00.0'')),
     nvml_device = (\<lambda>s. Some (if s = ''0000:3b:00.0'' then 0 else 1)),
     link_state = (\<lambda>d l. Some (l = 1)),
     link_remote = (\<lambda>d l. Some (if d = 0 then ''00000000:86:00.0'' else ''00000000:3B:00.0'')),
     can_access_peer = (\<lambda>_ _. Some True), set_device = (\<lambda>_. None),
     enable_peer = (\<lambda>a b. if a = 0 then Peer_already None else Peer_enabled)\<rparr>"

lemma demo_topology_ok: "topology_ok 2 (single_process 2 [Shm, Shm])"
  by (simp add: topology_ok_def single_process_def is_resolved_edge_kind_def)

lemma demo_scan [simp]:
  "scan_pci_bus_id ''0000:3b:00.0'' = Some (0, 0x3b, 0, 0)"
  "scan_pci_bus_id ''0000:86:00.0'' = Some (0, 0x86, 0, 0)"
  "scan_pci_bus_id ''00000000:3B:00.0'' = Some (0, 0x3b, 0, 0)"
  "scan_pci_bus_id ''00000000:86:00.0'' = Some (0, 0x86, 0, 0)"
  by (simp_all add: scan_pci_bus_id_def scan_hex_def hex_digit_def is_space_def scan_char_def Let_def)

lemma demo_supports: "edge_supports_p2p demo_env 0 1" "edge_supports_p2p demo_env 1 0"
  by (simp_all add: edge_supports_p2p_def has_active_direct_nvlink_def demo_env_def pci_bus_ids_match_def
      cuda_peer_access_available_def upt_rec)

theorem resolve_ring_transport_cases_witness:
  "resolve_ring_transport 2 demo_env Auto (single_process 2 [Shm, Shm]) = Inr [P2p, P2p]"
  unfolding resolve_ring_transport_cases[OF demo_topology_ok]
  by (simp add: auto_choice_def is_local_edge_def is_local_global_rank_def single_process_def ring_dev_def
      demo_supports upt_rec)

text \<open>When \<open>enable_p2p_ring_peer_access_or_throw\<close> returns, peer access is on in both directions for
  every \<open>P2p\<close> edge inside the process, and it was not switched on for any other pair of devices.\<close>

theorem enable_p2p_ring_peer_access_exact:
  assumes "topology_ok K t" "length p = K"
    and "enable_p2p_ring_peer_access_or_throw K env p t peers = Inr peers'"
  shows "set peers' = set peers \<union>
    (\<Union>e\<in>{e. e < K \<and> p ! e = P2p \<and> is_local_edge t e}.
       {(ring_dev t e, ring_dev t (Suc e mod K)), (ring_dev t (Suc e mod K), ring_dev t e)})"
proof -
  let ?E = "\<lambda>e. if p ! e = P2p \<and> is_local_edge t e
     then {(ring_dev t e, ring_dev t (Suc e mod K)), (ring_dev t (Suc e mod K), ring_dev t e)} else {}"
  have one: "set s' = insert (a, b) (set s)" if "enable_peer_access_or_throw env a b s = Inr s'" for a b s s'
    using that by (auto simp: enable_peer_access_or_throw_def split: option.splits peer_status.splits)
  have step: "set s' = set s \<union> ?E e" if "e < K" "enable_edge K env p t e s = Inr s'" for e s s'
    using that assms(2) local_edge_devices[OF assms(1) _ \<open>e < K\<close>]
    by (auto simp: enable_edge_def edge_kind_def rbind_eq_Inr_iff dest!: one split: if_splits)
  have loop: "rfold (enable_edge K env p t) es s = Inr s' \<Longrightarrow> \<forall>e\<in>set es. e < K \<Longrightarrow> set s' = set s \<union> (\<Union>e\<in>set es. ?E e)" for es s s'
  proof (induction es arbitrary: s)
    case (Cons e es)
    then obtain s1 where "enable_edge K env p t e s = Inr s1" "rfold (enable_edge K env p t) es s1 = Inr s'"
      by (auto simp: rbind_eq_Inr_iff)
    with Cons step[of e s s1] show ?case by (simp add: Un_assoc)
  qed simp
  have "rfold (enable_edge K env p t) [0..<K] peers = Inr peers'"
    using assms(3) by (auto simp: enable_p2p_ring_peer_access_or_throw_def rbind_eq_Inr_iff)
  from loop[OF this] show ?thesis by auto
qed

lemma demo_enable:
  "enable_p2p_ring_peer_access_or_throw 2 demo_env [P2p, P2p] (single_process 2 [Shm, Shm]) [] =
   Inr [(0, 1), (1, 0), (1, 0), (0, 1)]"
  by code_simp

theorem enable_p2p_ring_peer_access_exact_witness: "set [(0 :: int, 1 :: int), (1, 0), (1, 0), (0, 1)] = {(0, 1), (1, 0)}"
proof -
  have E: "{e. e < 2 \<and> [P2p, P2p] ! e = P2p \<and> is_local_edge (single_process 2 [Shm, Shm]) e} = {0, 1 :: nat}"
    by (auto simp: is_local_edge_def is_local_global_rank_def single_process_def less_2_cases_iff)
  show ?thesis
    using enable_p2p_ring_peer_access_exact[OF demo_topology_ok _ demo_enable] unfolding E
    by (simp add: ring_dev_def single_process_def insert_commute)
qed

text \<open>The decision of \<open>resolve_interprocess_transports\<close> for one edge.\<close>

fun edge_choice :: "bool \<Rightarrow> TransportKind \<Rightarrow> bool \<Rightarrow> bool \<Rightarrow> TransportKind option" where
  "edge_choice rdma Auto same cap = Some (if same then if cap then P2p else Shm else Socket)"
| "edge_choice rdma Shm same cap = (if same then Some Shm else None)"
| "edge_choice rdma P2p same cap = (if same \<and> cap then Some P2p else None)"
| "edge_choice rdma Socket same cap = Some Socket"
| "edge_choice rdma Rdma same cap = (if rdma then Some (if same then if cap then P2p else Shm else Rdma) else None)"
| "edge_choice rdma Mixed same cap = None"

lemma interprocess_edge_choice:
  "\<exists>ex. interprocess_edge K rdma requested nodes cap e ks =
     (case edge_choice rdma requested (nodes ! e = nodes ! (Suc e mod K)) (cap ! e) of
        None \<Rightarrow> Inl (Invalid_argument ex) | Some k \<Rightarrow> Inr (ks[e := k]))"
  by (cases requested) (simp_all add: interprocess_edge_def Let_def)

lemma interprocess_loop:
  "rfold (interprocess_edge K rdma requested nodes cap) es ks =
     (if \<forall>e\<in>set es. edge_choice rdma requested (nodes ! e = nodes ! (Suc e mod K)) (cap ! e) \<noteq> None
      then Inr (fold (\<lambda>e ks. ks[e := the (edge_choice rdma requested (nodes ! e = nodes ! (Suc e mod K)) (cap ! e))]) es ks)
      else rfold (interprocess_edge K rdma requested nodes cap) es ks) \<and>
   (is_ok (rfold (interprocess_edge K rdma requested nodes cap) es ks) \<longleftrightarrow>
      (\<forall>e\<in>set es. edge_choice rdma requested (nodes ! e = nodes ! (Suc e mod K)) (cap ! e) \<noteq> None))"
proof (induction es arbitrary: ks)
  case (Cons e es)
  obtain ex where "interprocess_edge K rdma requested nodes cap e ks =
     (case edge_choice rdma requested (nodes ! e = nodes ! (Suc e mod K)) (cap ! e) of
        None \<Rightarrow> Inl (Invalid_argument ex) | Some k \<Rightarrow> Inr (ks[e := k]))"
    using interprocess_edge_choice by blast
  then show ?case
    using Cons by (cases "edge_choice rdma requested (nodes ! e = nodes ! (Suc e mod K)) (cap ! e)") auto
qed simp

lemma resolve_interprocess_eq:
  "resolve_interprocess_transports K rdma requested nodes cap = Inr kinds \<longleftrightarrow>
   length kinds = K \<and>
   (\<forall>e<K. edge_choice rdma requested (nodes ! e = nodes ! (Suc e mod K)) (cap ! e) = Some (kinds ! e))"
proof -
  let ?c = "\<lambda>e. edge_choice rdma requested (nodes ! e = nodes ! (Suc e mod K)) (cap ! e)"
  let ?r = "resolve_interprocess_transports K rdma requested nodes cap"
  have loop: "if \<forall>e<K. ?c e \<noteq> None then ?r = Inr (map (\<lambda>e. the (?c e)) [0..<K]) else \<not> is_ok ?r"
    using interprocess_loop[of K rdma requested nodes cap "[0..<K]" "replicate K Shm"]
    by (auto simp: resolve_interprocess_transports_def fold_update_upt split: if_splits)
  show ?thesis
  proof (cases "\<forall>e<K. ?c e \<noteq> None")
    case True
    with loop have "?r = Inr kinds \<longleftrightarrow> kinds = map (\<lambda>e. the (?c e)) [0..<K]" by auto
    also have "\<dots> \<longleftrightarrow> length kinds = K \<and> (\<forall>e<K. ?c e = Some (kinds ! e))"
      using True by (subst list_eq_iff_nth_eq) (force simp: option.the_def split: option.splits)
    finally show ?thesis .
  next
    case False
    with loop have "\<not> is_ok ?r" by simp
    with False show ?thesis by (cases ?r) auto
  qed
qed

text \<open>C35: The transports resolved across processes fit the placement of the ranks: the topology every
  process builds from them validates; shared memory and peer access are used only between ranks of
  one host, peer access only on an edge whose probe passed; a request for \<open>Shm\<close>, \<open>P2p\<close> or \<open>Socket\<close>
  is honoured on every edge, \<open>Rdma\<close> on every edge between hosts.\<close>

theorem resolve_interprocess_transports_sound:
  assumes "resolve_interprocess_transports K rdma requested nodes cap = Inr kinds" "r < K" "e < K"
  shows "(validate_process_topology K \<lparr>global_rank_count = int K, local_rank_offset = int r,
           devices = [d], edge_kinds = kinds, distributed = True\<rparr> = Inr ()) \<and>
     (kinds ! e \<in> {Shm, P2p} \<longrightarrow> nodes ! e = nodes ! (Suc e mod K)) \<and>
     (kinds ! e = P2p \<longrightarrow> cap ! e) \<and>
     (requested \<in> {Shm, P2p, Socket} \<longrightarrow> kinds ! e = requested) \<and>
     (requested = Rdma \<longrightarrow> nodes ! e \<noteq> nodes ! (Suc e mod K) \<longrightarrow> kinds ! e = Rdma)"
proof (intro conjI)
  have len: "length kinds = K" and ch: "\<And>e. e < K \<Longrightarrow>
      edge_choice rdma requested (nodes ! e = nodes ! (Suc e mod K)) (cap ! e) = Some (kinds ! e)"
    using assms(1) unfolding resolve_interprocess_eq by auto
  have "is_resolved_edge_kind k" if "k \<in> set kinds" for k
  proof -
    from that len obtain e where "e < K" "k = kinds ! e" by (auto simp: in_set_conv_nth)
    with ch[of e] show ?thesis
      by (cases requested) (auto simp: is_resolved_edge_kind_def split: if_splits)
  qed
  then show "validate_process_topology K \<lparr>global_rank_count = int K, local_rank_offset = int r,
      devices = [d], edge_kinds = kinds, distributed = True\<rparr> = Inr ()"
    using assms(2) len unfolding validate_process_topology_char by (simp add: topology_ok_def)
  show "kinds ! e \<in> {Shm, P2p} \<longrightarrow> nodes ! e = nodes ! (Suc e mod K)"
    "kinds ! e = P2p \<longrightarrow> cap ! e"
    "requested \<in> {Shm, P2p, Socket} \<longrightarrow> kinds ! e = requested"
    "requested = Rdma \<longrightarrow> nodes ! e \<noteq> nodes ! (Suc e mod K) \<longrightarrow> kinds ! e = Rdma"
    using ch[OF assms(3)] by (cases requested; auto split: if_splits)+
qed

lemma demo_interprocess:
  "resolve_interprocess_transports 4 True Rdma [0, 0, 2, 2] [True, False, False, False] = Inr [P2p, Rdma, Shm, Rdma]"
  by code_simp

theorem resolve_interprocess_transports_sound_witness:
  "validate_process_topology 4 \<lparr>global_rank_count = 4, local_rank_offset = 1,
      devices = [0], edge_kinds = [P2p, Rdma, Shm, Rdma], distributed = True\<rparr> = Inr ()"
  using resolve_interprocess_transports_sound[OF demo_interprocess, of 1 0 0] by simp

text \<open>\<open>resolve_interprocess_transports\<close> fails exactly when some edge cannot carry the request:
  never for \<open>Auto\<close> and \<open>Socket\<close>; for \<open>Shm\<close> when an edge crosses hosts; for \<open>P2p\<close> when an edge crosses
  hosts or its probe failed; for \<open>Rdma\<close> when the build has no RDMA; always for \<open>Mixed\<close>.\<close>

theorem resolve_interprocess_transports_total:
  "is_ok (resolve_interprocess_transports K rdma requested nodes cap) \<longleftrightarrow>
   (case requested of
      Auto \<Rightarrow> True | Socket \<Rightarrow> True
    | Shm \<Rightarrow> list_all (\<lambda>e. nodes ! e = nodes ! (Suc e mod K)) [0..<K]
    | P2p \<Rightarrow> list_all (\<lambda>e. nodes ! e = nodes ! (Suc e mod K) \<and> cap ! e) [0..<K]
    | Rdma \<Rightarrow> rdma \<or> K = 0
    | Mixed \<Rightarrow> K = 0)"
  using interprocess_loop[of K rdma requested nodes cap "[0..<K]" "replicate K Shm", THEN conjunct2]
  by (cases requested) (auto simp: resolve_interprocess_transports_def list_all_iff split: if_splits)

end
