(* ===== verification/Socket_Wire.thy ===== *)
theory Socket_Wire
  imports Types
begin

unbundle bit_operations_syntax

text \<open>
  The byte level of the socket transport: the HELLO message of
  \<open>transport/socket/socket_endpoint.cc\<close> and the length-prefixed slices of
  \<open>transport/socket/socket_protocol.h\<close> and \<open>socket_proxy.cc\<close>.

  The operating system is a script: the list of what the successive calls to \<open>send\<close>, \<open>sendmsg\<close> or
  \<open>recv\<close> answer. A call may be interrupted, fail, or move some bytes; when the script is used up the
  call has not returned yet and the outcome is \<open>Waiting\<close>. The bytes sent and not yet received are a
  list, the stream a TCP connection is.
\<close>

datatype io = Took nat | Interrupted | Io_error string

datatype 'a outcome = Done 'a | Waiting | Thrown exn

definition socket_error :: "string \<Rightarrow> string \<Rightarrow> exn" where
  "socket_error operation error = Runtime_error (operation @ '': '' @ error)"

section \<open>Network byte order\<close>

text \<open>The bytes in memory of \<open>htonl x\<close> and \<open>htons x\<close>, and back with \<open>ntohl\<close> and \<open>ntohs\<close>.\<close>

definition htonl :: "32 word \<Rightarrow> byte list" where
  "htonl x = [ucast (drop_bit 24 x), ucast (drop_bit 16 x), ucast (drop_bit 8 x), ucast x]"

definition ntohl :: "byte list \<Rightarrow> 32 word" where
  "ntohl bs = push_bit 24 (ucast (bs ! 0)) OR push_bit 16 (ucast (bs ! 1)) OR push_bit 8 (ucast (bs ! 2)) OR ucast (bs ! 3)"

definition htons :: "16 word \<Rightarrow> byte list" where
  "htons x = [ucast (drop_bit 8 x), ucast x]"

definition ntohs :: "byte list \<Rightarrow> 16 word" where
  "ntohs bs = push_bit 8 (ucast (bs ! 0)) OR ucast (bs ! 1)"

section \<open>Sending\<close>

fun write_all :: "io list \<Rightarrow> byte list \<Rightarrow> byte list \<Rightarrow> unit outcome \<times> io list \<times> byte list" where
  "write_all sc [] wire = (Done (), sc, wire)"
| "write_all [] data wire = (Waiting, [], wire)"
| "write_all (r # sc) data wire =
     (case r of
        Interrupted \<Rightarrow> write_all sc data wire
      | Io_error e \<Rightarrow> (Thrown (socket_error ''send'' e), sc, wire)
      | Took n \<Rightarrow>
          if n = 0 then (Thrown (Runtime_error ''send returned zero bytes''), sc, wire)
          else write_all sc (drop n data) (wire @ take n data))"

text \<open>
  The scatter-gather loop keeps at most two segments and advances them by what \<open>sendmsg\<close> consumed:
  whole segments are dropped, the rest shortens the first one.
\<close>

fun advance_iov :: "nat \<Rightarrow> byte list list \<Rightarrow> byte list list" where
  "advance_iov consumed [] = []"
| "advance_iov consumed (seg # iov) =
     (if length seg \<le> consumed then advance_iov (consumed - length seg) iov
      else if consumed \<noteq> 0 then drop consumed seg # iov else seg # iov)"

fun sendmsg_loop :: "io list \<Rightarrow> byte list list \<Rightarrow> byte list \<Rightarrow> unit outcome \<times> io list \<times> byte list" where
  "sendmsg_loop sc [] wire = (Done (), sc, wire)"
| "sendmsg_loop [] iov wire = (Waiting, [], wire)"
| "sendmsg_loop (r # sc) iov wire =
     (case r of
        Interrupted \<Rightarrow> sendmsg_loop sc iov wire
      | Io_error e \<Rightarrow> (Thrown (socket_error ''sendmsg'' e), sc, wire)
      | Took n \<Rightarrow>
          if n = 0 then (Thrown (Runtime_error ''sendmsg returned zero bytes''), sc, wire)
          else sendmsg_loop sc (advance_iov n iov) (wire @ take n (concat iov)))"

definition send_iov_all :: "io list \<Rightarrow> byte list \<Rightarrow> byte list \<Rightarrow> byte list \<Rightarrow> unit outcome \<times> io list \<times> byte list" where
  "send_iov_all sc first second wire =
     sendmsg_loop sc ((if first \<noteq> [] then [first] else []) @ (if second \<noteq> [] then [second] else [])) wire"

text \<open>A payload pointer with its extent: \<open>None\<close> is the null pointer.\<close>

definition send_all :: "io list \<Rightarrow> byte list option \<Rightarrow> nat \<Rightarrow> byte list \<Rightarrow> unit outcome \<times> io list \<times> byte list" where
  "send_all sc data bytes wire =
     (case data of
        None \<Rightarrow> if bytes \<noteq> 0 then (Thrown (Runtime_error ''send_all payload is null''), sc, wire)
                else send_iov_all sc [] [] wire
      | Some d \<Rightarrow> send_iov_all sc (take bytes d) [] wire)"

definition send_slice :: "io list \<Rightarrow> byte list option \<Rightarrow> 32 word \<Rightarrow> byte list \<Rightarrow> unit outcome \<times> io list \<times> byte list" where
  "send_slice sc payload payload_bytes wire =
     (case payload of
        None \<Rightarrow> if payload_bytes \<noteq> 0 then (Thrown (Runtime_error ''send_slice payload is null''), sc, wire)
                else send_iov_all sc (htonl payload_bytes) [] wire
      | Some d \<Rightarrow> send_iov_all sc (htonl payload_bytes) (take (unat payload_bytes) d) wire)"

section \<open>Receiving\<close>

text \<open>
  \<open>recv\<close> asked for \<open>bytes\<close> bytes gives at most that many of those on the wire. With nothing on the
  wire a call that moves bytes cannot return.
\<close>

fun recv_loop :: "string \<Rightarrow> io list \<Rightarrow> nat \<Rightarrow> byte list \<Rightarrow> byte list \<Rightarrow> byte list outcome \<times> io list \<times> byte list" where
  "recv_loop closed sc 0 acc wire = (Done acc, sc, wire)"
| "recv_loop closed [] (Suc bytes) acc wire = (Waiting, [], wire)"
| "recv_loop closed (r # sc) (Suc bytes) acc wire =
     (case r of
        Interrupted \<Rightarrow> recv_loop closed sc (Suc bytes) acc wire
      | Io_error e \<Rightarrow> (Thrown (socket_error ''recv'' e), sc, wire)
      | Took n \<Rightarrow>
          if n = 0 then (Thrown (Runtime_error closed), sc, wire)
          else let k = min n (min (Suc bytes) (length wire)) in
               recv_loop closed sc (Suc bytes - k) (acc @ take k wire) (drop k wire))"

definition read_all :: "io list \<Rightarrow> nat \<Rightarrow> byte list \<Rightarrow> byte list outcome \<times> io list \<times> byte list" where
  "read_all sc bytes wire = recv_loop ''socket peer closed during HELLO'' sc bytes [] wire"

definition recv_all :: "io list \<Rightarrow> bool \<Rightarrow> nat \<Rightarrow> byte list \<Rightarrow> byte list outcome \<times> io list \<times> byte list" where
  "recv_all sc data_is_null bytes wire =
     (if bytes \<noteq> 0 \<and> data_is_null then (Thrown (Runtime_error ''recv_all payload is null''), sc, wire)
      else recv_loop ''recv: peer closed'' sc bytes [] wire)"

definition recv_slice :: "io list \<Rightarrow> bool \<Rightarrow> nat \<Rightarrow> byte list \<Rightarrow> byte list outcome \<times> io list \<times> byte list" where
  "recv_slice sc payload_is_null payload_capacity wire =
     (case recv_all sc False 4 wire of
        (Done header, sc1, wire1) \<Rightarrow>
          (let payload_bytes = unat (ntohl header) in
           if payload_capacity < payload_bytes
           then (Thrown (Runtime_error ''socket slice payload exceeds capacity''), sc1, wire1)
           else if payload_bytes \<noteq> 0 \<and> payload_is_null
           then (Thrown (Runtime_error ''recv_slice payload is null''), sc1, wire1)
           else recv_all sc1 payload_is_null payload_bytes wire1)
      | (Waiting, sc1, wire1) \<Rightarrow> (Waiting, sc1, wire1)
      | (Thrown e, sc1, wire1) \<Rightarrow> (Thrown e, sc1, wire1))"

section \<open>HELLO\<close>

record socket_hello =
  source_global_rank :: int
  destination_global_rank :: int
  hello_channel :: int

definition kSocketHelloMagic :: "32 word" where "kSocketHelloMagic = 0x4e4e434c"
definition kSocketProtocolVersion :: "16 word" where "kSocketProtocolVersion = 1"

text \<open>The 16 bytes of \<open>WireHello\<close> in network order: magic, version, channel, source, destination.\<close>

definition wire_hello :: "socket_hello \<Rightarrow> byte list" where
  "wire_hello h = htonl kSocketHelloMagic @ htons kSocketProtocolVersion @ htons (of_int (hello_channel h)) @
     htonl (of_int (source_global_rank h)) @ htonl (of_int (destination_global_rank h))"

definition connect_hello :: "io list \<Rightarrow> socket_hello \<Rightarrow> byte list \<Rightarrow> unit outcome \<times> io list \<times> byte list" where
  "connect_hello sc h wire = write_all sc (wire_hello h) wire"

definition decode_hello :: "byte list \<Rightarrow> socket_hello outcome" where
  "decode_hello bs =
     (if ntohl (take 4 bs) \<noteq> kSocketHelloMagic then Thrown (Runtime_error ''socket HELLO has invalid magic'')
      else if ntohs (take 2 (drop 4 bs)) \<noteq> kSocketProtocolVersion
      then Thrown (Runtime_error ''socket HELLO has unsupported version'')
      else Done \<lparr>source_global_rank = sint (ntohl (take 4 (drop 8 bs))),
                 destination_global_rank = sint (ntohl (take 4 (drop 12 bs))),
                 hello_channel = uint (ntohs (take 2 (drop 6 bs)))\<rparr>)"

definition read_hello :: "io list \<Rightarrow> byte list \<Rightarrow> socket_hello outcome \<times> io list \<times> byte list" where
  "read_hello sc wire =
     (case read_all sc 16 wire of
        (Done bs, sc1, wire1) \<Rightarrow> (decode_hello bs, sc1, wire1)
      | (Waiting, sc1, wire1) \<Rightarrow> (Waiting, sc1, wire1)
      | (Thrown e, sc1, wire1) \<Rightarrow> (Thrown e, sc1, wire1))"

section \<open>Interface selection\<close>

text \<open>The entries of \<open>getifaddrs\<close>; \<open>None\<close> for a null name or address.\<close>

record ifaddr =
  ifa_name :: "string option"
  ifa_addr :: "(bool \<times> 32 word) option"
  ifa_up :: bool
  ifa_loopback :: bool

definition usable_ifaddr :: "string \<Rightarrow> ifaddr \<Rightarrow> bool" where
  "usable_ifaddr name entry =
     (\<not> (ifa_name entry = None \<or> ifa_addr entry = None \<or> ifa_name entry \<noteq> Some name \<or>
         \<not> fst (the (ifa_addr entry)) \<or> \<not> ifa_up entry \<or> ifa_loopback entry))"

definition select_interface_address :: "string option \<Rightarrow> string + ifaddr list \<Rightarrow> 32 word result" where
  "select_interface_address env interfaces =
     (case env of None \<Rightarrow> Inl (Runtime_error ''NANO_NCCL_SOCKET_IFNAME must be set'')
      | Some name \<Rightarrow>
        if name = [] then Inl (Runtime_error ''NANO_NCCL_SOCKET_IFNAME must be set'')
        else case interfaces of Inl e \<Rightarrow> Inl (socket_error ''getifaddrs'' e)
        | Inr entries \<Rightarrow>
            (case fold (\<lambda>entry (selected, matches).
                          if usable_ifaddr name entry then (snd (the (ifa_addr entry)), matches + 1)
                          else (selected, matches)) entries (0, 0 :: nat) of
               (selected, matches) \<Rightarrow>
                 if matches \<noteq> 1
                 then Inl (Runtime_error ''NANO_NCCL_SOCKET_IFNAME must identify exactly one usable IPv4 address'')
                 else Inr selected))"

section \<open>Properties\<close>

lemma htonl_length [simp]: "length (htonl x) = 4" and htons_length [simp]: "length (htons y) = 2"
  by (simp_all add: htonl_def htons_def)

lemma htonl_not_Nil [simp]: "htonl x \<noteq> []" "[] \<noteq> htonl x"
  by (simp_all add: htonl_def)

lemma ntohl_htonl [simp]: "ntohl (htonl x) = x"
proof (rule bit_word_eqI)
  fix n assume "n < LENGTH(32)"
  then consider "n < 8" | "8 \<le> n" "n < 16" | "16 \<le> n" "n < 24" | "24 \<le> n" "n < 32" by fastforce
  then show "bit (ntohl (htonl x)) n = bit x n"
    by cases (auto simp: ntohl_def htonl_def bit_simps)
qed

lemma ntohs_htons [simp]: "ntohs (htons x) = x"
  by (rule bit_word_eqI) (auto simp: ntohs_def htons_def bit_simps)

lemma concat_advance_iov: "concat (advance_iov n iov) = drop n (concat iov)"
  by (induction n iov rule: advance_iov.induct) auto

lemma advance_iov_nonempty: "[] \<notin> set iov \<Longrightarrow> [] \<notin> set (advance_iov n iov)"
  by (induction n iov rule: advance_iov.induct) auto

lemma nonempty_concat: "[] \<notin> set iov \<Longrightarrow> concat iov = [] \<longleftrightarrow> iov = []"
  by (cases iov) auto

text \<open>The segments only matter through their concatenation.\<close>

lemma sendmsg_loop_flat:
  "[] \<notin> set iov \<Longrightarrow> [] \<notin> set iov' \<Longrightarrow> concat iov = concat iov' \<Longrightarrow>
   sendmsg_loop sc iov wire = sendmsg_loop sc iov' wire"
proof (induction sc arbitrary: iov iov' wire)
  case Nil
  then show ?case using nonempty_concat[of iov] nonempty_concat[of iov']
    by (cases iov; cases iov') auto
next
  case (Cons r sc)
  show ?case
  proof (cases "iov = []")
    case True
    then show ?thesis using Cons.prems nonempty_concat[of iov'] by simp
  next
    case False
    then have "iov' \<noteq> []" using Cons.prems nonempty_concat[of iov] by auto
    with False obtain a as b bs where "iov = a # as" "iov' = b # bs" by (meson neq_Nil_conv)
    with Cons show ?thesis
      by (cases r) (auto simp del: advance_iov.simps simp: concat_advance_iov advance_iov_nonempty
          intro!: Cons.IH)
  qed
qed

lemma sendmsg_loop_stream:
  assumes "[] \<notin> set iov" "sendmsg_loop sc iov wire = (res, sc', wire')"
  shows "\<exists>k. wire' = wire @ take k (concat iov) \<and> (res = Done () \<longrightarrow> take k (concat iov) = concat iov) \<and>
             (res \<noteq> Done () \<longrightarrow> k < length (concat iov))"
  using assms
proof (induction sc iov wire rule: sendmsg_loop.induct)
  case (3 r sc seg iov wire)
  have pos: "0 < length (concat (seg # iov))" using "3.prems"(1) by (cases seg) auto
  show ?case
  proof (cases r)
    case (Took n)
    show ?thesis
    proof (cases "n = 0")
      case True
      with 3 Took pos show ?thesis by (auto intro!: exI[of _ 0])
    next
      case False
      let ?I = "advance_iov n (seg # iov)" and ?D = "concat (seg # iov)"
      from False Took "3.prems" have "sendmsg_loop sc ?I (wire @ take n ?D) = (res, sc', wire')" by simp
      then obtain k where k: "wire' = (wire @ take n ?D) @ take k (concat ?I)"
          "res = Done () \<longrightarrow> take k (concat ?I) = concat ?I" "res \<noteq> Done () \<longrightarrow> k < length (concat ?I)"
        using "3.IH"(1)[OF Took False] advance_iov_nonempty[OF "3.prems"(1)] by blast
      show ?thesis
        by (rule exI[of _ "n + k"])
           (use k in \<open>auto simp: concat_advance_iov take_add simp del: concat.simps advance_iov.simps\<close>)
    qed
  next
    case Interrupted
    with 3 show ?thesis by simp
  next
    case (Io_error e)
    with 3 pos show ?thesis by (auto intro!: exI[of _ 0])
  qed
qed (auto intro: exI[of _ 0])

text \<open>The two-segment bookkeeping of \<open>send_iov_all\<close> is exact: whatever the kernel takes per call, with
  interruptions and errors anywhere, sending a header and a payload behaves like sending their
  concatenation from one buffer.\<close>

theorem send_iov_all_flat: "send_iov_all sc first second wire = send_iov_all sc (first @ second) [] wire"
  unfolding send_iov_all_def by (rule sendmsg_loop_flat) auto

definition slice_bytes :: "byte list \<Rightarrow> byte list" where
  "slice_bytes p = htonl (of_nat (length p)) @ p"

lemma send_slice_stream:
  assumes "send_slice sc (Some d) (of_nat n) wire = (res, sc', wire')" "n < 2 ^ 32"
  shows "\<exists>k. wire' = wire @ take k (htonl (of_nat n) @ take n d) \<and>
             (res = Done () \<longrightarrow> wire' = wire @ htonl (of_nat n) @ take n d) \<and>
             (res \<noteq> Done () \<longrightarrow> k < length (htonl (of_nat n) @ take n d))"
proof -
  have n: "unat (of_nat n :: 32 word) = n" using assms(2) by (simp add: unat_of_nat)
  let ?iov = "[htonl (of_nat n)] @ (if take n d \<noteq> [] then [take n d] else [])"
  have "sendmsg_loop sc ?iov wire = (res, sc', wire')"
    using assms(1) by (simp add: send_slice_def send_iov_all_def n)
  moreover have "[] \<notin> set ?iov" by auto
  ultimately obtain k where "wire' = wire @ take k (concat ?iov)"
      "res = Done () \<longrightarrow> take k (concat ?iov) = concat ?iov" "res \<noteq> Done () \<longrightarrow> k < length (concat ?iov)"
    using sendmsg_loop_stream by blast
  moreover have "concat ?iov = htonl (of_nat n) @ take n d" by simp
  ultimately show ?thesis by (metis append.assoc)
qed

text \<open>One call that takes everything finishes the slice.\<close>

lemma advance_iov_all: "length (concat iov) \<le> n \<Longrightarrow> advance_iov n iov = []"
  by (induction n iov rule: advance_iov.induct) auto

lemma send_slice_once:
  "\<exists>sc. fst (send_slice sc (Some d) n wire) = Done ()"
proof -
  let ?iov = "[htonl n] @ (if take (unat n) d \<noteq> [] then [take (unat n) d] else [])"
  have "fst (send_slice [Took (length (concat ?iov))] (Some d) n wire) = Done ()"
    using advance_iov_all[of ?iov "length (concat ?iov)"]
    by (simp add: send_slice_def send_iov_all_def del: advance_iov.simps)
  then show ?thesis ..
qed

lemma write_all_stream:
  "write_all sc data wire = (res, sc', wire') \<Longrightarrow>
   \<exists>k. wire' = wire @ take k data \<and> (res = Done () \<longrightarrow> wire' = wire @ data)"
proof (induction sc data wire rule: write_all.induct)
  case (3 r sc x data wire)
  show ?case
  proof (cases r)
    case (Took n)
    show ?thesis
    proof (cases "n = 0")
      case True
      with 3 Took show ?thesis by (auto intro: exI[of _ 0])
    next
      case False
      with Took "3.prems" have "write_all sc (drop n (x # data)) (wire @ take n (x # data)) = (res, sc', wire')" by simp
      from "3.IH"(1)[OF Took False this] obtain k where
        "wire' = (wire @ take n (x # data)) @ take k (drop n (x # data))"
        "res = Done () \<longrightarrow> wire' = (wire @ take n (x # data)) @ drop n (x # data)" by blast
      then show ?thesis by (intro exI[of _ "n + k"]) (simp add: take_add)
    qed
  next
    case Interrupted
    with 3 show ?thesis by simp
  next
    case (Io_error e)
    with 3 show ?thesis by (auto intro: exI[of _ 0])
  qed
qed (auto intro: exI[of _ 0])

text \<open>A script in which calls may be interrupted but never fail, and how many of them move bytes.\<close>

definition flows :: "io list \<Rightarrow> bool" where
  "flows sc = list_all (\<lambda>r. r = Interrupted \<or> (\<exists>n>0. r = Took n)) sc"

fun moves :: "io list \<Rightarrow> nat" where
  "moves [] = 0"
| "moves (Took n # sc) = Suc (moves sc)"
| "moves (r # sc) = moves sc"

lemma flows_simps [simp]:
  "flows []" "flows (Interrupted # sc) = flows sc" "flows (Took n # sc) \<longleftrightarrow> 0 < n \<and> flows sc"
  "\<not> flows (Io_error e # sc)"
  by (simp_all add: flows_def)

lemma recv_loop_done:
  assumes "recv_loop closed sc n acc wire = (Done bs, sc', wire')"
  shows "n \<le> length wire \<and> bs = acc @ take n wire \<and> wire' = drop n wire"
  using assms
proof (induction closed sc n acc wire rule: recv_loop.induct)
  case (3 closed r sc bytes acc wire)
  show ?case
  proof (cases r)
    case (Took n)
    with 3 have n: "n \<noteq> 0" by (auto split: if_splits)
    define k where "k = min n (min (Suc bytes) (length wire))"
    from "3.prems" Took n have "recv_loop closed sc (Suc bytes - k) (acc @ take k wire) (drop k wire) = (Done bs, sc', wire')"
      by (simp add: k_def Let_def)
    from "3.IH"(1)[OF Took n k_def this] have
      "Suc bytes - k \<le> length wire - k" "bs = acc @ take k wire @ take (Suc bytes - k) (drop k wire)"
      "wire' = drop (Suc bytes - k) (drop k wire)" by auto
    moreover have "k \<le> Suc bytes" "k \<le> length wire" by (auto simp: k_def)
    ultimately show ?thesis by (simp add: take_add[symmetric] drop_drop)
  qed (use 3 in auto)
qed auto

lemma recv_loop_flows:
  assumes "flows sc" "n \<le> moves sc" "n \<le> length wire"
  shows "\<exists>sc'. recv_loop closed sc n acc wire = (Done (acc @ take n wire), sc', drop n wire) \<and>
               flows sc' \<and> moves sc - n \<le> moves sc'"
  using assms
proof (induction closed sc n acc wire rule: recv_loop.induct)
  case (3 closed r sc bytes acc wire)
  show ?case
  proof (cases r)
    case (Took n)
    with 3 have n: "n \<noteq> 0" "flows sc" by auto
    define k where "k = min n (min (Suc bytes) (length wire))"
    have k: "0 < k" "k \<le> Suc bytes" "k \<le> length wire" using n 3(5) by (auto simp: k_def)
    have "Suc bytes - k \<le> moves sc" "Suc bytes - k \<le> length (drop k wire)"
      using "3.prems"(2,3) Took k(1) by simp_all
    from "3.IH"(1)[OF Took n(1) k_def n(2) this] obtain sc' where
      "recv_loop closed sc (Suc bytes - k) (acc @ take k wire) (drop k wire) =
         (Done ((acc @ take k wire) @ take (Suc bytes - k) (drop k wire)), sc', drop (Suc bytes - k) (drop k wire))"
      "flows sc'" "moves sc - (Suc bytes - k) \<le> moves sc'" by blast
    moreover have "take k wire @ take (Suc bytes - k) (drop k wire) = take (Suc bytes) wire"
      using k(2) by (simp add: take_add[symmetric])
    ultimately show ?thesis using Took n k by (auto simp: k_def[symmetric] Let_def)
  qed (use 3 in auto)
qed auto

lemma slice_header:
  "take 4 (slice_bytes p @ rest) = htonl (of_nat (length p))" "drop 4 (slice_bytes p @ rest) = p @ rest"
  by (simp_all add: slice_bytes_def)

lemma recv_slice_done:
  assumes "recv_slice sc False cap (slice_bytes p @ rest) = (Done bs, sc', wire')" "length p < 2 ^ 32"
  shows "bs = p \<and> wire' = rest \<and> length p \<le> cap"
proof -
  have n: "unat (ntohl (htonl (of_nat (length p)))) = length p"
    using assms(2) by (simp add: unat_of_nat)
  from assms(1) obtain hd sc1 wire1 where h: "recv_loop ''recv: peer closed'' sc 4 [] (slice_bytes p @ rest) = (Done hd, sc1, wire1)"
    by (auto simp: recv_slice_def recv_all_def split: prod.splits outcome.splits)
  from recv_loop_done[OF h] have hd: "hd = htonl (of_nat (length p))" "wire1 = p @ rest"
    by (simp_all only: slice_header append_Nil)
  from assms(1) have "length p \<le> cap" "recv_loop ''recv: peer closed'' sc1 (length p) [] (p @ rest) = (Done bs, sc', wire')"
    using n by (auto simp: recv_slice_def recv_all_def h hd Let_def split: if_splits)
  from this(1) recv_loop_done[OF this(2)] show ?thesis by simp
qed

lemma recv_header_flows:
  assumes "flows sc" "4 \<le> moves sc"
  shows "\<exists>sc1. recv_loop closed sc 4 [] (slice_bytes p @ rest) =
      (Done (htonl (of_nat (length p))), sc1, p @ rest) \<and> flows sc1 \<and> moves sc - 4 \<le> moves sc1"
  using recv_loop_flows[OF assms, of "slice_bytes p @ rest" closed "[]"]
  unfolding slice_header by (simp add: slice_bytes_def)

lemma recv_slice_flows:
  assumes "flows sc" "length p + 4 \<le> moves sc" "length p < 2 ^ 32" "length p \<le> cap"
  shows "\<exists>sc'. recv_slice sc False cap (slice_bytes p @ rest) = (Done p, sc', rest) \<and> flows sc' \<and>
               moves sc - (length p + 4) \<le> moves sc'"
proof -
  have n: "unat (ntohl (htonl (of_nat (length p)))) = length p"
    using assms(3) by (simp add: unat_of_nat)
  from recv_header_flows[OF assms(1)] assms(2) obtain sc1 where
    h: "recv_loop ''recv: peer closed'' sc 4 [] (slice_bytes p @ rest) =
          (Done (htonl (of_nat (length p))), sc1, p @ rest)"
      "flows sc1" "moves sc - 4 \<le> moves sc1" by fastforce
  have "length p \<le> moves sc1" "length p \<le> length (p @ rest)" using h(3) assms(2) by simp_all
  from recv_loop_flows[OF h(2) this] obtain sc' where
    t: "recv_loop ''recv: peer closed'' sc1 (length p) [] (p @ rest) = (Done ([] @ take (length p) (p @ rest)), sc', drop (length p) (p @ rest))"
      "flows sc'" "moves sc1 - length p \<le> moves sc'" by blast
  show ?thesis using h t assms(4) n by (auto simp: recv_slice_def recv_all_def Let_def)
qed

text \<open>An incomplete slice is never delivered.\<close>

lemma recv_slice_partial:
  assumes "k < length (slice_bytes p)" "length p < 2 ^ 32"
  shows "recv_slice sc False cap (take k (slice_bytes p)) \<noteq> (Done bs, sc', wire')"
proof
  assume r: "recv_slice sc False cap (take k (slice_bytes p)) = (Done bs, sc', wire')"
  then obtain hd sc1 wire1 where h: "recv_loop ''recv: peer closed'' sc 4 [] (take k (slice_bytes p)) = (Done hd, sc1, wire1)"
    by (auto simp: recv_slice_def recv_all_def split: prod.splits outcome.splits)
  from recv_loop_done[OF h] have hd: "4 \<le> k" "hd = htonl (of_nat (length p))" "wire1 = take (k - 4) p"
    by (auto simp: slice_bytes_def min_def split: if_splits)
  have "unat (ntohl hd) = length p" using assms(2) by (simp add: hd unat_of_nat)
  with r have "recv_loop ''recv: peer closed'' sc1 (length p) [] wire1 = (Done bs, sc', wire')"
    by (auto simp: recv_slice_def recv_all_def h Let_def split: if_splits)
  from recv_loop_done[OF this] hd(1,3) have "length p \<le> k - 4" by simp
  with hd(1) assms(1) show False by (simp add: slice_bytes_def)
qed

text \<open>C27: A slice sent with \<open>send_slice\<close> comes back from \<open>recv_slice\<close> unchanged, however the kernels of the
  two hosts cut the byte stream: once the sender's call returned, the receiver's call returns the
  payload, leaves the bytes that follow on the wire, and needs no more than one answer of \<open>recv\<close> per
  byte; a payload larger than the receiver's slot is refused.\<close>

theorem slice_roundtrip:
  assumes "send_slice sc (Some d) (of_nat n) [] = (Done (), sc1, wire)" "n < 2 ^ 32" "n \<le> length d"
    and "flows sc2" "n + 4 \<le> moves sc2"
  shows "\<exists>sc3. recv_slice sc2 False cap (wire @ rest) =
    (if n \<le> cap then (Done (take n d), sc3, rest)
     else (Thrown (Runtime_error ''socket slice payload exceeds capacity''), sc3, take n d @ rest))"
proof -
  let ?p = "take n d"
  have wire: "wire = slice_bytes ?p" and len: "length ?p = n"
    using send_slice_stream[OF assms(1,2)] assms(3) by (auto simp: slice_bytes_def min_absorb2)
  show ?thesis
  proof (cases "n \<le> cap")
    case True
    then show ?thesis using recv_slice_flows[of sc2 ?p cap rest] assms unfolding wire len by auto
  next
    case False
    have u: "unat (ntohl (htonl (of_nat n))) = n" using assms(2) by (simp add: unat_of_nat)
    from recv_header_flows[OF assms(4), of _ ?p rest] assms(5) obtain sc3 where
      "recv_loop ''recv: peer closed'' sc2 4 [] (slice_bytes ?p @ rest) = (Done (htonl (of_nat n)), sc3, ?p @ rest)"
      unfolding len by fastforce
    then have "recv_slice sc2 False cap (wire @ rest) = (Thrown (Runtime_error ''socket slice payload exceeds capacity''), sc3, ?p @ rest)"
      using False u by (simp add: recv_slice_def recv_all_def wire Let_def)
    with False show ?thesis by auto
  qed
qed

lemma demo_send: "send_slice [Took 3, Interrupted, Took 4] (Some [7, 8, 9]) (of_nat 3) [] = (Done (), [], [0, 0, 0, 3, 7, 8, 9])"
  by code_simp

theorem slice_roundtrip_witness:
  "\<exists>sc3. recv_slice [Interrupted, Took 2, Took 2, Took 2, Took 2, Took 2, Took 2, Took 2] False 16 ([0, 0, 0, 3, 7, 8, 9] @ [5]) = (Done [7, 8, 9], sc3, [5])"
  using slice_roundtrip[OF demo_send, of "[Interrupted, Took 2, Took 2, Took 2, Took 2, Took 2, Took 2, Took 2]" 16 "[5]"]
  by simp

text \<open>C28: The HELLO a process sends when it connects is read back by the accepting process as the same
  source rank, destination rank and channel; the 16 bytes are consumed exactly.\<close>

theorem hello_roundtrip:
  assumes "connect_hello sc h [] = (Done (), sc1, wire)" "flows sc2" "16 \<le> moves sc2"
    and "0 \<le> source_global_rank h" "source_global_rank h < 2 ^ 31"
    and "0 \<le> destination_global_rank h" "destination_global_rank h < 2 ^ 31"
    and "0 \<le> hello_channel h" "hello_channel h < 2 ^ 16"
  shows "\<exists>sc3. read_hello sc2 (wire @ rest) = (Done h, sc3, rest)"
proof -
  have wire: "wire = wire_hello h" using write_all_stream assms(1) by (fastforce simp: connect_hello_def)
  have len: "length (wire_hello h) = 16" by (simp add: wire_hello_def)
  obtain sc3 where "recv_loop ''socket peer closed during HELLO'' sc2 16 [] (wire @ rest) =
      (Done ([] @ take 16 (wire @ rest)), sc3, drop 16 (wire @ rest))"
    using recv_loop_flows[OF assms(2,3), of "wire @ rest" "''socket peer closed during HELLO''" "[]"] len wire by auto
  then have r: "read_hello sc2 (wire @ rest) = (decode_hello (wire_hello h), sc3, rest)"
    by (simp add: read_hello_def read_all_def wire len)
  have si: "sint (of_int x :: 32 word) = x" if "0 \<le> x" "x < 2 ^ 31" for x
    using that by (simp add: signed_of_int signed_take_bit_int_eq_self)
  have ui: "uint (of_int x :: 16 word) = x" if "0 \<le> x" "x < 2 ^ 16" for x
    using that by (simp add: uint_word_of_int take_bit_int_eq_self)
  have "decode_hello (wire_hello h) = Done h"
    using assms(4-) by (simp add: decode_hello_def wire_hello_def si ui)
  then show ?thesis unfolding r by simp
qed

lemma demo_connect:
  "connect_hello [Took 10, Took 9] \<lparr>source_global_rank = 3, destination_global_rank = 0, hello_channel = 1\<rparr> [] =
   (Done (), [], [0x4e, 0x4e, 0x43, 0x4c, 0, 1, 0, 1, 0, 0, 0, 3, 0, 0, 0, 0])"
  by code_simp

theorem hello_roundtrip_witness:
  "\<exists>sc3. read_hello [Took 1, Took 1, Took 1, Took 1, Took 1, Took 1, Took 1, Took 1, Took 1, Took 1, Took 1, Took 1, Took 1, Took 1, Took 1, Took 1] [0x4e, 0x4e, 0x43, 0x4c, 0, 1, 0, 1, 0, 0, 0, 3, 0, 0, 0, 0] =
     (Done \<lparr>source_global_rank = 3, destination_global_rank = 0, hello_channel = 1\<rparr>, sc3, [])"
  using hello_roundtrip[OF demo_connect, of "[Took 1, Took 1, Took 1, Took 1, Took 1, Took 1, Took 1, Took 1, Took 1, Took 1, Took 1, Took 1, Took 1, Took 1, Took 1, Took 1]" "[]"] by simp

end
