(* ===== verification/Edge_Spec.thy ===== *)
theory Edge_Spec
  imports Nano_Prelude "HOL-Library.Sublist"
begin

text \<open>
  What a network edge promises to the ring kernels at its two ends: the slices taken out at the
  receiving end are, in order and each once, slices put in at the sending end; and as long as nothing
  failed, every slice put in can be delivered. A transport provides the step relation of its edge, an
  invariant and a count of the work left; the clients' facts follow here once for all transports.
\<close>

locale reliable_edge =
  fixes init :: "'s \<Rightarrow> bool" and step :: "'s \<Rightarrow> 's \<Rightarrow> bool" and inv :: "'s \<Rightarrow> bool"
    and sent :: "'s \<Rightarrow> 'p list" and delivered :: "'s \<Rightarrow> 'p list"
    and healthy :: "'s \<Rightarrow> bool" and work :: "'s \<Rightarrow> nat"
  assumes init_inv: "init s \<Longrightarrow> inv s"
    and step_inv: "inv s \<Longrightarrow> step s s' \<Longrightarrow> inv s'"
    and inv_prefix: "inv s \<Longrightarrow> prefix (delivered s) (sent s)"
    and progress: "inv s \<Longrightarrow> healthy s \<Longrightarrow> delivered s \<noteq> sent s \<Longrightarrow>
      \<exists>s'. step s s' \<and> healthy s' \<and> sent s' = sent s \<and> work s' < work s"
begin

lemma reachable_inv: "step\<^sup>*\<^sup>* s s' \<Longrightarrow> inv s \<Longrightarrow> inv s'"
  by (induction rule: rtranclp_induct) (auto intro: step_inv)

lemma in_order: "init s0 \<Longrightarrow> step\<^sup>*\<^sup>* s0 s \<Longrightarrow> prefix (delivered s) (sent s)"
  using reachable_inv init_inv inv_prefix by blast

lemma drains_from: "inv s \<Longrightarrow> healthy s \<Longrightarrow> \<exists>s'. step\<^sup>*\<^sup>* s s' \<and> healthy s' \<and> sent s' = sent s \<and> delivered s' = sent s"
proof (induction "work s" arbitrary: s rule: less_induct)
  case less
  show ?case
  proof (cases "delivered s = sent s")
    case True
    with less.prems show ?thesis by blast
  next
    case False
    from progress[OF less.prems False] obtain s1 where
      s1: "step s s1" "healthy s1" "sent s1 = sent s" "work s1 < work s" by blast
    from less.hyps[OF s1(4) step_inv[OF less.prems(1) s1(1)] s1(2)] s1(1,3) show ?thesis
      by (metis converse_rtranclp_into_rtranclp)
  qed
qed

lemma drains: "init s0 \<Longrightarrow> step\<^sup>*\<^sup>* s0 s \<Longrightarrow> healthy s \<Longrightarrow>
    \<exists>s'. step\<^sup>*\<^sup>* s s' \<and> healthy s' \<and> sent s' = sent s \<and> delivered s' = sent s"
  using drains_from reachable_inv init_inv by blast

end

section \<open>Windows of a ring buffer\<close>

text \<open>
  Slice number \<open>k\<close> lives in slot \<open>k * inc mod n\<close>. Slices whose steps are less than \<open>n\<close> apart have
  different slots.
\<close>

lemma slot_neq:
  fixes j k inc n :: nat
  assumes "j < k" "0 < inc" "k * inc < j * inc + n"
  shows "j * inc mod n \<noteq> k * inc mod n"
  using assms by (intro mod_neq_close) simp_all

end
