(* ===== verification/Proxy_Fifo.thy ===== *)
theory Proxy_Fifo
  imports Edge_Spec
begin

text \<open>
  What the network transports share: the FIFO in host memory between a ring kernel and a proxy
  thread, its two counters, the failure state of an edge's proxies, and the kernels' side of the FIFO
  (\<open>transport/socket/socket_proxy.h\<close>, \<open>transport/rdma/rdma_proxy.h\<close> and the waits and posts of
  \<open>kernels/ring_simple_kernel.cuh\<close>). Step counters are natural numbers: a 64-bit counter that
  advances by two per slice does not wrap in the life of a communicator.
\<close>

section \<open>Data\<close>

record proxy_identity =
  source_rank :: int
  destination_rank :: int
  proxy_channel :: int

record proxy_fifo =
  fifo_data_null :: bool
  fifo_sizes_null :: bool
  slot_bytes :: nat
  slot_count :: nat
  step_increment :: nat

record async_error =
  has_error :: bool
  message :: string
  device_abort :: "bool option"

record side =
  slot_data :: "nat \<Rightarrow> byte list"
  slot_sizes :: "nat \<Rightarrow> 32 word"
  head :: nat
  tail :: nat
  proxy_step :: nat
  stop_requested :: bool
  errors :: async_error

text \<open>The condition under which \<open>drain\<close> keeps waiting.\<close>

definition send_draining :: "'a side_scheme \<Rightarrow> bool" where
  "send_draining s = (\<not> has_error (errors s) \<and> head s < tail s)"

definition recv_draining :: "'a side_scheme \<Rightarrow> bool" where
  "recv_draining s = (\<not> has_error (errors s) \<and> tail s < head s)"

section \<open>The kernels' side\<close>

text \<open>
  The kernels' side of the FIFOs: the sender waits until the slot is free, writes the payload and its
  size, then publishes the step; the receiver waits for the step, reads the slot, then returns it. The receiving kernel
  computes how much of the slot it reads from its own loop; that the two ends compute the same size is shown with the ring
  kernels, and here the receiver takes the size that was published with the slot.
\<close>

definition kernel_send :: "proxy_fifo \<Rightarrow> byte list \<Rightarrow> 'a side_scheme \<Rightarrow> 'a side_scheme option" where
  "kernel_send fifo payload s =
     (if tail s + step_increment fifo \<le> head s + slot_count fifo \<and> length payload \<le> slot_bytes fifo
      then let slot = tail s mod slot_count fifo in
           Some (s\<lparr>slot_data := (slot_data s)(slot := payload @ drop (length payload) (slot_data s slot)),
                   slot_sizes := (slot_sizes s)(slot := of_nat (length payload)),
                   tail := tail s + step_increment fifo\<rparr>)
      else None)"

definition kernel_recv :: "proxy_fifo \<Rightarrow> 'a side_scheme \<Rightarrow> (byte list \<times> 'a side_scheme) option" where
  "kernel_recv fifo s =
     (if head s < tail s
      then let slot = head s mod slot_count fifo in
           Some (take (unat (slot_sizes s slot)) (slot_data s slot), s\<lparr>head := head s + step_increment fifo\<rparr>)
      else None)"

section \<open>Slices in slots\<close>

text \<open>Slice \<open>k\<close> of the sequence \<open>ps\<close> sits in its slot.\<close>

definition holds_slice :: "proxy_fifo \<Rightarrow> byte list list \<Rightarrow> 'a side_scheme \<Rightarrow> nat \<Rightarrow> bool" where
  "holds_slice fifo ps s k \<longleftrightarrow>
     (let slot = k * step_increment fifo mod slot_count fifo in
      slot_sizes s slot = of_nat (length (ps ! k)) \<and> take (length (ps ! k)) (slot_data s slot) = ps ! k)"

definition fifo_ok :: "proxy_fifo \<Rightarrow> bool" where
  "fifo_ok fifo \<longleftrightarrow> 0 < step_increment fifo \<and> step_increment fifo \<le> slot_count fifo \<and> slot_bytes fifo < 2 ^ 32"

lemma holds_slice_append:
  "k < length ps \<Longrightarrow> holds_slice fifo (ps @ qs) s k = holds_slice fifo ps s k"
  by (simp add: holds_slice_def nth_append)

lemma holds_slice_counters [simp]:
  "holds_slice fifo ps (s\<lparr>head := a\<rparr>) k = holds_slice fifo ps s k"
  "holds_slice fifo ps (s\<lparr>tail := a\<rparr>) k = holds_slice fifo ps s k"
  "holds_slice fifo ps (s\<lparr>proxy_step := a\<rparr>) k = holds_slice fifo ps s k"
  "holds_slice fifo ps (s\<lparr>errors := e\<rparr>) k = holds_slice fifo ps s k"
  "holds_slice fifo ps (s\<lparr>stop_requested := b\<rparr>) k = holds_slice fifo ps s k"
  by (simp_all add: holds_slice_def)

text \<open>Writing a payload into the slot of step \<open>m * inc\<close>.\<close>

definition put_slot :: "proxy_fifo \<Rightarrow> nat \<Rightarrow> byte list \<Rightarrow> 'a side_scheme \<Rightarrow> 'a side_scheme" where
  "put_slot fifo m p s =
     (let slot = m * step_increment fifo mod slot_count fifo in
      s\<lparr>slot_data := (slot_data s)(slot := p @ drop (length p) (slot_data s slot)),
        slot_sizes := (slot_sizes s)(slot := of_nat (length p))\<rparr>)"

lemma holds_put_same: "ps ! m = p \<Longrightarrow> holds_slice fifo ps (put_slot fifo m p s) m"
  by (simp add: holds_slice_def put_slot_def Let_def)

lemma holds_put_other:
  assumes "fifo_ok fifo" "k < m" "m * step_increment fifo < k * step_increment fifo + slot_count fifo"
  shows "holds_slice fifo ps (put_slot fifo m p s) k = holds_slice fifo ps s k"
  using slot_neq[OF assms(2) _ assms(3)] assms(1)
  by (simp add: holds_slice_def put_slot_def Let_def fifo_ok_def)

lemma put_slot_counters [simp]:
  "head (put_slot fifo m p s) = head s" "tail (put_slot fifo m p s) = tail s"
  "proxy_step (put_slot fifo m p s) = proxy_step s" "errors (put_slot fifo m p s) = errors s"
  by (simp_all add: put_slot_def Let_def)

lemma window_below:
  assumes "fifo_ok fifo" "a \<le> k" "Suc m * step_increment fifo \<le> a * step_increment fifo + slot_count fifo"
  shows "m * step_increment fifo < k * step_increment fifo + slot_count fifo"
proof -
  have "a * step_increment fifo \<le> k * step_increment fifo" using assms(2) by (rule mult_le_mono1)
  moreover have "m * step_increment fifo < Suc m * step_increment fifo" using assms(1) by (simp add: fifo_ok_def)
  ultimately show ?thesis using assms(3) by linarith
qed

lemma kernel_send_put:
  "kernel_send fifo p s = Some s' \<Longrightarrow> tail s = m * step_increment fifo \<Longrightarrow>
   s' = (put_slot fifo m p s)\<lparr>tail := tail s + step_increment fifo\<rparr> \<and>
   tail s + step_increment fifo \<le> head s + slot_count fifo \<and> length p \<le> slot_bytes fifo"
  by (auto simp: kernel_send_def put_slot_def Let_def split: if_splits)

text \<open>
  The sending side after all of \<open>ps\<close> was published and \<open>n\<close> slots were given back; the receiving side
  after \<open>r\<close> slices were made visible and \<open>d\<close> were taken out.
\<close>

definition published :: "proxy_fifo \<Rightarrow> byte list list \<Rightarrow> 'a side_scheme \<Rightarrow> nat \<Rightarrow> bool" where
  "published fifo ps s n \<longleftrightarrow>
     n \<le> length ps \<and> tail s = length ps * step_increment fifo \<and> head s = n * step_increment fifo \<and>
     length ps * step_increment fifo \<le> n * step_increment fifo + slot_count fifo \<and>
     (\<forall>k. n \<le> k \<and> k < length ps \<longrightarrow> holds_slice fifo ps s k)"

definition arrived :: "proxy_fifo \<Rightarrow> byte list list \<Rightarrow> 'a side_scheme \<Rightarrow> nat \<Rightarrow> nat \<Rightarrow> bool" where
  "arrived fifo ps s d r \<longleftrightarrow>
     d \<le> r \<and> tail s = r * step_increment fifo \<and> head s = d * step_increment fifo \<and>
     r * step_increment fifo \<le> d * step_increment fifo + slot_count fifo \<and>
     (\<forall>k. d \<le> k \<and> k < r \<longrightarrow> holds_slice fifo ps s k)"

lemma published_kernel_send:
  assumes "fifo_ok fifo" "published fifo ps s n" "kernel_send fifo p s = Some s'"
  shows "published fifo (ps @ [p]) s' n \<and> length p \<le> slot_bytes fifo"
proof -
  let ?m = "length ps"
  from kernel_send_put[OF assms(3), of ?m] assms(2) have
    s': "s' = (put_slot fifo ?m p s)\<lparr>tail := tail s + step_increment fifo\<rparr>"
    and room: "Suc ?m * step_increment fifo \<le> n * step_increment fifo + slot_count fifo" and len: "length p \<le> slot_bytes fifo"
    by (auto simp: published_def)
  have "holds_slice fifo (ps @ [p]) s' k" if "n \<le> k" "k < Suc ?m" for k
  proof (cases "k = ?m")
    case True
    then show ?thesis by (simp add: s' holds_put_same)
  next
    case False
    then have "k < ?m" using that by simp
    then show ?thesis
      using holds_put_other[OF assms(1) \<open>k < ?m\<close> window_below[OF assms(1) that(1) room], of ps p s]
        assms(2) that by (simp add: s' holds_slice_append published_def)
  qed
  then show ?thesis using assms(2) room len by (simp add: published_def s')
qed

lemma published_advance:
  assumes "published fifo ps s n" "n \<le> m" "m \<le> length ps"
    and "tail s' = tail s" "slot_sizes s' = slot_sizes s" "slot_data s' = slot_data s" "head s' = m * step_increment fifo"
  shows "published fifo ps s' m"
proof -
  have "n * step_increment fifo \<le> m * step_increment fifo" using assms(2) by (rule mult_le_mono1)
  then have "length ps * step_increment fifo \<le> m * step_increment fifo + slot_count fifo"
    using assms(1) unfolding published_def by linarith
  then show ?thesis using assms unfolding published_def holds_slice_def by simp
qed

lemma arrived_kernel_recv:
  assumes "fifo_ok fifo" "arrived fifo ps s d r" "kernel_recv fifo s = Some (p, s')" "length (ps ! d) < 2 ^ 32"
  shows "d < r \<and> p = ps ! d \<and> arrived fifo ps s' (Suc d) r \<and> s' = s\<lparr>head := head s + step_increment fifo\<rparr>"
proof -
  from assms(2,3) have lt: "d * step_increment fifo < r * step_increment fifo"
    and s': "s' = s\<lparr>head := head s + step_increment fifo\<rparr>"
    and p: "p = take (unat (slot_sizes s (d * step_increment fifo mod slot_count fifo)))
                     (slot_data s (d * step_increment fifo mod slot_count fifo))"
    by (auto simp: kernel_recv_def arrived_def Let_def split: if_splits)
  from lt have "d < r" using mult_le_mono1[of r d] by (meson leD linorder_not_le)
  then have h: "holds_slice fifo ps s d" using assms(2) by (simp add: arrived_def)
  then have "p = ps ! d" using assms(4) by (simp add: p holds_slice_def Let_def unat_of_nat)
  then show ?thesis using \<open>d < r\<close> assms(2) by (auto simp: arrived_def s')
qed

lemma kernel_recv_iff: "kernel_recv fifo s = None \<longleftrightarrow> tail s \<le> head s"
  by (auto simp: kernel_recv_def Let_def)

lemma arrived_append: "r \<le> length ps \<Longrightarrow> arrived fifo (ps @ qs) s d r = arrived fifo ps s d r"
  by (auto simp: arrived_def holds_slice_append)

end
