(* ===== verification/Socket_Proxy.thy ===== *)
theory Socket_Proxy
  imports Socket_Wire Proxy_Fifo
begin

text \<open>
  The proxy threads of a socket edge: \<open>transport/socket/socket_proxy.cc\<close>. The sending kernel fills the
  slots of a FIFO in host memory; the send proxy turns each filled slot into a length-prefixed
  slice on the connection; the receive proxy puts the slices into the slots of the receiver's FIFO,
  where the receiving kernel reads them.

  One iteration of a proxy's loop is a function of the edge's state and one step: a stop request or a kernel's step comes before or after it,
  not between its system calls. The source has its \<open>try\<close> around the loop, so a thread that caught an exception makes no further
  iteration; here a later iteration of that side leaves the loop at its guard and changes nothing (\<open>failed_proxy_is_over\<close>).
  When a receive fails inside a payload, the bytes that arrived stay in a slot that is never published; they are not modelled.
  The two processes have their own failure state.
\<close>

section \<open>Data\<close>

record edge =
  snd_side :: side
  wire :: "byte list"
  rcv_side :: side
  sent :: "byte list list"
  delivered :: "byte list list"

section \<open>Failures\<close>

definition validate_fifo :: "proxy_fifo \<Rightarrow> unit result" where
  "validate_fifo fifo =
     (if fifo_data_null fifo \<or> fifo_sizes_null fifo \<or> slot_bytes fifo = 0 \<or> slot_count fifo = 0 \<or>
         step_increment fifo = 0 \<or> (2 ^ 64 - 1) div slot_bytes fifo < slot_count fifo
      then Inl (Runtime_error ''socket proxy has invalid FIFO storage'') else Inr ())"

definition format_failure :: "proxy_identity \<Rightarrow> nat \<Rightarrow> string \<Rightarrow> string" where
  "format_failure ident step reason =
     ''socket proxy source='' @ string_of_int (source_rank ident) @
     '' destination='' @ string_of_int (destination_rank ident) @
     '' channel='' @ string_of_int (proxy_channel ident) @ '' step='' @ string_of_nat step @ '': '' @ reason"

text \<open>The device abort word is absent (\<open>None\<close>) or holds whether it was set.\<close>

definition record_failure :: "proxy_identity \<Rightarrow> nat \<Rightarrow> string \<Rightarrow> async_error \<Rightarrow> async_error" where
  "record_failure ident step reason e =
     (if has_error e then e
      else e\<lparr>has_error := True, message := format_failure ident step reason,
             device_abort := (case device_abort e of None \<Rightarrow> None | Some _ \<Rightarrow> Some True)\<rparr>)"

section \<open>Construction, stop and shutdown\<close>

definition make_proxy :: "proxy_fifo \<Rightarrow> int \<Rightarrow> bool \<Rightarrow> bool \<Rightarrow> string \<Rightarrow> nat \<Rightarrow> side \<Rightarrow> side result" where
  "make_proxy fifo fd control_null errors_null what_text counter s =
     rbind (validate_fifo fifo) (\<lambda>_.
       if fd < 0 \<or> control_null \<or> errors_null then Inl (Runtime_error what_text)
       else Inr (s\<lparr>proxy_step := counter, stop_requested := False\<rparr>))"

definition make_send_proxy :: "proxy_fifo \<Rightarrow> int \<Rightarrow> bool \<Rightarrow> bool \<Rightarrow> side \<Rightarrow> side result" where
  "make_send_proxy fifo fd control_null errors_null s =
     make_proxy fifo fd control_null errors_null ''socket send proxy has invalid state'' (head s) s"

definition make_recv_proxy :: "proxy_fifo \<Rightarrow> int \<Rightarrow> bool \<Rightarrow> bool \<Rightarrow> side \<Rightarrow> side result" where
  "make_recv_proxy fifo fd control_null errors_null s =
     make_proxy fifo fd control_null errors_null ''socket recv proxy has invalid state'' (tail s) s"

definition stop :: "proxy_identity \<Rightarrow> side \<Rightarrow> side" where
  "stop ident s =
     (if stop_requested s then s
      else s\<lparr>stop_requested := True, errors := record_failure ident (proxy_step s) ''stop requested'' (errors s)\<rparr>)"

definition shutdown :: "side \<Rightarrow> side" where
  "shutdown s = s\<lparr>stop_requested := True\<rparr>"

section \<open>The proxy loops\<close>

text \<open>
  How an iteration ended: the loop condition failed, nothing to do, one slice moved, an exception
  was caught and the thread is over, or a system call has not returned yet.
\<close>

datatype iter = Loop_exit | Yield | Moved | Caught | Blocked

definition catch_failure :: "proxy_identity \<Rightarrow> exn \<Rightarrow> side \<Rightarrow> side" where
  "catch_failure ident e s =
     (if stop_requested s then s
      else s\<lparr>errors := record_failure ident (proxy_step s) (what e) (errors s)\<rparr>)"

definition send_iteration :: "proxy_fifo \<Rightarrow> proxy_identity \<Rightarrow> io list \<Rightarrow> side \<Rightarrow> byte list \<Rightarrow> iter \<times> side \<times> byte list" where
  "send_iteration fifo ident sc s w =
     (if stop_requested s \<or> has_error (errors s) then (Loop_exit, s, w)
      else let step = proxy_step s in
      if tail s \<le> step then (Yield, s, w)
      else let slot = step mod slot_count fifo; payload_bytes = slot_sizes s slot in
      if slot_bytes fifo < unat payload_bytes
      then (Caught, catch_failure ident (Runtime_error ''socket proxy send payload exceeds FIFO capacity'') s, w)
      else case send_slice sc (Some (slot_data s slot)) payload_bytes w of
        (Done _, _, w') \<Rightarrow>
          (Moved, s\<lparr>head := step + step_increment fifo, proxy_step := step + step_increment fifo\<rparr>, w')
      | (Thrown e, _, w') \<Rightarrow> (Caught, catch_failure ident e s, w')
      | (Waiting, _, w') \<Rightarrow> (Blocked, s, w'))"

definition recv_iteration :: "proxy_fifo \<Rightarrow> proxy_identity \<Rightarrow> io list \<Rightarrow> side \<Rightarrow> byte list \<Rightarrow> iter \<times> side \<times> byte list" where
  "recv_iteration fifo ident sc s w =
     (if stop_requested s \<or> has_error (errors s) then (Loop_exit, s, w)
      else let step = proxy_step s in
      if head s + slot_count fifo < step + step_increment fifo then (Yield, s, w)
      else let slot = step mod slot_count fifo in
      case recv_slice sc False (slot_bytes fifo) w of
        (Done payload, _, w') \<Rightarrow>
          (Moved, s\<lparr>slot_data := (slot_data s)(slot := payload @ drop (length payload) (slot_data s slot)),
                    slot_sizes := (slot_sizes s)(slot := of_nat (length payload)),
                    tail := step + step_increment fifo, proxy_step := step + step_increment fifo\<rparr>, w')
      | (Thrown e, _, w') \<Rightarrow> (Caught, catch_failure ident e s, w')
      | (Waiting, _, w') \<Rightarrow> (Blocked, s, w'))"

section \<open>An edge\<close>

text \<open>The interleavings of the two kernels, the two proxies and the owners' calls.\<close>

inductive edge_step :: "proxy_fifo \<Rightarrow> proxy_identity \<Rightarrow> edge \<Rightarrow> edge \<Rightarrow> bool" for fifo ident where
  k_send: "kernel_send fifo p (snd_side e) = Some s \<Longrightarrow> edge_step fifo ident e (e\<lparr>snd_side := s, sent := sent e @ [p]\<rparr>)"
| k_recv: "kernel_recv fifo (rcv_side e) = Some (p, s) \<Longrightarrow>
    edge_step fifo ident e (e\<lparr>rcv_side := s, delivered := delivered e @ [p]\<rparr>)"
| p_send: "send_iteration fifo ident sc (snd_side e) (wire e) = (it, s, w) \<Longrightarrow> it \<noteq> Blocked \<Longrightarrow>
    edge_step fifo ident e (e\<lparr>snd_side := s, wire := w\<rparr>)"
| p_recv: "recv_iteration fifo ident sc (rcv_side e) (wire e) = (it, s, w) \<Longrightarrow> it \<noteq> Blocked \<Longrightarrow>
    edge_step fifo ident e (e\<lparr>rcv_side := s, wire := w\<rparr>)"
| s_stop: "edge_step fifo ident e (e\<lparr>snd_side := stop ident (snd_side e)\<rparr>)"
| r_stop: "edge_step fifo ident e (e\<lparr>rcv_side := stop ident (rcv_side e)\<rparr>)"
| s_shutdown: "edge_step fifo ident e (e\<lparr>snd_side := shutdown (snd_side e)\<rparr>)"
| r_shutdown: "edge_step fifo ident e (e\<lparr>rcv_side := shutdown (rcv_side e)\<rparr>)"

definition fresh_side :: "proxy_fifo \<Rightarrow> side \<Rightarrow> bool" where
  "fresh_side fifo s \<longleftrightarrow> head s = 0 \<and> tail s = 0 \<and> proxy_step s = 0 \<and> \<not> stop_requested s \<and> \<not> has_error (errors s) \<and>
     (\<forall>i. length (slot_data s i) = slot_bytes fifo)"

definition edge_init :: "proxy_fifo \<Rightarrow> edge \<Rightarrow> bool" where
  "edge_init fifo e \<longleftrightarrow> validate_fifo fifo = Inr () \<and> slot_bytes fifo < 2 ^ 32 \<and> step_increment fifo \<le> slot_count fifo \<and>
     fresh_side fifo (snd_side e) \<and> fresh_side fifo (rcv_side e) \<and> wire e = [] \<and> sent e = [] \<and> delivered e = []"

section \<open>Invariant\<close>

text \<open>
  The sending side after \<open>p\<close> slices were published and \<open>n\<close> of them sent; the receiving side after \<open>r\<close>
  slices arrived and \<open>d\<close> were taken out.
\<close>

definition snd_inv :: "proxy_fifo \<Rightarrow> byte list list \<Rightarrow> side \<Rightarrow> nat \<Rightarrow> bool" where
  "snd_inv fifo ps s n \<longleftrightarrow> published fifo ps s n \<and> proxy_step s = n * step_increment fifo"

definition rcv_inv :: "proxy_fifo \<Rightarrow> byte list list \<Rightarrow> side \<Rightarrow> nat \<Rightarrow> nat \<Rightarrow> bool" where
  "rcv_inv fifo ps s d r \<longleftrightarrow> arrived fifo ps s d r \<and> proxy_step s = r * step_increment fifo"

lemmas snd_inv_iff = snd_inv_def[unfolded published_def]

lemmas rcv_inv_iff = rcv_inv_def[unfolded arrived_def]

text \<open>The stream holds the slices sent and not received; a failed sender may leave part of the next one.\<close>

definition wire_inv :: "edge \<Rightarrow> nat \<Rightarrow> nat \<Rightarrow> bool" where
  "wire_inv e r n \<longleftrightarrow>
     has_error (errors (rcv_side e)) \<or>
     wire e = concat (map slice_bytes (drop r (take n (sent e)))) \<or>
     (has_error (errors (snd_side e)) \<and> n < length (sent e) \<and>
      (\<exists>k < length (slice_bytes (sent e ! n)).
         wire e = concat (map slice_bytes (drop r (take n (sent e)))) @ take k (slice_bytes (sent e ! n))))"

definition edge_inv :: "proxy_fifo \<Rightarrow> edge \<Rightarrow> bool" where
  "edge_inv fifo e \<longleftrightarrow> fifo_ok fifo \<and> list_all (\<lambda>p. length p \<le> slot_bytes fifo) (sent e) \<and>
     (\<exists>r n. r \<le> n \<and> snd_inv fifo (sent e) (snd_side e) n \<and>
        rcv_inv fifo (sent e) (rcv_side e) (length (delivered e)) r \<and>
        delivered e = take (length (delivered e)) (sent e) \<and> wire_inv e r n)"

lemma snd_inv_publish:
  assumes "fifo_ok fifo" "snd_inv fifo ps s n" "kernel_send fifo p s = Some s'"
  shows "snd_inv fifo (ps @ [p]) s' n \<and> length p \<le> slot_bytes fifo \<and> errors s' = errors s"
proof -
  have "proxy_step s' = proxy_step s \<and> errors s' = errors s" using assms(3) by (auto simp: kernel_send_def Let_def split: if_splits)
  then show ?thesis using published_kernel_send[OF assms(1) _ assms(3)] assms(2) by (auto simp: snd_inv_def)
qed

lemma snd_inv_sent:
  assumes "snd_inv fifo ps s n" "n < length ps"
  shows "snd_inv fifo ps (s\<lparr>head := proxy_step s + step_increment fifo, proxy_step := proxy_step s + step_increment fifo\<rparr>) (Suc n)"
  using assms by (auto simp: snd_inv_iff)

lemma rcv_inv_received:
  assumes "fifo_ok fifo" "rcv_inv fifo ps s d r" "\<not> head s + slot_count fifo < proxy_step s + step_increment fifo" "ps ! r = p"
  shows "rcv_inv fifo ps ((put_slot fifo r p s)\<lparr>tail := proxy_step s + step_increment fifo, proxy_step := proxy_step s + step_increment fifo\<rparr>) d (Suc r)"
proof -
  have room: "Suc r * step_increment fifo \<le> d * step_increment fifo + slot_count fifo"
    using assms(2,3) by (simp add: rcv_inv_iff)
  have "holds_slice fifo ps (put_slot fifo r p s) k" if "d \<le> k" "k < Suc r" for k
    using holds_put_same[of ps r p fifo s] assms(2,4) that
      holds_put_other[OF assms(1) _ window_below[OF assms(1) that(1) room], of ps p s]
    by (cases "k = r") (auto simp: rcv_inv_iff)
  then show ?thesis using assms(2) room by (simp add: rcv_inv_iff)
qed

lemma rcv_inv_taken:
  assumes "fifo_ok fifo" "rcv_inv fifo ps s d r" "kernel_recv fifo s = Some (p, s')" "length (ps ! d) < 2 ^ 32"
  shows "d < r \<and> p = ps ! d \<and> rcv_inv fifo ps s' (Suc d) r \<and> errors s' = errors s"
  using arrived_kernel_recv[OF assms(1) _ assms(3,4)] assms(2) by (auto simp: rcv_inv_def)

lemma rcv_inv_append: "r \<le> length ps \<Longrightarrow> rcv_inv fifo (ps @ qs) s d r = rcv_inv fifo ps s d r"
  by (auto simp: rcv_inv_iff holds_slice_append)

lemma side_flags_inv:
  "snd_inv fifo ps (s\<lparr>errors := er\<rparr>) n = snd_inv fifo ps s n"
  "snd_inv fifo ps (s\<lparr>stop_requested := b\<rparr>) n = snd_inv fifo ps s n"
  "rcv_inv fifo ps (s\<lparr>errors := er\<rparr>) d r = rcv_inv fifo ps s d r"
  "rcv_inv fifo ps (s\<lparr>stop_requested := b\<rparr>) d r = rcv_inv fifo ps s d r"
  by (simp_all add: snd_inv_iff rcv_inv_iff)

lemma record_failure_sets: "has_error (record_failure ident n t e)"
  by (simp add: record_failure_def)

lemma catch_failure_inv [simp]:
  "snd_inv fifo ps (catch_failure ident ex s) n = snd_inv fifo ps s n"
  "rcv_inv fifo ps (catch_failure ident ex s) d r = rcv_inv fifo ps s d r"
  "\<not> stop_requested s \<Longrightarrow> has_error (errors (catch_failure ident ex s))"
  by (simp_all add: catch_failure_def side_flags_inv record_failure_sets)

lemma stop_inv [simp]:
  "snd_inv fifo ps (stop ident s) n = snd_inv fifo ps s n"
  "rcv_inv fifo ps (stop ident s) d r = rcv_inv fifo ps s d r"
  "has_error (errors s) \<Longrightarrow> has_error (errors (stop ident s))"
  by (simp_all add: stop_def side_flags_inv record_failure_sets)

lemma shutdown_inv [simp]:
  "snd_inv fifo ps (shutdown s) n = snd_inv fifo ps s n"
  "rcv_inv fifo ps (shutdown s) d r = rcv_inv fifo ps s d r" "errors (shutdown s) = errors s"
  by (simp_all add: shutdown_def side_flags_inv)

text \<open>The outcomes of one iteration of the send proxy under the invariant.\<close>

lemma send_iteration_cases:
  assumes "fifo_ok fifo" "snd_inv fifo ps s n" "list_all (\<lambda>p. length p \<le> slot_bytes fifo) ps"
    and "send_iteration fifo ident sc s w = (it, s', w')" "it \<noteq> Blocked"
  obtains (idle) "s' = s" "w' = w"
    | (moved) "n < length ps" "snd_inv fifo ps s' (Suc n)" "w' = w @ slice_bytes (ps ! n)" "errors s' = errors s"
        "\<not> has_error (errors s)" "it = Moved"
    | (caught) k where "n < length ps" "snd_inv fifo ps s' n" "has_error (errors s')" "\<not> has_error (errors s)"
        "k < length (slice_bytes (ps ! n))" "w' = w @ take k (slice_bytes (ps ! n))"
proof (cases "stop_requested s \<or> has_error (errors s) \<or> tail s \<le> proxy_step s")
  case True
  then show ?thesis using assms(4) idle by (auto simp: send_iteration_def split: if_splits)
next
  case False
  let ?slot = "n * step_increment fifo mod slot_count fifo"
  have n: "n < length ps" using False assms(2)
    by (metis leI le_eq_less_or_eq mult_le_mono1 snd_inv_iff)
  have h: "holds_slice fifo ps s n" using n assms(2) by (simp add: snd_inv_iff)
  have lp: "length (ps ! n) \<le> slot_bytes fifo" "length (ps ! n) < 2 ^ 32"
    using assms(1,3) n by (auto simp: list_all_length fifo_ok_def intro: le_less_trans)
  have sz: "slot_sizes s ?slot = of_nat (length (ps ! n))" "unat (of_nat (length (ps ! n)) :: 32 word) = length (ps ! n)"
    using h lp(2) by (simp_all add: holds_slice_def Let_def unat_of_nat)
  have dt: "take (length (ps ! n)) (slot_data s ?slot) = ps ! n" using h by (simp add: holds_slice_def Let_def)
  obtain res sc' w1 where sl: "send_slice sc (Some (slot_data s ?slot)) (of_nat (length (ps ! n))) w = (res, sc', w1)"
    by (cases "send_slice sc (Some (slot_data s ?slot)) (of_nat (length (ps ! n))) w")
  have st: "proxy_step s = n * step_increment fifo" using assms(2) by (simp add: snd_inv_iff)
  have it: "send_iteration fifo ident sc s w =
      (case res of Done _ \<Rightarrow> (Moved, s\<lparr>head := proxy_step s + step_increment fifo, proxy_step := proxy_step s + step_increment fifo\<rparr>, w1)
       | Thrown e \<Rightarrow> (Caught, catch_failure ident e s, w1) | Waiting \<Rightarrow> (Blocked, s, w1))"
    using False lp(1) sz sl by (simp add: send_iteration_def Let_def st split: outcome.splits)
  from send_slice_stream[OF sl lp(2)] obtain k where
    k: "w1 = w @ take k (slice_bytes (ps ! n))" "res = Done () \<longrightarrow> w1 = w @ slice_bytes (ps ! n)"
       "res \<noteq> Done () \<longrightarrow> k < length (slice_bytes (ps ! n))" unfolding dt slice_bytes_def by blast
  show ?thesis
  proof (cases res)
    case (Done u)
    then show ?thesis using it assms(4) k(2) moved[OF n] snd_inv_sent[OF assms(2) n] False by simp
  next
    case (Thrown e)
    then show ?thesis using it assms(2,4) k(1,3) caught[OF n] False by simp
  next
    case Waiting
    then show ?thesis using it assms(4,5) by simp
  qed
qed

text \<open>The outcomes of one iteration of the receive proxy.\<close>

lemma recv_iteration_cases:
  assumes "fifo_ok fifo" "rcv_inv fifo ps s d r"
    and "recv_iteration fifo ident sc s w = (it, s', w')" "it \<noteq> Blocked"
  obtains (idle) "s' = s" "w' = w"
    | (moved) p sc' where "recv_slice sc False (slot_bytes fifo) w = (Done p, sc', w')"
        "ps ! r = p \<Longrightarrow> rcv_inv fifo ps s' d (Suc r)" "errors s' = errors s" "\<not> has_error (errors s)"
    | (caught) "rcv_inv fifo ps s' d r" "has_error (errors s')"
proof (cases "stop_requested s \<or> has_error (errors s) \<or> head s + slot_count fifo < proxy_step s + step_increment fifo")
  case True
  then show ?thesis using assms(3) idle by (auto simp: recv_iteration_def split: if_splits)
next
  case False
  obtain res sc' w1 where rs: "recv_slice sc False (slot_bytes fifo) w = (res, sc', w1)"
    by (cases "recv_slice sc False (slot_bytes fifo) w")
  show ?thesis
  proof (cases res)
    case (Done p)
    have s': "s' = (put_slot fifo r p s)\<lparr>tail := proxy_step s + step_increment fifo, proxy_step := proxy_step s + step_increment fifo\<rparr>"
      and w': "w' = w1"
      using assms(2,3) False rs Done by (auto simp: recv_iteration_def put_slot_def rcv_inv_iff Let_def)
    show ?thesis
    proof (rule moved)
      show "recv_slice sc False (slot_bytes fifo) w = (Done p, sc', w')" using rs Done w' by simp
      show "rcv_inv fifo ps s' d (Suc r)" if "ps ! r = p"
        unfolding s' using rcv_inv_received[OF assms(1,2) _ that] False by simp
      show "errors s' = errors s" "\<not> has_error (errors s)" using False by (simp_all add: s')
    qed
  next
    case (Thrown e)
    then show ?thesis using assms(2,3) False rs caught by (auto simp: recv_iteration_def Let_def)
  next
    case Waiting
    then show ?thesis using assms(3,4) False rs by (auto simp: recv_iteration_def Let_def)
  qed
qed

lemma stream_cons:
  "r < n \<Longrightarrow> n \<le> length ps \<Longrightarrow> concat (map slice_bytes (drop r (take n ps))) =
     slice_bytes (ps ! r) @ concat (map slice_bytes (drop (Suc r) (take n ps)))"
  by (simp add: Cons_nth_drop_Suc[symmetric])

lemma stream_snoc:
  "r \<le> n \<Longrightarrow> n < length ps \<Longrightarrow> concat (map slice_bytes (drop r (take (Suc n) ps))) =
     concat (map slice_bytes (drop r (take n ps))) @ slice_bytes (ps ! n)"
  by (simp add: take_Suc_conv_app_nth)

text \<open>A slice read off the stream is the next one.\<close>

lemma wire_inv_read:
  assumes "wire_inv e r n" "\<not> has_error (errors (rcv_side e))" "r \<le> n" "n \<le> length (sent e)"
    and small: "list_all (\<lambda>p. length p < 2 ^ 32) (sent e)"
    and rs: "recv_slice sc False cap (wire e) = (Done p, sc', w')"
  shows "r < n \<and> p = sent e ! r \<and> (\<forall>s. \<not> has_error (errors s) \<longrightarrow> wire_inv (e\<lparr>rcv_side := s, wire := w'\<rparr>) (Suc r) n)"
proof -
  obtain rest where w: "wire e = concat (map slice_bytes (drop r (take n (sent e)))) @ rest"
    and rest: "rest = [] \<or> has_error (errors (snd_side e)) \<and> n < length (sent e) \<and>
      (\<exists>k < length (slice_bytes (sent e ! n)). rest = take k (slice_bytes (sent e ! n)))"
    using assms(1,2) by (auto simp: wire_inv_def)
  have small': "length (sent e ! i) < 2 ^ 32" if "i < length (sent e)" for i
    using small that by (simp add: list_all_length)
  have "r < n"
  proof (rule ccontr)
    assume "\<not> r < n"
    then have "wire e = rest" using w assms(3) by simp
    moreover have "recv_slice sc False cap (take 0 (slice_bytes [])) \<noteq> (Done p, sc', w')"
      by (rule recv_slice_partial) (simp_all add: slice_bytes_def)
    ultimately show False using rest rs recv_slice_partial small' by (auto simp: take_0)
  qed
  then have "r < length (sent e)" using assms(4) by simp
  let ?tl = "concat (map slice_bytes (drop (Suc r) (take n (sent e)))) @ rest"
  have "recv_slice sc False cap (slice_bytes (sent e ! r) @ ?tl) = (Done p, sc', w')"
    using rs unfolding w stream_cons[OF \<open>r < n\<close> assms(4)] append_assoc .
  from recv_slice_done[OF this small'[OF \<open>r < length (sent e)\<close>]] have "p = sent e ! r" "w' = ?tl" by simp_all
  then show ?thesis using \<open>r < n\<close> rest by (auto simp: wire_inv_def)
qed

lemma edge_invI:
  assumes "fifo_ok fifo" "list_all (\<lambda>p. length p \<le> slot_bytes fifo) (sent e)" "r \<le> n"
    "snd_inv fifo (sent e) (snd_side e) n" "rcv_inv fifo (sent e) (rcv_side e) (length (delivered e)) r"
    "delivered e = take (length (delivered e)) (sent e)" "wire_inv e r n"
  shows "edge_inv fifo e"
  unfolding edge_inv_def using assms by blast

lemma edge_init_inv: "edge_init fifo e \<Longrightarrow> edge_inv fifo e"
  by (rule edge_invI[of _ _ 0 0])
     (auto simp: edge_init_def fresh_side_def validate_fifo_def fifo_ok_def snd_inv_iff rcv_inv_iff wire_inv_def split: if_splits)

lemma wire_inv_publish:
  assumes "wire_inv e r n" "n \<le> length (sent e)" "errors s = errors (snd_side e)" "n \<le> length (sent e)"
  shows "wire_inv (e\<lparr>snd_side := s, sent := sent e @ [p]\<rparr>) r n"
  using assms by (auto simp: wire_inv_def nth_append)

lemma edge_step_inv:
  assumes "edge_inv fifo e" "edge_step fifo ident e e'"
  shows "edge_inv fifo e'"
proof -
  from assms(1) obtain r n where I: "fifo_ok fifo" "list_all (\<lambda>p. length p \<le> slot_bytes fifo) (sent e)" "r \<le> n"
      "snd_inv fifo (sent e) (snd_side e) n" "rcv_inv fifo (sent e) (rcv_side e) (length (delivered e)) r"
      "delivered e = take (length (delivered e)) (sent e)" "wire_inv e r n"
    unfolding edge_inv_def by blast
  have n: "n \<le> length (sent e)" using I(4) by (simp add: snd_inv_iff)
  have d: "length (delivered e) \<le> length (sent e)" using I(3,5) n by (simp add: rcv_inv_iff)
  have small: "list_all (\<lambda>p. length p < 2 ^ 32) (sent e)"
    using I(1,2) by (auto simp: list_all_iff fifo_ok_def intro: le_less_trans)
  from assms(2) show ?thesis
  proof cases
    case (k_send p s)
    from snd_inv_publish[OF I(1,4) k_send(2)] I(1-3,5,6) n d wire_inv_publish[OF I(7) n _ n, of s p] show ?thesis
      unfolding k_send(1) by (intro edge_invI[of _ _ r n]) (auto simp: rcv_inv_append)
  next
    case (k_recv p s)
    have "length (delivered e) \<le> r" using I(5) by (simp add: rcv_inv_iff)
    have len: "length (sent e ! length (delivered e)) < 2 ^ 32 \<or> length (delivered e) = length (sent e)"
      using small I(6) by (auto simp: list_all_length) (metis le_neq_implies_less length_take min.cobounded1)
    show ?thesis
    proof (cases "length (delivered e) = length (sent e)")
      case True
      then have "length (delivered e) = r" using I(5) I(3) n by (simp add: rcv_inv_iff)
      then have "kernel_recv fifo (rcv_side e) = None" using I(5) by (simp add: kernel_recv_def rcv_inv_iff)
      then show ?thesis using k_recv(2) by simp
    next
      case False
      with len rcv_inv_taken[OF I(1,5) k_recv(2)] have t: "length (delivered e) < r" "p = sent e ! length (delivered e)"
          "rcv_inv fifo (sent e) s (Suc (length (delivered e))) r" "errors s = errors (rcv_side e)" by auto
      have "delivered e @ [p] = take (Suc (length (delivered e))) (sent e)"
        using I(3,6) n t(1,2) by (metis less_le_trans take_Suc_conv_app_nth)
      then have "delivered e @ [p] = take (length (delivered e @ [p])) (sent e)"
        unfolding length_append_singleton .
      moreover have "wire_inv (e\<lparr>rcv_side := s, delivered := delivered e @ [p]\<rparr>) r n"
        using I(7) t(4) by (simp add: wire_inv_def)
      moreover have "min (length (sent e)) (Suc (length (delivered e))) = Suc (length (delivered e))"
        using t(1) I(3) n by (intro min_absorb2) linarith
      ultimately show ?thesis unfolding k_recv(1) using I(1-4) t(3)
        by (intro edge_invI[of _ _ r n]) simp_all
    qed
  next
    case (p_send sc it s w)
    from I(1,4,2) p_send(2,3) show ?thesis
    proof (cases rule: send_iteration_cases)
      case idle
      then show ?thesis unfolding p_send(1) using I by (intro edge_invI[of _ _ r n]) (simp_all add: wire_inv_def)
    next
      case moved
      then show ?thesis unfolding p_send(1) using I
        by (intro edge_invI[of _ _ r "Suc n"]) (auto simp: wire_inv_def stream_snoc)
    next
      case (caught k)
      then show ?thesis unfolding p_send(1) using I
        by (intro edge_invI[of _ _ r n]) (auto simp: wire_inv_def)
    qed
  next
    case (p_recv sc it s w)
    from I(1,5) p_recv(2,3) show ?thesis
    proof (cases rule: recv_iteration_cases)
      case idle
      then show ?thesis unfolding p_recv(1) using I by (intro edge_invI[of _ _ r n]) (simp_all add: wire_inv_def)
    next
      case (moved p sc')
      from wire_inv_read[OF I(7) moved(4) I(3) n small moved(1)] moved have
        "r < n" "p = sent e ! r" "wire_inv (e\<lparr>rcv_side := s, wire := w\<rparr>) (Suc r) n" by auto
      then show ?thesis unfolding p_recv(1) using I moved(2)
        by (intro edge_invI[of _ _ "Suc r" n]) auto
    next
      case caught
      then show ?thesis unfolding p_recv(1) using I
        by (intro edge_invI[of _ _ r n]) (simp_all add: wire_inv_def)
    qed
  next
    case s_stop
    then show ?thesis using I by (intro edge_invI[of _ _ r n]) (auto simp: wire_inv_def)
  next
    case r_stop
    then show ?thesis using I by (intro edge_invI[of _ _ r n]) (auto simp: wire_inv_def)
  next
    case s_shutdown
    then show ?thesis using I by (intro edge_invI[of _ _ r n]) (auto simp: wire_inv_def)
  next
    case r_shutdown
    then show ?thesis using I by (intro edge_invI[of _ _ r n]) (auto simp: wire_inv_def)
  qed
qed

section \<open>Progress\<close>

definition healthy_side :: "side \<Rightarrow> bool" where
  "healthy_side s \<longleftrightarrow> \<not> stop_requested s \<and> \<not> has_error (errors s)"

definition edge_healthy :: "edge \<Rightarrow> bool" where
  "edge_healthy e \<longleftrightarrow> healthy_side (snd_side e) \<and> healthy_side (rcv_side e)"

definition edge_work :: "edge \<Rightarrow> nat" where
  "edge_work e = 3 * (tail (snd_side e) - head (snd_side e)) + 2 * (head (snd_side e) - tail (rcv_side e)) +
     (tail (rcv_side e) - head (rcv_side e))"

lemma send_iteration_moves:
  assumes "fifo_ok fifo" "snd_inv fifo ps s n" "list_all (\<lambda>p. length p \<le> slot_bytes fifo) ps" "healthy_side s" "n < length ps"
  shows "\<exists>sc s' w'. send_iteration fifo ident sc s w = (Moved, s', w') \<and> healthy_side s' \<and>
     head s' = head s + step_increment fifo \<and> tail s' = tail s"
proof -
  let ?slot = "n * step_increment fifo mod slot_count fifo"
  obtain sc where "fst (send_slice sc (Some (slot_data s ?slot)) (slot_sizes s ?slot) w) = Done ()"
    using send_slice_once by blast
  then obtain sc' w' where sl: "send_slice sc (Some (slot_data s ?slot)) (slot_sizes s ?slot) w = (Done (), sc', w')"
    by (cases "send_slice sc (Some (slot_data s ?slot)) (slot_sizes s ?slot) w") auto
  have "unat (slot_sizes s ?slot) \<le> slot_bytes fifo"
    using assms unat_of_nat[of "length (ps ! n)", where ?'a = 32]
    by (auto simp: snd_inv_iff holds_slice_def Let_def list_all_length fifo_ok_def intro: order_trans mod_less_eq_dividend)
  moreover have "proxy_step s = n * step_increment fifo" "head s = n * step_increment fifo" "\<not> tail s \<le> proxy_step s"
    using assms(1,2,5) by (auto simp: snd_inv_iff fifo_ok_def)
  ultimately show ?thesis using sl assms(4)
    by (intro exI[of _ sc]) (simp add: send_iteration_def healthy_side_def Let_def)
qed

lemma recv_iteration_moves:
  assumes "fifo_ok fifo" "rcv_inv fifo ps s r r" "healthy_side s" "length p \<le> slot_bytes fifo" "w = slice_bytes p @ rest"
  shows "\<exists>sc s' w'. recv_iteration fifo ident sc s w = (Moved, s', w') \<and> healthy_side s' \<and>
     head s' = head s \<and> tail s' = tail s + step_increment fifo"
proof -
  have len: "length p < 2 ^ 32" using assms(1,4) by (simp add: fifo_ok_def)
  let ?sc = "replicate (length p + 4) (Took 1)"
  have "moves (replicate m (Took 1)) = m" "flows (replicate m (Took 1))" for m by (induction m) simp_all
  then obtain sc' where "recv_slice ?sc False (slot_bytes fifo) w = (Done p, sc', rest)"
    using recv_slice_flows[of ?sc p "slot_bytes fifo" rest] len assms(4,5) by auto
  moreover have "\<not> head s + slot_count fifo < proxy_step s + step_increment fifo" "proxy_step s = tail s"
    using assms(1,2) by (auto simp: rcv_inv_iff fifo_ok_def)
  ultimately show ?thesis using assms(3)
    by (intro exI[of _ ?sc]) (simp add: recv_iteration_def healthy_side_def Let_def)
qed

lemma edge_progress:
  assumes "edge_inv fifo e" "edge_healthy e" "delivered e \<noteq> sent e"
  shows "\<exists>e'. edge_step fifo ident e e' \<and> edge_healthy e' \<and> sent e' = sent e \<and> edge_work e' < edge_work e"
proof -
  let ?i = "step_increment fifo" and ?d = "length (delivered e)"
  from assms(1) obtain r n where I: "fifo_ok fifo" "list_all (\<lambda>p. length p \<le> slot_bytes fifo) (sent e)" "r \<le> n"
      "snd_inv fifo (sent e) (snd_side e) n" "rcv_inv fifo (sent e) (rcv_side e) ?d r"
      "delivered e = take ?d (sent e)" "wire_inv e r n"
    unfolding edge_inv_def by blast
  have n: "n \<le> length (sent e)" "?d \<le> r" using I(4,5) by (simp_all add: snd_inv_iff rcv_inv_iff)
  have i: "0 < ?i" using I(1) by (simp add: fifo_ok_def)
  have c: "tail (snd_side e) = length (sent e) * ?i" "head (snd_side e) = n * ?i"
      "tail (rcv_side e) = r * ?i" "head (rcv_side e) = ?d * ?i" using I(4,5) by (simp_all add: snd_inv_iff rcv_inv_iff)
  have d: "?d < length (sent e)" using assms(3) I(6) n I(3) by (metis le_trans linorder_not_le take_all)
  have mono: "a \<le> b \<Longrightarrow> a * ?i \<le> b * ?i" "a < b \<Longrightarrow> a * ?i + ?i \<le> b * ?i" for a b
    using mult_le_mono1[of "Suc a" b ?i] by (auto intro: mult_le_mono1)
  consider (take) "?d < r" | (recv) "?d = r" "r < n" | (send) "?d = r" "r = n" "n < length (sent e)"
    using n d I(3) by linarith
  then show ?thesis
  proof cases
    case take
    then have "head (rcv_side e) < tail (rcv_side e)" using c i by simp
    then obtain p s where k: "kernel_recv fifo (rcv_side e) = Some (p, s)" "s = (rcv_side e)\<lparr>head := head (rcv_side e) + ?i\<rparr>"
      by (auto simp: kernel_recv_def Let_def)
    show ?thesis
      by (rule exI, rule conjI, rule edge_step.k_recv[OF k(1)])
         (use assms(2) k(2) mono(2)[OF take] i c in \<open>auto simp: edge_healthy_def healthy_side_def edge_work_def\<close>)
  next
    case recv
    have "\<not> has_error (errors (rcv_side e))" "\<not> has_error (errors (snd_side e))"
      using assms(2) by (simp_all add: edge_healthy_def healthy_side_def)
    then have "wire e = slice_bytes (sent e ! r) @ concat (map slice_bytes (drop (Suc r) (take n (sent e))))"
      using I(7) stream_cons[OF recv(2) n(1)] by (simp add: wire_inv_def)
    moreover have "length (sent e ! r) \<le> slot_bytes fifo" using I(2) recv(2) n(1) by (simp add: list_all_length)
    ultimately obtain sc s w where k: "recv_iteration fifo ident sc (rcv_side e) (wire e) = (Moved, s, w)" "healthy_side s"
        "head s = head (rcv_side e)" "tail s = tail (rcv_side e) + ?i"
      using recv_iteration_moves[OF I(1), of "sent e" "rcv_side e" r] I(5) recv(1) assms(2) by (metis edge_healthy_def)
    show ?thesis
      by (rule exI, rule conjI, rule edge_step.p_recv[OF k(1)])
         (use assms(2) k mono(2)[OF recv(2)] recv(1) i c in \<open>auto simp: edge_healthy_def edge_work_def\<close>)
  next
    case send
    obtain sc s w where k: "send_iteration fifo ident sc (snd_side e) (wire e) = (Moved, s, w)" "healthy_side s"
        "head s = head (snd_side e) + ?i" "tail s = tail (snd_side e)"
      using send_iteration_moves[OF I(1,4,2) _ send(3)] assms(2) unfolding edge_healthy_def by blast
    show ?thesis
      by (rule exI, rule conjI, rule edge_step.p_send[OF k(1)])
         (use assms(2) k mono(2)[OF send(3)] send(1,2) i c in \<open>auto simp: edge_healthy_def edge_work_def\<close>)
  qed
qed

interpretation socket_edge: reliable_edge "edge_init fifo" "edge_step fifo ident" "edge_inv fifo" sent delivered edge_healthy edge_work
  for fifo ident
proof unfold_locales
  show "prefix (delivered s) (sent s)" if "edge_inv fifo s" for s
    using that unfolding edge_inv_def by (metis take_is_prefix)
qed (blast intro: edge_init_inv edge_step_inv edge_progress)+

section \<open>Properties\<close>

text \<open>C8: A socket edge delivers in order and exactly once. In every state reachable from a fresh edge,
  under any interleaving of kernels, proxies, stops and failures and any fragmentation of the byte
  stream, what the receiving kernel took out is a prefix of what the sending kernel put in.\<close>

theorem socket_edge_in_order:
  assumes "edge_init fifo e0" "(edge_step fifo ident)\<^sup>*\<^sup>* e0 e"
  shows "prefix (delivered e) (sent e)"
  using assms by (rule socket_edge.in_order)

text \<open>C9: A socket edge can always drain: from every reachable state in which neither side failed or was
  stopped, a sequence of proxy iterations and kernel receives delivers every slice that was sent.\<close>

theorem socket_edge_drains:
  assumes "edge_init fifo e0" "(edge_step fifo ident)\<^sup>*\<^sup>* e0 e" "edge_healthy e"
  shows "\<exists>e'. (edge_step fifo ident)\<^sup>*\<^sup>* e e' \<and> edge_healthy e' \<and> sent e' = sent e \<and> delivered e' = sent e"
  using assms by (rule socket_edge.drains)

text \<open>The FIFOs never overflow: in every reachable state both proxies are within one FIFO length of
  their kernel, and every slice published and not yet sent is still intact in its slot.\<close>

theorem socket_fifo_bounds:
  assumes "edge_init fifo e0" "(edge_step fifo ident)\<^sup>*\<^sup>* e0 e"
  shows "head (snd_side e) \<le> tail (snd_side e) \<and> tail (snd_side e) \<le> head (snd_side e) + slot_count fifo \<and>
         head (rcv_side e) \<le> tail (rcv_side e) \<and> tail (rcv_side e) \<le> head (rcv_side e) + slot_count fifo \<and>
         tail (rcv_side e) \<le> head (snd_side e) \<and>
         tail (snd_side e) = length (sent e) * step_increment fifo \<and>
         head (rcv_side e) = length (delivered e) * step_increment fifo"
proof -
  have "edge_inv fifo e" using socket_edge.reachable_inv[OF assms(2)] edge_init_inv[OF assms(1)] .
  then obtain r n where "r \<le> n" "snd_inv fifo (sent e) (snd_side e) n"
      "rcv_inv fifo (sent e) (rcv_side e) (length (delivered e)) r" unfolding edge_inv_def by blast
  then show ?thesis by (auto simp: snd_inv_iff rcv_inv_iff intro: mult_le_mono1)
qed

text \<open>The first failure wins. Whatever is reported to the shared failure state afterwards, its message
  stays the one of the first report, and a device abort word, once raised, stays raised.\<close>

theorem first_failure_wins:
  "fold (\<lambda>(i, n, t). record_failure i n t) later (record_failure ident step reason e) =
     record_failure ident step reason e \<and>
   (\<not> has_error e \<longrightarrow>
     message (record_failure ident step reason e) = format_failure ident step reason \<and>
     (device_abort e \<noteq> None \<longrightarrow> device_abort (record_failure ident step reason e) = Some True))"
proof -
  have "has_error e' \<Longrightarrow> fold (\<lambda>(i, n, t). record_failure i n t) later e' = e'" for e'
    by (induction later arbitrary: e') (auto simp: record_failure_def)
  then show ?thesis using record_failure_sets by (auto simp: record_failure_def)
qed

theorem first_failure_wins_witness:
  "message (record_failure \<lparr>source_rank = 0, destination_rank = 1, proxy_channel = 0\<rparr> 2 ''peer''
      \<lparr>has_error = False, message = [], device_abort = Some False\<rparr>) = ''socket proxy source=0 destination=1 channel=0 step=2: peer''"
proof -
  have "format_failure \<lparr>source_rank = 0, destination_rank = 1, proxy_channel = 0\<rparr> 2 ''peer'' =
      ''socket proxy source=0 destination=1 channel=0 step=2: peer''" by code_simp
  then show ?thesis
    using first_failure_wins[of "[]" "\<lparr>source_rank = 0, destination_rank = 1, proxy_channel = 0\<rparr>" 2 "''peer''"
        "\<lparr>has_error = False, message = [], device_abort = Some False\<rparr>"] by simp
qed

text \<open>The source leaves its loop through the handler; an iteration after the handler would find the guard false.\<close>

lemma failed_proxy_is_over:
  "send_iteration fifo ident sc (catch_failure ident ex s) w = (Loop_exit, catch_failure ident ex s, w)"
  "recv_iteration fifo ident sc (catch_failure ident ex s) w = (Loop_exit, catch_failure ident ex s, w)"
  by (auto simp: send_iteration_def recv_iteration_def catch_failure_def record_failure_sets)

definition demo_fifo :: proxy_fifo where
  "demo_fifo = \<lparr>fifo_data_null = False, fifo_sizes_null = False, slot_bytes = 4, slot_count = 8, step_increment = 2\<rparr>"

definition demo_side :: side where
  "demo_side = \<lparr>slot_data = \<lambda>_. [0, 0, 0, 0], slot_sizes = \<lambda>_. 0, head = 0, tail = 0, proxy_step = 0,
     stop_requested = False, errors = \<lparr>has_error = False, message = [], device_abort = Some False\<rparr>\<rparr>"

definition demo_edge :: edge where
  "demo_edge = \<lparr>snd_side = demo_side, wire = [], rcv_side = demo_side, sent = [], delivered = []\<rparr>"

definition demo_ident :: proxy_identity where
  "demo_ident = \<lparr>source_rank = 0, destination_rank = 1, proxy_channel = 0\<rparr>"

lemma demo_edge_init: "edge_init demo_fifo demo_edge"
  by (simp add: edge_init_def fresh_side_def validate_fifo_def demo_fifo_def demo_side_def demo_edge_def)

text \<open>A run of the demonstration edge: the sending kernel publishes one slice.\<close>

definition demo_sent_edge :: edge where
  "demo_sent_edge = demo_edge\<lparr>snd_side := the (kernel_send demo_fifo [7, 8] demo_side), sent := [[7, 8]]\<rparr>"

lemma demo_run: "(edge_step demo_fifo demo_ident)\<^sup>*\<^sup>* demo_edge demo_sent_edge"
proof -
  have k: "kernel_send demo_fifo [7, 8] (snd_side demo_edge) = Some (the (kernel_send demo_fifo [7, 8] demo_side))"
    by (simp add: kernel_send_def demo_fifo_def demo_side_def demo_edge_def)
  from edge_step.k_send[OF k, of demo_ident] show ?thesis
    by (intro r_into_rtranclp) (simp add: demo_sent_edge_def demo_edge_def)
qed

lemma demo_sent_healthy: "edge_healthy demo_sent_edge"
  by (simp add: edge_healthy_def healthy_side_def demo_sent_edge_def demo_edge_def kernel_send_def demo_side_def demo_fifo_def)

theorem socket_edge_in_order_witness: "prefix (delivered demo_sent_edge) (sent demo_sent_edge)"
  by (rule socket_edge_in_order[OF demo_edge_init demo_run])

theorem socket_edge_drains_witness:
  "\<exists>e'. (edge_step demo_fifo demo_ident)\<^sup>*\<^sup>* demo_sent_edge e' \<and> delivered e' = [[7, 8]]"
  using socket_edge_drains[OF demo_edge_init demo_run demo_sent_healthy] by (auto simp: demo_sent_edge_def)

theorem socket_fifo_bounds_witness: "tail (snd_side demo_sent_edge) = 2"
  using socket_fifo_bounds[OF demo_edge_init demo_run] by (simp add: demo_sent_edge_def demo_fifo_def)

end
