(* ===== verification/Comp_Logic.thy ===== *)
theory Comp_Logic
  imports Nano_Prelude
begin

text \<open>
  Operations of a stateful C++ object that may throw: a function of the object that returns a result or
  an exception with the new object, the combinators the translation uses, and a small Hoare logic with
  one postcondition for the return and one for the exception.
\<close>

section \<open>State and exceptions\<close>

type_synonym ('s, 'a) comp = "'s \<Rightarrow> 'a result \<times> 's"

definition ret :: "'a \<Rightarrow> ('s, 'a) comp" where
  "ret a s = (Inr a, s)"

definition raise :: "exn \<Rightarrow> ('s, 'a) comp" where
  "raise e s = (Inl e, s)"

definition andthen :: "('s, 'a) comp \<Rightarrow> ('a \<Rightarrow> ('s, 'b) comp) \<Rightarrow> ('s, 'b) comp" where
  "andthen m f s = (case m s of (Inl e, s') \<Rightarrow> (Inl e, s') | (Inr a, s') \<Rightarrow> f a s')"

definition andalso :: "('s, unit) comp \<Rightarrow> ('s, 'b) comp \<Rightarrow> ('s, 'b) comp" where
  "andalso m n = andthen m (\<lambda>_. n)"

definition change :: "('s \<Rightarrow> 's) \<Rightarrow> ('s, unit) comp" where
  "change f s = (Inr (), f s)"

definition with_state :: "('s \<Rightarrow> ('s, 'a) comp) \<Rightarrow> ('s, 'a) comp" where
  "with_state f s = f s s"

definition run_if :: "bool \<Rightarrow> ('s, unit) comp \<Rightarrow> ('s, unit) comp" where
  "run_if b m = (if b then m else ret ())"

fun for_each :: "'x list \<Rightarrow> ('x \<Rightarrow> ('s, unit) comp) \<Rightarrow> ('s, unit) comp" where
  "for_each [] f = ret ()"
| "for_each (x # xs) f = andalso (f x) (for_each xs f)"

definition lift :: "'a result \<Rightarrow> ('s, 'a) comp" where
  "lift r s = (r, s)"

text \<open>\<open>try { m } catch (...) { h; throw; }\<close>\<close>

definition on_exception :: "('s, 'a) comp \<Rightarrow> ('s \<Rightarrow> 's) \<Rightarrow> ('s, 'a) comp" where
  "on_exception m h s = (case m s of (Inl e, s') \<Rightarrow> (Inl e, h s') | (Inr a, s') \<Rightarrow> (Inr a, s'))"

text \<open>A block with a local whose destructor runs \<open>d\<close> on every exit; an exception of \<open>d\<close> wins.\<close>

definition with_cleanup :: "('s, 'a) comp \<Rightarrow> ('s, unit) comp \<Rightarrow> ('s, 'a) comp" where
  "with_cleanup m d s =
     (case m s of (r, s') \<Rightarrow> (case d s' of (Inl e, s'') \<Rightarrow> (Inl e, s'') | (Inr _, s'') \<Rightarrow> (r, s'')))"

section \<open>Hoare triples\<close>

text \<open>\<open>triple P m Q E\<close>: from a state with \<open>P\<close>, \<open>m\<close> returns a value and state with \<open>Q\<close> or throws in a state with \<open>E\<close>.\<close>

definition triple :: "('s \<Rightarrow> bool) \<Rightarrow> ('s, 'a) comp \<Rightarrow> ('a \<Rightarrow> 's \<Rightarrow> bool) \<Rightarrow> ('s \<Rightarrow> bool) \<Rightarrow> bool" where
  "triple P m Q E \<longleftrightarrow> (\<forall>s. P s \<longrightarrow> (case m s of (Inr a, s') \<Rightarrow> Q a s' | (Inl e, s') \<Rightarrow> E s'))"

lemma triple_ret: "(\<And>s. P s \<Longrightarrow> Q a s) \<Longrightarrow> triple P (ret a) Q E"
  by (simp add: triple_def ret_def)

lemma triple_raise: "(\<And>s. P s \<Longrightarrow> E s) \<Longrightarrow> triple P (raise e) Q E"
  by (simp add: triple_def raise_def)

lemma triple_andthen: "triple P m R E \<Longrightarrow> (\<And>a. triple (R a) (f a) Q E) \<Longrightarrow> triple P (andthen m f) Q E"
  by (fastforce simp: triple_def andthen_def split: prod.splits sum.splits)

lemma triple_andalso: "triple P m (\<lambda>_. R) E \<Longrightarrow> triple R n Q E \<Longrightarrow> triple P (andalso m n) Q E"
  unfolding andalso_def by (rule triple_andthen)

lemma triple_change: "(\<And>s. P s \<Longrightarrow> Q () (f s)) \<Longrightarrow> triple P (change f) Q E"
  by (simp add: triple_def change_def)

lemma triple_with_state: "(\<And>s0. triple (\<lambda>s. P s \<and> s = s0) (f s0) Q E) \<Longrightarrow> triple P (with_state f) Q E"
  by (simp add: triple_def with_state_def)

lemma triple_run_if: "(b \<Longrightarrow> triple P m Q E) \<Longrightarrow> (\<not> b \<Longrightarrow> triple P (ret ()) Q E) \<Longrightarrow> triple P (run_if b m) Q E"
  by (simp add: run_if_def)

lemma triple_lift: "(\<And>s a. P s \<Longrightarrow> r = Inr a \<Longrightarrow> Q a s) \<Longrightarrow> (\<And>s. P s \<Longrightarrow> E s) \<Longrightarrow> triple P (lift r) Q E"
  by (auto simp: triple_def lift_def split: sum.splits)

lemma triple_if: "(b \<Longrightarrow> triple P m Q E) \<Longrightarrow> (\<not> b \<Longrightarrow> triple P n Q E) \<Longrightarrow> triple P (if b then m else n) Q E"
  by simp

lemma triple_weaken:
  "triple P' m Q' E' \<Longrightarrow> (\<And>s. P s \<Longrightarrow> P' s) \<Longrightarrow> (\<And>a s. Q' a s \<Longrightarrow> Q a s) \<Longrightarrow> (\<And>s. E' s \<Longrightarrow> E s) \<Longrightarrow> triple P m Q E"
  by (fastforce simp: triple_def split: prod.splits sum.splits)

lemma triple_for_each:
  "(\<And>x. x \<in> set xs \<Longrightarrow> triple I (f x) (\<lambda>_. I) E) \<Longrightarrow> triple I (for_each xs f) (\<lambda>_. I) E"
  by (induction xs) (auto intro: triple_ret triple_andalso)

text \<open>A loop that establishes \<open>R x\<close> for every element, later iterations keeping it.\<close>

lemma triple_for_each_collect:
  assumes "\<And>x. x \<in> set xs \<Longrightarrow> triple I (f x) (\<lambda>_ s. I s \<and> R x s) E"
    and "\<And>x y. x \<in> set xs \<Longrightarrow> triple (\<lambda>s. I s \<and> R y s) (f x) (\<lambda>_ s. R y s) (\<lambda>_. True)"
  shows "triple I (for_each xs f) (\<lambda>_ s. I s \<and> (\<forall>x\<in>set xs. R x s)) E"
  using assms
proof (induction xs)
  case (Cons x xs)
  have keep: "triple (\<lambda>s. I s \<and> R y s) (for_each xs f) (\<lambda>_ s. I s \<and> R y s) (\<lambda>_. True)" for y
  proof (rule triple_for_each)
    fix z assume "z \<in> set xs"
    then have "triple I (f z) (\<lambda>_. I) E" "triple (\<lambda>s. I s \<and> R y s) (f z) (\<lambda>_ s. R y s) (\<lambda>_. True)"
      using Cons.prems by (auto intro: triple_weaken)
    then show "triple (\<lambda>s. I s \<and> R y s) (f z) (\<lambda>_ s. I s \<and> R y s) (\<lambda>_. True)"
      by (fastforce simp: triple_def split: prod.splits sum.splits)
  qed
  have "triple I (for_each xs f) (\<lambda>_ s. I s \<and> (\<forall>y\<in>set xs. R y s)) E"
    using Cons.IH Cons.prems by simp
  with keep[of x] have "triple (\<lambda>s. I s \<and> R x s) (for_each xs f) (\<lambda>_ s. I s \<and> (\<forall>y\<in>set (x # xs). R y s)) E"
    by (fastforce simp: triple_def split: prod.splits sum.splits)
  moreover have "triple I (f x) (\<lambda>_ s. I s \<and> R x s) E" using Cons.prems by simp
  ultimately show ?case by (auto intro: triple_andalso)
qed (simp add: triple_ret)

text \<open>A loop whose invariant talks about the elements still to come.\<close>

lemma triple_for_each_list:
  "(\<And>x xs. triple (I (x # xs)) (f x) (\<lambda>_. I xs) E) \<Longrightarrow> triple (I xs) (for_each xs f) (\<lambda>_. I []) E"
  by (induction xs) (auto intro: triple_ret triple_andalso)

lemma triple_on_exception:
  "triple P m Q E' \<Longrightarrow> (\<And>s. E' s \<Longrightarrow> E (h s)) \<Longrightarrow> triple P (on_exception m h) Q E"
  by (fastforce simp: triple_def on_exception_def split: prod.splits sum.splits)

lemma triple_conj:
  "triple P m Q E \<Longrightarrow> triple P' m Q' E' \<Longrightarrow> triple (\<lambda>s. P s \<and> P' s) m (\<lambda>a s. Q a s \<and> Q' a s) (\<lambda>s. E s \<and> E' s)"
  by (fastforce simp: triple_def split: prod.splits sum.splits)

lemma triple_true: "triple P m (\<lambda>_ _. True) (\<lambda>_. True)"
  by (auto simp: triple_def split: prod.splits sum.splits)

lemma triple_exit: "triple (\<lambda>_. False) m Q E"
  by (simp add: triple_def)

lemma triple_run:
  "triple P m Q E \<Longrightarrow> P s \<Longrightarrow> m s = (r, s') \<Longrightarrow> (case r of Inr a \<Rightarrow> Q a s' | Inl e \<Rightarrow> E s')"
  by (fastforce simp: triple_def split: sum.splits)

text \<open>An operation that never touches what \<open>I\<close> talks about.\<close>

definition preserves :: "('s \<Rightarrow> bool) \<Rightarrow> ('s, 'a) comp \<Rightarrow> bool" where
  "preserves I m \<longleftrightarrow> triple I m (\<lambda>_. I) I"

named_theorems preserving \<open>rules that push an invariant through an operation\<close>

lemma preserves_ret [preserving]: "preserves I (ret a)"
  and preserves_raise [preserving]: "preserves I (raise e)"
  by (simp_all add: preserves_def triple_ret triple_raise)

lemma preserves_andthen [preserving]: "preserves I m \<Longrightarrow> (\<And>a. preserves I (f a)) \<Longrightarrow> preserves I (andthen m f)"
  unfolding preserves_def by (rule triple_andthen)

lemma preserves_andalso [preserving]: "preserves I m \<Longrightarrow> preserves I n \<Longrightarrow> preserves I (andalso m n)"
  unfolding preserves_def by (rule triple_andalso)

lemma preserves_with_state [preserving]: "(\<And>s. preserves I (f s)) \<Longrightarrow> preserves I (with_state f)"
  unfolding preserves_def triple_def with_state_def by simp

lemma preserves_run_if [preserving]: "preserves I m \<Longrightarrow> preserves I (run_if b m)"
  by (simp add: run_if_def preserves_ret)

lemma preserves_lift [preserving]: "preserves I (lift r)"
  unfolding preserves_def by (rule triple_lift)

lemma preserves_if [preserving]: "preserves I m \<Longrightarrow> preserves I n \<Longrightarrow> preserves I (if b then m else n)"
  by simp

lemma preserves_let [preserving]: "(\<And>x. preserves I (f x)) \<Longrightarrow> preserves I (Let v f)"
  by simp

lemma preserves_for_each [preserving]: "(\<And>x. preserves I (f x)) \<Longrightarrow> preserves I (for_each xs f)"
  unfolding preserves_def by (rule triple_for_each)

lemma preserves_on_exception [preserving]:
  "preserves I m \<Longrightarrow> (\<And>s. I s \<Longrightarrow> I (h s)) \<Longrightarrow> preserves I (on_exception m h)"
  unfolding preserves_def by (rule triple_on_exception)

lemma preserves_iff: "preserves I m \<longleftrightarrow> (\<forall>s. I s \<longrightarrow> I (snd (m s)))"
  unfolding preserves_def triple_def by (simp add: split_beta sum.case_eq_if)

lemma preserves_with_cleanup [preserving]: "preserves I m \<Longrightarrow> preserves I d \<Longrightarrow> preserves I (with_cleanup m d)"
  unfolding preserves_iff with_cleanup_def by (simp add: split_beta split: sum.split)

lemma preserves_case_prod [preserving]: "(\<And>a b. preserves I (f a b)) \<Longrightarrow> preserves I (case p of (a, b) \<Rightarrow> f a b)"
  by (cases p) simp

lemma preserves_change: "(\<And>s. I s \<Longrightarrow> I (f s)) \<Longrightarrow> preserves I (change f)"
  unfolding preserves_def by (rule triple_change)

lemma preserves_run: "preserves I m \<Longrightarrow> I s \<Longrightarrow> I (snd (m s))"
  by (cases "m s"; cases "fst (m s)") (fastforce simp: preserves_def triple_def)+

end
