(* ===== verification/Communicator.thy ===== *)
theory Communicator
  imports C_Api Topology Socket_Proxy Geometry Comp_Logic
begin

text \<open>
  The communicator object: \<open>collective/all_reduce/communicator.cu\<close> (construction, argument validation,
  growth of the FIFOs, kernel launch, completion tracking, destruction).

  The CUDA runtime is a parameter: \<open>cu_status\<close> answers a call given everything called before. Every
  call and its answer is appended to the communicator's log (latest first), so that statements about
  the order of GPU work are statements about the log. An operation is a function of the communicator
  that returns a result or an exception with the new communicator; an exception keeps the changes
  made so far, as in the C++ code.
\<close>

section \<open>State\<close>

datatype endpoint = Ep_socket nat nat | Ep_rdma nat nat | Ep_ipc nat | Ep_p2p nat nat | Ep_shm nat nat | Ep_null

datatype abort_word = No_abort | Socket_abort | Rdma_abort

datatype kernel = K_all_reduce RedOp | K_reduce_scatter RedOp | K_all_gather

record kernel_args =
  k_rank :: int
  k_count :: "64 word"
  k_slot_elems :: nat
  k_step_elems :: nat
  k_input :: "64 word"
  k_output :: "64 word"
  k_send :: "nat \<Rightarrow> endpoint"
  k_recv :: "nat \<Rightarrow> endpoint"
  k_abort :: abort_word
  k_p2p_base :: bool

datatype cuda_call =
    Set_device int | Last_error
  | Event_create nat | Event_query nat | Event_record nat "64 word" | Event_sync nat | Event_destroy nat
  | Stream_wait "64 word" nat | Stream_sync "64 word"
  | Alloc_shm nat nat nat | Alloc_p2p nat | Alloc_p2p_steps | Reset_p2p_steps "64 word"
  | Reset_create nat | Reset_record nat "64 word" | Reset_wait "64 word" nat | Reset_destroy nat
  | Launch nat DType kernel "64 word" kernel_args

datatype cuda_status = Cuda_ok | Cuda_not_ready | Cuda_error string

type_synonym cuda_log = "(cuda_call \<times> cuda_status) list"

record cuda =
  cu_status :: "cuda_log \<Rightarrow> cuda_call \<Rightarrow> cuda_status"
  cu_device_count :: "string + int"
  cu_major :: "int \<Rightarrow> string + int"

record fifo_resources =
  slot_elems :: nat
  shm_fifo :: "(nat \<times> nat) list"
  p2p_fifo :: bool

text \<open>A data member \<open>x_\<close> of the class is the field \<open>m_x\<close>.\<close>

record comm =
  m_devices :: "int list"
  m_topology :: process_topology
  m_transport_plan :: plan
  ipc_send :: "nat \<Rightarrow> bool"
  ipc_recv :: "nat \<Rightarrow> bool"
  m_socket_send_resources :: "(nat \<times> nat) list"
  m_socket_recv_resources :: "(nat \<times> nat) list"
  m_socket_send_proxies :: "(nat \<times> nat) list"
  m_socket_recv_proxies :: "(nat \<times> nat) list"
  m_rdma_fds :: "socket_hello list"
  m_rdma_resources :: bool
  m_rdma_send_proxies :: "(nat \<times> nat) list"
  m_rdma_recv_proxies :: "(nat \<times> nat) list"
  m_rdma_shared_progress :: bool
  m_socket_errors :: "async_error option"
  m_rdma_errors :: "async_error option"
  m_rdma_gdr_enabled :: bool
  m_fifo :: "DType \<Rightarrow> fifo_resources"
  m_p2p_steps :: bool
  m_completion_events :: "nat \<Rightarrow> bool"
  m_completion_recorded :: "nat \<Rightarrow> bool"
  m_fallback_streams :: "nat \<Rightarrow> 64 word"
  m_fallback_in_flight :: "nat \<Rightarrow> bool"
  m_bf16_devices_validated :: bool
  m_control_initialized :: bool
  m_has_launch :: bool
  m_has_untracked_launch :: bool
  log :: cuda_log

definition cuda_text :: "cuda_status \<Rightarrow> string" where
  "cuda_text s = (case s of Cuda_error t \<Rightarrow> t | Cuda_not_ready \<Rightarrow> ''device not ready'' | Cuda_ok \<Rightarrow> ''no error'')"

definition call_cuda :: "cuda \<Rightarrow> cuda_call \<Rightarrow> (comm, cuda_status) comp" where
  "call_cuda cu c st = (let s = cu_status cu (log st) c in (Inr s, st\<lparr>log := (c, s) # log st\<rparr>))"

definition throw_status :: "cuda_status \<Rightarrow> (comm, unit) comp" where
  "throw_status s = (if s = Cuda_ok then ret () else raise (Runtime_error (''CUDA error: '' @ cuda_text s)))"

text \<open>\<open>CUDA_CHECK_THROW\<close>\<close>

definition cuda_check :: "cuda \<Rightarrow> cuda_call \<Rightarrow> (comm, unit) comp" where
  "cuda_check cu c = andthen (call_cuda cu c) throw_status"

definition local_rank_count :: "comm \<Rightarrow> nat" where
  "local_rank_count st = length (m_devices st)"

definition dev :: "comm \<Rightarrow> nat \<Rightarrow> int" where
  "dev st rank = m_devices st ! rank"

section \<open>Argument validation\<close>

record coll_args =
  send_buffer :: "64 word"
  recv_buffer :: "64 word"
  stream :: "64 word"
  elem_count :: "64 word"
  dtype :: DType
  redop :: RedOp

definition dtype_bytes :: "DType \<Rightarrow> 64 word" where
  "dtype_bytes d = (case d of Float \<Rightarrow> 4 | Float16 \<Rightarrow> 2 | BFloat16 \<Rightarrow> 2)"

definition checked_product :: "64 word \<Rightarrow> 64 word \<Rightarrow> string \<Rightarrow> 64 word result" where
  "checked_product lhs rhs text = (if lhs > - 1 div rhs then Inl (Runtime_error text) else Inr (lhs * rhs))"

definition address_range :: "64 word \<Rightarrow> 64 word \<Rightarrow> (64 word \<times> 64 word) result" where
  "address_range pointer bytes =
     (if bytes > - 1 - pointer then Inl (Runtime_error ''collective buffer address range overflows'')
      else Inr (pointer, pointer + bytes))"

definition validate_buffers :: "coll_args \<Rightarrow> 64 word \<Rightarrow> 64 word \<Rightarrow> string \<Rightarrow> unit result" where
  "validate_buffers a send_count recv_count name =
     (if send_count = 0 \<or> recv_count = 0 then Inl (Runtime_error ''collective count must be positive'')
      else if send_buffer a = 0 \<or> recv_buffer a = 0 \<or> stream a = 0
      then Inl (Runtime_error ''collective buffers and stream must be non-null'')
      else
        rbind (checked_product send_count (dtype_bytes (dtype a)) ''collective send byte count overflows'') (\<lambda>send_bytes.
        rbind (checked_product recv_count (dtype_bytes (dtype a)) ''collective receive byte count overflows'') (\<lambda>recv_bytes.
        rbind (address_range (send_buffer a) send_bytes) (\<lambda>(send_begin, send_end).
        rbind (address_range (recv_buffer a) recv_bytes) (\<lambda>(recv_begin, recv_end).
          if send_begin < recv_end \<and> recv_begin < send_end
          then Inl (Runtime_error (''overlapping '' @ name @ '' send and receive buffers are unsupported''))
          else Inr ())))))"

definition validate_all_reduce :: "coll_args \<Rightarrow> unit result" where
  "validate_all_reduce a = validate_buffers a (elem_count a) (elem_count a) ''all_reduce''"

definition validate_reduce_scatter :: "nat \<Rightarrow> coll_args \<Rightarrow> unit result" where
  "validate_reduce_scatter K a =
     rbind (checked_product (elem_count a) (of_nat K) ''reduce_scatter element count overflows'') (\<lambda>send_count.
       validate_buffers a send_count (elem_count a) ''reduce_scatter'')"

definition validate_all_gather :: "nat \<Rightarrow> coll_args \<Rightarrow> unit result" where
  "validate_all_gather K a =
     rbind (checked_product (elem_count a) (of_nat K) ''all_gather element count overflows'') (\<lambda>recv_count.
       validate_buffers a (elem_count a) recv_count ''all_gather'')"

section \<open>Queries\<close>

definition transport :: "comm \<Rightarrow> TransportKind" where
  "transport st = resolved_kind (m_transport_plan st)"

definition edge_transport :: "nat \<Rightarrow> comm \<Rightarrow> int \<Rightarrow> TransportKind result" where
  "edge_transport K st source =
     (if source < 0 \<or> int K \<le> source then Inl (Invalid_argument ''source_global_rank must identify a Ring edge'')
      else edge_kind (m_transport_plan st) (nat source))"

definition edge_uses_gdr :: "nat \<Rightarrow> bool \<Rightarrow> comm \<Rightarrow> int \<Rightarrow> bool result" where
  "edge_uses_gdr K rdma st source =
     rbind (edge_transport K st source) (\<lambda>kind.
       Inr (if kind \<noteq> Rdma then False else rdma \<and> m_rdma_gdr_enabled st))"

definition check_async_error :: "bool \<Rightarrow> comm \<Rightarrow> unit result" where
  "check_async_error rdma st =
     (case m_socket_errors st of
        Some e \<Rightarrow> if has_error e then Inl (Runtime_error (message e))
                  else (case m_rdma_errors st of
                    Some e' \<Rightarrow> if rdma \<and> has_error e' then Inl (Runtime_error (message e')) else Inr () | None \<Rightarrow> Inr ())
      | None \<Rightarrow> (case m_rdma_errors st of
                    Some e' \<Rightarrow> if rdma \<and> has_error e' then Inl (Runtime_error (message e')) else Inr () | None \<Rightarrow> Inr ()))"

section \<open>Completion tracking\<close>

definition require_previous_launch_complete :: "cuda \<Rightarrow> (comm, unit) comp" where
  "require_previous_launch_complete cu =
     with_state (\<lambda>st.
       if m_has_untracked_launch st
       then raise (Runtime_error ''cannot grow communicator FIFO after completion tracking failed'')
       else if \<not> m_has_launch st then ret ()
       else for_each [0..<local_rank_count st] (\<lambda>rank.
         andalso (cuda_check cu (Set_device (dev st rank)))
           (andthen (call_cuda cu (Event_query rank)) (\<lambda>status.
              if status = Cuda_not_ready
              then raise (Runtime_error ''cannot grow communicator FIFO while a prior collective is running'')
              else throw_status status))))"

definition wait_for_previous_launch_on_stream :: "cuda \<Rightarrow> 64 word \<Rightarrow> (comm, unit) comp" where
  "wait_for_previous_launch_on_stream cu s =
     with_state (\<lambda>st.
       if m_has_untracked_launch st
       then raise (Runtime_error ''cannot launch collective after completion tracking failed'')
       else if \<not> m_has_launch st then ret ()
       else andalso (cuda_check cu (Set_device (dev st 0)))
              (for_each [0..<local_rank_count st] (\<lambda>rank. cuda_check cu (Stream_wait s rank))))"

definition ensure_completion_events :: "cuda \<Rightarrow> (comm, unit) comp" where
  "ensure_completion_events cu =
     with_state (\<lambda>st0. for_each [0..<local_rank_count st0] (\<lambda>rank.
       andalso (cuda_check cu (Set_device (dev st0 rank)))
         (with_state (\<lambda>st.
            run_if (\<not> m_completion_events st rank)
              (andalso (cuda_check cu (Event_create rank))
                 (change (\<lambda>st. st\<lparr>m_completion_events := (m_completion_events st)(rank := True)\<rparr>)))))))"

definition record_completion :: "cuda \<Rightarrow> nat \<Rightarrow> 64 word \<Rightarrow> (comm, unit) comp" where
  "record_completion cu rank s =
     andthen (call_cuda cu (Event_record rank s)) (\<lambda>status.
       if status \<noteq> Cuda_ok
       then andalso (change (\<lambda>st. st\<lparr>m_has_untracked_launch := True\<rparr>)) (throw_status status)
       else change (\<lambda>st. st\<lparr>m_completion_recorded := (m_completion_recorded st)(rank := True),
                            m_fallback_in_flight := (m_fallback_in_flight st)(rank := False),
                            m_has_launch := True\<rparr>))"

definition begin_fallback_tracking :: "64 word \<Rightarrow> (comm, unit) comp" where
  "begin_fallback_tracking s =
     change (\<lambda>st. st\<lparr>m_fallback_streams := (m_fallback_streams st)(0 := s),
                     m_fallback_in_flight := (m_fallback_in_flight st)(0 := True)\<rparr>)"

section \<open>FIFO growth\<close>

definition required_slots :: "nat \<Rightarrow> nat \<Rightarrow> bool \<Rightarrow> DType \<Rightarrow> nat \<Rightarrow> nat" where
  "required_slots K C dist d n =
     (let by_chunk = fold (\<lambda>ch m. max m (snd (snd (cbd_part K C d n ch)))) [0..<C] 0 in
      if dist then step_elems d else max by_chunk 1)"

definition shm_edge :: "nat \<Rightarrow> comm \<Rightarrow> nat \<Rightarrow> bool" where
  "shm_edge K st edge =
     (m_transport_plan st ! edge = Shm \<and> is_local_global_rank (m_topology st) (int edge) \<and>
      is_local_global_rank (m_topology st) (int ((edge + 1) mod K)))"

definition ensure_fifo_buffers :: "nat \<Rightarrow> nat \<Rightarrow> cuda \<Rightarrow> DType \<Rightarrow> nat \<Rightarrow> (comm, unit) comp" where
  "ensure_fifo_buffers K C cu d n =
     with_state (\<lambda>st.
       let required = required_slots K C (distributed (m_topology st)) d n in
       if required \<le> slot_elems (m_fifo st d) then ret ()
       else andalso (require_previous_launch_complete cu)
         (let cells = filter (\<lambda>(ch, e). shm_edge K st e)
                        (concat (map (\<lambda>ch. map (Pair ch) [0..<nat (global_rank_count (m_topology st))]) [0..<C]));
              p2p = (uses_p2p (m_transport_plan st) \<and> \<not> distributed (m_topology st)) in
          andalso (for_each cells (\<lambda>(ch, e). cuda_check cu (Alloc_shm ch e (kFifoSteps * required))))
          (andalso (run_if p2p (cuda_check cu (Alloc_p2p required)))
             (change (\<lambda>st. st\<lparr>m_fifo := (m_fifo st)(d := \<lparr>slot_elems = required, shm_fifo = cells, p2p_fifo = p2p\<rparr>)\<rparr>)))))"

text \<open>A failing CUDA call in a destructor ends the process.\<close>

definition fail_stop :: "cuda \<Rightarrow> cuda_call \<Rightarrow> (comm, unit) comp" where
  "fail_stop cu c = andthen (call_cuda cu c) (\<lambda>s. if s = Cuda_ok then ret () else raise (Logic_error ''terminate''))"

text \<open>
  The class \<open>ResetEvents\<close>. An entry of its array \<open>events_\<close> is set between the successful creation and
  the successful destruction of the event, so it is read off the log. The events are created, recorded
  and destroyed on device \<open>rank\<close>, not on \<open>devices_[rank]\<close>.
\<close>

fun reset_live :: "cuda_log \<Rightarrow> nat \<Rightarrow> bool" where
  "reset_live [] rank = False"
| "reset_live ((c, s) # l) rank =
     (if s = Cuda_ok \<and> c = Reset_create rank then True
      else if s = Cuda_ok \<and> c = Reset_destroy rank then False
      else reset_live l rank)"

definition reset_create :: "cuda \<Rightarrow> nat \<Rightarrow> (comm, unit) comp" where
  "reset_create cu rank = andalso (cuda_check cu (Set_device (int rank))) (cuda_check cu (Reset_create rank))"

definition reset_record :: "cuda \<Rightarrow> nat \<Rightarrow> 64 word \<Rightarrow> (comm, unit) comp" where
  "reset_record cu rank s = andalso (cuda_check cu (Set_device (int rank))) (cuda_check cu (Reset_record rank s))"

definition reset_destroy :: "cuda \<Rightarrow> nat \<Rightarrow> (comm, unit) comp" where
  "reset_destroy cu n =
     for_each [0..<n] (\<lambda>rank. with_state (\<lambda>st. run_if (reset_live (log st) rank)
       (andalso (cuda_check cu (Set_device (int rank))) (cuda_check cu (Reset_destroy rank)))))"

definition reset_destroy_noexcept :: "cuda \<Rightarrow> nat \<Rightarrow> (comm, unit) comp" where
  "reset_destroy_noexcept cu n =
     for_each [0..<n] (\<lambda>rank. with_state (\<lambda>st. run_if (reset_live (log st) rank)
       (andalso (fail_stop cu (Set_device (int rank))) (fail_stop cu (Reset_destroy rank)))))"

text \<open>
  Before these calls the source zeroes the two mapped counter arrays from the host (\<open>clear_host\<close>, modelled in
  \<open>Host_Buffer\<close>), which cannot fail; the words of the arrays are not part of the communicator's state here.
\<close>

definition reset_control :: "cuda \<Rightarrow> 64 word \<Rightarrow> (comm, unit) comp" where
  "reset_control cu s =
     with_state (\<lambda>st.
       if \<not> m_p2p_steps st then ret ()
       else let n = local_rank_count st in
       andalso (cuda_check cu (Reset_p2p_steps s))
         (with_cleanup
           (andalso (for_each [0..<n] (\<lambda>rank. andalso (reset_create cu rank) (reset_record cu rank s)))
           (andalso (for_each [0..<n] (\<lambda>stream_rank.
              andalso (cuda_check cu (Set_device (int stream_rank)))
                (for_each [0..<n] (\<lambda>event_rank. cuda_check cu (Reset_wait s event_rank)))))
              (reset_destroy cu n)))
           (reset_destroy_noexcept cu n)))"

section \<open>Launch\<close>

definition send_endpoint :: "bool \<Rightarrow> comm \<Rightarrow> DType \<Rightarrow> nat \<Rightarrow> nat \<Rightarrow> endpoint" where
  "send_endpoint rdma st d ch edge =
     (let kind = m_transport_plan st ! edge in
      if kind = Socket then (if (ch, edge) \<in> set (m_socket_send_resources st) then Ep_socket ch edge else Ep_null)
      else if rdma \<and> kind = Rdma then (if m_rdma_resources st then Ep_rdma ch edge else Ep_null)
      else if (kind = Shm \<or> kind = P2p) \<and> ipc_send st ch then Ep_ipc ch
      else if kind = P2p then (if p2p_fifo (m_fifo st d) \<and> m_p2p_steps st then Ep_p2p ch edge else Ep_null)
      else (if (ch, edge) \<in> set (shm_fifo (m_fifo st d)) then Ep_shm ch edge else Ep_null))"

definition recv_endpoint :: "bool \<Rightarrow> comm \<Rightarrow> DType \<Rightarrow> nat \<Rightarrow> nat \<Rightarrow> endpoint" where
  "recv_endpoint rdma st d ch edge =
     (let kind = m_transport_plan st ! edge in
      if kind = Socket then (if (ch, edge) \<in> set (m_socket_recv_resources st) then Ep_socket ch edge else Ep_null)
      else if rdma \<and> kind = Rdma then (if m_rdma_resources st then Ep_rdma ch edge else Ep_null)
      else if (kind = Shm \<or> kind = P2p) \<and> ipc_recv st ch then Ep_ipc ch
      else if kind = P2p then (if p2p_fifo (m_fifo st d) \<and> m_p2p_steps st then Ep_p2p ch edge else Ep_null)
      else (if (ch, edge) \<in> set (shm_fifo (m_fifo st d)) then Ep_shm ch edge else Ep_null))"

definition kernel_args_for :: "nat \<Rightarrow> bool \<Rightarrow> comm \<Rightarrow> coll_args \<Rightarrow> nat \<Rightarrow> kernel_args" where
  "kernel_args_for K rdma st a rank =
     (let global_rank = nat (local_rank_offset (m_topology st)) + rank;
          next = (global_rank + 1) mod K; previous = (global_rank + K - 1) mod K;
          send_edge = nat (ring_edge_index global_rank next K);
          recv_edge = nat (ring_edge_index previous global_rank K) in
      \<lparr>k_rank = int global_rank, k_count = elem_count a, k_slot_elems = slot_elems (m_fifo st (dtype a)),
       k_step_elems = step_elems (dtype a), k_input = send_buffer a, k_output = recv_buffer a,
       k_send = (\<lambda>ch. send_endpoint rdma st (dtype a) ch send_edge),
       k_recv = (\<lambda>ch. recv_endpoint rdma st (dtype a) ch recv_edge),
       k_abort = (if rdma \<and> m_rdma_errors st \<noteq> None then Rdma_abort
                  else if m_socket_errors st = None then No_abort else Socket_abort),
       k_p2p_base = m_p2p_steps st\<rparr>)"

definition launch_ring_simple :: "nat \<Rightarrow> bool \<Rightarrow> cuda \<Rightarrow> kernel \<Rightarrow> coll_args \<Rightarrow> (comm, unit) comp" where
  "launch_ring_simple K rdma cu kern a =
     andalso (ensure_completion_events cu)
       (with_state (\<lambda>st0. for_each [0..<local_rank_count st0] (\<lambda>rank.
          with_state (\<lambda>st.
            let g = nat (local_rank_offset (m_topology st)) + rank in
            if ring_edge_index g ((g + 1) mod K) K < 0 \<or> ring_edge_index ((g + K - 1) mod K) g K < 0
            then raise (Runtime_error ''ring_simple saw an unexpected ring edge'')
            else andalso (cuda_check cu (Set_device (dev st rank)))
              (andthen (call_cuda cu (Launch rank (dtype a) kern (stream a) (kernel_args_for K rdma st a rank))) (\<lambda>_.
               andalso (cuda_check cu Last_error)
                 (record_completion cu rank (stream a))))))))"

definition run_typed :: "nat \<Rightarrow> nat \<Rightarrow> bool \<Rightarrow> cuda \<Rightarrow> kernel \<Rightarrow> coll_args \<Rightarrow> 64 word \<Rightarrow> (comm, unit) comp" where
  "run_typed K C rdma cu kern a fifo_count =
     andalso (ensure_fifo_buffers K C cu (dtype a) (unat fifo_count))
       (with_state (\<lambda>st.
          if m_has_untracked_launch st
          then raise (Runtime_error ''cannot launch collective after completion tracking failed'')
          else andalso (begin_fallback_tracking (stream a))
            (on_exception
              (andalso (wait_for_previous_launch_on_stream cu (stream a))
                (andalso (with_state (\<lambda>st. run_if (\<not> m_control_initialized st)
                    (andalso (run_if (uses_p2p (m_transport_plan st) \<and> \<not> distributed (m_topology st))
                       (andalso (cuda_check cu Alloc_p2p_steps) (change (\<lambda>st. st\<lparr>m_p2p_steps := True\<rparr>))))
                    (andalso (reset_control cu (stream a))
                       (change (\<lambda>st. st\<lparr>m_control_initialized := True\<rparr>))))))
                  (launch_ring_simple K rdma cu kern a)))
              (\<lambda>st. st\<lparr>m_has_untracked_launch := True\<rparr>))))"

definition require_bf16_devices :: "cuda \<Rightarrow> int list \<Rightarrow> unit result" where
  "require_bf16_devices cu ds =
     rfold (\<lambda>d _. case cu_major cu d of
         Inl e \<Rightarrow> Inl (Runtime_error (''CUDA error: '' @ e))
       | Inr major \<Rightarrow> throw_if (major < 8) (Runtime_error ''bf16 requires compute capability 8.0 or newer'')) ds ()"

definition ensure_bf16_devices_validated :: "cuda \<Rightarrow> (comm, unit) comp" where
  "ensure_bf16_devices_validated cu =
     with_state (\<lambda>st. if m_bf16_devices_validated st then ret ()
       else andalso (lift (require_bf16_devices cu (m_devices st)))
              (change (\<lambda>st. st\<lparr>m_bf16_devices_validated := True\<rparr>)))"

text \<open>The dispatch on the data type: only bf16 has a device requirement.\<close>

definition typed :: "cuda \<Rightarrow> DType \<Rightarrow> (comm, unit) comp \<Rightarrow> (comm, unit) comp" where
  "typed cu d run =
     (case d of Float \<Rightarrow> run | Float16 \<Rightarrow> run | BFloat16 \<Rightarrow> andalso (ensure_bf16_devices_validated cu) run)"

definition all_reduce :: "nat \<Rightarrow> nat \<Rightarrow> bool \<Rightarrow> cuda \<Rightarrow> coll_args \<Rightarrow> (comm, unit) comp" where
  "all_reduce K C rdma cu a =
     andalso (with_state (\<lambda>st. lift (check_async_error rdma st)))
       (andalso (lift (validate_all_reduce a))
          (typed cu (dtype a) (run_typed K C rdma cu (K_all_reduce (redop a)) a (elem_count a))))"

definition reduce_scatter :: "nat \<Rightarrow> nat \<Rightarrow> bool \<Rightarrow> cuda \<Rightarrow> coll_args \<Rightarrow> (comm, unit) comp" where
  "reduce_scatter K C rdma cu a =
     andalso (with_state (\<lambda>st. lift (check_async_error rdma st)))
       (andalso (lift (validate_reduce_scatter K a))
          (typed cu (dtype a) (run_typed K C rdma cu (K_reduce_scatter (redop a)) a (elem_count a * of_nat K))))"

definition all_gather :: "nat \<Rightarrow> nat \<Rightarrow> bool \<Rightarrow> cuda \<Rightarrow> coll_args \<Rightarrow> (comm, unit) comp" where
  "all_gather K C rdma cu a =
     andalso (with_state (\<lambda>st. lift (check_async_error rdma st)))
       (andalso (lift (validate_all_gather K a))
          (typed cu (dtype a) (run_typed K C rdma cu K_all_gather a (elem_count a * of_nat K))))"

section \<open>Construction\<close>

definition require_local_device :: "cuda \<Rightarrow> int \<Rightarrow> (comm, unit) comp" where
  "require_local_device cu device =
     (case cu_device_count cu of
        Inl e \<Rightarrow> raise (Runtime_error (''CUDA error: '' @ e))
      | Inr n \<Rightarrow> if device < 0 \<or> n \<le> device
                then raise (Invalid_argument ''communicator device must name one visible CUDA device'')
                else cuda_check cu (Set_device device))"

text \<open>The FIFO geometry handed to every socket proxy.\<close>

definition comm_fifo :: proxy_fifo where
  "comm_fifo = \<lparr>fifo_data_null = False, fifo_sizes_null = False, slot_bytes = kFifoBytes div kFifoSteps,
     slot_count = kFifoSteps, step_increment = kSliceSteps\<rparr>"

definition socket_resources_for :: "nat \<Rightarrow> nat \<Rightarrow> comm \<Rightarrow> (nat \<Rightarrow> nat) \<Rightarrow> (nat \<times> nat) list" where
  "socket_resources_for K C st rank_of =
     concat (map (\<lambda>edge. if m_transport_plan st ! edge = Socket \<and>
                            is_local_global_rank (m_topology st) (int (rank_of edge))
                         then map (\<lambda>ch. (ch, edge)) [0..<C] else []) [0..<K])"

definition accept_connection :: "nat \<Rightarrow> nat \<Rightarrow> bool \<Rightarrow> socket_hello \<Rightarrow> (comm, unit) comp" where
  "accept_connection K C rdma h =
     with_state (\<lambda>st.
       if hello_channel h < 0 \<or> int C \<le> hello_channel h \<or> source_global_rank h < 0 \<or> int K \<le> source_global_rank h \<or>
          destination_global_rank h \<noteq> (source_global_rank h + 1) mod int K
       then raise (Runtime_error ''socket connection has invalid ring identity'')
       else let edge = nat (source_global_rank h); ch = nat (hello_channel h) in
         if rdma \<and> m_transport_plan st ! edge = Rdma
         then change (\<lambda>st. st\<lparr>m_rdma_fds := m_rdma_fds st @ [h]\<rparr>)
         else if is_local_global_rank (m_topology st) (int edge)
         then (if (ch, edge) \<in> set (m_socket_send_resources st)
               then andalso (lift (validate_fifo comm_fifo))
                      (change (\<lambda>st. st\<lparr>m_socket_send_proxies := m_socket_send_proxies st @ [(ch, edge)]\<rparr>))
               else raise (Logic_error ''null socket send resources''))
         else andthen (lift (local_rank_for_global_rank (m_topology st) (int ((edge + 1) mod K)))) (\<lambda>_.
              if (ch, edge) \<in> set (m_socket_recv_resources st)
              then andalso (lift (validate_fifo comm_fifo))
                     (change (\<lambda>st. st\<lparr>m_socket_recv_proxies := m_socket_recv_proxies st @ [(ch, edge)]\<rparr>))
              else raise (Logic_error ''null socket recv resources'')))"

definition setup_socket_transport :: "nat \<Rightarrow> nat \<Rightarrow> bool \<Rightarrow> socket_hello list \<Rightarrow> (comm, unit) comp" where
  "setup_socket_transport K C rdma connections =
     with_state (\<lambda>st.
       if \<not> distributed (m_topology st) then ret ()
       else andalso (change (\<lambda>st. st\<lparr>m_socket_errors := Some \<lparr>has_error = False, message = [], device_abort = Some False\<rparr>,
                 m_socket_send_resources := socket_resources_for K C st (\<lambda>e. e),
                 m_socket_recv_resources := socket_resources_for K C st (\<lambda>e. (e + 1) mod K)\<rparr>))
              (for_each connections (accept_connection K C rdma)))"

text \<open>
  The constructor of \<open>Communicator::Impl\<close>. \<open>peer_env\<close> answers the peer-access calls and \<open>setup_rdma\<close>
  stands for \<open>setup_rdma_transport\<close>.
\<close>

definition make_communicator ::
    "nat \<Rightarrow> nat \<Rightarrow> bool \<Rightarrow> cuda \<Rightarrow> gpu_env \<Rightarrow> (comm, unit) comp \<Rightarrow> int \<Rightarrow> process_topology \<Rightarrow> socket_hello list \<Rightarrow> (comm, unit) comp" where
  "make_communicator K C rdma cu peer_env setup_rdma device t connections =
     andalso (require_local_device cu device)
    (andalso (if devices t \<noteq> [device]
              then raise (Runtime_error ''communicator topology devices do not match configuration'') else ret ())
    (andalso (lift (validate_process_topology K t))
    (andthen (lift (RingTransportPlan K (edge_kinds t))) (\<lambda>plan.
     andalso (change (\<lambda>st. st\<lparr>m_devices := [device], m_topology := t, m_transport_plan := plan\<rparr>))
    (andalso (run_if (uses_p2p plan \<and> \<not> distributed t)
                (andthen (lift (enable_p2p_ring_peer_access_or_throw K peer_env plan t [])) (\<lambda>_. ret ())))
    (andalso (setup_socket_transport K C rdma connections)
             (run_if rdma setup_rdma)))))))"

section \<open>Destruction\<close>

definition release_lifetime_tracking :: "cuda \<Rightarrow> (comm, unit) comp" where
  "release_lifetime_tracking cu =
     with_state (\<lambda>st0. for_each [0..<local_rank_count st0] (\<lambda>rank.
       andalso (fail_stop cu (Set_device (dev st0 rank)))
      (andalso (with_state (\<lambda>st. run_if (m_fallback_in_flight st rank) (fail_stop cu (Stream_sync (m_fallback_streams st rank)))))
      (andalso (with_state (\<lambda>st. run_if (m_completion_events st rank \<and> m_completion_recorded st rank) (fail_stop cu (Event_sync rank))))
               (with_state (\<lambda>st. run_if (m_completion_events st rank)
                 (andalso (fail_stop cu (Event_destroy rank))
                    (change (\<lambda>st. st\<lparr>m_completion_events := (m_completion_events st)(rank := False)\<rparr>)))))))))"

datatype proxy_op = Drain | Shutdown | Join | Dump

datatype teardown = Raise_abort abort_word | Release_tracking
  | Socket_send proxy_op "nat \<times> nat" | Socket_recv proxy_op "nat \<times> nat"
  | Rdma_send proxy_op "nat \<times> nat" | Rdma_recv proxy_op "nat \<times> nat"
  | Progress proxy_op | Dump_turnaround

definition destroy_steps :: "bool \<Rightarrow> comm \<Rightarrow> teardown list" where
  "destroy_steps rdma st =
     (case m_socket_errors st of Some e \<Rightarrow> if has_error e then [Raise_abort Socket_abort] else [] | None \<Rightarrow> []) @
     (if rdma then (case m_rdma_errors st of Some e \<Rightarrow> if has_error e then [Raise_abort Rdma_abort] else [] | None \<Rightarrow> []) else []) @
     [Release_tracking] @
     map (Socket_send Drain) (m_socket_send_proxies st) @ map (Socket_recv Drain) (m_socket_recv_proxies st) @
     map (Socket_send Shutdown) (m_socket_send_proxies st) @ map (Socket_recv Shutdown) (m_socket_recv_proxies st) @
     map (Socket_send Join) (m_socket_send_proxies st) @ map (Socket_recv Join) (m_socket_recv_proxies st) @
     (if rdma then
        map (Rdma_send Drain) (m_rdma_send_proxies st) @
        map (Rdma_send Shutdown) (m_rdma_send_proxies st) @ map (Rdma_recv Shutdown) (m_rdma_recv_proxies st) @
        (if m_rdma_shared_progress st then [Progress Shutdown, Progress Join]
         else map (Rdma_send Join) (m_rdma_send_proxies st) @ map (Rdma_recv Join) (m_rdma_recv_proxies st)) @
        map (Rdma_send Dump) (m_rdma_send_proxies st) @ map (Rdma_recv Dump) (m_rdma_recv_proxies st)
      else []) @ [Dump_turnaround]"

end
