(* ===== verification/Bootstrap.thy ===== *)
theory Bootstrap
  imports Topology Socket_Wire Geometry "HOL-Library.Multiset"
begin

text \<open>
  Collective construction of a communicator over MPI: \<open>collective/all_reduce/mpi_communicator.cc\<close>.
  Every function is written for one rank; the collectives it calls take what all the ranks
  contribute. MPI is the parameter \<open>mpi_world\<close>: its collectives may fail with an error text, and
  \<open>mpi_laws\<close> states what the MPI standard says they compute. The CUDA runtime of each rank is the
  parameter \<open>rank_env\<close>. \<open>MPI_Comm_rank\<close> and \<open>MPI_Comm_size\<close> are taken to succeed, as are \<open>accept\<close> and the
  read of a hello on an accepted connection, whose failures throw out of the construction.
\<close>

record 'u rank_env =
  env_device_count :: "string + int"
  env_set_device :: "int \<Rightarrow> string option"
  env_uuid :: "int \<Rightarrow> string + 'u"

record ('u, 'a) mpi_world =
  allreduce_min :: "string \<Rightarrow> nat \<Rightarrow> int list \<Rightarrow> string + int"
  allgather_text :: "string \<Rightarrow> nat \<Rightarrow> string list \<Rightarrow> string + string list"
  allgather_uuid :: "string \<Rightarrow> nat \<Rightarrow> 'u list \<Rightarrow> string + 'u list"
  allgather_int :: "string \<Rightarrow> nat \<Rightarrow> int list \<Rightarrow> string + int list"
  allgather_addr :: "string \<Rightarrow> nat \<Rightarrow> 'a list \<Rightarrow> string + 'a list"
  split_shared :: "string \<Rightarrow> nat \<Rightarrow> string + nat list"
  bcast_root :: "string \<Rightarrow> nat \<Rightarrow> int list \<Rightarrow> string + int"
  comm_free :: "string \<Rightarrow> nat \<Rightarrow> string option"

definition mpi_check :: "string \<Rightarrow> string + 'b \<Rightarrow> 'b result" where
  "mpi_check operation r = (case r of Inl error \<Rightarrow> Inl (Runtime_error (operation @ '': '' @ error)) | Inr x \<Rightarrow> Inr x)"

text \<open>\<open>snprintf\<close> and \<open>strncpy\<close> into a zeroed buffer of 256 characters.\<close>

definition text256 :: "string \<Rightarrow> string" where
  "text256 s = take 255 s"

section \<open>Collective checks\<close>

definition local_device_check :: "'u rank_env \<Rightarrow> nat \<Rightarrow> int \<Rightarrow> int \<times> string" where
  "local_device_check env mpi_rank device =
     (case env_device_count env of
        Inl e \<Rightarrow> (0, text256 (''MPI rank '' @ string_of_nat mpi_rank @ '' cudaGetDeviceCount failed: '' @ e))
      | Inr visible \<Rightarrow>
          if device < 0 \<or> visible \<le> device
          then (0, text256 (''MPI rank '' @ string_of_nat mpi_rank @ '' selected invalid CUDA device '' @
                   string_of_int device @ '' (visible device count='' @ string_of_int visible @ '')''))
          else (case env_set_device env device of
                  Some e \<Rightarrow> (0, text256 (''MPI rank '' @ string_of_nat mpi_rank @ '' cudaSetDevice failed: '' @ e))
                | None \<Rightarrow> (1, [])))"

definition first_text :: "string list \<Rightarrow> string option" where
  "first_text errors = List.find (\<lambda>e. e \<noteq> []) errors"

definition validate_local_device_with_consensus ::
    "('u, 'a) mpi_world \<Rightarrow> nat \<Rightarrow> (nat \<Rightarrow> 'u rank_env) \<Rightarrow> (nat \<Rightarrow> int) \<Rightarrow> nat \<Rightarrow> unit result" where
  "validate_local_device_with_consensus w K env device rank =
     (let locals = map (\<lambda>r. local_device_check (env r) r (device r)) [0..<K] in
      rbind (mpi_check ''MPI_Allreduce(local device validation)''
               (allreduce_min w ''MPI_Allreduce(local device validation)'' rank (map fst locals))) (\<lambda>all_ok.
        if all_ok \<noteq> 0 then Inr ()
        else rbind (mpi_check ''MPI_Allgather(local device validation errors)''
               (allgather_text w ''MPI_Allgather(local device validation errors)'' rank (map snd locals))) (\<lambda>errors.
          case first_text errors of
            Some e \<Rightarrow> Inl (Invalid_argument e)
          | None \<Rightarrow> Inl (Invalid_argument ''one-process-per-GPU device validation failed''))))"

definition local_identity_check :: "'u rank_env \<Rightarrow> nat \<Rightarrow> int \<Rightarrow> int \<times> string" where
  "local_identity_check env mpi_rank device =
     (case env_uuid env device of
        Inl e \<Rightarrow> (0, text256 (''MPI rank '' @ string_of_nat mpi_rank @ '' cudaGetDeviceProperties failed: '' @ e))
      | Inr _ \<Rightarrow> (1, []))"

definition rank_pairs :: "nat \<Rightarrow> (nat \<times> nat) list" where
  "rank_pairs K = concat (map (\<lambda>first. map (\<lambda>second. (first, second)) [Suc first..<K]) [0..<K])"

definition same_device_check :: "int list \<Rightarrow> 'u list \<Rightarrow> nat \<times> nat \<Rightarrow> unit \<Rightarrow> unit result" where
  "same_device_check node_ids uuids p _ =
     (case p of (first, second) \<Rightarrow>
        throw_if (node_ids ! first = node_ids ! second \<and> uuids ! first = uuids ! second)
          (Invalid_argument (''MPI ranks '' @ string_of_nat first @ '' and '' @ string_of_nat second @
             '' select the same CUDA device on one host'')))"

text \<open>A failed property query leaves \<open>properties.uuid\<close> zeroed, here the argument \<open>zero\<close>.\<close>

definition validate_unique_device_per_node ::
    "('u, 'a) mpi_world \<Rightarrow> nat \<Rightarrow> 'u \<Rightarrow> (nat \<Rightarrow> 'u rank_env) \<Rightarrow> (nat \<Rightarrow> int) \<Rightarrow> int list \<Rightarrow> nat \<Rightarrow> unit result" where
  "validate_unique_device_per_node w K zero env device node_ids rank =
     (let locals = map (\<lambda>r. local_identity_check (env r) r (device r)) [0..<K];
          ids = map (\<lambda>r. case env_uuid (env r) (device r) of Inl _ \<Rightarrow> zero | Inr u \<Rightarrow> u) [0..<K] in
      rbind (mpi_check ''MPI_Allreduce(CUDA device identity)''
               (allreduce_min w ''MPI_Allreduce(CUDA device identity)'' rank (map fst locals))) (\<lambda>all_ok.
        if all_ok = 0
        then rbind (mpi_check ''MPI_Allgather(CUDA device identity errors)''
               (allgather_text w ''MPI_Allgather(CUDA device identity errors)'' rank (map snd locals))) (\<lambda>errors.
          case first_text errors of
            Some e \<Rightarrow> Inl (Runtime_error e)
          | None \<Rightarrow> Inl (Runtime_error ''CUDA device identity validation failed''))
        else rbind (mpi_check ''MPI_Allgather(CUDA device identities)''
               (allgather_uuid w ''MPI_Allgather(CUDA device identities)'' rank ids)) (\<lambda>uuids.
          rfold (same_device_check node_ids uuids) (rank_pairs K) ())))"

text \<open>The outcome of \<open>SocketEndpoint::create_from_environment\<close> on every rank is the argument \<open>created\<close>.\<close>

definition create_listener_with_consensus ::
    "('u, 'a) mpi_world \<Rightarrow> nat \<Rightarrow> (nat \<Rightarrow> 'l result) \<Rightarrow> nat \<Rightarrow> 'l result" where
  "create_listener_with_consensus w K created rank =
     (let oks = map (\<lambda>r. if is_ok (created r) then 1 else 0) [0..<K];
          texts = map (\<lambda>r. case created r of Inl e \<Rightarrow> text256 (what e) | Inr _ \<Rightarrow> []) [0..<K] in
      rbind (mpi_check ''MPI_Allreduce(socket listener setup)''
               (allreduce_min w ''MPI_Allreduce(socket listener setup)'' rank oks)) (\<lambda>all_ok.
        if all_ok \<noteq> 0 then created rank
        else rbind (mpi_check ''MPI_Allgather(socket listener setup errors)''
               (allgather_text w ''MPI_Allgather(socket listener setup errors)'' rank texts)) (\<lambda>errors.
          Inl (Runtime_error (''socket listener setup failed'' @
            (case List.find (\<lambda>r. errors ! r \<noteq> []) [0..<length errors] of
               Some r \<Rightarrow> '' on MPI rank '' @ string_of_nat r @ '': '' @ errors ! r
             | None \<Rightarrow> []))))))"

text \<open>
  The node communicator of a rank lists its members in the order of the control communicator.
  Rank 0 of it broadcasts its global rank.
\<close>

definition node_contribution :: "nat list \<Rightarrow> nat \<Rightarrow> int" where
  "node_contribution members r = (if members ! 0 = r then int r else - 1)"

definition discover_node_id :: "('u, 'a) mpi_world \<Rightarrow> nat \<Rightarrow> int result" where
  "discover_node_id w rank =
     rbind (mpi_check ''MPI_Comm_split_type(topology)'' (split_shared w ''MPI_Comm_split_type(topology)'' rank)) (\<lambda>members.
     rbind (mpi_check ''MPI_Bcast(node id)''
              (bcast_root w ''MPI_Bcast(node id)'' rank (map (node_contribution members) members))) (\<lambda>node_id.
     case comm_free w ''MPI_Comm_free(node topology)'' rank of
       Some e \<Rightarrow> Inl (Runtime_error (''MPI_Comm_free(node topology): '' @ e))
     | None \<Rightarrow> Inr node_id))"

definition discover_node_ids :: "('u, 'a) mpi_world \<Rightarrow> nat \<Rightarrow> nat \<Rightarrow> int list result" where
  "discover_node_ids w K rank =
     rbind (discover_node_id w rank) (\<lambda>_.
       mpi_check ''MPI_Allgather(node ids)''
         (allgather_int w ''MPI_Allgather(node ids)'' rank
            (map (\<lambda>r. case discover_node_id w r of Inl _ \<Rightarrow> - 1 | Inr i \<Rightarrow> i) [0..<K])))"

section \<open>Ring connections\<close>

fun process_search :: "nat list \<Rightarrow> nat \<Rightarrow> nat \<Rightarrow> nat \<Rightarrow> nat result" where
  "process_search [] process offset global_rank =
     Inl (Runtime_error ''global rank does not belong to an MPI process'')"
| "process_search (c # counts) process offset global_rank =
     (if global_rank < offset + c then Inr process
      else process_search counts (Suc process) (offset + c) global_rank)"

definition process_for_global_rank :: "nat list \<Rightarrow> nat \<Rightarrow> nat result" where
  "process_for_global_rank counts global_rank = process_search counts 0 0 global_rank"

definition hello_key :: "socket_hello \<Rightarrow> 64 word" where
  "hello_key h =
     push_bit 32 (ucast (of_int (source_global_rank h) :: 32 word)) OR
     push_bit 16 (ucast (of_int (destination_global_rank h) :: 16 word)) OR
     ucast (of_int (hello_channel h) :: 16 word)"

definition is_network :: "TransportKind \<Rightarrow> bool" where
  "is_network k = (k = Socket \<or> k = Rdma)"

definition is_expected_hello ::
    "nat \<Rightarrow> nat \<Rightarrow> socket_hello \<Rightarrow> TransportKind list \<Rightarrow> nat list \<Rightarrow> nat \<Rightarrow> bool result" where
  "is_expected_hello K C h kinds counts mpi_rank =
     (if source_global_rank h < 0 \<or> int K \<le> source_global_rank h \<or>
         destination_global_rank h \<noteq> (source_global_rank h + 1) mod int K \<or>
         hello_channel h < 0 \<or> int C \<le> hello_channel h
      then Inr False
      else rbind (process_for_global_rank counts (nat (source_global_rank h))) (\<lambda>src.
           rbind (process_for_global_rank counts (nat (destination_global_rank h))) (\<lambda>dst.
             let kind = kinds ! nat (source_global_rank h) in
             Inr (src \<noteq> dst \<and> (src = mpi_rank \<or> dst = mpi_rank) \<and> mpi_rank = max src dst \<and>
                  (kind = Socket \<or> kind = Rdma)))))"

definition ring_hello :: "nat \<Rightarrow> nat \<Rightarrow> nat \<Rightarrow> socket_hello" where
  "ring_hello K edge channel =
     \<lparr>source_global_rank = int edge, destination_global_rank = int ((edge + 1) mod K), hello_channel = int channel\<rparr>"

text \<open>
  One edge of the connection loop: the hellos this rank sends, each with the process it connects to,
  and the number of connections it will accept. The channel loop is inside.
\<close>

type_synonym conn_plan = "(nat \<times> socket_hello) list \<times> nat"

definition plan_edge :: "nat \<Rightarrow> nat \<Rightarrow> TransportKind list \<Rightarrow> nat list \<Rightarrow> nat \<Rightarrow> nat \<Rightarrow> conn_plan \<Rightarrow> conn_plan result" where
  "plan_edge K C kinds counts mpi_rank edge st =
     (if kinds ! edge \<noteq> Socket \<and> kinds ! edge \<noteq> Rdma then Inr st
      else rbind (process_for_global_rank counts edge) (\<lambda>src.
           rbind (process_for_global_rank counts ((edge + 1) mod K)) (\<lambda>dst.
             let remote = (if src = mpi_rank then dst else src) in
             if src \<noteq> mpi_rank \<and> dst \<noteq> mpi_rank then Inr st
             else Inr (fold (\<lambda>channel (conns, expected).
                              if mpi_rank < remote then (conns @ [(remote, ring_hello K edge channel)], expected)
                              else (conns, expected + 1)) [0..<C] st))))"

definition connection_plan :: "nat \<Rightarrow> nat \<Rightarrow> TransportKind list \<Rightarrow> nat \<Rightarrow> conn_plan result" where
  "connection_plan K C kinds mpi_rank =
     rfold (plan_edge K C kinds (replicate K 1) mpi_rank) [0..<K] ([], 0)"

text \<open>
  The accept loop, over the hellos of the connections that arrive. With fewer arrivals than expected
  the call to \<open>accept\<close> does not return.
\<close>

fun accept_loop ::
    "nat \<Rightarrow> nat \<Rightarrow> TransportKind list \<Rightarrow> nat \<Rightarrow> nat \<Rightarrow> socket_hello list \<Rightarrow> 64 word list \<Rightarrow>
     socket_hello list \<Rightarrow> socket_hello list outcome" where
  "accept_loop K C kinds mpi_rank 0 arrivals seen conns = Done conns"
| "accept_loop K C kinds mpi_rank (Suc n) [] seen conns = Waiting"
| "accept_loop K C kinds mpi_rank (Suc n) (h # arrivals) seen conns =
     (case is_expected_hello K C h kinds (replicate K 1) mpi_rank of
        Inl e \<Rightarrow> Thrown e
      | Inr False \<Rightarrow> Thrown (Runtime_error ''socket HELLO describes an unexpected ring edge'')
      | Inr True \<Rightarrow>
          if hello_key h \<in> set seen then Thrown (Runtime_error ''socket HELLO duplicates a ring edge and channel'')
          else accept_loop K C kinds mpi_rank n arrivals (hello_key h # seen) (conns @ [h]))"

section \<open>The constructor\<close>

record ('a, 'p, 'o) rank_setup =
  mpi_initialized :: "string + bool"
  mpi_finalized :: "string + bool"
  mpi_size :: "string + nat"
  probe_p2p :: "int list \<Rightarrow> bool list result"
  create_shm :: "TransportKind list \<Rightarrow> ('p, 'o) connection_resources result"
  create_p2p :: "TransportKind list \<Rightarrow> ('p, 'o) connection_resources result"
  listener :: "nat \<Rightarrow> 'a result"
  no_address :: 'a
  connect_to :: "'a \<Rightarrow> socket_hello \<Rightarrow> exn option"

definition no_resources :: "('p, 'o) connection_resources" where
  "no_resources = \<lparr>v_send_fifo = \<lambda>_. None, v_recv_fifo = \<lambda>_. None, v_send_head = \<lambda>_. None, v_send_tail = \<lambda>_. None,
     v_recv_head = \<lambda>_. None, v_recv_tail = \<lambda>_. None, owners = []\<rparr>"

fun obind :: "'b outcome \<Rightarrow> ('b \<Rightarrow> 'c outcome) \<Rightarrow> 'c outcome" where
  "obind (Done x) f = f x"
| "obind Waiting f = Waiting"
| "obind (Thrown e) f = Thrown e"

definition lift_result :: "'b result \<Rightarrow> 'b outcome" where
  "lift_result r = (case r of Inl e \<Rightarrow> Thrown e | Inr x \<Rightarrow> Done x)"

fun connect_loop :: "('a \<Rightarrow> socket_hello \<Rightarrow> exn option) \<Rightarrow> 'a list \<Rightarrow> (nat \<times> socket_hello) list \<Rightarrow> socket_hello list \<Rightarrow> socket_hello list result" where
  "connect_loop connect endpoints [] conns = Inr conns"
| "connect_loop connect endpoints ((remote, h) # cs) conns =
     (case connect (endpoints ! remote) h of
        Some e \<Rightarrow> Inl e
      | None \<Rightarrow> connect_loop connect endpoints cs (conns @ [h]))"

definition create_communicator_from_mpi ::
    "('u, 'a) mpi_world \<Rightarrow> nat \<Rightarrow> nat \<Rightarrow> bool \<Rightarrow> 'u \<Rightarrow> (nat \<Rightarrow> 'u rank_env) \<Rightarrow> (nat \<Rightarrow> int) \<Rightarrow> TransportKind \<Rightarrow>
     (nat \<Rightarrow> ('a, 'p, 'o) rank_setup) \<Rightarrow> socket_hello list \<Rightarrow> nat \<Rightarrow>
     (process_topology \<times> ('p, 'o) connection_resources \<times> socket_hello list) outcome" where
  "create_communicator_from_mpi w K C rdma zero env device requested setup arrivals rank =
     (let su = setup rank in
      obind (lift_result (mpi_check ''MPI_Initialized'' (mpi_initialized su))) (\<lambda>init.
      obind (lift_result (throw_if (\<not> init) (Runtime_error ''MPI must be initialized before creating a communicator''))) (\<lambda>_.
      obind (lift_result (mpi_check ''MPI_Finalized'' (mpi_finalized su))) (\<lambda>fin.
      obind (lift_result (throw_if fin (Runtime_error ''MPI has already been finalized''))) (\<lambda>_.
      obind (lift_result (mpi_check ''MPI_Comm_size'' (mpi_size su))) (\<lambda>size.
      obind (lift_result (throw_if (size \<noteq> K) (Runtime_error (''MPI process count must match kRanks='' @ string_of_nat K)))) (\<lambda>_.
      obind (lift_result (validate_local_device_with_consensus w K env device rank)) (\<lambda>_.
      obind (lift_result (discover_node_ids w K rank)) (\<lambda>node_ids.
      obind (lift_result (validate_unique_device_per_node w K zero env device node_ids rank)) (\<lambda>_.
      obind (lift_result (if requested = Auto \<or> requested = P2p \<or> requested = Rdma then probe_p2p su node_ids
                          else Inr (replicate K False))) (\<lambda>capable.
      obind (lift_result (resolve_interprocess_transports K rdma requested node_ids capable)) (\<lambda>kinds.
      let topology = \<lparr>global_rank_count = int K, local_rank_offset = int rank, devices = [device rank],
                      edge_kinds = kinds, distributed = True\<rparr> in
      obind (lift_result (validate_process_topology K topology)) (\<lambda>_.
      obind (lift_result (rbind (create_shm su kinds) (merge_connection_resources C no_resources))) (\<lambda>with_shm.
      obind (lift_result (rbind (create_p2p su kinds) (merge_connection_resources C with_shm))) (\<lambda>resources.
      let uses_network = Socket \<in> set kinds \<or> Rdma \<in> set kinds in
      obind (lift_result (if uses_network then create_listener_with_consensus w K (\<lambda>r. listener (setup r) r) rank
                          else Inr (no_address su))) (\<lambda>address.
      obind (lift_result (mpi_check ''MPI_Allgather(socket endpoints)''
               (allgather_addr w ''MPI_Allgather(socket endpoints)'' rank
                  (map (\<lambda>r. if uses_network then (case listener (setup r) r of Inr a \<Rightarrow> a | Inl _ \<Rightarrow> no_address (setup r))
                            else no_address (setup r)) [0..<K])))) (\<lambda>endpoints.
      obind (lift_result (connection_plan K C kinds rank)) (\<lambda>plan.
      obind (lift_result (connect_loop (connect_to su) endpoints (fst plan) [])) (\<lambda>conns.
      obind (accept_loop K C kinds rank (snd plan) arrivals [] conns) (\<lambda>all_conns.
        Done (topology, resources, all_conns)))))))))))))))))))))"

section \<open>Consensus\<close>

text \<open>
  What the MPI standard says: a reduction with \<open>MPI_MIN\<close> gives every rank the least contribution, an
  allgather gives every rank the contributions in rank order, a broadcast gives every member the
  root's value, and \<open>MPI_Comm_split_type\<close> groups the ranks that share memory (\<open>host\<close>), in rank order.
\<close>

definition mpi_laws :: "('u, 'a) mpi_world \<Rightarrow> nat \<Rightarrow> (nat \<Rightarrow> 'h) \<Rightarrow> bool" where
  "mpi_laws w K host =
     ((\<forall>op r xs. xs \<noteq> [] \<longrightarrow> allreduce_min w op r xs = Inr (Min (set xs))) \<and>
      (\<forall>op r xs. allgather_text w op r xs = Inr xs) \<and>
      (\<forall>op r xs. allgather_uuid w op r xs = Inr xs) \<and>
      (\<forall>op r xs. allgather_int w op r xs = Inr xs) \<and>
      (\<forall>op r xs. allgather_addr w op r xs = Inr xs) \<and>
      (\<forall>op r. r < K \<longrightarrow> split_shared w op r = Inr (filter (\<lambda>q. host q = host r) [0..<K])) \<and>
      (\<forall>op r x xs. bcast_root w op r (x # xs) = Inr x) \<and>
      (\<forall>op r. comm_free w op r = None))"

definition ideal_mpi :: "nat \<Rightarrow> (nat \<Rightarrow> 'h) \<Rightarrow> ('u, 'a) mpi_world" where
  "ideal_mpi K host =
     \<lparr>allreduce_min = (\<lambda>op r xs. Inr (Min (set xs))), allgather_text = (\<lambda>op r xs. Inr xs),
      allgather_uuid = (\<lambda>op r xs. Inr xs), allgather_int = (\<lambda>op r xs. Inr xs), allgather_addr = (\<lambda>op r xs. Inr xs),
      split_shared = (\<lambda>op r. Inr (filter (\<lambda>q. host q = host r) [0..<K])),
      bcast_root = (\<lambda>op r xs. Inr (hd xs)), comm_free = (\<lambda>op r. None)\<rparr>"

lemma ideal_mpi_laws: "mpi_laws (ideal_mpi K host) K host"
  by (simp add: mpi_laws_def ideal_mpi_def)

lemma mpi_check_simps [simp]:
  "mpi_check op (Inr x) = Inr x" "mpi_check op (Inl e) = Inl (Runtime_error (op @ '': '' @ e))"
  by (simp_all add: mpi_check_def)

text \<open>The least of a list of flags.\<close>

lemma Min_flags:
  assumes "0 < K" "\<And>r. r < K \<Longrightarrow> f r = 0 \<or> f r = (1 :: int)"
  shows "(Min (set (map f [0..<K])) \<noteq> 0) \<longleftrightarrow> (\<forall>r<K. f r = 1)"
    and "(Min (set (map f [0..<K])) = 0) \<longleftrightarrow> (\<exists>r<K. f r = 0)"
proof -
  have M: "Min (f ` {0..<K}) \<in> f ` {0..<K}" using assms(1) by (intro Min_in) auto
  have le: "r < K \<Longrightarrow> Min (f ` {0..<K}) \<le> f r" for r by (intro Min_le) auto
  show "(Min (set (map f [0..<K])) = 0) \<longleftrightarrow> (\<exists>r<K. f r = 0)"
  proof
    assume "Min (set (map f [0..<K])) = 0"
    with M show "\<exists>r<K. f r = 0" by auto
  next
    assume "\<exists>r<K. f r = 0"
    then obtain r where "r < K" "f r = 0" by blast
    with le[of r] have "Min (f ` {0..<K}) \<le> 0" by simp
    moreover obtain q where "q < K" "Min (f ` {0..<K}) = f q" using M by auto
    ultimately show "Min (set (map f [0..<K])) = 0" using assms(2)[of q] by (auto simp: atLeast0LessThan)
  qed
  then show "(Min (set (map f [0..<K])) \<noteq> 0) \<longleftrightarrow> (\<forall>r<K. f r = 1)"
    using assms(2) by fastforce
qed

text \<open>The first rank with a text decides what every rank throws.\<close>

lemma first_text_map:
  assumes "\<exists>r<K. g r \<noteq> []"
  shows "\<exists>r<K. g r \<noteq> [] \<and> (\<forall>q<r. g q = []) \<and> first_text (map g [0..<K]) = Some (g r)"
proof -
  obtain e where e: "first_text (map g [0..<K]) = Some e"
    using assms by (cases "first_text (map g [0..<K])") (auto simp: first_text_def find_None_iff)
  then obtain i where "i < K" "g i \<noteq> []" "e = g i" "\<forall>j<i. g j = []"
    by (auto simp: first_text_def find_Some_iff)
  with e show ?thesis by blast
qed

lemma text256_append_ne [simp]: "text256 (''MPI rank '' @ s) \<noteq> []"
  by (simp add: text256_def)

lemma local_device_check_cases:
  "local_device_check env r d = (1, []) \<or> (fst (local_device_check env r d) = 0 \<and> snd (local_device_check env r d) \<noteq> [])"
  by (auto simp: local_device_check_def text256_def split: sum.splits option.splits)

lemma local_identity_check_cases:
  "local_identity_check env r d = (1, []) \<or> (fst (local_identity_check env r d) = 0 \<and> snd (local_identity_check env r d) \<noteq> [])"
  by (auto simp: local_identity_check_def text256_def split: sum.splits option.splits)

text \<open>The pattern shared by the collective checks: flags are reduced, then texts are gathered.\<close>

lemma consensus_pattern:
  assumes "0 < K" "\<And>r. r < K \<Longrightarrow> chk r = (1, []) \<or> (fst (chk r) = 0 \<and> snd (chk r) \<noteq> [])"
  shows "(\<forall>r<K. fst (chk r) = (1 :: int)) \<and> Min (set (map (\<lambda>r. fst (chk r)) [0..<K])) \<noteq> 0 \<or>
    (\<exists>r<K. fst (chk r) = 0 \<and> (\<forall>q<r. fst (chk q) = 1) \<and> Min (set (map (\<lambda>r. fst (chk r)) [0..<K])) = 0 \<and>
       first_text (map (\<lambda>r. snd (chk r)) [0..<K]) = Some (snd (chk r)))"
proof (cases "\<forall>r<K. fst (chk r) = 1")
  case True
  then show ?thesis using Min_flags(1)[OF assms(1), of "\<lambda>r. fst (chk r)"] by auto
next
  case False
  then obtain r0 where r0: "r0 < K" "fst (chk r0) = 0" using assms(2) by fastforce
  then have "\<exists>r<K. (\<lambda>r. snd (chk r)) r \<noteq> []" using assms(2)[of r0] by auto
  from first_text_map[OF this] obtain r where r: "r < K" "snd (chk r) \<noteq> []" "\<forall>q<r. snd (chk q) = []"
      "first_text (map (\<lambda>r. snd (chk r)) [0..<K]) = Some (snd (chk r))" by auto
  have "fst (chk r) = 0" using assms(2)[OF r(1)] r(2) by auto
  moreover have "\<forall>q<r. fst (chk q) = 1" using assms(2) r(1,3) by (metis fst_conv order_less_trans)
  moreover have "Min (set (map (\<lambda>r. fst (chk r)) [0..<K])) = 0"
  proof -
    have "\<And>q. q < K \<Longrightarrow> (\<lambda>r. fst (chk r)) q = 0 \<or> (\<lambda>r. fst (chk r)) q = 1" using assms(2) by fastforce
    from Min_flags(2)[OF assms(1) this] r0 show ?thesis by auto
  qed
  ultimately show ?thesis using r by blast
qed

text \<open>The device check is a consensus: either every rank selected a visible device and every rank
  goes on, or every rank throws the same \<open>invalid_argument\<close>, the text of the first rank that failed.\<close>

theorem device_consensus:
  assumes "mpi_laws w K host" "0 < K"
  shows "(list_all (\<lambda>r. local_device_check (env r) r (device r) = (1, [])) [0..<K] \<and>
          list_all (\<lambda>rank. validate_local_device_with_consensus w K env device rank = Inr ()) [0..<K]) \<or>
         (\<exists>bad<K. fst (local_device_check (env bad) bad (device bad)) = 0 \<and>
            list_all (\<lambda>r. local_device_check (env r) r (device r) = (1, [])) [0..<bad] \<and>
            list_all (\<lambda>rank. validate_local_device_with_consensus w K env device rank =
              Inl (Invalid_argument (snd (local_device_check (env bad) bad (device bad))))) [0..<K])"
proof -
  let ?chk = "\<lambda>r. local_device_check (env r) r (device r)"
  have one: "fst (?chk r) = 1 \<longleftrightarrow> ?chk r = (1, [])" for r
    using local_device_check_cases[of "env r" r "device r"] by auto
  have eq: "validate_local_device_with_consensus w K env device rank =
      (if Min (set (map (\<lambda>r. fst (?chk r)) [0..<K])) \<noteq> 0 then Inr ()
       else case first_text (map (\<lambda>r. snd (?chk r)) [0..<K]) of Some e \<Rightarrow> Inl (Invalid_argument e)
            | None \<Rightarrow> Inl (Invalid_argument ''one-process-per-GPU device validation failed''))" for rank
    using assms by (simp add: validate_local_device_with_consensus_def mpi_laws_def o_def)
  from consensus_pattern[OF assms(2), of ?chk] local_device_check_cases
  consider (ok) "\<forall>r<K. fst (?chk r) = 1" "Min (set (map (\<lambda>r. fst (?chk r)) [0..<K])) \<noteq> 0"
    | (bad) b where "b < K" "fst (?chk b) = 0" "\<forall>q<b. fst (?chk q) = 1"
        "Min (set (map (\<lambda>r. fst (?chk r)) [0..<K])) = 0"
        "first_text (map (\<lambda>r. snd (?chk r)) [0..<K]) = Some (snd (?chk b))" by blast
  then show ?thesis
  proof cases
    case ok
    then show ?thesis unfolding eq one by (simp add: list_all_iff)
  next
    case bad
    then show ?thesis unfolding eq one by (intro disjI2 exI[of _ b]) (simp add: list_all_iff)
  qed
qed

lemma demo_device_check:
  "local_device_check \<lparr>env_device_count = Inr 1, env_set_device = (\<lambda>_. None), env_uuid = (\<lambda>_. Inr (0 :: nat))\<rparr> r 0 = (1, [])"
  by (simp add: local_device_check_def)

theorem device_consensus_witness:
  "validate_local_device_with_consensus (ideal_mpi 2 (\<lambda>r. r) :: (nat, nat) mpi_world) 2
     (\<lambda>_. \<lparr>env_device_count = Inr 1, env_set_device = (\<lambda>_. None), env_uuid = (\<lambda>_. Inr 0)\<rparr>) (\<lambda>_. 0) 1 = Inr ()"
  using device_consensus[OF ideal_mpi_laws, of 2 "\<lambda>_. \<lparr>env_device_count = Inr 1, env_set_device = (\<lambda>_. None), env_uuid = (\<lambda>_. Inr (0 :: nat))\<rparr>" "\<lambda>_. 0" "\<lambda>r. r"]
  unfolding list_all_iff demo_device_check by auto

lemma rank_pairs_set: "set (rank_pairs K) = {(a, b). a < b \<and> b < K}"
  by (force simp: rank_pairs_def image_iff)

lemma same_device_step:
  "rbind (same_device_check node_ids uuids p ()) f = Inr () \<longleftrightarrow>
   \<not> (node_ids ! fst p = node_ids ! snd p \<and> uuids ! fst p = uuids ! snd p) \<and> f () = Inr ()"
  by (cases p) (simp add: same_device_check_def rbind_throw_if)

lemma same_device_loop:
  "rfold (same_device_check node_ids uuids) ps () = Inr () \<longleftrightarrow>
   (\<forall>(a, b)\<in>set ps. \<not> (node_ids ! a = node_ids ! b \<and> uuids ! a = uuids ! b))"
  by (induction ps) (simp_all only: rfold.simps same_device_step, auto)

text \<open>The device-identity check is a consensus too: every rank reaches the verdict of rank 0, and
  they go on exactly when every rank could read its device's identity and no two ranks of one node
  share a device.\<close>

theorem unique_device_consensus:
  assumes "mpi_laws w K host" "0 < K"
  shows "validate_unique_device_per_node w K zero env device node_ids rank =
         validate_unique_device_per_node w K zero env device node_ids 0"
    and "validate_unique_device_per_node w K zero env device node_ids rank = Inr () \<longleftrightarrow>
         (\<forall>r<K. is_ok (env_uuid (env r) (device r))) \<and>
         (\<forall>a b. a < b \<and> b < K \<and> node_ids ! a = node_ids ! b \<longrightarrow>
                env_uuid (env a) (device a) \<noteq> env_uuid (env b) (device b))"
proof -
  let ?chk = "\<lambda>r. local_identity_check (env r) r (device r)"
  let ?ids = "map (\<lambda>r. case env_uuid (env r) (device r) of Inl _ \<Rightarrow> zero | Inr u \<Rightarrow> u) [0..<K]"
  have ok: "fst (?chk r) = 1 \<longleftrightarrow> is_ok (env_uuid (env r) (device r))" for r
    by (auto simp: local_identity_check_def split: sum.splits)
  have eq: "validate_unique_device_per_node w K zero env device node_ids rank =
      (if Min (set (map (\<lambda>r. fst (?chk r)) [0..<K])) = 0
       then case first_text (map (\<lambda>r. snd (?chk r)) [0..<K]) of Some e \<Rightarrow> Inl (Runtime_error e)
            | None \<Rightarrow> Inl (Runtime_error ''CUDA device identity validation failed'')
       else rfold (same_device_check node_ids ?ids) (rank_pairs K) ())" for rank
    using assms by (simp add: validate_unique_device_per_node_def mpi_laws_def o_def)
  show "validate_unique_device_per_node w K zero env device node_ids rank =
         validate_unique_device_per_node w K zero env device node_ids 0" unfolding eq ..
  have ids: "?ids ! a = ?ids ! b \<longleftrightarrow> env_uuid (env a) (device a) = env_uuid (env b) (device b)"
    if "a < K" "b < K" "\<forall>r<K. is_ok (env_uuid (env r) (device r))" for a b
    using that by (auto simp: is_ok_def split: sum.splits)
  from consensus_pattern[OF assms(2), of ?chk] local_identity_check_cases
  consider (ok) "\<forall>r<K. fst (?chk r) = 1" "Min (set (map (\<lambda>r. fst (?chk r)) [0..<K])) \<noteq> 0"
    | (bad) b e where "b < K" "fst (?chk b) = 0" "Min (set (map (\<lambda>r. fst (?chk r)) [0..<K])) = 0"
        "first_text (map (\<lambda>r. snd (?chk r)) [0..<K]) = Some e" by blast
  then show "validate_unique_device_per_node w K zero env device node_ids rank = Inr () \<longleftrightarrow>
         (\<forall>r<K. is_ok (env_uuid (env r) (device r))) \<and>
         (\<forall>a b. a < b \<and> b < K \<and> node_ids ! a = node_ids ! b \<longrightarrow>
                env_uuid (env a) (device a) \<noteq> env_uuid (env b) (device b))"
  proof cases
    case ok': ok
    then have all: "\<forall>r<K. is_ok (env_uuid (env r) (device r))" using ok by simp
    have "validate_unique_device_per_node w K zero env device node_ids rank = Inr () \<longleftrightarrow>
        (\<forall>a b. a < b \<and> b < K \<longrightarrow> \<not> (node_ids ! a = node_ids ! b \<and> ?ids ! a = ?ids ! b))"
      unfolding eq using ok'(2) by (simp add: same_device_loop rank_pairs_set)
    also have "\<dots> \<longleftrightarrow> (\<forall>a b. a < b \<and> b < K \<and> node_ids ! a = node_ids ! b \<longrightarrow>
                env_uuid (env a) (device a) \<noteq> env_uuid (env b) (device b))"
      using ids[OF _ _ all] by (meson order_less_trans)
    finally show ?thesis using all by blast
  next
    case bad
    then show ?thesis unfolding eq using ok[of b] by auto
  qed
qed

theorem unique_device_consensus_witness:
  "validate_unique_device_per_node (ideal_mpi 2 (\<lambda>_. ()) :: (int, nat) mpi_world) 2 0
     (\<lambda>_. \<lparr>env_device_count = Inr 2, env_set_device = (\<lambda>_. None), env_uuid = Inr\<rparr>) int [0, 0] 1 = Inr ()"
  using unique_device_consensus(2)[where w = "ideal_mpi 2 (\<lambda>_. ())" and host = "\<lambda>_. ()" and K = 2 and zero = 0 and rank = 1
      and env = "\<lambda>_. \<lparr>env_device_count = Inr 2, env_set_device = (\<lambda>_. None), env_uuid = Inr\<rparr>" and device = int
      and node_ids = "[0, 0]", OF ideal_mpi_laws]
  by simp

lemma node_root:
  assumes "r < K"
  shows "\<exists>ms. filter (\<lambda>q. host q = host r) [0..<K] = (LEAST q. q < K \<and> host q = host r) # ms"
proof -
  define m where "m = (LEAST q. q < K \<and> host q = host r)"
  have m: "m < K" "host m = host r"
    unfolding m_def using LeastI[of "\<lambda>q. q < K \<and> host q = host r" r] assms by simp_all
  have less: "host q \<noteq> host r" if "q < m" for q
  proof -
    have "\<not> (q < K \<and> host q = host r)" using that unfolding m_def by (rule not_less_Least)
    then show ?thesis using that m(1) by simp
  qed
  have "filter (\<lambda>q. host q = host r) [0..<m] = []" using less by (simp add: filter_empty_conv)
  then have "filter (\<lambda>q. host q = host r) [0..<K] = m # filter (\<lambda>q. host q = host r) [Suc m..<K]"
    using upt_split[OF m(1)] m(2) by (simp del: upt_Suc)
  then show ?thesis unfolding m_def by blast
qed

text \<open>Every rank computes the same node ids, and two ranks get the same id exactly when they share
  a host.\<close>

theorem discover_node_ids_spec:
  assumes "mpi_laws w K host" "rank < K"
  shows "\<exists>ids. discover_node_ids w K rank = Inr ids \<and> length ids = K \<and>
           (\<forall>a<K. \<forall>b<K. ids ! a = ids ! b \<longleftrightarrow> host a = host b)"
proof -
  let ?m = "\<lambda>r. LEAST q. q < K \<and> host q = host r"
  have id: "discover_node_id w r = Inr (int (?m r))" if "r < K" for r
  proof -
    obtain ms where "filter (\<lambda>q. host q = host r) [0..<K] = ?m r # ms" using node_root[OF \<open>r < K\<close>] by blast
    with assms(1) that show ?thesis
      by (simp add: discover_node_id_def mpi_laws_def node_contribution_def)
  qed
  have m: "?m r < K \<and> host (?m r) = host r" if "r < K" for r by (rule LeastI[of _ r]) (use that in simp)
  have "map (\<lambda>r. case discover_node_id w r of Inl _ \<Rightarrow> - 1 | Inr i \<Rightarrow> i) [0..<K] = map (\<lambda>r. int (?m r)) [0..<K]"
    by (simp add: id)
  then have "discover_node_ids w K rank = Inr (map (\<lambda>r. int (?m r)) [0..<K])"
    using assms by (simp add: discover_node_ids_def id mpi_laws_def)
  moreover have "?m a = ?m b \<longleftrightarrow> host a = host b" if "a < K" "b < K" for a b
    using m[OF that(1)] m[OF that(2)] by metis
  ultimately show ?thesis by (intro exI[of _ "map (\<lambda>r. int (?m r)) [0..<K]"]) simp
qed

theorem discover_node_ids_spec_witness:
  "\<exists>ids. discover_node_ids (ideal_mpi 2 (\<lambda>r. r) :: (nat, nat) mpi_world) 2 1 = Inr ids \<and> length ids = 2 \<and> ids ! 0 \<noteq> ids ! 1"
proof -
  obtain ids where i: "discover_node_ids (ideal_mpi 2 (\<lambda>r. r) :: (nat, nat) mpi_world) 2 1 = Inr ids" "length ids = 2"
      "\<forall>a<2. \<forall>b<2. ids ! a = ids ! b \<longleftrightarrow> a = b"
    using discover_node_ids_spec[OF ideal_mpi_laws, of 1 2 "\<lambda>r. r"] by auto
  then have "ids ! 0 \<noteq> ids ! 1" by auto
  with i show ?thesis by blast
qed

section \<open>Ring connections match\<close>

lemma process_search_units:
  "off \<le> g \<Longrightarrow> g < off + n \<Longrightarrow> process_search (replicate n (Suc 0)) p off g = Inr (p + (g - off))"
  by (induction n arbitrary: p off) auto

lemma process_for_unit: "g < K \<Longrightarrow> process_for_global_rank (replicate K (Suc 0)) g = Inr g"
  by (simp add: process_for_global_rank_def process_search_units)

definition next_rank :: "nat \<Rightarrow> nat \<Rightarrow> nat" where
  "next_rank K e = Suc e mod K"

definition incident :: "nat \<Rightarrow> nat \<Rightarrow> nat \<Rightarrow> bool" where
  "incident K e r = (e = r \<or> next_rank K e = r)"

definition other_end :: "nat \<Rightarrow> nat \<Rightarrow> nat \<Rightarrow> nat" where
  "other_end K e r = (if e = r then next_rank K e else e)"

lemma next_rank_less: "e < K \<Longrightarrow> next_rank K e < K"
  by (simp add: next_rank_def)

lemma next_rank_neq: "2 \<le> K \<Longrightarrow> e < K \<Longrightarrow> next_rank K e \<noteq> e"
  by (cases "Suc e = K") (auto simp: next_rank_def)

text \<open>The hellos of one edge, and the edges on which a rank connects or accepts.\<close>

definition edge_hellos :: "nat \<Rightarrow> nat \<Rightarrow> nat \<Rightarrow> socket_hello list" where
  "edge_hellos K C e = map (ring_hello K e) [0..<C]"

definition dials :: "nat \<Rightarrow> TransportKind list \<Rightarrow> nat \<Rightarrow> nat \<Rightarrow> bool" where
  "dials K kinds r e = (is_network (kinds ! e) \<and> incident K e r \<and> r < other_end K e r)"

definition answers :: "nat \<Rightarrow> TransportKind list \<Rightarrow> nat \<Rightarrow> nat \<Rightarrow> bool" where
  "answers K kinds r e = (is_network (kinds ! e) \<and> incident K e r \<and> \<not> r < other_end K e r)"

lemma channel_fold:
  "fold (\<lambda>channel (conns, expected). if b then (conns @ [(remote, h channel)], expected) else (conns, expected + 1))
     cs (conns, expected :: nat) =
   (if b then (conns @ map (\<lambda>c. (remote, h c)) cs, expected) else (conns, expected + length cs))"
  by (induction cs arbitrary: conns expected) auto

lemma plan_edge_eq:
  assumes "e < K"
  shows "plan_edge K C kinds (replicate K (Suc 0)) r e (conns, expected) =
    Inr (conns @ (if dials K kinds r e then map (\<lambda>c. (other_end K e r, ring_hello K e c)) [0..<C] else []),
         expected + (if answers K kinds r e then C else 0))"
  using process_for_unit[OF assms] process_for_unit[OF next_rank_less[OF assms]]
  by (auto simp: plan_edge_def next_rank_def[symmetric] channel_fold dials_def answers_def is_network_def
      incident_def other_end_def Let_def)

lemma connection_plan_prefix:
  "n \<le> K \<Longrightarrow> rfold (plan_edge K C kinds (replicate K (Suc 0)) r) [0..<n] ([], 0) =
    Inr (concat (map (\<lambda>e. if dials K kinds r e then map (\<lambda>c. (other_end K e r, ring_hello K e c)) [0..<C] else []) [0..<n]),
         \<Sum>e<n. if answers K kinds r e then C else 0)"
proof (induction n)
  case (Suc n)
  then show ?case by (simp add: rfold_append plan_edge_eq)
qed simp

lemma connection_plan_eq:
  "connection_plan K C kinds r =
    Inr (concat (map (\<lambda>e. if dials K kinds r e then map (\<lambda>c. (other_end K e r, ring_hello K e c)) [0..<C] else []) [0..<K]),
         \<Sum>e<K. if answers K kinds r e then C else 0)"
  unfolding connection_plan_def One_nat_def by (rule connection_plan_prefix) simp

text \<open>What rank \<open>q\<close> is sent: the hellos every rank addresses to it.\<close>

definition plan_of :: "nat \<Rightarrow> nat \<Rightarrow> TransportKind list \<Rightarrow> nat \<Rightarrow> conn_plan" where
  "plan_of K C kinds r = projr (connection_plan K C kinds r)"

definition sent_to :: "nat \<Rightarrow> nat \<Rightarrow> TransportKind list \<Rightarrow> nat \<Rightarrow> socket_hello list" where
  "sent_to K C kinds q =
     concat (map (\<lambda>r. map snd (filter (\<lambda>c. fst c = q) (fst (plan_of K C kinds r)))) [0..<K])"

lemma mset_concat_upt: "mset (concat (map f [0..<n])) = (\<Sum>e<n. mset (f e))"
  by (induction n) simp_all

lemma dials_to:
  assumes "2 \<le> K" "e < K" "r < K" "q < K"
  shows "dials K kinds r e \<and> other_end K e r = q \<longleftrightarrow> r = other_end K e q \<and> answers K kinds q e"
  using next_rank_neq[OF assms(1,2)]
  by (auto simp: dials_def answers_def incident_def other_end_def)

lemma filter_concat_dial:
  "filter (\<lambda>c. fst c = q) (if b then map (\<lambda>c. (t, h c)) cs else []) = (if b \<and> t = q then map (\<lambda>c. (t, h c)) cs else [])"
  by auto

lemma mset_sent_to:
  assumes "2 \<le> K" "q < K"
  shows "mset (sent_to K C kinds q) = (\<Sum>e<K. if answers K kinds q e then mset (edge_hellos K C e) else {#})"
proof -
  let ?H = "\<lambda>e. mset (edge_hellos K C e)"
  have one: "mset (map snd (filter (\<lambda>c. fst c = q) (fst (plan_of K C kinds r)))) =
      (\<Sum>e<K. if r = other_end K e q \<and> answers K kinds q e then ?H e else {#})" if "r < K" for r
  proof -
    have "mset (map snd (filter (\<lambda>c. fst c = q) (fst (plan_of K C kinds r)))) =
        (\<Sum>e<K. mset (map snd (if dials K kinds r e \<and> other_end K e r = q
                       then map (\<lambda>c. (other_end K e r, ring_hello K e c)) [0..<C] else [])))"
      by (simp add: plan_of_def connection_plan_eq filter_concat map_concat o_def filter_concat_dial mset_concat_upt
          del: mset_map)
    also have "\<dots> = (\<Sum>e<K. if r = other_end K e q \<and> answers K kinds q e then ?H e else {#})"
      using dials_to[OF assms(1) _ that assms(2), of _ kinds]
      by (intro sum.cong) (auto simp: edge_hellos_def o_def simp del: mset_map)
    finally show ?thesis .
  qed
  have "mset (sent_to K C kinds q) =
      (\<Sum>r<K. \<Sum>e<K. if r = other_end K e q \<and> answers K kinds q e then ?H e else {#})"
    unfolding sent_to_def mset_concat_upt by (intro sum.cong) (simp_all add: one del: mset_map)
  also have "\<dots> = (\<Sum>e<K. \<Sum>r<K. if r = other_end K e q \<and> answers K kinds q e then ?H e else {#})"
    by (rule sum.swap)
  also have "\<dots> = (\<Sum>e<K. if answers K kinds q e then ?H e else {#})"
  proof (rule sum.cong[OF refl])
    fix e assume "e \<in> {..<K}"
    then have "other_end K e q < K" using next_rank_less by (simp add: other_end_def)
    then show "(\<Sum>r<K. if r = other_end K e q \<and> answers K kinds q e then ?H e else {#}) =
        (if answers K kinds q e then ?H e else {#})"
      by (cases "answers K kinds q e") (simp_all add: sum.delta)
  qed
  finally show ?thesis .
qed

lemma hello_key_inj:
  assumes "hello_key (ring_hello K e c) = hello_key (ring_hello K e' c')"
    and "e < 2 ^ 32" "e' < 2 ^ 32" "c < 2 ^ 16" "c' < 2 ^ 16"
  shows "e = e' \<and> c = c'"
proof -
  have hi: "drop_bit 32 (hello_key (ring_hello K e c)) = (ucast (of_nat e :: 32 word) :: 64 word)" for e c
    by (rule bit_word_eqI) (auto simp: hello_key_def ring_hello_def bit_simps)
  have lo: "take_bit 16 (hello_key (ring_hello K e c)) = (ucast (of_nat c :: 16 word) :: 64 word)" for e c
    by (rule bit_word_eqI) (auto simp: hello_key_def ring_hello_def bit_simps)
  have "(ucast (of_nat e :: 32 word) :: 64 word) = ucast (of_nat e' :: 32 word)" using hi assms(1) by metis
  then have "unat (ucast (of_nat e :: 32 word) :: 64 word) = unat (ucast (of_nat e' :: 32 word) :: 64 word)" by simp
  then have "e = e'" using assms(2,3) by (simp add: unsigned_ucast_eq take_bit_word_eq_self unat_of_nat take_bit_nat_eq_self)
  moreover have "(ucast (of_nat c :: 16 word) :: 64 word) = ucast (of_nat c' :: 16 word)" using lo assms(1) by metis
  then have "unat (ucast (of_nat c :: 16 word) :: 64 word) = unat (ucast (of_nat c' :: 16 word) :: 64 word)" by simp
  then have "c = c'" using assms(4,5) by (simp add: unsigned_ucast_eq take_bit_word_eq_self unat_of_nat take_bit_nat_eq_self)
  ultimately show ?thesis by simp
qed

lemma ring_hello_fields:
  "source_global_rank (ring_hello K e c) = int e"
  "destination_global_rank (ring_hello K e c) = int (next_rank K e)"
  "hello_channel (ring_hello K e c) = int c"
  by (simp_all add: ring_hello_def next_rank_def)

lemma expected_ring_hello:
  assumes "2 \<le> K" "e < K" "c < C" "answers K kinds q e"
  shows "is_expected_hello K C (ring_hello K e c) kinds (replicate K (Suc 0)) q = Inr True"
proof -
  have m: "(int e + 1) mod int K = int (next_rank K e)"
    by (simp add: next_rank_def zmod_int add.commute)
  show ?thesis
    using assms next_rank_neq[OF assms(1,2)] process_for_unit[OF assms(2)] process_for_unit[OF next_rank_less[OF assms(2)]]
    by (auto simp: is_expected_hello_def ring_hello_fields m answers_def incident_def other_end_def is_network_def Let_def)
qed

lemma accept_loop_done:
  assumes "\<forall>h\<in>set arrivals. is_expected_hello K C h kinds (replicate K (Suc 0)) q = Inr True"
    and "distinct (map hello_key arrivals)" "set (map hello_key arrivals) \<inter> set seen = {}"
  shows "accept_loop K C kinds q (length arrivals) arrivals seen conns = Done (conns @ arrivals)"
  using assms by (induction arrivals arbitrary: seen conns) auto

lemma size_edge_hellos: "size (if b then mset (edge_hellos K C e) else {#}) = (if b then C else 0)"
  by (simp add: edge_hellos_def)

lemma set_edge_hellos:
  "h \<in># (\<Sum>e<n. if P e then mset (edge_hellos K C e) else {#}) \<longleftrightarrow> (\<exists>e<n. P e \<and> (\<exists>c<C. h = ring_hello K e c))"
proof (induction n)
  case (Suc n)
  have "(\<exists>e<Suc n. P e \<and> (\<exists>c<C. h = ring_hello K e c)) \<longleftrightarrow>
      (\<exists>e<n. P e \<and> (\<exists>c<C. h = ring_hello K e c)) \<or> P n \<and> (\<exists>c<C. h = ring_hello K n c)"
    by (metis less_Suc_eq)
  then show ?case using Suc by (auto simp: edge_hellos_def)
qed simp

lemma distinct_sent:
  assumes "mset hs = (\<Sum>e<n. if P e then mset (edge_hellos K C e) else {#})" "n \<le> 2 ^ 32" "C \<le> 2 ^ 16"
  shows "distinct (map hello_key hs)"
proof -
  let ?l = "concat (map (\<lambda>e. if P e then edge_hellos K C e else []) [0..<n])"
  have ms: "mset ?l = mset hs" unfolding mset_concat_upt assms(1) by (intro sum.cong) auto
  have inj: "hello_key (ring_hello K e c) = hello_key (ring_hello K e' c') \<longleftrightarrow> e = e' \<and> c = c'"
    if "e < n" "e' < n" "c < C" "c' < C" for e e' c c'
    using hello_key_inj[of K e c e' c'] that assms(2,3) by auto
  have "distinct (map hello_key (concat (map (\<lambda>e. if P e then edge_hellos K C e else []) [0..<m])))" if "m \<le> n" for m
    using that
  proof (induction m)
    case (Suc m)
    have "distinct (map hello_key (edge_hellos K C m))"
      using inj Suc.prems by (auto simp: edge_hellos_def distinct_map inj_on_def)
    then show ?case using Suc inj by (auto simp: edge_hellos_def split: if_splits)
  qed simp
  then have "distinct (map hello_key ?l)" by simp
  moreover have "mset (map hello_key ?l) = mset (map hello_key hs)" using ms by (simp add: mset_map)
  ultimately show ?thesis using mset_eq_imp_distinct_iff by blast
qed

text \<open>C18: The bootstrap of the network edges closes up. Every rank can compute its plan; when the
  connections the ranks dial to rank \<open>q\<close> arrive, in any order, the accept loop of \<open>q\<close> returns, takes all
  of them, and \<open>q\<close> then holds exactly one connection for every channel of every network edge it is an
  end of.\<close>

theorem bootstrap_connects:
  assumes "2 \<le> K" "K \<le> 2 ^ 31" "C \<le> 2 ^ 16" "q < K"
    and "mset arrivals = mset (sent_to K C kinds q)"
  shows "\<exists>conns. accept_loop K C kinds q (snd (plan_of K C kinds q)) arrivals [] (map snd (fst (plan_of K C kinds q)))
            = Done conns \<and>
           mset conns = (\<Sum>e<K. if is_network (kinds ! e) \<and> incident K e q then mset (edge_hellos K C e) else {#})"
proof -
  have arr: "mset arrivals = (\<Sum>e<K. if answers K kinds q e then mset (edge_hellos K C e) else {#})"
    unfolding assms(5) by (rule mset_sent_to[OF assms(1,4)])
  have len: "snd (plan_of K C kinds q) = length arrivals"
    using arg_cong[OF arr, of size] by (simp add: size_edge_hellos plan_of_def connection_plan_eq)
  have exp: "\<forall>h\<in>set arrivals. is_expected_hello K C h kinds (replicate K (Suc 0)) q = Inr True"
    using expected_ring_hello[OF assms(1)] set_edge_hellos[of _ "answers K kinds q" K C K] arr
    by (metis set_mset_mset)
  have dist: "distinct (map hello_key arrivals)"
    using distinct_sent[OF arr] assms(2,3) by simp
  let ?own = "map snd (fst (plan_of K C kinds q))"
  have "mset ?own = (\<Sum>e<K. if dials K kinds q e then mset (edge_hellos K C e) else {#})"
    by (simp add: plan_of_def connection_plan_eq map_concat o_def mset_concat_upt if_distrib edge_hellos_def
        del: mset_map cong: if_cong)
  then have "mset (?own @ arrivals) =
     (\<Sum>e<K. (if dials K kinds q e then mset (edge_hellos K C e) else {#}) + (if answers K kinds q e then mset (edge_hellos K C e) else {#}))"
    by (simp add: arr sum.distrib)
  also have "\<dots> = (\<Sum>e<K. if is_network (kinds ! e) \<and> incident K e q then mset (edge_hellos K C e) else {#})"
    by (intro sum.cong) (auto simp: dials_def answers_def)
  finally show ?thesis using accept_loop_done[OF exp dist, of "[]" ?own] len by auto
qed

lemma demo_sent: "sent_to 4 1 [Shm, Rdma, Shm, Rdma] 2 = [ring_hello 4 1 0]"
  by code_simp

theorem bootstrap_connects_witness:
  "\<exists>conns. accept_loop 4 1 [Shm, Rdma, Shm, Rdma] 2 (snd (plan_of 4 1 [Shm, Rdma, Shm, Rdma] 2)) [ring_hello 4 1 0] []
      (map snd (fst (plan_of 4 1 [Shm, Rdma, Shm, Rdma] 2))) = Done conns"
  using bootstrap_connects[of 4 1 2 "[ring_hello 4 1 0]" "[Shm, Rdma, Shm, Rdma]"] demo_sent by auto

text \<open>C38: A ring of one rank whose only edge is requested over sockets never finishes its bootstrap: the
  rank dials nobody and waits for a connection per channel from itself.\<close>

theorem bootstrap_self_edge_waits:
  assumes "0 < C"
  shows "(resolve_interprocess_transports 1 rdma Socket [node] [False] = Inr [Socket]) \<and>
     (accept_loop 1 C [Socket] 0 (snd (plan_of 1 C [Socket] 0)) (sent_to 1 C [Socket] 0) [] [] = Waiting)"
proof (intro conjI)
  show "resolve_interprocess_transports 1 rdma Socket [node] [False] = Inr [Socket]"
    by (simp add: resolve_interprocess_transports_def interprocess_edge_def Let_def)
  obtain n where "C = Suc n" using assms gr0_implies_Suc by blast
  then show "accept_loop 1 C [Socket] 0 (snd (plan_of 1 C [Socket] 0)) (sent_to 1 C [Socket] 0) [] [] = Waiting"
    by (simp add: plan_of_def sent_to_def connection_plan_eq dials_def answers_def is_network_def incident_def
        other_end_def next_rank_def)
qed

theorem bootstrap_self_edge_waits_witness:
  "accept_loop 1 2 [Socket] 0 (snd (plan_of 1 2 [Socket] 0)) (sent_to 1 2 [Socket] 0) [] [] = Waiting"
  by (rule conjunct2[OF bootstrap_self_edge_waits]) simp

section \<open>The constructor as a whole\<close>

lemma obind_Done_iff: "obind m f = Done x \<longleftrightarrow> (\<exists>a. m = Done a \<and> f a = Done x)"
  by (cases m) auto

lemma lift_result_Done_iff [simp]: "lift_result r = Done x \<longleftrightarrow> r = Inr x"
  by (cases r) (auto simp: lift_result_def)

lemma connect_loop_Inr: "connect_loop connect endpoints cs conns = Inr conns' \<Longrightarrow> conns' = conns @ map snd cs"
  by (induction connect endpoints cs conns rule: connect_loop.induct) (auto split: option.splits)

lemma accept_loop_Done:
  "accept_loop K C kinds q n arrivals seen conns = Done conns' \<Longrightarrow>
   conns' = conns @ take n arrivals \<and> n \<le> length arrivals \<and>
   (\<forall>h\<in>set (take n arrivals). is_expected_hello K C h kinds (replicate K 1) q = Inr True) \<and>
   distinct (map hello_key (take n arrivals)) \<and> set (map hello_key (take n arrivals)) \<inter> set seen = {}"
  by (induction K C kinds q n arrivals seen conns rule: accept_loop.induct)
     (auto split: sum.splits bool.splits if_splits)

text \<open>C37: When the MPI constructor returns, the process topology it built is valid and its edge kinds are
  the resolved ones, and the connections it hands over are those it dialled followed by the ones it
  accepted, every accepted one announcing a network edge and channel this rank answers, none twice.\<close>

theorem create_communicator_from_mpi_sound:
  assumes "create_communicator_from_mpi w K C rdma zero env device requested setup arrivals rank = Done (t, res, conns)"
  shows "(validate_process_topology K t = Inr ()) \<and>
     (\<exists>node_ids capable. resolve_interprocess_transports K rdma requested node_ids capable = Inr (edge_kinds t)) \<and>
     (devices t = [device rank] \<and> local_rank_offset t = int rank) \<and>
     (\<exists>accepted. conns = map snd (fst (plan_of K C (edge_kinds t) rank)) @ accepted \<and>
           length accepted = snd (plan_of K C (edge_kinds t) rank) \<and>
           list_all (\<lambda>h. is_expected_hello K C h (edge_kinds t) (replicate K 1) rank = Inr True) accepted \<and>
           distinct (map hello_key accepted))"
proof (intro conjI)
  obtain node_ids capable kinds plan own where
    r: "resolve_interprocess_transports K rdma requested node_ids capable = Inr kinds" and
    t: "t = \<lparr>global_rank_count = int K, local_rank_offset = int rank, devices = [device rank],
             edge_kinds = kinds, distributed = True\<rparr>" and
    v: "validate_process_topology K t = Inr ()" and
    p: "connection_plan K C kinds rank = Inr plan" and
    o: "\<exists>ends. connect_loop (connect_to (setup rank)) ends (fst plan) [] = Inr own" and
    a: "accept_loop K C kinds rank (snd plan) arrivals [] own = Done conns"
    using assms by (clarsimp simp: create_communicator_from_mpi_def Let_def obind_Done_iff) blast
  show "validate_process_topology K t = Inr ()" by (rule v)
  show "\<exists>node_ids capable. resolve_interprocess_transports K rdma requested node_ids capable = Inr (edge_kinds t)"
    using r t by auto
  show "devices t = [device rank]" "local_rank_offset t = int rank" using t by simp_all
  have own: "own = map snd (fst plan)" using o connect_loop_Inr by fastforce
  have k: "edge_kinds t = kinds" "plan_of K C kinds rank = plan" using t p by (simp_all add: plan_of_def)
  from accept_loop_Done[OF a] show "\<exists>accepted. conns = map snd (fst (plan_of K C (edge_kinds t) rank)) @ accepted \<and>
           length accepted = snd (plan_of K C (edge_kinds t) rank) \<and>
           list_all (\<lambda>h. is_expected_hello K C h (edge_kinds t) (replicate K 1) rank = Inr True) accepted \<and>
           distinct (map hello_key accepted)"
    unfolding k own by (intro exI[of _ "take (snd plan) arrivals"]) (auto simp: list_all_iff)
qed

definition demo_setup :: "nat \<Rightarrow> (nat, nat, nat) rank_setup" where
  "demo_setup r = \<lparr>mpi_initialized = Inr True, mpi_finalized = Inr False, mpi_size = Inr 2,
     probe_p2p = (\<lambda>_. Inr [True, True]), create_shm = (\<lambda>_. Inr no_resources), create_p2p = (\<lambda>_. Inr no_resources),
     listener = (\<lambda>r. Inr (100 + r)), no_address = 0, connect_to = (\<lambda>_ _. None)\<rparr>"

definition demo_rank_env :: "nat \<Rightarrow> nat rank_env" where
  "demo_rank_env r = \<lparr>env_device_count = Inr 1, env_set_device = (\<lambda>_. None), env_uuid = (\<lambda>_. Inr r)\<rparr>"

definition demo_topology :: process_topology where
  "demo_topology = \<lparr>global_rank_count = 2, local_rank_offset = 1, devices = [0], edge_kinds = [Socket, Socket], distributed = True\<rparr>"

lemma demo_collectives:
  "validate_local_device_with_consensus (ideal_mpi 2 (\<lambda>r. r) :: (nat, nat) mpi_world) 2 demo_rank_env (\<lambda>_. 0) 1 = Inr ()"
  "discover_node_ids (ideal_mpi 2 (\<lambda>r. r) :: (nat, nat) mpi_world) 2 1 = Inr [0, 1]"
  "validate_unique_device_per_node (ideal_mpi 2 (\<lambda>r. r) :: (nat, nat) mpi_world) 2 0 demo_rank_env (\<lambda>_. 0) [0, 1] 1 = Inr ()"
  "create_listener_with_consensus (ideal_mpi 2 (\<lambda>r. r) :: (nat, nat) mpi_world) 2 (\<lambda>r. listener (demo_setup r) r) 1 = Inr 101"
  by code_simp+

lemma demo_create:
  "create_communicator_from_mpi (ideal_mpi 2 (\<lambda>r. r)) 2 1 False 0 demo_rank_env (\<lambda>_. 0) Auto demo_setup
     [ring_hello 2 1 0, ring_hello 2 0 0] 1 =
   Done (demo_topology, no_resources, [ring_hello 2 1 0, ring_hello 2 0 0])"
proof -
  have 1: "resolve_interprocess_transports 2 False Auto [0, 1] [True, True] = Inr [Socket, Socket]" by code_simp
  have 2: "validate_process_topology 2 demo_topology = Inr ()" by code_simp
  have 3: "connection_plan 2 1 [Socket, Socket] 1 = Inr ([], 2)" by code_simp
  have 4: "accept_loop 2 1 [Socket, Socket] 1 2 [ring_hello 2 1 0, ring_hello 2 0 0] [] [] =
      Done [ring_hello 2 1 0, ring_hello 2 0 0]" by code_simp
  have 5: "merge_connection_resources 1 no_resources (no_resources :: (nat, nat) connection_resources) = Inr no_resources"
    by (simp add: merge_connection_resources_def merge_send_def merge_recv_def no_resources_def)
  show ?thesis
    using demo_collectives 1 2 3 4 5
    by (simp add: create_communicator_from_mpi_def lift_result_def demo_setup_def demo_topology_def
        ideal_mpi_def)
qed

theorem create_communicator_from_mpi_sound_witness: "validate_process_topology 2 demo_topology = Inr ()"
  by (rule conjunct1[OF create_communicator_from_mpi_sound[OF demo_create]])

end
