(* ===== verification/Communicator_Safety.thy ===== *)
theory Communicator_Safety
  imports Communicator Bootstrap
begin

text \<open>
  What the communicator guarantees: the argument checks of the C and the C++ layer agree; FIFO storage
  is never replaced under a running kernel; every kernel gets FIFO slots the kernels are correct for;
  every launch is tracked or blocks all later ones; a collective waits for the previous one on its
  stream; the socket proxies cover exactly the channels of the socket edges.
\<close>

section \<open>Argument validation\<close>

definition cpp_args :: "cargs \<Rightarrow> DType \<Rightarrow> RedOp \<Rightarrow> coll_args" where
  "cpp_args a d op = \<lparr>send_buffer = a_send_buffer a, recv_buffer = a_recv_buffer a, stream = a_stream a,
     elem_count = a_count a, dtype = d, redop = op\<rparr>"

lemma checked_product_iff: "checked_product l r t = Inr x \<longleftrightarrow> checked_multiply l r = Some x"
  by (auto simp: checked_product_def checked_multiply_def)

lemma validate_buffers_overlap:
  assumes "dtype_bytes (dtype a) = dtype_size code"
  shows "validate_buffers a sc rc name = Inr () \<longleftrightarrow>
    sc \<noteq> 0 \<and> rc \<noteq> 0 \<and> send_buffer a \<noteq> 0 \<and> recv_buffer a \<noteq> 0 \<and> stream a \<noteq> 0 \<and>
    validate_buffer_overlap (send_buffer a) (recv_buffer a) sc rc code = None"
  by (auto simp: validate_buffers_def validate_buffer_overlap_def Let_def rbind_eq_Inr_iff checked_product_iff
      address_range_def assms split: option.splits if_splits)

lemma dtype_bytes_code: "to_cpp_dtype v = Some d \<Longrightarrow> dtype_bytes d = dtype_size v"
  by (auto simp: to_cpp_dtype_def dtype_bytes_def dtype_size_def split: if_splits)

lemma validate_buffers_args_ok:
  assumes "to_cpp_dtype (a_dtype a) = Some d"
  shows "sc \<noteq> 0 \<Longrightarrow> rc \<noteq> 0 \<Longrightarrow> a_count a \<noteq> 0 \<Longrightarrow>
    validate_buffers (cpp_args a d op) sc rc name = Inr () \<longleftrightarrow> args_ok a (unat sc) (unat rc)"
  unfolding args_ok_def
  using validate_buffers_overlap[of "cpp_args a d op" "a_dtype a" sc rc name] dtype_bytes_code[OF assms] assms
    to_cpp_dtype_iff[of "a_dtype a"] validate_buffer_overlap_iff[of sc rc "a_send_buffer a" "a_recv_buffer a" "a_dtype a"]
    word64_less_2p[of sc] word64_less_2p[of rc]
  by (auto simp: cpp_args_def)

lemma scaled_count:
  assumes "0 < K" "K < 2 ^ 31"
  shows "checked_multiply n (of_nat K) = (if unat n * K < 2 ^ 64 then Some (n * of_nat K) else None)"
    and "unat n * K < 2 ^ 64 \<Longrightarrow> unat (n * of_nat K :: 64 word) = unat n * K"
proof -
  have k: "unat (of_nat K :: 64 word) = K" using assms(2) by (intro unat64_of_nat) simp
  then have nz: "(of_nat K :: 64 word) \<noteq> 0" using assms(1) by (metis unat_0 less_numeral_extra(3))
  show "checked_multiply n (of_nat K) = (if unat n * K < 2 ^ 64 then Some (n * of_nat K) else None)"
    using checked_multiply_spec(1)[OF nz, of n] by (simp add: k)
  show "unat n * K < 2 ^ 64 \<Longrightarrow> unat (n * of_nat K :: 64 word) = unat n * K"
    using checked_multiply_spec(2)[OF nz, of n] by (simp add: k)
qed

text \<open>C25: The two validation layers agree. On every argument block with a known data type, the checks of the
  C++ communicator accept exactly the arguments the C interface describes as valid: non-null pointers,
  a positive count, no overflow, and separate buffers of the collective's send and receive sizes.\<close>

theorem capi_validation_agrees:
  assumes "to_cpp_dtype (a_dtype a) = Some d" "0 < K" "K < 2 ^ 31"
  shows "(validate_all_reduce (cpp_args a d op) = Inr () \<longleftrightarrow> args_ok a (unat (a_count a)) (unat (a_count a))) \<and>
     (validate_reduce_scatter K (cpp_args a d op) = Inr () \<longleftrightarrow> args_ok a (unat (a_count a) * K) (unat (a_count a))) \<and>
     (validate_all_gather K (cpp_args a d op) = Inr () \<longleftrightarrow> args_ok a (unat (a_count a)) (unat (a_count a) * K))"
proof (intro conjI)
  let ?n = "a_count a"
  have cp: "elem_count (cpp_args a d op) = ?n" by (simp add: cpp_args_def)
  note v = validate_buffers_args_ok[OF assms(1), of _ _ op]
  have z: "validate_buffers (cpp_args a d op) x y name \<noteq> Inr ()" if "x = 0 \<or> y = 0" for x y name
    using that by (auto simp: validate_buffers_def)
  show "validate_all_reduce (cpp_args a d op) = Inr () \<longleftrightarrow> args_ok a (unat ?n) (unat ?n)"
    unfolding validate_all_reduce_def cp by (cases "?n = 0") (simp_all add: z v, simp add: args_ok_def)
  have nz: "?n * of_nat K \<noteq> 0" if "?n \<noteq> 0" "unat ?n * K < 2 ^ 64"
    using scaled_count(2)[OF assms(2,3) that(2)] that(1) assms(2)
    by (metis mult_eq_0_iff unat_0 unat_eq_zero less_numeral_extra(3))
  show "validate_reduce_scatter K (cpp_args a d op) = Inr () \<longleftrightarrow> args_ok a (unat ?n * K) (unat ?n)"
  proof (cases "?n \<noteq> 0 \<and> unat ?n * K < 2 ^ 64")
    case True
    then show ?thesis unfolding validate_reduce_scatter_def cp rbind_eq_Inr_iff checked_product_iff
      by (simp add: scaled_count[OF assms(2,3)] v nz)
  next
    case False
    then show ?thesis unfolding validate_reduce_scatter_def cp rbind_eq_Inr_iff checked_product_iff
      by (auto simp: scaled_count(1)[OF assms(2,3)] args_ok_def z)
  qed
  show "validate_all_gather K (cpp_args a d op) = Inr () \<longleftrightarrow> args_ok a (unat ?n) (unat ?n * K)"
  proof (cases "?n \<noteq> 0 \<and> unat ?n * K < 2 ^ 64")
    case True
    then show ?thesis unfolding validate_all_gather_def cp rbind_eq_Inr_iff checked_product_iff
      by (simp add: scaled_count[OF assms(2,3)] v nz)
  next
    case False
    then show ?thesis unfolding validate_all_gather_def cp rbind_eq_Inr_iff checked_product_iff
      by (auto simp: scaled_count(1)[OF assms(2,3)] args_ok_def z)
  qed
qed

theorem capi_validation_agrees_witness:
  "validate_all_reduce (cpp_args (demo_args 8192) Float16 RMax) = Inr ()"
proof -
  have "args_ok (demo_args 8192) (unat (a_count (demo_args 8192))) (unat (a_count (demo_args 8192)))"
    by (simp add: args_ok_def demo_args_def buffers_separate_def bytes_of_def dtype_size_def)
  then show ?thesis
    using capi_validation_agrees[of "demo_args 8192" Float16 4 RMax] by (simp add: demo_args_def to_cpp_dtype_def)
qed

section \<open>The log\<close>

fun is_launch :: "cuda_call \<Rightarrow> bool" where
  "is_launch (Launch r d k s a) = True"
| "is_launch c = False"

text \<open>What was appended to the log since \<open>base\<close>.\<close>

definition since :: "cuda_log \<Rightarrow> (cuda_log \<Rightarrow> bool) \<Rightarrow> comm \<Rightarrow> bool" where
  "since base P st \<longleftrightarrow> (\<exists>new. log st = new @ base \<and> P new)"

lemma preserves_cuda_check [preserving]: "preserves I (call_cuda cu c) \<Longrightarrow> preserves I (cuda_check cu c)"
  unfolding cuda_check_def throw_status_def by (intro preserving)

lemma preserves_fail_stop [preserving]: "preserves I (call_cuda cu c) \<Longrightarrow> preserves I (fail_stop cu c)"
  unfolding fail_stop_def by (intro preserving)

lemma preserves_throw_status [preserving]: "preserves I (throw_status s)"
  unfolding throw_status_def by (intro preserving)

lemma preserves_call_cuda:
  "(\<And>st s. I st \<Longrightarrow> I (st\<lparr>log := (c, s) # log st\<rparr>)) \<Longrightarrow> preserves I (call_cuda cu c)"
  by (simp add: preserves_def triple_def call_cuda_def Let_def)

text \<open>The log only grows.\<close>

lemma since_cons: "since base P st \<Longrightarrow> (\<And>new. P new \<Longrightarrow> P (e # new)) \<Longrightarrow> since base P (st\<lparr>log := e # log st\<rparr>)"
  by (auto simp: since_def)

definition quiet :: "(comm \<Rightarrow> bool) \<Rightarrow> bool" where
  "quiet I \<longleftrightarrow> (\<forall>st c s. I st \<and> \<not> is_launch c \<longrightarrow> I (st\<lparr>log := (c, s) # log st\<rparr>))"

text \<open>Everything around the launch is quiet: it issues calls that are not launches.\<close>

lemma quiet_call [preserving]: "quiet I \<Longrightarrow> \<not> is_launch c \<Longrightarrow> preserves I (call_cuda cu c)"
  by (rule preserves_call_cuda) (auto simp: quiet_def)

lemma quiet_check: "quiet I \<Longrightarrow> \<not> is_launch c \<Longrightarrow> preserves I (cuda_check cu c)"
  by (intro preserving)

lemma preserves_triple: "preserves I m \<Longrightarrow> (\<And>s. I s \<Longrightarrow> E s) \<Longrightarrow> triple I m (\<lambda>_. I) E"
  unfolding preserves_def by (erule triple_weaken) auto

lemma quiet_require [preserving]: "quiet I \<Longrightarrow> preserves I (require_previous_launch_complete cu)"
  unfolding require_previous_launch_complete_def by (intro preserving) simp_all

lemma quiet_wait [preserving]: "quiet I \<Longrightarrow> preserves I (wait_for_previous_launch_on_stream cu s)"
  unfolding wait_for_previous_launch_on_stream_def by (intro preserving) simp_all

lemma quiet_reset [preserving]: "quiet I \<Longrightarrow> preserves I (reset_control cu s)"
  unfolding reset_control_def reset_create_def reset_record_def reset_destroy_def reset_destroy_noexcept_def
  by (intro preserving) simp_all

lemma quiet_events:
  "quiet I \<Longrightarrow> (\<And>st r. I st \<Longrightarrow> I (st\<lparr>m_completion_events := (m_completion_events st)(r := True)\<rparr>)) \<Longrightarrow>
   preserves I (ensure_completion_events cu)"
  unfolding ensure_completion_events_def by (intro preserving preserves_change) simp_all

lemma quiet_fifo:
  "quiet I \<Longrightarrow> (\<And>st f. I st \<Longrightarrow> I (st\<lparr>m_fifo := f\<rparr>)) \<Longrightarrow> preserves I (ensure_fifo_buffers K C cu d n)"
  unfolding ensure_fifo_buffers_def by (intro preserving preserves_change) simp_all

lemma quiet_bf16:
  "(\<And>st. I st \<Longrightarrow> I (st\<lparr>m_bf16_devices_validated := True\<rparr>)) \<Longrightarrow> preserves I (ensure_bf16_devices_validated cu)"
  unfolding ensure_bf16_devices_validated_def by (intro preserving preserves_change) simp_all

text \<open>The prefix of \<open>run_typed\<close> that initialises the control counters.\<close>

definition init_control :: "cuda \<Rightarrow> 64 word \<Rightarrow> (comm, unit) comp" where
  "init_control cu s =
     with_state (\<lambda>st. run_if (\<not> m_control_initialized st)
       (andalso (run_if (uses_p2p (m_transport_plan st) \<and> \<not> distributed (m_topology st))
          (andalso (cuda_check cu Alloc_p2p_steps) (change (\<lambda>st. st\<lparr>m_p2p_steps := True\<rparr>))))
       (andalso (reset_control cu s) (change (\<lambda>st. st\<lparr>m_control_initialized := True\<rparr>)))))"

definition launch_body :: "nat \<Rightarrow> bool \<Rightarrow> cuda \<Rightarrow> kernel \<Rightarrow> coll_args \<Rightarrow> (comm, unit) comp" where
  "launch_body K rdma cu kern a =
     andalso (wait_for_previous_launch_on_stream cu (stream a))
       (andalso (init_control cu (stream a)) (launch_ring_simple K rdma cu kern a))"

definition launch_one :: "nat \<Rightarrow> bool \<Rightarrow> cuda \<Rightarrow> kernel \<Rightarrow> coll_args \<Rightarrow> nat \<Rightarrow> comm \<Rightarrow> (comm, unit) comp" where
  "launch_one K rdma cu kern a rank st =
     andalso (cuda_check cu (Set_device (dev st rank)))
       (andthen (call_cuda cu (Launch rank (dtype a) kern (stream a) (kernel_args_for K rdma st a rank))) (\<lambda>_.
         andalso (cuda_check cu Last_error) (record_completion cu rank (stream a))))"

lemma run_typed_eq:
  "run_typed K C rdma cu kern a n =
     andalso (ensure_fifo_buffers K C cu (dtype a) (unat n))
       (with_state (\<lambda>st.
          if m_has_untracked_launch st
          then raise (Runtime_error ''cannot launch collective after completion tracking failed'')
          else andalso (begin_fallback_tracking (stream a))
            (on_exception (launch_body K rdma cu kern a) (\<lambda>st. st\<lparr>m_has_untracked_launch := True\<rparr>))))"
  unfolding run_typed_def launch_body_def init_control_def ..

lemma launch_ring_simple_eq:
  "launch_ring_simple K rdma cu kern a =
     andalso (ensure_completion_events cu)
       (with_state (\<lambda>st0. for_each [0..<local_rank_count st0] (\<lambda>rank. with_state (\<lambda>st.
          if ring_edge_index (nat (local_rank_offset (m_topology st)) + rank) ((nat (local_rank_offset (m_topology st)) + rank + 1) mod K) K < 0 \<or>
             ring_edge_index ((nat (local_rank_offset (m_topology st)) + rank + K - 1) mod K) (nat (local_rank_offset (m_topology st)) + rank) K < 0
          then raise (Runtime_error ''ring_simple saw an unexpected ring edge'')
          else launch_one K rdma cu kern a rank st))))"
  unfolding launch_ring_simple_def launch_one_def Let_def ..

lemma quiet_init_control:
  "quiet I \<Longrightarrow> (\<And>st. I st \<Longrightarrow> I (st\<lparr>m_p2p_steps := True\<rparr>)) \<Longrightarrow>
   (\<And>st. I st \<Longrightarrow> I (st\<lparr>m_control_initialized := True\<rparr>)) \<Longrightarrow> preserves I (init_control cu s)"
  unfolding init_control_def by (intro preserving preserves_change) simp_all

text \<open>A collective is its checks followed by \<open>run_typed\<close>.\<close>

datatype collective = All_reduce | Reduce_scatter | All_gather

fun run_collective :: "collective \<Rightarrow> nat \<Rightarrow> nat \<Rightarrow> bool \<Rightarrow> cuda \<Rightarrow> coll_args \<Rightarrow> (comm, unit) comp" where
  "run_collective All_reduce = all_reduce"
| "run_collective Reduce_scatter = reduce_scatter"
| "run_collective All_gather = all_gather"

lemma collective_triple:
  assumes "\<And>kern n. unat n \<noteq> 0 \<Longrightarrow> triple P (run_typed K C rdma cu kern a n) Q E"
    and "\<And>st. P st \<Longrightarrow> P (st\<lparr>m_bf16_devices_validated := True\<rparr>)" "\<And>st. P st \<Longrightarrow> E st"
  shows "triple P (run_collective c K C rdma cu a) Q E"
proof -
  have pre: "triple P (with_state (\<lambda>st. lift (check_async_error rdma st))) (\<lambda>_. P) E"
    using assms(3) by (intro triple_with_state triple_lift) auto
  have bf: "triple P (ensure_bf16_devices_validated cu) (\<lambda>_. P) E"
    using quiet_bf16[of P cu, OF assms(2)] assms(3) by (auto simp: preserves_def intro: triple_weaken)
  have ty: "triple P (typed cu (dtype a) (run_typed K C rdma cu kern a n)) Q E" if "unat n \<noteq> 0" for kern n
    using assms(1)[OF that] bf by (auto simp: typed_def intro: triple_andalso split: DType.split)
  have val: "triple P (andalso (lift v) (typed cu (dtype a) (run_typed K C rdma cu kern a n))) Q E"
    if "v = Inr () \<Longrightarrow> unat n \<noteq> 0" for v kern n
  proof (cases v)
    case (Inl e)
    then show ?thesis using assms(3) by (simp add: triple_def andalso_def andthen_def lift_def)
  next
    case (Inr u)
    then show ?thesis using ty[of n kern] that by (simp add: triple_def andalso_def andthen_def lift_def)
  qed
  have nz: "unat x \<noteq> 0 \<and> unat y \<noteq> 0" if "validate_buffers a x y nm = Inr ()" for x y nm
    using that by (auto simp: validate_buffers_def unat_eq_zero split: if_splits)
  have prod: "x = l * r" if "checked_product l r t = Inr x" for l r t x
    using that by (auto simp: checked_product_def split: if_splits)
  have "validate_all_reduce a = Inr () \<Longrightarrow> unat (elem_count a) \<noteq> 0"
      "validate_reduce_scatter K a = Inr () \<Longrightarrow> unat (elem_count a * of_nat K) \<noteq> 0"
      "validate_all_gather K a = Inr () \<Longrightarrow> unat (elem_count a * of_nat K) \<noteq> 0"
    using nz by (auto simp: validate_all_reduce_def validate_reduce_scatter_def validate_all_gather_def rbind_eq_Inr_iff dest!: prod)
  then show ?thesis
    by (cases c) (auto simp: all_reduce_def reduce_scatter_def all_gather_def intro!: triple_andalso[OF pre] val)
qed

section \<open>No launch after a lost one\<close>

definition no_launch :: "cuda_log \<Rightarrow> bool" where
  "no_launch new = list_all (\<lambda>e. \<not> is_launch (fst e)) new"

lemma quiet_since: "quiet (\<lambda>st. since base no_launch st \<and> P (m_has_untracked_launch st))"
  by (auto simp: quiet_def since_def no_launch_def)

text \<open>C26: Once completion tracking failed, no collective ever launches again: with the flag set, every
  collective throws, keeps the flag set and issues no kernel launch, whatever its arguments and
  whatever the CUDA runtime answers.\<close>

theorem untracked_launch_blocks:
  assumes "m_has_untracked_launch st"
  shows "\<exists>e st'. run_collective c K C rdma cu a st = (Inl e, st') \<and> m_has_untracked_launch st' \<and>
           (\<exists>new. log st' = new @ log st \<and> list_all (\<lambda>e. \<not> is_launch (fst e)) new)"
proof -
  let ?P = "\<lambda>s. since (log st) no_launch s \<and> m_has_untracked_launch s"
  have f: "preserves ?P (ensure_fifo_buffers K C cu (dtype a) n)" for n
    by (rule quiet_fifo[OF quiet_since[where P = "\<lambda>b. b"]]) (auto simp: since_def)
  have "triple ?P (run_typed K C rdma cu kern a n) (\<lambda>_ _. False) ?P" for kern n
    unfolding run_typed_eq
    by (rule triple_andalso[OF f[unfolded preserves_def]])
       (auto simp: triple_def with_state_def raise_def)
  then have "triple ?P (run_collective c K C rdma cu a) (\<lambda>_ _. False) ?P"
    by (rule collective_triple) (auto simp: since_def)
  from triple_run[OF this, of st] assms show ?thesis
    by (cases "run_collective c K C rdma cu a st"; cases "fst (run_collective c K C rdma cu a st)")
       (auto simp: since_def no_launch_def)
qed

section \<open>Tracked launches\<close>

text \<open>Whether the log holds a launch of a rank with no successful completion record after it.\<close>

fun open_launch :: "cuda_log \<Rightarrow> nat \<Rightarrow> bool" where
  "open_launch [] r = False"
| "open_launch ((Launch r' d k s a, st) # l) r = (r = r' \<or> open_launch l r)"
| "open_launch ((Event_record r' s, st) # l) r = (if r = r' \<and> st = Cuda_ok then False else open_launch l r)"
| "open_launch (e # l) r = open_launch l r"

lemma open_launch_mono: "\<not> is_launch c \<Longrightarrow> open_launch ((c, s) # l) r \<Longrightarrow> open_launch l r"
  by (cases c) (auto split: if_splits)

definition closed :: "comm \<Rightarrow> bool" where
  "closed st \<longleftrightarrow> (\<forall>r. \<not> open_launch (log st) r)"

lemma quiet_closed: "quiet closed"
  by (auto simp: quiet_def closed_def dest: open_launch_mono)

lemma closed_simps [simp]:
  "closed (st\<lparr>m_completion_events := x1\<rparr>) = closed st" "closed (st\<lparr>m_fifo := x2\<rparr>) = closed st"
  "closed (st\<lparr>m_p2p_steps := x3\<rparr>) = closed st" "closed (st\<lparr>m_control_initialized := x4\<rparr>) = closed st"
  "closed (st\<lparr>m_has_untracked_launch := x3\<rparr>) = closed st" "closed (st\<lparr>m_bf16_devices_validated := x4\<rparr>) = closed st"
  "closed (st\<lparr>m_fallback_streams := x5\<rparr>) = closed st" "closed (st\<lparr>m_fallback_in_flight := x6\<rparr>) = closed st"
  by (simp_all add: closed_def)

lemma launch_one_closed: "triple closed (launch_one K rdma cu kern a rank st0) (\<lambda>_. closed) (\<lambda>_. True)"
proof -
  let ?R = "\<lambda>st. \<forall>r. r \<noteq> rank \<longrightarrow> \<not> open_launch (log st) r"
  have q: "quiet ?R" by (auto simp: quiet_def dest: open_launch_mono)
  have rec: "triple ?R (record_completion cu rank (stream a)) (\<lambda>_. closed) (\<lambda>_. True)"
    by (auto simp: triple_def record_completion_def andthen_def andalso_def call_cuda_def change_def throw_status_def
        raise_def ret_def closed_def Let_def split: if_splits)
  have "triple closed (cuda_check cu (Set_device (dev st0 rank))) (\<lambda>_. closed) (\<lambda>_. True)"
    by (rule preserves_triple[OF quiet_check[OF quiet_closed]]) simp_all
  moreover have "triple closed (call_cuda cu (Launch rank (dtype a) kern (stream a) (kernel_args_for K rdma st0 a rank))) (\<lambda>_. ?R) (\<lambda>_. True)"
    by (simp add: triple_def call_cuda_def closed_def Let_def)
  moreover have "triple ?R (cuda_check cu Last_error) (\<lambda>_. ?R) (\<lambda>_. True)"
    by (rule preserves_triple[OF quiet_check[OF q]]) simp_all
  ultimately show ?thesis unfolding launch_one_def
    by (intro triple_andalso[where R = closed] triple_andthen[where R = "\<lambda>_. ?R"] triple_andalso[where R = ?R] rec) auto
qed

lemma launch_ring_simple_triple:
  assumes "\<And>rank st0. triple (\<lambda>st. P st \<and> st = st0) (launch_one K rdma cu kern a rank st0) (\<lambda>_. P) E"
    and "preserves P (ensure_completion_events cu)" "\<And>st. P st \<Longrightarrow> E st"
  shows "triple P (launch_ring_simple K rdma cu kern a) (\<lambda>_. P) E"
proof -
  let ?step = "\<lambda>rank. with_state (\<lambda>st.
          if ring_edge_index (nat (local_rank_offset (m_topology st)) + rank) ((nat (local_rank_offset (m_topology st)) + rank + 1) mod K) K < 0 \<or>
             ring_edge_index ((nat (local_rank_offset (m_topology st)) + rank + K - 1) mod K) (nat (local_rank_offset (m_topology st)) + rank) K < 0
          then raise (Runtime_error ''ring_simple saw an unexpected ring edge'')
          else launch_one K rdma cu kern a rank st)"
  have one: "triple P (?step rank) (\<lambda>_. P) E" for rank
    by (intro triple_with_state triple_if triple_raise) (auto intro: assms)
  have "triple P (for_each [0..<local_rank_count st] ?step) (\<lambda>_. P) E" for st
    by (rule triple_for_each) (rule one)
  then have "triple P (with_state (\<lambda>st0. for_each [0..<local_rank_count st0] ?step)) (\<lambda>_. P) E"
    by (intro triple_with_state) (auto intro: triple_weaken)
  moreover have "triple P (ensure_completion_events cu) (\<lambda>_. P) E"
    by (rule preserves_triple[OF assms(2,3)])
  ultimately show ?thesis unfolding launch_ring_simple_eq by (blast intro: triple_andalso)
qed

definition tracked :: "comm \<Rightarrow> bool" where
  "tracked st \<longleftrightarrow> m_has_untracked_launch st \<or> closed st"

lemma launch_body_closed: "triple closed (launch_body K rdma cu kern a) (\<lambda>_. closed) (\<lambda>_. True)"
proof -
  have "triple closed (launch_ring_simple K rdma cu kern a) (\<lambda>_. closed) (\<lambda>_. True)"
    by (rule launch_ring_simple_triple)
       (auto intro!: triple_weaken[OF launch_one_closed] quiet_events quiet_closed)
  moreover have "triple closed (init_control cu (stream a)) (\<lambda>_. closed) (\<lambda>_. True)"
    by (rule preserves_triple[OF quiet_init_control[OF quiet_closed]]) simp_all
  moreover have "triple closed (wait_for_previous_launch_on_stream cu (stream a)) (\<lambda>_. closed) (\<lambda>_. True)"
    by (rule preserves_triple[OF quiet_wait[OF quiet_closed]]) simp
  ultimately show ?thesis unfolding launch_body_def by (blast intro: triple_andalso)
qed

lemma run_typed_tracked: "triple tracked (run_typed K C rdma cu kern a n) (\<lambda>_. tracked) tracked"
proof -
  have q: "quiet tracked" using quiet_closed by (auto simp: quiet_def tracked_def)
  have "preserves tracked (ensure_fifo_buffers K C cu (dtype a) (unat n))"
    by (rule quiet_fifo[OF q]) (auto simp: tracked_def)
  moreover have "triple (\<lambda>st. tracked st \<and> st = st0)
     (if m_has_untracked_launch st0
      then raise (Runtime_error ''cannot launch collective after completion tracking failed'')
      else andalso (begin_fallback_tracking (stream a))
            (on_exception (launch_body K rdma cu kern a) (\<lambda>st. st\<lparr>m_has_untracked_launch := True\<rparr>))) (\<lambda>_. tracked) tracked" for st0
  proof (intro triple_if triple_raise triple_andalso[where R = closed])
    show "triple (\<lambda>st. tracked st \<and> st = st0) (begin_fallback_tracking (stream a)) (\<lambda>_. closed) tracked"
      if "\<not> m_has_untracked_launch st0"
      using that unfolding begin_fallback_tracking_def by (intro triple_change) (auto simp: tracked_def)
    show "triple closed (on_exception (launch_body K rdma cu kern a) (\<lambda>st. st\<lparr>m_has_untracked_launch := True\<rparr>)) (\<lambda>_. tracked) tracked"
      by (rule triple_on_exception[where E' = "\<lambda>_. True"])
         (auto intro: triple_weaken[OF launch_body_closed] simp: tracked_def)
  qed auto
  ultimately show ?thesis unfolding run_typed_eq preserves_def
    by (blast intro: triple_andalso triple_with_state)
qed

text \<open>C19: Every launch is tracked. In a communicator whose launches are tracked, every collective leaves it
  so, whether it returns or throws: either tracking is marked as lost, or each kernel launched so far
  is followed in the log by a successful completion record of its rank.\<close>

theorem launches_stay_tracked:
  assumes "m_has_untracked_launch st \<or> (\<forall>r. \<not> open_launch (log st) r)"
    and "st' = snd (run_collective c K C rdma cu a st)"
  shows "m_has_untracked_launch st' \<or> (\<forall>r. \<not> open_launch (log st') r)"
proof -
  have "triple tracked (run_collective c K C rdma cu a) (\<lambda>_. tracked) tracked"
    by (rule collective_triple[OF run_typed_tracked]) (auto simp: tracked_def)
  then have "tracked st'" using preserves_run[of tracked _ st] assms by (simp add: preserves_def tracked_def closed_def)
  then show ?thesis by (simp add: tracked_def closed_def)
qed

section \<open>FIFO replacement\<close>

definition queried :: "cuda_log \<Rightarrow> nat \<Rightarrow> comm \<Rightarrow> bool" where
  "queried base r = since base (\<lambda>new. (Event_query r, Cuda_ok) \<in> set new)"

lemma quiet_queried: "quiet (queried base r)"
  unfolding queried_def quiet_def by (auto intro: since_cons)

lemma quiet_conj: "quiet I \<Longrightarrow> quiet J \<Longrightarrow> quiet (\<lambda>st. I st \<and> J st)"
  by (simp add: quiet_def)

lemma quiet_all: "(\<And>r. quiet (I r)) \<Longrightarrow> quiet (\<lambda>st. \<forall>r\<in>A. I r st)"
  by (simp add: quiet_def)

lemma quiet_field: "quiet (\<lambda>st. P (f (log_update (\<lambda>_. []) st)))"
  by (simp add: quiet_def)

lemma require_previous_queries:
  assumes "quiet I"
  shows "triple (\<lambda>st. I st \<and> st = st0 \<and> since base (\<lambda>_. True) st) (require_previous_launch_complete cu)
    (\<lambda>_ st. I st \<and> \<not> m_has_untracked_launch st0 \<and> (m_has_launch st0 \<longrightarrow> (\<forall>r<local_rank_count st0. queried base r st))) I"
proof -
  let ?S = "\<lambda>st. I st \<and> since base (\<lambda>_. True) st"
  let ?f = "\<lambda>rank. andalso (cuda_check cu (Set_device (dev st0 rank)))
           (andthen (call_cuda cu (Event_query rank)) (\<lambda>status.
              if status = Cuda_not_ready
              then raise (Runtime_error ''cannot grow communicator FIFO while a prior collective is running'')
              else throw_status status))"
  have qS: "quiet ?S" using assms by (auto simp: quiet_def since_def)
  have keep: "preserves J (?f rank)" if "quiet J" for J rank
    using that by (intro preserving) simp_all
  have q: "triple ?S (andthen (call_cuda cu (Event_query rank)) (\<lambda>status.
              if status = Cuda_not_ready
              then raise (Runtime_error ''cannot grow communicator FIFO while a prior collective is running'')
              else throw_status status)) (\<lambda>_ st. ?S st \<and> queried base rank st) I" for rank
    using assms by (auto simp: triple_def andthen_def call_cuda_def throw_status_def ret_def raise_def queried_def
        since_def quiet_def Let_def)
  have one: "triple ?S (?f rank) (\<lambda>_ st. ?S st \<and> queried base rank st) I" for rank
    by (rule triple_andalso[OF preserves_triple[OF quiet_check[OF qS]] q]) simp_all
  have "triple (\<lambda>s. ?S s \<and> queried base y s) (?f x) (\<lambda>_ s. queried base y s) (\<lambda>_. True)" for x y
    using keep[OF quiet_conj[OF qS quiet_queried[of base y]], of x] by (auto simp: preserves_def intro: triple_weaken)
  with one have "triple ?S (for_each [0..<local_rank_count st0] ?f)
      (\<lambda>_ st. ?S st \<and> (\<forall>r\<in>set [0..<local_rank_count st0]. queried base r st)) I"
    by (intro triple_for_each_collect) auto
  then have loop: "triple ?S (for_each [0..<local_rank_count st0] ?f)
      (\<lambda>_ st. I st \<and> (\<forall>r<local_rank_count st0. queried base r st)) I"
    by (rule triple_weaken) auto
  show ?thesis
  proof (cases "m_has_untracked_launch st0 \<or> \<not> m_has_launch st0")
    case True
    then show ?thesis
      by (auto simp: triple_def require_previous_launch_complete_def with_state_def raise_def ret_def)
  next
    case False
    then show ?thesis using loop
      by (auto simp: triple_def require_previous_launch_complete_def with_state_def)
  qed
qed

definition fifo_cells :: "nat \<Rightarrow> nat \<Rightarrow> comm \<Rightarrow> (nat \<times> nat) list" where
  "fifo_cells K C st = filter (\<lambda>(ch, e). shm_edge K st e)
     (concat (map (\<lambda>ch. map (Pair ch) [0..<nat (global_rank_count (m_topology st))]) [0..<C]))"

lemma ensure_fifo_triple:
  assumes "quiet I"
  shows "triple (\<lambda>st. I st \<and> st = st0 \<and> since base (\<lambda>_. True) st) (ensure_fifo_buffers K C cu d n)
    (\<lambda>_ st. required_slots K C (distributed (m_topology st0)) d n \<le> slot_elems (m_fifo st0 d) \<and> I st \<and> st = st0 \<or>
       (\<exists>st1 f. st = st1\<lparr>m_fifo := (m_fifo st1)(d := f)\<rparr> \<and> I st1 \<and>
          slot_elems f = required_slots K C (distributed (m_topology st0)) d n \<and>
          \<not> m_has_untracked_launch st0 \<and> (m_has_launch st0 \<longrightarrow> (\<forall>r<local_rank_count st0. queried base r st1)))) I"
proof (cases "required_slots K C (distributed (m_topology st0)) d n \<le> slot_elems (m_fifo st0 d)")
  case True
  then show ?thesis by (auto simp: triple_def ensure_fifo_buffers_def with_state_def ret_def Let_def)
next
  case False
  let ?req = "required_slots K C (distributed (m_topology st0)) d n"
  let ?J = "\<lambda>st. I st \<and> \<not> m_has_untracked_launch st0 \<and> (m_has_launch st0 \<longrightarrow> (\<forall>r<local_rank_count st0. queried base r st))"
  let ?alloc = "for_each (fifo_cells K C st0) (\<lambda>(ch, e). cuda_check cu (Alloc_shm ch e (kFifoSteps * ?req)))"
  let ?p2p = "uses_p2p (m_transport_plan st0) \<and> \<not> distributed (m_topology st0)"
  have qJ: "quiet ?J" using assms quiet_queried by (auto simp: quiet_def)
  have 1: "triple ?J ?alloc (\<lambda>_. ?J) I"
    by (rule preserves_triple) (intro preserving qJ, simp_all)
  have 2: "triple ?J (run_if ?p2p (cuda_check cu (Alloc_p2p ?req))) (\<lambda>_. ?J) I"
    by (rule preserves_triple) (intro preserving qJ, simp_all)
  have e: "ensure_fifo_buffers K C cu d n st0 =
     andalso (require_previous_launch_complete cu) (andalso ?alloc (andalso (run_if ?p2p (cuda_check cu (Alloc_p2p ?req)))
        (change (\<lambda>st. st\<lparr>m_fifo := (m_fifo st)(d := \<lparr>slot_elems = ?req, shm_fifo = fifo_cells K C st0, p2p_fifo = ?p2p\<rparr>)\<rparr>)))) st0"
    using False by (simp add: ensure_fifo_buffers_def with_state_def Let_def fifo_cells_def)
  have "triple (\<lambda>st. I st \<and> st = st0 \<and> since base (\<lambda>_. True) st)
     (andalso (require_previous_launch_complete cu) (andalso ?alloc (andalso (run_if ?p2p (cuda_check cu (Alloc_p2p ?req)))
        (change (\<lambda>st. st\<lparr>m_fifo := (m_fifo st)(d := \<lparr>slot_elems = ?req, shm_fifo = fifo_cells K C st0, p2p_fifo = ?p2p\<rparr>)\<rparr>)))))
     (\<lambda>_ st. \<exists>st1 f. st = st1\<lparr>m_fifo := (m_fifo st1)(d := f)\<rparr> \<and> I st1 \<and> slot_elems f = ?req \<and>
          \<not> m_has_untracked_launch st0 \<and> (m_has_launch st0 \<longrightarrow> (\<forall>r<local_rank_count st0. queried base r st1))) I"
    by (rule triple_andalso[OF require_previous_queries[OF assms]], rule triple_andalso[OF 1], rule triple_andalso[OF 2],
        rule triple_change) (auto intro!: exI)
  then show ?thesis using e by (simp add: triple_def) (auto split: prod.splits sum.splits)
qed

text \<open>C20: FIFO storage is never replaced under a running kernel. When \<open>ensure_fifo_buffers\<close> returns, the slots
  are large enough; and if it replaced the storage, tracking was intact and, when something had been
  launched, the completion event of every local rank was queried and found complete in this very call.
  When it throws, the storage is untouched.\<close>

theorem ensure_fifo_buffers_safe:
  assumes "ensure_fifo_buffers K C cu d n st = (r, st')"
  shows "case r of
      Inl e \<Rightarrow> m_fifo st' = m_fifo st
    | Inr _ \<Rightarrow> required_slots K C (distributed (m_topology st)) d n \<le> slot_elems (m_fifo st' d) \<and>
        (m_fifo st' \<noteq> m_fifo st \<longrightarrow> \<not> m_has_untracked_launch st \<and>
           (m_has_launch st \<longrightarrow>
              (\<exists>new. log st' = new @ log st \<and> list_all (\<lambda>r. (Event_query r, Cuda_ok) \<in> set new) [0..<local_rank_count st])))"
proof -
  let ?I = "\<lambda>s. m_fifo s = m_fifo st \<and> since (log st) (\<lambda>_. True) s"
  have q: "quiet ?I" by (auto simp: quiet_def since_def)
  from triple_run[OF ensure_fifo_triple[OF q, of st "log st"] _ assms] have
    "case r of Inl e \<Rightarrow> ?I st'
     | Inr _ \<Rightarrow> required_slots K C (distributed (m_topology st)) d n \<le> slot_elems (m_fifo st d) \<and> ?I st' \<and> st' = st \<or>
        (\<exists>st1 f. st' = st1\<lparr>m_fifo := (m_fifo st1)(d := f)\<rparr> \<and> ?I st1 \<and>
          slot_elems f = required_slots K C (distributed (m_topology st)) d n \<and>
          \<not> m_has_untracked_launch st \<and> (m_has_launch st \<longrightarrow> (\<forall>r<local_rank_count st. queried (log st) r st1)))"
    by (simp add: since_def)
  then show ?thesis
    by (auto simp: queried_def since_def list_all_iff split: sum.splits)
qed

section \<open>Slots fit the kernels\<close>

lemma vector_dvd_grain: "vector_elems d dvd simple_grain_elems d" and vector_dvd_step: "vector_elems d dvd step_elems d"
  and step_elems_pos: "0 < step_elems d" and grain_pos: "0 < simple_grain_elems d"
  by (cases d; simp add: vector_elems_def simple_grain_elems_def step_elems_def simple_consts)+

lemma chunk_aligned: "vector_elems d dvd snd (snd (cbd_part K C d n ch))"
  using vector_dvd_grain[of d] by (auto simp: cbd_part_def Let_def align_up_def intro: dvd_mult)

lemma fold_max_cases:
  "fold (\<lambda>ch m. max m (f ch)) xs m0 = m0 \<or> (\<exists>ch\<in>set xs. fold (\<lambda>ch m. max m (f ch)) xs m0 = (f ch :: nat))"
proof (induction xs arbitrary: m0)
  case (Cons x xs)
  from Cons[of "max m0 (f x)"] show ?case by (auto simp: max_def split: if_splits)
qed simp

lemma fold_max_ge: "ch \<in> set xs \<Longrightarrow> (f ch :: nat) \<le> fold (\<lambda>ch m. max m (f ch)) xs m0"
  and fold_max_start: "m0 \<le> fold (\<lambda>ch m. max m (f ch :: nat)) xs m0"
proof -
  show start: "m0 \<le> fold (\<lambda>ch m. max m (f ch)) xs m0" for m0 xs
    by (induction xs arbitrary: m0) (auto intro: order_trans[OF max.cobounded1])
  show "ch \<in> set xs \<Longrightarrow> f ch \<le> fold (\<lambda>ch m. max m (f ch)) xs m0"
  proof (induction xs arbitrary: m0)
    case (Cons x xs)
    then show ?case using start[of "max m0 (f x)" xs] by auto
  qed simp
qed

lemma last_chunk_pos:
  assumes "0 < C" "0 < n" "0 < K"
  shows "0 < snd (snd (cbd_part K C d n (C - 1)))"
proof -
  let ?v = "vector_elems d"
  have "n * (C - 1) < n * C" using assms by simp
  then have "n * (C - 1) div C < n" using assms(1) by (simp add: div_less_iff_less_mult)
  then have lt: "n * (C - 1) div C div ?v * ?v < n" by (meson div_times_less_eq_dividend le_less_trans)
  have "0 < div_up (n - n * (C - 1) div C div ?v * ?v) K" using lt assms(3) by (intro div_up_pos) simp_all
  then have "0 < align_up (div_up (n - n * (C - 1) div C div ?v * ?v) K) (simple_grain_elems d)"
    using grain_pos[of d] by (simp add: align_up_def div_up_pos)
  with lt assms(1) show ?thesis by (simp add: cbd_part_def Let_def)
qed

lemma required_slots_valid:
  assumes "0 < C" "0 < n" "0 < K"
  shows "0 < required_slots K C dist d n \<and> vector_elems d dvd required_slots K C dist d n"
proof (cases dist)
  case True
  then show ?thesis by (simp add: required_slots_def vector_dvd_step step_elems_pos)
next
  case False
  let ?f = "\<lambda>ch. snd (snd (cbd_part K C d n ch))"
  let ?m = "fold (\<lambda>ch m. max m (?f ch)) [0..<C] 0"
  have "?f (C - 1) \<le> ?m" using assms(1) by (intro fold_max_ge) auto
  with last_chunk_pos[OF assms, of d] have pos: "0 < ?m" by linarith
  moreover have "vector_elems d dvd ?m" using fold_max_cases[of ?f "[0..<C]" 0] chunk_aligned by auto
  moreover have "max ?m 1 = ?m" using pos by (intro max_absorb1) linarith
  ultimately show ?thesis using False by (simp only: required_slots_def Let_def if_False simp_thms)
qed

definition slots_aligned :: "comm \<Rightarrow> bool" where
  "slots_aligned st \<longleftrightarrow> (\<forall>d. vector_elems d dvd slot_elems (m_fifo st d))"

text \<open>What a launch must have for the ring kernels to be correct.\<close>

fun launch_valid :: "coll_args \<Rightarrow> cuda_call \<Rightarrow> bool" where
  "launch_valid a (Launch rank d kern s k) =
     (d = dtype a \<and> s = stream a \<and> k_input k = send_buffer a \<and> k_output k = recv_buffer a \<and> k_count k = elem_count a \<and>
      k_step_elems k = step_elems d \<and> 0 < k_slot_elems k \<and> vector_elems d dvd k_slot_elems k)"
| "launch_valid a c = True"

lemma launch_valid_quiet: "\<not> is_launch c \<Longrightarrow> launch_valid a c"
  by (cases c) simp_all

definition launches_valid :: "coll_args \<Rightarrow> cuda_log \<Rightarrow> bool" where
  "launches_valid a new = list_all (\<lambda>e. launch_valid a (fst e)) new"

definition fit_inv :: "coll_args \<Rightarrow> cuda_log \<Rightarrow> comm \<Rightarrow> bool" where
  "fit_inv a base st \<longleftrightarrow> slots_aligned st \<and> since base (launches_valid a) st"

lemma quiet_fit: "quiet (fit_inv a base)" and quiet_fit_slot: "quiet (\<lambda>st. fit_inv a base st \<and> 0 < slot_elems (m_fifo st d))"
  by (auto simp: quiet_def fit_inv_def slots_aligned_def since_def launches_valid_def launch_valid_quiet)

lemma fit_inv_fields [simp]:
  "fit_inv a base (st\<lparr>m_completion_events := x1\<rparr>) = fit_inv a base st"
  "fit_inv a base (st\<lparr>m_completion_recorded := x1\<rparr>) = fit_inv a base st"
  "fit_inv a base (st\<lparr>m_fallback_in_flight := x1\<rparr>) = fit_inv a base st"
  "fit_inv a base (st\<lparr>m_fallback_streams := x5\<rparr>) = fit_inv a base st"
  "fit_inv a base (st\<lparr>m_has_launch := b\<rparr>) = fit_inv a base st"
  "fit_inv a base (st\<lparr>m_has_untracked_launch := b\<rparr>) = fit_inv a base st"
  "fit_inv a base (st\<lparr>m_p2p_steps := b\<rparr>) = fit_inv a base st"
  "fit_inv a base (st\<lparr>m_control_initialized := b\<rparr>) = fit_inv a base st"
  "fit_inv a base (st\<lparr>m_bf16_devices_validated := b\<rparr>) = fit_inv a base st"
  by (simp_all add: fit_inv_def slots_aligned_def since_def)

lemma launch_one_fit:
  "triple (\<lambda>st. (fit_inv a base st \<and> 0 < slot_elems (m_fifo st (dtype a))) \<and> st = st0)
     (launch_one K rdma cu kern a rank st0) (\<lambda>_ st. fit_inv a base st \<and> 0 < slot_elems (m_fifo st (dtype a))) (fit_inv a base)"
proof -
  let ?P = "\<lambda>st. fit_inv a base st \<and> 0 < slot_elems (m_fifo st (dtype a))"
  let ?ok = "launch_valid a (Launch rank (dtype a) kern (stream a) (kernel_args_for K rdma st0 a rank))"
  have set: "triple (\<lambda>st. ?P st \<and> ?ok) (cuda_check cu (Set_device (dev st0 rank))) (\<lambda>_ st. ?P st \<and> ?ok) (fit_inv a base)"
    by (rule preserves_triple[OF quiet_check]) (use quiet_fit_slot in \<open>auto simp: quiet_def\<close>)
  have launch: "triple (\<lambda>st. ?P st \<and> ?ok) (call_cuda cu (Launch rank (dtype a) kern (stream a) (kernel_args_for K rdma st0 a rank)))
      (\<lambda>_. ?P) (fit_inv a base)"
    by (auto simp: triple_def call_cuda_def fit_inv_def slots_aligned_def since_def launches_valid_def Let_def)
  have last: "triple ?P (cuda_check cu Last_error) (\<lambda>_. ?P) (fit_inv a base)"
    by (rule preserves_triple[OF quiet_check[OF quiet_fit_slot]]) simp_all
  have rec: "triple ?P (record_completion cu rank (stream a)) (\<lambda>_. ?P) (fit_inv a base)"
    by (auto simp: triple_def record_completion_def andthen_def andalso_def call_cuda_def change_def throw_status_def
        raise_def ret_def Let_def fit_inv_def slots_aligned_def since_def launches_valid_def split: if_splits)
  have "triple (\<lambda>st. ?P st \<and> ?ok) (launch_one K rdma cu kern a rank st0) (\<lambda>_. ?P) (fit_inv a base)"
    unfolding launch_one_def
    by (rule triple_andalso[OF set], rule triple_andthen[OF launch], rule triple_andalso[OF last rec])
  then show ?thesis
    by (rule triple_weaken) (auto simp: kernel_args_for_def Let_def fit_inv_def slots_aligned_def)
qed

lemma run_typed_fit:
  assumes "0 < K" "0 < C" "unat n \<noteq> 0"
  shows "triple (fit_inv a base) (run_typed K C rdma cu kern a n) (\<lambda>_. fit_inv a base) (fit_inv a base)"
proof -
  let ?P = "\<lambda>st. fit_inv a base st \<and> 0 < slot_elems (m_fifo st (dtype a))"
  have req: "0 < required_slots K C x (dtype a) (unat n) \<and> vector_elems (dtype a) dvd required_slots K C x (dtype a) (unat n)" for x
    using required_slots_valid[of C "unat n" K] assms by simp
  have "triple (\<lambda>st. fit_inv a base st \<and> st = st0 \<and> since (log st0) (\<lambda>_. True) st) (ensure_fifo_buffers K C cu (dtype a) (unat n)) (\<lambda>_. ?P) (fit_inv a base)" for st0
    by (rule triple_weaken[OF ensure_fifo_triple[OF quiet_fit]])
       (use req in \<open>auto simp: fit_inv_def slots_aligned_def since_def intro: less_le_trans[OF conjunct1[OF req]]\<close>)
  then have fifo: "triple (fit_inv a base) (ensure_fifo_buffers K C cu (dtype a) (unat n)) (\<lambda>_. ?P) (fit_inv a base)"
    by (simp add: triple_def since_def)
  have lr: "triple ?P (launch_ring_simple K rdma cu kern a) (\<lambda>_. ?P) (fit_inv a base)"
    by (rule launch_ring_simple_triple[OF launch_one_fit]) (auto intro!: quiet_events quiet_fit_slot)
  have body: "triple ?P (launch_body K rdma cu kern a) (\<lambda>_. fit_inv a base) (fit_inv a base)"
    unfolding launch_body_def
    by (rule triple_andalso[OF preserves_triple[OF quiet_wait[OF quiet_fit_slot]]], simp,
        rule triple_andalso[OF preserves_triple[OF quiet_init_control[OF quiet_fit_slot]]])
       (auto intro: triple_weaken[OF lr])
  have ex: "triple ?P (on_exception (launch_body K rdma cu kern a) (\<lambda>st. st\<lparr>m_has_untracked_launch := True\<rparr>)) (\<lambda>_. fit_inv a base) (fit_inv a base)"
    by (rule triple_on_exception[OF body]) simp
  have bg: "triple ?P (begin_fallback_tracking (stream a)) (\<lambda>_. ?P) (fit_inv a base)"
    unfolding begin_fallback_tracking_def by (rule triple_change) simp
  show ?thesis unfolding run_typed_eq
    by (rule triple_andalso[OF fifo], rule triple_with_state, rule triple_if)
       (auto intro: triple_raise triple_weaken[OF triple_andalso[OF bg ex]])
qed

lemma fit_inv_collective:
  assumes "0 < K" "0 < C" "slots_aligned st"
  shows "fit_inv a (log st) (snd (run_collective c K C rdma cu a st))"
proof -
  have "triple (fit_inv a (log st)) (run_collective c K C rdma cu a) (\<lambda>_. fit_inv a (log st)) (fit_inv a (log st))"
    by (rule collective_triple[OF run_typed_fit[OF assms(1,2)]]) simp_all
  moreover have "fit_inv a (log st) st" using assms(3) by (simp add: fit_inv_def since_def launches_valid_def)
  ultimately show ?thesis using preserves_run by (fastforce simp: preserves_def)
qed

text \<open>C24: Every kernel is launched with FIFO slots the ring kernels are correct for: positive and a whole
  number of 16-byte vectors, together with the collective's own buffers, count, data type and step
  size. The FIFO storage of every data type keeps that shape.\<close>

theorem launch_slots_valid:
  assumes "0 < K" "0 < C" "\<forall>d. vector_elems d dvd slot_elems (m_fifo st d)"
    and "st' = snd (run_collective c K C rdma cu a st)"
  shows "(\<exists>new. log st' = new @ log st \<and> list_all (\<lambda>e. launch_valid a (fst e)) new) \<and>
     (\<forall>d. vector_elems d dvd slot_elems (m_fifo st' d))"
proof (intro conjI)
  have "fit_inv a (log st) st'" using fit_inv_collective assms by (simp add: slots_aligned_def)
  then show "\<exists>new. log st' = new @ log st \<and> list_all (\<lambda>e. launch_valid a (fst e)) new"
    "\<forall>d. vector_elems d dvd slot_elems (m_fifo st' d)"
    by (auto simp: fit_inv_def slots_aligned_def since_def launches_valid_def)
qed

section \<open>Ordering on the stream\<close>

definition waited :: "64 word \<Rightarrow> nat \<Rightarrow> cuda_log \<Rightarrow> bool" where
  "waited s n early = list_all (\<lambda>r. (Stream_wait s r, Cuda_ok) \<in> set early) [0..<n]"

text \<open>No launch, or launches only after all the waits.\<close>

definition ordered :: "64 word \<Rightarrow> nat \<Rightarrow> cuda_log \<Rightarrow> bool" where
  "ordered s n new \<longleftrightarrow> no_launch new \<or> (\<exists>late early. new = late @ early \<and> no_launch early \<and> waited s n early)"

definition early_inv :: "nat \<Rightarrow> cuda_log \<Rightarrow> comm \<Rightarrow> bool" where
  "early_inv n base st \<longleftrightarrow> since base no_launch st \<and> m_has_launch st \<and> local_rank_count st = n"

definition late_inv :: "64 word \<Rightarrow> nat \<Rightarrow> cuda_log \<Rightarrow> comm \<Rightarrow> bool" where
  "late_inv s n base st \<longleftrightarrow> since base (\<lambda>new. \<exists>late early. new = late @ early \<and> no_launch early \<and> waited s n early) st"

lemma quiet_early: "quiet (early_inv n base)"
  by (auto simp: quiet_def early_inv_def since_def no_launch_def local_rank_count_def)

lemma late_call [preserving]: "preserves (late_inv s n base) (call_cuda cu c)"
  by (rule preserves_call_cuda) (auto simp: late_inv_def since_def, metis append_Cons)

lemma quiet_late: "quiet (late_inv s n base)"
  using late_call[of s n base] unfolding quiet_def late_inv_def since_def by (auto, metis append_Cons)

lemma late_change: "(\<And>st. log (f st) = log st) \<Longrightarrow> preserves (late_inv s n base) (change f)"
  by (rule preserves_change) (simp add: late_inv_def since_def)

lemma wait_establishes:
  "triple (early_inv n base) (wait_for_previous_launch_on_stream cu s) (\<lambda>_. late_inv s n base) (early_inv n base)"
proof -
  let ?R = "\<lambda>r st. since base (\<lambda>new. (Stream_wait s r, Cuda_ok) \<in> set new) st"
  have q: "quiet (?R r)" for r by (auto simp: quiet_def since_def)
  have one: "triple (early_inv n base) (cuda_check cu (Stream_wait s r)) (\<lambda>_ st. early_inv n base st \<and> ?R r st) (early_inv n base)" for r
    by (auto simp: triple_def cuda_check_def andthen_def call_cuda_def throw_status_def ret_def raise_def early_inv_def since_def
        no_launch_def local_rank_count_def Let_def)
  have keep: "triple (\<lambda>st. early_inv n base st \<and> ?R r' st) (cuda_check cu (Stream_wait s r)) (\<lambda>_ st. ?R r' st) (\<lambda>_. True)" for r r'
    using preserves_triple[OF quiet_check[OF quiet_conj[OF quiet_early[of n base] q[of r']], of "Stream_wait s r" cu], of "\<lambda>_. True"]
    by (auto intro: triple_weaken)
  have "triple (early_inv n base) (for_each [0..<n] (\<lambda>r. cuda_check cu (Stream_wait s r)))
      (\<lambda>_ st. early_inv n base st \<and> (\<forall>r\<in>set [0..<n]. ?R r st)) (early_inv n base)"
    by (rule triple_for_each_collect) (rule one, rule keep)
  then have loop: "triple (early_inv n base) (for_each [0..<n] (\<lambda>r. cuda_check cu (Stream_wait s r)))
      (\<lambda>_. late_inv s n base) (early_inv n base)"
    by (rule triple_weaken) (auto simp: early_inv_def late_inv_def since_def waited_def list_all_iff, force)
  have "triple (\<lambda>st. early_inv n base st \<and> st = st0)
      (if m_has_untracked_launch st0 then raise (Runtime_error ''cannot launch collective after completion tracking failed'')
       else if \<not> m_has_launch st0 then ret ()
       else andalso (cuda_check cu (Set_device (dev st0 0)))
              (for_each [0..<local_rank_count st0] (\<lambda>rank. cuda_check cu (Stream_wait s rank)))) (\<lambda>_. late_inv s n base) (early_inv n base)" for st0
  proof (cases "early_inv n base st0")
    case True
    then have "m_has_launch st0" "local_rank_count st0 = n" by (simp_all add: early_inv_def)
    moreover have "triple (early_inv n base) (andalso (cuda_check cu (Set_device (dev st0 0)))
              (for_each [0..<n] (\<lambda>rank. cuda_check cu (Stream_wait s rank)))) (\<lambda>_. late_inv s n base) (early_inv n base)"
      by (rule triple_andalso[OF preserves_triple[OF quiet_check[OF quiet_early]] loop]) simp_all
    ultimately show ?thesis by (auto intro: triple_raise triple_weaken)
  next
    case False
    then show ?thesis by (auto simp: triple_def)
  qed
  then show ?thesis unfolding wait_for_previous_launch_on_stream_def by (rule triple_with_state)
qed

lemma launch_body_ordered:
  "triple (early_inv n base) (launch_body K rdma cu kern a) (\<lambda>_. late_inv (stream a) n base)
     (\<lambda>st. early_inv n base st \<or> late_inv (stream a) n base st)"
proof -
  let ?L = "late_inv (stream a) n base"
  have "preserves ?L (record_completion cu rank (stream a))" for rank
    unfolding record_completion_def by (intro preserving late_change) simp_all
  then have "preserves ?L (launch_one K rdma cu kern a rank st0)" for rank st0
    unfolding launch_one_def by (intro preserving)
  then have one: "triple (\<lambda>st. ?L st \<and> st = st0) (launch_one K rdma cu kern a rank st0) (\<lambda>_. ?L) ?L" for rank st0
    unfolding preserves_def by (blast intro: triple_weaken)
  have "triple ?L (launch_ring_simple K rdma cu kern a) (\<lambda>_. ?L) ?L"
    by (rule launch_ring_simple_triple[OF one quiet_events[OF quiet_late]]) (simp_all add: late_inv_def since_def)
  moreover have "preserves ?L (init_control cu (stream a))"
    by (rule quiet_init_control[OF quiet_late]) (simp_all add: late_inv_def since_def)
  ultimately have "triple ?L (andalso (init_control cu (stream a)) (launch_ring_simple K rdma cu kern a)) (\<lambda>_. ?L) ?L"
    unfolding preserves_def by (blast intro: triple_andalso)
  then have rest: "triple ?L (andalso (init_control cu (stream a)) (launch_ring_simple K rdma cu kern a)) (\<lambda>_. ?L)
      (\<lambda>st. early_inv n base st \<or> ?L st)"
    by (rule triple_weaken) simp_all
  show ?thesis unfolding launch_body_def
    by (rule triple_andalso[OF triple_weaken[OF wait_establishes] rest]) auto
qed

lemma run_typed_ordered:
  "triple (early_inv n base) (run_typed K C rdma cu kern a m) (\<lambda>_. since base (ordered (stream a) n))
     (since base (ordered (stream a) n))"
proof -
  have e: "early_inv n base st \<Longrightarrow> since base (ordered (stream a) n) st" for st
    by (auto simp: early_inv_def since_def ordered_def)
  have l: "late_inv (stream a) n base st \<Longrightarrow> since base (ordered (stream a) n) st" for st
    by (auto simp: late_inv_def since_def ordered_def)
  have u: "since base P (st\<lparr>m_has_untracked_launch := b\<rparr>) = since base P st" for P st b by (simp add: since_def)
  have fifo: "triple (early_inv n base) (ensure_fifo_buffers K C cu (dtype a) (unat m)) (\<lambda>_. early_inv n base) (since base (ordered (stream a) n))"
    by (rule preserves_triple[OF quiet_fifo[OF quiet_early]]) (auto simp: early_inv_def since_def local_rank_count_def ordered_def)
  have "triple (early_inv n base) (on_exception (launch_body K rdma cu kern a) (\<lambda>st. st\<lparr>m_has_untracked_launch := True\<rparr>))
      (\<lambda>_. since base (ordered (stream a) n)) (since base (ordered (stream a) n))"
    by (rule triple_on_exception[OF triple_weaken[OF launch_body_ordered]]) (auto simp: u intro: e l)
  moreover have "triple (early_inv n base) (begin_fallback_tracking (stream a)) (\<lambda>_. early_inv n base) (since base (ordered (stream a) n))"
    unfolding begin_fallback_tracking_def by (rule triple_change) (simp add: early_inv_def since_def local_rank_count_def)
  ultimately have rest: "triple (early_inv n base) (andalso (begin_fallback_tracking (stream a))
       (on_exception (launch_body K rdma cu kern a) (\<lambda>st. st\<lparr>m_has_untracked_launch := True\<rparr>)))
      (\<lambda>_. since base (ordered (stream a) n)) (since base (ordered (stream a) n))"
    by (blast intro: triple_andalso)
  show ?thesis unfolding run_typed_eq
    by (rule triple_andalso[OF fifo], rule triple_with_state, rule triple_if) (auto intro: triple_raise triple_weaken[OF rest] e)
qed

text \<open>C21: Collectives do not overlap. When something was launched before, a collective either launches nothing,
  or it launches only after it made its stream wait, successfully, for the completion event of every
  local rank.\<close>

theorem collective_waits_for_previous:
  assumes "m_has_launch st" "st' = snd (run_collective c K C rdma cu a st)"
  shows "\<exists>new. log st' = new @ log st \<and>
    (list_all (\<lambda>e. \<not> is_launch (fst e)) new \<or>
     (\<exists>late early. new = late @ early \<and> list_all (\<lambda>e. \<not> is_launch (fst e)) early \<and>
        list_all (\<lambda>r. (Stream_wait (stream a) r, Cuda_ok) \<in> set early) [0..<local_rank_count st]))"
proof -
  let ?n = "local_rank_count st"
  have "triple (early_inv ?n (log st)) (run_collective c K C rdma cu a) (\<lambda>_. since (log st) (ordered (stream a) ?n))
      (since (log st) (ordered (stream a) ?n))"
    by (rule collective_triple[OF run_typed_ordered]) (auto simp: early_inv_def since_def ordered_def local_rank_count_def)
  moreover have "early_inv ?n (log st) st" using assms(1) by (simp add: early_inv_def since_def no_launch_def)
  ultimately have "since (log st) (ordered (stream a) ?n) st'"
    using assms(2) by (cases "run_collective c K C rdma cu a st"; cases "fst (run_collective c K C rdma cu a st)")
      (fastforce simp: triple_def)+
  then show ?thesis by (simp add: since_def ordered_def no_launch_def waited_def)
qed

section \<open>A collective that returns has launched\<close>

definition launched :: "cuda_log \<Rightarrow> coll_args \<Rightarrow> kernel \<Rightarrow> nat \<Rightarrow> comm \<Rightarrow> bool" where
  "launched base a kern r = since base (\<lambda>new. \<exists>k s. (Launch r (dtype a) kern (stream a) k, s) \<in> set new)"

lemma grows_call [preserving]: "preserves (since base (\<lambda>_. True)) (call_cuda cu c)"
  and launched_call [preserving]: "preserves (launched base a kern r) (call_cuda cu c)"
  by (rule preserves_call_cuda, force simp: launched_def since_def)+

lemma since_change: "(\<And>st. log (f st) = log st) \<Longrightarrow> preserves (since base P) (change f)"
  by (rule preserves_change) (simp add: since_def)

lemma launch_one_since:
  "preserves (since base (\<lambda>_. True)) (launch_one K rdma cu kern a rank st0)"
  "preserves (launched base a kern' r) (launch_one K rdma cu kern a rank st0)"
  unfolding launch_one_def record_completion_def launched_def
  by (intro preserving since_change launched_call[unfolded launched_def]; simp)+

lemma launch_one_launches:
  "triple (since base (\<lambda>_. True)) (launch_one K rdma cu kern a rank st0)
     (\<lambda>_ st. since base (\<lambda>_. True) st \<and> launched base a kern rank st) (\<lambda>_. True)"
proof -
  let ?L = "\<lambda>st. since base (\<lambda>_. True) st \<and> launched base a kern rank st"
  have c: "triple (since base (\<lambda>_. True)) (call_cuda cu (Launch rank (dtype a) kern (stream a) (kernel_args_for K rdma st0 a rank)))
      (\<lambda>_. ?L) (\<lambda>_. True)"
    by (force simp: triple_def call_cuda_def launched_def since_def Let_def)
  have l: "?L = launched base a kern rank" by (auto simp: launched_def since_def fun_eq_iff)
  have "preserves (launched base a kern rank) (andalso (cuda_check cu Last_error) (record_completion cu rank (stream a)))"
    unfolding record_completion_def launched_def
    by (intro preserving since_change launched_call[unfolded launched_def]; simp)
  then have rest: "triple ?L (andalso (cuda_check cu Last_error) (record_completion cu rank (stream a))) (\<lambda>_. ?L) (\<lambda>_. True)"
    unfolding l by (rule preserves_triple) simp
  show ?thesis unfolding launch_one_def
    by (rule triple_andalso[OF preserves_triple[OF preserves_cuda_check[OF grows_call]]], simp, rule triple_andthen[OF c rest])
qed

lemma launch_ring_simple_launches:
  "triple (\<lambda>st. since base (\<lambda>_. True) st \<and> local_rank_count st = n) (launch_ring_simple K rdma cu kern a)
     (\<lambda>_ st. \<forall>r<n. launched base a kern r st) (\<lambda>_. True)"
proof -
  let ?G = "since base (\<lambda>_. True)"
  let ?step = "\<lambda>rank. with_state (\<lambda>st.
          if ring_edge_index (nat (local_rank_offset (m_topology st)) + rank) ((nat (local_rank_offset (m_topology st)) + rank + 1) mod K) K < 0 \<or>
             ring_edge_index ((nat (local_rank_offset (m_topology st)) + rank + K - 1) mod K) (nat (local_rank_offset (m_topology st)) + rank) K < 0
          then raise (Runtime_error ''ring_simple saw an unexpected ring edge'')
          else launch_one K rdma cu kern a rank st)"
  have one: "triple ?G (?step rank) (\<lambda>_ st. ?G st \<and> launched base a kern rank st) (\<lambda>_. True)" for rank
    by (intro triple_with_state triple_if triple_raise) (auto intro: triple_weaken[OF launch_one_launches])
  have keep: "triple (\<lambda>st. ?G st \<and> launched base a kern y st) (?step x) (\<lambda>_. launched base a kern y) (\<lambda>_. True)" for x y
    by (rule triple_weaken[OF preserves_triple[of "launched base a kern y" _ "\<lambda>_. True"]])
       (intro preserving launch_one_since, simp_all)
  have "triple ?G (for_each [0..<n] ?step) (\<lambda>_ st. ?G st \<and> (\<forall>r\<in>set [0..<n]. launched base a kern r st)) (\<lambda>_. True)"
    by (rule triple_for_each_collect) (rule one, rule keep)
  then have loop: "triple ?G (for_each [0..<n] ?step) (\<lambda>_ st. \<forall>r<n. launched base a kern r st) (\<lambda>_. True)"
    by (rule triple_weaken) auto
  have ev: "preserves (\<lambda>st. ?G st \<and> local_rank_count st = n) (ensure_completion_events cu)"
    by (rule quiet_events) (auto simp: quiet_def since_def local_rank_count_def)
  have each: "triple (\<lambda>s. (?G s \<and> local_rank_count s = n) \<and> s = s0) (for_each [0..<local_rank_count s0] ?step)
      (\<lambda>_ st. \<forall>r<n. launched base a kern r st) (\<lambda>_. True)" for s0
  proof (cases "local_rank_count s0 = n")
    case True
    show ?thesis unfolding True by (rule triple_weaken[OF loop]) simp_all
  next
    case False
    show ?thesis by (rule triple_weaken[OF triple_exit]) (use False in auto)
  qed
  show ?thesis unfolding launch_ring_simple_eq
    by (rule triple_andalso[OF preserves_triple[OF ev] triple_with_state[OF each]]) simp
qed

lemma run_typed_launches:
  "triple (\<lambda>st. since base (\<lambda>_. True) st \<and> local_rank_count st = n) (run_typed K C rdma cu kern a m)
     (\<lambda>_ st. \<forall>r<n. launched base a kern r st) (\<lambda>_. True)"
proof -
  let ?P = "\<lambda>st. since base (\<lambda>_. True) st \<and> local_rank_count st = n"
  have q: "quiet ?P" by (auto simp: quiet_def since_def local_rank_count_def)
  have body: "triple ?P (launch_body K rdma cu kern a) (\<lambda>_ st. \<forall>r<n. launched base a kern r st) (\<lambda>_. True)"
    unfolding launch_body_def
    by (rule triple_andalso[OF preserves_triple[OF quiet_wait[OF q]]], simp,
        rule triple_andalso[OF preserves_triple[OF quiet_init_control[OF q]] launch_ring_simple_launches])
       (simp_all add: since_def local_rank_count_def)
  have bg: "triple ?P (begin_fallback_tracking (stream a)) (\<lambda>_. ?P) (\<lambda>_. True)"
    unfolding begin_fallback_tracking_def by (rule triple_change) (simp add: since_def local_rank_count_def)
  have fifo: "triple ?P (ensure_fifo_buffers K C cu (dtype a) (unat m)) (\<lambda>_. ?P) (\<lambda>_. True)"
    by (rule preserves_triple[OF quiet_fifo[OF q]]) (simp_all add: since_def local_rank_count_def)
  show ?thesis unfolding run_typed_eq
    by (rule triple_andalso[OF fifo], rule triple_with_state, rule triple_if)
       (auto intro: triple_raise triple_weaken[OF triple_andalso[OF bg triple_on_exception[OF body]]])
qed

text \<open>The kernel of a collective.\<close>

fun kernel_of :: "collective \<Rightarrow> RedOp \<Rightarrow> kernel" where
  "kernel_of All_reduce op = K_all_reduce op"
| "kernel_of Reduce_scatter op = K_reduce_scatter op"
| "kernel_of All_gather op = K_all_gather"

lemma collective_return:
  assumes "run_collective c K C rdma cu a st = (Inr u, st')"
  shows "\<exists>n st1. run_typed K C rdma cu (kernel_of c (redop a)) a n st1 = (Inr u, st') \<and> log st1 = log st \<and> m_devices st1 = m_devices st"
proof -
  have bf: "log st1 = log st0 \<and> m_devices st1 = m_devices st0" if "ensure_bf16_devices_validated cu st0 = (x, st1)" for st0 st1 x
    using that by (auto simp: ensure_bf16_devices_validated_def with_state_def ret_def andalso_def andthen_def lift_def change_def
        split: if_splits prod.splits sum.splits)
  have ty: "\<exists>st1. run st1 = (Inr u, st') \<and> log st1 = log st \<and> m_devices st1 = m_devices st"
    if "typed cu (dtype a) run st = (Inr u, st')" for run
    using that bf by (auto simp: typed_def andalso_def andthen_def split: DType.splits prod.splits sum.splits)
  have "\<exists>n. typed cu (dtype a) (run_typed K C rdma cu (kernel_of c (redop a)) a n) st = (Inr u, st')"
    using assms by (cases c) (auto simp: all_reduce_def reduce_scatter_def all_gather_def andalso_def andthen_def with_state_def lift_def
        split: sum.splits prod.splits)
  with ty show ?thesis by blast
qed

lemma collective_launches:
  assumes "run_collective c K C rdma cu a st = (Inr u, st')" "r < local_rank_count st"
  shows "\<exists>new k s. log st' = new @ log st \<and> (Launch r (dtype a) (kernel_of c (redop a)) (stream a) k, s) \<in> set new"
proof -
  obtain n st1 where st1: "run_typed K C rdma cu (kernel_of c (redop a)) a n st1 = (Inr u, st')" "log st1 = log st" "m_devices st1 = m_devices st"
    using collective_return[OF assms(1)] by blast
  have "\<forall>r<local_rank_count st. launched (log st) a (kernel_of c (redop a)) r st'"
    using triple_run[OF run_typed_launches[of "log st" "local_rank_count st"] _ st1(1)] st1(2,3)
    by (simp add: since_def local_rank_count_def)
  then show ?thesis using assms(2) by (auto simp: launched_def since_def)
qed

section \<open>Socket proxies\<close>

definition conn_cell :: "socket_hello \<Rightarrow> nat \<times> nat" where
  "conn_cell h = (nat (hello_channel h), nat (source_global_rank h))"

definition hello_edge :: "socket_hello \<Rightarrow> nat" where
  "hello_edge h = nat (source_global_rank h)"

lemma conn_cell_ring [simp]: "conn_cell (ring_hello K e c) = (c, e)" "hello_edge (ring_hello K e c) = e"
  by (simp_all add: conn_cell_def hello_edge_def ring_hello_fields)

text \<open>The effect of one connection on a communicator of rank \<open>r\<close>.\<close>

definition file_connection :: "nat \<Rightarrow> bool \<Rightarrow> nat \<Rightarrow> socket_hello \<Rightarrow> comm \<Rightarrow> comm" where
  "file_connection K rdma r h st =
     (if rdma \<and> m_transport_plan st ! hello_edge h = Rdma then st\<lparr>m_rdma_fds := m_rdma_fds st @ [h]\<rparr>
      else if hello_edge h = r then st\<lparr>m_socket_send_proxies := m_socket_send_proxies st @ [conn_cell h]\<rparr>
      else st\<lparr>m_socket_recv_proxies := m_socket_recv_proxies st @ [conn_cell h]\<rparr>)"

lemma socket_resources_set:
  "(ch, e) \<in> set (socket_resources_for K C st f) \<longleftrightarrow>
     ch < C \<and> e < K \<and> m_transport_plan st ! e = Socket \<and> is_local_global_rank (m_topology st) (int (f e))"
  by (force simp: socket_resources_for_def image_iff split: if_splits)

definition rank_topology :: "nat \<Rightarrow> nat \<Rightarrow> int \<Rightarrow> TransportKind list \<Rightarrow> process_topology" where
  "rank_topology K r d kinds = \<lparr>global_rank_count = int K, local_rank_offset = int r, devices = [d],
     edge_kinds = kinds, distributed = True\<rparr>"

lemma rank_topology_local: "is_local_global_rank (rank_topology K r d kinds) (int g) \<longleftrightarrow> g = r"
  by (auto simp: is_local_global_rank_def rank_topology_def)

text \<open>The socket setup state: one resource per channel of each socket edge at this rank.\<close>

definition setup_state :: "nat \<Rightarrow> nat \<Rightarrow> nat \<Rightarrow> int \<Rightarrow> TransportKind list \<Rightarrow> comm \<Rightarrow> bool" where
  "setup_state K C r d kinds st \<longleftrightarrow> m_topology st = rank_topology K r d kinds \<and> m_transport_plan st = kinds \<and>
     (\<forall>ch e. (ch, e) \<in> set (m_socket_send_resources st) \<longleftrightarrow> ch < C \<and> e < K \<and> kinds ! e = Socket \<and> e = r) \<and>
     (\<forall>ch e. (ch, e) \<in> set (m_socket_recv_resources st) \<longleftrightarrow> ch < C \<and> e < K \<and> kinds ! e = Socket \<and> next_rank K e = r)"

lemma validate_comm_fifo: "validate_fifo comm_fifo = Inr ()"
  by (simp add: validate_fifo_def comm_fifo_def simple_consts)

lemma accept_connection_eq:
  assumes "2 \<le> K" "setup_state K C r d kinds st" "e < K" "c < C" "incident K e r"
    and "kinds ! e = Socket \<or> rdma \<and> kinds ! e = Rdma"
  shows "accept_connection K C rdma (ring_hello K e c) st = (Inr (), file_connection K rdma r (ring_hello K e c) st) \<and>
         setup_state K C r d kinds (file_connection K rdma r (ring_hello K e c) st)"
proof -
  have m: "(int e + 1) mod int K = int (next_rank K e)" for e by (simp add: next_rank_def zmod_int add.commute)
  have t: "m_topology st = rank_topology K r d kinds" and p: "m_transport_plan st = kinds"
    using assms(2) by (simp_all add: setup_state_def)
  have l: "local_rank_for_global_rank (rank_topology K r d kinds) (int r) = Inr 0"
    using rank_topology_local[of K r d kinds r] by (simp add: local_rank_for_global_rank_def rank_topology_def)
  have n: "next_rank K e = r" if "e \<noteq> r" using that assms(5) by (auto simp: incident_def)
  have "accept_connection K C rdma (ring_hello K e c) st = (Inr (), file_connection K rdma r (ring_hello K e c) st)"
  proof (cases "e = r")
    case True
    then show ?thesis using assms t p
      by (auto simp: accept_connection_def with_state_def ring_hello_fields m file_connection_def hello_edge_def conn_cell_def
          rank_topology_local validate_comm_fifo lift_def change_def andalso_def andthen_def setup_state_def Let_def)
  next
    case False
    have nx: "int (Suc e mod K) = int r" using n[OF False] by (simp add: next_rank_def)
    show ?thesis using assms t p False l n[OF False]
      by (auto simp: accept_connection_def with_state_def ring_hello_fields m file_connection_def hello_edge_def conn_cell_def
          rank_topology_local validate_comm_fifo lift_def change_def andalso_def andthen_def setup_state_def Let_def nx)
  qed
  moreover have "setup_state K C r d kinds (file_connection K rdma r (ring_hello K e c) st)"
    using assms(2) by (simp add: setup_state_def file_connection_def)
  ultimately show ?thesis by blast
qed

definition network_build :: "bool \<Rightarrow> TransportKind list \<Rightarrow> bool" where
  "network_build rdma kinds \<longleftrightarrow> rdma \<or> Rdma \<notin> set kinds"

lemma accept_connections_eq:
  assumes "2 \<le> K" "setup_state K C r d kinds st"
    and "\<forall>h\<in>set hs. \<exists>e c. h = ring_hello K e c \<and> e < K \<and> c < C \<and> incident K e r \<and> (kinds ! e = Socket \<or> rdma \<and> kinds ! e = Rdma)"
  shows "for_each hs (accept_connection K C rdma) st = (Inr (), fold (file_connection K rdma r) hs st)"
  using assms(2,3)
proof (induction hs arbitrary: st)
  case (Cons h hs)
  then obtain e c where h: "h = ring_hello K e c" "e < K" "c < C" "incident K e r" "kinds ! e = Socket \<or> rdma \<and> kinds ! e = Rdma"
    by auto
  from accept_connection_eq[OF assms(1) Cons.prems(1) h(2-5)] Cons show ?case
    by (simp add: andalso_def andthen_def h(1))
qed (simp add: ret_def)

definition by_socket :: "bool \<Rightarrow> TransportKind list \<Rightarrow> socket_hello \<Rightarrow> bool" where
  "by_socket rdma kinds h \<longleftrightarrow> \<not> (rdma \<and> kinds ! hello_edge h = Rdma)"

lemma fold_file_connection:
  "m_socket_send_proxies (fold (file_connection K rdma r) hs st) =
     m_socket_send_proxies st @ map conn_cell (filter (\<lambda>h. by_socket rdma (m_transport_plan st) h \<and> hello_edge h = r) hs)"
  "m_socket_recv_proxies (fold (file_connection K rdma r) hs st) =
     m_socket_recv_proxies st @ map conn_cell (filter (\<lambda>h. by_socket rdma (m_transport_plan st) h \<and> hello_edge h \<noteq> r) hs)"
  by (induction hs arbitrary: st) (auto simp: file_connection_def by_socket_def)

lemma mset_filter_edges:
  assumes "\<And>e c. c < C \<Longrightarrow> P (ring_hello K e c) = Q e"
  shows "filter_mset P (\<Sum>e<n. if N e then mset (edge_hellos K C e) else {#}) =
         (\<Sum>e<n. if N e \<and> Q e then mset (edge_hellos K C e) else {#})"
proof (induction n)
  case (Suc n)
  have "filter P (edge_hellos K C n) = (if Q n then edge_hellos K C n else [])"
    using assms by (auto simp: edge_hellos_def filter_id_conv filter_empty_conv)
  then have "filter_mset P (mset (edge_hellos K C n)) = (if Q n then mset (edge_hellos K C n) else {#})"
    by (metis mset.simps(1) mset_filter)
  with Suc show ?case by auto
qed simp

lemma cells_of_edge: "image_mset conn_cell (mset (edge_hellos K C e)) = mset (map (\<lambda>ch. (ch, e)) [0..<C])"
  by (simp add: edge_hellos_def o_def flip: mset_map)

lemma cells_of_edges:
  "image_mset conn_cell (\<Sum>e<n. if Q e then mset (edge_hellos K C e) else {#}) =
   (\<Sum>e<n. if Q e then mset (map (\<lambda>ch. (ch, e)) [0..<C]) else {#})"
  by (induction n) (simp_all add: cells_of_edge del: mset_map)

text \<open>The bootstrap connections become exactly the needed proxies. Given one connection per channel of every
  network edge at this rank, the socket setup succeeds; afterwards there is exactly one send proxy per
  channel of the outgoing edge if that is a socket edge, exactly one receive proxy per channel of the
  incoming edge if that is one, and no other.\<close>

theorem setup_socket_proxies:
  assumes "2 \<le> K" "r < K" "length kinds = K" "rdma \<or> Rdma \<notin> set kinds"
    and "m_topology st = rank_topology K r d kinds" "m_transport_plan st = kinds"
    and "m_socket_send_proxies st = []" "m_socket_recv_proxies st = []"
    and "mset conns = (\<Sum>e<K. if is_network (kinds ! e) \<and> incident K e r then mset (edge_hellos K C e) else {#})"
  shows "\<exists>st'. setup_socket_transport K C rdma conns st = (Inr (), st') \<and>
    mset (m_socket_send_proxies st') = (if kinds ! r = Socket then mset (map (\<lambda>ch. (ch, r)) [0..<C]) else {#}) \<and>
    mset (m_socket_recv_proxies st') =
      (\<Sum>e<K. if kinds ! e = Socket \<and> next_rank K e = r then mset (map (\<lambda>ch. (ch, e)) [0..<C]) else {#})"
proof -
  let ?st1 = "st\<lparr>m_socket_errors := Some \<lparr>has_error = False, message = [], device_abort = Some False\<rparr>,
                 m_socket_send_resources := socket_resources_for K C st (\<lambda>e. e),
                 m_socket_recv_resources := socket_resources_for K C st (\<lambda>e. (e + 1) mod K)\<rparr>"
  have S: "setup_state K C r d kinds ?st1"
    using assms(5,6) by (auto simp: setup_state_def socket_resources_set rank_topology_local next_rank_def)
  have hs: "\<forall>h\<in>set conns. \<exists>e c. h = ring_hello K e c \<and> e < K \<and> c < C \<and> incident K e r \<and> (kinds ! e = Socket \<or> rdma \<and> kinds ! e = Rdma)"
  proof
    fix h assume "h \<in> set conns"
    then have "h \<in># mset conns" by simp
    then obtain e c where "e < K" "is_network (kinds ! e) \<and> incident K e r" "c < C" "h = ring_hello K e c"
      unfolding assms(9) set_edge_hellos by blast
    then show "\<exists>e c. h = ring_hello K e c \<and> e < K \<and> c < C \<and> incident K e r \<and> (kinds ! e = Socket \<or> rdma \<and> kinds ! e = Rdma)"
      using assms(3,4) by (auto simp: is_network_def) (metis nth_mem)
  qed
  have run: "setup_socket_transport K C rdma conns st = (Inr (), fold (file_connection K rdma r) conns ?st1)"
    using accept_connections_eq[OF assms(1) S hs] assms(5)
    by (simp add: setup_socket_transport_def with_state_def andalso_def andthen_def change_def rank_topology_def)
  have Q: "by_socket rdma kinds (ring_hello K e c) = (\<not> (rdma \<and> kinds ! e = Rdma))" for e c by (simp add: by_socket_def)
  have sock: "is_network (kinds ! e) \<and> incident K e r \<and> \<not> (rdma \<and> kinds ! e = Rdma) \<longleftrightarrow> kinds ! e = Socket \<and> incident K e r"
    if "e < K" for e using assms(3,4) that by (auto simp: is_network_def) (metis nth_mem)
  have send: "mset (filter (\<lambda>h. by_socket rdma kinds h \<and> hello_edge h = r) conns) =
      (\<Sum>e<K. if (is_network (kinds ! e) \<and> incident K e r) \<and> (\<not> (rdma \<and> kinds ! e = Rdma) \<and> e = r) then mset (edge_hellos K C e) else {#})"
    unfolding mset_filter assms(9) by (rule mset_filter_edges) (simp add: Q)
  also have "\<dots> = (\<Sum>e<K. if e = r then (if kinds ! r = Socket then mset (edge_hellos K C r) else {#}) else {#})"
    using sock[OF assms(2)] by (intro sum.cong) (auto simp: incident_def is_network_def)
  also have "\<dots> = (if kinds ! r = Socket then mset (edge_hellos K C r) else {#})" using assms(2) by (simp add: sum.delta)
  finally have 1: "mset (m_socket_send_proxies (fold (file_connection K rdma r) conns ?st1)) =
      (if kinds ! r = Socket then mset (map (\<lambda>ch. (ch, r)) [0..<C]) else {#})"
    using assms(6,7) by (simp add: fold_file_connection cells_of_edge)
  have "mset (filter (\<lambda>h. by_socket rdma kinds h \<and> hello_edge h \<noteq> r) conns) =
      (\<Sum>e<K. if (is_network (kinds ! e) \<and> incident K e r) \<and> (\<not> (rdma \<and> kinds ! e = Rdma) \<and> e \<noteq> r) then mset (edge_hellos K C e) else {#})"
    unfolding mset_filter assms(9) by (rule mset_filter_edges) (simp add: Q)
  also have "\<dots> = (\<Sum>e<K. if kinds ! e = Socket \<and> next_rank K e = r then mset (edge_hellos K C e) else {#})"
  proof (rule sum.cong[OF refl])
    fix e assume "e \<in> {..<K}"
    then have "e < K" by simp
    from sock[OF this] next_rank_neq[OF assms(1) this]
    have "(is_network (kinds ! e) \<and> incident K e r) \<and> (\<not> (rdma \<and> kinds ! e = Rdma) \<and> e \<noteq> r) \<longleftrightarrow>
        kinds ! e = Socket \<and> next_rank K e = r" by (auto simp: incident_def)
    then show "(if (is_network (kinds ! e) \<and> incident K e r) \<and> (\<not> (rdma \<and> kinds ! e = Rdma) \<and> e \<noteq> r)
        then mset (edge_hellos K C e) else {#}) =
      (if kinds ! e = Socket \<and> next_rank K e = r then mset (edge_hellos K C e) else {#})" by simp
  qed
  finally have "mset (m_socket_recv_proxies (fold (file_connection K rdma r) conns ?st1)) =
      image_mset conn_cell (\<Sum>e<K. if kinds ! e = Socket \<and> next_rank K e = r then mset (edge_hellos K C e) else {#})"
    using assms(6,8) by (simp add: fold_file_connection)
  also have "\<dots> = (\<Sum>e<K. if kinds ! e = Socket \<and> next_rank K e = r then mset (map (\<lambda>ch. (ch, e)) [0..<C]) else {#})"
    by (rule cells_of_edges)
  finally show ?thesis using run 1 by blast
qed

section \<open>Witnesses\<close>

text \<open>Rank 0 of a ring of two hosts joined by sockets, before its first collective, on a CUDA runtime that
  always succeeds.\<close>

definition ok_cuda :: cuda where
  "ok_cuda = \<lparr>cu_status = (\<lambda>_ _. Cuda_ok), cu_device_count = Inr 1, cu_major = (\<lambda>_. Inr 9)\<rparr>"

definition demo_comm :: comm where
  "demo_comm = \<lparr>m_devices = [0], m_topology = rank_topology 2 0 0 [Socket, Socket], m_transport_plan = [Socket, Socket],
     ipc_send = (\<lambda>_. False), ipc_recv = (\<lambda>_. False), m_socket_send_resources = [], m_socket_recv_resources = [],
     m_socket_send_proxies = [], m_socket_recv_proxies = [], m_rdma_fds = [], m_rdma_resources = False,
     m_rdma_send_proxies = [], m_rdma_recv_proxies = [], m_rdma_shared_progress = False,
     m_socket_errors = None, m_rdma_errors = None, m_rdma_gdr_enabled = False,
     m_fifo = (\<lambda>_. \<lparr>slot_elems = 0, shm_fifo = [], p2p_fifo = False\<rparr>), m_p2p_steps = False,
     m_completion_events = (\<lambda>_. False), m_completion_recorded = (\<lambda>_. False), m_fallback_streams = (\<lambda>_. 0),
     m_fallback_in_flight = (\<lambda>_. False), m_bf16_devices_validated = False, m_control_initialized = False,
     m_has_launch = False, m_has_untracked_launch = False, log = []\<rparr>"

definition demo_call :: coll_args where
  "demo_call = \<lparr>send_buffer = 4096, recv_buffer = 8192, stream = 7, elem_count = 16, dtype = Float, redop = RSum\<rparr>"

theorem untracked_launch_blocks_witness:
  "\<exists>e st'. run_collective All_reduce 2 1 False ok_cuda demo_call (demo_comm\<lparr>m_has_untracked_launch := True\<rparr>) = (Inl e, st')"
  using untracked_launch_blocks[of "demo_comm\<lparr>m_has_untracked_launch := True\<rparr>" All_reduce 2 1 False ok_cuda demo_call] by auto

theorem launches_stay_tracked_witness:
  "\<exists>st'. st' = snd (run_collective All_reduce 2 1 False ok_cuda demo_call demo_comm) \<and>
     \<not> (open_launch (log st') 0 \<and> \<not> m_has_untracked_launch st')"
  using launches_stay_tracked[of demo_comm _ All_reduce 2 1 False ok_cuda demo_call] by (auto simp: demo_comm_def)

lemma demo_ensure_fifo:
  "ensure_fifo_buffers 2 1 ok_cuda Float 16 demo_comm =
   (Inr (), demo_comm\<lparr>m_fifo := (m_fifo demo_comm)(Float := \<lparr>slot_elems = 1048576, shm_fifo = [], p2p_fifo = False\<rparr>)\<rparr>)"
  by (simp add: ensure_fifo_buffers_def with_state_def required_slots_def demo_comm_def rank_topology_def step_elems_def
      simple_consts require_previous_launch_complete_def ret_def andalso_def andthen_def shm_edge_def run_if_def change_def
      is_local_global_rank_def filter_concat upt_rec Let_def)

theorem ensure_fifo_buffers_safe_witness:
  "required_slots 2 1 (distributed (m_topology demo_comm)) Float 16 \<le> 1048576"
  using ensure_fifo_buffers_safe[OF demo_ensure_fifo] by simp

theorem launch_slots_valid_witness:
  "\<exists>new. log (snd (run_collective All_reduce 2 1 False ok_cuda demo_call demo_comm)) = new @ log demo_comm \<and>
     list_all (\<lambda>e. launch_valid demo_call (fst e)) new"
  by (rule conjunct1[OF launch_slots_valid[OF _ _ _ refl]]) (simp_all add: demo_comm_def)

theorem collective_waits_for_previous_witness:
  "\<exists>new. log (snd (run_collective All_reduce 2 1 False ok_cuda demo_call (demo_comm\<lparr>m_has_launch := True\<rparr>))) =
      new @ log (demo_comm\<lparr>m_has_launch := True\<rparr>)"
  using collective_waits_for_previous[of "demo_comm\<lparr>m_has_launch := True\<rparr>", OF _ refl, of All_reduce 2 1 False ok_cuda demo_call]
  by auto

lemma demo_conns:
  "mset [ring_hello 2 0 0, ring_hello 2 1 0] =
   (\<Sum>e<2. if is_network ([Socket, Socket] ! e) \<and> incident 2 e 0 then mset (edge_hellos 2 1 e) else {#})"
  by (simp add: numeral_2_eq_2 is_network_def incident_def next_rank_def edge_hellos_def)

theorem setup_socket_proxies_witness:
  "\<exists>st'. setup_socket_transport 2 1 False [ring_hello 2 0 0, ring_hello 2 1 0] demo_comm = (Inr (), st') \<and>
     mset (m_socket_send_proxies st') = {#(0, 0)#} \<and> mset (m_socket_recv_proxies st') = {#(0, 1)#}"
  using setup_socket_proxies[OF _ _ _ _ _ _ _ _ demo_conns, of False demo_comm 0]
  by (simp add: demo_comm_def numeral_2_eq_2 next_rank_def)

end
