(* ===== verification/Rdma_Proxy.thy ===== *)
theory Rdma_Proxy
  imports Proxy_Fifo Comp_Logic Types
begin

unbundle bit_operations_syntax

text \<open>
  The proxies of an RDMA edge: \<open>transport/rdma/rdma_proxy.cc\<close>, with both data planes. In the plane
  \<open>SendRecv\<close> the send proxy posts each filled slot as a SEND and the receive proxy keeps receive
  requests for its free slots posted. In the plane \<open>WriteCts\<close> the receive proxy announces each free
  slot with a clear-to-send record that it writes into a table of the sender, and the send proxy
  writes the slot's data straight into the announced address with an immediate.

  The verbs library is a parameter. What \<open>ibv_post_send\<close> and \<open>ibv_post_recv\<close> answer for a step is the
  function \<open>rc\<close> (an error text, or \<open>None\<close>); \<open>ibv_poll_cq\<close> fails (\<open>None\<close>) or hands out at most the
  number it is given of the completions at the front of the queue. Requests that were accepted and
  not yet executed by the adapter are the queues \<open>sq\<close> and \<open>rq\<close>. A counter is a natural number; a
  request id is the 64-bit word the verbs interface carries.

  A call of \<open>progress\<close> is a function of the proxy's state that keeps what it did before an exception; it is one step, in which the
  counters that a kernel advances have one value.
\<close>

section \<open>Data\<close>

datatype data_plane = SendRecv | WriteCts

record cts_slot =
  raddr :: nat
  rkey :: "32 word"
  nbytes :: nat
  step_tag :: nat
  ready :: nat

record write_targets =
  remote_fifo_addr :: nat
  remote_fifo_bytes :: nat
  local_cts_null :: bool
  cts_slot_count :: nat

record cts_remote =
  remote_cts_addr :: nat
  remote_cts_slots :: nat
  local_shadow_null :: bool
  local_shadow_mr_null :: bool
  local_recv_fifo_addr :: nat
  local_recv_fifo_rkey :: "32 word"
  max_inline_data :: nat

text \<open>A completion; \<open>wc_status\<close> is the text of a failing status.\<close>

record wc =
  wc_status :: "string option"
  wc_id :: "64 word"
  wc_len :: "32 word"
  wc_imm :: "32 word"
  wc_recv_imm :: bool
  wc_qp_num :: nat
  wc_vendor_err :: nat

datatype wr_op = Op_send | Op_write_imm "32 word" nat "32 word"

record send_wr =
  wr_id :: "64 word"
  wr_slot :: nat
  wr_len :: "32 word"
  wr_signaled :: bool
  wr_op :: wr_op

text \<open>A CTS write names the slot of the remote table; an inline request carries its own copy.\<close>

record cts_wr =
  cw_id :: "64 word"
  cw_slot :: nat
  cw_inline :: "cts_slot option"
  cw_signaled :: bool

record qp_side = side +
  prepared :: bool
  started :: bool
  max_if :: nat
  next_post :: nat
  next_complete :: nat
  inflight :: nat
  cq :: "wc list"

record rdma_send = qp_side +
  posts :: nat
  zero_payload_posts :: nat
  local_cts :: "nat \<Rightarrow> cts_slot"
  sq :: "send_wr list"

record rdma_recv = qp_side +
  elide_zero_payload :: bool
  next_cts :: nat
  next_cts_complete :: nat
  inflight_cts :: nat
  rq :: "(64 word \<times> nat) list"
  shadow :: "nat \<Rightarrow> cts_slot"
  cts_sq :: "cts_wr list"

section \<open>Request ids\<close>

definition kCtsWrIdBit :: "64 word" where
  "kCtsWrIdBit = push_bit 63 1"

definition is_cts_wr_id :: "64 word \<Rightarrow> bool" where
  "is_cts_wr_id w = (w AND kCtsWrIdBit \<noteq> 0)"

definition make_cts_wr_id :: "64 word \<Rightarrow> 64 word" where
  "make_cts_wr_id step = (kCtsWrIdBit OR step)"

definition cts_wr_id_to_step :: "64 word \<Rightarrow> 64 word" where
  "cts_wr_id_to_step w = (w AND NOT kCtsWrIdBit)"

definition slot_to_wr_id :: "nat \<Rightarrow> 64 word" where
  "slot_to_wr_id slot = of_nat slot"

definition wr_id_to_slot :: "64 word \<Rightarrow> nat" where
  "wr_id_to_slot w = unat w"

text \<open>\<open>htobe32\<close> and \<open>be32toh\<close> on a little-endian host.\<close>

definition htobe32 :: "32 word \<Rightarrow> 32 word" where
  "htobe32 w =
     (push_bit 24 (w AND 0xFF) OR push_bit 8 (w AND 0xFF00) OR (drop_bit 8 w AND 0xFF00) OR (drop_bit 24 w AND 0xFF))"

section \<open>Failures\<close>

definition rdma_format_failure :: "proxy_identity \<Rightarrow> nat \<Rightarrow> string \<Rightarrow> string" where
  "rdma_format_failure ident step reason =
     ''rdma proxy source='' @ string_of_int (source_rank ident) @
     '' destination='' @ string_of_int (destination_rank ident) @
     '' channel='' @ string_of_int (proxy_channel ident) @ '' step='' @ string_of_nat step @ '': '' @ reason"

definition rdma_record_failure :: "proxy_identity \<Rightarrow> nat \<Rightarrow> string \<Rightarrow> async_error \<Rightarrow> async_error" where
  "rdma_record_failure ident step reason e =
     (if has_error e then e
      else e\<lparr>message := rdma_format_failure ident step reason,
             device_abort := (case device_abort e of None \<Rightarrow> None | Some _ \<Rightarrow> Some True),
             has_error := True\<rparr>)"

definition rdma_message :: "async_error \<Rightarrow> string" where
  "rdma_message e = (if message e = [] then ''rdma asynchronous failure (details unavailable)'' else message e)"

definition wc_reason :: "wc \<Rightarrow> string \<Rightarrow> string" where
  "wc_reason w status =
     ''ibv_wc status='' @ status @ '' wr_id='' @ string_of_nat (unat (wc_id w)) @
     '' qp_num='' @ string_of_nat (wc_qp_num w) @ '' vendor_err='' @ string_of_nat (wc_vendor_err w)"

definition check_wc :: "proxy_identity \<Rightarrow> wc \<Rightarrow> ('a qp_side_scheme, unit) comp" where
  "check_wc ident w =
     (case wc_status w of
        None \<Rightarrow> ret ()
      | Some status \<Rightarrow>
          andalso (change (\<lambda>s. s\<lparr>errors := rdma_record_failure ident (next_complete s) (wc_reason w status) (errors s)\<rparr>))
            (raise (Runtime_error (wc_reason w status))))"

text \<open>The handler of \<open>progress\<close>: the failure is recorded unless the proxy is being stopped.\<close>

definition catch_progress :: "proxy_identity \<Rightarrow> ('a qp_side_scheme, bool) comp \<Rightarrow> 'a qp_side_scheme \<Rightarrow> bool \<times> 'a qp_side_scheme" where
  "catch_progress ident body s =
     (case body s of
        (Inr did_work, s') \<Rightarrow> (did_work, s')
      | (Inl e, s') \<Rightarrow>
          (False, if stop_requested s' then s'
                  else s'\<lparr>errors := rdma_record_failure ident (proxy_step s') (what e) (errors s')\<rparr>))"

section \<open>Construction, start and stop\<close>

definition rdma_validate_fifo :: "proxy_fifo \<Rightarrow> unit result" where
  "rdma_validate_fifo fifo =
     (if fifo_data_null fifo \<or> fifo_sizes_null fifo \<or> slot_bytes fifo = 0 \<or> slot_count fifo = 0 \<or>
         step_increment fifo = 0 \<or> slot_count fifo mod step_increment fifo \<noteq> 0 \<or>
         (2 ^ 64 - 1) div slot_bytes fifo < slot_count fifo
      then Inl (Runtime_error ''rdma proxy has invalid FIFO storage'') else Inr ())"

definition validate_write_targets :: "write_targets \<Rightarrow> unit result" where
  "validate_write_targets t =
     (if remote_fifo_addr t = 0 \<or> remote_fifo_bytes t = 0 \<or> local_cts_null t \<or> cts_slot_count t = 0
      then Inl (Runtime_error ''rdma send proxy WriteCts targets are incomplete'') else Inr ())"

definition validate_cts_remote :: "cts_remote \<Rightarrow> unit result" where
  "validate_cts_remote r =
     (if remote_cts_addr r = 0 \<or> remote_cts_slots r = 0 \<or> local_recv_fifo_addr r = 0 \<or> local_shadow_null r \<or>
         local_shadow_mr_null r
      then Inl (Runtime_error ''rdma recv proxy WriteCts CTS remote is incomplete'') else Inr ())"

definition max_inflight :: "string \<Rightarrow> proxy_fifo \<Rightarrow> nat result" where
  "max_inflight name fifo =
     (if step_increment fifo = 0 \<or> slot_count fifo mod step_increment fifo \<noteq> 0
      then Inl (Runtime_error (''rdma '' @ name @ '' proxy FIFO step_increment invalid''))
      else Inr (slot_count fifo div step_increment fifo))"

definition make_rdma_send :: "proxy_fifo \<Rightarrow> bool \<Rightarrow> data_plane \<Rightarrow> write_targets \<Rightarrow> rdma_send \<Rightarrow> rdma_send result" where
  "make_rdma_send fifo any_null plane targets s =
     rbind (rdma_validate_fifo fifo) (\<lambda>_.
     rbind (throw_if any_null (Runtime_error ''rdma send proxy has invalid state'')) (\<lambda>_.
     rbind (if plane = WriteCts then validate_write_targets targets else Inr ()) (\<lambda>_.
     rbind (max_inflight ''send'' fifo) (\<lambda>m.
       Inr (s\<lparr>max_if := m, next_post := head s, next_complete := head s, proxy_step := head s, inflight := 0,
              posts := 0, zero_payload_posts := 0, prepared := False, started := False, stop_requested := False\<rparr>)))))"

text \<open>\<open>reg_mr\<close> is the error of registering the scratch bytes, if any.\<close>

definition make_rdma_recv ::
    "proxy_fifo \<Rightarrow> bool \<Rightarrow> data_plane \<Rightarrow> cts_remote \<Rightarrow> bool \<Rightarrow> string option \<Rightarrow> rdma_recv \<Rightarrow> rdma_recv result" where
  "make_rdma_recv fifo any_null plane remote elide reg_mr s =
     rbind (rdma_validate_fifo fifo) (\<lambda>_.
     rbind (throw_if any_null (Runtime_error ''rdma recv proxy has invalid state'')) (\<lambda>_.
     rbind (if plane = WriteCts
            then rbind (validate_cts_remote remote) (\<lambda>_.
                   throw_if (remote_cts_slots remote \<noteq> slot_count fifo)
                     (Runtime_error ''rdma WriteCts CTS slot_count must match FIFO slot_count''))
            else Inr ()) (\<lambda>_.
     rbind (max_inflight ''recv'' fifo) (\<lambda>m.
     rbind (if plane = WriteCts
            then (case reg_mr of Some e \<Rightarrow> Inl (Runtime_error (''ibv_reg_mr imm scratch: '' @ e)) | None \<Rightarrow> Inr ())
            else Inr ()) (\<lambda>_.
       Inr (s\<lparr>max_if := m, next_post := tail s, next_complete := tail s, next_cts := tail s,
              next_cts_complete := tail s, proxy_step := tail s, inflight := 0, inflight_cts := 0,
              elide_zero_payload := elide, prepared := False, started := False, stop_requested := False\<rparr>))))))"

definition rdma_stop :: "proxy_identity \<Rightarrow> 'a side_scheme \<Rightarrow> 'a side_scheme" where
  "rdma_stop ident s =
     (if stop_requested s then s
      else s\<lparr>stop_requested := True, errors := rdma_record_failure ident (proxy_step s) ''stop requested'' (errors s)\<rparr>)"

definition rdma_shutdown :: "'a side_scheme \<Rightarrow> 'a side_scheme" where
  "rdma_shutdown s = s\<lparr>stop_requested := True\<rparr>"

definition prepare_send :: "(rdma_send, unit) comp" where
  "prepare_send =
     with_state (\<lambda>s.
       if prepared s then raise (Runtime_error ''rdma send proxy already prepared'')
       else if started s then raise (Runtime_error ''rdma send proxy already started'')
       else change (\<lambda>s. s\<lparr>prepared := True\<rparr>))"

definition start_send :: "(rdma_send, unit) comp" where
  "start_send =
     with_state (\<lambda>s.
       if started s then raise (Runtime_error ''rdma send proxy already started'')
       else andalso prepare_send (change (\<lambda>s. s\<lparr>started := True\<rparr>)))"

section \<open>Send proxy\<close>

definition kPollBatch :: nat where
  "kPollBatch = 16"

definition kSignalEvery :: nat where
  "kSignalEvery = 4"

text \<open>A slice of no bytes gives its slot back without a request.\<close>

definition elide_send :: "proxy_fifo \<Rightarrow> rdma_send \<Rightarrow> rdma_send" where
  "elide_send fifo s =
     s\<lparr>zero_payload_posts := zero_payload_posts s + 1, head := next_post s + step_increment fifo,
       next_post := next_post s + step_increment fifo, next_complete := next_complete s + step_increment fifo,
       proxy_step := next_complete s + step_increment fifo\<rparr>"

definition send_signal :: "proxy_fifo \<Rightarrow> rdma_send \<Rightarrow> bool" where
  "send_signal fifo s =
     (let inc = step_increment fifo;
          more_pending = (next_post s + inc < tail s);
          next_zero_needs_head = (more_pending \<and> slot_sizes s ((next_post s + inc) mod slot_count fifo) = 0)
      in max_if s \<le> inflight s + 1 \<or> \<not> more_pending \<or> next_zero_needs_head \<or> next_post s div inc mod kSignalEvery = 0)"

definition push_send :: "proxy_fifo \<Rightarrow> wr_op \<Rightarrow> rdma_send \<Rightarrow> rdma_send" where
  "push_send fifo op s =
     (let slot = next_post s mod slot_count fifo in
      s\<lparr>sq := sq s @ [\<lparr>wr_id = slot_to_wr_id (next_post s), wr_slot = slot, wr_len = slot_sizes s slot,
                        wr_signaled = send_signal fifo s, wr_op = op\<rparr>]\<rparr>)"

definition posted_send :: "proxy_fifo \<Rightarrow> rdma_send \<Rightarrow> rdma_send" where
  "posted_send fifo s = s\<lparr>next_post := next_post s + step_increment fifo, inflight := inflight s + 1\<rparr>"

text \<open>
  The post loop of the plane \<open>SendRecv\<close>. Every round advances \<open>next_post\<close>, so the distance to the
  published tail bounds the rounds.
\<close>

fun send_post_loop :: "nat \<Rightarrow> proxy_fifo \<Rightarrow> (nat \<Rightarrow> string option) \<Rightarrow> bool \<Rightarrow> (rdma_send, bool) comp" where
  "send_post_loop 0 fifo rc did_work = ret did_work"
| "send_post_loop (Suc n) fifo rc did_work =
     with_state (\<lambda>s.
       let payload_bytes = slot_sizes s (next_post s mod slot_count fifo) in
       if max_if s \<le> inflight s \<or> tail s \<le> next_post s then ret did_work
       else if slot_bytes fifo < unat payload_bytes
       then raise (Runtime_error ''rdma proxy send payload exceeds FIFO capacity'')
       else if payload_bytes = 0
       then (if next_post s \<noteq> next_complete s then ret did_work
             else andalso (change (elide_send fifo)) (send_post_loop n fifo rc True))
       else andalso (change (\<lambda>s. s\<lparr>posts := posts s + 1\<rparr>))
         (case rc (next_post s) of
            Some e \<Rightarrow> raise (Runtime_error (''ibv_post_send: '' @ e))
          | None \<Rightarrow> andalso (change (push_send fifo Op_send))
                     (andalso (change (posted_send fifo)) (send_post_loop n fifo rc True))))"

text \<open>
  Send completions. A signaled request covers the unsignaled ones before it. \<open>name\<close> is what the two
  planes put in front of their messages.
\<close>

definition complete_send :: "proxy_fifo \<Rightarrow> proxy_identity \<Rightarrow> string \<Rightarrow> wc \<Rightarrow> (rdma_send, unit) comp" where
  "complete_send fifo ident name w =
     andalso (check_wc ident w)
       (with_state (\<lambda>s.
          let inc = step_increment fifo;
              completed_through = wr_id_to_slot (wc_id w);
              advanced = (completed_through - next_complete s) div inc + 1 in
          if completed_through < next_complete s \<or> (completed_through - next_complete s) mod inc \<noteq> 0
          then raise (Runtime_error (''rdma '' @ name @ ''send completion has unexpected step''))
          else if inflight s < advanced
          then raise (Runtime_error (''rdma '' @ name @ ''send completion advances past inflight''))
          else change (\<lambda>s. s\<lparr>next_complete := completed_through + inc, head := completed_through + inc,
                            proxy_step := completed_through + inc, inflight := inflight s - advanced\<rparr>)))"

text \<open>\<open>ibv_poll_cq\<close> with room for \<open>kPollBatch\<close> completions; the adapter hands out \<open>n\<close> of what it has.\<close>

definition poll_cq :: "nat option \<Rightarrow> ('a qp_side_scheme, wc list) comp" where
  "poll_cq poll =
     (case poll of
        None \<Rightarrow> raise (Runtime_error ''ibv_poll_cq failed'')
      | Some n \<Rightarrow> with_state (\<lambda>s.
          andthen (change (\<lambda>s. s\<lparr>cq := drop (min n kPollBatch) (cq s)\<rparr>)) (\<lambda>_. ret (take (min n kPollBatch) (cq s)))))"

definition progress_send_recv ::
    "proxy_fifo \<Rightarrow> proxy_identity \<Rightarrow> (nat \<Rightarrow> string option) \<Rightarrow> nat option \<Rightarrow> rdma_send \<Rightarrow> bool \<times> rdma_send" where
  "progress_send_recv fifo ident rc poll =
     catch_progress ident
       (with_state (\<lambda>s. andthen (send_post_loop (tail s - next_post s) fifo rc False) (\<lambda>did_work.
          andthen (poll_cq poll) (\<lambda>wcs.
          andalso (for_each wcs (complete_send fifo ident [])) (ret (did_work \<or> wcs \<noteq> []))))))"

text \<open>
  One round of the post loop of the plane \<open>WriteCts\<close>, up to the accepted request. The slot's CTS
  record is cleared by the next statement of the source, \<open>clear_ready\<close>, which another thread may see
  later.
\<close>

datatype post_round = Stop_posting | Elided | Posted nat

definition write_round ::
    "proxy_fifo \<Rightarrow> write_targets \<Rightarrow> (nat \<Rightarrow> string option) \<Rightarrow> (rdma_send, post_round) comp" where
  "write_round fifo targets rc =
     with_state (\<lambda>s.
       let slot = next_post s mod slot_count fifo; payload_bytes = slot_sizes s slot; cts = local_cts s slot in
       if max_if s \<le> inflight s \<or> tail s \<le> next_post s then ret Stop_posting
       else if slot_bytes fifo < unat payload_bytes
       then raise (Runtime_error ''rdma proxy send payload exceeds FIFO capacity'')
       else if payload_bytes = 0
       then (if next_post s \<noteq> next_complete s then ret Stop_posting
             else andthen (change (elide_send fifo)) (\<lambda>_. ret Elided))
       else if cts_slot_count targets \<le> slot then raise (Runtime_error ''rdma WriteCts slot exceeds CTS FIFO'')
       else if ready cts \<noteq> 1 then ret Stop_posting
       else if step_tag cts \<noteq> next_post s then raise (Runtime_error ''rdma WriteCts CTS step_tag mismatch'')
       else if raddr cts = 0 \<or> nbytes cts < unat payload_bytes
       then raise (Runtime_error ''rdma WriteCts CTS target invalid for payload'')
       else andalso (change (\<lambda>s. s\<lparr>posts := posts s + 1\<rparr>))
         (case rc (next_post s) of
            Some e \<Rightarrow> raise (Runtime_error (''ibv_post_send WRITE: '' @ e))
          | None \<Rightarrow> andthen (change (push_send fifo (Op_write_imm (htobe32 payload_bytes) (raddr cts) (rkey cts))))
                     (\<lambda>_. ret (Posted slot))))"

definition clear_ready :: "nat \<Rightarrow> rdma_send \<Rightarrow> rdma_send" where
  "clear_ready slot s = s\<lparr>local_cts := (local_cts s)(slot := (local_cts s slot)\<lparr>ready := 0\<rparr>)\<rparr>"

fun write_post_loop ::
    "nat \<Rightarrow> proxy_fifo \<Rightarrow> write_targets \<Rightarrow> (nat \<Rightarrow> string option) \<Rightarrow> bool \<Rightarrow> (rdma_send, bool) comp" where
  "write_post_loop 0 fifo targets rc did_work = ret did_work"
| "write_post_loop (Suc n) fifo targets rc did_work =
     andthen (write_round fifo targets rc) (\<lambda>round.
       case round of
         Stop_posting \<Rightarrow> ret did_work
       | Elided \<Rightarrow> write_post_loop n fifo targets rc True
       | Posted slot \<Rightarrow> andalso (change (clear_ready slot))
           (andalso (change (posted_send fifo)) (write_post_loop n fifo targets rc True)))"

definition progress_write_cts_send ::
    "proxy_fifo \<Rightarrow> proxy_identity \<Rightarrow> write_targets \<Rightarrow> (nat \<Rightarrow> string option) \<Rightarrow> nat option \<Rightarrow> rdma_send \<Rightarrow> bool \<times> rdma_send" where
  "progress_write_cts_send fifo ident targets rc poll =
     catch_progress ident
       (with_state (\<lambda>s. andthen (write_post_loop (tail s - next_post s) fifo targets rc False) (\<lambda>did_work.
          andthen (poll_cq poll) (\<lambda>wcs.
          andalso (for_each wcs (complete_send fifo ident ''WriteCts '')) (ret (did_work \<or> wcs \<noteq> []))))))"

definition progress_send ::
    "proxy_fifo \<Rightarrow> proxy_identity \<Rightarrow> data_plane \<Rightarrow> write_targets \<Rightarrow> (nat \<Rightarrow> string option) \<Rightarrow> nat option \<Rightarrow>
     rdma_send \<Rightarrow> bool \<times> rdma_send" where
  "progress_send fifo ident plane targets rc poll s =
     (if stop_requested s \<or> has_error (errors s) then (False, s)
      else if plane = WriteCts then progress_write_cts_send fifo ident targets rc poll s
      else progress_send_recv fifo ident rc poll s)"

section \<open>Receive proxy\<close>

definition elide_recv :: "proxy_fifo \<Rightarrow> rdma_recv \<Rightarrow> rdma_recv" where
  "elide_recv fifo s =
     (let slot = next_post s mod slot_count fifo; inc = step_increment fifo in
      s\<lparr>slot_sizes := (slot_sizes s)(slot := 0), tail := next_complete s + inc, next_post := next_post s + inc,
        next_complete := next_complete s + inc, proxy_step := next_complete s + inc\<rparr>)"

definition try_elide_zero_payload :: "proxy_fifo \<Rightarrow> (rdma_recv, bool) comp" where
  "try_elide_zero_payload fifo =
     with_state (\<lambda>s.
       if \<not> elide_zero_payload s then ret False
       else if next_post s \<noteq> next_complete s then ret False
       else if head s + slot_count fifo < next_post s + step_increment fifo then ret False
       else if slot_sizes s (next_post s mod slot_count fifo) \<noteq> 0 then ret False
       else andthen (change (elide_recv fifo)) (\<lambda>_. ret True))"

definition pre_post_recv :: "proxy_fifo \<Rightarrow> (nat \<Rightarrow> string option) \<Rightarrow> (rdma_recv, unit) comp" where
  "pre_post_recv fifo rc =
     with_state (\<lambda>s. let slot = next_post s mod slot_count fifo in
       case rc (next_post s) of
         Some e \<Rightarrow> raise (Runtime_error (''ibv_post_recv: '' @ e))
       | None \<Rightarrow> change (\<lambda>s. s\<lparr>rq := rq s @ [(slot_to_wr_id slot, slot)]\<rparr>))"

text \<open>A receive request for an immediate has one scratch byte as its buffer.\<close>

definition pre_post_imm_recv :: "(nat \<Rightarrow> string option) \<Rightarrow> (rdma_recv, unit) comp" where
  "pre_post_imm_recv rc =
     with_state (\<lambda>s. let scratch_idx = next_post s mod max_if s in
       case rc (next_post s) of
         Some e \<Rightarrow> raise (Runtime_error (''ibv_post_recv IMM: '' @ e))
       | None \<Rightarrow> change (\<lambda>s. s\<lparr>rq := rq s @ [(slot_to_wr_id (next_post s), scratch_idx)]\<rparr>))"

definition posted_recv :: "proxy_fifo \<Rightarrow> rdma_recv \<Rightarrow> rdma_recv" where
  "posted_recv fifo s = s\<lparr>next_post := next_post s + step_increment fifo, inflight := inflight s + 1\<rparr>"

definition recv_credit :: "proxy_fifo \<Rightarrow> nat \<Rightarrow> 'a side_scheme \<Rightarrow> bool" where
  "recv_credit fifo step s = (step + step_increment fifo \<le> head s + slot_count fifo)"

fun recv_post_loop :: "nat \<Rightarrow> proxy_fifo \<Rightarrow> (nat \<Rightarrow> string option) \<Rightarrow> bool \<Rightarrow> (rdma_recv, bool) comp" where
  "recv_post_loop 0 fifo rc did_work = ret did_work"
| "recv_post_loop (Suc n) fifo rc did_work =
     with_state (\<lambda>s.
       if max_if s \<le> inflight s \<or> \<not> recv_credit fifo (next_post s) s then ret did_work
       else andthen (try_elide_zero_payload fifo) (\<lambda>elided.
         if elided then recv_post_loop n fifo rc True
         else if elide_zero_payload s \<and> slot_sizes s (next_post s mod slot_count fifo) = 0 then ret did_work
         else andalso (pre_post_recv fifo rc)
                (andalso (change (posted_recv fifo)) (recv_post_loop n fifo rc True))))"

fun imm_post_loop :: "nat \<Rightarrow> proxy_fifo \<Rightarrow> (nat \<Rightarrow> string option) \<Rightarrow> bool \<Rightarrow> (rdma_recv, bool) comp" where
  "imm_post_loop 0 fifo rc did_work = ret did_work"
| "imm_post_loop (Suc n) fifo rc did_work =
     with_state (\<lambda>s.
       if max_if s \<le> inflight s \<or> \<not> recv_credit fifo (next_post s) s then ret did_work
       else andalso (pre_post_imm_recv rc)
              (andalso (change (posted_recv fifo)) (imm_post_loop n fifo rc True)))"

definition cts_record :: "proxy_fifo \<Rightarrow> cts_remote \<Rightarrow> nat \<Rightarrow> cts_slot" where
  "cts_record fifo remote step =
     (let slot = step mod remote_cts_slots remote in
      \<lparr>raddr = local_recv_fifo_addr remote + slot * slot_bytes fifo, rkey = local_recv_fifo_rkey remote,
       nbytes = slot_bytes fifo, step_tag = step, ready = 1\<rparr>)"

definition cts_signal :: "proxy_fifo \<Rightarrow> nat \<Rightarrow> rdma_recv \<Rightarrow> bool" where
  "cts_signal fifo step s =
     (let inc = step_increment fifo;
          more_credit = (inflight_cts s + 1 < max_if s \<and> step + 2 * inc \<le> head s + slot_count fifo)
      in max_if s \<le> inflight_cts s + 1 \<or> \<not> more_credit \<or> step div inc mod kSignalEvery = 0)"

text \<open>\<open>kCtsSlotBytes\<close> is \<open>sizeof(RdmaCtsSlot)\<close>.\<close>

definition kCtsSlotBytes :: nat where
  "kCtsSlotBytes = 32"

definition post_cts :: "proxy_fifo \<Rightarrow> cts_remote \<Rightarrow> (nat \<Rightarrow> string option) \<Rightarrow> nat \<Rightarrow> (rdma_recv, unit) comp" where
  "post_cts fifo remote rc step =
     (let slot = step mod remote_cts_slots remote; record = cts_record fifo remote step in
      andalso (change (\<lambda>s. s\<lparr>shadow := (shadow s)(slot := record)\<rparr>))
        (case rc step of
           Some e \<Rightarrow> raise (Runtime_error (''ibv_post_send CTS: '' @ e))
         | None \<Rightarrow> change (\<lambda>s. s\<lparr>cts_sq := cts_sq s @
             [\<lparr>cw_id = make_cts_wr_id (of_nat step), cw_slot = slot,
               cw_inline = (if kCtsSlotBytes \<le> max_inline_data remote then Some record else None),
               cw_signaled = cts_signal fifo step s\<rparr>]\<rparr>)))"

fun cts_post_loop ::
    "nat \<Rightarrow> proxy_fifo \<Rightarrow> cts_remote \<Rightarrow> (nat \<Rightarrow> string option) \<Rightarrow> bool \<Rightarrow> (rdma_recv, bool) comp" where
  "cts_post_loop 0 fifo remote rc did_work = ret did_work"
| "cts_post_loop (Suc n) fifo remote rc did_work =
     with_state (\<lambda>s.
       if max_if s \<le> inflight_cts s \<or> \<not> recv_credit fifo (next_cts s) s then ret did_work
       else andalso (post_cts fifo remote rc (next_cts s))
              (andalso (change (\<lambda>s. s\<lparr>next_cts := next_cts s + step_increment fifo, inflight_cts := inflight_cts s + 1\<rparr>))
                 (cts_post_loop n fifo remote rc True)))"

text \<open>Enough rounds for a loop that advances \<open>step\<close> while the slot is free.\<close>

definition credit_rounds :: "proxy_fifo \<Rightarrow> nat \<Rightarrow> 'a side_scheme \<Rightarrow> nat" where
  "credit_rounds fifo step s = head s + slot_count fifo - step"

definition run_recv_posts :: "proxy_fifo \<Rightarrow> (nat \<Rightarrow> string option) \<Rightarrow> bool \<Rightarrow> (rdma_recv, bool) comp" where
  "run_recv_posts fifo rc did_work = with_state (\<lambda>s. recv_post_loop (credit_rounds fifo (next_post s) s) fifo rc did_work)"

definition run_imm_posts :: "proxy_fifo \<Rightarrow> (nat \<Rightarrow> string option) \<Rightarrow> bool \<Rightarrow> (rdma_recv, bool) comp" where
  "run_imm_posts fifo rc did_work = with_state (\<lambda>s. imm_post_loop (credit_rounds fifo (next_post s) s) fifo rc did_work)"

definition run_cts_posts :: "proxy_fifo \<Rightarrow> cts_remote \<Rightarrow> (nat \<Rightarrow> string option) \<Rightarrow> bool \<Rightarrow> (rdma_recv, bool) comp" where
  "run_cts_posts fifo remote rc did_work =
     with_state (\<lambda>s. cts_post_loop (credit_rounds fifo (next_cts s) s) fifo remote rc did_work)"

text \<open>\<open>rc\<close> answers the receive requests, \<open>rc'\<close> the CTS writes.\<close>

definition prepare_recv ::
    "proxy_fifo \<Rightarrow> data_plane \<Rightarrow> cts_remote \<Rightarrow> (nat \<Rightarrow> string option) \<Rightarrow> (nat \<Rightarrow> string option) \<Rightarrow> (rdma_recv, unit) comp" where
  "prepare_recv fifo plane remote rc rc' =
     with_state (\<lambda>s.
       if prepared s then raise (Runtime_error ''rdma recv proxy already prepared'')
       else if started s then raise (Runtime_error ''rdma recv proxy already started'')
       else andthen (if plane = WriteCts
                     then andthen (run_imm_posts fifo rc False) (\<lambda>_. run_cts_posts fifo remote rc' False)
                     else run_recv_posts fifo rc False)
              (\<lambda>_. change (\<lambda>s. s\<lparr>prepared := True\<rparr>)))"

definition start_recv ::
    "proxy_fifo \<Rightarrow> data_plane \<Rightarrow> cts_remote \<Rightarrow> (nat \<Rightarrow> string option) \<Rightarrow> (nat \<Rightarrow> string option) \<Rightarrow> (rdma_recv, unit) comp" where
  "start_recv fifo plane remote rc rc' =
     with_state (\<lambda>s.
       if started s then raise (Runtime_error ''rdma recv proxy already started'')
       else andalso (prepare_recv fifo plane remote rc rc') (change (\<lambda>s. s\<lparr>started := True\<rparr>)))"

definition publish_recv :: "proxy_fifo \<Rightarrow> 32 word \<Rightarrow> rdma_recv \<Rightarrow> rdma_recv" where
  "publish_recv fifo len s =
     (let slot = next_complete s mod slot_count fifo; inc = step_increment fifo in
      s\<lparr>slot_sizes := (slot_sizes s)(slot := len), tail := next_complete s + inc,
        next_complete := next_complete s + inc, proxy_step := next_complete s + inc, inflight := inflight s - 1\<rparr>)"

definition complete_recv :: "proxy_fifo \<Rightarrow> proxy_identity \<Rightarrow> wc \<Rightarrow> (rdma_recv, unit) comp" where
  "complete_recv fifo ident w =
     andalso (check_wc ident w)
       (with_state (\<lambda>s.
          if wr_id_to_slot (wc_id w) \<noteq> next_complete s mod slot_count fifo
          then raise (Runtime_error ''rdma recv completion has unexpected FIFO slot'')
          else change (publish_recv fifo (wc_len w))))"

text \<open>\<open>flush\<close> is the error of the GPU write flush before data is published, if any.\<close>

definition gdr_flush :: "string option \<Rightarrow> ('s, unit) comp" where
  "gdr_flush flush =
     (case flush of None \<Rightarrow> ret () | Some e \<Rightarrow> raise (Runtime_error (''backend=rdma/gdr receive flush failed: '' @ e)))"

definition progress_send_recv_recv ::
    "proxy_fifo \<Rightarrow> proxy_identity \<Rightarrow> string option \<Rightarrow> (nat \<Rightarrow> string option) \<Rightarrow> nat option \<Rightarrow> rdma_recv \<Rightarrow> bool \<times> rdma_recv" where
  "progress_send_recv_recv fifo ident flush rc poll =
     catch_progress ident
       (andthen (run_recv_posts fifo rc False) (\<lambda>did_work.
        andthen (poll_cq poll) (\<lambda>wcs.
        andalso (run_if (wcs \<noteq> []) (gdr_flush flush))
       (andalso (for_each wcs (complete_recv fifo ident)) (ret (did_work \<or> wcs \<noteq> []))))))"

definition complete_cts :: "proxy_fifo \<Rightarrow> wc \<Rightarrow> (rdma_recv, unit) comp" where
  "complete_cts fifo w =
     with_state (\<lambda>s.
       let inc = step_increment fifo;
           completed_through = unat (cts_wr_id_to_step (wc_id w));
           advanced = (completed_through - next_cts_complete s) div inc + 1 in
       if completed_through < next_cts_complete s \<or> (completed_through - next_cts_complete s) mod inc \<noteq> 0
       then raise (Runtime_error ''rdma WriteCts CTS completion has unexpected step'')
       else if inflight_cts s < advanced
       then raise (Runtime_error ''rdma WriteCts CTS completion advances past inflight'')
       else change (\<lambda>s. s\<lparr>next_cts_complete := completed_through + inc, inflight_cts := inflight_cts s - advanced\<rparr>))"

definition complete_imm :: "proxy_fifo \<Rightarrow> wc \<Rightarrow> (rdma_recv, unit) comp" where
  "complete_imm fifo w =
     with_state (\<lambda>s.
       if \<not> wc_recv_imm w then raise (Runtime_error ''rdma WriteCts unexpected recv WC opcode'')
       else if wr_id_to_slot (wc_id w) \<noteq> next_complete s
       then raise (Runtime_error ''rdma WriteCts IMM completion has unexpected step'')
       else let payload = htobe32 (wc_imm w) in
       if slot_bytes fifo < unat payload
       then raise (Runtime_error ''rdma WriteCts IMM payload exceeds FIFO capacity'')
       else change (publish_recv fifo payload))"

definition complete_write :: "proxy_fifo \<Rightarrow> proxy_identity \<Rightarrow> wc \<Rightarrow> (rdma_recv, unit) comp" where
  "complete_write fifo ident w =
     andalso (check_wc ident w) (if is_cts_wr_id (wc_id w) then complete_cts fifo w else complete_imm fifo w)"

definition has_data_completion :: "wc list \<Rightarrow> bool" where
  "has_data_completion wcs = list_ex (\<lambda>w. wc_status w = None \<and> \<not> is_cts_wr_id (wc_id w) \<and> wc_recv_imm w) wcs"

definition progress_write_cts_recv ::
    "proxy_fifo \<Rightarrow> proxy_identity \<Rightarrow> cts_remote \<Rightarrow> string option \<Rightarrow> (nat \<Rightarrow> string option) \<Rightarrow> (nat \<Rightarrow> string option) \<Rightarrow>
     nat option \<Rightarrow> rdma_recv \<Rightarrow> bool \<times> rdma_recv" where
  "progress_write_cts_recv fifo ident remote flush rc rc' poll =
     catch_progress ident
       (andthen (run_cts_posts fifo remote rc' False) (\<lambda>did_cts.
        andthen (run_imm_posts fifo rc did_cts) (\<lambda>did_work.
        andthen (poll_cq poll) (\<lambda>wcs.
        andalso (run_if (has_data_completion wcs) (gdr_flush flush))
       (andalso (for_each wcs (complete_write fifo ident)) (ret (did_work \<or> wcs \<noteq> [])))))))"

definition progress_recv ::
    "proxy_fifo \<Rightarrow> proxy_identity \<Rightarrow> data_plane \<Rightarrow> cts_remote \<Rightarrow> string option \<Rightarrow> (nat \<Rightarrow> string option) \<Rightarrow>
     (nat \<Rightarrow> string option) \<Rightarrow> nat option \<Rightarrow> rdma_recv \<Rightarrow> bool \<times> rdma_recv" where
  "progress_recv fifo ident plane remote flush rc rc' poll s =
     (if stop_requested s \<or> has_error (errors s) then (False, s)
      else if plane = WriteCts then progress_write_cts_recv fifo ident remote flush rc rc' poll s
      else progress_send_recv_recv fifo ident flush rc poll s)"

end
