(* ===== verification/Rdma_Link.thy ===== *)
theory Rdma_Link
  imports Rdma_Proxy
begin

unbundle bit_operations_syntax

text \<open>
  What an RDMA edge needs before its proxies run: the options from the environment, the endpoint (a
  device of the host and a protection domain), registered memory and queue pairs
  (\<open>transport/rdma/rdma_endpoint.cc\<close>, \<open>rdma_gdr.cc\<close>, \<open>rdma_qp.cc\<close>, \<open>rdma_protocol.h\<close> and the parsers
  of \<open>rdma_proxy.cc\<close>). The state is the list of verbs objects that are open, so that a lost or a
  doubly released object shows. What the verbs library and CUDA answer is an argument; \<open>strerror\<close>
  texts are part of the answer.
\<close>

section \<open>Options\<close>

text \<open>A variable of the environment is \<open>None\<close> when it is not set.\<close>

definition parse_rdma_data_plane_env :: "string option \<Rightarrow> data_plane result" where
  "parse_rdma_data_plane_env env =
     (if env = None \<or> env = Some '''' \<or> env = Some ''0'' \<or> env = Some ''false'' \<or> env = Some ''off'' then Inr SendRecv
      else if env = Some ''1'' \<or> env = Some ''true'' \<or> env = Some ''on'' then Inr WriteCts
      else Inl (Runtime_error ''NANO_NCCL_RDMA_USE_WRITE must be 0 or 1''))"

definition parse_rdma_shared_progress_env :: "string option \<Rightarrow> bool result" where
  "parse_rdma_shared_progress_env env =
     (if env = None \<or> env = Some '''' then Inr True
      else if env = Some ''0'' \<or> env = Some ''false'' \<or> env = Some ''off'' then Inr False
      else if env = Some ''1'' \<or> env = Some ''true'' \<or> env = Some ''on'' then Inr True
      else Inl (Runtime_error ''NANO_NCCL_RDMA_SHARED_PROGRESS must be unset/\"\"/0/1/true/false/on/off''))"

datatype memory_placement = HostPin | GpuDirect

definition parse_rdma_memory_placement_env :: "string option \<Rightarrow> memory_placement result" where
  "parse_rdma_memory_placement_env env =
     (if env = None \<or> env = Some '''' \<or> env = Some ''0'' \<or> env = Some ''false'' \<or> env = Some ''off'' then Inr HostPin
      else if env = Some ''1'' \<or> env = Some ''true'' \<or> env = Some ''on'' then Inr GpuDirect
      else Inl (Runtime_error ''NANO_NCCL_RDMA_GDR must be 0 or 1''))"

text \<open>
  \<open>strtoul\<close> in base ten: white space, a sign, digits. It returns the value, whether it was out of the
  range of an \<open>unsigned long\<close>, and the rest, or \<open>None\<close> when there are no digits. A minus sign negates
  the result as an \<open>unsigned long\<close>.
\<close>

definition is_space :: "char \<Rightarrow> bool" where
  "is_space c = (c = CHR '' '' \<or> (9 \<le> (of_char c :: nat) \<and> (of_char c :: nat) \<le> 13))"

definition strtoul10 :: "string \<Rightarrow> (nat \<times> bool \<times> string) option" where
  "strtoul10 str =
     (let body = dropWhile is_space str;
          negative = (body \<noteq> [] \<and> hd body = CHR ''-'');
          unsigned_part = (if body \<noteq> [] \<and> (hd body = CHR ''-'' \<or> hd body = CHR ''+'') then tl body else body);
          ds = takeWhile is_digit unsigned_part; v = digits_value ds in
      if ds = [] then None
      else if 2 ^ 64 \<le> v then Some (2 ^ 64 - 1, True, dropWhile is_digit unsigned_part)
      else Some (if negative then (2 ^ 64 - v) mod 2 ^ 64 else v, False, dropWhile is_digit unsigned_part))"

definition parse_gid_index_env :: "string option \<Rightarrow> nat result" where
  "parse_gid_index_env env =
     (case env of
        None \<Rightarrow> Inr 0
      | Some str \<Rightarrow>
          (case strtoul10 str of
             None \<Rightarrow> Inl (Runtime_error ''NANO_NCCL_RDMA_GID_INDEX out of range'')
           | Some (v, out_of_range, rest) \<Rightarrow>
               if out_of_range \<or> rest \<noteq> [] \<or> 0xffff < v
               then Inl (Runtime_error ''NANO_NCCL_RDMA_GID_INDEX out of range'') else Inr v))"

definition negotiate_path_mtu :: "nat \<Rightarrow> nat \<Rightarrow> nat result" where
  "negotiate_path_mtu local remote =
     (if local < 1 \<or> 5 < local \<or> remote < 1 \<or> 5 < remote
      then Inl (Runtime_error (''rdma path_mtu out of range (local='' @ string_of_nat local @
                               '' remote='' @ string_of_nat remote @ '')''))
      else Inr (if local < remote then local else remote))"

section \<open>Open objects\<close>

datatype verbs_obj = O_device_list | O_context nat | O_pd nat | O_cq nat | O_qp nat | O_mr nat | O_fd nat

record verbs =
  live :: "verbs_obj list"
  fresh :: nat

definition open_obj :: "(nat \<Rightarrow> verbs_obj) \<Rightarrow> (verbs, nat) comp" where
  "open_obj mk = with_state (\<lambda>s. andthen (change (\<lambda>s. s\<lparr>live := mk (fresh s) # live s, fresh := fresh s + 1\<rparr>)) (\<lambda>_. ret (fresh s)))"

definition close_obj :: "verbs_obj \<Rightarrow> (verbs, unit) comp" where
  "close_obj x = change (\<lambda>s. s\<lparr>live := remove1 x (live s)\<rparr>)"

section \<open>Endpoint\<close>

record net_addr =
  ifa_name :: "string option"
  ifa_inet6 :: "byte list option"

text \<open>
  What the host answers about one device: \<open>query_gid\<close> twice, once for the interface check and once for
  the endpoint, an error being the text of the returned code.
\<close>

record hca_device =
  hca_name :: "string option"
  opens :: bool
  port_query_fails :: bool
  port_active :: bool
  port_lid_of :: nat
  port_mtu :: nat
  in_sysfs :: "string \<Rightarrow> bool"
  gid_probe :: "byte list option"
  gid_query :: "string + byte list"
  pd_error :: "string option"

record rdma_endpoint =
  ep_context :: "nat option"
  ep_pd :: "nat option"
  port_lid :: nat
  gid_index :: nat
  active_mtu :: nat
  gid :: "byte list"

definition sysfs_iface_match :: "hca_device \<Rightarrow> string \<Rightarrow> bool" where
  "sysfs_iface_match dev ifname = in_sysfs dev ifname"

text \<open>\<open>None\<close> when \<open>getifaddrs\<close> fails.\<close>

definition gid_iface_match :: "net_addr list option \<Rightarrow> byte list \<Rightarrow> string \<Rightarrow> bool" where
  "gid_iface_match ifaddrs g ifname =
     (case ifaddrs of
        None \<Rightarrow> False
      | Some entries \<Rightarrow> list_ex (\<lambda>e. ifa_name e = Some ifname \<and> ifa_inet6 e = Some g) entries)"

definition iface_matches_hca :: "net_addr list option \<Rightarrow> hca_device \<Rightarrow> string option \<Rightarrow> bool" where
  "iface_matches_hca ifaddrs dev ifname =
     (case ifname of
        None \<Rightarrow> True
      | Some [] \<Rightarrow> True
      | Some name \<Rightarrow>
          if hca_name dev \<noteq> None \<and> sysfs_iface_match dev name then True
          else (case gid_probe dev of None \<Rightarrow> False | Some g \<Rightarrow> gid_iface_match ifaddrs g name))"

definition device_error :: "hca_device \<Rightarrow> string \<Rightarrow> string \<Rightarrow> exn" where
  "device_error dev op err =
     Runtime_error ((case hca_name dev of
        Some name \<Rightarrow> ''rdma endpoint '' @ op @ ''('' @ name @ '') failed: ''
      | None \<Rightarrow> ''rdma endpoint '' @ op @ '' failed: '') @ err)"

fun scan_devices ::
    "net_addr list option \<Rightarrow> string option \<Rightarrow> nat \<Rightarrow> hca_device list \<Rightarrow> (verbs, rdma_endpoint) comp" where
  "scan_devices ifaddrs ifname gidx [] =
     raise (Runtime_error (case ifname of
        Some (c # cs) \<Rightarrow> ''rdma endpoint: no active RDMA HCA tied to interface '' @ c # cs
      | _ \<Rightarrow> ''rdma endpoint: no active RDMA HCA found''))"
| "scan_devices ifaddrs ifname gidx (dev # devs) =
     (if \<not> opens dev then scan_devices ifaddrs ifname gidx devs
      else andthen (open_obj O_context) (\<lambda>ctx.
        if port_query_fails dev \<or> \<not> port_active dev \<or> \<not> iface_matches_hca ifaddrs dev ifname
        then andalso (close_obj (O_context ctx)) (scan_devices ifaddrs ifname gidx devs)
        else case gid_query dev of
          Inl err \<Rightarrow> andalso (close_obj (O_context ctx)) (raise (device_error dev ''ibv_query_gid'' err))
        | Inr g \<Rightarrow>
            (case pd_error dev of
               Some err \<Rightarrow> andalso (close_obj (O_context ctx)) (raise (device_error dev ''ibv_alloc_pd'' err))
             | None \<Rightarrow> andthen (open_obj O_pd) (\<lambda>pd.
                 ret \<lparr>ep_context = Some ctx, ep_pd = Some pd, port_lid = port_lid_of dev, gid_index = gidx,
                      active_mtu = port_mtu dev, gid = g\<rparr>))))"

text \<open>\<open>devices\<close> is the error of listing the devices, or the list.\<close>

definition create_from_environment ::
    "string option \<Rightarrow> string option \<Rightarrow> net_addr list option \<Rightarrow> string + hca_device list \<Rightarrow> (verbs, rdma_endpoint) comp" where
  "create_from_environment gid_env ifname ifaddrs devices =
     andthen (lift (parse_gid_index_env gid_env)) (\<lambda>gidx.
       case devices of
         Inl err \<Rightarrow> raise (Runtime_error (''rdma endpoint ibv_get_device_list failed: '' @ err))
       | Inr devs \<Rightarrow>
           andalso (change (\<lambda>s. s\<lparr>live := O_device_list # live s\<rparr>))
             (with_cleanup
                (if devs = [] then raise (Runtime_error ''rdma endpoint: no RDMA devices found'')
                 else scan_devices ifaddrs ifname gidx devs)
                (close_obj O_device_list)))"

definition close_endpoint :: "rdma_endpoint \<Rightarrow> (verbs, rdma_endpoint) comp" where
  "close_endpoint e =
     andalso (case ep_pd e of None \<Rightarrow> ret () | Some pd \<Rightarrow> close_obj (O_pd pd))
    (andalso (case ep_context e of None \<Rightarrow> ret () | Some ctx \<Rightarrow> close_obj (O_context ctx))
       (ret (e\<lparr>ep_pd := None, ep_context := None\<rparr>)))"

definition allocate_cq :: "rdma_endpoint \<Rightarrow> string option \<Rightarrow> (verbs, nat) comp" where
  "allocate_cq e cq_error =
     (if ep_context e = None then raise (Runtime_error ''rdma endpoint allocate_cq on null context'')
      else case cq_error of
        Some err \<Rightarrow> raise (Runtime_error (''rdma endpoint ibv_create_cq failed: '' @ err))
      | None \<Rightarrow> open_obj O_cq)"

section \<open>Queue pairs\<close>

datatype qp_state = Qps_reset | Qps_init | Qps_rtr | Qps_rts

record peer_info =
  qpn :: nat
  psn :: nat
  p_port_lid :: nat
  p_gid_index :: nat
  p_gid :: "byte list"
  p_active_mtu :: nat
  recv_fifo_addr :: nat
  recv_fifo_rkey :: nat
  recv_fifo_bytes :: nat
  cts_fifo_addr :: nat
  cts_fifo_rkey :: nat
  cts_slots :: nat
  flags :: "32 word"

text \<open>The attributes of the two later transitions that depend on the peer or on this end.\<close>

record rtr_attr =
  path_mtu :: nat
  dest_qp_num :: nat
  rq_psn :: nat
  dlid :: nat
  dgid :: "byte list"
  sgid_index :: nat

record rdma_qp =
  qp :: "nat option"
  cq_of :: "nat option"
  qp_num :: nat
  max_inline :: nat
  qp_state :: qp_state
  rtr :: "rtr_attr option"
  sq_psn :: nat

text \<open>What the verbs calls behind one queue pair answer.\<close>

record qp_answers =
  cq_error :: "string option"
  qp_answer :: "string + (nat \<times> nat)"
  init_error :: "string option"
  rtr_error :: "string option"
  rts_error :: "string option"

definition qp_error :: "string \<Rightarrow> string \<Rightarrow> exn" where
  "qp_error op err = Runtime_error (''rdma qp '' @ op @ '' failed: '' @ err)"

definition modify_qp_to_init :: "string option \<Rightarrow> ('s, unit) comp" where
  "modify_qp_to_init rc = (case rc of Some err \<Rightarrow> raise (qp_error ''ibv_modify_qp INIT'' err) | None \<Rightarrow> ret ())"

definition create_init :: "rdma_endpoint \<Rightarrow> qp_answers \<Rightarrow> (verbs, rdma_qp) comp" where
  "create_init e ans =
     andthen (allocate_cq e (cq_error ans)) (\<lambda>cq.
       case qp_answer ans of
         Inl err \<Rightarrow> andalso (close_obj (O_cq cq)) (raise (qp_error ''ibv_create_qp'' err))
       | Inr (num, inline) \<Rightarrow>
           andthen (open_obj O_qp) (\<lambda>q.
           andalso (on_exception (modify_qp_to_init (init_error ans))
                      (\<lambda>s. s\<lparr>live := remove1 (O_cq cq) (remove1 (O_qp q) (live s))\<rparr>))
             (ret \<lparr>qp = Some q, cq_of = Some cq, qp_num = num, max_inline = inline, qp_state = Qps_init, rtr = None, sq_psn = 0\<rparr>)))"

definition destroy_qp :: "rdma_qp \<Rightarrow> (verbs, rdma_qp) comp" where
  "destroy_qp q =
     andalso (case qp q of None \<Rightarrow> ret () | Some x \<Rightarrow> close_obj (O_qp x))
    (andalso (case cq_of q of None \<Rightarrow> ret () | Some c \<Rightarrow> close_obj (O_cq c))
       (ret (q\<lparr>qp := None, cq_of := None, qp_num := 0, max_inline := 0\<rparr>)))"

text \<open>The move constructor leaves nothing to destroy behind.\<close>

definition moved_from :: "rdma_qp \<Rightarrow> rdma_qp \<times> rdma_qp" where
  "moved_from q = (q, q\<lparr>qp := None, cq_of := None, qp_num := 0, max_inline := 0\<rparr>)"

definition transition_to_rtr :: "qp_answers \<Rightarrow> peer_info \<Rightarrow> nat \<Rightarrow> nat \<Rightarrow> rdma_qp \<Rightarrow> rdma_qp result" where
  "transition_to_rtr ans remote local_gid_index local_active_mtu q =
     rbind (throw_if (0xff < local_gid_index) (Runtime_error ''local RDMA GID index exceeds verbs range'')) (\<lambda>_.
     rbind (negotiate_path_mtu local_active_mtu (p_active_mtu remote)) (\<lambda>mtu.
       case rtr_error ans of
         Some err \<Rightarrow> Inl (qp_error ''ibv_modify_qp RTR'' err)
       | None \<Rightarrow> Inr (q\<lparr>qp_state := Qps_rtr,
           rtr := Some \<lparr>path_mtu = mtu, dest_qp_num = qpn remote, rq_psn = psn remote, dlid = p_port_lid remote,
                        dgid = p_gid remote, sgid_index = local_gid_index\<rparr>\<rparr>)))"

definition transition_to_rts :: "qp_answers \<Rightarrow> nat \<Rightarrow> nat \<Rightarrow> rdma_qp \<Rightarrow> rdma_qp result" where
  "transition_to_rts ans local_psn remote_psn q =
     (case rts_error ans of
        Some err \<Rightarrow> Inl (qp_error ''ibv_modify_qp RTS'' err)
      | None \<Rightarrow> Inr (q\<lparr>qp_state := Qps_rts, sq_psn := local_psn\<rparr>))"

definition local_info :: "rdma_qp \<Rightarrow> peer_info" where
  "local_info q =
     \<lparr>qpn = qp_num q, psn = 0, p_port_lid = 0, p_gid_index = 0, p_gid = replicate 16 0, p_active_mtu = 0,
      recv_fifo_addr = 0, recv_fifo_rkey = 0, recv_fifo_bytes = 0, cts_fifo_addr = 0, cts_fifo_rkey = 0, cts_slots = 0,
      flags = 0\<rparr>"

section \<open>Registered memory\<close>

datatype registration_method = M_none | M_host_verbs | M_dma_buf | M_device_verbs

record registered =
  mr :: "nat option"
  mr_addr :: "64 word"
  mr_bytes :: "64 word"
  on_device :: bool
  reg_method :: registration_method

definition registration_method_name :: "registered \<Rightarrow> string" where
  "registration_method_name r =
     (case reg_method r of M_none \<Rightarrow> ''none'' | M_host_verbs \<Rightarrow> ''host-verbs'' | M_dma_buf \<Rightarrow> ''dmabuf'' | M_device_verbs \<Rightarrow> ''device-verbs'')"

definition unregistered :: registered where
  "unregistered = \<lparr>mr = None, mr_addr = 0, mr_bytes = 0, on_device = False, reg_method = M_none\<rparr>"

definition reset_registered :: "registered \<Rightarrow> (verbs, registered) comp" where
  "reset_registered r =
     andalso (case mr r of None \<Rightarrow> ret () | Some m \<Rightarrow> close_obj (O_mr m)) (ret unregistered)"

text \<open>\<open>reg_error\<close> is the error of \<open>ibv_reg_mr\<close>; a null protection domain or address is the number zero.\<close>

definition register_host :: "nat \<Rightarrow> 64 word \<Rightarrow> 64 word \<Rightarrow> string option \<Rightarrow> (verbs, registered) comp" where
  "register_host pd addr bytes reg_error =
     (if pd = 0 \<or> addr = 0 \<or> bytes = 0 then raise (Runtime_error ''rdma gdr register_host: invalid args'')
      else case reg_error of
        Some err \<Rightarrow> raise (Runtime_error (''rdma gdr ibv_reg_mr host failed: '' @ err))
      | None \<Rightarrow> andthen (open_obj O_mr) (\<lambda>m.
          ret \<lparr>mr = Some m, mr_addr = addr, mr_bytes = bytes, on_device = False, reg_method = M_host_verbs\<rparr>))"

text \<open>The page-aligned range around an allocation: start, offset of the allocation in it, length.\<close>

definition dmabuf_range :: "64 word \<Rightarrow> 64 word \<Rightarrow> 64 word \<Rightarrow> 64 word \<times> 64 word \<times> 64 word" where
  "dmabuf_range page ptr bytes =
     (let aligned = ptr AND NOT (page - 1); offset = ptr - aligned in
      (aligned, offset, (offset + bytes + page - 1) AND NOT (page - 1)))"

record device_answers =
  sync_error :: "string option"
  dmabuf_handle :: "64 word \<Rightarrow> 64 word \<Rightarrow> bool"
  dmabuf_reg :: "64 word \<Rightarrow> 64 word \<Rightarrow> bool"
  device_reg_error :: "string option"

text \<open>The descriptor of the range is closed whether or not the registration works.\<close>

definition try_reg_dmabuf :: "64 word \<Rightarrow> device_answers \<Rightarrow> 64 word \<Rightarrow> 64 word \<Rightarrow> (verbs, nat option) comp" where
  "try_reg_dmabuf page ans addr bytes =
     (case dmabuf_range page addr bytes of (aligned, offset, aligned_bytes) \<Rightarrow>
        if \<not> dmabuf_handle ans aligned aligned_bytes then ret None
        else andthen (open_obj O_fd) (\<lambda>fd.
          if dmabuf_reg ans offset bytes
          then andthen (open_obj O_mr) (\<lambda>m. andalso (close_obj (O_fd fd)) (ret (Some m)))
          else andalso (close_obj (O_fd fd)) (ret None)))"

definition enable_gpu_rdma_sync_memops :: "device_answers \<Rightarrow> ('s, unit) comp" where
  "enable_gpu_rdma_sync_memops ans =
     (case sync_error ans of
        Some err \<Rightarrow> raise (Runtime_error (''rdma gdr cuPointerSetAttribute(SYNC_MEMOPS) failed: '' @ err))
      | None \<Rightarrow> ret ())"

definition register_device :: "64 word \<Rightarrow> device_answers \<Rightarrow> nat \<Rightarrow> 64 word \<Rightarrow> 64 word \<Rightarrow> (verbs, registered) comp" where
  "register_device page ans pd addr bytes =
     (if pd = 0 \<or> addr = 0 \<or> bytes = 0 then raise (Runtime_error ''rdma gdr register_device: invalid args'')
      else andalso (enable_gpu_rdma_sync_memops ans)
        (andthen (try_reg_dmabuf page ans addr bytes) (\<lambda>m.
           case m of
             Some m \<Rightarrow> ret \<lparr>mr = Some m, mr_addr = addr, mr_bytes = bytes, on_device = True, reg_method = M_dma_buf\<rparr>
           | None \<Rightarrow>
               (case device_reg_error ans of
                  Some err \<Rightarrow> raise (Runtime_error (''rdma gdr register_device unavailable: '' @ err))
                | None \<Rightarrow> andthen (open_obj O_mr) (\<lambda>m.
                    ret \<lparr>mr = Some m, mr_addr = addr, mr_bytes = bytes, on_device = True, reg_method = M_device_verbs\<rparr>)))))"

section \<open>Receive flush\<close>

text \<open>
  CUDA's answers for one device: an attribute is an error text or a number, the ordering a device gives
  natively is enough from \<open>owner_ordering\<close> on, the flush option for the host is the bit \<open>host_option\<close>.
\<close>

record flush_cuda =
  native_ordering :: "string + nat"
  owner_ordering :: nat
  flush_options :: "string + 32 word"
  host_option :: "32 word"
  get_device :: "string + int"
  set_device :: "string option"
  flush_writes :: "string option"

record receive_flush =
  flush_device :: int
  flush_required :: bool

definition flush_receive :: "flush_cuda \<Rightarrow> receive_flush \<Rightarrow> unit result" where
  "flush_receive cu f =
     (if \<not> flush_required f then Inr ()
      else case (case get_device cu of
                   Inl e \<Rightarrow> Some e
                 | Inr current \<Rightarrow>
                     (case (if current \<noteq> flush_device f then set_device cu else None) of
                        Some e \<Rightarrow> Some e
                      | None \<Rightarrow> flush_writes cu)) of
          Some e \<Rightarrow> Inl (Runtime_error (''backend=rdma/gdr receive flush failed: '' @ e))
        | None \<Rightarrow> Inr ())"

definition flush_for_device :: "flush_cuda \<Rightarrow> int \<Rightarrow> receive_flush result" where
  "flush_for_device cu device =
     (case native_ordering cu of
        Inl e \<Rightarrow> Inl (Runtime_error e)
      | Inr native \<Rightarrow>
          (if owner_ordering cu \<le> native then Inr \<lparr>flush_device = device, flush_required = False\<rparr>
           else (case flush_options cu of
              Inl e \<Rightarrow> Inl (Runtime_error e)
            | Inr options \<Rightarrow>
                (if options AND host_option cu = 0
                 then Inl (Runtime_error (''GPUDirect RDMA receive requires a host write flush, but the CUDA '' @
                        ''device does not support cudaDeviceFlushGPUDirectRDMAWrites''))
                 else rbind (flush_receive cu \<lparr>flush_device = device, flush_required = True\<rparr>)
                        (\<lambda>_. Inr \<lparr>flush_device = device, flush_required = True\<rparr>)))))"

section \<open>Objects are neither lost nor released twice\<close>

lemmas link_simps = open_obj_def close_obj_def with_state_def andalso_def andthen_def change_def ret_def raise_def lift_def
  with_cleanup_def on_exception_def

text \<open>A queue pair is created completely or not at all: when a verbs call fails, the completion queue and
  the queue pair that were already made are destroyed again; otherwise the new object owns exactly one
  of each, in state INIT, and destroying it leaves what was open before.\<close>

theorem create_init_objects:
  assumes "create_init e ans s = (r, s')"
  shows "case r of
      Inl _ \<Rightarrow> live s' = live s
    | Inr q \<Rightarrow> \<exists>x c. qp q = Some x \<and> cq_of q = Some c \<and> live s' = O_qp x # O_cq c # live s \<and>
        qp_state q = Qps_init \<and> live (snd (destroy_qp q s')) = live s"
  using assms
  by (auto simp: create_init_def allocate_cq_def modify_qp_to_init_def destroy_qp_def link_simps
      split: if_splits option.splits sum.splits prod.splits)

lemma register_device_objects:
  assumes "register_device page ans pd addr bytes s = (r, s')"
  shows "case r of
      Inl _ \<Rightarrow> live s' = live s
    | Inr m \<Rightarrow> \<exists>x. mr m = Some x \<and> live s' = O_mr x # live s \<and> mr_addr m = addr \<and> mr_bytes m = bytes \<and>
        live (snd (reset_registered m s')) = live s"
  using assms
  by (auto simp: register_device_def try_reg_dmabuf_def enable_gpu_rdma_sync_memops_def reset_registered_def link_simps
      split: if_splits option.splits sum.splits prod.splits)

section \<open>Properties\<close>

text \<open>A device is taken if it opens, has an active port and belongs to the interface asked for.\<close>

definition usable :: "net_addr list option \<Rightarrow> string option \<Rightarrow> hca_device \<Rightarrow> bool" where
  "usable ifaddrs ifname dev \<longleftrightarrow>
     opens dev \<and> \<not> port_query_fails dev \<and> port_active dev \<and> iface_matches_hca ifaddrs dev ifname"

lemma scan_devices_spec:
  "scan_devices ifaddrs ifname gidx devs s = (r, s') \<Longrightarrow>
   case r of
     Inl _ \<Rightarrow> live s' = live s \<and>
       (\<forall>dev. find (usable ifaddrs ifname) devs = Some dev \<longrightarrow> \<not> is_ok (gid_query dev) \<or> pd_error dev \<noteq> None)
   | Inr e \<Rightarrow> \<exists>dev ctx pd. find (usable ifaddrs ifname) devs = Some dev \<and> gid_query dev = Inr (gid e) \<and> pd_error dev = None \<and>
       ep_context e = Some ctx \<and> ep_pd e = Some pd \<and> gid_index e = gidx \<and> port_lid e = port_lid_of dev \<and>
       active_mtu e = port_mtu dev \<and> live s' = O_pd pd # O_context ctx # live s"
proof (induction devs arbitrary: s)
  case Nil
  then show ?case by (auto simp: raise_def)
next
  case (Cons dev devs)
  show ?case
  proof (cases "usable ifaddrs ifname dev")
    case True
    then show ?thesis using Cons.prems
      by (auto simp: usable_def link_simps split: sum.splits option.splits)
  next
    case False
    have "\<exists>s1. live s1 = live s \<and> scan_devices ifaddrs ifname gidx devs s1 = (r, s')"
    proof (cases "opens dev")
      case True
      then show ?thesis using Cons.prems False by (auto simp: usable_def link_simps intro!: exI[of _ "s\<lparr>fresh := Suc (fresh s)\<rparr>"] split: if_splits)
    next
      case False
      then show ?thesis using Cons.prems by auto
    qed
    then obtain s1 where "live s1 = live s" "scan_devices ifaddrs ifname gidx devs s1 = (r, s')" by blast
    with Cons.IH[of s1] False show ?thesis by (cases r) auto
  qed
qed

text \<open>The endpoint is the first usable device of the list, with the protection domain and the attributes the
  queue pairs need; whatever fails, every device that was opened on the way is closed again, and so is
  the list.\<close>

theorem endpoint_selection:
  assumes "create_from_environment gid_env ifname ifaddrs devices s = (r, s')" "O_device_list \<notin> set (live s)"
  shows "case r of
      Inl _ \<Rightarrow> live s' = live s
    | Inr e \<Rightarrow> \<exists>devs dev ctx pd. devices = Inr devs \<and> find (usable ifaddrs ifname) devs = Some dev \<and>
        parse_gid_index_env gid_env = Inr (gid_index e) \<and> gid_query dev = Inr (gid e) \<and>
        port_lid e = port_lid_of dev \<and> active_mtu e = port_mtu dev \<and>
        ep_context e = Some ctx \<and> ep_pd e = Some pd \<and> live s' = O_pd pd # O_context ctx # live s \<and>
        live (snd (close_endpoint e s')) = live s"
proof (cases "parse_gid_index_env gid_env")
  case (Inl e)
  then show ?thesis using assms by (auto simp: create_from_environment_def link_simps)
next
  case (Inr gidx)
  show ?thesis
  proof (cases devices)
    case (Inl err)
    then show ?thesis using assms Inr by (auto simp: create_from_environment_def link_simps)
  next
    case (Inr devs)
    show ?thesis
    proof (cases "devs = []")
      case True
      then show ?thesis using assms Inr \<open>parse_gid_index_env gid_env = Inr gidx\<close>
        by (auto simp: create_from_environment_def link_simps)
    next
      case False
      obtain r1 s1 where p: "scan_devices ifaddrs ifname gidx devs (s\<lparr>live := O_device_list # live s\<rparr>) = (r1, s1)" by fastforce
      have "r = r1" "s' = s1\<lparr>live := remove1 O_device_list (live s1)\<rparr>"
        using assms(1) Inr False p \<open>parse_gid_index_env gid_env = Inr gidx\<close> by (auto simp: create_from_environment_def link_simps)
      then show ?thesis using scan_devices_spec[OF p] Inr \<open>parse_gid_index_env gid_env = Inr gidx\<close>
        by (auto simp: close_endpoint_def link_simps split: sum.splits)
    qed
  qed
qed

lemma unat_below_2p: "unat (w :: 64 word) < 2 ^ 64"
  using unsigned_less[of w, where ?'a = nat] by simp

lemma unat_add64: "unat a + unat b < 2 ^ 64 \<Longrightarrow> unat (a + b :: 64 word) = unat a + unat b"
  using unat_add_lem[of a b] by simp

lemma round_down_unat: "unat (w AND NOT (2 ^ k - 1) :: 64 word) = unat w div 2 ^ k * 2 ^ k" if "k < 64"
proof -
  have "w AND NOT (2 ^ k - 1) = w AND NOT (mask k)" by (simp add: mask_eq_decr_exp)
  also have "\<dots> = push_bit k (drop_bit k w)" by (rule bit_word_eqI) (auto simp: bit_simps)
  finally have "unat (w AND NOT (2 ^ k - 1)) = take_bit 64 (push_bit k (drop_bit k (unat w)))"
    using unat_below_2p[of w] by (simp add: unsigned_push_bit_eq unsigned_drop_bit_eq take_bit_nat_eq_self)
  also have "push_bit k (drop_bit k (unat w)) \<le> unat w" by (simp add: push_bit_eq_mult drop_bit_eq_div)
  then have "push_bit k (drop_bit k (unat w)) < 2 ^ 64" using unat_below_2p[of w] by simp
  then have "take_bit 64 (push_bit k (drop_bit k (unat w))) = push_bit k (drop_bit k (unat w))" by (simp add: take_bit_nat_eq_self)
  finally show ?thesis by (simp add: push_bit_eq_mult drop_bit_eq_div)
qed

text \<open>The range that is handed to the NIC driver for an allocation is made of whole pages, covers the
  allocation, starts less than a page before it and ends less than a page behind it, as long as the
  addresses do not run into the end of the address space.\<close>

theorem dmabuf_range_covers:
  assumes "k < 64" "dmabuf_range (2 ^ k) ptr bytes = (aligned, offset, len)" "unat ptr + unat bytes + 2 ^ k < 2 ^ 64"
  shows "2 ^ k dvd unat aligned \<and> 2 ^ k dvd unat len \<and> unat aligned + unat offset = unat ptr \<and> unat offset < 2 ^ k \<and>
    unat ptr + unat bytes \<le> unat aligned + unat len \<and> unat len < unat offset + unat bytes + 2 ^ k"
proof -
  let ?p = "2 ^ k :: nat"
  have al: "aligned = ptr AND NOT (2 ^ k - 1)" and off: "offset = ptr - aligned"
    and len: "len = (offset + bytes + 2 ^ k - 1) AND NOT (2 ^ k - 1)"
    using assms(2) by (auto simp: dmabuf_range_def Let_def)
  have a: "unat aligned = unat ptr div ?p * ?p" unfolding al by (rule round_down_unat[OF assms(1)])
  then have "aligned \<le> ptr" by (simp add: word_le_nat_alt)
  then have o: "unat offset = unat ptr mod ?p" by (simp add: off unat_sub a minus_div_mult_eq_mod)
  have "?p < 2 ^ 64" using assms(1) by (intro power_strict_increasing) simp_all
  then have p: "unat (2 ^ k :: 64 word) = ?p" using unat64_of_nat[of ?p] by simp
  have sum: "unat (offset + bytes + 2 ^ k - 1) = unat offset + unat bytes + ?p - 1"
  proof -
    have "unat offset \<le> unat ptr" unfolding o by (rule mod_less_eq_dividend)
    then have lt: "unat offset + unat bytes + ?p < 2 ^ 64" using assms(3) by linarith
    then have "unat (offset + bytes) = unat offset + unat bytes" by (intro unat_add64) simp
    moreover have "unat (offset + bytes + 2 ^ k) = unat (offset + bytes) + ?p"
      using lt p calculation unat_add64[of "offset + bytes" "2 ^ k"] by simp
    ultimately have u: "unat (offset + bytes + 2 ^ k) = unat offset + unat bytes + ?p" by simp
    moreover have "(1 :: 64 word) \<le> offset + bytes + 2 ^ k" using u by (simp add: word_le_nat_alt Suc_le_eq)
    ultimately show ?thesis by (simp add: unat_sub)
  qed
  have l: "unat len = (unat offset + unat bytes + ?p - 1) div ?p * ?p"
    unfolding len round_down_unat[OF assms(1)] sum by (rule refl)
  let ?n = "unat offset + unat bytes"
  have "(?n + ?p - 1) div ?p * ?p + (?n + ?p - 1) mod ?p = ?n + ?p - 1" by (rule div_mult_mod_eq)
  moreover have "(?n + ?p - 1) mod ?p < ?p" "0 < ?p" by simp_all
  ultimately have c: "?n \<le> unat len" "unat len < ?n + ?p" unfolding l by linarith+
  have "unat aligned + unat offset = unat ptr" unfolding a o by (rule div_mult_mod_eq)
  moreover have "unat offset < ?p" unfolding o by simp
  moreover have "2 ^ k dvd unat aligned" "2 ^ k dvd unat len" unfolding a l by simp_all
  ultimately show ?thesis using c by simp
qed

theorem dmabuf_range_covers_witness:
  "unat (fst (dmabuf_range 4096 10000 5000)) = 8192 \<and> 15000 \<le> 8192 + unat (snd (snd (dmabuf_range 4096 10000 5000)))"
  using dmabuf_range_covers[of 12 10000 5000 8192 1808 8192] by (simp add: dmabuf_range_def)

section \<open>Both ends of a link\<close>

lemma negotiate_path_mtu_iff:
  "negotiate_path_mtu a b = Inr m \<longleftrightarrow> 1 \<le> a \<and> a \<le> 5 \<and> 1 \<le> b \<and> b \<le> 5 \<and> m = min a b"
  by (auto simp: negotiate_path_mtu_def min_def)

text \<open>The two ends of a connection fit together: if both reach RTR, they use the same path MTU, which neither
  port exceeds, and each sends to the queue pair and the GID the other one told it.\<close>

theorem link_ends_agree:
  assumes "transition_to_rtr ans_a info_b gid_a mtu_a qp_a = Inr qp_a'" "transition_to_rtr ans_b info_a gid_b mtu_b qp_b = Inr qp_b'"
    and "p_active_mtu info_a = mtu_a" "p_active_mtu info_b = mtu_b" "qpn info_a = qp_num qp_a" "qpn info_b = qp_num qp_b"
  shows "\<exists>a b. rtr qp_a' = Some a \<and> rtr qp_b' = Some b \<and> path_mtu a = path_mtu b \<and> path_mtu a \<le> mtu_a \<and> path_mtu a \<le> mtu_b \<and>
    dest_qp_num a = qp_num qp_b \<and> dest_qp_num b = qp_num qp_a \<and> dgid a = p_gid info_b \<and> dgid b = p_gid info_a \<and>
    qp_state qp_a' = Qps_rtr \<and> qp_state qp_b' = Qps_rtr"
  using assms by (auto simp: transition_to_rtr_def rbind_eq_Inr_iff negotiate_path_mtu_iff throw_if_def split: option.splits if_splits)

section \<open>Options\<close>

lemma not_space_digit: "is_digit c \<Longrightarrow> \<not> is_space c \<and> c \<noteq> CHR ''-'' \<and> c \<noteq> CHR ''+''"
  by (auto simp: is_digit_def is_space_def)

text \<open>Every GID index that fits into sixteen bits can be given in decimal, and is read back.\<close>

theorem gid_index_roundtrip:
  assumes "n < 2 ^ 16"
  shows "parse_gid_index_env (Some (string_of_nat n)) = Inr n"
proof -
  let ?s = "string_of_nat n"
  have d: "list_all is_digit ?s" "digits_value ?s = n" "?s \<noteq> []" using digits_string_of_nat[of n] by auto
  then obtain c cs where c: "?s = c # cs" "is_digit c" by (cases ?s) auto
  have tw: "takeWhile is_digit cs = cs" "dropWhile is_digit cs = []" using d(1) c(1) by (auto simp: list_all_iff takeWhile_eq_all_conv)
  show ?thesis using assms d(2) not_space_digit[OF c(2)] c(2)
    by (simp add: parse_gid_index_env_def strtoul10_def c(1) tw Let_def)
qed

lemma gid_index_negative: "parse_gid_index_env (Some ''-18446744073709551615'') = Inr 1"
  by (simp add: parse_gid_index_env_def strtoul10_def is_space_def is_digit_def digits_value_def digit_value_def Let_def)

theorem gid_index_roundtrip_witness: "parse_gid_index_env (Some ''3'') = Inr 3"
proof -
  have "string_of_nat 3 = ''3''" by code_simp
  then show ?thesis using gid_index_roundtrip[of 3] by simp
qed

section \<open>Examples\<close>

definition demo_hca :: "string \<Rightarrow> bool \<Rightarrow> hca_device" where
  "demo_hca name active =
     \<lparr>hca_name = Some name, opens = True, port_query_fails = False, port_active = active, port_lid_of = 7, port_mtu = 5,
      in_sysfs = (\<lambda>i. i = ''eth1''), gid_probe = None, gid_query = Inr (replicate 16 1), pd_error = None\<rparr>"

definition demo_answers :: qp_answers where
  "demo_answers = \<lparr>cq_error = None, qp_answer = Inr (21, 64), init_error = Some ''EINVAL'', rtr_error = None, rts_error = None\<rparr>"

definition demo_endpoint :: rdma_endpoint where
  "demo_endpoint = \<lparr>ep_context = Some 0, ep_pd = Some 1, port_lid = 7, gid_index = 3, active_mtu = 5, gid = replicate 16 1\<rparr>"

theorem endpoint_selection_witness:
  "live (snd (create_from_environment (Some ''70000'') None None (Inr [demo_hca ''mlx5_0'' True]) \<lparr>live = [], fresh = 0\<rparr>)) = []"
proof -
  have e: "create_from_environment (Some ''70000'') None None (Inr [demo_hca ''mlx5_0'' True]) \<lparr>live = [], fresh = 0\<rparr> =
      (Inl (Runtime_error ''NANO_NCCL_RDMA_GID_INDEX out of range''), \<lparr>live = [], fresh = 0\<rparr>)"
    by (simp add: create_from_environment_def parse_gid_index_env_def strtoul10_def is_space_def is_digit_def digits_value_def
        digit_value_def Let_def link_simps)
  show ?thesis using endpoint_selection[OF e] e by simp
qed

theorem create_init_objects_witness: "live (snd (create_init demo_endpoint demo_answers \<lparr>live = [O_context 0, O_pd 1], fresh = 2\<rparr>)) = [O_context 0, O_pd 1]"
proof -
  have e: "create_init demo_endpoint demo_answers \<lparr>live = [O_context 0, O_pd 1], fresh = 2\<rparr> =
      (Inl (Runtime_error ''rdma qp ibv_modify_qp INIT failed: EINVAL''), \<lparr>live = [O_context 0, O_pd 1], fresh = 4\<rparr>)"
    by (simp add: create_init_def allocate_cq_def demo_endpoint_def demo_answers_def modify_qp_to_init_def qp_error_def link_simps)
  show ?thesis using create_init_objects[OF e] e by simp
qed

definition demo_rqp :: "nat \<Rightarrow> rdma_qp" where
  "demo_rqp n = \<lparr>qp = Some 0, cq_of = Some 1, qp_num = n, max_inline = 64, qp_state = Qps_init, rtr = None, sq_psn = 0\<rparr>"

definition demo_info :: "nat \<Rightarrow> nat \<Rightarrow> peer_info" where
  "demo_info n mtu = (local_info (demo_rqp n))\<lparr>p_active_mtu := mtu\<rparr>"

theorem link_ends_agree_witness:
  "\<exists>a. rtr (projr (transition_to_rtr demo_answers (demo_info 22 3) 3 5 (demo_rqp 21))) = Some a \<and> path_mtu a \<le> 3 \<and> dest_qp_num a = 22"
proof -
  obtain a b where t: "transition_to_rtr demo_answers (demo_info 22 3) 3 5 (demo_rqp 21) = Inr a"
      "transition_to_rtr demo_answers (demo_info 21 5) 0 3 (demo_rqp 22) = Inr b"
    by (simp add: transition_to_rtr_def negotiate_path_mtu_def demo_answers_def demo_info_def demo_rqp_def local_info_def)
  show ?thesis using link_ends_agree[OF t] t by (auto simp: demo_info_def demo_rqp_def local_info_def)
qed

end
