(* ===== verification/Rdma_Edge.thy ===== *)
theory Rdma_Edge
  imports Rdma_Proxy
begin

text \<open>
  An RDMA edge in the plane \<open>SendRecv\<close>: the two kernels, the two proxies of \<open>rdma_proxy.cc\<close> and the
  adapters in between, as a step relation that lets them act in any order.

  The adapters are not part of the sources. \<open>nic_deliver\<close> states what a reliable connection does with
  a SEND: requests are executed in order, each into the oldest posted receive request; the receiver
  gets a completion with the number of bytes, the sender one if the request was signaled. At any time
  the connection may break (\<open>nic_fault\<close>): the requests that are left end with failing completions,
  nothing more is delivered, and the buffer of the receive request in use may hold anything.

  The sending kernel publishes no empty slices (\<open>direct_send\<close> and the other primitives of the ring
  kernels skip them) and fewer than \<open>2 ^ 63\<close> steps.
\<close>

section \<open>The edge\<close>

record rdma_edge =
  r_snd :: rdma_send
  r_rcv :: rdma_recv
  broken :: bool
  r_sent :: "byte list list"
  r_delivered :: "byte list list"

definition ok_wc :: "64 word \<Rightarrow> 32 word \<Rightarrow> wc" where
  "ok_wc i len = \<lparr>wc_status = None, wc_id = i, wc_len = len, wc_imm = 0, wc_recv_imm = False, wc_qp_num = 0, wc_vendor_err = 0\<rparr>"

definition failed_wc :: "wc \<Rightarrow> bool" where
  "failed_wc w \<longleftrightarrow> wc_status w \<noteq> None"

definition nic_deliver :: "proxy_fifo \<Rightarrow> rdma_edge \<Rightarrow> rdma_edge option" where
  "nic_deliver fifo e =
     (case (sq (r_snd e), rq (r_rcv e)) of
        (w # ws, (i, slot) # rs) \<Rightarrow>
          if broken e \<or> slot_bytes fifo < unat (wr_len w) then None
          else let payload = take (unat (wr_len w)) (slot_data (r_snd e) (wr_slot w)) in
            Some (e\<lparr>r_snd := (r_snd e)\<lparr>sq := ws, cq := cq (r_snd e) @ (if wr_signaled w then [ok_wc (wr_id w) 0] else [])\<rparr>,
                    r_rcv := (r_rcv e)\<lparr>rq := rs, cq := cq (r_rcv e) @ [ok_wc i (wr_len w)],
                      slot_data := (slot_data (r_rcv e))(slot := payload @ drop (length payload) (slot_data (r_rcv e) slot))\<rparr>\<rparr>)
      | _ \<Rightarrow> None)"

definition nic_fault :: "wc list \<Rightarrow> wc list \<Rightarrow> byte list \<Rightarrow> rdma_edge \<Rightarrow> rdma_edge" where
  "nic_fault bad_s bad_r junk e =
     e\<lparr>broken := True, r_snd := (r_snd e)\<lparr>cq := cq (r_snd e) @ bad_s\<rparr>,
       r_rcv := (r_rcv e)\<lparr>cq := cq (r_rcv e) @ bad_r,
         slot_data := (case rq (r_rcv e) of [] \<Rightarrow> slot_data (r_rcv e) | (i, slot) # _ \<Rightarrow> (slot_data (r_rcv e))(slot := junk))\<rparr>\<rparr>"

inductive rdma_step :: "proxy_fifo \<Rightarrow> proxy_identity \<Rightarrow> rdma_edge \<Rightarrow> rdma_edge \<Rightarrow> bool" for fifo ident where
  k_send: "kernel_send fifo p (r_snd e) = Some s \<Longrightarrow> p \<noteq> [] \<Longrightarrow> tail (r_snd e) + step_increment fifo < 2 ^ 63 \<Longrightarrow>
    rdma_step fifo ident e (e\<lparr>r_snd := s, r_sent := r_sent e @ [p]\<rparr>)"
| k_recv: "kernel_recv fifo (r_rcv e) = Some (p, s) \<Longrightarrow>
    rdma_step fifo ident e (e\<lparr>r_rcv := s, r_delivered := r_delivered e @ [p]\<rparr>)"
| p_send: "progress_send fifo ident SendRecv targets rc poll (r_snd e) = (did_work, s) \<Longrightarrow>
    rdma_step fifo ident e (e\<lparr>r_snd := s\<rparr>)"
| p_recv: "progress_recv fifo ident SendRecv remote flush rc rc' poll (r_rcv e) = (did_work, s) \<Longrightarrow>
    rdma_step fifo ident e (e\<lparr>r_rcv := s\<rparr>)"
| p_prepare: "prepare_recv fifo SendRecv remote rc rc' (r_rcv e) = (Inr (), s) \<Longrightarrow>
    rdma_step fifo ident e (e\<lparr>r_rcv := s\<rparr>)"
| nic: "nic_deliver fifo e = Some e' \<Longrightarrow> rdma_step fifo ident e e'"
| fault: "list_all failed_wc bad_s \<Longrightarrow> list_all failed_wc bad_r \<Longrightarrow> rdma_step fifo ident e (nic_fault bad_s bad_r junk e)"
| s_stop: "rdma_step fifo ident e (e\<lparr>r_snd := rdma_stop ident (r_snd e)\<rparr>)"
| r_stop: "rdma_step fifo ident e (e\<lparr>r_rcv := rdma_stop ident (r_rcv e)\<rparr>)"
| s_shutdown: "rdma_step fifo ident e (e\<lparr>r_snd := rdma_shutdown (r_snd e)\<rparr>)"
| r_shutdown: "rdma_step fifo ident e (e\<lparr>r_rcv := rdma_shutdown (r_rcv e)\<rparr>)"

text \<open>A fresh edge: both proxies as their constructors leave them.\<close>

definition rdma_init :: "proxy_fifo \<Rightarrow> rdma_edge \<Rightarrow> bool" where
  "rdma_init fifo e \<longleftrightarrow>
     slot_bytes fifo < 2 ^ 32 \<and>
     (\<exists>targets s. make_rdma_send fifo False SendRecv targets s = Inr (r_snd e)) \<and>
     (\<exists>remote reg_mr s. make_rdma_recv fifo False SendRecv remote False reg_mr s = Inr (r_rcv e)) \<and>
     head (r_snd e) = 0 \<and> tail (r_snd e) = 0 \<and> head (r_rcv e) = 0 \<and> tail (r_rcv e) = 0 \<and>
     sq (r_snd e) = [] \<and> cq (r_snd e) = [] \<and> rq (r_rcv e) = [] \<and> cq (r_rcv e) = [] \<and>
     \<not> has_error (errors (r_snd e)) \<and> \<not> has_error (errors (r_rcv e)) \<and>
     \<not> broken e \<and> r_sent e = [] \<and> r_delivered e = []"

section \<open>Invariant\<close>

abbreviation slot_of :: "proxy_fifo \<Rightarrow> nat \<Rightarrow> nat" where
  "slot_of fifo k \<equiv> k * step_increment fifo mod slot_count fifo"

definition rfifo_ok :: "proxy_fifo \<Rightarrow> bool" where
  "rfifo_ok fifo \<longleftrightarrow> fifo_ok fifo \<and> step_increment fifo dvd slot_count fifo \<and> slot_count fifo < 2 ^ 64"

definition slices_ok :: "proxy_fifo \<Rightarrow> byte list list \<Rightarrow> bool" where
  "slices_ok fifo ps \<longleftrightarrow>
     length ps * step_increment fifo < 2 ^ 63 \<and> list_all (\<lambda>p. p \<noteq> [] \<and> length p \<le> slot_bytes fifo) ps"

text \<open>
  The sender has posted \<open>np\<close> requests, \<open>t\<close> of them were delivered and \<open>nc\<close> are known to be complete.
\<close>

definition snd_base :: "proxy_fifo \<Rightarrow> byte list list \<Rightarrow> rdma_send \<Rightarrow> nat \<Rightarrow> nat \<Rightarrow> nat \<Rightarrow> bool" where
  "snd_base fifo ps s t np nc \<longleftrightarrow>
     published fifo ps s nc \<and> nc \<le> t \<and> t \<le> np \<and> np \<le> length ps \<and>
     next_complete s = nc * step_increment fifo \<and> proxy_step s = nc * step_increment fifo \<and>
     next_post s = np * step_increment fifo \<and> inflight s = np - nc \<and>
     max_if s = slot_count fifo div step_increment fifo \<and>
     map (\<lambda>w. (wr_id w, wr_slot w, wr_len w)) (sq s) =
       map (\<lambda>k. (of_nat (k * step_increment fifo), slot_of fifo k, of_nat (length (ps ! k)))) [t..<np]"

text \<open>
  The completions waiting for the sender: those of signaled requests in order, then failing ones if the
  connection broke. The last request posted is signaled, so every request gets completed in the end.
\<close>

definition covered :: "rdma_send \<Rightarrow> nat \<Rightarrow> nat \<Rightarrow> nat \<Rightarrow> nat list \<Rightarrow> bool" where
  "covered s t np nc ks \<longleftrightarrow> np = nc \<or> (if t < np then wr_signaled (last (sq s)) else ks \<noteq> [] \<and> last ks = np - 1)"

definition snd_cq :: "proxy_fifo \<Rightarrow> bool \<Rightarrow> rdma_send \<Rightarrow> nat \<Rightarrow> nat \<Rightarrow> nat \<Rightarrow> wc list \<Rightarrow> bool" where
  "snd_cq fifo br s t np nc wcs \<longleftrightarrow>
     (\<exists>ks bad. wcs = map (\<lambda>k. ok_wc (of_nat (k * step_increment fifo)) 0) ks @ bad \<and> sorted_wrt (<) ks \<and>
        set ks \<subseteq> {nc..<t} \<and> list_all failed_wc bad \<and> (br \<or> bad = [] \<and> covered s t np nc ks))"

text \<open>The receiver has posted \<open>rp\<close> requests, \<open>t\<close> were filled, \<open>rc\<close> were published and \<open>d\<close> taken out.\<close>

definition rcv_base :: "proxy_fifo \<Rightarrow> byte list list \<Rightarrow> rdma_recv \<Rightarrow> nat \<Rightarrow> nat \<Rightarrow> nat \<Rightarrow> nat \<Rightarrow> bool" where
  "rcv_base fifo ps s d t rp rc \<longleftrightarrow>
     arrived fifo ps s d rc \<and> rc \<le> t \<and> t \<le> rp \<and>
     rp * step_increment fifo \<le> d * step_increment fifo + slot_count fifo \<and>
     next_complete s = rc * step_increment fifo \<and> proxy_step s = rc * step_increment fifo \<and>
     next_post s = rp * step_increment fifo \<and> inflight s = rp - rc \<and>
     max_if s = slot_count fifo div step_increment fifo \<and> \<not> elide_zero_payload s \<and>
     rq s = map (\<lambda>k. (of_nat (slot_of fifo k), slot_of fifo k)) [t..<rp] \<and>
     (\<forall>k. rc \<le> k \<and> k < t \<longrightarrow> take (length (ps ! k)) (slot_data s (slot_of fifo k)) = ps ! k)"

definition rcv_cq :: "proxy_fifo \<Rightarrow> byte list list \<Rightarrow> bool \<Rightarrow> nat \<Rightarrow> nat \<Rightarrow> wc list \<Rightarrow> bool" where
  "rcv_cq fifo ps br t rc wcs \<longleftrightarrow>
     (\<exists>bad. wcs = map (\<lambda>k. ok_wc (of_nat (slot_of fifo k)) (of_nat (length (ps ! k)))) [rc..<t] @ bad \<and>
        list_all failed_wc bad \<and> (br \<or> bad = []))"

definition rdma_inv :: "proxy_fifo \<Rightarrow> rdma_edge \<Rightarrow> bool" where
  "rdma_inv fifo e \<longleftrightarrow>
     rfifo_ok fifo \<and> slices_ok fifo (r_sent e) \<and> prefix (r_delivered e) (r_sent e) \<and>
     (\<exists>t np nc rp rc.
        snd_base fifo (r_sent e) (r_snd e) t np nc \<and>
        rcv_base fifo (r_sent e) (r_rcv e) (length (r_delivered e)) t rp rc \<and>
        (has_error (errors (r_snd e)) \<or> snd_cq fifo (broken e) (r_snd e) t np nc (cq (r_snd e))) \<and>
        (has_error (errors (r_rcv e)) \<or> rcv_cq fifo (r_sent e) (broken e) t rc (cq (r_rcv e))))"

section \<open>The send proxy keeps the invariant\<close>

lemmas comp_simps = with_state_def andalso_def andthen_def change_def ret_def raise_def

lemma rfifo_facts:
  assumes "rfifo_ok fifo"
  shows "fifo_ok fifo" "0 < step_increment fifo" "step_increment fifo \<le> slot_count fifo"
    "slot_count fifo div step_increment fifo * step_increment fifo = slot_count fifo"
    "slot_bytes fifo < 2 ^ 32" "slot_count fifo < 2 ^ 64" "0 < slot_count fifo div step_increment fifo"
  using assms by (auto simp: rfifo_ok_def fifo_ok_def div_greater_zero_iff)

lemma slices_facts:
  assumes "rfifo_ok fifo" "slices_ok fifo ps" "k < length ps"
  shows "ps ! k \<noteq> []" "length (ps ! k) \<le> slot_bytes fifo" "length (ps ! k) < 2 ^ 32" "(of_nat (length (ps ! k)) :: 32 word) \<noteq> 0"
    "unat (of_nat (length (ps ! k)) :: 32 word) = length (ps ! k)" "k * step_increment fifo < 2 ^ 63"
proof -
  show a: "ps ! k \<noteq> []" "length (ps ! k) \<le> slot_bytes fifo" using assms(2,3) by (auto simp: slices_ok_def list_all_length)
  show b: "length (ps ! k) < 2 ^ 32" using a(2) rfifo_facts(5)[OF assms(1)] by simp
  show c: "unat (of_nat (length (ps ! k)) :: 32 word) = length (ps ! k)" using b by (simp add: unat_of_nat)
  then show "(of_nat (length (ps ! k)) :: 32 word) \<noteq> 0" using a(1) by (metis length_0_conv unat_0)
  have "k * step_increment fifo \<le> length ps * step_increment fifo" using assms(3) by (intro mult_le_mono1) simp
  then show "k * step_increment fifo < 2 ^ 63" using assms(2) unfolding slices_ok_def by linarith
qed

lemma unat_step: "k < 2 ^ 63 \<Longrightarrow> unat (of_nat k :: 64 word) = k"
  by (simp add: unat_of_nat)

text \<open>The slot of the next request holds the next slice.\<close>

lemma snd_base_slot:
  assumes "snd_base fifo ps s t np nc" "np < length ps"
  shows "slot_sizes s (next_post s mod slot_count fifo) = of_nat (length (ps ! np))"
  using assms by (auto simp: snd_base_def published_def holds_slice_def Let_def)

definition sent_one :: "proxy_fifo \<Rightarrow> rdma_send \<Rightarrow> rdma_send" where
  "sent_one fifo s = posted_send fifo (push_send fifo Op_send (s\<lparr>posts := posts s + 1\<rparr>))"

lemma send_post_round:
  assumes "rfifo_ok fifo" "slices_ok fifo ps" "snd_base fifo ps s t np nc"
  shows "send_post_loop (Suc n) fifo rc did s =
    (if max_if s \<le> inflight s \<or> tail s \<le> next_post s then (Inr did, s)
     else case rc (next_post s) of
       Some e \<Rightarrow> (Inl (Runtime_error (''ibv_post_send: '' @ e)), s\<lparr>posts := posts s + 1\<rparr>)
     | None \<Rightarrow> send_post_loop n fifo rc True (sent_one fifo s))"
proof (cases "tail s \<le> next_post s")
  case False
  then have "np < length ps" using assms(3) by (auto simp: snd_base_def published_def)
  then show ?thesis using snd_base_slot[OF assms(3)] slices_facts(2,4,5)[OF assms(1,2), of np]
    by (auto simp: comp_simps Let_def sent_one_def split: option.splits)
qed (simp add: comp_simps Let_def)

lemma snd_base_sent_one:
  assumes "rfifo_ok fifo" "slices_ok fifo ps" "snd_base fifo ps s t np nc" "np < length ps"
  shows "snd_base fifo ps (sent_one fifo s) t (Suc np) nc"
    "wr_signaled (last (sq (sent_one fifo s))) \<or> (inflight (sent_one fifo s) < max_if s \<and> next_post (sent_one fifo s) < tail s)"
proof -
  let ?s = "sent_one fifo s"
  have f: "tail ?s = tail s" "head ?s = head s" "slot_sizes ?s = slot_sizes s" "slot_data ?s = slot_data s"
    "next_post ?s = next_post s + step_increment fifo" "inflight ?s = inflight s + 1" "max_if ?s = max_if s"
    "next_complete ?s = next_complete s" "proxy_step ?s = proxy_step s"
    by (simp_all add: sent_one_def posted_send_def push_send_def Let_def)
  have q: "sq ?s = sq s @ [\<lparr>wr_id = of_nat (next_post s), wr_slot = next_post s mod slot_count fifo,
       wr_len = slot_sizes s (next_post s mod slot_count fifo), wr_signaled = send_signal fifo (s\<lparr>posts := posts s + 1\<rparr>),
       wr_op = Op_send\<rparr>]"
    by (simp add: sent_one_def posted_send_def push_send_def slot_to_wr_id_def Let_def)
  show "snd_base fifo ps ?s t (Suc np) nc"
    using assms(3,4) snd_base_slot[OF assms(3,4)]
    by (auto simp: snd_base_def published_def holds_slice_def f q Let_def)
  have "next_post s + step_increment fifo < tail s \<Longrightarrow>
      slot_sizes s ((next_post s + step_increment fifo) mod slot_count fifo) \<noteq> 0"
  proof -
    assume "next_post s + step_increment fifo < tail s"
    then have "Suc np * step_increment fifo < length ps * step_increment fifo" using assms(3) by (auto simp: snd_base_def published_def)
    then have "Suc np < length ps" by (metis mult_less_cancel2)
    moreover have "next_post s + step_increment fifo = Suc np * step_increment fifo" using assms(3) by (simp add: snd_base_def)
    moreover have "nc \<le> Suc np" using assms(3) by (simp add: snd_base_def)
    ultimately have "slot_sizes s ((next_post s + step_increment fifo) mod slot_count fifo) = of_nat (length (ps ! Suc np))"
      using assms(3) unfolding snd_base_def published_def holds_slice_def Let_def by metis
    then show ?thesis using slices_facts(4)[OF assms(1,2) \<open>Suc np < length ps\<close>] by metis
  qed
  then show "wr_signaled (last (sq ?s)) \<or> (inflight ?s < max_if s \<and> next_post ?s < tail s)"
    by (auto simp: q f send_signal_def Let_def)
qed

lemma sent_one_keeps [simp]:
  "errors (sent_one fifo s) = errors s" "stop_requested (sent_one fifo s) = stop_requested s" "cq (sent_one fifo s) = cq s"
  "max_if (sent_one fifo s) = max_if s" "tail (sent_one fifo s) = tail s" "head (sent_one fifo s) = head s"
  "next_post (sent_one fifo s) = next_post s + step_increment fifo"
  by (simp_all add: sent_one_def posted_send_def push_send_def Let_def)

text \<open>The post loop: it returns with the window posted as far as possible, or a post failed.\<close>

lemma send_posts:
  assumes "rfifo_ok fifo" "slices_ok fifo ps" "snd_base fifo ps s t np nc" "tail s - next_post s \<le> n"
    and "send_post_loop n fifo rc did s = (res, s')"
  shows "\<exists>np'. np \<le> np' \<and> snd_base fifo ps s' t np' nc \<and> errors s' = errors s \<and> stop_requested s' = stop_requested s \<and>
     cq s' = cq s \<and> head s' = head s \<and> tail s' = tail s \<and>
     (if is_ok res
      then (covered s t np nc ks \<or> t < np \<and> inflight s < max_if s \<and> next_post s < tail s \<longrightarrow> covered s' t np' nc ks) \<and>
        (np' - nc = max_if s' \<or> np' = length ps)
      else \<exists>k. rc k \<noteq> None)"
  using assms
proof (induction n arbitrary: s np did)
  case 0
  then have "\<not> next_post s < tail s" by simp
  moreover have "np = length ps" using 0(3,4) rfifo_facts(2)[OF 0(1)]
    by (auto simp: snd_base_def published_def)
  ultimately show ?case using 0 by (intro exI[of _ np]) (auto simp: ret_def)
next
  case (Suc n)
  note inc = rfifo_facts(2)[OF Suc.prems(1)]
  show ?case
  proof (cases "max_if s \<le> inflight s \<or> tail s \<le> next_post s")
    case True
    have "np - nc = max_if s \<or> np = length ps"
    proof (cases "tail s \<le> next_post s")
      case True
      then show ?thesis using Suc.prems(3) inc by (auto simp: snd_base_def published_def)
    next
      case False
      have w: "np * step_increment fifo \<le> length ps * step_increment fifo"
        "length ps * step_increment fifo \<le> nc * step_increment fifo + slot_count fifo"
        "max_if s * step_increment fifo = slot_count fifo" using Suc.prems(3) rfifo_facts(4)[OF Suc.prems(1)]
        by (auto simp: snd_base_def published_def intro: mult_le_mono1)
      then have "(np - nc) * step_increment fifo \<le> max_if s * step_increment fifo" unfolding diff_mult_distrib by linarith
      then show ?thesis using True False inc Suc.prems(3) by (auto simp: snd_base_def)
    qed
    then show ?thesis using Suc.prems True unfolding send_post_round[OF Suc.prems(1-3)]
      by (intro exI[of _ np]) auto
  next
    case False
    then have np: "np < length ps" using Suc.prems(3) by (auto simp: snd_base_def published_def)
    show ?thesis
    proof (cases "rc (next_post s)")
      case (Some e)
      then show ?thesis using Suc.prems False unfolding send_post_round[OF Suc.prems(1-3)]
        by (intro exI[of _ np]) (auto simp: snd_base_def published_def holds_slice_def)
    next
      case None
      let ?s = "sent_one fifo s"
      note b = snd_base_sent_one[OF Suc.prems(1-3) np]
      have c: "covered ?s t (Suc np) nc ks \<or> t < Suc np \<and> inflight ?s < max_if ?s \<and> next_post ?s < tail ?s"
        using b(2) Suc.prems(3) by (auto simp: covered_def snd_base_def)
      have tl: "tail ?s - next_post ?s \<le> n" using Suc.prems(4) inc False by simp
      have "send_post_loop n fifo rc True ?s = (res, s')"
        using Suc.prems(5) False None unfolding send_post_round[OF Suc.prems(1-3)] by simp
      note Suc.IH[OF Suc.prems(1,2) b(1) tl this]
      then show ?thesis
      proof (rule exE, goal_cases)
        case (1 np')
        with c show ?case unfolding sent_one_keeps by (intro exI[of _ np'], cases "is_ok res") simp_all
      qed
    qed
  qed
qed

text \<open>Completions.\<close>

lemma rdma_record_failure_sets [simp]: "has_error (rdma_record_failure ident n t e)"
  by (simp add: rdma_record_failure_def)

lemma check_wc_cases:
  "check_wc ident (ok_wc i len) s = (Inr (), s)"
  "failed_wc w \<Longrightarrow> \<exists>ex er. check_wc ident w s = (Inl ex, s\<lparr>errors := er\<rparr>) \<and> has_error er"
  by (auto simp: check_wc_def ok_wc_def failed_wc_def comp_simps) (metis rdma_record_failure_sets)

lemma snd_base_errors [simp]: "snd_base fifo ps (s\<lparr>errors := er\<rparr>) t np nc = snd_base fifo ps s t np nc"
  by (simp add: snd_base_def published_def)

definition completed :: "proxy_fifo \<Rightarrow> nat \<Rightarrow> nat \<Rightarrow> rdma_send \<Rightarrow> rdma_send" where
  "completed fifo np k s =
     s\<lparr>next_complete := Suc k * step_increment fifo, head := Suc k * step_increment fifo,
       proxy_step := Suc k * step_increment fifo, inflight := np - Suc k\<rparr>"

lemma completed_keeps [simp]:
  "errors (completed fifo np k s) = errors s" "stop_requested (completed fifo np k s) = stop_requested s"
  "cq (completed fifo np k s) = cq s" "sq (completed fifo np k s) = sq s" "tail (completed fifo np k s) = tail s"
  "next_post (completed fifo np k s) = next_post s" "max_if (completed fifo np k s) = max_if s"
  "slot_sizes (completed fifo np k s) = slot_sizes s" "slot_data (completed fifo np k s) = slot_data s"
  "next_complete (completed fifo np k s) = Suc k * step_increment fifo" "head (completed fifo np k s) = Suc k * step_increment fifo"
  "proxy_step (completed fifo np k s) = Suc k * step_increment fifo" "inflight (completed fifo np k s) = np - Suc k"
  by (simp_all add: completed_def)

lemma complete_send_ok:
  assumes "rfifo_ok fifo" "slices_ok fifo ps" "snd_base fifo ps s t np nc" "nc \<le> k" "k < t"
  shows "complete_send fifo ident name (ok_wc (of_nat (k * step_increment fifo)) 0) s = (Inr (), completed fifo np k s)"
    "snd_base fifo ps (completed fifo np k s) t np (Suc k)"
proof -
  note inc = rfifo_facts(2)[OF assms(1)]
  have k: "k < length ps" "k < np" using assms(3,5) by (auto simp: snd_base_def)
  have u: "unat (of_nat (k * step_increment fifo) :: 64 word) = k * step_increment fifo"
    using slices_facts(6)[OF assms(1,2) k(1)] by (rule unat_step)
  have m: "nc * step_increment fifo \<le> k * step_increment fifo" using assms(4) by (rule mult_le_mono1)
  have d: "k * step_increment fifo - nc * step_increment fifo = (k - nc) * step_increment fifo" by (simp add: diff_mult_distrib)
  have a: "(k * step_increment fifo - nc * step_increment fifo) div step_increment fifo = k - nc" using inc by (simp add: d)
  have s: "next_complete s = nc * step_increment fifo" "inflight s = np - nc" using assms(3) by (simp_all add: snd_base_def)
  have w: "wc_id (ok_wc i 0) = i" for i by (simp add: ok_wc_def)
  show "complete_send fifo ident name (ok_wc (of_nat (k * step_increment fifo)) 0) s = (Inr (), completed fifo np k s)"
    unfolding complete_send_def completed_def wr_id_to_slot_def w u
    using inc m k(2) assms(4) by (simp add: comp_simps check_wc_cases(1) s a d Let_def)
  have "published fifo ps (completed fifo np k s) (Suc k)"
  proof (rule published_advance)
    show "published fifo ps s nc" using assms(3) unfolding snd_base_def by (rule conjunct1)
  qed (use assms(4) k(1) in simp_all)
  moreover have "Suc k \<le> t" using assms(5) by simp
  ultimately show "snd_base fifo ps (completed fifo np k s) t np (Suc k)"
    using assms(3) unfolding snd_base_def completed_keeps by blast
qed

lemma complete_send_failed:
  "failed_wc w \<Longrightarrow> \<exists>ex er. complete_send fifo ident name w s = (Inl ex, s\<lparr>errors := er\<rparr>) \<and> has_error er"
  using check_wc_cases(2)[of w ident s] by (auto simp: complete_send_def comp_simps)

lemma covered_completed:
  assumes "covered s t np nc (k # ks)" "nc \<le> k" "k < t" "t \<le> np"
  shows "covered (completed fifo np k s) t np (Suc k) ks"
  using assms by (cases ks) (auto simp: covered_def)

lemma send_completions:
  assumes "rfifo_ok fifo" "slices_ok fifo ps" "snd_base fifo ps s t np nc"
    "wcs @ rest = map (\<lambda>k. ok_wc (of_nat (k * step_increment fifo)) 0) ks @ bad" "sorted_wrt (<) ks"
    "set ks \<subseteq> {nc..<t}" "list_all failed_wc bad"
    "for_each wcs (complete_send fifo ident name) s = (res, s')"
  shows "\<exists>nc'. nc \<le> nc' \<and> snd_base fifo ps s' t np nc' \<and> cq s' = cq s \<and> stop_requested s' = stop_requested s \<and> tail s' = tail s \<and>
     (if is_ok res
      then errors s' = errors s \<and> (wcs = [] \<or> nc < nc') \<and>
        (\<exists>ks' bad'. rest = map (\<lambda>k. ok_wc (of_nat (k * step_increment fifo)) 0) ks' @ bad' \<and> sorted_wrt (<) ks' \<and>
           set ks' \<subseteq> {nc'..<t} \<and> list_all failed_wc bad' \<and> (bad = [] \<longrightarrow> bad' = []) \<and>
           (covered s t np nc ks \<longrightarrow> covered s' t np nc' ks'))
      else has_error (errors s') \<and> bad \<noteq> [])"
  using assms
proof (induction wcs arbitrary: s nc ks)
  case Nil
  then show ?case by (auto simp: ret_def intro!: exI[of _ nc] exI[of _ ks] exI[of _ bad])
next
  case (Cons w wcs)
  show ?case
  proof (cases ks)
    case Nil
    then have w: "failed_wc w" "bad \<noteq> []" using Cons.prems(4,7) by (auto simp: list_all_iff)
    obtain ex er where c: "complete_send fifo ident name w s = (Inl ex, s\<lparr>errors := er\<rparr>)" "has_error er"
      using complete_send_failed[OF w(1)] by blast
    have "res = Inl ex" "s' = s\<lparr>errors := er\<rparr>" using Cons.prems(8) c(1) by (auto simp: andalso_def andthen_def)
    then show ?thesis using Cons.prems(3) c(2) w(2) by (intro exI[of _ nc]) simp
  next
    case (Cons k ks')
    let ?s = "completed fifo np k s"
    have k: "nc \<le> k" "k < t" and w: "w = ok_wc (of_nat (k * step_increment fifo)) 0"
      and tl: "wcs @ rest = map (\<lambda>k. ok_wc (of_nat (k * step_increment fifo)) 0) ks' @ bad"
      using Cons.prems(4,6) Cons by auto
    note c = complete_send_ok[OF Cons.prems(1-3) k]
    have "for_each wcs (complete_send fifo ident name) ?s = (res, s')"
      using Cons.prems(8) c(1) by (simp add: w andalso_def andthen_def)
    moreover have "sorted_wrt (<) ks'" "set ks' \<subseteq> {Suc k..<t}" using Cons.prems(5,6) Cons by (auto simp: Suc_le_eq)
    ultimately obtain nc' where "Suc k \<le> nc'" and r: "snd_base fifo ps s' t np nc'" "cq s' = cq ?s"
        "stop_requested s' = stop_requested ?s" "tail s' = tail ?s"
        "if is_ok res then errors s' = errors ?s \<and> (wcs = [] \<or> Suc k < nc') \<and>
          (\<exists>ks'' bad'. rest = map (\<lambda>k. ok_wc (of_nat (k * step_increment fifo)) 0) ks'' @ bad' \<and> sorted_wrt (<) ks'' \<and>
             set ks'' \<subseteq> {nc'..<t} \<and> list_all failed_wc bad' \<and> (bad = [] \<longrightarrow> bad' = []) \<and>
             (covered ?s t np (Suc k) ks' \<longrightarrow> covered s' t np nc' ks''))
         else has_error (errors s') \<and> bad \<noteq> []"
      using Cons.IH[OF Cons.prems(1,2) c(2) tl _ _ Cons.prems(7)] by blast
    moreover have "covered s t np nc ks \<longrightarrow> covered ?s t np (Suc k) ks'"
      using covered_completed[of s t np nc k ks'] Cons k Cons.prems(3) by (auto simp: snd_base_def)
    ultimately show ?thesis using k(1) unfolding completed_keeps
      by (intro exI[of _ nc']) (auto split: if_splits)
  qed
qed

end
