(* ===== verification/Rdma_Reliable.thy ===== *)
theory Rdma_Reliable
  imports Rdma_Edge
begin

text \<open>
  The edge of \<open>Rdma_Edge\<close> is a reliable edge in the sense of \<open>Edge_Spec\<close>: every step keeps the
  invariant, and as long as nothing failed some step gets a slice closer to its receiver.
\<close>

section \<open>A call of the send proxy\<close>

lemma snd_base_cq [simp]: "snd_base fifo ps (s\<lparr>cq := c\<rparr>) t np nc = snd_base fifo ps s t np nc"
  by (simp add: snd_base_def published_def holds_slice_def)

lemma covered_fields [simp]:
  "covered (s\<lparr>cq := c\<rparr>) = covered s" "covered (s\<lparr>errors := er\<rparr>) = covered s" "covered (s\<lparr>stop_requested := b\<rparr>) = covered s"
  by (simp_all add: covered_def fun_eq_iff)

lemma snd_cq_fields [simp]:
  "snd_cq fifo br (s\<lparr>cq := c\<rparr>) = snd_cq fifo br s" "snd_cq fifo br (s\<lparr>errors := er\<rparr>) = snd_cq fifo br s"
  "snd_cq fifo br (s\<lparr>stop_requested := b\<rparr>) = snd_cq fifo br s"
  by (simp_all add: snd_cq_def fun_eq_iff)

text \<open>What one call of \<open>progress\<close> leaves behind; \<open>quiet\<close> when the verbs calls work.\<close>

definition send_progressed ::
    "proxy_fifo \<Rightarrow> byte list list \<Rightarrow> bool \<Rightarrow> rdma_send \<Rightarrow> rdma_send \<Rightarrow> nat \<Rightarrow> nat \<Rightarrow> nat \<Rightarrow> nat \<Rightarrow> nat \<Rightarrow> bool \<Rightarrow> bool" where
  "send_progressed fifo ps br s s' t np nc np' nc' quiet \<longleftrightarrow>
     np \<le> np' \<and> nc \<le> nc' \<and> snd_base fifo ps s' t np' nc' \<and>
     (has_error (errors s') \<or> snd_cq fifo br s' t np' nc' (cq s')) \<and>
     (quiet \<and> \<not> br \<longrightarrow> errors s' = errors s \<and> stop_requested s' = stop_requested s \<and>
        (np' - nc = max_if s' \<or> np' = length ps) \<and> (cq s = [] \<or> nc < nc'))"

lemma progress_send_polled:
  assumes ok: "rfifo_ok fifo" "slices_ok fifo ps" and b: "snd_base fifo ps s t np nc" and q: "snd_cq fifo br s t np nc (cq s)"
    and r: "for_each (take m (cq s)) (complete_send fifo ident name) (s\<lparr>cq := drop m (cq s)\<rparr>) = (res, s')"
  shows "\<exists>nc'. nc \<le> nc' \<and> snd_base fifo ps s' t np nc' \<and> stop_requested s' = stop_requested s \<and>
     (if is_ok res then errors s' = errors s \<and> snd_cq fifo br s' t np nc' (cq s') \<and> (cq s = [] \<or> m = 0 \<or> nc < nc')
      else has_error (errors s') \<and> br)"
proof -
  from q obtain ks bad where ks: "cq s = map (\<lambda>k. ok_wc (of_nat (k * step_increment fifo)) 0) ks @ bad" "sorted_wrt (<) ks"
      "set ks \<subseteq> {nc..<t}" "list_all failed_wc bad" "br \<or> bad = [] \<and> covered s t np nc ks"
    unfolding snd_cq_def by blast
  have b': "snd_base fifo ps (s\<lparr>cq := drop m (cq s)\<rparr>) t np nc" using b by simp
  have w: "take m (cq s) @ drop m (cq s) = map (\<lambda>k. ok_wc (of_nat (k * step_increment fifo)) 0) ks @ bad"
    unfolding append_take_drop_id by (rule ks(1))
  note send_completions[OF ok b' w ks(2,3,4) r]
  then show ?thesis
  proof (rule exE, goal_cases)
    case (1 nc')
    then show ?case using ks(5) by (intro exI[of _ nc'], cases "is_ok res") (auto simp: snd_cq_def)
  qed
qed

lemma progress_send_inv:
  assumes ok: "rfifo_ok fifo" "slices_ok fifo ps" and b: "snd_base fifo ps s t np nc"
    and q: "has_error (errors s) \<or> snd_cq fifo br s t np nc (cq s)"
    and p: "progress_send fifo ident SendRecv targets rc poll s = (did, s')"
  shows "\<exists>np' nc'. send_progressed fifo ps br s s' t np nc np' nc'
     (\<not> has_error (errors s) \<and> \<not> stop_requested s \<and> rc = (\<lambda>_. None) \<and> poll = Some kPollBatch)"
proof (cases "stop_requested s \<or> has_error (errors s)")
  case True
  then show ?thesis using assms by (intro exI[of _ np] exI[of _ nc]) (auto simp: progress_send_def send_progressed_def)
next
  case False
  obtain r1 s1 where p1: "send_post_loop (tail s - next_post s) fifo rc False s = (r1, s1)" by fastforce
  from q False obtain ks bad where ks: "cq s = map (\<lambda>k. ok_wc (of_nat (k * step_increment fifo)) 0) ks @ bad" "sorted_wrt (<) ks"
      "set ks \<subseteq> {nc..<t}" "list_all failed_wc bad" "br \<or> bad = [] \<and> covered s t np nc ks"
    unfolding snd_cq_def by blast
  obtain np' where "np \<le> np'" and b1: "snd_base fifo ps s1 t np' nc" and e1: "errors s1 = errors s" "stop_requested s1 = stop_requested s"
      "cq s1 = cq s" and i1: "if is_ok r1 then (covered s t np nc ks \<longrightarrow> covered s1 t np' nc ks) \<and> (np' - nc = max_if s1 \<or> np' = length ps)
      else \<exists>k. rc k \<noteq> None"
    using send_posts[OF ok b le_refl p1, of ks] by (cases "is_ok r1") auto
  show ?thesis
  proof (cases "is_ok r1 \<and> poll \<noteq> None")
    case True
    then obtain did1 n where r1: "r1 = Inr did1" "poll = Some n" by (cases r1) auto
    let ?m = "min n kPollBatch"
    obtain r2 s2 where p2: "for_each (take ?m (cq s1)) (complete_send fifo ident []) (s1\<lparr>cq := drop ?m (cq s1)\<rparr>) = (r2, s2)" by fastforce
    have "snd_cq fifo br s1 t np' nc (cq s1)"
      unfolding snd_cq_def e1(3) using ks i1 True by (intro exI[of _ ks] exI[of _ bad]) auto
    from progress_send_polled[OF ok b1 this p2] obtain nc' where "nc \<le> nc'" and b2: "snd_base fifo ps s2 t np' nc'"
      "stop_requested s2 = stop_requested s1" "if is_ok r2 then errors s2 = errors s1 \<and> snd_cq fifo br s2 t np' nc' (cq s2) \<and>
         (cq s1 = [] \<or> ?m = 0 \<or> nc < nc') else has_error (errors s2) \<and> br" by blast
    have s': "s' = (case r2 of Inr _ \<Rightarrow> s2 | Inl e \<Rightarrow> s2\<lparr>errors := rdma_record_failure ident (proxy_step s2) (what e) (errors s2)\<rparr>)"
      using p False p1 p2 b2(2) e1(2)
      by (auto simp: progress_send_def progress_send_recv_def catch_progress_def comp_simps poll_cq_def r1 split: sum.splits)
    have mx: "max_if s2 = max_if s1" using b1 b2(1) by (simp add: snd_base_def)
    show ?thesis using \<open>np \<le> np'\<close> \<open>nc \<le> nc'\<close> b2 e1 i1 r1 mx
      by (intro exI[of _ np'] exI[of _ nc']) (auto simp: send_progressed_def s' kPollBatch_def split: sum.splits)
  next
    case no: False
    have s': "\<exists>e. s' = s1\<lparr>errors := rdma_record_failure ident (proxy_step s1) e (errors s1)\<rparr>"
      using p False p1 e1(2) no
      by (auto simp: progress_send_def progress_send_recv_def catch_progress_def comp_simps poll_cq_def split: sum.splits)
    have "\<not> (rc = (\<lambda>_. None) \<and> poll = Some kPollBatch)" using no i1 by (auto split: if_splits)
    then show ?thesis using s' \<open>np \<le> np'\<close> b1
      by (intro exI[of _ np'] exI[of _ nc]) (auto simp: send_progressed_def)
  qed
qed

section \<open>A call of the receive proxy\<close>

lemma rcv_base_fields [simp]:
  "rcv_base fifo ps (s\<lparr>cq := c\<rparr>) = rcv_base fifo ps s" "rcv_base fifo ps (s\<lparr>errors := er\<rparr>) = rcv_base fifo ps s"
  "rcv_base fifo ps (s\<lparr>stop_requested := b\<rparr>) = rcv_base fifo ps s" "rcv_base fifo ps (s\<lparr>prepared := b\<rparr>) = rcv_base fifo ps s"
  by (simp_all add: rcv_base_def arrived_def holds_slice_def fun_eq_iff)

lemma rcv_base_cq: "rcv_base fifo ps (s\<lparr>cq := c, slot_data := dat\<rparr>) = rcv_base fifo ps (s\<lparr>slot_data := dat\<rparr>)"
  by (simp add: rcv_base_def arrived_def holds_slice_def fun_eq_iff)

definition recv_one :: "proxy_fifo \<Rightarrow> rdma_recv \<Rightarrow> rdma_recv" where
  "recv_one fifo s =
     posted_recv fifo (s\<lparr>rq := rq s @ [(of_nat (next_post s mod slot_count fifo), next_post s mod slot_count fifo)]\<rparr>)"

lemma recv_one_keeps [simp]:
  "errors (recv_one fifo s) = errors s" "stop_requested (recv_one fifo s) = stop_requested s" "cq (recv_one fifo s) = cq s"
  "max_if (recv_one fifo s) = max_if s" "tail (recv_one fifo s) = tail s" "head (recv_one fifo s) = head s"
  "next_post (recv_one fifo s) = next_post s + step_increment fifo" "inflight (recv_one fifo s) = inflight s + 1"
  "slot_sizes (recv_one fifo s) = slot_sizes s" "slot_data (recv_one fifo s) = slot_data s"
  "next_complete (recv_one fifo s) = next_complete s" "proxy_step (recv_one fifo s) = proxy_step s"
  "elide_zero_payload (recv_one fifo s) = elide_zero_payload s"
  "rq (recv_one fifo s) = rq s @ [(of_nat (next_post s mod slot_count fifo), next_post s mod slot_count fifo)]"
  by (simp_all add: recv_one_def posted_recv_def)

lemma recv_post_round:
  assumes "\<not> elide_zero_payload s"
  shows "recv_post_loop (Suc n) fifo rcs did s =
    (if max_if s \<le> inflight s \<or> \<not> recv_credit fifo (next_post s) s then (Inr did, s)
     else case rcs (next_post s) of
       Some e \<Rightarrow> (Inl (Runtime_error (''ibv_post_recv: '' @ e)), s)
     | None \<Rightarrow> recv_post_loop n fifo rcs True (recv_one fifo s))"
  using assms by (auto simp: comp_simps try_elide_zero_payload_def pre_post_recv_def recv_one_def slot_to_wr_id_def Let_def split: option.splits)

lemma rcv_base_recv_one:
  assumes "rcv_base fifo ps s d t rp rc" "recv_credit fifo (next_post s) s"
  shows "rcv_base fifo ps (recv_one fifo s) d t (Suc rp) rc"
  using assms by (auto simp: rcv_base_def recv_credit_def arrived_def holds_slice_def)

lemma recv_posts_full:
  assumes "rfifo_ok fifo" "rcv_base fifo ps s d t rp rc" "max_if s \<le> inflight s \<or> \<not> recv_credit fifo (next_post s) s"
  shows "rp * step_increment fifo = d * step_increment fifo + slot_count fifo"
proof -
  let ?i = "step_increment fifo"
  have r: "rp * ?i \<le> d * ?i + slot_count fifo" "d \<le> rc" "rc \<le> rp" "max_if s * ?i = slot_count fifo"
    "inflight s = rp - rc" "next_post s = rp * ?i" "head s = d * ?i"
    using assms(2) rfifo_facts(4)[OF assms(1)] by (auto simp: rcv_base_def arrived_def)
  from assms(3) show ?thesis
  proof
    assume "max_if s \<le> inflight s"
    then have "max_if s * ?i \<le> (rp - rc) * ?i" unfolding r(5) by (rule mult_le_mono1)
    moreover have "(rp - rc) * ?i = rp * ?i - rc * ?i" by (rule diff_mult_distrib)
    moreover have "d * ?i \<le> rc * ?i" "rc * ?i \<le> rp * ?i" using r(2,3) by (auto intro: mult_le_mono1)
    ultimately show ?thesis using r(1,4) by linarith
  next
    assume "\<not> recv_credit fifo (next_post s) s"
    then have "d * ?i + max_if s * ?i < Suc rp * ?i" using r by (simp add: recv_credit_def)
    then have "d + max_if s < Suc rp" by (metis add_mult_distrib mult_less_cancel2)
    moreover have "rp \<le> d + max_if s" using r(1) rfifo_facts(2)[OF assms(1)] unfolding r(4)[symmetric] by (simp flip: add_mult_distrib)
    ultimately have "rp = d + max_if s" by simp
    then show ?thesis using r(4) by (simp add: add_mult_distrib)
  qed
qed

text \<open>The post loop ends with every free slot posted, or a post failed.\<close>

lemma recv_posts:
  assumes "rfifo_ok fifo" "rcv_base fifo ps s d t rp rc" "credit_rounds fifo (next_post s) s \<le> n"
    "recv_post_loop n fifo rcs did s = (res, s')"
  shows "\<exists>rp'. rp \<le> rp' \<and> rcv_base fifo ps s' d t rp' rc \<and> errors s' = errors s \<and> stop_requested s' = stop_requested s \<and>
     cq s' = cq s \<and> head s' = head s \<and> tail s' = tail s \<and>
     (if is_ok res then rp' * step_increment fifo = d * step_increment fifo + slot_count fifo else \<exists>k. rcs k \<noteq> None)"
  using assms
proof (induction n arbitrary: s rp did)
  case 0
  then have "rp * step_increment fifo = d * step_increment fifo + slot_count fifo"
    by (auto simp: credit_rounds_def rcv_base_def arrived_def)
  then show ?case using 0 by (intro exI[of _ rp]) (auto simp: ret_def)
next
  case (Suc n)
  note inc = rfifo_facts(2)[OF Suc.prems(1)]
  have el: "\<not> elide_zero_payload s" using Suc.prems(2) by (simp add: rcv_base_def)
  show ?case
  proof (cases "max_if s \<le> inflight s \<or> \<not> recv_credit fifo (next_post s) s")
    case True
    have "rp * step_increment fifo = d * step_increment fifo + slot_count fifo"
      using recv_posts_full[OF Suc.prems(1,2) True] .
    then show ?thesis using Suc.prems True unfolding recv_post_round[OF el]
      by (intro exI[of _ rp]) auto
  next
    case False
    show ?thesis
    proof (cases "rcs (next_post s)")
      case (Some e)
      then show ?thesis using Suc.prems False unfolding recv_post_round[OF el]
        by (intro exI[of _ rp]) auto
    next
      case None
      let ?s = "recv_one fifo s"
      have b: "rcv_base fifo ps ?s d t (Suc rp) rc" using rcv_base_recv_one[OF Suc.prems(2)] False by blast
      have tl: "credit_rounds fifo (next_post ?s) ?s \<le> n"
        using Suc.prems(3) False inc by (simp add: credit_rounds_def recv_credit_def)
      have "recv_post_loop n fifo rcs True ?s = (res, s')"
        using Suc.prems(4) False None unfolding recv_post_round[OF el] by simp
      note Suc.IH[OF Suc.prems(1) b tl this]
      then show ?thesis
      proof (rule exE, goal_cases)
        case (1 rp')
        then show ?case unfolding recv_one_keeps by (intro exI[of _ rp'], cases "is_ok res") simp_all
      qed
    qed
  qed
qed

lemma complete_recv_ok:
  assumes "rfifo_ok fifo" "rcv_base fifo ps s d t rp rc" "rc < t"
  shows "complete_recv fifo ident (ok_wc (of_nat (slot_of fifo rc)) (of_nat (length (ps ! rc)))) s =
      (Inr (), publish_recv fifo (of_nat (length (ps ! rc))) s)"
    "rcv_base fifo ps (publish_recv fifo (of_nat (length (ps ! rc))) s) d t rp (Suc rc)"
proof -
  let ?i = "step_increment fifo" let ?s = "publish_recv fifo (of_nat (length (ps ! rc))) s"
  have nc: "next_complete s mod slot_count fifo = slot_of fifo rc" "next_complete s = rc * ?i"
    using assms(2) by (simp_all add: rcv_base_def)
  have "slot_of fifo rc < slot_count fifo" using rfifo_facts(2,3)[OF assms(1)] by simp
  then have "slot_of fifo rc < 2 ^ 64" using rfifo_facts(6)[OF assms(1)] by (rule less_trans)
  then have u: "wr_id_to_slot (of_nat (slot_of fifo rc)) = slot_of fifo rc"
    unfolding wr_id_to_slot_def by (simp add: unat_of_nat)
  have w: "wc_id (ok_wc i l) = i" "wc_len (ok_wc i l) = l" for i l by (simp_all add: ok_wc_def)
  show "complete_recv fifo ident (ok_wc (of_nat (slot_of fifo rc)) (of_nat (length (ps ! rc)))) s = (Inr (), ?s)"
    by (simp only: complete_recv_def comp_simps check_wc_cases(1) w u nc(1) case_prod_conv sum.case) (simp add: change_def)
  have f: "slot_sizes ?s = (slot_sizes s)(slot_of fifo rc := of_nat (length (ps ! rc)))" "slot_data ?s = slot_data s" "head ?s = head s"
    "tail ?s = Suc rc * ?i" "next_complete ?s = Suc rc * ?i" "proxy_step ?s = Suc rc * ?i" "inflight ?s = inflight s - 1"
    "next_post ?s = next_post s" "max_if ?s = max_if s" "elide_zero_payload ?s = elide_zero_payload s" "rq ?s = rq s"
    using nc by (simp_all add: publish_recv_def Let_def)
  have win: "Suc rc * ?i \<le> d * ?i + slot_count fifo"
    using assms(2,3) mult_le_mono1[of "Suc rc" rp ?i] unfolding rcv_base_def by linarith
  have "holds_slice fifo ps ?s k" if "d \<le> k" "k < Suc rc" for k
  proof (cases "k = rc")
    case True
    then show ?thesis using assms(2,3) by (simp add: holds_slice_def f rcv_base_def)
  next
    case False
    then have "k < rc" using that by simp
    have "slot_of fifo k \<noteq> slot_of fifo rc"
      using slot_neq[OF \<open>k < rc\<close> rfifo_facts(2)[OF assms(1)] window_below[OF rfifo_facts(1)[OF assms(1)] that(1) win]] .
    moreover have "holds_slice fifo ps s k" using assms(2) that \<open>k < rc\<close> by (simp add: rcv_base_def arrived_def)
    ultimately show ?thesis by (simp add: holds_slice_def f)
  qed
  then have "arrived fifo ps ?s d (Suc rc)" using assms(2) win unfolding rcv_base_def arrived_def f by simp
  moreover have "inflight s - 1 = rp - Suc rc" using assms(2) by (simp add: rcv_base_def)
  ultimately show "rcv_base fifo ps ?s d t rp (Suc rc)" using assms(2,3) unfolding rcv_base_def f by simp
qed

lemma complete_recv_failed:
  "failed_wc w \<Longrightarrow> \<exists>ex er. complete_recv fifo ident w s = (Inl ex, s\<lparr>errors := er\<rparr>) \<and> has_error er"
  using check_wc_cases(2)[of w ident s] by (auto simp: complete_recv_def comp_simps)

lemma publish_recv_keeps [simp]:
  "errors (publish_recv fifo l s) = errors s" "stop_requested (publish_recv fifo l s) = stop_requested s" "cq (publish_recv fifo l s) = cq s"
  "head (publish_recv fifo l s) = head s"
  by (simp_all add: publish_recv_def Let_def)

lemma recv_completions:
  assumes "rfifo_ok fifo" "rcv_base fifo ps s d t rp rc"
    "wcs @ rest = map (\<lambda>k. ok_wc (of_nat (slot_of fifo k)) (of_nat (length (ps ! k)))) [rc..<t] @ bad" "list_all failed_wc bad"
    "for_each wcs (complete_recv fifo ident) s = (res, s')"
  shows "\<exists>rc'. rc \<le> rc' \<and> rcv_base fifo ps s' d t rp rc' \<and> cq s' = cq s \<and> stop_requested s' = stop_requested s \<and> head s' = head s \<and>
     (if is_ok res
      then errors s' = errors s \<and> (wcs = [] \<or> rc < rc') \<and>
        (\<exists>bad'. rest = map (\<lambda>k. ok_wc (of_nat (slot_of fifo k)) (of_nat (length (ps ! k)))) [rc'..<t] @ bad' \<and>
           list_all failed_wc bad' \<and> (bad = [] \<longrightarrow> bad' = []))
      else has_error (errors s') \<and> bad \<noteq> [])"
  using assms
proof (induction wcs arbitrary: s rc)
  case Nil
  then show ?case by (intro exI[of _ rc]) (auto simp: ret_def)
next
  case (Cons w wcs)
  have "rc \<le> t" using Cons.prems(2) by (simp add: rcv_base_def)
  show ?case
  proof (cases "rc = t")
    case True
    then have w: "failed_wc w" "bad \<noteq> []" using Cons.prems(3,4) by (auto simp: list_all_iff)
    obtain ex er where c: "complete_recv fifo ident w s = (Inl ex, s\<lparr>errors := er\<rparr>)" "has_error er"
      using complete_recv_failed[OF w(1)] by blast
    have "res = Inl ex" "s' = s\<lparr>errors := er\<rparr>" using Cons.prems(5) c(1) by (auto simp: andalso_def andthen_def)
    then show ?thesis using Cons.prems(2) c(2) w(2) by (intro exI[of _ rc]) simp
  next
    case False
    then have lt: "rc < t" using \<open>rc \<le> t\<close> by simp
    let ?s = "publish_recv fifo (of_nat (length (ps ! rc))) s"
    have w: "w = ok_wc (of_nat (slot_of fifo rc)) (of_nat (length (ps ! rc)))"
      and tl: "wcs @ rest = map (\<lambda>k. ok_wc (of_nat (slot_of fifo k)) (of_nat (length (ps ! k)))) [Suc rc..<t] @ bad"
      using Cons.prems(3) upt_conv_Cons[OF lt] by auto
    note c = complete_recv_ok[OF Cons.prems(1,2) lt]
    have "for_each wcs (complete_recv fifo ident) ?s = (res, s')"
      using Cons.prems(5) unfolding w for_each.simps andalso_def andthen_def c(1) by simp
    note Cons.IH[OF Cons.prems(1) c(2) tl Cons.prems(4) this]
    then show ?thesis
    proof (rule exE, goal_cases)
      case (1 rc')
      then show ?case unfolding publish_recv_keeps by (intro exI[of _ rc'], cases "is_ok res") simp_all
    qed
  qed
qed

definition recv_progressed ::
    "proxy_fifo \<Rightarrow> byte list list \<Rightarrow> bool \<Rightarrow> rdma_recv \<Rightarrow> rdma_recv \<Rightarrow> nat \<Rightarrow> nat \<Rightarrow> nat \<Rightarrow> nat \<Rightarrow> nat \<Rightarrow> nat \<Rightarrow> bool \<Rightarrow> bool" where
  "recv_progressed fifo ps br s s' d t rp rc rp' rc' quiet \<longleftrightarrow>
     rp \<le> rp' \<and> rc \<le> rc' \<and> rcv_base fifo ps s' d t rp' rc' \<and>
     (has_error (errors s') \<or> rcv_cq fifo ps br t rc' (cq s')) \<and>
     (quiet \<and> \<not> br \<longrightarrow> errors s' = errors s \<and> stop_requested s' = stop_requested s \<and>
        rp' * step_increment fifo = d * step_increment fifo + slot_count fifo \<and> (cq s = [] \<or> rc < rc'))"

lemma progress_recv_polled:
  assumes ok: "rfifo_ok fifo" and b: "rcv_base fifo ps s d t rp rc" and q: "rcv_cq fifo ps br t rc (cq s)"
    and r: "for_each (take m (cq s)) (complete_recv fifo ident) (s\<lparr>cq := drop m (cq s)\<rparr>) = (res, s')"
  shows "\<exists>rc'. rc \<le> rc' \<and> rcv_base fifo ps s' d t rp rc' \<and> stop_requested s' = stop_requested s \<and>
     (if is_ok res then errors s' = errors s \<and> rcv_cq fifo ps br t rc' (cq s') \<and> (cq s = [] \<or> m = 0 \<or> rc < rc')
      else has_error (errors s') \<and> br)"
proof -
  from q obtain bad where bad: "cq s = map (\<lambda>k. ok_wc (of_nat (slot_of fifo k)) (of_nat (length (ps ! k)))) [rc..<t] @ bad"
      "list_all failed_wc bad" "br \<or> bad = []"
    unfolding rcv_cq_def by blast
  have b': "rcv_base fifo ps (s\<lparr>cq := drop m (cq s)\<rparr>) d t rp rc" using b by simp
  have w: "take m (cq s) @ drop m (cq s) = map (\<lambda>k. ok_wc (of_nat (slot_of fifo k)) (of_nat (length (ps ! k)))) [rc..<t] @ bad"
    unfolding append_take_drop_id by (rule bad(1))
  note recv_completions[OF ok b' w bad(2) r]
  then show ?thesis
  proof (rule exE, goal_cases)
    case (1 rc')
    then show ?case using bad(3) by (intro exI[of _ rc'], cases "is_ok res") (auto simp: rcv_cq_def)
  qed
qed

lemma progress_recv_inv:
  assumes ok: "rfifo_ok fifo" and b: "rcv_base fifo ps s d t rp rc"
    and q: "has_error (errors s) \<or> rcv_cq fifo ps br t rc (cq s)"
    and p: "progress_recv fifo ident SendRecv remote flush rcs rcs' poll s = (did, s')"
  shows "\<exists>rp' rc'. recv_progressed fifo ps br s s' d t rp rc rp' rc'
     (\<not> has_error (errors s) \<and> \<not> stop_requested s \<and> rcs = (\<lambda>_. None) \<and> flush = None \<and> poll = Some kPollBatch)"
proof (cases "stop_requested s \<or> has_error (errors s)")
  case True
  then show ?thesis using assms by (intro exI[of _ rp] exI[of _ rc]) (auto simp: progress_recv_def recv_progressed_def)
next
  case False
  obtain r1 s1 where p1: "recv_post_loop (credit_rounds fifo (next_post s) s) fifo rcs False s = (r1, s1)" by fastforce
  obtain rp' where "rp \<le> rp'" and b1: "rcv_base fifo ps s1 d t rp' rc" and e1: "errors s1 = errors s" "stop_requested s1 = stop_requested s"
      "cq s1 = cq s" and i1: "if is_ok r1 then rp' * step_increment fifo = d * step_increment fifo + slot_count fifo else \<exists>k. rcs k \<noteq> None"
    using recv_posts[OF ok b le_refl p1] by blast
  have q1: "rcv_cq fifo ps br t rc (cq s1)" using q False e1 by simp
  show ?thesis
  proof (cases "is_ok r1 \<and> poll \<noteq> None")
    case True
    then obtain did1 n where r1: "r1 = Inr did1" "poll = Some n" by (cases r1) auto
    let ?m = "min n kPollBatch" let ?s1 = "s1\<lparr>cq := drop ?m (cq s1)\<rparr>"
    obtain r2 s2 where p2: "for_each (take ?m (cq s1)) (complete_recv fifo ident) ?s1 = (r2, s2)" by fastforce
    from progress_recv_polled[OF ok b1 q1 p2] obtain rc' where "rc \<le> rc'" and b2: "rcv_base fifo ps s2 d t rp' rc'"
      "stop_requested s2 = stop_requested s1" "if is_ok r2 then errors s2 = errors s1 \<and> rcv_cq fifo ps br t rc' (cq s2) \<and>
         (cq s1 = [] \<or> ?m = 0 \<or> rc < rc') else has_error (errors s2) \<and> br" by blast
    show ?thesis
    proof (cases "take ?m (cq s1) \<noteq> [] \<and> flush \<noteq> None")
      case True
      then have "\<exists>e. s' = ?s1\<lparr>errors := rdma_record_failure ident (proxy_step ?s1) e (errors ?s1)\<rparr>"
        using p False p1 e1(2)
        by (auto simp: progress_recv_def progress_send_recv_recv_def run_recv_posts_def catch_progress_def comp_simps poll_cq_def
            run_if_def gdr_flush_def r1 split: sum.splits)
      then show ?thesis using True \<open>rp \<le> rp'\<close> b1
        by (intro exI[of _ rp'] exI[of _ rc]) (auto simp: recv_progressed_def)
    next
      case False': False
      have f: "run_if (take ?m (cq s1) \<noteq> []) (gdr_flush flush) st = (Inr (), st)" for st :: rdma_recv
        using False' by (cases flush) (auto simp: run_if_def gdr_flush_def ret_def)
      have s': "s' = (case r2 of Inr _ \<Rightarrow> s2 | Inl e \<Rightarrow> s2\<lparr>errors := rdma_record_failure ident (proxy_step s2) (what e) (errors s2)\<rparr>)"
        using p False p1 p2 b2(2) e1(2)
        by (auto simp: progress_recv_def progress_send_recv_recv_def run_recv_posts_def catch_progress_def comp_simps poll_cq_def
            f r1 simp del: take_eq_Nil split: sum.splits)
      show ?thesis using \<open>rp \<le> rp'\<close> \<open>rc \<le> rc'\<close> b2 e1 i1 r1
        by (intro exI[of _ rp'] exI[of _ rc']) (auto simp: recv_progressed_def s' kPollBatch_def split: sum.splits)
    qed
  next
    case no: False
    have s': "\<exists>e. s' = s1\<lparr>errors := rdma_record_failure ident (proxy_step s1) e (errors s1)\<rparr>"
      using p False p1 e1(2) no
      by (auto simp: progress_recv_def progress_send_recv_recv_def run_recv_posts_def catch_progress_def comp_simps poll_cq_def split: sum.splits)
    have "\<not> (rcs = (\<lambda>_. None) \<and> poll = Some kPollBatch)" using no i1 by (auto split: if_splits)
    then show ?thesis using s' \<open>rp \<le> rp'\<close> b1
      by (intro exI[of _ rp'] exI[of _ rc]) (auto simp: recv_progressed_def)
  qed
qed

lemma prepare_recv_inv:
  assumes "rfifo_ok fifo" "rcv_base fifo ps s d t rp rc" "prepare_recv fifo SendRecv remote rcs rcs' s = (Inr (), s')"
  shows "\<exists>rp'. rcv_base fifo ps s' d t rp' rc \<and> errors s' = errors s \<and> cq s' = cq s"
proof -
  obtain r1 s1 where p1: "recv_post_loop (credit_rounds fifo (next_post s) s) fifo rcs False s = (r1, s1)" by fastforce
  obtain rp' where b1: "rcv_base fifo ps s1 d t rp' rc" "errors s1 = errors s" "cq s1 = cq s"
    using recv_posts[OF assms(1,2) le_refl p1] by blast
  have "s' = s1\<lparr>prepared := True\<rparr>" using assms(3) p1
    by (auto simp: prepare_recv_def run_recv_posts_def comp_simps split: sum.splits if_splits)
  then show ?thesis using b1 by (intro exI[of _ rp']) simp
qed

section \<open>The adapters and the kernels\<close>

lemma rcv_base_slots_differ:
  assumes "rfifo_ok fifo" "rcv_base fifo ps s d t rp rc" "t < rp" "d \<le> k" "k < t"
  shows "slot_of fifo k \<noteq> slot_of fifo t"
proof -
  have "Suc t * step_increment fifo \<le> d * step_increment fifo + slot_count fifo"
    using assms(2,3) mult_le_mono1[of "Suc t" rp "step_increment fifo"] unfolding rcv_base_def by linarith
  then show ?thesis
    using slot_neq[OF assms(5) rfifo_facts(2)[OF assms(1)] window_below[OF rfifo_facts(1)[OF assms(1)] assms(4)]] by blast
qed

text \<open>Writing into the slot of the receive request in use disturbs nothing that was received.\<close>

lemma rcv_base_fill:
  assumes "rfifo_ok fifo" "rcv_base fifo ps s d t rp rc" "t < rp"
  shows "rcv_base fifo ps (s\<lparr>slot_data := (slot_data s)(slot_of fifo t := bs)\<rparr>) d t rp rc"
proof -
  have "d \<le> rc" "rc \<le> t" using assms(2) by (auto simp: rcv_base_def arrived_def)
  then show ?thesis using assms(2) rcv_base_slots_differ[OF assms]
    unfolding rcv_base_def arrived_def holds_slice_def by (simp add: Let_def)
qed

lemma rcv_base_delivered:
  assumes "rfifo_ok fifo" "rcv_base fifo ps s d t rp rc" "rq s = (i, slot) # rs" "take (length (ps ! t)) bs = ps ! t"
  shows "t < rp \<and> i = of_nat (slot_of fifo t) \<and> slot = slot_of fifo t \<and>
    rcv_base fifo ps (s\<lparr>rq := rs, cq := c, slot_data := (slot_data s)(slot := bs)\<rparr>) d (Suc t) rp rc"
proof -
  have rq: "rq s = map (\<lambda>k. (of_nat (slot_of fifo k), slot_of fifo k)) [t..<rp]" using assms(2) by (simp add: rcv_base_def)
  then have lt: "t < rp" using assms(3) by (cases "t < rp") auto
  with rq assms(3) have i: "i = of_nat (slot_of fifo t)" "slot = slot_of fifo t"
    "rs = map (\<lambda>k. (of_nat (slot_of fifo k), slot_of fifo k)) [Suc t..<rp]" by (auto simp: upt_conv_Cons)
  have b: "rcv_base fifo ps (s\<lparr>slot_data := (slot_data s)(slot := bs)\<rparr>) d t rp rc"
    unfolding i(2) by (rule rcv_base_fill[OF assms(1,2) lt])
  have "take (length (ps ! k)) (((slot_data s)(slot := bs)) (slot_of fifo k)) = ps ! k" if "rc \<le> k" "k < Suc t" for k
    using that b assms(4) i(2) unfolding rcv_base_def by (cases "k = t") simp_all
  then show ?thesis using b i lt unfolding rcv_base_def arrived_def holds_slice_def by simp
qed

lemma snd_base_len: "snd_base fifo ps s t np nc \<Longrightarrow> length (sq s) = np - t"
  unfolding snd_base_def by (metis (no_types, lifting) length_map length_upt)

lemma snd_base_delivered:
  assumes "rfifo_ok fifo" "slices_ok fifo ps" "snd_base fifo ps s t np nc" "sq s = w # ws"
  shows "t < np" "wr_id w = of_nat (t * step_increment fifo)" "wr_slot w = slot_of fifo t" "wr_len w = of_nat (length (ps ! t))"
    "take (length (ps ! t)) (slot_data s (wr_slot w)) = ps ! t" "unat (wr_len w) = length (ps ! t)"
    "snd_base fifo ps (s\<lparr>sq := ws, cq := c\<rparr>) (Suc t) np nc"
proof -
  let ?f = "\<lambda>k. (of_nat (k * step_increment fifo) :: 64 word, slot_of fifo k, of_nat (length (ps ! k)) :: 32 word)"
  have m: "map (\<lambda>w. (wr_id w, wr_slot w, wr_len w)) (w # ws) = map ?f [t..<np]"
    using assms(3) unfolding snd_base_def assms(4) by blast
  then show lt: "t < np" by (cases "t < np") auto
  from m have m': "(wr_id w, wr_slot w, wr_len w) = ?f t" "map (\<lambda>w. (wr_id w, wr_slot w, wr_len w)) ws = map ?f [Suc t..<np]"
    unfolding upt_conv_Cons[OF lt] list.map list.inject by auto
  from m'(1) show w: "wr_id w = of_nat (t * step_increment fifo)" "wr_slot w = slot_of fifo t" "wr_len w = of_nat (length (ps ! t))"
    unfolding prod.inject by blast+
  have t: "t < length ps" "nc \<le> t" using assms(3) lt by (auto simp: snd_base_def)
  have "holds_slice fifo ps s t" using assms(3) t unfolding snd_base_def published_def by blast
  then show "take (length (ps ! t)) (slot_data s (wr_slot w)) = ps ! t" by (simp add: w(2) holds_slice_def Let_def)
  show "unat (wr_len w) = length (ps ! t)" unfolding w(3) by (rule slices_facts(5)[OF assms(1,2) t(1)])
  show "snd_base fifo ps (s\<lparr>sq := ws, cq := c\<rparr>) (Suc t) np nc"
    using assms(3) m'(2) t(2) lt unfolding snd_base_def published_def holds_slice_def by simp
qed

lemma snd_cq_delivered:
  assumes "snd_cq fifo False s t np nc wcs" "sq s = w # ws" "t < np" "nc \<le> t" "length ws = np - Suc t"
    "wr_id w = of_nat (t * step_increment fifo)"
  shows "snd_cq fifo False (s\<lparr>sq := ws, cq := c\<rparr>) (Suc t) np nc (wcs @ (if wr_signaled w then [ok_wc (wr_id w) 0] else []))"
proof -
  from assms(1) obtain ks where ks: "wcs = map (\<lambda>k. ok_wc (of_nat (k * step_increment fifo)) 0) ks" "sorted_wrt (<) ks"
      "set ks \<subseteq> {nc..<t}" "covered s t np nc ks"
    unfolding snd_cq_def by auto
  let ?ks = "if wr_signaled w then ks @ [t] else ks"
  have "sorted_wrt (<) ?ks" "set ?ks \<subseteq> {nc..<Suc t}" using ks(2,3) assms(4) by (auto simp: sorted_wrt_append)
  moreover have "wcs @ (if wr_signaled w then [ok_wc (wr_id w) 0] else []) = map (\<lambda>k. ok_wc (of_nat (k * step_increment fifo)) 0) ?ks"
    using ks(1) assms(6) by simp
  moreover have "covered (s\<lparr>sq := ws, cq := c\<rparr>) (Suc t) np nc ?ks"
    using ks(4) assms(2,3,4,5) by (cases ws) (auto simp: covered_def)
  ultimately show ?thesis unfolding snd_cq_def by (intro exI[of _ ?ks] exI[of _ "[]"]) simp
qed

lemma snd_base_kernel_send:
  assumes "rfifo_ok fifo" "slices_ok fifo ps" "snd_base fifo ps s t np nc" "kernel_send fifo p s = Some s'"
    "p \<noteq> []" "tail s + step_increment fifo < 2 ^ 63"
  shows "slices_ok fifo (ps @ [p])" "snd_base fifo (ps @ [p]) s' t np nc" "errors s' = errors s" "cq s' = cq s" "sq s' = sq s"
proof -
  have b: "published fifo ps s nc" "np \<le> length ps" using assms(3) unfolding snd_base_def by blast+
  note p = published_kernel_send[OF rfifo_facts(1)[OF assms(1)] b(1) assms(4)]
  have tl: "tail s = length ps * step_increment fifo" using b(1) unfolding published_def by blast
  show "slices_ok fifo (ps @ [p])" using assms(2,5,6) p unfolding slices_ok_def tl by (simp add: algebra_simps)
  have s': "s' = (put_slot fifo (length ps) p s)\<lparr>tail := tail s + step_increment fifo\<rparr>"
    using kernel_send_put[OF assms(4) tl] by blast
  then have f: "next_complete s' = next_complete s" "proxy_step s' = proxy_step s" "next_post s' = next_post s" "inflight s' = inflight s"
    "max_if s' = max_if s" by (simp_all add: put_slot_def Let_def)
  show k: "errors s' = errors s" "cq s' = cq s" "sq s' = sq s" using s' by (simp_all add: put_slot_def Let_def)
  have "map (\<lambda>k. (of_nat (k * step_increment fifo) :: 64 word, slot_of fifo k, of_nat (length ((ps @ [p]) ! k)) :: 32 word)) [t..<np] =
      map (\<lambda>k. (of_nat (k * step_increment fifo), slot_of fifo k, of_nat (length (ps ! k)))) [t..<np]"
    using b(2) by (intro map_cong[OF refl]) (simp add: nth_append)
  then show "snd_base fifo (ps @ [p]) s' t np nc" using assms(3) p unfolding snd_base_def f k(3) by simp
qed

lemma rcv_base_append:
  assumes "rcv_base fifo ps s d t rp rc" "t \<le> length ps"
  shows "rcv_base fifo (ps @ qs) s d t rp rc"
  using assms unfolding rcv_base_def by (auto simp: arrived_append nth_append)

lemma rcv_cq_append:
  assumes "rcv_cq fifo ps br t rc wcs" "t \<le> length ps"
  shows "rcv_cq fifo (ps @ qs) br t rc wcs"
proof -
  have e: "map (\<lambda>k. ok_wc (of_nat (slot_of fifo k)) (of_nat (length ((ps @ qs) ! k)))) [rc..<t] =
    map (\<lambda>k. ok_wc (of_nat (slot_of fifo k)) (of_nat (length (ps ! k)))) [rc..<t]"
    using assms(2) by (intro map_cong[OF refl]) (simp add: nth_append)
  show ?thesis using assms(1) unfolding rcv_cq_def e .
qed

lemma rcv_base_kernel_recv:
  assumes "rfifo_ok fifo" "slices_ok fifo ps" "rcv_base fifo ps s d t rp rc" "t \<le> length ps" "kernel_recv fifo s = Some (p, s')"
  shows "d < length ps" "p = ps ! d" "rcv_base fifo ps s' (Suc d) t rp rc" "s' = s\<lparr>head := head s + step_increment fifo\<rparr>"
proof -
  have a: "arrived fifo ps s d rc" "rc \<le> t" using assms(3) by (simp_all add: rcv_base_def)
  have "d < rc" using assms(5) a(1) rfifo_facts(2)[OF assms(1)]
    by (auto simp: kernel_recv_def arrived_def split: if_splits)
  then show d: "d < length ps" using a(2) assms(4) by simp
  note k = arrived_kernel_recv[OF rfifo_facts(1)[OF assms(1)] a(1) assms(5) slices_facts(3)[OF assms(1,2) d]]
  then show "p = ps ! d" and s': "s' = s\<lparr>head := head s + step_increment fifo\<rparr>" by blast+
  have f: "next_complete s' = next_complete s" "proxy_step s' = proxy_step s" "next_post s' = next_post s" "inflight s' = inflight s"
    "max_if s' = max_if s" "elide_zero_payload s' = elide_zero_payload s" "rq s' = rq s" "slot_data s' = slot_data s"
    unfolding s' by simp_all
  have "arrived fifo ps s' (Suc d) rc" using k by blast
  then show "rcv_base fifo ps s' (Suc d) t rp rc" using assms(3) unfolding rcv_base_def f by simp
qed

section \<open>Every step keeps the invariant\<close>

lemma rdma_invI:
  assumes "rfifo_ok fifo" "slices_ok fifo (r_sent e)" "prefix (r_delivered e) (r_sent e)"
    "snd_base fifo (r_sent e) (r_snd e) t np nc" "rcv_base fifo (r_sent e) (r_rcv e) (length (r_delivered e)) t rp rc"
    "has_error (errors (r_snd e)) \<or> snd_cq fifo (broken e) (r_snd e) t np nc (cq (r_snd e))"
    "has_error (errors (r_rcv e)) \<or> rcv_cq fifo (r_sent e) (broken e) t rc (cq (r_rcv e))"
  shows "rdma_inv fifo e"
  using assms unfolding rdma_inv_def by blast

lemma rdma_invE:
  assumes "rdma_inv fifo e"
  obtains t np nc rp rc where "rfifo_ok fifo" "slices_ok fifo (r_sent e)" "prefix (r_delivered e) (r_sent e)"
    "snd_base fifo (r_sent e) (r_snd e) t np nc" "rcv_base fifo (r_sent e) (r_rcv e) (length (r_delivered e)) t rp rc"
    "has_error (errors (r_snd e)) \<or> snd_cq fifo (broken e) (r_snd e) t np nc (cq (r_snd e))"
    "has_error (errors (r_rcv e)) \<or> rcv_cq fifo (r_sent e) (broken e) t rc (cq (r_rcv e))"
    "t \<le> length (r_sent e)"
proof -
  from assms obtain t np nc rp rc where *: "rfifo_ok fifo" "slices_ok fifo (r_sent e)" "prefix (r_delivered e) (r_sent e)"
    "snd_base fifo (r_sent e) (r_snd e) t np nc" "rcv_base fifo (r_sent e) (r_rcv e) (length (r_delivered e)) t rp rc"
    "has_error (errors (r_snd e)) \<or> snd_cq fifo (broken e) (r_snd e) t np nc (cq (r_snd e))"
    "has_error (errors (r_rcv e)) \<or> rcv_cq fifo (r_sent e) (broken e) t rc (cq (r_rcv e))"
    unfolding rdma_inv_def by blast
  have "t \<le> length (r_sent e)" using *(4) unfolding snd_base_def by linarith
  with * show thesis by (rule that)
qed

lemma snd_cq_broken:
  assumes "snd_cq fifo br s t np nc wcs" "list_all failed_wc bad'"
  shows "snd_cq fifo True s' t np nc (wcs @ bad')"
proof -
  from assms(1) obtain ks bad where "wcs = map (\<lambda>k. ok_wc (of_nat (k * step_increment fifo)) 0) ks @ bad" "sorted_wrt (<) ks"
      "set ks \<subseteq> {nc..<t}" "list_all failed_wc bad"
    unfolding snd_cq_def by blast
  then show ?thesis using assms(2) unfolding snd_cq_def by (intro exI[of _ ks] exI[of _ "bad @ bad'"]) simp
qed

lemma rcv_cq_broken:
  assumes "rcv_cq fifo ps br t rc wcs" "list_all failed_wc bad'"
  shows "rcv_cq fifo ps True t rc (wcs @ bad')"
proof -
  from assms(1) obtain bad where "wcs = map (\<lambda>k. ok_wc (of_nat (slot_of fifo k)) (of_nat (length (ps ! k)))) [rc..<t] @ bad"
      "list_all failed_wc bad"
    unfolding rcv_cq_def by blast
  then show ?thesis using assms(2) unfolding rcv_cq_def by (intro exI[of _ "bad @ bad'"]) simp
qed

lemma rdma_inv_nic:
  assumes "rdma_inv fifo e" "nic_deliver fifo e = Some e'"
  shows "rdma_inv fifo e'"
  using assms(1)
proof (cases rule: rdma_invE)
  case (1 t np nc rp rc)
  from assms(2) obtain w ws i slot rs where q: "sq (r_snd e) = w # ws" "rq (r_rcv e) = (i, slot) # rs"
    by (auto simp: nic_deliver_def split: list.splits)
  note sd = snd_base_delivered[OF 1(1,2,4) q(1)]
  have br: "\<not> broken e" using assms(2) q by (auto simp: nic_deliver_def split: if_splits)
  have pl: "take (unat (wr_len w)) (slot_data (r_snd e) (wr_slot w)) = r_sent e ! t" using sd(5,6) by simp
  have e': "e' = e\<lparr>r_snd := (r_snd e)\<lparr>sq := ws, cq := cq (r_snd e) @ (if wr_signaled w then [ok_wc (wr_id w) 0] else [])\<rparr>,
      r_rcv := (r_rcv e)\<lparr>rq := rs, cq := cq (r_rcv e) @ [ok_wc i (wr_len w)],
        slot_data := (slot_data (r_rcv e))(slot := r_sent e ! t @ drop (length (r_sent e ! t)) (slot_data (r_rcv e) slot))\<rparr>\<rparr>"
    using assms(2) q br by (simp add: nic_deliver_def pl Let_def split: if_splits)
  note rd = rcv_base_delivered[OF 1(1,5) q(2), of "r_sent e ! t @ drop (length (r_sent e ! t)) (slot_data (r_rcv e) slot)"]
  have nct: "nc \<le> t" using 1(4) by (simp add: snd_base_def)
  have len: "length ws = np - Suc t" using snd_base_len[OF sd(7), of "[]"] by simp
  show ?thesis
  proof (rule rdma_invI)
    show "snd_base fifo (r_sent e') (r_snd e') (Suc t) np nc"
      unfolding e' using sd(7)[of "cq (r_snd e)"] by simp
    show "rcv_base fifo (r_sent e') (r_rcv e') (length (r_delivered e')) (Suc t) rp rc"
      unfolding e' using rd[of "cq (r_rcv e) @ [ok_wc i (wr_len w)]"] by auto
    show "has_error (errors (r_snd e')) \<or> snd_cq fifo (broken e') (r_snd e') (Suc t) np nc (cq (r_snd e'))"
      using 1(6) snd_cq_delivered[OF _ q(1) sd(1) nct len sd(2), of "cq (r_snd e)" "cq (r_snd e)"] br unfolding e'
      by (cases "wr_signaled w") auto
    have "i = of_nat (slot_of fifo t)" using rd by simp
    moreover have "rc \<le> t" using 1(5) by (simp add: rcv_base_def)
    ultimately show "has_error (errors (r_rcv e')) \<or> rcv_cq fifo (r_sent e') (broken e') (Suc t) rc (cq (r_rcv e'))"
      using 1(7) br unfolding e' by (auto simp: rcv_cq_def sd(4))
  qed (use 1 in \<open>simp_all add: e'\<close>)
qed

lemma rdma_inv_fault:
  assumes "rdma_inv fifo e" "list_all failed_wc bad_s" "list_all failed_wc bad_r"
  shows "rdma_inv fifo (nic_fault bad_s bad_r junk e)"
  using assms(1)
proof (cases rule: rdma_invE)
  case (1 t np nc rp rc)
  let ?d = "case rq (r_rcv e) of [] \<Rightarrow> slot_data (r_rcv e) | (i, slot) # _ \<Rightarrow> (slot_data (r_rcv e))(slot := junk)"
  have b: "rcv_base fifo (r_sent e) ((r_rcv e)\<lparr>slot_data := ?d\<rparr>) (length (r_delivered e)) t rp rc"
  proof (cases "t < rp")
    case True
    then have "rq (r_rcv e) = (of_nat (slot_of fifo t), slot_of fifo t) # map (\<lambda>k. (of_nat (slot_of fifo k), slot_of fifo k)) [Suc t..<rp]"
      using 1(5) by (simp add: rcv_base_def upt_conv_Cons)
    then show ?thesis using rcv_base_fill[OF 1(1,5) True] by simp
  next
    case False
    then have "rq (r_rcv e) = []" using 1(5) by (simp add: rcv_base_def)
    then show ?thesis using 1(5) by simp
  qed
  show ?thesis
  proof (rule rdma_invI)
    show "has_error (errors (r_snd (nic_fault bad_s bad_r junk e))) \<or>
      snd_cq fifo (broken (nic_fault bad_s bad_r junk e)) (r_snd (nic_fault bad_s bad_r junk e)) t np nc (cq (r_snd (nic_fault bad_s bad_r junk e)))"
      using 1(6) snd_cq_broken[OF _ assms(2)] by (auto simp: nic_fault_def)
    show "has_error (errors (r_rcv (nic_fault bad_s bad_r junk e))) \<or>
      rcv_cq fifo (r_sent (nic_fault bad_s bad_r junk e)) (broken (nic_fault bad_s bad_r junk e)) t rc (cq (r_rcv (nic_fault bad_s bad_r junk e)))"
      using 1(7) rcv_cq_broken[OF _ assms(3)] by (auto simp: nic_fault_def)
    show "rcv_base fifo (r_sent (nic_fault bad_s bad_r junk e)) (r_rcv (nic_fault bad_s bad_r junk e))
        (length (r_delivered (nic_fault bad_s bad_r junk e))) t rp rc"
      using b by (simp add: nic_fault_def rcv_base_cq)
  qed (use 1 in \<open>simp_all add: nic_fault_def\<close>)
qed

lemma rdma_stop_cases:
  "rdma_stop ident s = s \<or> (\<exists>er. has_error er \<and> rdma_stop ident s = s\<lparr>stop_requested := True, errors := er\<rparr>)"
  by (auto simp: rdma_stop_def intro: rdma_record_failure_sets)

lemma snd_base_stop [simp]: "snd_base fifo ps (s\<lparr>stop_requested := b\<rparr>) t np nc = snd_base fifo ps s t np nc"
  by (simp add: snd_base_def published_def)

lemma rdma_step_inv: "rdma_step fifo ident e e' \<Longrightarrow> rdma_inv fifo e \<Longrightarrow> rdma_inv fifo e'"
proof (induction rule: rdma_step.induct)
  case (k_send p e s)
  from k_send.prems show ?case
  proof (cases rule: rdma_invE)
    case (1 t np nc rp rc)
    note k = snd_base_kernel_send[OF 1(1,2,4) k_send(1,2,3)]
    have "snd_cq fifo (broken e) s t np nc = snd_cq fifo (broken e) (r_snd e) t np nc" using k(5) by (simp add: snd_cq_def covered_def fun_eq_iff)
    then show ?thesis using 1(6,7) k rcv_base_append[OF 1(5,8)] rcv_cq_append[OF _ 1(8)] 1(1,3)
      by (intro rdma_invI) auto
  qed
next
  case (k_recv e p s)
  from k_recv.prems show ?case
  proof (cases rule: rdma_invE)
    case (1 t np nc rp rc)
    note k = rcv_base_kernel_recv[OF 1(1,2,5,8) k_recv(1)]
    obtain zs where "r_sent e = r_delivered e @ zs" using 1(3) by (rule prefixE)
    then have "prefix (r_delivered e @ [p]) (r_sent e)" using k(1,2) by (cases zs) (auto simp: nth_append)
    then show ?thesis using 1 k by (intro rdma_invI) auto
  qed
next
  case (p_send targets rc poll e did_work s)
  from p_send.prems show ?case
  proof (cases rule: rdma_invE)
    case (1 t np nc rp rc')
    from progress_send_inv[OF 1(1,2,4,6) p_send(1)] obtain np' nc' where "snd_base fifo (r_sent e) s t np' nc'"
      "has_error (errors s) \<or> snd_cq fifo (broken e) s t np' nc' (cq s)" unfolding send_progressed_def by blast
    then show ?thesis using 1 by (intro rdma_invI) auto
  qed
next
  case (p_recv remote flush rc rc' poll e did_work s)
  from p_recv.prems show ?case
  proof (cases rule: rdma_invE)
    case (1 t np nc rp rcc)
    from progress_recv_inv[OF 1(1,5,7) p_recv(1)] obtain rp' rc' where "rcv_base fifo (r_sent e) s (length (r_delivered e)) t rp' rc'"
      "has_error (errors s) \<or> rcv_cq fifo (r_sent e) (broken e) t rc' (cq s)" unfolding recv_progressed_def by blast
    then show ?thesis using 1 by (intro rdma_invI) auto
  qed
next
  case (p_prepare remote rc rc' e s)
  from p_prepare.prems show ?case
  proof (cases rule: rdma_invE)
    case (1 t np nc rp rcc)
    from prepare_recv_inv[OF 1(1,5) p_prepare(1)] obtain rp' where "rcv_base fifo (r_sent e) s (length (r_delivered e)) t rp' rcc"
      "errors s = errors (r_rcv e)" "cq s = cq (r_rcv e)" by blast
    then show ?thesis using 1 by (intro rdma_invI) auto
  qed
next
  case (s_stop e)
  then show ?case
    using rdma_stop_cases[of ident "r_snd e"] by (elim rdma_invE disjE exE conjE) (auto intro!: rdma_invI)
next
  case (r_stop e)
  then show ?case
    using rdma_stop_cases[of ident "r_rcv e"] by (elim rdma_invE disjE exE conjE) (auto intro!: rdma_invI)
next
  case (s_shutdown e)
  then show ?case by (elim rdma_invE) (auto simp: rdma_shutdown_def intro!: rdma_invI)
next
  case (r_shutdown e)
  then show ?case by (elim rdma_invE) (auto simp: rdma_shutdown_def intro!: rdma_invI)
qed (auto intro: rdma_inv_nic rdma_inv_fault)

lemma rdma_validated:
  assumes "rdma_validate_fifo fifo = Inr ()" "slot_bytes fifo < 2 ^ 32"
  shows "rfifo_ok fifo"
proof -
  from assms have v: "0 < slot_bytes fifo" "0 < slot_count fifo" "0 < step_increment fifo" "step_increment fifo dvd slot_count fifo"
      "slot_count fifo \<le> (2 ^ 64 - 1) div slot_bytes fifo"
    by (auto simp: rdma_validate_fifo_def split: if_splits)
  have "(2 ^ 64 - 1) div slot_bytes fifo \<le> (2 ^ 64 - 1 :: nat)" by (rule div_le_dividend)
  then have "slot_count fifo \<le> 2 ^ 64 - 1" using v(5) by (rule order_trans[rotated])
  moreover have "step_increment fifo \<le> slot_count fifo" using v(2,4) by (rule dvd_imp_le[rotated])
  ultimately show ?thesis using v assms(2) by (simp add: rfifo_ok_def fifo_ok_def)
qed

lemma make_rdma_send_ok:
  assumes "make_rdma_send fifo any_null plane targets s = Inr s'"
  shows "next_post s' = head s'" "next_complete s' = head s'" "proxy_step s' = head s'" "inflight s' = 0"
    "max_if s' = slot_count fifo div step_increment fifo"
  using assms by (auto simp: make_rdma_send_def rbind_def throw_if_def max_inflight_def split: sum.splits if_splits)

lemma make_rdma_recv_ok:
  assumes "make_rdma_recv fifo any_null plane remote elide reg_mr s = Inr s'"
  shows "next_post s' = tail s'" "next_complete s' = tail s'" "proxy_step s' = tail s'" "inflight s' = 0"
    "max_if s' = slot_count fifo div step_increment fifo" "elide_zero_payload s' = elide"
  using assms by (auto simp: make_rdma_recv_def rbind_def throw_if_def max_inflight_def split: sum.splits if_splits option.splits)

lemma rdma_init_inv:
  assumes "rdma_init fifo e"
  shows "rdma_inv fifo e"
proof -
  obtain targets s where ms: "make_rdma_send fifo False SendRecv targets s = Inr (r_snd e)"
    using assms unfolding rdma_init_def by blast
  obtain remote reg_mr s' where mr: "make_rdma_recv fifo False SendRecv remote False reg_mr s' = Inr (r_rcv e)"
    using assms unfolding rdma_init_def by blast
  have ok: "rfifo_ok fifo"
    using ms assms by (intro rdma_validated) (auto simp: make_rdma_send_def rbind_def rdma_init_def split: sum.splits)
  note made = make_rdma_send_ok[OF ms] make_rdma_recv_ok[OF mr]
  show ?thesis
    using assms by (intro rdma_invI[of fifo e 0 0 0 0 0])
      (auto simp: ok made rdma_init_def slices_ok_def snd_base_def published_def rcv_base_def arrived_def snd_cq_def rcv_cq_def covered_def)
qed

section \<open>Progress\<close>

definition rdma_healthy :: "rdma_edge \<Rightarrow> bool" where
  "rdma_healthy e \<longleftrightarrow> \<not> broken e \<and> \<not> has_error (errors (r_snd e)) \<and> \<not> has_error (errors (r_rcv e)) \<and>
     \<not> stop_requested (r_snd e) \<and> \<not> stop_requested (r_rcv e)"

text \<open>The work done on the slices sent so far, counted in steps, and the work left.\<close>

definition rdma_done :: "proxy_fifo \<Rightarrow> rdma_edge \<Rightarrow> nat" where
  "rdma_done fifo e =
     next_post (r_snd e) + head (r_snd e) + (next_post (r_snd e) - length (sq (r_snd e)) * step_increment fifo) +
     tail (r_rcv e) + head (r_rcv e) + next_post (r_rcv e)"

definition rdma_work :: "proxy_fifo \<Rightarrow> rdma_edge \<Rightarrow> nat" where
  "rdma_work fifo e = 6 * tail (r_snd e) + slot_count fifo - rdma_done fifo e"

lemma rdma_work_less:
  assumes "rdma_inv fifo e" "rdma_inv fifo e'" "r_sent e' = r_sent e" "rdma_done fifo e < rdma_done fifo e'"
  shows "rdma_work fifo e' < rdma_work fifo e"
proof -
  have tl: "tail (r_snd e) = length (r_sent e) * step_increment fifo" if "rdma_inv fifo e" for e
    using that unfolding rdma_inv_def snd_base_def published_def by blast
  have "rdma_done fifo e' \<le> 6 * tail (r_snd e') + slot_count fifo"
    using assms(2)
  proof (cases rule: rdma_invE)
    case (1 t np nc rp rc)
    let ?i = "step_increment fifo" let ?n = "length (r_sent e')"
    have s: "next_post (r_snd e') = np * ?i" "head (r_snd e') = nc * ?i" "nc \<le> np" "np \<le> ?n" "t \<le> np"
      using 1(4) by (auto simp: snd_base_def published_def)
    have r: "tail (r_rcv e') = rc * ?i" "head (r_rcv e') = length (r_delivered e') * ?i" "next_post (r_rcv e') = rp * ?i"
      "rp * ?i \<le> length (r_delivered e') * ?i + slot_count fifo" "rc \<le> t" "length (r_delivered e') \<le> rc"
      using 1(5) by (auto simp: rcv_base_def arrived_def)
    have "np * ?i \<le> ?n * ?i" "nc * ?i \<le> ?n * ?i" "rc * ?i \<le> ?n * ?i" "length (r_delivered e') * ?i \<le> ?n * ?i"
      using s r 1(8) by (auto intro: mult_le_mono1)
    then show ?thesis using r(4) unfolding rdma_done_def s(1,2) r(1,2,3) tl[OF assms(2)] by linarith
  qed
  moreover have "tail (r_snd e') = tail (r_snd e)" using tl[OF assms(1)] tl[OF assms(2)] assms(3) by simp
  ultimately show ?thesis using assms(4) unfolding rdma_work_def by linarith
qed

lemma rdma_stepI:
  assumes "rdma_inv fifo e" "rdma_step fifo ident e e'" "rdma_healthy e'" "r_sent e' = r_sent e" "rdma_done fifo e < rdma_done fifo e'"
  shows "\<exists>e'. rdma_step fifo ident e e' \<and> rdma_healthy e' \<and> r_sent e' = r_sent e \<and> rdma_work fifo e' < rdma_work fifo e"
  using assms rdma_work_less[OF assms(1) rdma_step_inv[OF assms(2,1)]] by blast

lemma rdma_recv_advances:
  assumes inv: "rdma_inv fifo e" and h: "rdma_healthy e" and "rcv_base fifo (r_sent e) (r_rcv e) d t rp rc"
    "rcv_cq fifo (r_sent e) False t rc (cq (r_rcv e))"
    and more: "rc < t \<or> rp * step_increment fifo \<noteq> d * step_increment fifo + slot_count fifo" and ok: "rfifo_ok fifo"
  shows "\<exists>e'. rdma_step fifo ident e e' \<and> rdma_healthy e' \<and> r_sent e' = r_sent e \<and> rdma_work fifo e' < rdma_work fifo e"
proof -
  obtain did s where p: "progress_recv fifo ident SendRecv undefined None (\<lambda>_. None) (\<lambda>_. None) (Some kPollBatch) (r_rcv e) = (did, s)"
    by fastforce
  let ?e = "e\<lparr>r_rcv := s\<rparr>" let ?i = "step_increment fifo"
  from progress_recv_inv[OF ok assms(3) disjI2[OF assms(4)] p] h obtain rp' rc' where pr: "rp \<le> rp'" "rc \<le> rc'"
      "rcv_base fifo (r_sent e) s d t rp' rc'" "errors s = errors (r_rcv e)" "stop_requested s = stop_requested (r_rcv e)"
      "rp' * ?i = d * ?i + slot_count fifo" "cq (r_rcv e) = [] \<or> rc < rc'"
    unfolding recv_progressed_def rdma_healthy_def by blast
  have "rc < rc' \<or> rp < rp'"
  proof (cases "rc < t")
    case True
    then have "cq (r_rcv e) \<noteq> []" using assms(4) by (auto simp: rcv_cq_def)
    then show ?thesis using pr(7) by simp
  next
    case False
    then have "rp \<noteq> rp'" using more pr(6) by auto
    then show ?thesis using pr(1) by simp
  qed
  then have "rc * ?i + rp * ?i < rc' * ?i + rp' * ?i" using pr(1,2) rfifo_facts(2)[OF ok]
    by (simp flip: add_mult_distrib) linarith
  then have "rdma_done fifo e < rdma_done fifo ?e"
    using pr(3) assms(3) by (simp add: rdma_done_def rcv_base_def arrived_def)
  moreover have "rdma_step fifo ident e ?e" by (rule p_recv[OF p])
  moreover have "rdma_healthy ?e" using h pr(4,5) by (simp add: rdma_healthy_def)
  ultimately show ?thesis using rdma_stepI[OF inv] by simp
qed

lemma rdma_send_advances:
  assumes inv: "rdma_inv fifo e" and h: "rdma_healthy e" and b: "snd_base fifo (r_sent e) (r_snd e) np np nc"
    "snd_cq fifo False (r_snd e) np np nc (cq (r_snd e))" and more: "np < length (r_sent e)"
    and ok: "rfifo_ok fifo" "slices_ok fifo (r_sent e)"
  shows "\<exists>e'. rdma_step fifo ident e e' \<and> rdma_healthy e' \<and> r_sent e' = r_sent e \<and> rdma_work fifo e' < rdma_work fifo e"
proof -
  obtain did s where p: "progress_send fifo ident SendRecv undefined (\<lambda>_. None) (Some kPollBatch) (r_snd e) = (did, s)"
    by fastforce
  let ?e = "e\<lparr>r_snd := s\<rparr>" let ?i = "step_increment fifo"
  from progress_send_inv[OF ok b(1) disjI2[OF b(2)] p] h obtain np' nc' where pr: "np \<le> np'" "nc \<le> nc'"
      "snd_base fifo (r_sent e) s np np' nc'" "errors s = errors (r_snd e)" "stop_requested s = stop_requested (r_snd e)"
      "np' - nc = max_if s \<or> np' = length (r_sent e)" "cq (r_snd e) = [] \<or> nc < nc'"
    unfolding send_progressed_def rdma_healthy_def by blast
  have "nc < nc' \<or> np < np'"
  proof (rule ccontr)
    assume no: "\<not> (nc < nc' \<or> np < np')"
    then have "np' = np" "cq (r_snd e) = []" using pr(1,7) by auto
    then have "np - nc = max_if s" using pr(6) more by simp
    moreover have "0 < max_if s" using pr(3) rfifo_facts(7)[OF ok(1)] by (simp add: snd_base_def)
    ultimately show False using b(2) \<open>cq (r_snd e) = []\<close> by (auto simp: snd_cq_def covered_def)
  qed
  then have "nc * ?i + np * ?i < nc' * ?i + np' * ?i" using pr(1,2) rfifo_facts(2)[OF ok(1)]
    by (simp flip: add_mult_distrib) linarith
  moreover have "next_post (r_snd e) - length (sq (r_snd e)) * ?i = np * ?i" "next_post s - length (sq s) * ?i = np * ?i"
    using snd_base_len[OF b(1)] snd_base_len[OF pr(3)] b(1) pr(1,3) by (auto simp: snd_base_def diff_mult_distrib[symmetric])
  ultimately have "rdma_done fifo e < rdma_done fifo ?e"
    using pr(3) b(1) by (simp add: rdma_done_def snd_base_def published_def)
  moreover have "rdma_step fifo ident e ?e" by (rule p_send[OF p])
  moreover have "rdma_healthy ?e" using h pr(4,5) by (simp add: rdma_healthy_def)
  ultimately show ?thesis using rdma_stepI[OF inv] by simp
qed

lemma rdma_progress:
  assumes inv: "rdma_inv fifo e" and h: "rdma_healthy e" and more: "r_delivered e \<noteq> r_sent e"
  shows "\<exists>e'. rdma_step fifo ident e e' \<and> rdma_healthy e' \<and> r_sent e' = r_sent e \<and> rdma_work fifo e' < rdma_work fifo e"
  using inv
proof (cases rule: rdma_invE)
  case (1 t np nc rp rc)
  let ?d = "length (r_delivered e)" let ?i = "step_increment fifo"
  have d: "?d \<le> rc" "rc \<le> t" using 1(5) by (auto simp: rcv_base_def arrived_def)
  have lt: "?d < length (r_sent e)" using 1(3) more
    by (metis le_neq_implies_less not_equal_is_parallel parallelE prefix_length_le)
  have rq: "rcv_cq fifo (r_sent e) False t rc (cq (r_rcv e))" and sq: "snd_cq fifo False (r_snd e) t np nc (cq (r_snd e))"
    using 1(6,7) h by (auto simp: rdma_healthy_def)
  note inc = rfifo_facts(2)[OF 1(1)]
  consider "?d < rc" | "rc = ?d" "rc < t \<or> rp * ?i \<noteq> ?d * ?i + slot_count fifo" | "t = ?d" "rp * ?i = ?d * ?i + slot_count fifo" "t < np"
    | "t = ?d" "np = t" using d 1(4) by (auto simp: snd_base_def) linarith
  then show ?thesis
  proof cases
    case taken: 1
    then have "head (r_rcv e) < tail (r_rcv e)" using 1(5) inc by (simp add: rcv_base_def arrived_def)
    then obtain p s where k: "kernel_recv fifo (r_rcv e) = Some (p, s)" using kernel_recv_iff[of fifo "r_rcv e"] by fastforce
    note ks = rcv_base_kernel_recv(4)[OF 1(1,2,5,8) k]
    show ?thesis using h inc by (intro rdma_stepI[OF inv k_recv[OF k]]) (simp_all add: ks rdma_healthy_def rdma_done_def)
  next
    case 2
    then show ?thesis using rdma_recv_advances[OF inv h 1(5) rq _ 1(1)] by simp
  next
    case 3
    have "rp * ?i \<noteq> t * ?i" using 3(1,2) rfifo_facts(3)[OF 1(1)] inc by simp
    then have "t < rp" using 1(5) by (cases "t = rp") (auto simp: rcv_base_def)
    then obtain i slot rs where r: "rq (r_rcv e) = (i, slot) # rs" using 1(5) by (auto simp: rcv_base_def upt_conv_Cons)
    from 3(3) snd_base_len[OF 1(4)] obtain w ws where s: "sq (r_snd e) = w # ws" by (cases "sq (r_snd e)") auto
    note sd = snd_base_delivered[OF 1(1,2,4) s]
    have "\<not> slot_bytes fifo < unat (wr_len w)" using sd(6) slices_facts(2)[OF 1(1,2), of t] lt 3(1) by simp
    then obtain e' where n: "nic_deliver fifo e = Some e'" "e' = e\<lparr>r_snd := r_snd e', r_rcv := r_rcv e'\<rparr>" "sq (r_snd e') = ws"
      "next_post (r_snd e') = next_post (r_snd e)" "head (r_snd e') = head (r_snd e)"
      "tail (r_rcv e') = tail (r_rcv e)" "head (r_rcv e') = head (r_rcv e)" "next_post (r_rcv e') = next_post (r_rcv e)"
      "errors (r_snd e') = errors (r_snd e)" "errors (r_rcv e') = errors (r_rcv e)"
      "stop_requested (r_snd e') = stop_requested (r_snd e)" "stop_requested (r_rcv e') = stop_requested (r_rcv e)" "r_sent e' = r_sent e"
      "broken e' = broken e"
      using h r s by (auto simp: nic_deliver_def rdma_healthy_def Let_def)
    have "length (sq (r_snd e)) * ?i \<le> next_post (r_snd e)" using snd_base_len[OF 1(4)] 1(4) by (auto simp: snd_base_def)
    then have "rdma_done fifo e < rdma_done fifo e'" using inc s n by (simp add: rdma_done_def)
    then show ?thesis using h n by (intro rdma_stepI[OF inv nic[OF n(1)]]) (simp_all add: rdma_healthy_def)
  next
    case 4
    then show ?thesis using rdma_send_advances[OF inv h] 1(1,2,4) sq lt by simp
  qed
qed

interpretation rdma_edge: reliable_edge "rdma_init fifo" "rdma_step fifo ident" "rdma_inv fifo" r_sent r_delivered rdma_healthy
    "rdma_work fifo" for fifo ident
  using rdma_step_inv rdma_progress rdma_init_inv by unfold_locales (blast elim: rdma_invE)+

section \<open>Properties\<close>

text \<open>C10: An RDMA edge of the plane SendRecv delivers in order and exactly once. In every state reachable from
  two proxies as their constructors leave them, under any interleaving of the kernels, the calls of
  \<open>progress\<close>, the adapters, a broken connection, stops and failing verbs calls, what the receiving
  kernel took out is a prefix of what the sending kernel put in.\<close>

theorem rdma_edge_in_order:
  assumes "rdma_init fifo e0" "(rdma_step fifo ident)\<^sup>*\<^sup>* e0 e"
  shows "prefix (r_delivered e) (r_sent e)"
  using assms by (rule rdma_edge.in_order)

text \<open>C11: An RDMA edge can always drain: from every reachable state in which the connection is up and neither
  proxy failed or was stopped, calls of \<open>progress\<close>, deliveries of the adapter and kernel receives get
  every slice that was sent to the receiver, although only some of the requests ask for a
  completion.\<close>

theorem rdma_edge_drains:
  assumes "rdma_init fifo e0" "(rdma_step fifo ident)\<^sup>*\<^sup>* e0 e" "rdma_healthy e"
  shows "\<exists>e'. (rdma_step fifo ident)\<^sup>*\<^sup>* e e' \<and> rdma_healthy e' \<and> r_sent e' = r_sent e \<and> r_delivered e' = r_sent e"
  using assms by (rule rdma_edge.drains)

text \<open>C29: The requests an RDMA edge has open stay within its FIFO. In every reachable state the proxies have at
  most \<open>slot_count / step_increment\<close> requests each that were not completed, the receive requests lie
  in slots the kernel has given back, and the send requests in slots it has filled.\<close>

theorem rdma_window:
  assumes "rdma_init fifo e0" "(rdma_step fifo ident)\<^sup>*\<^sup>* e0 e"
  shows "inflight (r_snd e) \<le> slot_count fifo div step_increment fifo \<and>
    inflight (r_rcv e) \<le> slot_count fifo div step_increment fifo \<and>
    inflight (r_snd e) * step_increment fifo = next_post (r_snd e) - head (r_snd e) \<and>
    next_post (r_snd e) \<le> tail (r_snd e) \<and> tail (r_snd e) \<le> head (r_snd e) + slot_count fifo \<and>
    inflight (r_rcv e) * step_increment fifo = next_post (r_rcv e) - tail (r_rcv e) \<and>
    next_post (r_rcv e) \<le> head (r_rcv e) + slot_count fifo"
proof -
  have "rdma_inv fifo e" using rdma_edge.reachable_inv[OF assms(2) rdma_init_inv[OF assms(1)]] .
  then show ?thesis
  proof (cases rule: rdma_invE)
    case (1 t np nc rp rc)
    let ?i = "step_increment fifo" let ?d = "length (r_delivered e)"
    have s: "next_post (r_snd e) = np * ?i" "head (r_snd e) = nc * ?i" "tail (r_snd e) = length (r_sent e) * ?i"
      "tail (r_snd e) \<le> head (r_snd e) + slot_count fifo" "np \<le> length (r_sent e)" "inflight (r_snd e) = np - nc"
      using 1(4) by (auto simp: snd_base_def published_def)
    have r: "tail (r_rcv e) = rc * ?i" "head (r_rcv e) = ?d * ?i" "next_post (r_rcv e) = rp * ?i"
      "rp * ?i \<le> ?d * ?i + slot_count fifo" "?d \<le> rc" "inflight (r_rcv e) = rp - rc"
      using 1(5) by (auto simp: rcv_base_def arrived_def)
    have m: "np * ?i \<le> length (r_sent e) * ?i" "?d * ?i \<le> rc * ?i" using s(5) r(5) by (auto intro: mult_le_mono1)
    have q: "k * ?i \<le> slot_count fifo \<Longrightarrow> k \<le> slot_count fifo div ?i" for k
      using rfifo_facts(2)[OF 1(1)] by (simp add: less_eq_div_iff_mult_less_eq)
    have "np * ?i - nc * ?i \<le> slot_count fifo" "rp * ?i - rc * ?i \<le> slot_count fifo" using s m r by linarith+
    then have "np - nc \<le> slot_count fifo div ?i" "rp - rc \<le> slot_count fifo div ?i"
      by (auto intro!: q simp: diff_mult_distrib)
    then show ?thesis using s r m by (simp add: diff_mult_distrib)
  qed
qed

text \<open>A run of a small edge: the sending kernel publishes one slice and its proxy posts it.\<close>

definition demo_rfifo :: proxy_fifo where
  "demo_rfifo = \<lparr>fifo_data_null = False, fifo_sizes_null = False, slot_bytes = 4, slot_count = 8, step_increment = 2\<rparr>"

definition demo_rsend :: rdma_send where
  "demo_rsend = \<lparr>slot_data = \<lambda>_. [0, 0, 0, 0], slot_sizes = \<lambda>_. 0, head = 0, tail = 0, proxy_step = 0, stop_requested = False,
     errors = \<lparr>has_error = False, message = [], device_abort = Some False\<rparr>,
     prepared = False, started = False, max_if = 4, next_post = 0, next_complete = 0, inflight = 0, cq = [],
     posts = 0, zero_payload_posts = 0, local_cts = \<lambda>_. \<lparr>raddr = 0, rkey = 0, nbytes = 0, step_tag = 0, ready = 0\<rparr>, sq = []\<rparr>"

definition demo_rrecv :: rdma_recv where
  "demo_rrecv = \<lparr>slot_data = \<lambda>_. [0, 0, 0, 0], slot_sizes = \<lambda>_. 0, head = 0, tail = 0, proxy_step = 0, stop_requested = False,
     errors = \<lparr>has_error = False, message = [], device_abort = Some False\<rparr>,
     prepared = False, started = False, max_if = 4, next_post = 0, next_complete = 0, inflight = 0, cq = [],
     elide_zero_payload = False, next_cts = 0, next_cts_complete = 0, inflight_cts = 0, rq = [],
     shadow = \<lambda>_. \<lparr>raddr = 0, rkey = 0, nbytes = 0, step_tag = 0, ready = 0\<rparr>, cts_sq = []\<rparr>"

definition demo_redge :: rdma_edge where
  "demo_redge = \<lparr>r_snd = demo_rsend, r_rcv = demo_rrecv, broken = False, r_sent = [], r_delivered = []\<rparr>"

definition demo_rident :: proxy_identity where
  "demo_rident = \<lparr>source_rank = 0, destination_rank = 1, proxy_channel = 0\<rparr>"

definition demo_filled :: rdma_send where
  "demo_filled = the (kernel_send demo_rfifo [7, 8] demo_rsend)"

definition demo_posted :: rdma_send where
  "demo_posted = snd (progress_send demo_rfifo demo_rident SendRecv undefined (\<lambda>_. None) (Some 16) demo_filled)"

definition demo_posted_edge :: rdma_edge where
  "demo_posted_edge = demo_redge\<lparr>r_snd := demo_posted, r_sent := [[7, 8]]\<rparr>"

lemma demo_redge_init: "rdma_init demo_rfifo demo_redge"
proof -
  have "make_rdma_send demo_rfifo False SendRecv undefined demo_rsend = Inr demo_rsend"
    "make_rdma_recv demo_rfifo False SendRecv undefined False None demo_rrecv = Inr demo_rrecv"
    by (simp_all add: make_rdma_send_def make_rdma_recv_def rdma_validate_fifo_def max_inflight_def rbind_def throw_if_def
        demo_rfifo_def demo_rsend_def demo_rrecv_def)
  then show ?thesis by (auto simp: rdma_init_def demo_redge_def demo_rfifo_def) (simp_all add: demo_rsend_def demo_rrecv_def)
qed

lemma demo_redge_run: "(rdma_step demo_rfifo demo_rident)\<^sup>*\<^sup>* demo_redge demo_posted_edge"
proof -
  have k: "kernel_send demo_rfifo [7, 8] (r_snd demo_redge) = Some demo_filled"
    by (simp add: kernel_send_def demo_filled_def demo_rfifo_def demo_rsend_def demo_redge_def)
  have "rdma_step demo_rfifo demo_rident demo_redge (demo_redge\<lparr>r_snd := demo_filled, r_sent := r_sent demo_redge @ [[7, 8]]\<rparr>)"
    by (rule rdma_step.k_send[OF k]) (simp_all add: demo_redge_def demo_rsend_def demo_rfifo_def)
  moreover have "rdma_step demo_rfifo demo_rident (demo_redge\<lparr>r_snd := demo_filled, r_sent := r_sent demo_redge @ [[7, 8]]\<rparr>) demo_posted_edge"
    using rdma_step.p_send[of demo_rfifo demo_rident undefined "\<lambda>_. None" "Some 16" "demo_redge\<lparr>r_snd := demo_filled, r_sent := r_sent demo_redge @ [[7, 8]]\<rparr>"
        "fst (progress_send demo_rfifo demo_rident SendRecv undefined (\<lambda>_. None) (Some 16) demo_filled)" demo_posted]
    by (simp add: demo_posted_def demo_posted_edge_def demo_redge_def)
  ultimately show ?thesis by (meson r_into_rtranclp rtranclp_trans)
qed

lemmas demo_run_simps = demo_posted_def demo_filled_def kernel_send_def demo_rsend_def demo_rfifo_def progress_send_def
  progress_send_recv_def catch_progress_def comp_simps poll_cq_def push_send_def posted_send_def send_signal_def Let_def

lemma demo_posted_fields:
  "errors demo_posted = \<lparr>has_error = False, message = [], device_abort = Some False\<rparr>" "stop_requested demo_posted = False"
  "length (sq demo_posted) = 1" "next_post demo_posted = 2" "head demo_posted = 0"
proof -
  have "send_post_loop 2 = send_post_loop (Suc (Suc 0))" by (simp add: numeral_2_eq_2)
  then show "errors demo_posted = \<lparr>has_error = False, message = [], device_abort = Some False\<rparr>" "stop_requested demo_posted = False"
    "length (sq demo_posted) = 1" "next_post demo_posted = 2" "head demo_posted = 0"
    by (simp_all add: demo_run_simps)
qed

lemma demo_posted_healthy: "rdma_healthy demo_posted_edge"
  by (simp add: rdma_healthy_def demo_posted_edge_def demo_redge_def demo_posted_fields) (simp add: demo_rrecv_def)

theorem rdma_edge_in_order_witness: "prefix (r_delivered demo_posted_edge) (r_sent demo_posted_edge)"
  by (rule rdma_edge_in_order[OF demo_redge_init demo_redge_run])

theorem rdma_edge_drains_witness:
  "\<exists>e'. (rdma_step demo_rfifo demo_rident)\<^sup>*\<^sup>* demo_posted_edge e' \<and> r_delivered e' = [[7, 8]]"
  using rdma_edge_drains[OF demo_redge_init demo_redge_run demo_posted_healthy] by (auto simp: demo_posted_edge_def)

theorem rdma_window_witness: "inflight (r_snd demo_posted_edge) = 1"
  using rdma_window[OF demo_redge_init demo_redge_run]
  by (simp add: demo_posted_edge_def demo_redge_def demo_posted_fields demo_rfifo_def)

end
