(* ===== verification/Rdma_Progress.thy ===== *)
theory Rdma_Progress
  imports Rdma_Reliable
begin

text \<open>
  The progress engine that drives all RDMA proxies of a communicator from one thread:
  \<open>transport/rdma/rdma_progress.cc\<close>. The engine holds the numbers of its proxies; the proxies' states
  are a function of the number. All proxies of a communicator report to one failure state, which the
  engine looks at before and after every call. Pinning the thread and the pause of an idle pass have
  no effect in the model.
\<close>

section \<open>The engine\<close>

record engine =
  eng_sends :: "nat list"
  eng_recvs :: "nat list"
  eng_errors :: bool
  eng_started :: bool
  eng_stop :: bool
  pin_numa_node :: int

definition fresh_engine :: engine where
  "fresh_engine = \<lparr>eng_sends = [], eng_recvs = [], eng_errors = False, eng_started = False, eng_stop = False, pin_numa_node = -1\<rparr>"

text \<open>A proxy is its number and the NUMA node of its FIFO; \<open>None\<close> is a null pointer.\<close>

definition add_send :: "(nat \<times> int) option \<Rightarrow> (engine, unit) comp" where
  "add_send proxy =
     (case proxy of
        None \<Rightarrow> raise (Runtime_error ''rdma progress engine add_send null'')
      | Some (i, node) \<Rightarrow> with_state (\<lambda>e.
          if eng_started e then raise (Runtime_error ''rdma progress engine cannot add_send after start'')
          else change (\<lambda>e. e\<lparr>pin_numa_node := (if pin_numa_node e < 0 then node else pin_numa_node e),
                            eng_sends := eng_sends e @ [i]\<rparr>)))"

definition add_recv :: "(nat \<times> int) option \<Rightarrow> (engine, unit) comp" where
  "add_recv proxy =
     (case proxy of
        None \<Rightarrow> raise (Runtime_error ''rdma progress engine add_recv null'')
      | Some (i, node) \<Rightarrow> with_state (\<lambda>e.
          if eng_started e then raise (Runtime_error ''rdma progress engine cannot add_recv after start'')
          else change (\<lambda>e. e\<lparr>pin_numa_node := (if pin_numa_node e < 0 then node else pin_numa_node e),
                            eng_recvs := eng_recvs e @ [i]\<rparr>)))"

definition engine_start :: "bool \<Rightarrow> (engine, unit) comp" where
  "engine_start errors_null =
     with_state (\<lambda>e.
       if eng_started e then raise (Runtime_error ''rdma progress engine already started'')
       else if eng_sends e = [] \<and> eng_recvs e = [] then ret ()
       else if errors_null then raise (Runtime_error ''rdma progress engine missing error state'')
       else change (\<lambda>e. e\<lparr>eng_errors := True, eng_stop := False, eng_started := True\<rparr>))"

definition engine_shutdown :: "engine \<Rightarrow> engine" where
  "engine_shutdown e = e\<lparr>eng_stop := True\<rparr>"

definition engine_join :: "engine \<Rightarrow> engine" where
  "engine_join e = e\<lparr>eng_started := False\<rparr>"

definition engine_draining :: "(nat \<Rightarrow> rdma_send) \<Rightarrow> engine \<Rightarrow> bool" where
  "engine_draining sends e = list_ex (\<lambda>i. send_draining (sends i)) (eng_sends e)"

section \<open>A pass over the proxies\<close>

text \<open>The accumulators are \<open>work\<close>, \<open>any_error\<close>, the shared failure state and the proxies.\<close>

fun pass_over ::
    "(nat \<Rightarrow> 'a qp_side_scheme \<Rightarrow> bool \<times> 'a qp_side_scheme) \<Rightarrow> nat list \<Rightarrow> bool \<Rightarrow> bool \<Rightarrow> async_error \<Rightarrow>
     (nat \<Rightarrow> 'a qp_side_scheme) \<Rightarrow> bool \<times> bool \<times> async_error \<times> (nat \<Rightarrow> 'a qp_side_scheme)" where
  "pass_over call [] work any_error err proxies = (work, any_error, err, proxies)"
| "pass_over call (i # is) work any_error err proxies =
     (if has_error err then pass_over call is work True err proxies
      else case call i ((proxies i)\<lparr>errors := err\<rparr>) of (did_work, p) \<Rightarrow>
        pass_over call is (did_work \<or> work) (any_error \<or> has_error (errors p)) (errors p) (proxies(i := p)))"

record engine_world =
  w_err :: async_error
  w_recvs :: "nat \<Rightarrow> rdma_recv"
  w_sends :: "nat \<Rightarrow> rdma_send"

datatype pass_result = Engine_exits | Engine_goes_on bool

text \<open>One round of the loop of \<open>run\<close>; the calls are the proxies' \<open>progress\<close> with their own arguments.\<close>

definition engine_pass ::
    "(nat \<Rightarrow> rdma_recv \<Rightarrow> bool \<times> rdma_recv) \<Rightarrow> (nat \<Rightarrow> rdma_send \<Rightarrow> bool \<times> rdma_send) \<Rightarrow> engine \<Rightarrow> engine_world \<Rightarrow>
     pass_result \<times> engine_world" where
  "engine_pass recv_call send_call e w =
     (if eng_stop e then (Engine_exits, w)
      else case pass_over recv_call (eng_recvs e) False False (w_err w) (w_recvs w) of (work1, bad1, err1, rs) \<Rightarrow>
           (case pass_over send_call (eng_sends e) work1 bad1 err1 (w_sends w) of (work2, bad2, err2, ss) \<Rightarrow>
              (if bad2 then Engine_exits else Engine_goes_on work2, \<lparr>w_err = err2, w_recvs = rs, w_sends = ss\<rparr>)))"

fun engine_run ::
    "nat \<Rightarrow> (nat \<Rightarrow> nat \<Rightarrow> rdma_recv \<Rightarrow> bool \<times> rdma_recv) \<Rightarrow> (nat \<Rightarrow> nat \<Rightarrow> rdma_send \<Rightarrow> bool \<times> rdma_send) \<Rightarrow> engine \<Rightarrow> engine_world \<Rightarrow>
     engine_world option" where
  "engine_run 0 recv_call send_call e w = None"
| "engine_run (Suc n) recv_call send_call e w =
     (case engine_pass (recv_call n) (send_call n) e w of
        (Engine_exits, w') \<Rightarrow> Some w'
      | (Engine_goes_on _, w') \<Rightarrow> engine_run n recv_call send_call e w')"

section \<open>What a pass does\<close>

lemma pass_after_error:
  "has_error err \<Longrightarrow> pass_over call is work bad err ps = (work, bad \<or> is \<noteq> [], err, ps)"
  by (induction "is" arbitrary: bad) auto

lemma pass_spec:
  assumes "distinct is" "pass_over call is work bad err ps = (work', bad', err', ps')"
  shows "(\<forall>i. i \<notin> set is \<longrightarrow> ps' i = ps i) \<and> (bad \<longrightarrow> bad') \<and> (work \<longrightarrow> work') \<and>
    (\<not> bad' \<longrightarrow> (has_error err' \<longrightarrow> has_error err) \<and> (is = [] \<or> \<not> has_error err') \<and>
      (\<forall>i \<in> set is. \<exists>er. \<not> has_error er \<and> ps' i = snd (call i ((ps i)\<lparr>errors := er\<rparr>)) \<and>
         (fst (call i ((ps i)\<lparr>errors := er\<rparr>)) \<longrightarrow> work')))"
  using assms
proof (induction "is" arbitrary: work bad err ps)
  case Nil
  then show ?case by simp
next
  case (Cons i "is")
  show ?case
  proof (cases "has_error err")
    case True
    then show ?thesis using Cons.prems(2) pass_after_error[OF True, of call "is" work True ps] by simp
  next
    case False
    obtain did p where c: "call i ((ps i)\<lparr>errors := err\<rparr>) = (did, p)" by fastforce
    have r: "pass_over call is (did \<or> work) (bad \<or> has_error (errors p)) (errors p) (ps(i := p)) = (work', bad', err', ps')"
      using Cons.prems(2) False c by simp
    have i: "i \<notin> set is" using Cons.prems(1) by simp
    note IH = Cons.IH[OF _ r]
    show ?thesis
    proof (cases bad')
      case True
      then show ?thesis using IH Cons.prems(1) by simp
    next
      case nb: False
      have ih: "\<forall>j. j \<notin> set is \<longrightarrow> ps' j = (ps(i := p)) j" "\<not> has_error (errors p)" "\<not> bad" "\<not> has_error err'" "did \<or> work \<longrightarrow> work'"
        "\<forall>j \<in> set is. \<exists>er. \<not> has_error er \<and> ps' j = snd (call j (((ps(i := p)) j)\<lparr>errors := er\<rparr>)) \<and>
           (fst (call j (((ps(i := p)) j)\<lparr>errors := er\<rparr>)) \<longrightarrow> work')"
        using IH Cons.prems(1) nb by auto
      have "ps' i = snd (call i ((ps i)\<lparr>errors := err\<rparr>))" using ih(1) i c by simp
      moreover have "(ps(i := p)) j = ps j" if "j \<noteq> i" for j using that by simp
      moreover have "j \<noteq> i" if "j \<in> set is" for j using that i by blast
      ultimately show ?thesis using ih False c i by (auto simp del: fun_upd_apply)
    qed
  qed
qed

section \<open>Properties\<close>

text \<open>A pass of the engine that goes on has served every registered proxy: each made exactly one call of
  \<open>progress\<close> with a clean failure state, receivers before senders, nothing else changed, and the engine
  counts the pass as idle only if no call did work.\<close>

theorem engine_pass_fair:
  assumes "distinct (eng_recvs e)" "distinct (eng_sends e)"
    and "engine_pass recv_call send_call e w = (Engine_goes_on work, w')"
  shows "\<not> eng_stop e \<and>
    (\<forall>i. i \<notin> set (eng_recvs e) \<longrightarrow> w_recvs w' i = w_recvs w i) \<and> (\<forall>i. i \<notin> set (eng_sends e) \<longrightarrow> w_sends w' i = w_sends w i) \<and>
    (\<forall>i \<in> set (eng_recvs e). \<exists>er. \<not> has_error er \<and> w_recvs w' i = snd (recv_call i ((w_recvs w i)\<lparr>errors := er\<rparr>)) \<and>
       (fst (recv_call i ((w_recvs w i)\<lparr>errors := er\<rparr>)) \<longrightarrow> work)) \<and>
    (\<forall>i \<in> set (eng_sends e). \<exists>er. \<not> has_error er \<and> w_sends w' i = snd (send_call i ((w_sends w i)\<lparr>errors := er\<rparr>)) \<and>
       (fst (send_call i ((w_sends w i)\<lparr>errors := er\<rparr>)) \<longrightarrow> work))"
proof -
  obtain w1 b1 e1 rs where p1: "pass_over recv_call (eng_recvs e) False False (w_err w) (w_recvs w) = (w1, b1, e1, rs)"
    by (rule prod_cases4)
  obtain w2 b2 e2 ss where p2: "pass_over send_call (eng_sends e) w1 b1 e1 (w_sends w) = (w2, b2, e2, ss)"
    by (rule prod_cases4)
  have "\<not> eng_stop e" "\<not> b2" "work = w2" "w_recvs w' = rs" "w_sends w' = ss"
    using assms(3) p1 p2 by (auto simp: engine_pass_def split: if_splits)
  then show ?thesis using pass_spec[OF assms(1) p1] pass_spec[OF assms(2) p2] by blast
qed

text \<open>C32: A failure ends the engine: if the shared failure state is set, the next pass exits and no proxy is
  touched any more; and a pass in which some proxy fails is the last one.\<close>

theorem engine_stops_on_failure:
  assumes "eng_recvs e \<noteq> [] \<or> eng_sends e \<noteq> []" "distinct (eng_sends e)" "distinct (eng_recvs e)"
    and "engine_pass recv_call send_call e w = (r, w')"
  shows "(has_error (w_err w) \<longrightarrow> r = Engine_exits \<and> w' = w) \<and> (has_error (w_err w') \<longrightarrow> r = Engine_exits)"
proof -
  obtain w1 b1 e1 rs where p1: "pass_over recv_call (eng_recvs e) False False (w_err w) (w_recvs w) = (w1, b1, e1, rs)"
    by (rule prod_cases4)
  obtain w2 b2 e2 ss where p2: "pass_over send_call (eng_sends e) w1 b1 e1 (w_sends w) = (w2, b2, e2, ss)"
    by (rule prod_cases4)
  have r: "eng_stop e \<and> r = Engine_exits \<and> w' = w \<or>
      \<not> eng_stop e \<and> r = (if b2 then Engine_exits else Engine_goes_on w2) \<and> w' = \<lparr>w_err = e2, w_recvs = rs, w_sends = ss\<rparr>"
    using assms(4) p1 p2 by (auto simp: engine_pass_def split: if_splits)
  have "has_error (w_err w) \<longrightarrow> b2 \<and> \<lparr>w_err = e2, w_recvs = rs, w_sends = ss\<rparr> = w"
    using p1 p2 assms(1) by (auto simp: pass_after_error)
  moreover have "has_error e2 \<longrightarrow> b2"
    using pass_spec[OF assms(2) p2] pass_spec[OF assms(3) p1] assms(1) p2 by (cases "eng_sends e = []") auto
  ultimately show ?thesis using r by auto
qed

text \<open>An engine with the receiver of one edge and the sender of another, both already shut down.\<close>

definition demo_engine :: engine where
  "demo_engine = fresh_engine\<lparr>eng_recvs := [0], eng_sends := [1]\<rparr>"

definition demo_world :: "bool \<Rightarrow> engine_world" where
  "demo_world failed = \<lparr>w_err = \<lparr>has_error = failed, message = [], device_abort = None\<rparr>,
     w_recvs = (\<lambda>_. rdma_shutdown demo_rrecv), w_sends = (\<lambda>_. rdma_shutdown demo_rsend)\<rparr>"

definition demo_recv_call :: "nat \<Rightarrow> rdma_recv \<Rightarrow> bool \<times> rdma_recv" where
  "demo_recv_call i = progress_recv demo_rfifo demo_rident SendRecv undefined None (\<lambda>_. None) (\<lambda>_. None) (Some 16)"

definition demo_send_call :: "nat \<Rightarrow> rdma_send \<Rightarrow> bool \<times> rdma_send" where
  "demo_send_call i = progress_send demo_rfifo demo_rident SendRecv undefined (\<lambda>_. None) (Some 16)"

lemmas demo_engine_simps = demo_engine_def demo_world_def demo_recv_call_def demo_send_call_def fresh_engine_def engine_pass_def
  progress_send_def progress_recv_def rdma_shutdown_def

theorem engine_pass_fair_witness:
  "stop_requested (w_recvs (snd (engine_pass demo_recv_call demo_send_call demo_engine (demo_world False))) 0)"
proof -
  obtain w' where p: "engine_pass demo_recv_call demo_send_call demo_engine (demo_world False) = (Engine_goes_on False, w')"
    by (auto simp: demo_engine_simps split: prod.splits)
  have d: "distinct (eng_recvs demo_engine)" "distinct (eng_sends demo_engine)" "0 \<in> set (eng_recvs demo_engine)"
    by (simp_all add: demo_engine_simps)
  show ?thesis using engine_pass_fair[OF d(1,2) p] d(3) p by (auto simp: demo_engine_simps)
qed

theorem engine_stops_on_failure_witness:
  "fst (engine_pass demo_recv_call demo_send_call demo_engine (demo_world True)) = Engine_exits"
proof -
  obtain r w' where p: "engine_pass demo_recv_call demo_send_call demo_engine (demo_world True) = (r, w')" by fastforce
  have d: "eng_recvs demo_engine \<noteq> [] \<or> eng_sends demo_engine \<noteq> []" "distinct (eng_sends demo_engine)" "distinct (eng_recvs demo_engine)"
    by (simp_all add: demo_engine_simps)
  show ?thesis using engine_stops_on_failure[OF d p] p by (simp add: demo_world_def)
qed

end
