(* ===== verification/Rdma_Setup.thy ===== *)
theory Rdma_Setup
  imports Communicator Rdma_Link Rdma_Progress
begin

unbundle bit_operations_syntax

text \<open>
  \<open>setup_rdma_transport\<close> of \<open>collective/all_reduce/communicator.cu\<close>: resources for every RDMA edge of the
  process, the exchange of queue pair and buffer addresses with the neighbours over the bootstrap
  connections, the checks of what the peer told, the proxies and the start of their progress.

  A cell names one end of one channel of one edge. What the outside answers for a cell (verbs, CUDA,
  the peer's message) is a field of the environment argument. The state carries the communicator, the
  open verbs objects and the proxies made so far.
\<close>

section \<open>Data\<close>

record cell =
  c_send :: bool
  c_channel :: nat
  c_edge :: nat

text \<open>\<open>RdmaChannelResources\<close>. The owner of the FIFO's registration is \<open>fifo_memory\<close>.\<close>

record channel_res =
  data_ptr :: "64 word"
  fifo_memory :: registered
  fifo_rkey :: nat
  cts_table :: "(nat \<times> nat) option"
  res_qp :: rdma_qp

record setup_env =
  env_use_write :: "string option"
  env_gdr :: "string option"
  env_shared_progress :: "string option"
  env_gid_index :: "string option"
  env_ifname :: "string option"
  env_ifaddrs :: "net_addr list option"
  env_devices :: "string + hca_device list"
  env_page :: "64 word"
  env_fifo_addr :: "cell \<Rightarrow> 64 word"
  env_fifo_rkey :: "cell \<Rightarrow> nat"
  env_cts :: "cell \<Rightarrow> nat \<times> nat"
  env_qp :: "cell \<Rightarrow> qp_answers"
  env_device :: "cell \<Rightarrow> device_answers"
  env_reg_error :: "cell \<Rightarrow> string option"
  env_cts_error :: "cell \<Rightarrow> string option"
  env_scratch_error :: "cell \<Rightarrow> string option"
  env_flush :: "int \<Rightarrow> flush_cuda"
  env_send :: "cell \<Rightarrow> peer_info \<Rightarrow> unit result"
  env_recv :: "cell \<Rightarrow> peer_info result"
  env_send_ready :: "cell \<Rightarrow> unit result"
  env_recv_ready :: "cell \<Rightarrow> byte result"
  env_post :: "cell \<Rightarrow> nat \<Rightarrow> string option"
  env_post_cts :: "cell \<Rightarrow> nat \<Rightarrow> string option"
  env_side :: "cell \<Rightarrow> side"
  env_numa :: "cell \<Rightarrow> int"

record setup_state =
  s_comm :: comm
  s_verbs :: verbs
  s_endpoint :: "rdma_endpoint option"
  s_res :: "(cell \<times> channel_res) list"
  s_infos :: "(cell \<times> peer_info) list"
  s_remote :: "(cell \<times> peer_info) list"
  s_send_proxies :: "(cell \<times> write_targets \<times> rdma_send) list"
  s_recv_proxies :: "(cell \<times> cts_remote \<times> rdma_recv) list"
  s_engine :: engine

text \<open>A computation on the verbs objects, run on the whole state.\<close>

definition on_verbs :: "(verbs, 'a) comp \<Rightarrow> (setup_state, 'a) comp" where
  "on_verbs m s = (case m (s_verbs s) of (r, v) \<Rightarrow> (r, s\<lparr>s_verbs := v\<rparr>))"

definition on_engine :: "(engine, 'a) comp \<Rightarrow> (setup_state, 'a) comp" where
  "on_engine m s = (case m (s_engine s) of (r, e) \<Rightarrow> (r, s\<lparr>s_engine := e\<rparr>))"

section \<open>Resources\<close>

text \<open>\<open>ibv_reg_mr\<close> on the mapped FIFO of the host-pin placement.\<close>

definition allocate_rdma_fifo :: "setup_env \<Rightarrow> memory_placement \<Rightarrow> nat \<Rightarrow> cell \<Rightarrow> (setup_state, registered) comp" where
  "allocate_rdma_fifo env placement pd c =
     (if placement = GpuDirect
      then (\<lambda>s. case on_verbs (register_device (env_page env) (env_device env c) pd (env_fifo_addr env c) (of_nat kFifoBytes)) s of
              (Inl e, s') \<Rightarrow> (Inl (Runtime_error (''NANO_NCCL_RDMA_GDR=1 requested but device FIFO '' @
                 ''registration failed (no silent host-pin fallback): '' @ what e)), s')
            | (Inr m, s') \<Rightarrow> (Inr m, s'))
      else (case env_reg_error env c of
              Some err \<Rightarrow> raise (Runtime_error (''ibv_reg_mr rdma fifo: '' @ err))
            | None \<Rightarrow> andthen (on_verbs (open_obj O_mr)) (\<lambda>m.
                ret \<lparr>mr = Some m, mr_addr = env_fifo_addr env c, mr_bytes = of_nat kFifoBytes, on_device = False, reg_method = M_none\<rparr>)))"

definition register_rdma_cts_buffer :: "setup_env \<Rightarrow> cell \<Rightarrow> (setup_state, nat \<times> nat) comp" where
  "register_rdma_cts_buffer env c =
     (case env_cts_error env c of
        Some err \<Rightarrow> raise (Runtime_error (''ibv_reg_mr rdma cts: '' @ err))
      | None \<Rightarrow> andthen (on_verbs (open_obj O_mr)) (\<lambda>_. ret (env_cts env c)))"

definition make_cell :: "setup_env \<Rightarrow> bool \<Rightarrow> memory_placement \<Rightarrow> rdma_endpoint \<Rightarrow> cell \<Rightarrow> (setup_state, unit) comp" where
  "make_cell env write_cts placement ep c =
     andthen (on_verbs (create_init ep (env_qp env c))) (\<lambda>q.
     andthen (allocate_rdma_fifo env placement (case ep_pd ep of Some pd \<Rightarrow> Suc pd | None \<Rightarrow> 0) c) (\<lambda>m.
     andthen (if write_cts then andthen (register_rdma_cts_buffer env c) (\<lambda>t. ret (Some t)) else ret None) (\<lambda>t.
       change (\<lambda>s. s\<lparr>s_res := s_res s @ [(c, \<lparr>data_ptr = mr_addr m, fifo_memory = m, fifo_rkey = env_fifo_rkey env c,
                                             cts_table = t, res_qp = q\<rparr>)]\<rparr>))))"

definition rdma_cells :: "nat \<Rightarrow> nat \<Rightarrow> comm \<Rightarrow> cell list" where
  "rdma_cells K C st =
     concat (map (\<lambda>edge.
       if m_transport_plan st ! edge \<noteq> Rdma then []
       else (if is_local_global_rank (m_topology st) (int edge)
             then map (\<lambda>ch. \<lparr>c_send = True, c_channel = ch, c_edge = edge\<rparr>) [0..<C] else []) @
            (if is_local_global_rank (m_topology st) (int ((edge + 1) mod K))
             then map (\<lambda>ch. \<lparr>c_send = False, c_channel = ch, c_edge = edge\<rparr>) [0..<C] else [])) [0..<K])"

section \<open>Exchange\<close>

definition kRdmaPeerFlagGpuDirect :: "32 word" where "kRdmaPeerFlagGpuDirect = 1"
definition kRdmaPeerFlagWriteCts :: "32 word" where "kRdmaPeerFlagWriteCts = 2"
definition kRdmaPeerKnownFlags :: "32 word" where "kRdmaPeerKnownFlags = kRdmaPeerFlagGpuDirect OR kRdmaPeerFlagWriteCts"

definition peer_flags :: "bool \<Rightarrow> bool \<Rightarrow> 32 word" where
  "peer_flags gdr write_cts = ((if gdr then kRdmaPeerFlagGpuDirect else 0) OR (if write_cts then kRdmaPeerFlagWriteCts else 0))"

definition local_peer_info :: "bool \<Rightarrow> bool \<Rightarrow> rdma_endpoint \<Rightarrow> bool \<Rightarrow> bool \<Rightarrow> channel_res \<Rightarrow> peer_info" where
  "local_peer_info gdr write_cts ep is_send is_recv r =
     (let base = (local_info (res_qp r))\<lparr>p_port_lid := port_lid ep, p_gid_index := gid_index ep, p_active_mtu := active_mtu ep,
                    p_gid := gid ep, flags := peer_flags gdr write_cts\<rparr>;
          with_fifo = (if write_cts \<and> is_recv
                       then base\<lparr>recv_fifo_addr := unat (data_ptr r), recv_fifo_rkey := fifo_rkey r, recv_fifo_bytes := kFifoBytes\<rparr>
                       else base) in
      if write_cts \<and> is_send
      then (case cts_table r of
              Some (addr, key) \<Rightarrow> with_fifo\<lparr>cts_fifo_addr := addr, cts_fifo_rkey := key, cts_slots := kFifoSteps\<rparr>
            | None \<Rightarrow> with_fifo)
      else with_fifo)"

text \<open>One bootstrap connection: the cell it serves, or nothing to do, or an invalid hello.\<close>

definition pending_cell :: "nat \<Rightarrow> nat \<Rightarrow> comm \<Rightarrow> socket_hello \<Rightarrow> cell option result" where
  "pending_cell K C st h =
     (if hello_channel h < 0 \<or> int C \<le> hello_channel h \<or> source_global_rank h < 0 \<or> int K \<le> source_global_rank h \<or>
         destination_global_rank h \<noteq> (source_global_rank h + 1) mod int K
      then Inl (Runtime_error ''rdma connection has invalid ring identity'')
      else let edge = nat (source_global_rank h); receiver = (edge + 1) mod K;
               is_send = is_local_global_rank (m_topology st) (int edge);
               is_recv = is_local_global_rank (m_topology st) (int receiver) in
        if m_transport_plan st ! edge \<noteq> Rdma then Inr None
        else if \<not> is_send \<and> \<not> is_recv then Inr None
        else rbind (local_rank_for_global_rank (m_topology st) (int (if is_send then edge else receiver))) (\<lambda>_.
               Inr (Some \<lparr>c_send = is_send, c_channel = nat (hello_channel h), c_edge = edge\<rparr>)))"

definition cell_is_recv :: "nat \<Rightarrow> comm \<Rightarrow> cell \<Rightarrow> bool" where
  "cell_is_recv K st c = is_local_global_rank (m_topology st) (int ((c_edge c + 1) mod K))"

definition collect_pending :: "nat \<Rightarrow> nat \<Rightarrow> bool \<Rightarrow> bool \<Rightarrow> rdma_endpoint \<Rightarrow> socket_hello \<Rightarrow> (setup_state, unit) comp" where
  "collect_pending K C gdr write_cts ep h =
     with_state (\<lambda>s.
     andthen (lift (pending_cell K C (s_comm s) h)) (\<lambda>oc.
       case oc of
         None \<Rightarrow> ret ()
       | Some c \<Rightarrow>
           (case map_of (s_res s) c of
              None \<Rightarrow> raise (Logic_error ''null rdma resources'')
            | Some r \<Rightarrow> change (\<lambda>s. s\<lparr>s_infos := s_infos s @
                [(c, local_peer_info gdr write_cts ep (c_send c) (cell_is_recv K (s_comm s) c) r)]\<rparr>))))"

text \<open>What every process does on its connections: all sends, then all receives.\<close>

datatype 'c exchange_op = Snd 'c | Rcv 'c

definition exchange_program :: "'c list \<Rightarrow> 'c exchange_op list" where
  "exchange_program conns = map Snd conns @ map Rcv conns"

definition exchange_peer_infos :: "setup_env \<Rightarrow> (setup_state, unit) comp" where
  "exchange_peer_infos env =
     with_state (\<lambda>s. for_each (exchange_program (s_infos s)) (\<lambda>x.
       case x of
         Snd (c, info) \<Rightarrow> lift (env_send env c info)
       | Rcv (c, _) \<Rightarrow> andthen (lift (env_recv env c)) (\<lambda>remote. change (\<lambda>s. s\<lparr>s_remote := s_remote s @ [(c, remote)]\<rparr>))))"

definition check_peer_info :: "bool \<Rightarrow> bool \<Rightarrow> bool \<Rightarrow> nat \<Rightarrow> peer_info \<Rightarrow> peer_info \<Rightarrow> unit result" where
  "check_peer_info write_cts is_send is_recv edge mine remote =
     rbind (throw_if (flags remote AND NOT kRdmaPeerKnownFlags \<noteq> 0 \<or> flags remote \<noteq> flags mine)
              (Runtime_error (''rdma peer data plane or GDR placement mismatch for edge '' @ string_of_nat edge))) (\<lambda>_.
     if write_cts then
       rbind (throw_if (is_send \<and> (recv_fifo_addr remote = 0 \<or> recv_fifo_rkey remote = 0 \<or> recv_fifo_bytes remote = 0))
                (Runtime_error ''rdma WriteCts peer missing recv FIFO endpoint'')) (\<lambda>_.
       rbind (throw_if (is_recv \<and> (cts_fifo_addr remote = 0 \<or> cts_fifo_rkey remote = 0 \<or> cts_slots remote = 0))
                (Runtime_error ''rdma WriteCts peer missing CTS FIFO endpoint'')) (\<lambda>_.
       throw_if (is_recv \<and> cts_slots remote \<noteq> kFifoSteps)
                (Runtime_error ''rdma WriteCts peer CTS slot_count mismatch'')))
     else Inr ())"

section \<open>Proxies\<close>

definition write_targets_for :: "peer_info \<Rightarrow> channel_res \<Rightarrow> write_targets" where
  "write_targets_for remote r =
     \<lparr>remote_fifo_addr = recv_fifo_addr remote, remote_fifo_bytes = recv_fifo_bytes remote, local_cts_null = (cts_table r = None),
      cts_slot_count = kFifoSteps\<rparr>"

definition cts_remote_for :: "peer_info \<Rightarrow> channel_res \<Rightarrow> cts_remote" where
  "cts_remote_for remote r =
     \<lparr>remote_cts_addr = cts_fifo_addr remote, remote_cts_slots = cts_slots remote, local_shadow_null = (cts_table r = None),
      local_shadow_mr_null = (cts_table r = None), local_recv_fifo_addr = unat (data_ptr r),
      local_recv_fifo_rkey = of_nat (fifo_rkey r), max_inline_data = max_inline (res_qp r)\<rparr>"

text \<open>A proxy starts from the fresh counters and slots of its cell.\<close>

definition fresh_send :: "side \<Rightarrow> rdma_send" where
  "fresh_send sd = \<lparr>slot_data = slot_data sd, slot_sizes = slot_sizes sd, head = head sd, tail = tail sd, proxy_step = 0,
     stop_requested = False, errors = errors sd, prepared = False, started = False, max_if = 0, next_post = 0, next_complete = 0,
     inflight = 0, cq = [], posts = 0, zero_payload_posts = 0,
     local_cts = (\<lambda>_. \<lparr>raddr = 0, rkey = 0, nbytes = 0, step_tag = 0, ready = 0\<rparr>), sq = []\<rparr>"

definition fresh_recv :: "side \<Rightarrow> rdma_recv" where
  "fresh_recv sd = \<lparr>slot_data = slot_data sd, slot_sizes = slot_sizes sd, head = head sd, tail = tail sd, proxy_step = 0,
     stop_requested = False, errors = errors sd, prepared = False, started = False, max_if = 0, next_post = 0, next_complete = 0,
     inflight = 0, cq = [], elide_zero_payload = False, next_cts = 0, next_cts_complete = 0, inflight_cts = 0, rq = [],
     shadow = (\<lambda>_. \<lparr>raddr = 0, rkey = 0, nbytes = 0, step_tag = 0, ready = 0\<rparr>), cts_sq = []\<rparr>"

definition gdr_flush_setup :: "setup_env \<Rightarrow> memory_placement \<Rightarrow> int \<Rightarrow> nat \<Rightarrow> unit result" where
  "gdr_flush_setup env placement device edge =
     (if placement = GpuDirect
      then (case flush_for_device (env_flush env device) device of
              Inl e \<Rightarrow> Inl (Runtime_error (''rdma GDR receive flush setup failed for edge '' @ string_of_nat edge @
                                          '' backend=rdma/gdr: '' @ what e))
            | Inr _ \<Rightarrow> Inr ())
      else Inr ())"

text \<open>The queue pair moves into the proxy; a second connection for the same cell would find a null pointer.\<close>

definition connect_cell ::
    "nat \<Rightarrow> setup_env \<Rightarrow> data_plane \<Rightarrow> memory_placement \<Rightarrow> rdma_endpoint \<Rightarrow> cell \<times> peer_info \<times> peer_info \<Rightarrow> (setup_state, unit) comp" where
  "connect_cell K env plane placement ep item =
     (case item of (c, mine, remote) \<Rightarrow>
      with_state (\<lambda>s.
        let write_cts = (plane = WriteCts); is_recv = cell_is_recv K (s_comm s) c in
        case map_of (s_res s) c of
          None \<Rightarrow> raise (Logic_error ''null rdma resources'')
        | Some r \<Rightarrow>
        andthen (lift (check_peer_info write_cts (c_send c) is_recv (c_edge c) mine remote)) (\<lambda>_.
        andthen (lift (rbind (throw_if (qp (res_qp r) = None) (Logic_error ''null rdma queue pair'')) (\<lambda>_.
                       rbind (transition_to_rtr (env_qp env c) remote (gid_index ep) (active_mtu ep) (res_qp r))
                             (transition_to_rts (env_qp env c) 0 (psn remote))))) (\<lambda>q.
        andalso (change (\<lambda>s. s\<lparr>s_res := map (\<lambda>(c', r'). (c', if c' = c then r'\<lparr>res_qp := snd (moved_from q)\<rparr> else r')) (s_res s)\<rparr>))
       (if c_send c
        then andthen (lift (make_rdma_send comm_fifo False plane (write_targets_for remote r) (fresh_send (env_side env c)))) (\<lambda>p.
               change (\<lambda>s. s\<lparr>s_send_proxies := s_send_proxies s @ [(c, write_targets_for remote r, p)], s_comm :=
                 (s_comm s)\<lparr>m_rdma_send_proxies := m_rdma_send_proxies (s_comm s) @ [(c_channel c, c_edge c)]\<rparr>\<rparr>))
        else andthen (lift (rbind (device_for_global_rank (m_topology (s_comm s)) ((c_edge c + 1) mod K))
                              (\<lambda>device. gdr_flush_setup env placement device (c_edge c)))) (\<lambda>_.
             andthen (lift (make_rdma_recv comm_fifo False plane (cts_remote_for remote r) False (env_scratch_error env c)
                              (fresh_recv (env_side env c)))) (\<lambda>p.
               change (\<lambda>s. s\<lparr>s_recv_proxies := s_recv_proxies s @ [(c, cts_remote_for remote r, p)], s_comm :=
                 (s_comm s)\<lparr>m_rdma_recv_proxies := m_rdma_recv_proxies (s_comm s) @ [(c_channel c, c_edge c)]\<rparr>\<rparr>))))))))"

section \<open>Start\<close>

text \<open>Run an operation of every proxy and keep its new state.\<close>

fun each_recv :: "(cell \<Rightarrow> cts_remote \<Rightarrow> (rdma_recv, unit) comp) \<Rightarrow> (cell \<times> cts_remote \<times> rdma_recv) list \<Rightarrow>
    unit result \<times> (cell \<times> cts_remote \<times> rdma_recv) list" where
  "each_recv f [] = (Inr (), [])"
| "each_recv f ((c, t, p) # xs) =
     (case f c t p of
        (Inl e, p') \<Rightarrow> (Inl e, (c, t, p') # xs)
      | (Inr _, p') \<Rightarrow> (case each_recv f xs of (r, ys) \<Rightarrow> (r, (c, t, p') # ys)))"

fun each_send :: "(rdma_send, unit) comp \<Rightarrow> (cell \<times> write_targets \<times> rdma_send) list \<Rightarrow>
    unit result \<times> (cell \<times> write_targets \<times> rdma_send) list" where
  "each_send f [] = (Inr (), [])"
| "each_send f ((c, t, p) # xs) =
     (case f p of
        (Inl e, p') \<Rightarrow> (Inl e, (c, t, p') # xs)
      | (Inr _, p') \<Rightarrow> (case each_send f xs of (r, ys) \<Rightarrow> (r, (c, t, p') # ys)))"

definition on_recvs :: "(cell \<Rightarrow> cts_remote \<Rightarrow> (rdma_recv, unit) comp) \<Rightarrow> (setup_state, unit) comp" where
  "on_recvs f s = (case each_recv f (s_recv_proxies s) of (r, ps) \<Rightarrow> (r, s\<lparr>s_recv_proxies := ps\<rparr>))"

definition on_sends :: "(rdma_send, unit) comp \<Rightarrow> (setup_state, unit) comp" where
  "on_sends f s = (case each_send f (s_send_proxies s) of (r, ps) \<Rightarrow> (r, s\<lparr>s_send_proxies := ps\<rparr>))"

definition exchange_ready_bytes :: "setup_env \<Rightarrow> (setup_state, unit) comp" where
  "exchange_ready_bytes env =
     with_state (\<lambda>s. for_each (exchange_program (map fst (s_remote s))) (\<lambda>x.
       case x of
         Snd c \<Rightarrow> lift (env_send_ready env c)
       | Rcv c \<Rightarrow> andthen (lift (env_recv_ready env c)) (\<lambda>b.
           lift (throw_if (b \<noteq> 1) (Runtime_error ''rdma peer did not confirm recv readiness'')))))"

definition start_progress :: "setup_env \<Rightarrow> data_plane \<Rightarrow> bool \<Rightarrow> (setup_state, unit) comp" where
  "start_progress env plane shared =
     (if shared then
        andalso (on_recvs (\<lambda>c t. prepare_recv comm_fifo plane t (env_post env c) (env_post_cts env c)))
       (andalso (exchange_ready_bytes env)
       (andalso (on_sends prepare_send)
       (with_state (\<lambda>s.
        andalso (for_each (enumerate 0 (map fst (s_recv_proxies s))) (\<lambda>(i, c). on_engine (add_recv (Some (i, env_numa env c)))))
       (andalso (for_each (enumerate 0 (map fst (s_send_proxies s))) (\<lambda>(i, c). on_engine (add_send (Some (i, env_numa env c)))))
                (on_engine (engine_start False)))))))
      else
        andalso (on_recvs (\<lambda>c t. start_recv comm_fifo plane t (env_post env c) (env_post_cts env c)))
       (andalso (exchange_ready_bytes env) (on_sends start_send)))"

definition setup_rdma_transport :: "nat \<Rightarrow> nat \<Rightarrow> setup_env \<Rightarrow> (setup_state, unit) comp" where
  "setup_rdma_transport K C env =
     with_state (\<lambda>s0.
       if \<not> distributed (m_topology (s_comm s0)) then ret ()
       else if \<not> list_ex (\<lambda>edge. m_transport_plan (s_comm s0) ! edge = Rdma) [0..<K] then ret ()
       else
       andthen (lift (parse_rdma_data_plane_env (env_use_write env))) (\<lambda>plane.
       andthen (lift (parse_rdma_memory_placement_env (env_gdr env))) (\<lambda>placement.
       let gdr = (placement = GpuDirect); write_cts = (plane = WriteCts) in
       andalso (change (\<lambda>s. s\<lparr>s_comm := (s_comm s)\<lparr>m_rdma_gdr_enabled := gdr\<rparr>\<rparr>))
      (andthen (lift (parse_rdma_shared_progress_env (env_shared_progress env))) (\<lambda>shared.
       andalso (change (\<lambda>s. s\<lparr>s_comm := (s_comm s)\<lparr>m_rdma_shared_progress := shared\<rparr>\<rparr>))
      (andthen (on_verbs (create_from_environment (env_gid_index env) (env_ifname env) (env_ifaddrs env) (env_devices env))) (\<lambda>ep.
       andalso (change (\<lambda>s. s\<lparr>s_endpoint := Some ep, s_comm := (s_comm s)\<lparr>m_rdma_resources := True,
                  m_rdma_errors := Some \<lparr>has_error = False, message = [], device_abort = Some False\<rparr>\<rparr>\<rparr>))
      (andalso (for_each (rdma_cells K C (s_comm s0)) (make_cell env write_cts placement ep))
      (with_state (\<lambda>s1.
       andalso (change (\<lambda>s. s\<lparr>s_comm := (s_comm s)\<lparr>m_rdma_fds := []\<rparr>\<rparr>))
      (andalso (for_each (m_rdma_fds (s_comm s1)) (collect_pending K C gdr write_cts ep))
      (andalso (exchange_peer_infos env)
      (with_state (\<lambda>s2.
       andalso (for_each (map2 (\<lambda>(c, mine) (_, remote). (c, mine, remote)) (s_infos s2) (s_remote s2))
                  (connect_cell K env plane placement ep))
                (start_progress env plane shared)))))))))))))))"

section \<open>The exchange between all processes\<close>

text \<open>
  Every process runs its exchange program on its own list of connections, in its own order. A message
  is small enough for the socket to take it at once; it waits at the other end until it is read.
  \<open>other p c\<close> is the process at the other end of connection \<open>c\<close>, \<open>info p c\<close> what \<open>p\<close> sends on it.
\<close>

record ('p, 'c, 'i) exchange =
  todo :: "'p \<Rightarrow> 'c exchange_op list"
  wire_msg :: "'p \<Rightarrow> 'c \<Rightarrow> 'i option"
  got :: "'p \<Rightarrow> ('c \<times> 'i) list"

inductive exchange_step ::
    "('p \<Rightarrow> 'c \<Rightarrow> 'p) \<Rightarrow> ('p \<Rightarrow> 'c \<Rightarrow> 'i) \<Rightarrow> ('p, 'c, 'i) exchange \<Rightarrow> ('p, 'c, 'i) exchange \<Rightarrow> bool" for other info where
  ex_send: "todo s p = Snd c # ops \<Longrightarrow>
    exchange_step other info s (s\<lparr>todo := (todo s)(p := ops),
      wire_msg := (wire_msg s)(other p c := (wire_msg s (other p c))(c \<mapsto> info p c))\<rparr>)"
| ex_recv: "todo s p = Rcv c # ops \<Longrightarrow> wire_msg s p c = Some i \<Longrightarrow>
    exchange_step other info s (s\<lparr>todo := (todo s)(p := ops), wire_msg := (wire_msg s)(p := (wire_msg s p)(c := None)),
      got := (got s)(p := got s p @ [(c, i)])\<rparr>)"

definition exchange_init :: "('p \<Rightarrow> 'c list) \<Rightarrow> ('p, 'c, 'i) exchange \<Rightarrow> bool" where
  "exchange_init conns s \<longleftrightarrow> todo s = exchange_program \<circ> conns \<and> wire_msg s = (\<lambda>_ _. None) \<and> got s = (\<lambda>_. [])"

definition links_ok :: "('p \<Rightarrow> 'c list) \<Rightarrow> ('p \<Rightarrow> 'c \<Rightarrow> 'p) \<Rightarrow> bool" where
  "links_ok conns other \<longleftrightarrow> (\<forall>p. distinct (conns p)) \<and>
     (\<forall>p. \<forall>c \<in> set (conns p). c \<in> set (conns (other p c)) \<and> other (other p c) c = p \<and> other p c \<noteq> p)"

definition has_sent :: "'c exchange_op list \<Rightarrow> 'c \<Rightarrow> bool" where
  "has_sent ops c \<longleftrightarrow> Snd c \<notin> set ops"

definition exchange_inv :: "('p \<Rightarrow> 'c list) \<Rightarrow> ('p \<Rightarrow> 'c \<Rightarrow> 'p) \<Rightarrow> ('p \<Rightarrow> 'c \<Rightarrow> 'i) \<Rightarrow> ('p, 'c, 'i) exchange \<Rightarrow> bool" where
  "exchange_inv conns other info s \<longleftrightarrow>
     (\<forall>p. \<exists>k. todo s p = drop k (exchange_program (conns p)) \<and>
        got s p = map (\<lambda>c. (c, info (other p c) c)) (take (k - length (conns p)) (conns p))) \<and>
     (\<forall>p. \<forall>c \<in> set (conns p).
        (Rcv c \<notin> set (todo s p) \<longrightarrow> has_sent (todo s (other p c)) c) \<and>
        wire_msg s p c = (if has_sent (todo s (other p c)) c \<and> Rcv c \<in> set (todo s p) then Some (info (other p c) c) else None))"

lemma distinct_program: "distinct cs \<Longrightarrow> distinct (exchange_program cs)"
  by (auto simp: exchange_program_def distinct_map inj_on_def)

lemma drop_program:
  assumes "drop k (exchange_program cs) = x # ops"
  shows "ops = drop (Suc k) (exchange_program cs)" "distinct cs \<Longrightarrow> x \<notin> set ops"
    "x = Snd c \<Longrightarrow> k < length cs \<and> c \<in> set cs"
    "x = Rcv c \<Longrightarrow> length cs \<le> k \<and> k - length cs < length cs \<and> c = cs ! (k - length cs)"
proof -
  have len: "k < length (exchange_program cs)" using assms by (metis drop_all list.distinct(1) not_le)
  have x: "x = exchange_program cs ! k" "ops = drop (Suc k) (exchange_program cs)"
    using assms Cons_nth_drop_Suc[OF len] by simp_all
  then show "ops = drop (Suc k) (exchange_program cs)" by simp
  show "x \<notin> set ops" if "distinct cs"
    using distinct_drop[OF distinct_program[OF that], of k] assms by simp
  show "k < length cs \<and> c \<in> set cs" if "x = Snd c"
    using x(1) that len by (cases "k < length cs") (auto simp: exchange_program_def nth_append)
  show "length cs \<le> k \<and> k - length cs < length cs \<and> c = cs ! (k - length cs)" if "x = Rcv c"
    using x(1) that len by (cases "k < length cs") (auto simp: exchange_program_def nth_append)
qed

lemma exchange_init_inv:
  assumes "exchange_init conns s" "links_ok conns other"
  shows "exchange_inv conns other info s"
proof -
  have "todo s p = drop 0 (exchange_program (conns p)) \<and> got s p = map (\<lambda>c. (c, info (other p c) c)) (take (0 - length (conns p)) (conns p))" for p
    using assms by (simp add: exchange_init_def)
  moreover have "Snd c \<in> set (todo s (other p c))" "Rcv c \<in> set (todo s p)" if "c \<in> set (conns p)" for p c
    using assms that by (auto simp: exchange_init_def exchange_program_def links_ok_def)
  moreover have "wire_msg s p c = None" for p c using assms(1) by (simp add: exchange_init_def)
  ultimately show ?thesis unfolding exchange_inv_def has_sent_def by (metis (no_types, lifting))
qed

lemma exchange_inv_step:
  assumes "exchange_step other info s s'" "links_ok conns other" "exchange_inv conns other info s"
  shows "exchange_inv conns other info s'"
  using assms(1)
proof cases
  case (ex_send p c ops)
  obtain k where k: "todo s p = drop k (exchange_program (conns p))"
      "got s p = map (\<lambda>c. (c, info (other p c) c)) (take (k - length (conns p)) (conns p))"
    using assms(3) unfolding exchange_inv_def by blast
  have d: "distinct (conns p)" using assms(2) by (simp add: links_ok_def)
  note dr = drop_program[OF trans[OF k(1)[symmetric] ex_send(2)]]
  have c: "c \<in> set (conns p)" "Snd c \<notin> set ops" "k < length (conns p)" using dr(2)[OF d] dr(3)[of c] by auto
  let ?q = "other p c"
  have q: "c \<in> set (conns ?q)" "other ?q c = p" "?q \<noteq> p" using assms(2) c(1) unfolding links_ok_def by auto
  have old: "\<not> has_sent (todo s p) c" using ex_send(2) by (simp add: has_sent_def)
  have rq: "Rcv c \<in> set (todo s ?q)" using assms(3) q old unfolding exchange_inv_def by metis
  have todo': "todo s' p = ops" "\<And>r. r \<noteq> p \<Longrightarrow> todo s' r = todo s r" "got s' = got s" using ex_send by auto
  have rcv: "Rcv e \<in> set (todo s' r) \<longleftrightarrow> Rcv e \<in> set (todo s r)" for r e
    using ex_send(2) todo' by (cases "r = p") auto
  have snd: "has_sent (todo s' r) e \<longleftrightarrow> has_sent (todo s r) e \<or> r = p \<and> e = c" for r e
    using ex_send(2) todo' c(2) by (cases "r = p") (auto simp: has_sent_def)
  have wire: "wire_msg s' r e = (if r = ?q \<and> e = c then Some (info p c) else wire_msg s r e)" for r e
    using ex_send(1) by simp
  have pt: "(Rcv e \<notin> set (todo s' r) \<longrightarrow> has_sent (todo s' (other r e)) e) \<and> wire_msg s' r e =
      (if has_sent (todo s' (other r e)) e \<and> Rcv e \<in> set (todo s' r) then Some (info (other r e) e) else None)"
    if e: "e \<in> set (conns r)" for r e
  proof (cases "r = ?q \<and> e = c")
    case True
    then show ?thesis using rq q by (simp add: snd rcv wire)
  next
    case False
    then have "\<not> (other r e = p \<and> e = c)" using assms(2) e unfolding links_ok_def by metis
    moreover have "(Rcv e \<notin> set (todo s r) \<longrightarrow> has_sent (todo s (other r e)) e) \<and> wire_msg s r e =
      (if has_sent (todo s (other r e)) e \<and> Rcv e \<in> set (todo s r) then Some (info (other r e) e) else None)"
      using assms(3) e unfolding exchange_inv_def by blast
    moreover have "wire_msg s' r e = wire_msg s r e" using wire[of r e] unfolding if_not_P[OF False] .
    ultimately show ?thesis unfolding rcv snd by argo
  qed
  have "\<exists>k. todo s' r = drop k (exchange_program (conns r)) \<and>
      got s' r = map (\<lambda>c. (c, info (other r c) c)) (take (k - length (conns r)) (conns r))" for r
  proof (cases "r = p")
    case True
    then show ?thesis using todo' dr(1) c(3) k(2) by (intro exI[of _ "Suc k"]) simp
  next
    case False
    then show ?thesis using assms(3) todo' unfolding exchange_inv_def by simp
  qed
  then show ?thesis using pt unfolding exchange_inv_def by blast
next
  case (ex_recv p c ops i)
  obtain k where k: "todo s p = drop k (exchange_program (conns p))"
      "got s p = map (\<lambda>c. (c, info (other p c) c)) (take (k - length (conns p)) (conns p))"
    using assms(3) unfolding exchange_inv_def by blast
  have d: "distinct (conns p)" using assms(2) by (simp add: links_ok_def)
  note dr = drop_program[OF trans[OF k(1)[symmetric] ex_recv(2)]]
  have c: "length (conns p) \<le> k" "k - length (conns p) < length (conns p)" "c = conns p ! (k - length (conns p))" "Rcv c \<notin> set ops"
    using dr(2)[OF d] dr(4)[of c] by auto
  have cc: "c \<in> set (conns p)" using c(2,3) by simp
  have i: "i = info (other p c) c" "has_sent (todo s (other p c)) c"
    using assms(3) cc ex_recv(3) unfolding exchange_inv_def by (auto split: if_splits)
  have todo': "todo s' p = ops" "\<And>r. r \<noteq> p \<Longrightarrow> todo s' r = todo s r" using ex_recv by auto
  have rcv: "Rcv e \<in> set (todo s' r) \<longleftrightarrow> Rcv e \<in> set (todo s r) \<and> \<not> (r = p \<and> e = c)" for r e
    using ex_recv(2) todo' c(4) by (cases "r = p") auto
  have snd: "has_sent (todo s' r) e \<longleftrightarrow> has_sent (todo s r) e" for r e
    using ex_recv(2) todo' by (cases "r = p") (auto simp: has_sent_def)
  have wire: "wire_msg s' r e = (if r = p \<and> e = c then None else wire_msg s r e)" for r e
    using ex_recv(1) by simp
  have pt: "(Rcv e \<notin> set (todo s' r) \<longrightarrow> has_sent (todo s' (other r e)) e) \<and> wire_msg s' r e =
      (if has_sent (todo s' (other r e)) e \<and> Rcv e \<in> set (todo s' r) then Some (info (other r e) e) else None)"
    if e: "e \<in> set (conns r)" for r e
  proof (cases "r = p \<and> e = c")
    case True
    then show ?thesis using i(2) by (simp add: snd rcv wire)
  next
    case False
    moreover have "(Rcv e \<notin> set (todo s r) \<longrightarrow> has_sent (todo s (other r e)) e) \<and> wire_msg s r e =
      (if has_sent (todo s (other r e)) e \<and> Rcv e \<in> set (todo s r) then Some (info (other r e) e) else None)"
      using assms(3) e unfolding exchange_inv_def by blast
    moreover have "wire_msg s' r e = wire_msg s r e" using wire[of r e] unfolding if_not_P[OF False] .
    ultimately show ?thesis unfolding rcv snd by argo
  qed
  have "\<exists>k. todo s' r = drop k (exchange_program (conns r)) \<and>
      got s' r = map (\<lambda>c. (c, info (other r c) c)) (take (k - length (conns r)) (conns r))" for r
  proof (cases "r = p")
    case True
    have "got s' p = got s p @ [(c, i)]" using ex_recv(1) by simp
    then have "got s' p = map (\<lambda>c. (c, info (other p c) c)) (take (Suc k - length (conns p)) (conns p))"
      using c k(2) i(1) by (simp add: Suc_diff_le take_Suc_conv_app_nth)
    then show ?thesis using True todo' dr(1) by blast
  next
    case False
    then show ?thesis using assms(3) todo' ex_recv(1) unfolding exchange_inv_def by simp
  qed
  then show ?thesis using pt unfolding exchange_inv_def by blast
qed

text \<open>The number of operations left, over the processes that take part.\<close>

definition exchange_left :: "'p set \<Rightarrow> ('p, 'c, 'i) exchange \<Rightarrow> nat" where
  "exchange_left P s = (\<Sum>p \<in> P. length (todo s p))"

lemma exchange_step_todo:
  "exchange_step other info s s' \<Longrightarrow> \<exists>p x. todo s p = x # todo s' p \<and> (\<forall>r. r \<noteq> p \<longrightarrow> todo s' r = todo s r)"
  by (induction rule: exchange_step.induct) auto

lemma exchange_left_step:
  assumes "exchange_step other info s s'" "finite P" "\<forall>p. p \<notin> P \<longrightarrow> todo s p = []"
  shows "exchange_left P s = Suc (exchange_left P s')"
proof -
  obtain p x where p: "todo s p = x # todo s' p" "\<forall>r. r \<noteq> p \<longrightarrow> todo s' r = todo s r" using exchange_step_todo[OF assms(1)] by blast
  then have "p \<in> P" using assms(3) by auto
  moreover have "(\<Sum>r \<in> P - {p}. length (todo s' r)) = (\<Sum>r \<in> P - {p}. length (todo s r))" using p(2) by (intro sum.cong) auto
  ultimately show ?thesis using assms(2) p(1) unfolding exchange_left_def by (simp add: sum.remove)
qed

lemma exchange_progress:
  assumes "exchange_inv conns other info s" "links_ok conns other" "todo s p \<noteq> []"
  shows "\<exists>s'. exchange_step other info s s'"
proof (cases "\<exists>q c. todo s q \<noteq> [] \<and> hd (todo s q) = Snd c")
  case True
  then obtain q c ops where "todo s q = Snd c # ops" by (metis list.collapse)
  then show ?thesis using ex_send[of s q c ops other info] by blast
next
  case False
  have all_sent: "has_sent (todo s q) c" if "c \<in> set (conns q)" for q c
  proof -
    obtain k where k: "todo s q = drop k (exchange_program (conns q))" using assms(1) unfolding exchange_inv_def by blast
    have "length (conns q) \<le> k"
    proof (rule ccontr)
      assume "\<not> length (conns q) \<le> k"
      then have "todo s q \<noteq> []" "hd (todo s q) = Snd (conns q ! k)" by (auto simp: k exchange_program_def hd_drop_conv_nth nth_append)
      then show False using False by blast
    qed
    then show ?thesis by (auto simp: has_sent_def k exchange_program_def dest: in_set_dropD)
  qed
  obtain c ops where c: "todo s p = Rcv c # ops"
    using assms(3) False by (metis exchange_op.exhaust list.collapse)
  obtain k where "todo s p = drop k (exchange_program (conns p))" using assms(1) unfolding exchange_inv_def by blast
  then have "c \<in> set (conns p)" using drop_program(4)[of k "conns p" "Rcv c" ops c] c by auto
  then have "has_sent (todo s (other p c)) c" "wire_msg s p c =
      (if has_sent (todo s (other p c)) c \<and> Rcv c \<in> set (todo s p) then Some (info (other p c) c) else None)"
    using all_sent assms(1,2) unfolding exchange_inv_def links_ok_def by blast+
  then have "wire_msg s p c = Some (info (other p c) c)" using c by simp
  then show ?thesis using ex_recv[OF c] by blast
qed

text \<open>C13: The exchange of peer information cannot deadlock, whatever the order in which the processes walk their
  connections: a run in which some process is not done can go on, it ends after as many steps as there
  are operations, and at the end every process has, for each of its connections in its own order, what
  the process at the other end sent on it.\<close>

theorem peer_exchange_completes:
  assumes "links_ok conns other" "finite P" "\<forall>p. p \<notin> P \<longrightarrow> conns p = []" "exchange_init conns s0"
    and "(exchange_step other info)\<^sup>*\<^sup>* s0 s"
  shows "((\<exists>p. todo s p \<noteq> []) \<longrightarrow> (\<exists>s'. exchange_step other info s s')) \<and>
    (\<forall>s'. exchange_step other info s s' \<longrightarrow> exchange_left P s' < exchange_left P s) \<and>
    ((\<forall>p. todo s p = []) \<longrightarrow> (\<forall>p. got s p = map (\<lambda>c. (c, info (other p c) c)) (conns p)))"
proof -
  have inv: "exchange_inv conns other info s"
    using assms(5) exchange_init_inv[OF assms(4,1)] by (induction rule: rtranclp_induct) (auto intro: exchange_inv_step assms(1))
  have sub: "\<forall>p. p \<notin> P \<longrightarrow> todo s p = []" using inv assms(3) unfolding exchange_inv_def
    by (metis drop_Nil exchange_program_def list.simps(8) self_append_conv2)
  have "got s p = map (\<lambda>c. (c, info (other p c) c)) (conns p)" if "todo s p = []" for p
  proof -
    obtain k where k: "todo s p = drop k (exchange_program (conns p))"
        "got s p = map (\<lambda>c. (c, info (other p c) c)) (take (k - length (conns p)) (conns p))"
      using inv unfolding exchange_inv_def by blast
    have "length (conns p) \<le> k - length (conns p)" using k(1) that by (simp add: exchange_program_def)
    then show ?thesis using k(2) by simp
  qed
  then show ?thesis using exchange_progress[OF inv assms(1)] exchange_left_step[OF _ assms(2) sub] by fastforce
qed

text \<open>Two processes with two connections that they walk in opposite order.\<close>

definition demo_conns :: "nat \<Rightarrow> nat list" where
  "demo_conns p = (if p = 0 then [0, 1] else if p = 1 then [1, 0] else [])"

definition demo_start :: "(nat, nat, nat) exchange" where
  "demo_start = \<lparr>todo = exchange_program \<circ> demo_conns, wire_msg = \<lambda>_ _. None, got = \<lambda>_. []\<rparr>"

theorem peer_exchange_completes_witness: "\<exists>s'. exchange_step (\<lambda>p _. 1 - p) (\<lambda>p c. 10 * p + c) demo_start s'"
proof -
  have h: "links_ok demo_conns (\<lambda>p _. 1 - p)" "\<forall>p. p \<notin> {0, 1} \<longrightarrow> demo_conns p = []" "exchange_init demo_conns demo_start"
    by (auto simp: links_ok_def demo_conns_def exchange_init_def demo_start_def)
  have "todo demo_start 0 \<noteq> []" by (simp add: demo_start_def demo_conns_def exchange_program_def)
  then show ?thesis
    using peer_exchange_completes[OF h(1) _ h(2,3), of "\<lambda>p c. 10 * p + c" demo_start] by blast
qed

section \<open>Both ends of an edge\<close>

lemma peer_flags_inject: "peer_flags g w = peer_flags g' w' \<longleftrightarrow> g = g' \<and> w = w'"
  by (cases g; cases w; cases g'; cases w') (simp_all add: peer_flags_def kRdmaPeerFlagGpuDirect_def kRdmaPeerFlagWriteCts_def)

lemma peer_flags_known: "peer_flags g w AND NOT kRdmaPeerKnownFlags = 0"
  by (cases g; cases w) (simp_all add: peer_flags_def kRdmaPeerKnownFlags_def kRdmaPeerFlagGpuDirect_def kRdmaPeerFlagWriteCts_def)

lemma local_peer_info_fields:
  "flags (local_peer_info g w ep sd rv r) = peer_flags g w" "p_active_mtu (local_peer_info g w ep sd rv r) = active_mtu ep"
  "qpn (local_peer_info g w ep sd rv r) = qp_num (res_qp r)" "p_gid (local_peer_info g w ep sd rv r) = gid ep"
  "recv_fifo_addr (local_peer_info g w ep sd rv r) = (if w \<and> rv then unat (data_ptr r) else 0)"
  "recv_fifo_rkey (local_peer_info g w ep sd rv r) = (if w \<and> rv then fifo_rkey r else 0)"
  "recv_fifo_bytes (local_peer_info g w ep sd rv r) = (if w \<and> rv then kFifoBytes else 0)"
  by (auto simp: local_peer_info_def local_info_def Let_def split: option.splits prod.splits)

lemma local_peer_info_cts:
  "cts_table r = Some (a, k) \<Longrightarrow> cts_fifo_addr (local_peer_info g w ep sd rv r) = (if w \<and> sd then a else 0) \<and>
     cts_fifo_rkey (local_peer_info g w ep sd rv r) = (if w \<and> sd then k else 0) \<and>
     cts_slots (local_peer_info g w ep sd rv r) = (if w \<and> sd then kFifoSteps else 0)"
  by (auto simp: local_peer_info_def local_info_def Let_def)

text \<open>An end that runs without \<open>WriteCts\<close>, or has no table, announces no table.\<close>

lemma local_peer_info_no_cts:
  "cts_table r = None \<or> \<not> w \<Longrightarrow> cts_fifo_addr (local_peer_info g w ep sd rv r) = 0"
  by (auto simp: local_peer_info_def local_info_def Let_def)

text \<open>The resources that \<open>make_cell\<close> leaves have a table exactly in the plane \<open>WriteCts\<close>.\<close>

lemma on_verbs_res: "on_verbs m s = (x, s') \<Longrightarrow> s_res s' = s_res s"
  by (auto simp: on_verbs_def split: prod.splits)

lemma allocate_res: "allocate_rdma_fifo env placement pd c s = (x, s') \<Longrightarrow> s_res s' = s_res s"
  by (auto simp: allocate_rdma_fifo_def andthen_def raise_def ret_def split: option.splits sum.splits prod.splits if_splits
      dest!: on_verbs_res)

lemma register_cts_res: "register_rdma_cts_buffer env c s = (x, s') \<Longrightarrow> s_res s' = s_res s"
  by (auto simp: register_rdma_cts_buffer_def andthen_def raise_def ret_def split: option.splits sum.splits prod.splits
      dest!: on_verbs_res)

lemma make_cell_table:
  assumes "make_cell env w placement ep c s = (Inr (), s')" "s_res s' = s_res s @ [(c, r)]"
  shows "cts_table r = None \<longleftrightarrow> \<not> w"
  using assms
  by (auto simp: make_cell_def andthen_def ret_def change_def split: sum.splits prod.splits if_splits
      dest!: on_verbs_res allocate_res register_cts_res)

text \<open>The ends of an edge disagree on the data plane or the memory placement: both refuse, naming the edge.\<close>

lemma ends_mismatch:
  assumes "info_s = local_peer_info g_s w_s ep_s True False r_s" "info_r = local_peer_info g_r w_r ep_r False True r_r"
    and "(g_s, w_s) \<noteq> (g_r, w_r)"
  shows "check_peer_info w_s True False edge info_s info_r =
      Inl (Runtime_error (''rdma peer data plane or GDR placement mismatch for edge '' @ string_of_nat edge)) \<and>
    check_peer_info w_r False True edge info_r info_s =
      Inl (Runtime_error (''rdma peer data plane or GDR placement mismatch for edge '' @ string_of_nat edge))"
proof -
  have "flags info_r \<noteq> flags info_s" using assms(3) unfolding assms(1,2) local_peer_info_fields by (auto simp: peer_flags_inject)
  then show ?thesis by (simp add: check_peer_info_def rbind_throw_if)
qed

lemma ends_match:
  assumes "info_s = local_peer_info g w ep_s True False r_s" "info_r = local_peer_info g w ep_r False True r_r"
    and "check_peer_info w True False edge info_s info_r = Inr ()" "check_peer_info w False True edge info_r info_s = Inr ()"
    and w and "cts_table r_r \<noteq> None"
  shows "remote_fifo_addr (write_targets_for info_r r_s) = unat (data_ptr r_r) \<and>
      remote_fifo_bytes (write_targets_for info_r r_s) = kFifoBytes \<and>
      (\<exists>key. cts_table r_s = Some (remote_cts_addr (cts_remote_for info_s r_r), key)) \<and>
      remote_cts_slots (cts_remote_for info_s r_r) = kFifoSteps \<and>
      validate_write_targets (write_targets_for info_r r_s) = Inr () \<and> validate_cts_remote (cts_remote_for info_s r_r) = Inr ()"
proof -
  note fr = local_peer_info_fields(5-7)[of g w ep_r False True r_r, folded assms(2)]
  have nz: "recv_fifo_addr info_r \<noteq> 0" "cts_fifo_addr info_s \<noteq> 0"
    using assms(3-5) by (auto simp: check_peer_info_def rbind_throw_if throw_if_def split: if_splits)
  then have "cts_table r_s \<noteq> None" using local_peer_info_no_cts[of r_s w g ep_s True False] assms(1) by metis
  then obtain table key where t: "cts_table r_s = Some (table, key)" by auto
  note cs = local_peer_info_cts[OF t, of g w ep_s True False, folded assms(1)]
  show ?thesis using nz fr cs t assms(5,6)
    by (simp add: write_targets_for_def cts_remote_for_def validate_write_targets_def validate_cts_remote_def simple_consts)
qed

text \<open>C31: the two ends of an RDMA edge agree or both refuse. Each end makes its resources and its information from its own environment,
  that is its own memory placement and its own data plane. When placement or plane differ, both ends throw the mismatch of the
  edge. When both accept, placement and plane are the same; in \<open>SendRecv\<close> neither end has registered a table or announced an
  address; in \<open>WriteCts\<close> the sender's target is the receiver's FIFO, the receiver announces its slots in the sender's table, and
  the checks of both proxies' constructors pass.\<close>

theorem rdma_ends_agree:
  assumes "make_cell env_s (plane_s = WriteCts) placement_s ep_s c_s s = (Inr (), s')" "s_res s' = s_res s @ [(c_s, r_s)]"
    and "make_cell env_r (plane_r = WriteCts) placement_r ep_r c_r t = (Inr (), t')" "s_res t' = s_res t @ [(c_r, r_r)]"
    and "info_s = local_peer_info (placement_s = GpuDirect) (plane_s = WriteCts) ep_s True False r_s"
    and "info_r = local_peer_info (placement_r = GpuDirect) (plane_r = WriteCts) ep_r False True r_r"
    and "accept_s = check_peer_info (plane_s = WriteCts) True False edge info_s info_r"
    and "accept_r = check_peer_info (plane_r = WriteCts) False True edge info_r info_s"
  shows "((placement_s, plane_s) \<noteq> (placement_r, plane_r) \<longrightarrow>
      accept_s = Inl (Runtime_error (''rdma peer data plane or GDR placement mismatch for edge '' @ string_of_nat edge)) \<and>
      accept_r = Inl (Runtime_error (''rdma peer data plane or GDR placement mismatch for edge '' @ string_of_nat edge))) \<and>
    (accept_s = Inr () \<and> accept_r = Inr () \<longrightarrow> placement_s = placement_r \<and> plane_s = plane_r \<and>
     (case plane_s of
        SendRecv \<Rightarrow> cts_table r_s = None \<and> cts_table r_r = None \<and> recv_fifo_addr info_r = 0 \<and> cts_fifo_addr info_s = 0
      | WriteCts \<Rightarrow> remote_fifo_addr (write_targets_for info_r r_s) = unat (data_ptr r_r) \<and>
          remote_fifo_bytes (write_targets_for info_r r_s) = kFifoBytes \<and>
          (\<exists>key. cts_table r_s = Some (remote_cts_addr (cts_remote_for info_s r_r), key)) \<and>
          remote_cts_slots (cts_remote_for info_s r_r) = kFifoSteps \<and>
          validate_write_targets (write_targets_for info_r r_s) = Inr () \<and>
          validate_cts_remote (cts_remote_for info_s r_r) = Inr ()))"
proof -
  note tab = make_cell_table[OF assms(1,2)] make_cell_table[OF assms(3,4)]
  have two: "(a = GpuDirect) = (b = GpuDirect) \<longleftrightarrow> a = b" "(x = WriteCts) = (y = WriteCts) \<longleftrightarrow> x = y" for a b x y
    by (cases a; cases b; simp) (cases x; cases y; simp)
  show ?thesis
  proof (cases "(placement_s, plane_s) = (placement_r, plane_r)")
    case False
    then have "((placement_s = GpuDirect), (plane_s = WriteCts)) \<noteq> ((placement_r = GpuDirect), (plane_r = WriteCts))"
      using two by auto
    from ends_mismatch[OF assms(5,6) this, of edge] show ?thesis using False assms(7,8) by simp
  next
    case True
    then show ?thesis
      using tab assms(5-8) ends_match[of info_s "placement_s = GpuDirect" "plane_s = WriteCts" ep_s r_s info_r ep_r r_r edge]
        local_peer_info_no_cts[of r_s "plane_s = WriteCts"] local_peer_info_fields(5)[of "placement_r = GpuDirect" "plane_r = WriteCts" ep_r False True r_r]
      by (cases plane_s) auto
  qed
qed

definition demo_ep :: rdma_endpoint where
  "demo_ep = \<lparr>ep_context = Some 0, ep_pd = Some 1, port_lid = 7, gid_index = 3, active_mtu = 5, gid = replicate 16 1\<rparr>"

text \<open>A process that owns rank 0 of two, with one channel over RDMA to the other process and one back.\<close>

definition demo_hello :: "int \<Rightarrow> int \<Rightarrow> socket_hello" where
  "demo_hello p q = \<lparr>source_global_rank = p, destination_global_rank = q, hello_channel = 0\<rparr>"

definition demo_rcomm :: comm where
  "demo_rcomm = \<lparr>m_devices = [0], m_topology =
       \<lparr>global_rank_count = 2, local_rank_offset = 0, devices = [0], edge_kinds = [Rdma, Rdma], distributed = True\<rparr>,
     m_transport_plan = [Rdma, Rdma],
     ipc_send = (\<lambda>_. False), ipc_recv = (\<lambda>_. False),
     m_socket_send_resources = [], m_socket_recv_resources = [], m_socket_send_proxies = [], m_socket_recv_proxies = [],
     m_rdma_fds = [demo_hello 1 0, demo_hello 0 1], m_rdma_resources = False, m_rdma_send_proxies = [], m_rdma_recv_proxies = [],
     m_rdma_shared_progress = False, m_socket_errors = None, m_rdma_errors = None, m_rdma_gdr_enabled = False,
     m_fifo = (\<lambda>_. \<lparr>slot_elems = 0, shm_fifo = [], p2p_fifo = False\<rparr>), m_p2p_steps = False,
     m_completion_events = (\<lambda>_. False), m_completion_recorded = (\<lambda>_. False), m_fallback_streams = (\<lambda>_. 0),
     m_fallback_in_flight = (\<lambda>_. False), m_bf16_devices_validated = False, m_control_initialized = False,
     m_has_launch = False, m_has_untracked_launch = False, log = []\<rparr>"

definition demo_env :: setup_env where
  "demo_env = \<lparr>env_use_write = Some ''0'', env_gdr = Some ''0'', env_shared_progress = Some ''1'', env_gid_index = None,
     env_ifname = None, env_ifaddrs = None, env_devices = Inr [demo_hca ''mlx5_0'' True], env_page = 4096,
     env_fifo_addr = (\<lambda>_. 8192), env_fifo_rkey = (\<lambda>_. 11), env_cts = (\<lambda>_. (0, 0)),
     env_qp = (\<lambda>_. demo_answers\<lparr>init_error := None\<rparr>),
     env_device = (\<lambda>_. \<lparr>sync_error = None, dmabuf_handle = (\<lambda>_ _. False), dmabuf_reg = (\<lambda>_ _. False), device_reg_error = None\<rparr>),
     env_reg_error = (\<lambda>_. None), env_cts_error = (\<lambda>_. None), env_scratch_error = (\<lambda>_. None),
     env_flush = (\<lambda>_. \<lparr>native_ordering = Inr 0, owner_ordering = 1, flush_options = Inr 0, host_option = 1, get_device = Inr 0,
       set_device = None, flush_writes = None\<rparr>),
     env_send = (\<lambda>_ _. Inr ()), env_recv = (\<lambda>_. Inr (demo_info 22 3)), env_send_ready = (\<lambda>_. Inr ()), env_recv_ready = (\<lambda>_. Inr 1),
     env_post = (\<lambda>_ _. None), env_post_cts = (\<lambda>_ _. None),
     env_side = (\<lambda>_. \<lparr>slot_data = (\<lambda>_. []), slot_sizes = (\<lambda>_. 0), head = 0, tail = 0, proxy_step = 0, stop_requested = False,
       errors = \<lparr>has_error = False, message = [], device_abort = Some False\<rparr>\<rparr>),
     env_numa = (\<lambda>_. 0)\<rparr>"

definition demo_setup :: setup_state where
  "demo_setup = \<lparr>s_comm = demo_rcomm, s_verbs = \<lparr>live = [], fresh = 0\<rparr>, s_endpoint = None, s_res = [], s_infos = [], s_remote = [],
     s_send_proxies = [], s_recv_proxies = [], s_engine = fresh_engine\<rparr>"

theorem rdma_ends_agree_witness:
  "\<exists>r_s r_r. data_ptr r_r = 8192 \<and>
     remote_fifo_addr (write_targets_for (local_peer_info False True demo_ep False True r_r) r_s) = 8192 \<and> cts_table r_s = Some (500, 12)"
proof -
  let ?e = "demo_env\<lparr>env_cts := \<lambda>_. (500, 12)\<rparr>" and ?c = "\<lambda>b. \<lparr>c_send = b, c_channel = 0, c_edge = 0\<rparr>"
  define r where "r = \<lparr>data_ptr = 8192, fifo_memory = \<lparr>mr = Some 2, mr_addr = 8192, mr_bytes = of_nat kFifoBytes, on_device = False, reg_method = M_none\<rparr>,
     fifo_rkey = 11, cts_table = Some (500, 12),
     res_qp = \<lparr>qp = Some 1, cq_of = Some 0, qp_num = 21, max_inline = 64, qp_state = Qps_init, rtr = None, sq_psn = 0\<rparr>\<rparr>"
  have make: "\<exists>s'. make_cell ?e (WriteCts = WriteCts) HostPin demo_ep (?c b) demo_setup = (Inr (), s') \<and> s_res s' = s_res demo_setup @ [(?c b, r)]" for b
    by (simp add: make_cell_def demo_setup_def demo_env_def demo_answers_def demo_ep_def link_simps on_verbs_def create_init_def allocate_cq_def
        modify_qp_to_init_def on_exception_def allocate_rdma_fifo_def register_rdma_cts_buffer_def r_def)
  obtain s' t' where m: "make_cell ?e (WriteCts = WriteCts) HostPin demo_ep (?c True) demo_setup = (Inr (), s')" "s_res s' = s_res demo_setup @ [(?c True, r)]"
    "make_cell ?e (WriteCts = WriteCts) HostPin demo_ep (?c False) demo_setup = (Inr (), t')" "s_res t' = s_res demo_setup @ [(?c False, r)]"
    using make by metis
  let ?s = "local_peer_info (HostPin = GpuDirect) (WriteCts = WriteCts) demo_ep True False r"
  let ?r = "local_peer_info (HostPin = GpuDirect) (WriteCts = WriteCts) demo_ep False True r"
  have t: "cts_table r = Some (500, 12)" by (simp add: r_def)
  have "check_peer_info (WriteCts = WriteCts) True False 0 ?s ?r = Inr ()" "check_peer_info (WriteCts = WriteCts) False True 0 ?r ?s = Inr ()"
    using local_peer_info_cts[OF t, of False True demo_ep True False]
    by (simp_all add: check_peer_info_def local_peer_info_fields peer_flags_known r_def simple_consts)
  then have "remote_fifo_addr (write_targets_for ?r r) = unat (data_ptr r)"
    using rdma_ends_agree[OF m refl refl refl refl, of 0] by simp
  then show ?thesis using t by (intro exI[of _ r]) (simp add: r_def)
qed

end
