(* ===== verification/Rdma_Ready.thy ===== *)
theory Rdma_Ready
  imports Rdma_Setup
begin

text \<open>
What the RDMA setup leaves behind when it returns without an exception: the proxies of exactly the cells that this
process serves, in the order of its bootstrap connections, every one of them prepared.
\<close>

section \<open>What a successful setup leaves behind\<close>

lemma andthen_ok: "andthen m f s = (Inr b, s') \<longleftrightarrow> (\<exists>a s1. m s = (Inr a, s1) \<and> f a s1 = (Inr b, s'))"
  by (auto simp: andthen_def split: prod.splits sum.splits)

lemma andalso_ok: "andalso m n s = (Inr b, s') \<longleftrightarrow> (\<exists>s1. m s = (Inr (), s1) \<and> n s1 = (Inr b, s'))"
  by (simp add: andalso_def andthen_ok)

lemma step_ok:
  "with_state g s = (Inr b, s') \<longleftrightarrow> g s s = (Inr b, s')" "ret b s = (Inr b', s') \<longleftrightarrow> b' = b \<and> s' = s" "raise e s \<noteq> (Inr b, s')"
  by (auto simp: with_state_def ret_def raise_def)

lemma change_ok: "change h s = (Inr (), s') \<longleftrightarrow> s' = h s"
  by (auto simp: change_def)

lemma lift_ok: "lift r s = (Inr b, s') \<longleftrightarrow> r = Inr b \<and> s' = s"
  by (auto simp: lift_def)

lemmas comp_ok = andthen_ok andalso_ok step_ok change_ok lift_ok

lemma on_verbs_ok: "on_verbs m s = (Inr a, s') \<Longrightarrow> \<exists>v. s' = s\<lparr>s_verbs := v\<rparr>"
  by (auto simp: on_verbs_def split: prod.splits)

lemma make_cell_frame:
  assumes "make_cell env w pl ep c s = (Inr (), s')"
  shows "\<exists>v rs. s' = s\<lparr>s_verbs := v, s_res := rs\<rparr>"
proof -
  have "\<exists>v. s' = s\<lparr>s_verbs := v\<rparr>" if "allocate_rdma_fifo env pl pd c s = (Inr m, s')" for s s' pd m
    using that by (auto simp: allocate_rdma_fifo_def comp_ok split: if_splits prod.splits sum.splits option.splits dest!: on_verbs_ok)
  moreover have "\<exists>v. s' = s\<lparr>s_verbs := v\<rparr>" if "register_rdma_cts_buffer env c s = (Inr m, s')" for s s' m
    using that by (auto simp: register_rdma_cts_buffer_def comp_ok split: option.splits dest!: on_verbs_ok)
  ultimately have "\<exists>v rs. s' = s\<lparr>s_verbs := v, s_res := rs\<rparr>"
    using assms by (fastforce simp: make_cell_def comp_ok split: if_splits dest!: on_verbs_ok)
  then show ?thesis .
qed

lemma make_cells_frame:
  "for_each cs (make_cell env w pl ep) s = (Inr (), s') \<Longrightarrow> \<exists>v rs. s' = s\<lparr>s_verbs := v, s_res := rs\<rparr>"
proof (induction cs arbitrary: s)
  case Nil
  then have "s' = s\<lparr>s_verbs := s_verbs s, s_res := s_res s\<rparr>" by (simp add: ret_def)
  then show ?case by blast
next
  case (Cons c cs)
  then obtain s1 where "make_cell env w pl ep c s = (Inr (), s1)" "for_each cs (make_cell env w pl ep) s1 = (Inr (), s')"
    by (auto simp: comp_ok)
  from make_cell_frame[OF this(1)] Cons.IH[OF this(2)] obtain v rs v' rs'
    where "s1 = s\<lparr>s_verbs := v, s_res := rs\<rparr>" "s' = s1\<lparr>s_verbs := v', s_res := rs'\<rparr>" by blast
  then have "s' = s\<lparr>s_verbs := v', s_res := rs'\<rparr>" by simp
  then show ?case by blast
qed

text \<open>The cells that the bootstrap connections of a process serve, in their order.\<close>

definition served_cells :: "nat \<Rightarrow> nat \<Rightarrow> comm \<Rightarrow> socket_hello list \<Rightarrow> cell list" where
  "served_cells K C st hs = List.map_filter (\<lambda>h. case pending_cell K C st h of Inr oc \<Rightarrow> oc | Inl _ \<Rightarrow> None) hs"

lemma collect_ok:
  "for_each hs (collect_pending K C g w ep) s = (Inr (), s') \<Longrightarrow>
   \<exists>infos. s' = s\<lparr>s_infos := s_infos s @ infos\<rparr> \<and> map fst infos = served_cells K C (s_comm s) hs"
proof (induction hs arbitrary: s)
  case Nil
  then show ?case by (auto simp: ret_def served_cells_def map_filter_simps intro!: exI[of _ "[]"])
next
  case (Cons h hs)
  then obtain s1 where s1: "collect_pending K C g w ep h s = (Inr (), s1)" "for_each hs (collect_pending K C g w ep) s1 = (Inr (), s')"
    by (auto simp: comp_ok)
  from s1(1) obtain oc where oc: "pending_cell K C (s_comm s) h = Inr oc" by (auto simp: collect_pending_def comp_ok)
  show ?case
  proof (cases oc)
    case None
    then have "s1 = s" using s1(1) oc by (auto simp: collect_pending_def comp_ok)
    then show ?thesis using Cons.IH[OF s1(2)] oc None by (simp add: served_cells_def map_filter_simps)
  next
    case (Some c)
    then obtain i where i: "s1 = s\<lparr>s_infos := s_infos s @ [(c, i)]\<rparr>"
      using s1(1) oc by (auto simp: collect_pending_def comp_ok split: option.splits)
    obtain infos where "s' = s1\<lparr>s_infos := s_infos s1 @ infos\<rparr>" "map fst infos = served_cells K C (s_comm s1) hs"
      using Cons.IH[OF s1(2)] by blast
    then show ?thesis using oc Some i
      by (intro exI[of _ "(c, i) # infos"]) (simp add: served_cells_def map_filter_simps)
  qed
qed

lemma sends_ok:
  "for_each (map Snd xs) (\<lambda>x. case x of Snd (c, i) \<Rightarrow> lift (f c i) | Rcv y \<Rightarrow> g y) s = (Inr (), s') \<Longrightarrow> s' = s"
  by (induction xs) (auto simp: comp_ok split: prod.splits)

lemma recvs_ok:
  "for_each (map Rcv xs) (\<lambda>x. case x of Snd y \<Rightarrow> f y
     | Rcv (c, i) \<Rightarrow> andthen (lift (g c)) (\<lambda>m. change (\<lambda>s. s\<lparr>s_remote := s_remote s @ [(c, m)]\<rparr>))) s = (Inr (), s') \<Longrightarrow>
   \<exists>ms. s' = s\<lparr>s_remote := s_remote s @ ms\<rparr> \<and> map fst ms = map fst xs"
proof (induction xs arbitrary: s)
  case Nil
  then show ?case by (intro exI[of _ "[]"]) (simp add: ret_def)
next
  case (Cons x xs)
  obtain c i where x: "x = (c, i)" by fastforce
  with Cons.prems obtain m where m: "for_each (map Rcv xs) (\<lambda>x. case x of Snd y \<Rightarrow> f y
     | Rcv (c, i) \<Rightarrow> andthen (lift (g c)) (\<lambda>m. change (\<lambda>s. s\<lparr>s_remote := s_remote s @ [(c, m)]\<rparr>)))
      (s\<lparr>s_remote := s_remote s @ [(c, m)]\<rparr>) = (Inr (), s')" by (auto simp: comp_ok)
  from Cons.IH[OF m] obtain ms where "s' = s\<lparr>s_remote := s_remote s @ (c, m) # ms\<rparr>" "map fst ms = map fst xs" by auto
  then show ?case by (intro exI[of _ "(c, m) # ms"]) (simp add: x)
qed

lemma for_each_append_ok:
  "for_each (xs @ ys) f s = (Inr (), s') \<longleftrightarrow> (\<exists>s1. for_each xs f s = (Inr (), s1) \<and> for_each ys f s1 = (Inr (), s'))"
  by (induction xs arbitrary: s) (auto simp: comp_ok)

lemma exchange_ok:
  assumes "exchange_peer_infos env s = (Inr (), s')"
  shows "\<exists>ms. s' = s\<lparr>s_remote := s_remote s @ ms\<rparr> \<and> map fst ms = map fst (s_infos s)"
proof -
  let ?act = "\<lambda>x. case x of Snd (c, info) \<Rightarrow> lift (env_send env c info)
       | Rcv (c, _) \<Rightarrow> andthen (lift (env_recv env c)) (\<lambda>remote. change (\<lambda>s. s\<lparr>s_remote := s_remote s @ [(c, remote)]\<rparr>))"
  obtain s1 where s1: "for_each (map Snd (s_infos s)) ?act s = (Inr (), s1)" "for_each (map Rcv (s_infos s)) ?act s1 = (Inr (), s')"
    using assms by (auto simp: exchange_peer_infos_def exchange_program_def comp_ok for_each_append_ok)
  have "s1 = s" using sends_ok[OF s1(1)] .
  then show ?thesis using recvs_ok[OF s1(2)] by simp
qed

text \<open>The state after some cells were connected, as far as it matters here.\<close>

definition connected :: "cell list \<Rightarrow> setup_state \<Rightarrow> setup_state \<Rightarrow> bool" where
  "connected cs s s' \<longleftrightarrow>
     map fst (s_send_proxies s') = map fst (s_send_proxies s) @ filter c_send cs \<and>
     map fst (s_recv_proxies s') = map fst (s_recv_proxies s) @ filter (\<lambda>c. \<not> c_send c) cs \<and>
     m_rdma_send_proxies (s_comm s') = m_rdma_send_proxies (s_comm s) @ map (\<lambda>c. (c_channel c, c_edge c)) (filter c_send cs) \<and>
     m_rdma_recv_proxies (s_comm s') = m_rdma_recv_proxies (s_comm s) @ map (\<lambda>c. (c_channel c, c_edge c)) (filter (\<lambda>c. \<not> c_send c) cs) \<and>
     m_rdma_shared_progress (s_comm s') = m_rdma_shared_progress (s_comm s) \<and> s_engine s' = s_engine s"

lemma connect_cell_ok: "connect_cell K env plane pl ep (c, mine, remote) s = (Inr (), s') \<Longrightarrow> connected [c] s s'"
  by (auto simp: connect_cell_def connected_def comp_ok Let_def split: option.splits if_splits)

lemma connect_cells_ok:
  "for_each items (connect_cell K env plane pl ep) s = (Inr (), s') \<Longrightarrow> connected (map fst items) s s'"
proof (induction items arbitrary: s)
  case Nil
  then show ?case by (simp add: ret_def connected_def)
next
  case (Cons x xs)
  obtain c mine remote where x: "x = (c, mine, remote)" using prod_cases3 .
  with Cons.prems obtain s1 where s1: "connect_cell K env plane pl ep (c, mine, remote) s = (Inr (), s1)"
    "for_each xs (connect_cell K env plane pl ep) s1 = (Inr (), s')" by (auto simp: comp_ok)
  from connect_cell_ok[OF s1(1)] Cons.IH[OF s1(2)] show ?case by (auto simp: connected_def x)
qed

lemma each_recv_ok:
  assumes "each_recv f ps = (Inr (), qs)" "\<And>c t p p'. f c t p = (Inr (), p') \<Longrightarrow> prepared p'"
  shows "map fst qs = map fst ps \<and> (\<forall>x \<in> set qs. prepared (snd (snd x)))"
  using assms(1)
proof (induction ps arbitrary: qs)
  case (Cons x ps)
  obtain c t p where x: "x = (c, t, p)" using prod_cases3 .
  with Cons.prems obtain p' qs' where "f c t p = (Inr (), p')" "each_recv f ps = (Inr (), qs')" "qs = (c, t, p') # qs'"
    by (auto split: prod.splits sum.splits)
  then show ?case using Cons.IH assms(2) x by fastforce
qed simp

lemma each_send_ok:
  assumes "each_send f ps = (Inr (), qs)" "\<And>p p'. f p = (Inr (), p') \<Longrightarrow> prepared p'"
  shows "map fst qs = map fst ps \<and> (\<forall>x \<in> set qs. prepared (snd (snd x)))"
  using assms(1)
proof (induction ps arbitrary: qs)
  case (Cons x ps)
  obtain c t p where x: "x = (c, t, p)" using prod_cases3 .
  with Cons.prems obtain p' qs' where "f p = (Inr (), p')" "each_send f ps = (Inr (), qs')" "qs = (c, t, p') # qs'"
    by (auto split: prod.splits sum.splits)
  then show ?case using Cons.IH assms(2) x by fastforce
qed simp

lemma prepare_ok:
  "prepare_recv fifo plane t rc rc' p = (Inr (), p') \<Longrightarrow> prepared p'" "start_recv fifo plane t rc rc' p = (Inr (), p') \<Longrightarrow> prepared p'"
  "prepare_send q = (Inr (), q') \<Longrightarrow> prepared q'" "start_send q = (Inr (), q') \<Longrightarrow> prepared q'"
  by (auto simp: prepare_recv_def start_recv_def prepare_send_def start_send_def comp_ok split: if_splits)

lemma on_recvs_ok:
  assumes "on_recvs f s = (Inr (), s')" "\<forall>c t p p'. f c t p = (Inr (), p') \<longrightarrow> prepared p'"
  shows "\<exists>ps. s' = s\<lparr>s_recv_proxies := ps\<rparr> \<and> map fst ps = map fst (s_recv_proxies s) \<and> (\<forall>x \<in> set ps. prepared (snd (snd x)))"
proof -
  obtain ps where ps: "each_recv f (s_recv_proxies s) = (Inr (), ps)" "s' = s\<lparr>s_recv_proxies := ps\<rparr>"
    using assms(1) by (auto simp: on_recvs_def split: prod.splits)
  show ?thesis using each_recv_ok[of f "s_recv_proxies s" ps, OF ps(1)] assms(2) ps(2) by blast
qed

lemma on_sends_ok:
  assumes "on_sends f s = (Inr (), s')" "\<forall>p p'. f p = (Inr (), p') \<longrightarrow> prepared p'"
  shows "\<exists>ps. s' = s\<lparr>s_send_proxies := ps\<rparr> \<and> map fst ps = map fst (s_send_proxies s) \<and> (\<forall>x \<in> set ps. prepared (snd (snd x)))"
proof -
  obtain ps where ps: "each_send f (s_send_proxies s) = (Inr (), ps)" "s' = s\<lparr>s_send_proxies := ps\<rparr>"
    using assms(1) by (auto simp: on_sends_def split: prod.splits)
  show ?thesis using each_send_ok[of f "s_send_proxies s" ps, OF ps(1)] assms(2) ps(2) by blast
qed

lemma ready_ok: "exchange_ready_bytes env s = (Inr (), s') \<Longrightarrow> s' = s"
proof -
  have a: "for_each (map Snd xs) (\<lambda>x. case x of Snd c \<Rightarrow> lift (f c) | Rcv c \<Rightarrow> g c) s = (Inr (), s') \<Longrightarrow> s' = s"
    for xs :: "cell list" and f g and s s' :: setup_state by (induction xs) (auto simp: comp_ok)
  have b: "for_each (map Rcv xs) (\<lambda>x. case x of Snd c \<Rightarrow> g c | Rcv c \<Rightarrow> andthen (lift (f c)) (\<lambda>b. lift (h b))) s = (Inr (), s') \<Longrightarrow> s' = s"
    for xs :: "cell list" and f :: "cell \<Rightarrow> byte result" and g h and s s' :: setup_state by (induction xs) (auto simp: comp_ok)
  assume "exchange_ready_bytes env s = (Inr (), s')"
  then obtain s1 where "for_each (map Snd (map fst (s_remote s))) (\<lambda>x. case x of Snd c \<Rightarrow> lift (env_send_ready env c)
      | Rcv c \<Rightarrow> andthen (lift (env_recv_ready env c)) (\<lambda>b. lift (throw_if (b \<noteq> 1) (Runtime_error ''rdma peer did not confirm recv readiness'')))) s = (Inr (), s1)"
    and s1: "for_each (map Rcv (map fst (s_remote s))) (\<lambda>x. case x of Snd c \<Rightarrow> lift (env_send_ready env c)
      | Rcv c \<Rightarrow> andthen (lift (env_recv_ready env c)) (\<lambda>b. lift (throw_if (b \<noteq> 1) (Runtime_error ''rdma peer did not confirm recv readiness'')))) s1 = (Inr (), s')"
    unfolding exchange_ready_bytes_def exchange_program_def comp_ok for_each_append_ok by blast
  then have "s1 = s" using a by blast
  then show "s' = s" using b[OF s1] by simp
qed

lemma adds_ok:
  "for_each xs (\<lambda>(i, c). on_engine (add_recv (Some (i, n c)))) s = (Inr (), s') \<Longrightarrow>
     \<exists>e. s' = s\<lparr>s_engine := e\<rparr> \<and> eng_recvs e = eng_recvs (s_engine s) @ map fst xs \<and> eng_sends e = eng_sends (s_engine s) \<and>
       eng_started e = eng_started (s_engine s)"
  "for_each xs (\<lambda>(i, c). on_engine (add_send (Some (i, n c)))) s = (Inr (), s') \<Longrightarrow>
     \<exists>e. s' = s\<lparr>s_engine := e\<rparr> \<and> eng_sends e = eng_sends (s_engine s) @ map fst xs \<and> eng_recvs e = eng_recvs (s_engine s) \<and>
       eng_started e = eng_started (s_engine s)"
proof (induction xs arbitrary: s)
  case Nil
  { case 1 then show ?case by (intro exI[of _ "s_engine s"]) (simp add: ret_def) }
  { case 2 then show ?case by (intro exI[of _ "s_engine s"]) (simp add: ret_def) }
next
  case (Cons x xs)
  { case 1
    obtain s1 where s1: "on_engine (add_recv (Some (fst x, n (snd x)))) s = (Inr (), s1)"
      "for_each xs (\<lambda>(i, c). on_engine (add_recv (Some (i, n c)))) s1 = (Inr (), s')"
      using 1 by (cases x) (auto simp: comp_ok)
    obtain e where "s' = s1\<lparr>s_engine := e\<rparr>" "eng_recvs e = eng_recvs (s_engine s1) @ map fst xs" "eng_sends e = eng_sends (s_engine s1)"
      "eng_started e = eng_started (s_engine s1)" using Cons.IH(1)[OF s1(2)] by blast
    moreover have "\<exists>e1. s1 = s\<lparr>s_engine := e1\<rparr> \<and> eng_recvs e1 = eng_recvs (s_engine s) @ [fst x] \<and> eng_sends e1 = eng_sends (s_engine s) \<and>
        eng_started e1 = eng_started (s_engine s)"
      using s1(1) by (auto simp: on_engine_def add_recv_def comp_ok split: prod.splits if_splits)
    ultimately show ?case by (intro exI[of _ e]) auto }
  { case 2
    obtain s1 where s1: "on_engine (add_send (Some (fst x, n (snd x)))) s = (Inr (), s1)"
      "for_each xs (\<lambda>(i, c). on_engine (add_send (Some (i, n c)))) s1 = (Inr (), s')"
      using 2 by (cases x) (auto simp: comp_ok)
    obtain e where "s' = s1\<lparr>s_engine := e\<rparr>" "eng_sends e = eng_sends (s_engine s1) @ map fst xs" "eng_recvs e = eng_recvs (s_engine s1)"
      "eng_started e = eng_started (s_engine s1)" using Cons.IH(2)[OF s1(2)] by blast
    moreover have "\<exists>e1. s1 = s\<lparr>s_engine := e1\<rparr> \<and> eng_sends e1 = eng_sends (s_engine s) @ [fst x] \<and> eng_recvs e1 = eng_recvs (s_engine s) \<and>
        eng_started e1 = eng_started (s_engine s)"
      using s1(1) by (auto simp: on_engine_def add_send_def comp_ok split: prod.splits if_splits)
    ultimately show ?case by (intro exI[of _ e]) auto }
qed

text \<open>The proxies after \<open>start_progress\<close>: the same cells, all prepared, and the engine has them all when it is shared.\<close>

definition running :: "bool \<Rightarrow> setup_state \<Rightarrow> setup_state \<Rightarrow> bool" where
  "running shared s s' \<longleftrightarrow>
     map fst (s_recv_proxies s') = map fst (s_recv_proxies s) \<and> (\<forall>x \<in> set (s_recv_proxies s'). prepared (snd (snd x))) \<and>
     map fst (s_send_proxies s') = map fst (s_send_proxies s) \<and> (\<forall>x \<in> set (s_send_proxies s'). prepared (snd (snd x))) \<and>
     s_comm s' = s_comm s \<and>
     eng_recvs (s_engine s') = eng_recvs (s_engine s) @ (if shared then [0..<length (s_recv_proxies s)] else []) \<and>
     eng_sends (s_engine s') = eng_sends (s_engine s) @ (if shared then [0..<length (s_send_proxies s)] else [])"

lemma engine_start_ok:
  "on_engine (engine_start False) s = (Inr (), s') \<Longrightarrow>
   \<exists>e. s' = s\<lparr>s_engine := e\<rparr> \<and> eng_recvs e = eng_recvs (s_engine s) \<and> eng_sends e = eng_sends (s_engine s)"
  by (auto simp: on_engine_def engine_start_def comp_ok split: prod.splits if_splits intro!: exI[of _ "s_engine s'"])

lemma start_progress_ok:
  assumes "start_progress env plane shared s = (Inr (), s')"
  shows "running shared s s'"
proof (cases shared)
  case True
  obtain s1 s2 s3 s4 where
    1: "on_recvs (\<lambda>c t. prepare_recv comm_fifo plane t (env_post env c) (env_post_cts env c)) s = (Inr (), s1)" and
    2: "exchange_ready_bytes env s1 = (Inr (), s2)" and 3: "on_sends prepare_send s2 = (Inr (), s3)" and
    4: "for_each (enumerate 0 (map fst (s_recv_proxies s3))) (\<lambda>(i, c). on_engine (add_recv (Some (i, env_numa env c)))) s3 = (Inr (), s4)" and
    5: "andalso (for_each (enumerate 0 (map fst (s_send_proxies s3))) (\<lambda>(i, c). on_engine (add_send (Some (i, env_numa env c)))))
          (on_engine (engine_start False)) s4 = (Inr (), s')"
    using assms True by (auto simp: start_progress_def comp_ok)
  obtain rs where rs: "s1 = s\<lparr>s_recv_proxies := rs\<rparr>" "map fst rs = map fst (s_recv_proxies s)" "\<forall>x \<in> set rs. prepared (snd (snd x))"
    using on_recvs_ok[OF 1] prepare_ok(1) by blast
  have s2: "s2 = s1" by (rule ready_ok[OF 2])
  obtain ss where ss: "s3 = s2\<lparr>s_send_proxies := ss\<rparr>" "map fst ss = map fst (s_send_proxies s2)" "\<forall>x \<in> set ss. prepared (snd (snd x))"
    using on_sends_ok[OF 3] prepare_ok(3) by blast
  have len: "length rs = length (s_recv_proxies s)" "length ss = length (s_send_proxies s)"
    using rs ss s2 map_eq_imp_length_eq by fastforce+
  obtain e where e: "s4 = s3\<lparr>s_engine := e\<rparr>" "eng_recvs e = eng_recvs (s_engine s3) @ map fst (enumerate 0 (map fst (s_recv_proxies s3)))"
    "eng_sends e = eng_sends (s_engine s3)" using adds_ok(1)[OF 4] by blast
  obtain s5 where 6: "for_each (enumerate 0 (map fst (s_send_proxies s3))) (\<lambda>(i, c). on_engine (add_send (Some (i, env_numa env c)))) s4 = (Inr (), s5)"
    and 7: "on_engine (engine_start False) s5 = (Inr (), s')" using 5 by (auto simp: comp_ok)
  obtain e' where e': "s5 = s4\<lparr>s_engine := e'\<rparr>" "eng_sends e' = eng_sends (s_engine s4) @ map fst (enumerate 0 (map fst (s_send_proxies s3)))"
    "eng_recvs e' = eng_recvs (s_engine s4)" using adds_ok(2)[OF 6] by blast
  obtain e'' where "s' = s5\<lparr>s_engine := e''\<rparr>" "eng_recvs e'' = eng_recvs (s_engine s5)" "eng_sends e'' = eng_sends (s_engine s5)"
    using engine_start_ok[OF 7] by blast
  then show ?thesis using len rs s2 ss e e' True by (simp add: running_def enumerate_eq_zip)
next
  case False
  obtain s1 s2 where
    1: "on_recvs (\<lambda>c t. start_recv comm_fifo plane t (env_post env c) (env_post_cts env c)) s = (Inr (), s1)" and
    2: "exchange_ready_bytes env s1 = (Inr (), s2)" and 3: "on_sends start_send s2 = (Inr (), s')"
    using assms False by (auto simp: start_progress_def comp_ok)
  obtain rs where rs: "s1 = s\<lparr>s_recv_proxies := rs\<rparr>" "map fst rs = map fst (s_recv_proxies s)" "\<forall>x \<in> set rs. prepared (snd (snd x))"
    using on_recvs_ok[OF 1] prepare_ok(2) by blast
  obtain ss where "s' = s2\<lparr>s_send_proxies := ss\<rparr>" "map fst ss = map fst (s_send_proxies s2)" "\<forall>x \<in> set ss. prepared (snd (snd x))"
    using on_sends_ok[OF 3] prepare_ok(4) by blast
  then show ?thesis using rs ready_ok[OF 2] False by (simp add: running_def)
qed


text \<open>C12: Property: when \<open>setup_rdma_transport\<close> of a distributed communicator with an RDMA edge returns, the
  communicator has one proxy for every cell that one of its bootstrap connections serves, and no other:
  the sending cells' proxies and the receiving cells' proxies, each in the order of the connections. Every
  proxy was prepared, and in shared mode the progress engine drives each of them exactly once.
\<close>

theorem setup_rdma_proxies:
  assumes "setup_rdma_transport K C env s = (Inr (), s')"
    and "distributed (m_topology (s_comm s))" "\<exists>edge < K. m_transport_plan (s_comm s) ! edge = Rdma"
    and "s_infos s = []" "s_remote s = []" "s_send_proxies s = []" "s_recv_proxies s = []" "s_engine s = fresh_engine"
  shows "let cells = served_cells K C (s_comm s) (m_rdma_fds (s_comm s)) in
     map fst (s_send_proxies s') = filter c_send cells \<and>
     map fst (s_recv_proxies s') = filter (\<lambda>c. \<not> c_send c) cells \<and>
     (\<forall>x \<in> set (s_send_proxies s'). prepared (snd (snd x))) \<and> (\<forall>x \<in> set (s_recv_proxies s'). prepared (snd (snd x))) \<and>
     (m_rdma_shared_progress (s_comm s') \<longrightarrow>
        eng_sends (s_engine s') = [0..<length (s_send_proxies s')] \<and> eng_recvs (s_engine s') = [0..<length (s_recv_proxies s')])"
proof -
  have some: "list_ex (\<lambda>edge. m_transport_plan (s_comm s) ! edge = Rdma) [0..<K]"
    using assms(3) by (auto simp: list_ex_iff)
  obtain plane placement shared ep s1 s2 s3 s4 s5 where
    "on_verbs (create_from_environment (env_gid_index env) (env_ifname env) (env_ifaddrs env) (env_devices env))
       (s\<lparr>s_comm := (s_comm s)\<lparr>m_rdma_gdr_enabled := (placement = GpuDirect), m_rdma_shared_progress := shared\<rparr>\<rparr>) = (Inr ep, s1)" and
    2: "for_each (rdma_cells K C (s_comm s)) (make_cell env (plane = WriteCts) placement ep)
       (s1\<lparr>s_endpoint := Some ep, s_comm := (s_comm s1)\<lparr>m_rdma_resources := True,
          m_rdma_errors := Some \<lparr>has_error = False, message = [], device_abort = Some False\<rparr>\<rparr>\<rparr>) = (Inr (), s2)" and
    3: "for_each (m_rdma_fds (s_comm s2)) (collect_pending K C (placement = GpuDirect) (plane = WriteCts) ep)
       (s2\<lparr>s_comm := (s_comm s2)\<lparr>m_rdma_fds := []\<rparr>\<rparr>) = (Inr (), s3)" and
    4: "exchange_peer_infos env s3 = (Inr (), s4)" and
    5: "for_each (map2 (\<lambda>(c, mine) (_, remote). (c, mine, remote)) (s_infos s4) (s_remote s4))
       (connect_cell K env plane placement ep) s4 = (Inr (), s5)" and
    6: "start_progress env plane shared s5 = (Inr (), s')"
    using assms(1,2) some by (auto simp: setup_rdma_transport_def comp_ok Let_def)
  then obtain v where s1: "s1 = s\<lparr>s_comm := (s_comm s)\<lparr>m_rdma_gdr_enabled := (placement = GpuDirect), m_rdma_shared_progress := shared\<rparr>, s_verbs := v\<rparr>"
    using on_verbs_ok by fastforce
  obtain v' rs where s2: "s2 = s1\<lparr>s_endpoint := Some ep, s_comm := (s_comm s1)\<lparr>m_rdma_resources := True,
      m_rdma_errors := Some \<lparr>has_error = False, message = [], device_abort = Some False\<rparr>\<rparr>, s_verbs := v', s_res := rs\<rparr>"
    using make_cells_frame[OF 2] by auto
  have served: "served_cells K C (s_comm s2\<lparr>m_rdma_fds := []\<rparr>) hs = served_cells K C (s_comm s) hs" for hs
    by (simp add: s1 s2 served_cells_def pending_cell_def Let_def cong: if_cong)
  obtain infos where s3: "s3 = s2\<lparr>s_comm := (s_comm s2)\<lparr>m_rdma_fds := []\<rparr>, s_infos := infos\<rparr>"
    "map fst infos = served_cells K C (s_comm s) (m_rdma_fds (s_comm s))"
    using collect_ok[OF 3] served assms(4) by (auto simp: s1 s2)
  obtain ms where s4: "s4 = s3\<lparr>s_remote := ms\<rparr>" "map fst ms = map fst infos"
    using exchange_ok[OF 4] assms(5) by (auto simp: s1 s2 s3(1))
  have items: "map fst (map2 (\<lambda>(c, mine) (_, remote). (c, mine, remote)) xs ys) = map fst xs" if "length xs = length ys"
    for xs :: "(cell \<times> peer_info) list" and ys :: "(cell \<times> peer_info) list"
    using that by (induction xs ys rule: list_induct2) auto
  have "length infos = length ms" using s4(2) map_eq_imp_length_eq by metis
  then have conn: "connected (served_cells K C (s_comm s) (m_rdma_fds (s_comm s))) s4 s5"
    using connect_cells_ok[OF 5] items[of infos ms] s4(1) s3 by simp
  have run: "running shared s5 s'" by (rule start_progress_ok[OF 6])
  have "length (s_send_proxies s') = length (s_send_proxies s5)" "length (s_recv_proxies s') = length (s_recv_proxies s5)"
    using run map_eq_imp_length_eq by (fastforce simp: running_def)+
  then show ?thesis using conn run assms(6-8) by (simp add: connected_def running_def Let_def s1 s2 s3(1) s4(1) fresh_engine_def)
qed

lemma recv_posts_return:
  "\<not> elide_zero_payload s \<Longrightarrow> \<exists>w' s'. recv_post_loop n fifo (\<lambda>_. None) w s = (Inr w', s')"
proof (induction n arbitrary: w s)
  case (Suc n)
  let ?next = "posted_recv fifo (snd (pre_post_recv fifo (\<lambda>_. None) s))"
  have "\<not> elide_zero_payload ?next"
    using Suc.prems by (simp add: posted_recv_def pre_post_recv_def link_simps Let_def)
  from Suc.IH[OF this, of True] show ?case using Suc.prems
    by (auto simp: pre_post_recv_def try_elide_zero_payload_def link_simps Let_def)
qed (simp add: ret_def)

definition prepared_recv :: "cts_remote \<Rightarrow> rdma_recv \<Rightarrow> rdma_recv" where
  "prepared_recv t p = snd (prepare_recv comm_fifo SendRecv t (\<lambda>_. None) (\<lambda>_. None) p)"

lemma prepare_recv_returns:
  "\<not> prepared p \<Longrightarrow> \<not> started p \<Longrightarrow> \<not> elide_zero_payload p \<Longrightarrow>
   prepare_recv comm_fifo SendRecv t (\<lambda>_. None) (\<lambda>_. None) p = (Inr (), prepared_recv t p)"
  using recv_posts_return[of p "credit_rounds comm_fifo (next_post p) p" comm_fifo False]
  by (auto simp: prepared_recv_def prepare_recv_def run_recv_posts_def link_simps)

lemma comm_fifo_accepted:
  "rdma_validate_fifo comm_fifo = Inr ()" "max_inflight n comm_fifo = Inr (kFifoSteps div kSliceSteps)"
  by (simp_all add: rdma_validate_fifo_def max_inflight_def comm_fifo_def simple_consts)

lemma demo_setup_returns: "fst (setup_rdma_transport 2 1 demo_env demo_setup) = Inr ()"
  by (simp add: setup_rdma_transport_def demo_setup_def demo_rcomm_def demo_env_def demo_hello_def demo_hca_def demo_answers_def
      demo_info_def demo_rqp_def local_info_def link_simps
      parse_rdma_data_plane_env_def parse_rdma_memory_placement_env_def parse_rdma_shared_progress_env_def parse_gid_index_env_def
      on_verbs_def create_from_environment_def iface_matches_hca_def with_cleanup_def rdma_cells_def make_cell_def create_init_def allocate_cq_def
      modify_qp_to_init_def on_exception_def allocate_rdma_fifo_def is_local_global_rank_def upt_rec numeral_2_eq_2
      collect_pending_def pending_cell_def local_rank_for_global_rank_def rbind_def throw_if_def Let_def local_peer_info_def
      exchange_peer_infos_def exchange_program_def connect_cell_def check_peer_info_def transition_to_rtr_def transition_to_rts_def
      negotiate_path_mtu_def moved_from_def peer_flags_def device_for_global_rank_def gdr_flush_setup_def make_rdma_recv_def make_rdma_send_def
      comm_fifo_accepted fresh_send_def fresh_recv_def start_progress_def on_recvs_def prepare_recv_returns
      exchange_ready_bytes_def on_sends_def prepare_send_def on_engine_def add_recv_def add_send_def
      engine_start_def fresh_engine_def)

theorem setup_rdma_proxies_witness:
  "\<exists>s'. setup_rdma_transport 2 1 demo_env demo_setup = (Inr (), s') \<and>
     map fst (s_send_proxies s') = [\<lparr>c_send = True, c_channel = 0, c_edge = 0\<rparr>]"
proof -
  let ?s' = "snd (setup_rdma_transport 2 1 demo_env demo_setup)"
  have run: "setup_rdma_transport 2 1 demo_env demo_setup = (Inr (), ?s')"
    using demo_setup_returns by (metis prod.collapse)
  have "filter c_send (served_cells 2 1 demo_rcomm (m_rdma_fds demo_rcomm)) = [\<lparr>c_send = True, c_channel = 0, c_edge = 0\<rparr>]"
    by code_simp
  moreover have "\<exists>edge < 2. m_transport_plan demo_rcomm ! edge = Rdma" by (rule exI[of _ 0]) (simp add: demo_rcomm_def)
  ultimately show ?thesis using setup_rdma_proxies[OF run] run
    by (auto simp: demo_setup_def demo_rcomm_def Let_def)
qed

end
