(* ===== verification/Rdma_Cts.thy ===== *)
theory Rdma_Cts
  imports Rdma_Setup
begin

text \<open>
  The plane \<open>WriteCts\<close> at the grain at which its two ends share memory. The receiver's adapter writes
  the CTS record of a slot into the sender's table at any time, also between the post of a data WRITE and
  the store that clears the record (\<open>rdma_proxy.cc\<close>, \<open>progress_write_cts\<close> of the send proxy). The model
  therefore splits a call of the send proxy into its rounds, the clearing store and the poll; the receive
  proxy shares nothing with the sender's adapter and acts in whole calls.
\<close>

section \<open>The edge\<close>

record cts_edge =
  x_snd :: rdma_send
  x_rcv :: rdma_recv
  x_clear :: "nat option"

text \<open>
  Events: the two kernels, the pieces of the proxies with the answers of the verbs, and the adapters. An
  adapter executes the oldest request of its side; a WRITE with immediate also uses up a receive request.
\<close>

datatype cts_event =
    K_send "byte list"
  | K_recv
  | S_round "nat \<Rightarrow> string option"
  | S_clear
  | S_poll "nat option"
  | R_prepare "nat \<Rightarrow> string option" "nat \<Rightarrow> string option"
  | R_progress "string option" "nat \<Rightarrow> string option" "nat \<Rightarrow> string option" "nat option"
  | N_data
  | N_cts

definition imm_wc :: "64 word \<Rightarrow> 32 word \<Rightarrow> wc" where
  "imm_wc i imm = \<lparr>wc_status = None, wc_id = i, wc_len = 0, wc_imm = imm, wc_recv_imm = True, wc_qp_num = 0, wc_vendor_err = 0\<rparr>"

definition nic_write :: "proxy_fifo \<Rightarrow> cts_remote \<Rightarrow> cts_edge \<Rightarrow> cts_edge option" where
  "nic_write fifo remote e =
     (case (sq (x_snd e), rq (x_rcv e)) of
        (w # ws, (i, _) # rs) \<Rightarrow>
          (case wr_op w of
             Op_write_imm imm addr key \<Rightarrow>
               let payload = take (unat (wr_len w)) (slot_data (x_snd e) (wr_slot w));
                   slot = (addr - local_recv_fifo_addr remote) div slot_bytes fifo in
               Some (e\<lparr>x_snd := (x_snd e)\<lparr>sq := ws, cq := cq (x_snd e) @ (if wr_signaled w then [ok_wc (wr_id w) 0] else [])\<rparr>,
                       x_rcv := (x_rcv e)\<lparr>rq := rs, cq := cq (x_rcv e) @ [imm_wc i imm],
                         slot_data := (slot_data (x_rcv e))(slot := payload @ drop (length payload) (slot_data (x_rcv e) slot))\<rparr>\<rparr>)
           | Op_send \<Rightarrow> None)
      | _ \<Rightarrow> None)"

definition nic_cts :: "cts_edge \<Rightarrow> cts_edge option" where
  "nic_cts e =
     (case cts_sq (x_rcv e) of
        c # cs \<Rightarrow>
          Some (e\<lparr>x_snd := (x_snd e)\<lparr>local_cts := (local_cts (x_snd e))(cw_slot c :=
                    (case cw_inline c of Some r \<Rightarrow> r | None \<Rightarrow> shadow (x_rcv e) (cw_slot c)))\<rparr>,
                  x_rcv := (x_rcv e)\<lparr>cts_sq := cs, cq := cq (x_rcv e) @ (if cw_signaled c then [ok_wc (cw_id c) 0] else [])\<rparr>\<rparr>)
      | [] \<Rightarrow> None)"

text \<open>A round ends with the accepted request; what follows it in the source is \<open>S_clear\<close>.\<close>

definition sender_round :: "proxy_fifo \<Rightarrow> proxy_identity \<Rightarrow> write_targets \<Rightarrow> (nat \<Rightarrow> string option) \<Rightarrow> cts_edge \<Rightarrow> cts_edge" where
  "sender_round fifo ident targets rc e =
     (case write_round fifo targets rc (x_snd e) of
        (Inr (Posted slot), s) \<Rightarrow> e\<lparr>x_snd := s, x_clear := Some slot\<rparr>
      | (Inr _, s) \<Rightarrow> e\<lparr>x_snd := s\<rparr>
      | (Inl exc, s) \<Rightarrow> e\<lparr>x_snd := snd (catch_progress ident (raise exc) s)\<rparr>)"

definition sender_poll :: "proxy_fifo \<Rightarrow> proxy_identity \<Rightarrow> nat option \<Rightarrow> rdma_send \<Rightarrow> bool \<times> rdma_send" where
  "sender_poll fifo ident poll =
     catch_progress ident (andthen (poll_cq poll) (\<lambda>wcs.
       andalso (for_each wcs (complete_send fifo ident ''WriteCts '')) (ret (wcs \<noteq> []))))"

fun cts_do :: "proxy_fifo \<Rightarrow> proxy_identity \<Rightarrow> write_targets \<Rightarrow> cts_remote \<Rightarrow> cts_event \<Rightarrow> cts_edge \<Rightarrow> cts_edge option" where
  "cts_do fifo ident targets remote (K_send p) e =
     (if p = [] then None else map_option (\<lambda>s. e\<lparr>x_snd := s\<rparr>) (kernel_send fifo p (x_snd e)))"
| "cts_do fifo ident targets remote K_recv e = map_option (\<lambda>(p, s). e\<lparr>x_rcv := s\<rparr>) (kernel_recv fifo (x_rcv e))"
| "cts_do fifo ident targets remote (S_round rc) e =
     (if x_clear e \<noteq> None \<or> stop_requested (x_snd e) \<or> has_error (errors (x_snd e)) then None
      else Some (sender_round fifo ident targets rc e))"
| "cts_do fifo ident targets remote S_clear e =
     map_option (\<lambda>slot. e\<lparr>x_snd := posted_send fifo (clear_ready slot (x_snd e)), x_clear := None\<rparr>) (x_clear e)"
| "cts_do fifo ident targets remote (S_poll poll) e =
     (if x_clear e \<noteq> None \<or> stop_requested (x_snd e) \<or> has_error (errors (x_snd e)) then None
      else Some (e\<lparr>x_snd := snd (sender_poll fifo ident poll (x_snd e))\<rparr>))"
| "cts_do fifo ident targets remote (R_prepare rc rc') e =
     (case prepare_recv fifo WriteCts remote rc rc' (x_rcv e) of (Inr _, s) \<Rightarrow> Some (e\<lparr>x_rcv := s\<rparr>) | (Inl _, _) \<Rightarrow> None)"
| "cts_do fifo ident targets remote (R_progress flush rc rc' poll) e =
     Some (e\<lparr>x_rcv := snd (progress_recv fifo ident WriteCts remote flush rc rc' poll (x_rcv e))\<rparr>)"
| "cts_do fifo ident targets remote N_data e = nic_write fifo remote e"
| "cts_do fifo ident targets remote N_cts e = nic_cts e"

fun cts_run :: "proxy_fifo \<Rightarrow> proxy_identity \<Rightarrow> write_targets \<Rightarrow> cts_remote \<Rightarrow> cts_event list \<Rightarrow> cts_edge \<Rightarrow> cts_edge option" where
  "cts_run fifo ident targets remote [] e = Some e"
| "cts_run fifo ident targets remote (ev # evs) e =
     (case cts_do fifo ident targets remote ev e of None \<Rightarrow> None | Some e' \<Rightarrow> cts_run fifo ident targets remote evs e')"

section \<open>A lost record\<close>

definition cts_side :: side where
  "cts_side = \<lparr>slot_data = (\<lambda>_. []), slot_sizes = (\<lambda>_. 0), head = 0, tail = 0, proxy_step = 0, stop_requested = False,
     errors = \<lparr>has_error = False, message = [], device_abort = Some False\<rparr>\<rparr>"

definition demo_targets :: write_targets where
  "demo_targets = \<lparr>remote_fifo_addr = 8, remote_fifo_bytes = 32, local_cts_null = False, cts_slot_count = 8\<rparr>"

definition demo_remote :: cts_remote where
  "demo_remote = \<lparr>remote_cts_addr = 16, remote_cts_slots = 8, local_shadow_null = False, local_shadow_mr_null = False,
     local_recv_fifo_addr = 8, local_recv_fifo_rkey = 3, max_inline_data = 64\<rparr>"

definition cts_start :: cts_edge where
  "cts_start = \<lparr>x_snd = (fresh_send cts_side)\<lparr>max_if := 4\<rparr>, x_rcv = (fresh_recv cts_side)\<lparr>max_if := 4\<rparr>, x_clear = None\<rparr>"

lemma cts_start_made:
  "make_rdma_send demo_rfifo False WriteCts demo_targets (fresh_send cts_side) = Inr (x_snd cts_start)"
  "make_rdma_recv demo_rfifo False WriteCts demo_remote False None (fresh_recv cts_side) = Inr (x_rcv cts_start)"
  by (simp_all add: make_rdma_send_def make_rdma_recv_def rdma_validate_fifo_def validate_write_targets_def validate_cts_remote_def
      max_inflight_def demo_rfifo_def demo_targets_def demo_remote_def cts_side_def fresh_send_def fresh_recv_def cts_start_def
      throw_if_def)

text \<open>
  The send proxy is interrupted between the post for step 0 and the store that clears record 0. Before it
  goes on, the slice arrives, is published and consumed, and the record for step 8, which has the same
  slot, is written.
\<close>

definition ok_rc :: "nat \<Rightarrow> string option" where
  "ok_rc _ = None"

definition lost_cts_events :: "cts_event list" where
  "lost_cts_events =
     [R_prepare ok_rc ok_rc, N_cts, K_send [1], S_round ok_rc, N_data, R_progress None ok_rc ok_rc (Some 9), K_recv,
      R_progress None ok_rc ok_rc (Some 9), N_cts, N_cts, N_cts, N_cts, S_clear, S_poll (Some 9), K_send [2], K_send [3],
      K_send [4], K_send [5]]"

section \<open>Nothing repairs it\<close>

text \<open>
  The record of slot 0 is gone for good: no CTS write for the slot is under way, and the next one is for step 16, which waits
  until the slice of step 8 was consumed. \<open>data_wcs\<close> are the slices that arrived and are not yet published.
\<close>

definition data_wcs :: "wc list \<Rightarrow> nat" where
  "data_wcs wcs = length (filter wc_recv_imm wcs)"

definition lost_snd :: "rdma_send \<Rightarrow> bool" where
  "lost_snd s \<longleftrightarrow> ready (local_cts s 0) = 0 \<and> even (next_post s) \<and> list_all (\<lambda>slot. slot_sizes s slot \<noteq> 0) [0, 2, 4, 6] \<and> even (tail s)"

definition lost_rcv :: "rdma_recv \<Rightarrow> bool" where
  "lost_rcv r \<longleftrightarrow> prepared r \<and> 10 \<le> next_cts r \<and> even (next_cts r) \<and> next_cts r \<le> 16 \<and> (\<forall>c \<in> set (cts_sq r). cw_slot c \<noteq> 0) \<and>
     even (tail r) \<and> even (head r) \<and> head r \<le> tail r \<and> tail r \<le> next_complete r \<and> even (next_complete r)"

definition lost_cts :: "cts_edge \<Rightarrow> bool" where
  "lost_cts e \<longleftrightarrow> lost_snd (x_snd e) \<and> lost_rcv (x_rcv e) \<and>
     (case x_clear e of None \<Rightarrow> next_post (x_snd e) \<le> 8 | Some _ \<Rightarrow> next_post (x_snd e) \<le> 6) \<and>
     next_complete (x_rcv e) + 2 * (data_wcs (cq (x_rcv e)) + length (sq (x_snd e)))
       \<le> next_post (x_snd e) + (if x_clear e = None then 0 else 2)"

lemma data_wcs_simps [simp]:
  "data_wcs [] = 0" "data_wcs (w # wcs) = of_bool (wc_recv_imm w) + data_wcs wcs" "data_wcs (ws @ wcs) = data_wcs ws + data_wcs wcs"
  by (simp_all add: data_wcs_def)

lemma lost_tail: "lost_cts e \<Longrightarrow> tail (x_rcv e) \<le> 8"
  by (auto simp: lost_cts_def lost_rcv_def split: option.splits)

subsection \<open>Send proxy\<close>

text \<open>What the sender's completions leave alone.\<close>

definition same_posts :: "rdma_send \<Rightarrow> rdma_send \<Rightarrow> bool" where
  "same_posts s s' \<longleftrightarrow> local_cts s' = local_cts s \<and> next_post s' = next_post s \<and> slot_sizes s' = slot_sizes s \<and> sq s' = sq s \<and> tail s' = tail s"

lemma complete_send_frame: "same_posts s (snd (complete_send fifo ident n w s))"
  by (auto simp: complete_send_def check_wc_def same_posts_def link_simps Let_def split: option.splits)

lemma complete_sends_frame: "same_posts s (snd (for_each ws (complete_send fifo ident n) s))"
proof (induction ws arbitrary: s)
  case (Cons w ws)
  show ?case
    using complete_send_frame[of s fifo ident n w] Cons.IH[of "snd (complete_send fifo ident n w s)"]
    by (auto simp: link_simps same_posts_def split: prod.splits sum.splits)
qed (simp add: link_simps same_posts_def)

lemma sender_poll_frame: "same_posts s (snd (sender_poll fifo ident poll s))"
proof (cases poll)
  case (Some n)
  show ?thesis
    using complete_sends_frame[of "s\<lparr>cq := drop (min n kPollBatch) (cq s)\<rparr>" "take (min n kPollBatch) (cq s)" fifo ident "''WriteCts ''"]
    by (auto simp: sender_poll_def poll_cq_def catch_progress_def link_simps same_posts_def Some split: prod.splits sum.splits)
qed (simp add: sender_poll_def poll_cq_def catch_progress_def link_simps same_posts_def)

lemma even_slot: "even (n::nat) \<Longrightarrow> n mod 8 \<in> {0, 2, 4, 6}"
  by (simp, presburger)

lemma round_lost:
  assumes "slot_count fifo = 8" "step_increment fifo = 2" "lost_cts e" "x_clear e = None"
  shows "lost_cts (sender_round fifo ident targets rc e)"
proof -
  let ?s = "x_snd e"
  have l: "lost_snd ?s" "lost_rcv (x_rcv e)" "next_post ?s \<le> 8"
    and b: "next_complete (x_rcv e) + 2 * (data_wcs (cq (x_rcv e)) + length (sq ?s)) \<le> next_post ?s"
    using assms(3,4) by (auto simp: lost_cts_def)
  have nz: "slot_sizes ?s (next_post ?s mod 8) \<noteq> 0"
    using l(1) even_slot[of "next_post ?s"] by (auto simp: lost_snd_def)
  have post: "next_post ?s \<le> 6" if "ready (local_cts ?s (next_post ?s mod 8)) = 1"
    using that l(1,3) by (cases "next_post ?s = 8") (auto simp: lost_snd_def elim!: evenE)
  show ?thesis
  proof (cases "write_round fifo targets rc ?s")
    case (Pair r s')
    have same: "local_cts s' = local_cts ?s \<and> next_post s' = next_post ?s \<and> slot_sizes s' = slot_sizes ?s \<and> tail s' = tail ?s"
      using Pair nz assms(1) by (auto simp: write_round_def push_send_def link_simps Let_def split: if_splits option.splits)
    have "(case r of Inr (Posted slot) \<Rightarrow> length (sq s') = Suc (length (sq ?s)) \<and> next_post ?s \<le> 6 | _ \<Rightarrow> sq s' = sq ?s)"
      using Pair nz assms(1) post by (auto simp: write_round_def push_send_def link_simps Let_def split: if_splits option.splits)
    then show ?thesis using Pair same l b assms(4)
      by (auto simp: sender_round_def lost_cts_def lost_snd_def catch_progress_def raise_def split: sum.splits post_round.splits)
  qed
qed

lemma clear_lost:
  assumes "step_increment fifo = 2" "lost_cts e" "x_clear e = Some slot"
  shows "lost_cts (e\<lparr>x_snd := posted_send fifo (clear_ready slot (x_snd e)), x_clear := None\<rparr>)"
  using assms by (auto simp: lost_cts_def lost_snd_def posted_send_def clear_ready_def)

lemma poll_lost: "lost_cts e \<Longrightarrow> lost_cts (e\<lparr>x_snd := snd (sender_poll fifo ident poll (x_snd e))\<rparr>)"
  using sender_poll_frame[of "x_snd e" fifo ident poll] by (cases "x_clear e") (simp_all add: lost_cts_def lost_snd_def same_posts_def)

lemma send_lost:
  assumes "slot_count fifo = 8" "step_increment fifo = 2" "slot_bytes fifo < 2 ^ 32" "lost_cts e" "p \<noteq> []" "kernel_send fifo p (x_snd e) = Some s"
  shows "lost_cts (e\<lparr>x_snd := s\<rparr>)"
proof -
  have "(of_nat (length p) :: 32 word) \<noteq> 0"
    using assms(3,5,6) by (auto simp: kernel_send_def word_of_nat_eq_0_iff dest: dvd_imp_le split: if_splits)
  then show ?thesis using assms by (auto simp: kernel_send_def lost_cts_def lost_snd_def Let_def split: if_splits)
qed

subsection \<open>Receive proxy\<close>

text \<open>Slices that arrived, published or not; no operation of the receiver makes one up.\<close>

definition lost_with :: "nat \<Rightarrow> wc list \<Rightarrow> rdma_recv \<Rightarrow> bool" where
  "lost_with n wcs r \<longleftrightarrow> lost_rcv r \<and> next_complete r + 2 * (data_wcs wcs + data_wcs (cq r)) \<le> n"

lemma cts_posts_lost:
  assumes "slot_count fifo = 8" "step_increment fifo = 2" "remote_cts_slots remote = 8" "n \<le> 8"
  shows "lost_with n [] r \<Longrightarrow> lost_with n [] (snd (cts_post_loop k fifo remote rc b r))"
proof (induction k arbitrary: b r)
  case (Suc k)
  show ?case
  proof (cases "max_if r \<le> inflight_cts r \<or> \<not> recv_credit fifo (next_cts r) r")
    case True
    then show ?thesis using Suc.prems by (simp add: link_simps)
  next
    case False
    have "next_cts r \<le> 14" "10 \<le> next_cts r" "even (next_cts r)"
      using False Suc.prems assms by (auto simp: lost_with_def lost_rcv_def recv_credit_def)
    then have nz: "next_cts r mod 8 \<noteq> 0" by presburger
    let ?slot = "next_cts r mod 8"
    let ?r1 = "r\<lparr>shadow := (shadow r)(?slot := cts_record fifo remote (next_cts r))\<rparr>"
    let ?w = "\<lparr>cw_id = make_cts_wr_id (of_nat (next_cts r)), cw_slot = ?slot,
               cw_inline = (if kCtsSlotBytes \<le> max_inline_data remote then Some (cts_record fifo remote (next_cts r)) else None),
               cw_signaled = cts_signal fifo (next_cts r) ?r1\<rparr>"
    let ?r2 = "?r1\<lparr>cts_sq := cts_sq r @ [?w], next_cts := next_cts r + 2, inflight_cts := inflight_cts r + 1\<rparr>"
    have "lost_with n [] ?r1" "lost_with n [] ?r2"
      using Suc.prems nz \<open>next_cts r \<le> 14\<close> by (auto simp: lost_with_def lost_rcv_def)
    then show ?thesis using Suc.IH[of ?r2 True] False assms(2,3)
      by (cases "rc (next_cts r)") (simp_all add: post_cts_def link_simps Let_def)
  qed
qed (simp add: link_simps)

lemma imm_posts_lost: "lost_with n [] r \<Longrightarrow> lost_with n [] (snd (imm_post_loop k fifo rc b r))"
proof (induction k arbitrary: b r)
  case (Suc k)
  let ?r = "posted_recv fifo (r\<lparr>rq := rq r @ [(slot_to_wr_id (next_post r), next_post r mod max_if r)]\<rparr>)"
  have "lost_with n [] ?r" using Suc.prems by (simp add: lost_with_def lost_rcv_def posted_recv_def)
  from Suc.IH[OF this, of True] show ?case using Suc.prems
    by (cases "rc (next_post r)") (auto simp: pre_post_imm_recv_def link_simps Let_def)
qed (simp add: link_simps)

lemma complete_write_lost:
  assumes "step_increment fifo = 2" "lost_with n (w # wcs) r"
  shows "lost_with n wcs (snd (complete_write fifo ident w r))"
  using assms
  by (auto simp: complete_write_def check_wc_def complete_cts_def complete_imm_def publish_recv_def link_simps Let_def
      lost_with_def lost_rcv_def split: option.splits)

lemma complete_writes_lost:
  assumes "step_increment fifo = 2"
  shows "lost_with n wcs r \<Longrightarrow> lost_with n [] (snd (for_each wcs (complete_write fifo ident) r))"
proof (induction wcs arbitrary: r)
  case (Cons w wcs)
  have one: "lost_with n wcs (snd (complete_write fifo ident w r))" by (rule complete_write_lost[OF assms Cons.prems])
  have "lost_with n [] r'" if "lost_with n wcs r'" for r' using that by (simp add: lost_with_def)
  then show ?case using one Cons.IH[OF one]
    by (auto simp: link_simps split: prod.splits sum.splits)
qed (simp add: link_simps)

lemma recv_lost:
  assumes "slot_count fifo = 8" "step_increment fifo = 2" "remote_cts_slots remote = 8" "n \<le> 8" "lost_with n [] r"
  shows "lost_with n [] (snd (progress_recv fifo ident WriteCts remote flush rc rc' poll r))"
proof -
  let ?body = "andthen (run_cts_posts fifo remote rc' False) (\<lambda>did_cts. andthen (run_imm_posts fifo rc did_cts) (\<lambda>did_work.
        andthen (poll_cq poll) (\<lambda>wcs. andalso (run_if (has_data_completion wcs) (gdr_flush flush))
       (andalso (for_each wcs (complete_write fifo ident)) (ret (did_work \<or> wcs \<noteq> []))))))"
  have cts: "preserves (lost_with n []) (run_cts_posts fifo remote rc' b)" for b
    using cts_posts_lost[OF assms(1-4)] by (simp add: preserves_iff run_cts_posts_def with_state_def)
  have imm: "preserves (lost_with n []) (run_imm_posts fifo rc b)" for b
    using imm_posts_lost by (simp add: preserves_iff run_imm_posts_def with_state_def)
  have poll: "lost_with n [] (snd ((andthen (poll_cq poll) (\<lambda>wcs. andalso (run_if (has_data_completion wcs) (gdr_flush flush))
       (andalso (for_each wcs (complete_write fifo ident)) (ret (w \<or> wcs \<noteq> []))))) r'))" if "lost_with n [] r'" for r' w
  proof (cases poll)
    case (Some k)
    let ?r = "r'\<lparr>cq := drop (min k kPollBatch) (cq r')\<rparr>" and ?wcs = "take (min k kPollBatch) (cq r')"
    have "data_wcs ?wcs + data_wcs (drop (min k kPollBatch) (cq r')) = data_wcs (cq r')"
      by (metis append_take_drop_id data_wcs_simps(3))
    then have some: "lost_with n ?wcs ?r" and "lost_with n [] ?r" using that by (auto simp: lost_with_def lost_rcv_def)
    then show ?thesis using complete_writes_lost[OF assms(2) some, of ident]
      by (auto simp: Some poll_cq_def run_if_def gdr_flush_def link_simps split: option.splits prod.splits sum.splits)
  qed (simp add: poll_cq_def link_simps that)
  then have tail: "preserves (lost_with n []) (andthen (poll_cq poll) (\<lambda>wcs. andalso (run_if (has_data_completion wcs) (gdr_flush flush))
       (andalso (for_each wcs (complete_write fifo ident)) (ret (w \<or> wcs \<noteq> [])))))" for w by (simp add: preserves_iff)
  have "preserves (lost_with n []) ?body" by (rule preserves_andthen[OF cts preserves_andthen[OF imm tail]])
  from preserves_run[OF this assms(5)] have "lost_with n [] (snd (?body r))" .
  moreover have "lost_with n [] (snd (catch_progress ident m r))" if "lost_with n [] (snd (m r))" for m
    using that by (auto simp: catch_progress_def lost_with_def lost_rcv_def split: prod.splits sum.splits)
  ultimately show ?thesis using assms(5) by (auto simp: progress_recv_def progress_write_cts_recv_def)
qed

lemma prepare_raises: "prepared r \<Longrightarrow> \<exists>e. prepare_recv fifo WriteCts remote rc rc' r = (Inl e, r)"
  by (simp add: prepare_recv_def link_simps)

subsection \<open>All events\<close>

lemma lost_cts_recv_side:
  assumes "lost_cts e" "lost_with (next_post (x_snd e) + (if x_clear e = None then 0 else 2) - 2 * length (sq (x_snd e))) [] r"
  shows "lost_cts (e\<lparr>x_rcv := r\<rparr>)"
  using assms by (cases "x_clear e") (auto simp: lost_cts_def lost_with_def)

lemma cts_do_lost:
  assumes f: "slot_count fifo = 8" "step_increment fifo = 2" "slot_bytes fifo < 2 ^ 32" "remote_cts_slots remote = 8"
    and "lost_cts e" "cts_do fifo ident targets remote ev e = Some e'"
  shows "lost_cts e'"
proof (cases ev)
  case (K_send p)
  then show ?thesis using assms send_lost[OF f(1-3)] by (auto split: if_splits)
next
  case K_recv
  then obtain p r where r: "kernel_recv fifo (x_rcv e) = Some (p, r)" "e' = e\<lparr>x_rcv := r\<rparr>" using assms by auto
  have "lost_with (next_post (x_snd e) + (if x_clear e = None then 0 else 2) - 2 * length (sq (x_snd e))) [] r"
    using r(1) assms(5) f(2) by (auto simp: kernel_recv_def lost_cts_def lost_rcv_def lost_with_def Let_def split: if_splits elim!: evenE)
  then show ?thesis using r(2) lost_cts_recv_side[OF assms(5)] by simp
next
  case (S_round rc)
  then show ?thesis using assms round_lost[OF f(1,2) assms(5)] by (auto split: if_splits)
next
  case S_clear
  then show ?thesis using assms clear_lost[OF f(2) assms(5)] by auto
next
  case (S_poll poll)
  then show ?thesis using assms poll_lost[OF assms(5)] by (auto split: if_splits)
next
  case (R_prepare rc rc')
  then show ?thesis using assms(5,6) prepare_raises[of "x_rcv e" fifo remote rc rc'] by (auto simp: lost_cts_def lost_rcv_def)
next
  case (R_progress flush rc rc' poll)
  let ?n = "next_post (x_snd e) + (if x_clear e = None then 0 else 2) - 2 * length (sq (x_snd e))"
  have "lost_with ?n [] (x_rcv e)" "?n \<le> 8" using assms(5) by (auto simp: lost_cts_def lost_with_def split: option.splits)
  then show ?thesis using R_progress assms(6) lost_cts_recv_side[OF assms(5) recv_lost[OF f(1,2,4)]] by auto
next
  case N_data
  then show ?thesis using assms(5,6)
    by (cases "x_clear e") (auto simp: nic_write_def lost_cts_def lost_snd_def lost_rcv_def imm_wc_def Let_def split: list.splits wr_op.splits)
next
  case N_cts
  then show ?thesis using assms(5,6)
    by (cases "x_clear e") (auto simp: nic_cts_def lost_cts_def lost_snd_def lost_rcv_def ok_wc_def split: list.splits)
qed

lemma cts_run_lost:
  assumes f: "slot_count fifo = 8" "step_increment fifo = 2" "slot_bytes fifo < 2 ^ 32" "remote_cts_slots remote = 8"
  shows "lost_cts e \<Longrightarrow> cts_run fifo ident targets remote evs e = Some e' \<Longrightarrow> lost_cts e'"
proof (induction evs arbitrary: e)
  case (Cons ev evs)
  then obtain e1 where "cts_do fifo ident targets remote ev e = Some e1" "cts_run fifo ident targets remote evs e1 = Some e'"
    by (auto split: option.splits)
  then show ?case using Cons.IH cts_do_lost[OF f Cons.prems(1)] by blast
qed simp

lemma lost_run:
  "case cts_run demo_rfifo demo_rident demo_targets demo_remote lost_cts_events cts_start of None \<Rightarrow> False
   | Some e \<Rightarrow> lost_cts e \<and> \<not> has_error (errors (x_snd e)) \<and> \<not> has_error (errors (x_rcv e)) \<and> tail (x_snd e) = 10"
  by code_simp

section \<open>The events are the code's\<close>

text \<open>
  A call of the send proxy is a sequence of these events with nothing in between: its rounds, each followed by the
  clearing store when it posted, and its poll. So the events only add the interleavings that the hardware allows.
\<close>

lemma round_event:
  assumes "write_round fifo targets rc s = (Inr r, s1)" "x_clear e = None" "\<not> stop_requested s" "\<not> has_error (errors s)"
  shows "cts_do fifo ident targets remote (S_round rc) (e\<lparr>x_snd := s\<rparr>) =
      Some (case r of Posted slot \<Rightarrow> e\<lparr>x_snd := s1, x_clear := Some slot\<rparr> | _ \<Rightarrow> e\<lparr>x_snd := s1\<rparr>)"
    and "stop_requested s1 = stop_requested s \<and> errors s1 = errors s"
  using assms
  by (auto simp: sender_round_def split: post_round.splits)
     (auto simp: write_round_def push_send_def elide_send_def link_simps Let_def split: if_splits option.splits)

lemma post_loop_events:
  assumes "x_clear e = None"
  shows "write_post_loop n fifo targets rc b s = (Inr b', s') \<Longrightarrow> \<not> stop_requested s \<Longrightarrow> \<not> has_error (errors s) \<Longrightarrow>
    \<exists>evs. cts_run fifo ident targets remote evs (e\<lparr>x_snd := s\<rparr>) = Some (e\<lparr>x_snd := s'\<rparr>) \<and>
      \<not> stop_requested s' \<and> \<not> has_error (errors s')"
proof (induction n arbitrary: b s)
  case 0
  then show ?case by (intro exI[of _ "[]"]) (simp add: ret_def)
next
  case (Suc n)
  obtain r s1 where r: "write_round fifo targets rc s = (Inr r, s1)"
    using Suc.prems(1) by (auto simp: andthen_def split: prod.splits sum.splits)
  note ev = round_event(1)[OF r assms Suc.prems(2,3), of ident remote] round_event(2)[OF r assms Suc.prems(2,3)]
  show ?case
  proof (cases r)
    case Stop_posting
    then have "s' = s1" using r Suc.prems(1) by (simp add: link_simps)
    then show ?thesis using ev Suc.prems(2,3) Stop_posting by (intro exI[of _ "[S_round rc]"]) simp
  next
    case Elided
    then have "write_post_loop n fifo targets rc True s1 = (Inr b', s')" using r Suc.prems(1) by (simp add: link_simps)
    from Suc.IH[OF this] ev(2) Suc.prems(2,3) obtain evs where
      "cts_run fifo ident targets remote evs (e\<lparr>x_snd := s1\<rparr>) = Some (e\<lparr>x_snd := s'\<rparr>) \<and> \<not> stop_requested s' \<and> \<not> has_error (errors s')"
      by auto
    then show ?thesis using ev Elided by (intro exI[of _ "S_round rc # evs"]) simp
  next
    case (Posted slot)
    let ?s2 = "posted_send fifo (clear_ready slot s1)"
    have "write_post_loop n fifo targets rc True ?s2 = (Inr b', s')" using r Posted Suc.prems(1) by (simp add: link_simps)
    from Suc.IH[OF this] ev(2) Suc.prems(2,3) obtain evs where
      "cts_run fifo ident targets remote evs (e\<lparr>x_snd := ?s2\<rparr>) = Some (e\<lparr>x_snd := s'\<rparr>) \<and> \<not> stop_requested s' \<and> \<not> has_error (errors s')"
      by (auto simp: posted_send_def clear_ready_def)
    moreover have "e\<lparr>x_snd := ?s2, x_clear := None\<rparr> = e\<lparr>x_snd := ?s2\<rparr>" using assms by simp
    ultimately show ?thesis using ev Posted by (intro exI[of _ "S_round rc # S_clear # evs"]) simp
  qed
qed

text \<open>C17: Property: the plane \<open>WriteCts\<close> can lose a clear-to-send record for good. The send proxy posts the WRITE of a slice and
  only then clears the record of its slot; when the slice's round trip is faster, the store erases the record of
  the slot's next use. From then on, whatever both ends and the adapters do, the slices after the fourth are never published to the
  receiving kernel, although no failure was recorded and the sending kernel has put a fifth slice into its FIFO.
\<close>

theorem cts_record_lost:
  "\<exists>e. cts_run demo_rfifo demo_rident demo_targets demo_remote lost_cts_events cts_start = Some e \<and>
     \<not> has_error (errors (x_snd e)) \<and> \<not> has_error (errors (x_rcv e)) \<and> tail (x_snd e) = 10 \<and>
     (\<forall>evs e'. cts_run demo_rfifo demo_rident demo_targets demo_remote evs e = Some e' \<longrightarrow> tail (x_rcv e') \<le> 8)"
proof -
  obtain e where e: "cts_run demo_rfifo demo_rident demo_targets demo_remote lost_cts_events cts_start = Some e" "lost_cts e"
    "\<not> has_error (errors (x_snd e))" "\<not> has_error (errors (x_rcv e))" "tail (x_snd e) = 10"
    using lost_run by (auto split: option.splits)
  have "tail (x_rcv e') \<le> 8" if "cts_run demo_rfifo demo_rident demo_targets demo_remote evs e = Some e'" for evs e'
    using lost_tail[OF cts_run_lost[OF _ _ _ _ e(2) that]] by (simp add: demo_rfifo_def demo_remote_def)
  with e show ?thesis by blast
qed

theorem cts_record_lost_witness:
  "\<exists>e. cts_run demo_rfifo demo_rident demo_targets demo_remote lost_cts_events cts_start = Some e \<and> tail (x_snd e) = 10 \<and> tail (x_rcv e) \<le> 8"
  using cts_record_lost by (metis cts_run.simps(1))

end
