(* ===== verification/Mpi_Exchange.thy ===== *)
theory Mpi_Exchange
  imports Bootstrap Comp_Logic
begin

text \<open>
  What the exchanges of shared memory regions (\<open>transport/shm/mpi_shm.cc\<close>) and of CUDA IPC handles
  (\<open>transport/p2p/mpi_p2p.cc\<close>) have in common: the consensus over a failure, the names of POSIX shared memory objects and
  the view of a region that a kernel gets. As in \<open>Bootstrap\<close>, every function is written for one rank, and a collective takes
  what all ranks contribute.
\<close>

section \<open>MPI\<close>

record ('u, 'a) exchange_world = "('u, 'a) mpi_world" +
  mpi_barrier :: "string \<Rightarrow> nat \<Rightarrow> string option"

definition barrier_check :: "('u, 'a) exchange_world \<Rightarrow> string \<Rightarrow> nat \<Rightarrow> unit result" where
  "barrier_check w op rank = mpi_check op (case mpi_barrier w op rank of Some e \<Rightarrow> Inl e | None \<Rightarrow> Inr ())"

definition exchange_laws :: "('u, 'a) exchange_world \<Rightarrow> bool" where
  "exchange_laws w \<longleftrightarrow>
     (\<forall>op r xs. xs \<noteq> [] \<longrightarrow> allreduce_min w op r xs = Inr (Min (set xs))) \<and>
     (\<forall>op r xs. allgather_text w op r xs = Inr xs) \<and> (\<forall>op r xs. allgather_int w op r xs = Inr xs) \<and>
     (\<forall>op r xs. allgather_addr w op r xs = Inr xs) \<and> (\<forall>op r. mpi_barrier w op r = None)"

definition ideal_exchange :: "('u, 'a) exchange_world" where
  "ideal_exchange = \<lparr>allreduce_min = (\<lambda>op r xs. Inr (Min (set xs))), allgather_text = (\<lambda>op r xs. Inr xs),
     allgather_uuid = (\<lambda>op r xs. Inr xs), allgather_int = (\<lambda>op r xs. Inr xs), allgather_addr = (\<lambda>op r xs. Inr xs),
     split_shared = (\<lambda>op r. Inr []), bcast_root = (\<lambda>op r xs. Inr (hd xs)), comm_free = (\<lambda>op r. None),
     mpi_barrier = (\<lambda>op r. None)\<rparr>"

lemma ideal_exchange_laws: "exchange_laws ideal_exchange"
  by (simp add: exchange_laws_def ideal_exchange_def)

text \<open>\<open>snprintf\<close> into the error buffer of 512 and the name buffer of 128 characters.\<close>

definition text512 :: "string \<Rightarrow> string" where "text512 s = take 511 s"
definition text128 :: "string \<Rightarrow> string" where "text128 s = take 127 s"

definition gather_first_error :: "('u, 'a) exchange_world \<Rightarrow> string \<Rightarrow> string \<Rightarrow> nat \<Rightarrow> string list \<Rightarrow> string result" where
  "gather_first_error w op unknown rank errs =
     rbind (mpi_check op (allgather_text w op rank errs)) (\<lambda>texts.
       Inr (case first_text texts of Some e \<Rightarrow> e | None \<Rightarrow> unknown))"

text \<open>
  One consensus: the ranks reduce their flags, and when one of them failed, all throw with the text of the
  first rank that has one.
\<close>

definition agree_or_throw ::
    "('u, 'a) exchange_world \<Rightarrow> string \<Rightarrow> string \<Rightarrow> string \<Rightarrow> string \<Rightarrow> nat \<Rightarrow> int list \<Rightarrow> string list \<Rightarrow> ('s, unit) comp" where
  "agree_or_throw w reduce_op gather_op unknown prefix rank flags errs =
     andthen (lift (mpi_check reduce_op (allreduce_min w reduce_op rank flags))) (\<lambda>all_ok.
       run_if (all_ok = 0) (andthen (lift (gather_first_error w gather_op unknown rank errs))
         (\<lambda>e. raise (Runtime_error (prefix @ e)))))"

text \<open>What all ranks throw when one of the flags is down.\<close>

definition agreed_text :: "string \<Rightarrow> string \<Rightarrow> string list \<Rightarrow> string" where
  "agreed_text unknown prefix errs = prefix @ (case first_text errs of Some e \<Rightarrow> e | None \<Rightarrow> unknown)"

lemma agree_or_throw_eq:
  assumes "exchange_laws w" "0 < K" "\<And>r. r < K \<Longrightarrow> f r = 0 \<or> f r = (1 :: int)"
  shows "agree_or_throw w op op' unknown prefix rank (map f [0..<K]) errs s =
    (if \<forall>r<K. f r = 1 then (Inr (), s) else (Inl (Runtime_error (agreed_text unknown prefix errs)), s))"
proof -
  have "allreduce_min w op rank (map f [0..<K]) = Inr (Min (set (map f [0..<K])))"
    using assms(1,2) by (simp add: exchange_laws_def)
  moreover have "allgather_text w op' rank errs = Inr errs" using assms(1) by (simp add: exchange_laws_def)
  moreover have "Min (set (map f [0..<K])) = 0 \<longleftrightarrow> \<not> (\<forall>r<K. f r = 1)" using Min_flags(1)[of K f, OF assms(2,3)] by blast
  ultimately show ?thesis
    by (auto simp: agree_or_throw_def andthen_def lift_def run_if_def ret_def raise_def gather_first_error_def agreed_text_def rbind_def
        simp del: set_map)
qed

section \<open>Names\<close>

definition object_name :: "string \<Rightarrow> int \<Rightarrow> nat \<Rightarrow> 64 word \<Rightarrow> string" where
  "object_name prefix pid rank seq =
     prefix @ string_of_int pid @ ''_'' @ string_of_nat rank @ ''_'' @ string_of_nat (unat seq)"

lemma decimal_no_underscore: "CHR ''_'' \<notin> set (string_of_nat n)" "CHR ''_'' \<notin> set (string_of_int i)"
proof -
  show n: "CHR ''_'' \<notin> set (string_of_nat n)" for n
    using digits_string_of_nat[of n] by (auto simp: list_all_iff is_digit_def)
  show "CHR ''_'' \<notin> set (string_of_int i)" using n by (simp add: string_of_int_def)
qed

lemma string_of_nat_inject: "string_of_nat m = string_of_nat n \<longleftrightarrow> m = n"
  using digits_string_of_nat by metis

lemma string_of_int_inject: "string_of_int i = string_of_int j \<longleftrightarrow> i = j"
proof -
  have "CHR ''-'' \<notin> set (string_of_nat n)" for n
    using digits_string_of_nat[of n] by (auto simp: list_all_iff is_digit_def)
  then show ?thesis by (auto simp: string_of_int_def string_of_nat_inject split: if_splits) (metis list.set_intros(1))+
qed

lemma split_at_underscore:
  assumes "CHR ''_'' \<notin> set a" "CHR ''_'' \<notin> set a'"
  shows "a @ CHR ''_'' # b = a' @ CHR ''_'' # b' \<longleftrightarrow> a = a' \<and> b = b'"
  using assms by (auto simp: append_eq_append_conv2 append_eq_Cons_conv Cons_eq_append_conv)

text \<open>Two objects have the same name only if they were made by the same process for the same rank and call.\<close>

lemma object_name_inject:
  "object_name prefix p r n = object_name prefix p' r' n' \<longleftrightarrow> p = p' \<and> r = r' \<and> n = n'"
  by (simp add: object_name_def split_at_underscore decimal_no_underscore string_of_nat_inject string_of_int_inject
      word_unat_eq_iff)

lemma length_string_of_nat: "n < 10 ^ k \<Longrightarrow> 0 < k \<Longrightarrow> length (string_of_nat n) \<le> k"
proof (induction k arbitrary: n)
  case (Suc k)
  then show ?case
  proof (cases "n < 10")
    case False
    then have "k \<noteq> 0" using Suc.prems by (cases k) auto
    moreover have "n div 10 < 10 ^ k" using Suc.prems by (simp add: less_mult_imp_div_less mult.commute)
    ultimately have "length (string_of_nat (n div 10)) \<le> k" using Suc.IH by blast
    then show ?thesis using False by (simp add: string_of_nat.simps[of n])
  qed (simp add: string_of_nat.simps[of n])
qed simp

text \<open>A process number of 31 bits and a rank of 31 bits leave room in the buffer of 128 characters.\<close>

lemma object_name_fits:
  assumes "0 \<le> pid" "pid < 2 ^ 31" "rank < 2 ^ 31" "length prefix \<le> 20"
  shows "text128 (object_name prefix pid rank seq) = object_name prefix pid rank seq"
proof -
  have "length (string_of_int pid) \<le> 10" "length (string_of_nat rank) \<le> 10"
    using assms by (auto simp: string_of_int_def intro!: length_string_of_nat)
  moreover have "length (string_of_nat (unat seq)) \<le> 20"
    using unsigned_less[where 'a=nat, of seq] by (intro length_string_of_nat) auto
  ultimately show ?thesis using assms(4) by (simp add: object_name_def text128_def)
qed

section \<open>The ring\<close>

definition incoming_edge :: "nat \<Rightarrow> nat \<Rightarrow> nat" where
  "incoming_edge K rank = (rank + K - 1) mod K"

lemma incoming_edge_next: "r < K \<Longrightarrow> incoming_edge K ((r + 1) mod K) = r"
  by (cases "r + 1 = K") (auto simp: incoming_edge_def mod_if)

section \<open>The view of a region\<close>

text \<open>What a kernel gets of an incoming and an outgoing region, each an address on the device if there is one.\<close>

definition region_view :: "nat \<Rightarrow> nat option \<Rightarrow> nat option \<Rightarrow> 'o \<Rightarrow> (nat, 'o) connection_resources" where
  "region_view C incoming outgoing owner =
     \<lparr>v_send_fifo = (\<lambda>ch. if ch < C then map_option (\<lambda>p. connection_fifo C p ch) outgoing else None),
      v_recv_fifo = (\<lambda>ch. if ch < C then map_option (\<lambda>p. connection_fifo C p ch) incoming else None),
      v_send_head = (\<lambda>ch. if ch < C then map_option (\<lambda>p. connection_head p ch) outgoing else None),
      v_send_tail = (\<lambda>ch. if ch < C then map_option (\<lambda>p. connection_tail C p ch) outgoing else None),
      v_recv_head = (\<lambda>ch. if ch < C then map_option (\<lambda>p. connection_head p ch) incoming else None),
      v_recv_tail = (\<lambda>ch. if ch < C then map_option (\<lambda>p. connection_tail C p ch) incoming else None),
      owners = [owner]\<rparr>"

end
