(* ===== verification/Mpi_Shm.thy ===== *)
theory Mpi_Shm
  imports Mpi_Exchange "HOL-Library.Multiset"
begin

text \<open>
  Shared memory edges between processes: \<open>transport/shm/mpi_shm.cc\<close>. The receiver of an edge makes a region, the sender
  maps it, both register it with CUDA. The state of a process holds what the system and the driver keep for it
  (\<open>held\<close>) beside the owner object that has to give it back. What the calls answer is the argument \<open>shm_env\<close>; the calls of
  a clean-up are taken to succeed, a failing one is only reported by the code.
\<close>

section \<open>Data\<close>

datatype shm_res = Res_name string | Res_fd nat | Res_map nat | Res_reg nat

record mapping =
  m_ptr :: nat
  m_fd :: nat
  m_registered :: bool
  m_region :: string

record shm_proc =
  held :: "shm_res list"
  region_seq :: "64 word"
  o_name :: string
  o_maps :: "mapping list"

text \<open>\<open>create_open\<close> answers for a number of the sequence; its error says whether the name was taken.\<close>

record shm_env =
  pid :: int
  create_open :: "64 word \<Rightarrow> (string \<times> bool) + nat"
  truncate_error :: "string option"
  mmap_in :: "string + nat"
  peer_open :: "string \<Rightarrow> string + nat"
  mmap_out :: "string + nat"
  shm_set_device :: "string option"
  host_register :: "nat \<Rightarrow> string option"
  host_device_ptr :: "nat \<Rightarrow> string + nat"

definition hold :: "shm_res \<Rightarrow> (shm_proc, unit) comp" where
  "hold x = change (\<lambda>s. s\<lparr>held := x # held s\<rparr>)"

definition release :: "shm_res \<Rightarrow> shm_proc \<Rightarrow> shm_proc" where
  "release x s = s\<lparr>held := remove1 x (held s)\<rparr>"

definition cuda_throw :: "string option \<Rightarrow> ('s, unit) comp" where
  "cuda_throw status = (case status of None \<Rightarrow> ret () | Some e \<Rightarrow> raise (Runtime_error (''CUDA error: '' @ e)))"

section \<open>The owner\<close>

definition add_mapping :: "nat \<Rightarrow> nat \<Rightarrow> string \<Rightarrow> (shm_proc, unit) comp" where
  "add_mapping pointer fd region =
     change (\<lambda>s. s\<lparr>o_maps := o_maps s @ [\<lparr>m_ptr = pointer, m_fd = fd, m_registered = False, m_region = region\<rparr>]\<rparr>)"

fun mark_first :: "nat \<Rightarrow> mapping list \<Rightarrow> mapping list option" where
  "mark_first pointer [] = None"
| "mark_first pointer (m # ms) =
     (if m_ptr m = pointer then Some (m\<lparr>m_registered := True\<rparr> # ms) else map_option ((#) m) (mark_first pointer ms))"

definition mark_registered :: "nat \<Rightarrow> (shm_proc, unit) comp" where
  "mark_registered pointer =
     with_state (\<lambda>s. case mark_first pointer (o_maps s) of
        None \<Rightarrow> raise (Logic_error ''SHM registration does not belong to this owner'')
      | Some ms \<Rightarrow> change (\<lambda>s. s\<lparr>o_maps := ms\<rparr>))"

definition unlink_region :: "shm_proc \<Rightarrow> shm_proc" where
  "unlink_region s = (if o_name s = [] then s else (release (Res_name (o_name s)) s)\<lparr>o_name := []\<rparr>)"

definition drop_mapping :: "mapping \<Rightarrow> shm_proc \<Rightarrow> shm_proc" where
  "drop_mapping m s =
     release (Res_fd (m_fd m)) (release (Res_map (m_ptr m)) (if m_registered m then release (Res_reg (m_ptr m)) s else s))"

text \<open>The destructor.\<close>

definition destroy_owner :: "shm_proc \<Rightarrow> shm_proc" where
  "destroy_owner s = (fold drop_mapping (rev (o_maps s)) (unlink_region s))\<lparr>o_maps := []\<rparr>"

section \<open>Regions\<close>

definition region_name :: "int \<Rightarrow> nat \<Rightarrow> 64 word \<Rightarrow> string" where
  "region_name = object_name ''/nano_nccl_''"

fun region_attempts :: "nat \<Rightarrow> shm_env \<Rightarrow> nat \<Rightarrow> (shm_proc, string \<times> nat) comp" where
  "region_attempts 0 env rank = raise (Runtime_error ''could not allocate a unique SHM region name'')"
| "region_attempts (Suc n) env rank =
     with_state (\<lambda>s.
       let name = region_name (pid env) rank (region_seq s) in
       andalso (change (\<lambda>s. s\<lparr>region_seq := region_seq s + 1\<rparr>))
         (case create_open env (region_seq s) of
            Inr fd \<Rightarrow> andalso (hold (Res_name name)) (andalso (hold (Res_fd fd)) (ret (name, fd)))
          | Inl (err, exists) \<Rightarrow>
              if exists then region_attempts n env rank else raise (Runtime_error (''shm_open(create): '' @ err))))"

definition create_region_name :: "shm_env \<Rightarrow> nat \<Rightarrow> (shm_proc, string \<times> nat) comp" where
  "create_region_name = region_attempts 32"

definition map_region :: "string + nat \<Rightarrow> (shm_proc, nat) comp" where
  "map_region answer =
     (case answer of
        Inl err \<Rightarrow> raise (Runtime_error (''mmap(SHM): '' @ err))
      | Inr pointer \<Rightarrow> andalso (hold (Res_map pointer)) (ret pointer))"

text \<open>\<open>map_region\<close> into the owner; the descriptor is closed when it throws.\<close>

definition map_into_owner :: "string + nat \<Rightarrow> nat \<Rightarrow> string \<Rightarrow> (shm_proc, nat) comp" where
  "map_into_owner answer fd region =
     on_exception (andthen (map_region answer) (\<lambda>pointer. andalso (add_mapping pointer fd region) (ret pointer)))
       (release (Res_fd fd))"

definition create_incoming :: "shm_env \<Rightarrow> nat \<Rightarrow> (shm_proc, string \<times> nat) comp" where
  "create_incoming env rank =
     andthen (create_region_name env rank) (\<lambda>(name, fd).
     andalso (change (\<lambda>s. s\<lparr>o_name := name\<rparr>))
       (case truncate_error env of
          Some err \<Rightarrow> andalso (change (release (Res_fd fd))) (raise (Runtime_error (''ftruncate(SHM): '' @ err)))
        | None \<Rightarrow> andthen (map_into_owner (mmap_in env) fd name) (\<lambda>pointer. ret (name, pointer))))"

definition open_outgoing :: "nat \<Rightarrow> shm_env \<Rightarrow> nat \<Rightarrow> string list \<Rightarrow> (shm_proc, nat) comp" where
  "open_outgoing K env rank names =
     (let name = names ! ((rank + 1) mod K) in
      if name = [] then raise (Runtime_error ''SHM receiver did not publish its Ring region'')
      else case peer_open env name of
        Inl err \<Rightarrow> raise (Runtime_error (''shm_open(peer): '' @ err))
      | Inr fd \<Rightarrow> andalso (hold (Res_fd fd)) (map_into_owner (mmap_out env) fd name))"

definition register_pointer :: "shm_env \<Rightarrow> nat \<Rightarrow> (shm_proc, unit) comp" where
  "register_pointer env pointer =
     andalso (cuda_throw (host_register env pointer)) (andalso (hold (Res_reg pointer)) (mark_registered pointer))"

definition device_pointer :: "shm_env \<Rightarrow> nat option \<Rightarrow> (shm_proc, nat option) comp" where
  "device_pointer env pointer =
     (case pointer of
        None \<Rightarrow> ret None
      | Some p \<Rightarrow> (case host_device_ptr env p of
                     Inl e \<Rightarrow> raise (Runtime_error (''CUDA error: '' @ e))
                   | Inr d \<Rightarrow> ret (Some d)))"

section \<open>The exchange\<close>

record shm_local =
  l_ok :: int
  l_name :: string
  l_error :: string
  l_host :: "nat option"

definition shm_creation :: "nat \<Rightarrow> TransportKind list \<Rightarrow> shm_env \<Rightarrow> nat \<Rightarrow> (shm_proc, shm_local) comp" where
  "shm_creation K kinds env rank s =
     (if kinds ! incoming_edge K rank \<noteq> Shm then (Inr \<lparr>l_ok = 1, l_name = [], l_error = [], l_host = None\<rparr>, s)
      else case create_incoming env rank s of
        (Inr (name, pointer), s') \<Rightarrow> (Inr \<lparr>l_ok = 1, l_name = text128 name, l_error = [], l_host = Some pointer\<rparr>, s')
      | (Inl e, s') \<Rightarrow>
          (Inr \<lparr>l_ok = 0, l_name = [], l_error = text512 (''SHM incoming edge '' @ string_of_nat (incoming_edge K rank) @
             ''->'' @ string_of_nat rank @ '' creation failed at global rank '' @ string_of_nat rank @ '': '' @ what e), l_host = None\<rparr>, s'))"

definition map_and_register ::
    "nat \<Rightarrow> TransportKind list \<Rightarrow> shm_env \<Rightarrow> nat \<Rightarrow> string list \<Rightarrow> nat option \<Rightarrow> (shm_proc, nat option \<times> nat option) comp" where
  "map_and_register K kinds env rank names incoming =
     andthen (if kinds ! rank = Shm then andthen (open_outgoing K env rank names) (\<lambda>p. ret (Some p)) else ret None) (\<lambda>outgoing.
     andalso (cuda_throw (shm_set_device env))
    (andalso (for_each (List.map_filter id [incoming, outgoing]) (register_pointer env))
    (andthen (device_pointer env incoming) (\<lambda>incoming_device.
     andthen (device_pointer env outgoing) (\<lambda>outgoing_device.
       ret (incoming_device, outgoing_device))))))"

record shm_mapped =
  d_ok :: int
  d_error :: string
  d_ptrs :: "nat option \<times> nat option"

definition shm_mapping :: "nat \<Rightarrow> TransportKind list \<Rightarrow> shm_env \<Rightarrow> nat \<Rightarrow> string list \<Rightarrow> nat option \<Rightarrow> (shm_proc, shm_mapped) comp" where
  "shm_mapping K kinds env rank names incoming s =
     (case map_and_register K kinds env rank names incoming s of
        (Inr ptrs, s') \<Rightarrow> (Inr \<lparr>d_ok = 1, d_error = [], d_ptrs = ptrs\<rparr>, s')
      | (Inl e, s') \<Rightarrow>
          (Inr \<lparr>d_ok = 0, d_error = text512 (''SHM edge setup failed at global rank '' @ string_of_nat rank @
             '' (incoming '' @ string_of_nat (incoming_edge K rank) @ ''->'' @ string_of_nat rank @ '', outgoing '' @ string_of_nat rank @
             ''->'' @ string_of_nat ((rank + 1) mod K) @ ''): '' @ what e), d_ptrs = (None, None)\<rparr>, s'))"

text \<open>What another rank contributes, from the state it started in.\<close>

definition created_by :: "nat \<Rightarrow> TransportKind list \<Rightarrow> (nat \<Rightarrow> shm_env) \<Rightarrow> (nat \<Rightarrow> shm_proc) \<Rightarrow> nat \<Rightarrow> shm_local" where
  "created_by K kinds env procs r = projr (fst (shm_creation K kinds (env r) r (procs r)))"

definition mapped_by ::
    "nat \<Rightarrow> TransportKind list \<Rightarrow> (nat \<Rightarrow> shm_env) \<Rightarrow> (nat \<Rightarrow> shm_proc) \<Rightarrow> string list \<Rightarrow> nat \<Rightarrow> shm_mapped" where
  "mapped_by K kinds env procs names r =
     projr (fst (shm_mapping K kinds (env r) r names (l_host (created_by K kinds env procs r))
       (snd (shm_creation K kinds (env r) r (procs r)))))"

definition create_mpi_shm_connections ::
    "('u, 'a) exchange_world \<Rightarrow> nat \<Rightarrow> nat \<Rightarrow> TransportKind list \<Rightarrow> (nat \<Rightarrow> shm_env) \<Rightarrow> (nat \<Rightarrow> shm_proc) \<Rightarrow> nat \<Rightarrow>
     (shm_proc, (nat, nat) connection_resources) comp" where
  "create_mpi_shm_connections w K C kinds env procs rank =
     (if Shm \<notin> set kinds then ret no_resources
      else on_exception
        (andthen (shm_creation K kinds (env rank) rank) (\<lambda>mine.
         andalso (agree_or_throw w ''MPI_Allreduce(SHM creation)'' ''MPI_Allgather(SHM errors)'' ''unknown SHM setup error''
            ''same-host SHM creation failed: '' rank (map (\<lambda>r. l_ok (created_by K kinds env procs r)) [0..<K])
            (map (\<lambda>r. l_error (created_by K kinds env procs r)) [0..<K]))
        (andthen (lift (mpi_check ''MPI_Allgather(SHM names)'' (allgather_text w ''MPI_Allgather(SHM names)'' rank
            (map (\<lambda>r. l_name (created_by K kinds env procs r)) [0..<K])))) (\<lambda>names.
         andthen (shm_mapping K kinds (env rank) rank names (l_host mine)) (\<lambda>mapped.
         andalso (agree_or_throw w ''MPI_Allreduce(SHM mapping)'' ''MPI_Allgather(SHM errors)'' ''unknown SHM setup error''
            ''same-host SHM CUDA mapping failed: '' rank (map (\<lambda>r. d_ok (mapped_by K kinds env procs names r)) [0..<K])
            (map (\<lambda>r. d_error (mapped_by K kinds env procs names r)) [0..<K]))
        (andalso (lift (barrier_check w ''MPI_Barrier(SHM initialize)'' rank))
        (andalso (change unlink_region)
           (ret (region_view C (fst (d_ptrs mapped)) (snd (d_ptrs mapped)) rank))))))))) destroy_owner)"

section \<open>Ownership\<close>

text \<open>Everything the process holds is known to the owner.\<close>

definition map_res :: "mapping \<Rightarrow> shm_res multiset" where
  "map_res m = {#Res_fd (m_fd m), Res_map (m_ptr m)#} + (if m_registered m then {#Res_reg (m_ptr m)#} else {#})"

definition owner_res :: "shm_proc \<Rightarrow> shm_res multiset" where
  "owner_res s = (if o_name s = [] then {#} else {#Res_name (o_name s)#}) + \<Sum>\<^sub># (image_mset map_res (mset (o_maps s)))"

definition owned :: "shm_proc \<Rightarrow> bool" where
  "owned s \<longleftrightarrow> mset (held s) = owner_res s"

lemma held_release: "mset (held (release x s)) = mset (held s) - {#x#}"
  by (simp add: release_def)

lemma held_drop: "mset (held (drop_mapping m s)) = mset (held s) - map_res m"
  by (simp add: drop_mapping_def held_release map_res_def diff_diff_add_mset union_ac)

lemma held_drops: "mset (held (fold drop_mapping ms s)) = mset (held s) - \<Sum>\<^sub># (image_mset map_res (mset ms))"
  by (induction ms arbitrary: s) (simp_all add: held_drop diff_diff_add_mset)

lemma held_unlink: "mset (held (unlink_region s)) = mset (held s) - (if o_name s = [] then {#} else {#Res_name (o_name s)#})"
  by (simp add: unlink_region_def held_release)

lemma destroy_owned: "owned s \<Longrightarrow> held (destroy_owner s) = []"
proof -
  assume "owned s"
  then have "mset (held (destroy_owner s)) = {#}"
    by (simp add: destroy_owner_def held_drops held_unlink owned_def owner_res_def)
  then show ?thesis by simp
qed

lemma unlink_owned: "owned s \<Longrightarrow> owned (unlink_region s)"
  by (auto simp: owned_def owner_res_def unlink_region_def release_def)

text \<open>Registering a pointer whose first mapping is not registered yet.\<close>

lemma mark_first_res:
  "mark_first p ms = Some ms' \<Longrightarrow> (\<forall>m \<in> set ms. m_ptr m = p \<longrightarrow> \<not> m_registered m) \<Longrightarrow>
   \<Sum>\<^sub># (image_mset map_res (mset ms')) = add_mset (Res_reg p) (\<Sum>\<^sub># (image_mset map_res (mset ms)))"
  by (induction ms arbitrary: ms') (auto simp: map_res_def split: if_splits)

lemma register_owned:
  assumes "owned s" "p \<in> m_ptr ` set (o_maps s)" "\<forall>m \<in> set (o_maps s). m_ptr m = p \<longrightarrow> \<not> m_registered m"
    and "register_pointer env p s = (r, s')"
  shows "owned s' \<and> o_name s' = o_name s \<and>
    (r = Inr () \<longrightarrow> mark_first p (o_maps s) = Some (o_maps s')) \<and> (r \<noteq> Inr () \<longrightarrow> s' = s)"
proof -
  have "mark_first p ms \<noteq> None" if "p \<in> m_ptr ` set ms" for ms using that by (induction ms) auto
  then obtain ms' where ms': "mark_first p (o_maps s) = Some ms'" using assms(2) by blast
  from mark_first_res[OF this assms(3)] ms' assms(1,4) show ?thesis
    by (auto simp: register_pointer_def cuda_throw_def hold_def mark_registered_def owned_def owner_res_def 
        andalso_def andthen_def ret_def raise_def change_def with_state_def split: option.splits)
qed

section \<open>The two stages\<close>

lemmas shm_comp = andalso_def andthen_def ret_def raise_def change_def with_state_def on_exception_def lift_def hold_def

definition clean :: "shm_proc \<Rightarrow> bool" where
  "clean s \<longleftrightarrow> held s = [] \<and> o_name s = [] \<and> o_maps s = []"

lemma region_attempts_spec:
  "region_attempts n env rank s = (r, s') \<Longrightarrow>
   (case r of
      Inl e \<Rightarrow> \<exists>k. s' = s\<lparr>region_seq := k\<rparr>
    | Inr (name, fd) \<Rightarrow> \<exists>k q. name = region_name (pid env) rank k \<and>
        s' = s\<lparr>region_seq := q, held := Res_fd fd # Res_name name # held s\<rparr>)"
proof (induction n arbitrary: s)
  case 0
  then show ?case by (auto simp: raise_def intro!: exI[of _ "region_seq s"])
next
  case (Suc n)
  let ?s = "s\<lparr>region_seq := region_seq s + 1\<rparr>"
  show ?case
  proof (cases "create_open env (region_seq s)")
    case (Inl a)
    obtain err exists where a: "a = (err, exists)" by fastforce
    show ?thesis
    proof (cases exists)
      case True
      then have "region_attempts n env rank ?s = (r, s')" using Suc.prems Inl a by (simp add: shm_comp Let_def)
      from Suc.IH[OF this] show ?thesis by (auto split: sum.splits)
    next
      case False
      then show ?thesis using Suc.prems Inl a by (auto simp: shm_comp Let_def)
    qed
  next
    case (Inr fd)
    then show ?thesis using Suc.prems by (auto simp: shm_comp Let_def)
  qed
qed

lemma region_name_nonempty [simp]: "region_name p r n \<noteq> []"
  by (simp add: region_name_def object_name_def)

text \<open>The first stage: a region of its own, mapped once, or a failure; either way the owner knows about everything.\<close>

lemma shm_creation_spec:
  assumes "clean s" "shm_creation K kinds env rank s = (x, s')"
  shows "\<exists>l. x = Inr l \<and> owned s' \<and> (l_ok l = 0 \<or> l_ok l = 1) \<and> (l_ok l = 1 \<longrightarrow>
    (if kinds ! incoming_edge K rank = Shm
     then \<exists>k fd ptr. mmap_in env = Inr ptr \<and> l_host l = Some ptr \<and> l_name l = text128 (region_name (pid env) rank k) \<and>
            o_maps s' = [\<lparr>m_ptr = ptr, m_fd = fd, m_registered = False, m_region = region_name (pid env) rank k\<rparr>]
     else l_host l = None \<and> o_maps s' = []))"
proof (cases "kinds ! incoming_edge K rank = Shm")
  case False
  then show ?thesis using assms by (auto simp: shm_creation_def clean_def owned_def owner_res_def)
next
  case True
  obtain r s1 where r: "region_attempts 32 env rank s = (r, s1)" by fastforce
  show ?thesis
  proof (cases r)
    case (Inl e)
    then have "x = Inr \<lparr>l_ok = 0, l_name = [], l_error = text512 (''SHM incoming edge '' @ string_of_nat (incoming_edge K rank) @
             ''->'' @ string_of_nat rank @ '' creation failed at global rank '' @ string_of_nat rank @ '': '' @ what e), l_host = None\<rparr>" "s' = s1"
      using r assms(2) True by (simp_all add: shm_creation_def create_incoming_def create_region_name_def andthen_def)
    moreover have "owned s1" using region_attempts_spec[OF r] Inl assms(1) by (auto simp: clean_def owned_def owner_res_def)
    ultimately show ?thesis by simp
  next
    case (Inr y)
    then obtain name fd where y: "r = Inr (name, fd)" by fastforce
    from region_attempts_spec[OF r] y obtain k q where s1: "name = region_name (pid env) rank k"
      "s1 = s\<lparr>region_seq := q, held := [Res_fd fd, Res_name name]\<rparr>" using assms(1) by (auto simp: clean_def)
    show ?thesis
    proof (cases "truncate_error env")
      case None
      show ?thesis
      proof (cases "mmap_in env")
        case (Inl err)
        then show ?thesis using r y s1 None assms True
          by (auto simp: shm_creation_def create_incoming_def create_region_name_def map_into_owner_def map_region_def release_def
              shm_comp clean_def owned_def owner_res_def)
      next
        case (Inr ptr)
        then show ?thesis using r y s1 None assms True
          by (auto simp: shm_creation_def create_incoming_def create_region_name_def map_into_owner_def map_region_def add_mapping_def
              shm_comp clean_def owned_def owner_res_def map_res_def)
      qed
    next
      case (Some err)
      then show ?thesis using r y s1 assms True
        by (auto simp: shm_creation_def create_incoming_def create_region_name_def release_def shm_comp clean_def owned_def owner_res_def)
    qed
  qed
qed

lemma open_outgoing_spec:
  assumes "owned s" "open_outgoing K env rank names s = (r, s')"
  shows "owned s' \<and> (case r of Inl e \<Rightarrow> True
    | Inr q \<Rightarrow> mmap_out env = Inr q \<and>
        (\<exists>fd. o_maps s' = o_maps s @ [\<lparr>m_ptr = q, m_fd = fd, m_registered = False, m_region = names ! ((rank + 1) mod K)\<rparr>]))"
  using assms
  by (auto simp: open_outgoing_def map_into_owner_def map_region_def add_mapping_def release_def shm_comp owned_def owner_res_def
      map_res_def Let_def split: if_splits sum.splits prod.splits)

abbreviation registered_map :: "mapping \<Rightarrow> mapping" where
  "registered_map m \<equiv> m\<lparr>m_registered := True\<rparr>"

lemma mark_first_append:
  "p \<notin> m_ptr ` set ds \<Longrightarrow> mark_first p (ds @ ms) = map_option ((@) ds) (mark_first p ms)"
  by (induction ds; cases "mark_first p ms") auto

lemma registers_spec:
  "for_each (map m_ptr ms) (register_pointer env) s = (r, s') \<Longrightarrow> owned s \<Longrightarrow> o_maps s = map registered_map ds @ ms \<Longrightarrow>
   distinct (map m_ptr (ds @ ms)) \<Longrightarrow> list_all (\<lambda>m. \<not> m_registered m) ms \<Longrightarrow>
   owned s' \<and> (r = Inr () \<longrightarrow> o_maps s' = map registered_map (ds @ ms))"
proof (induction ms arbitrary: s ds)
  case Nil
  then show ?case by (simp add: ret_def)
next
  case (Cons m ms)
  obtain r1 s1 where r1: "register_pointer env (m_ptr m) s = (r1, s1)" by fastforce
  have notin: "m_ptr m \<notin> m_ptr ` set (map registered_map ds)" "m_ptr m \<notin> m_ptr ` set ms" using Cons.prems(4) by auto
  have un: "\<forall>x \<in> set (o_maps s). m_ptr x = m_ptr m \<longrightarrow> \<not> m_registered x"
    using Cons.prems(3,5) notin by (auto simp: image_iff)
  note step = register_owned[OF Cons.prems(2) _ un r1]
  have step: "owned s1 \<and> (r1 = Inr () \<longrightarrow> mark_first (m_ptr m) (o_maps s) = Some (o_maps s1)) \<and> (r1 \<noteq> Inr () \<longrightarrow> s1 = s)"
    using step Cons.prems(3) by auto
  show ?case
  proof (cases r1)
    case (Inl e)
    then show ?thesis using Cons.prems(1) r1 step by (auto simp: andalso_def andthen_def)
  next
    case (Inr u)
    have "o_maps s1 = map registered_map (ds @ [m]) @ ms"
      using step Inr Cons.prems(3) mark_first_append[OF notin(1)] by (simp add: comp_def)
    moreover have "for_each (map m_ptr ms) (register_pointer env) s1 = (r, s')"
      using Cons.prems(1) r1 Inr by (simp add: andalso_def andthen_def)
    ultimately show ?thesis using Cons.IH[of s1 "ds @ [m]"] step Cons.prems(4,5) by simp
  qed
qed

text \<open>The second stage, from the one mapping of the first stage or none.\<close>

definition linked_in :: "shm_env \<Rightarrow> shm_proc \<Rightarrow> nat option \<Rightarrow> nat option \<Rightarrow> string \<Rightarrow> bool" where
  "linked_in env s host dev region \<longleftrightarrow>
     (\<exists>p d. host = Some p \<and> dev = Some d \<and> host_device_ptr env p = Inr d \<and>
        (\<exists>m \<in> set (o_maps s). m_ptr m = p \<and> m_region m = region \<and> m_registered m))"

lemma map_and_register_spec:
  assumes "owned s" "o_maps s = (case incoming of None \<Rightarrow> [] | Some p \<Rightarrow> [\<lparr>m_ptr = p, m_fd = fd, m_registered = False, m_region = region\<rparr>])"
    and "\<And>p. incoming = Some p \<Longrightarrow> mmap_out env \<noteq> Inr p"
    and "map_and_register K kinds env rank names incoming s = (r, s')"
  shows "owned s' \<and> (case r of Inl e \<Rightarrow> True | Inr (din, dout) \<Rightarrow>
      (incoming = None \<longrightarrow> din = None) \<and> (incoming \<noteq> None \<longrightarrow> linked_in env s' incoming din region) \<and>
      (if kinds ! rank = Shm then \<exists>host. linked_in env s' host dout (names ! ((rank + 1) mod K)) else dout = None))"
proof -
  let ?open = "if kinds ! rank = Shm then andthen (open_outgoing K env rank names) (\<lambda>p. ret (Some p)) else ret None"
  obtain ro s1 where ro: "?open s = (ro, s1)" by fastforce
  define ms where "ms = o_maps s1"
  have s1: "owned s1 \<and> (case ro of Inl e \<Rightarrow> True | Inr out \<Rightarrow>
     (if kinds ! rank = Shm then \<exists>q fd'. out = Some q \<and> mmap_out env = Inr q \<and>
        ms = o_maps s @ [\<lparr>m_ptr = q, m_fd = fd', m_registered = False, m_region = names ! ((rank + 1) mod K)\<rparr>]
      else out = None \<and> ms = o_maps s))"
  proof (cases "kinds ! rank = Shm")
    case True
    obtain r2 s2 where r2: "open_outgoing K env rank names s = (r2, s2)" by fastforce
    show ?thesis using open_outgoing_spec[OF assms(1) r2] ro True r2
      by (cases r2) (auto simp: andthen_def ret_def ms_def)
  qed (use ro assms(1) in \<open>auto simp: ret_def ms_def\<close>)
  show ?thesis
  proof (cases ro)
    case (Inl e)
    then show ?thesis using assms(4) ro s1 by (auto simp: map_and_register_def andthen_def)
  next
    case (Inr out)
    have ptrs: "List.map_filter id [incoming, out] = map m_ptr ms" and dist: "distinct (map m_ptr ms)"
      and un: "list_all (\<lambda>m. \<not> m_registered m) ms"
      using s1 Inr assms(2,3) by (cases incoming; auto simp: map_filter_simps split: if_splits)+
    obtain rr s2 where rr: "for_each (map m_ptr ms) (register_pointer env) s1 = (rr, s2)" by fastforce
    have s2: "owned s2 \<and> (rr = Inr () \<longrightarrow> o_maps s2 = map registered_map ms)"
      using registers_spec[OF rr, of "[]"] s1 dist un by (simp add: ms_def)
    have run: "(r, s') = (case shm_set_device env of Some e \<Rightarrow> (Inl (Runtime_error (''CUDA error: '' @ e)), s1) | None \<Rightarrow>
        (case rr of Inl e \<Rightarrow> (Inl e, s2) | Inr _ \<Rightarrow>
          andthen (device_pointer env incoming) (\<lambda>a. andthen (device_pointer env out) (\<lambda>b. ret (a, b))) s2))"
      using assms(4) ro Inr rr ptrs by (auto simp: map_and_register_def cuda_throw_def shm_comp split: option.splits sum.splits)
    show ?thesis
    proof (cases "shm_set_device env = None \<and> rr = Inr ()")
      case False
      then show ?thesis using run s1 s2 by (auto split: option.splits sum.splits)
    next
      case True
      then have "(r, s') = andthen (device_pointer env incoming) (\<lambda>a. andthen (device_pointer env out) (\<lambda>b. ret (a, b))) s2"
        using run by simp
      moreover have "o_maps s2 = map registered_map ms" "owned s2" using s2 True by auto
      ultimately show ?thesis using s1 Inr assms(2)
        by (cases incoming; cases out)
           (auto simp: device_pointer_def shm_comp linked_in_def split: sum.splits if_splits)
    qed
  qed
qed

section \<open>All ranks together\<close>

text \<open>
  The sender's view and the receiver's view of an edge are views of one region, which both processes have mapped and
  registered.
\<close>

definition edge_shares :: "nat \<Rightarrow> shm_env \<Rightarrow> shm_env \<Rightarrow> shm_proc \<Rightarrow> shm_proc \<Rightarrow> (nat, nat) connection_resources \<Rightarrow>
    (nat, nat) connection_resources \<Rightarrow> bool" where
  "edge_shares C env_s env_r s r view_s view_r \<longleftrightarrow>
     (\<exists>m \<in> set (o_maps s). \<exists>m' \<in> set (o_maps r). \<exists>d d'. m_region m = m_region m' \<and> m_registered m \<and> m_registered m' \<and>
        host_device_ptr env_s (m_ptr m) = Inr d \<and> host_device_ptr env_r (m_ptr m') = Inr d' \<and>
        (\<forall>ch < C. v_send_fifo view_s ch = Some (connection_fifo C d ch) \<and> v_recv_fifo view_r ch = Some (connection_fifo C d' ch) \<and>
           v_send_head view_s ch = Some (connection_head d ch) \<and> v_recv_head view_r ch = Some (connection_head d' ch) \<and>
           v_send_tail view_s ch = Some (connection_tail C d ch) \<and> v_recv_tail view_r ch = Some (connection_tail C d' ch)))"

lemma owned_after:
  assumes "clean (procs r)" "\<forall>p q. mmap_in (env r) = Inr p \<longrightarrow> mmap_out (env r) = Inr q \<longrightarrow> p \<noteq> q"
    and "l_ok (created_by K kinds env procs r) = 1"
  shows "\<exists>s1 s2 d. shm_creation K kinds (env r) r (procs r) = (Inr (created_by K kinds env procs r), s1) \<and>
     shm_mapping K kinds (env r) r names (l_host (created_by K kinds env procs r)) s1 = (Inr d, s2) \<and>
     d = mapped_by K kinds env procs names r \<and> owned s1 \<and> owned s2 \<and> (d_ok d = 0 \<or> d_ok d = 1) \<and>
     (d_ok d = 1 \<longrightarrow>
       (if kinds ! incoming_edge K r = Shm
        then \<exists>k host. linked_in (env r) s2 host (fst (d_ptrs d)) (region_name (pid (env r)) r k) \<and>
               l_name (created_by K kinds env procs r) = text128 (region_name (pid (env r)) r k)
        else fst (d_ptrs d) = None) \<and>
       (if kinds ! r = Shm then \<exists>host. linked_in (env r) s2 host (snd (d_ptrs d)) (names ! ((r + 1) mod K)) else snd (d_ptrs d) = None))"
proof -
  let ?l = "created_by K kinds env procs r"
  obtain x s1 where x: "shm_creation K kinds (env r) r (procs r) = (x, s1)" by fastforce
  from shm_creation_spec[OF assms(1) x] have xl: "x = Inr ?l" by (auto simp: created_by_def x)
  with shm_creation_spec[OF assms(1) x] have o1: "owned s1" and
    c: "if kinds ! incoming_edge K r = Shm
     then \<exists>k fd ptr. mmap_in (env r) = Inr ptr \<and> l_host ?l = Some ptr \<and> l_name ?l = text128 (region_name (pid (env r)) r k) \<and>
            o_maps s1 = [\<lparr>m_ptr = ptr, m_fd = fd, m_registered = False, m_region = region_name (pid (env r)) r k\<rparr>]
     else l_host ?l = None \<and> o_maps s1 = []" using assms(3) by auto
  obtain y s2 where y: "map_and_register K kinds (env r) r names (l_host ?l) s1 = (y, s2)" by fastforce
  have other: "mmap_out (env r) \<noteq> Inr p" if "l_host ?l = Some p" for p using c that assms(2) by (auto split: if_splits)
  obtain fd k where maps: "o_maps s1 = (case l_host ?l of None \<Rightarrow> [] | Some p \<Rightarrow>
      [\<lparr>m_ptr = p, m_fd = fd, m_registered = False, m_region = region_name (pid (env r)) r k\<rparr>])"
    and name: "kinds ! incoming_edge K r = Shm \<Longrightarrow> l_host ?l \<noteq> None \<and> l_name ?l = text128 (region_name (pid (env r)) r k)"
    and none: "kinds ! incoming_edge K r \<noteq> Shm \<Longrightarrow> l_host ?l = None"
    using c by (cases "kinds ! incoming_edge K r = Shm") auto
  note spec = map_and_register_spec[OF o1 maps other y]
  obtain d where d: "shm_mapping K kinds (env r) r names (l_host ?l) s1 = (Inr d, s2)" "d_ok d = (if isl y then 0 else 1)"
    "\<not> isl y \<longrightarrow> d_ptrs d = projr y"
    using y by (cases y) (auto simp: shm_mapping_def)
  have dm: "d = mapped_by K kinds env procs names r" by (simp add: mapped_by_def x d(1))
  show ?thesis
    using x xl d dm o1 spec name none by (cases y) (auto split: prod.splits if_splits)
qed

definition published_names :: "nat \<Rightarrow> TransportKind list \<Rightarrow> (nat \<Rightarrow> shm_env) \<Rightarrow> (nat \<Rightarrow> shm_proc) \<Rightarrow> string list" where
  "published_names K kinds env procs = map (\<lambda>r. l_name (created_by K kinds env procs r)) [0..<K]"

lemma exchange_run:
  assumes "exchange_laws w" "0 < K" "Shm \<in> set kinds" "r < K" "\<forall>r<K. clean (procs r)"
    and "\<forall>r<K. \<forall>p q. mmap_in (env r) = Inr p \<longrightarrow> mmap_out (env r) = Inr q \<longrightarrow> p \<noteq> q"
  shows "create_mpi_shm_connections w K C kinds env procs r (procs r) =
    (let s1 = snd (shm_creation K kinds (env r) r (procs r)); names = published_names K kinds env procs;
         s2 = snd (shm_mapping K kinds (env r) r names (l_host (created_by K kinds env procs r)) s1);
         ptrs = d_ptrs (mapped_by K kinds env procs names r) in
     if \<not> (\<forall>q<K. l_ok (created_by K kinds env procs q) = 1)
     then (Inl (Runtime_error (agreed_text ''unknown SHM setup error'' ''same-host SHM creation failed: ''
             (map (\<lambda>r. l_error (created_by K kinds env procs r)) [0..<K]))), destroy_owner s1)
     else if \<not> (\<forall>q<K. d_ok (mapped_by K kinds env procs names q) = 1)
     then (Inl (Runtime_error (agreed_text ''unknown SHM setup error'' ''same-host SHM CUDA mapping failed: ''
             (map (\<lambda>r. d_error (mapped_by K kinds env procs names r)) [0..<K]))), destroy_owner s2)
     else (Inr (region_view C (fst ptrs) (snd ptrs) r), unlink_region s2))"
proof -
  have one: "\<exists>l. shm_creation K kinds (env q) q (procs q) = (Inr l, snd (shm_creation K kinds (env q) q (procs q))) \<and>
      l = created_by K kinds env procs q \<and> (l_ok l = 0 \<or> l_ok l = 1)" if "q < K" for q
    using shm_creation_spec[of "procs q" K kinds "env q" q] assms(5) that
    by (cases "shm_creation K kinds (env q) q (procs q)") (force simp: created_by_def)
  note flags1 = agree_or_throw_eq[OF assms(1,2), of "\<lambda>q. l_ok (created_by K kinds env procs q)"]
  have f1: "l_ok (created_by K kinds env procs q) = 0 \<or> l_ok (created_by K kinds env procs q) = 1" if "q < K" for q
    using one[OF that] by auto
  have gather: "allgather_text w op q xs = Inr xs" and bar: "mpi_barrier w op q = None" for op q xs
    using assms(1) by (auto simp: exchange_laws_def)
  show ?thesis
  proof (cases "\<forall>q<K. l_ok (created_by K kinds env procs q) = 1")
    case False
    obtain s1 where s1: "shm_creation K kinds (env r) r (procs r) = (Inr (created_by K kinds env procs r), s1)"
      using one[OF assms(4)] by metis
    have "agree_or_throw w op op' u p rank (map (\<lambda>q. l_ok (created_by K kinds env procs q)) [0..<K]) es s =
        (Inl (Runtime_error (agreed_text u p es)), s)" for op op' u p rank es and s :: shm_proc
      using flags1[OF f1] False by simp
    then show ?thesis using s1 assms(3) False
      by (simp add: create_mpi_shm_connections_def on_exception_def andthen_def andalso_def Let_def del: not_all)
  next
    case True
    let ?names = "published_names K kinds env procs"
    have two: "\<exists>s1 s2. shm_creation K kinds (env q) q (procs q) = (Inr (created_by K kinds env procs q), s1) \<and>
        shm_mapping K kinds (env q) q ?names (l_host (created_by K kinds env procs q)) s1 = (Inr (mapped_by K kinds env procs ?names q), s2) \<and>
        (d_ok (mapped_by K kinds env procs ?names q) = 0 \<or> d_ok (mapped_by K kinds env procs ?names q) = 1)" if "q < K" for q
      using owned_after[of procs q env K kinds ?names] assms(5,6) True that by blast
    have f2: "d_ok (mapped_by K kinds env procs ?names q) = 0 \<or> d_ok (mapped_by K kinds env procs ?names q) = 1" if "q < K" for q
      using two[OF that] by blast
    have a2: "agree_or_throw w op op' u p rank (map (\<lambda>q. d_ok (mapped_by K kinds env procs ?names q)) [0..<K]) es s =
        (if \<forall>q<K. d_ok (mapped_by K kinds env procs ?names q) = 1 then (Inr (), s) else (Inl (Runtime_error (agreed_text u p es)), s))"
      for op op' u p rank es and s :: shm_proc
      by (rule agree_or_throw_eq[OF assms(1,2), of "\<lambda>q. d_ok (mapped_by K kinds env procs ?names q)", OF f2])
    have a1: "agree_or_throw w op op' u p rank (map (\<lambda>q. l_ok (created_by K kinds env procs q)) [0..<K]) es s = (Inr (), s)"
      for op op' u p rank es and s :: shm_proc using flags1[OF f1] True by simp
    obtain s1 s2 where "shm_creation K kinds (env r) r (procs r) = (Inr (created_by K kinds env procs r), s1)"
      "shm_mapping K kinds (env r) r ?names (l_host (created_by K kinds env procs r)) s1 = (Inr (mapped_by K kinds env procs ?names r), s2)"
      using two[OF assms(4)] by blast
    then show ?thesis using True assms(3)
      by (simp add: create_mpi_shm_connections_def on_exception_def andthen_def andalso_def lift_def gather bar barrier_check_def
          change_def ret_def published_names_def[symmetric] Let_def a1 a2 del: not_all)
  qed
qed

lemma edge_sharesI:
  assumes "linked_in env s host dev region" "linked_in env' s' host' dev' region"
  shows "edge_shares C env env' s s' (region_view C din dev rank) (region_view C dev' dout rank')"
proof -
  obtain m d m' d' where "m \<in> set (o_maps s)" "m' \<in> set (o_maps s')" "m_region m = m_region m' \<and> m_registered m \<and> m_registered m' \<and>
      host_device_ptr env (m_ptr m) = Inr d \<and> host_device_ptr env' (m_ptr m') = Inr d'" "dev = Some d" "dev' = Some d'"
    using assms by (auto simp: linked_in_def)
  then show ?thesis unfolding edge_shares_def by (intro bexI[of _ m] bexI[of _ m'] exI[of _ d] exI[of _ d']) (simp_all add: region_view_def)
qed

lemma unlink_keeps: "o_maps (unlink_region s) = o_maps s" "o_name (unlink_region s) = []"
  by (simp_all add: unlink_region_def release_def)

text \<open>C14: Property: the exchange of shared memory regions is agreed upon. Whatever the system and CUDA calls of the single processes
  answer, either all ranks throw, with the same text, and no process keeps a name, descriptor, mapping or registration; or
  all ranks return, every process holds exactly what its owner will give back, no name is left in the file system, and on every SHM
  edge the sender's and the receiver's FIFO, head and tail are views of one region that both have registered.
\<close>

theorem shm_exchange_agrees:
  assumes "exchange_laws w" "0 < K" "length kinds = K" "Shm \<in> set kinds" "\<forall>r<K. clean (procs r)"
    and "\<forall>r<K. \<forall>p q. mmap_in (env r) = Inr p \<longrightarrow> mmap_out (env r) = Inr q \<longrightarrow> p \<noteq> q"
    and "\<forall>r<K. 0 \<le> pid (env r) \<and> pid (env r) < 2 ^ 31" "K \<le> 2 ^ 31"
    and "run = (\<lambda>r. create_mpi_shm_connections w K C kinds env procs r (procs r))"
  shows "(\<exists>e. \<forall>r<K. fst (run r) = Inl e \<and> held (snd (run r)) = []) \<or>
    (\<exists>views. \<forall>r<K. fst (run r) = Inr (views r) \<and> owned (snd (run r)) \<and> o_name (snd (run r)) = [] \<and>
       (kinds ! r = Shm \<longrightarrow> edge_shares C (env r) (env ((r + 1) mod K)) (snd (run r)) (snd (run ((r + 1) mod K)))
          (views r) (views ((r + 1) mod K))))"
proof -
  let ?names = "published_names K kinds env procs"
  let ?made = "created_by K kinds env procs" and ?mapped = "mapped_by K kinds env procs ?names"
  let ?s1 = "\<lambda>r. snd (shm_creation K kinds (env r) r (procs r))"
  let ?s2 = "\<lambda>r. snd (shm_mapping K kinds (env r) r ?names (l_host (?made r)) (?s1 r))"
  note run = exchange_run[OF assms(1,2,4) _ assms(5,6), of _ C, folded fun_cong[OF assms(9)], unfolded Let_def]
  have o1: "owned (?s1 r)" if "r < K" for r
    using shm_creation_spec[of "procs r" K kinds "env r" r] assms(5) that
    by (cases "shm_creation K kinds (env r) r (procs r)") force
  show ?thesis
  proof (cases "\<forall>q<K. l_ok (?made q) = 1")
    case False
    then show ?thesis using run destroy_owned[OF o1] by (intro disjI1) auto
  next
    case True
    have after: "owned (?s2 r) \<and> (d_ok (?mapped r) = 1 \<longrightarrow>
       (if kinds ! incoming_edge K r = Shm
        then \<exists>k host. linked_in (env r) (?s2 r) host (fst (d_ptrs (?mapped r))) (region_name (pid (env r)) r k) \<and>
               l_name (?made r) = text128 (region_name (pid (env r)) r k)
        else fst (d_ptrs (?mapped r)) = None) \<and>
       (if kinds ! r = Shm then \<exists>host. linked_in (env r) (?s2 r) host (snd (d_ptrs (?mapped r))) (?names ! ((r + 1) mod K))
        else snd (d_ptrs (?mapped r)) = None))" if "r < K" for r
      using owned_after[of procs r env K kinds ?names] assms(5,6) True that by fastforce
    have o2: "owned (?s2 r)" if "r < K" for r using after[OF that] by blast
    show ?thesis
    proof (cases "\<forall>q<K. d_ok (?mapped q) = 1")
      case False
      then show ?thesis using run destroy_owned[OF o2] True by (intro disjI1) auto
    next
      case ok: True
      let ?view = "\<lambda>r. region_view C (fst (d_ptrs (?mapped r))) (snd (d_ptrs (?mapped r))) r"
      have r: "run r = (Inr (?view r), unlink_region (?s2 r))" if "r < K" for r using run[OF that] True ok by auto
      have "edge_shares C (env r) (env ((r + 1) mod K)) (unlink_region (?s2 r)) (unlink_region (?s2 ((r + 1) mod K)))
          (?view r) (?view ((r + 1) mod K))" if rK: "r < K" and kS: "kinds ! r = Shm" for r
      proof -
        let ?q = "(r + 1) mod K"
        have q: "?q < K" "incoming_edge K ?q = r" using rK incoming_edge_next[OF rK] by auto
        obtain k host' where in': "linked_in (env ?q) (?s2 ?q) host' (fst (d_ptrs (?mapped ?q))) (region_name (pid (env ?q)) ?q k)"
          "l_name (?made ?q) = text128 (region_name (pid (env ?q)) ?q k)"
          using after[OF q(1)] ok q kS by auto
        have "text128 (region_name (pid (env ?q)) ?q k) = region_name (pid (env ?q)) ?q k"
          using object_name_fits[of "pid (env ?q)" ?q "''/nano_nccl_''" k] assms(7,8) q(1) by (simp add: region_name_def)
        then have "?names ! ?q = region_name (pid (env ?q)) ?q k" using in'(2) q(1) by (simp add: published_names_def)
        moreover obtain host where "linked_in (env r) (?s2 r) host (snd (d_ptrs (?mapped r))) (?names ! ?q)"
          using after[OF rK] ok rK kS by auto
        ultimately show ?thesis using in'(1) by (intro edge_sharesI) (auto simp: linked_in_def unlink_keeps(1))
      qed
      then show ?thesis using r unlink_owned[OF o2] unlink_keeps(2) by (intro disjI2 exI[of _ ?view]) simp
    qed
  qed
qed

text \<open>Two processes whose calls all succeed.\<close>

definition demo_shm_env :: "nat \<Rightarrow> shm_env" where
  "demo_shm_env r = \<lparr>pid = 40 + int r, create_open = (\<lambda>_. Inr 5), truncate_error = None, mmap_in = Inr 1,
     peer_open = (\<lambda>_. Inr 6), mmap_out = Inr 2, shm_set_device = None, host_register = (\<lambda>_. None), host_device_ptr = (\<lambda>p. Inr (p + 8))\<rparr>"

definition demo_shm_proc :: "nat \<Rightarrow> shm_proc" where
  "demo_shm_proc r = \<lparr>held = [], region_seq = 0, o_name = [], o_maps = []\<rparr>"

definition demo_shm_run :: "nat \<Rightarrow> (nat, nat) connection_resources result \<times> shm_proc" where
  "demo_shm_run r = create_mpi_shm_connections (ideal_exchange :: (unit, unit) exchange_world) 2 1 [Shm, Shm] demo_shm_env demo_shm_proc r
     (demo_shm_proc r)"

lemma demo_shm_returns: "\<not> isl (fst (demo_shm_run 0))"
  by code_simp

theorem shm_exchange_agrees_witness:
  "\<exists>v v'. fst (demo_shm_run 0) = Inr v \<and> fst (demo_shm_run 1) = Inr v' \<and>
      edge_shares 1 (demo_shm_env 0) (demo_shm_env 1) (snd (demo_shm_run 0)) (snd (demo_shm_run 1)) v v'"
proof -
  have "(\<exists>e. \<forall>r<2. fst (demo_shm_run r) = Inl e \<and> held (snd (demo_shm_run r)) = []) \<or>
    (\<exists>views. \<forall>r<2. fst (demo_shm_run r) = Inr (views r) \<and> owned (snd (demo_shm_run r)) \<and> o_name (snd (demo_shm_run r)) = [] \<and>
       ([Shm, Shm] ! r = Shm \<longrightarrow> edge_shares 1 (demo_shm_env r) (demo_shm_env ((r + 1) mod 2)) (snd (demo_shm_run r))
          (snd (demo_shm_run ((r + 1) mod 2))) (views r) (views ((r + 1) mod 2))))"
    by (rule shm_exchange_agrees[OF ideal_exchange_laws _ _ _ _ _ _ _ ext[OF demo_shm_run_def]])
       (simp_all add: demo_shm_env_def demo_shm_proc_def clean_def)
  then obtain views where v: "\<forall>r<2. fst (demo_shm_run r) = Inr (views r) \<and> owned (snd (demo_shm_run r)) \<and> o_name (snd (demo_shm_run r)) = [] \<and>
       ([Shm, Shm] ! r = Shm \<longrightarrow> edge_shares 1 (demo_shm_env r) (demo_shm_env ((r + 1) mod 2)) (snd (demo_shm_run r))
          (snd (demo_shm_run ((r + 1) mod 2))) (views r) (views ((r + 1) mod 2)))"
    using demo_shm_returns by force
  from v[rule_format, of 0] v[rule_format, of 1] show ?thesis by (intro exI[of _ "views 0"] exI[of _ "views 1"]) simp
qed

end
