(* ===== verification/Mpi_P2p.thy ===== *)
theory Mpi_P2p
  imports Mpi_Exchange "HOL-Library.Multiset"
begin

text \<open>
  P2P edges between processes: \<open>transport/p2p/mpi_p2p.cc\<close>. The receiver of an edge allocates device memory and exports an IPC
  handle, the sender opens the handle. A word in shared memory, the close control, lets the receiver wait with \<open>cudaFree\<close>
  until the sender has closed its mapping. Handles are values of a type \<open>'h\<close>; what the calls answer is the argument \<open>p2p_env\<close>;
  the system calls of a clean-up are taken to succeed.
\<close>

section \<open>Data\<close>

datatype p2p_res = P_alloc nat | P_ipc nat | P_name string | P_fd nat | P_ctl nat

record p2p_proc =
  p_held :: "p2p_res list"
  ctl_seq :: "64 word"
  local_region :: "nat option"
  remote_region :: "nat option"
  local_control_name :: string
  local_close_control :: "nat option"
  remote_close_control :: "nat option"
  local_control_fd :: "nat option"
  remote_control_fd :: "nat option"
  wait_for_close :: bool

record 'h p2p_env =
  p_pid :: int
  p_set_device :: "string option"
  region_malloc :: "string + nat"
  region_memset :: "string option"
  export_handle :: "nat \<Rightarrow> string + 'h"
  null_handle :: 'h
  ctl_open :: "64 word \<Rightarrow> (string \<times> bool) + nat"
  ctl_truncate :: "string option"
  ctl_mmap :: "string + nat"
  peer_ctl_open :: "string \<Rightarrow> string + nat"
  peer_ctl_mmap :: "string + nat"
  ipc_open :: "'h \<Rightarrow> string + nat"
  ipc_close_error :: "string option"
  peer_closed_in_time :: bool

definition p_hold :: "p2p_res \<Rightarrow> (p2p_proc, unit) comp" where
  "p_hold x = change (\<lambda>s. s\<lparr>p_held := x # p_held s\<rparr>)"

definition p_release :: "p2p_res \<Rightarrow> p2p_proc \<Rightarrow> p2p_proc" where
  "p_release x s = s\<lparr>p_held := remove1 x (p_held s)\<rparr>"

definition cuda_answer :: "string + 'x \<Rightarrow> ('s, 'x) comp" where
  "cuda_answer a = (case a of Inl e \<Rightarrow> raise (Runtime_error (''CUDA error: '' @ e)) | Inr x \<Rightarrow> ret x)"

definition cuda_status_ok :: "string option \<Rightarrow> ('s, unit) comp" where
  "cuda_status_ok a = cuda_answer (case a of Some e \<Rightarrow> Inl e | None \<Rightarrow> Inr ())"

section \<open>The owner\<close>

definition unlink_local_control :: "p2p_proc \<Rightarrow> p2p_proc" where
  "unlink_local_control s =
     (if local_control_name s = [] then s else (p_release (P_name (local_control_name s)) s)\<lparr>local_control_name := []\<rparr>)"

definition unmap_control :: "nat option \<Rightarrow> nat option \<Rightarrow> p2p_proc \<Rightarrow> p2p_proc" where
  "unmap_control pointer fd s =
     (let s1 = (case pointer of None \<Rightarrow> s | Some p \<Rightarrow> p_release (P_ctl p) s) in
      case fd of None \<Rightarrow> s1 | Some f \<Rightarrow> p_release (P_fd f) s1)"

text \<open>Closing the mapping of the peer's region; the flag says whether the peer's close control was set.\<close>

definition close_remote :: "string option \<Rightarrow> p2p_proc \<Rightarrow> bool \<times> p2p_proc" where
  "close_remote status s =
     (case remote_region s of
        None \<Rightarrow> (False, s)
      | Some p \<Rightarrow> (status = None \<and> remote_close_control s \<noteq> None,
                   (if status = None then p_release (P_ipc p) s else s)\<lparr>remote_region := None\<rparr>))"

definition arm_close_wait :: "bool \<Rightarrow> bool \<Rightarrow> p2p_proc \<Rightarrow> p2p_proc" where
  "arm_close_wait has_incoming opened s = (if has_incoming then s\<lparr>wait_for_close := opened\<rparr> else s)"

definition sender_closed :: "bool \<Rightarrow> p2p_proc \<Rightarrow> bool" where
  "sender_closed closed_in_time s = (if wait_for_close s then local_close_control s \<noteq> None \<and> closed_in_time else True)"

definition free_local :: "bool \<Rightarrow> p2p_proc \<Rightarrow> p2p_proc" where
  "free_local closed_in_time s =
     (case local_region s of
        None \<Rightarrow> s
      | Some p \<Rightarrow> if sender_closed closed_in_time s then (p_release (P_alloc p) s)\<lparr>local_region := None\<rparr> else s)"

text \<open>The destructor: \<open>status\<close> is the answer of \<open>cudaIpcCloseMemHandle\<close>, \<open>closed_in_time\<close> what the wait for the peer saw.\<close>

definition destroy_p2p :: "string option \<Rightarrow> bool \<Rightarrow> p2p_proc \<Rightarrow> bool \<times> p2p_proc" where
  "destroy_p2p status closed_in_time s =
     (case close_remote status s of (signalled, s1) \<Rightarrow>
        let s2 = free_local closed_in_time s1;
            s3 = (unmap_control (remote_close_control s2) (remote_control_fd s2) s2)\<lparr>remote_close_control := None, remote_control_fd := None\<rparr>;
            s4 = (unmap_control (local_close_control s3) (local_control_fd s3) s3)\<lparr>local_close_control := None, local_control_fd := None\<rparr>
        in (signalled, unlink_local_control s4))"

section \<open>Close controls\<close>

definition control_name :: "int \<Rightarrow> nat \<Rightarrow> 64 word \<Rightarrow> string" where
  "control_name = object_name ''/nano_nccl_ipc_''"

definition close_and_unlink :: "nat \<Rightarrow> string \<Rightarrow> p2p_proc \<Rightarrow> p2p_proc" where
  "close_and_unlink fd name s = p_release (P_name name) (p_release (P_fd fd) s)"

fun control_attempts :: "nat \<Rightarrow> 'h p2p_env \<Rightarrow> nat \<Rightarrow> (p2p_proc, string \<times> nat \<times> nat) comp" where
  "control_attempts 0 env rank = raise (Runtime_error ''could not allocate a unique CUDA IPC control name'')"
| "control_attempts (Suc n) env rank =
     with_state (\<lambda>s.
       let name = control_name (p_pid env) rank (ctl_seq s) in
       andalso (change (\<lambda>s. s\<lparr>ctl_seq := ctl_seq s + 1\<rparr>))
         (case ctl_open env (ctl_seq s) of
            Inl (err, exists) \<Rightarrow>
              if exists then control_attempts n env rank else raise (Runtime_error (''shm_open(CUDA IPC control): '' @ err))
          | Inr fd \<Rightarrow>
              andalso (p_hold (P_name name)) (andalso (p_hold (P_fd fd))
                (case ctl_truncate env of
                   Some err \<Rightarrow> andalso (change (close_and_unlink fd name)) (raise (Runtime_error (''ftruncate(CUDA IPC control): '' @ err)))
                 | None \<Rightarrow>
                     (case ctl_mmap env of
                        Inl err \<Rightarrow> andalso (change (close_and_unlink fd name)) (raise (Runtime_error (''mmap(CUDA IPC control): '' @ err)))
                      | Inr control \<Rightarrow> andalso (p_hold (P_ctl control)) (ret (name, control, fd)))))))"

definition create_close_control :: "'h p2p_env \<Rightarrow> nat \<Rightarrow> (p2p_proc, string \<times> nat \<times> nat) comp" where
  "create_close_control = control_attempts 32"

definition open_close_control :: "'h p2p_env \<Rightarrow> string \<Rightarrow> (p2p_proc, nat \<times> nat) comp" where
  "open_close_control env name =
     (case peer_ctl_open env name of
        Inl err \<Rightarrow> raise (Runtime_error (''shm_open(CUDA IPC peer control): '' @ err))
      | Inr fd \<Rightarrow>
          (case peer_ctl_mmap env of
             Inl err \<Rightarrow> raise (Runtime_error (''mmap(CUDA IPC peer control): '' @ err))
           | Inr control \<Rightarrow> andalso (p_hold (P_fd fd)) (andalso (p_hold (P_ctl control)) (ret (control, fd)))))"

section \<open>Probing the edges\<close>

record 'h probe_env =
  probe_set_device :: "string option"
  probe_malloc :: "string + nat"
  probe_export :: "nat \<Rightarrow> string + 'h"
  probe_null :: 'h
  probe_open :: "'h \<Rightarrow> string + nat"
  probe_close :: "string option"
  probe_free :: "string option"

text \<open>The handle, the flag and the allocation of a rank.\<close>

definition probe_local :: "'h probe_env \<Rightarrow> 'h \<times> int \<times> nat option" where
  "probe_local env =
     (case probe_malloc env of
        Inl _ \<Rightarrow> (probe_null env, 0, None)
      | Inr p \<Rightarrow> (case probe_export env p of Inl _ \<Rightarrow> (probe_null env, 0, Some p) | Inr h \<Rightarrow> (h, 1, Some p)))"

definition probe_outgoing :: "nat \<Rightarrow> 'h probe_env \<Rightarrow> int list \<Rightarrow> 'h list \<Rightarrow> int list \<Rightarrow> nat \<Rightarrow> int" where
  "probe_outgoing K env node_ids handles handle_ok rank =
     (let receiver = (rank + 1) mod K; (_, local_ok, local_probe) = probe_local env;
          opened = (if node_ids ! rank = node_ids ! receiver \<and> local_ok \<noteq> 0 \<and> handle_ok ! receiver \<noteq> 0
                    then (case probe_open env (handles ! receiver) of Inl _ \<Rightarrow> 0 | Inr _ \<Rightarrow> if probe_close env = None then 1 else 0)
                    else 0) in
      if local_probe \<noteq> None \<and> probe_free env \<noteq> None then 0 else opened)"

definition probe_mpi_p2p_edges ::
    "('u, 'h) exchange_world \<Rightarrow> nat \<Rightarrow> (nat \<Rightarrow> 'h probe_env) \<Rightarrow> int list \<Rightarrow> nat \<Rightarrow> bool list result" where
  "probe_mpi_p2p_edges w K env node_ids rank =
     (case probe_set_device (env rank) of
        Some e \<Rightarrow> Inl (Runtime_error (''CUDA error: '' @ e))
      | None \<Rightarrow>
        rbind (mpi_check ''MPI_Allgather(CUDA IPC probe handles)''
          (allgather_addr w ''MPI_Allgather(CUDA IPC probe handles)'' rank (map (\<lambda>r. fst (probe_local (env r))) [0..<K]))) (\<lambda>handles.
        rbind (mpi_check ''MPI_Allgather(CUDA IPC probe status)''
          (allgather_int w ''MPI_Allgather(CUDA IPC probe status)'' rank (map (\<lambda>r. fst (snd (probe_local (env r)))) [0..<K]))) (\<lambda>handle_ok.
        rbind (barrier_check w ''MPI_Barrier(CUDA IPC probe)'' rank) (\<lambda>_.
        rbind (mpi_check ''MPI_Allgather(CUDA IPC edge status)''
          (allgather_int w ''MPI_Allgather(CUDA IPC edge status)'' rank
            (map (\<lambda>r. probe_outgoing K (env r) node_ids handles handle_ok r) [0..<K]))) (\<lambda>edge_ok.
          Inr (map (\<lambda>ok. ok \<noteq> 0) edge_ok))))))"

section \<open>The exchange\<close>

definition export_region :: "'h p2p_env \<Rightarrow> nat \<Rightarrow> (p2p_proc, nat \<times> 'h \<times> string) comp" where
  "export_region env rank =
     andthen (cuda_answer (region_malloc env)) (\<lambda>region.
     andalso (p_hold (P_alloc region))
    (andalso (change (\<lambda>s. s\<lparr>local_region := Some region\<rparr>))
    (andalso (cuda_status_ok (region_memset env))
    (andthen (cuda_answer (export_handle env region)) (\<lambda>handle.
     andthen (create_close_control env rank) (\<lambda>(name, control, fd).
     andalso (change (\<lambda>s. s\<lparr>local_control_name := name, local_close_control := Some control, local_control_fd := Some fd\<rparr>))
       (ret (region, handle, name))))))))"

record 'h p2p_local =
  e_ok :: int
  e_region :: "nat option"
  e_handle :: 'h
  e_control :: string
  e_error :: string

text \<open>Line 300: the device is set before the exchange begins, outside of every handler.\<close>

definition p2p_export :: "nat \<Rightarrow> TransportKind list \<Rightarrow> 'h p2p_env \<Rightarrow> nat \<Rightarrow> (p2p_proc, 'h p2p_local) comp" where
  "p2p_export K kinds env rank s =
     (if kinds ! incoming_edge K rank \<noteq> P2p
      then (Inr \<lparr>e_ok = 1, e_region = None, e_handle = null_handle env, e_control = [], e_error = []\<rparr>, s)
      else case export_region env rank s of
        (Inr (region, handle, name), s') \<Rightarrow>
          (Inr \<lparr>e_ok = 1, e_region = Some region, e_handle = handle, e_control = text128 name, e_error = []\<rparr>, s')
      | (Inl e, s') \<Rightarrow>
          (Inr \<lparr>e_ok = 0, e_region = local_region s', e_handle = null_handle env, e_control = [], e_error =
             text512 (''P2P incoming edge '' @ string_of_nat (incoming_edge K rank) @ ''->'' @ string_of_nat rank @
               '' allocation/export failed at global rank '' @ string_of_nat rank @ '': '' @ what e)\<rparr>, s'))"

definition open_peer_region :: "nat \<Rightarrow> 'h p2p_env \<Rightarrow> nat \<Rightarrow> 'h list \<Rightarrow> string list \<Rightarrow> (p2p_proc, nat) comp" where
  "open_peer_region K env rank handles control_names =
     (let receiver = (rank + 1) mod K; name = control_names ! receiver in
      if name = [] then raise (Runtime_error ''CUDA IPC receiver did not publish close control'')
      else andthen (open_close_control env name) (\<lambda>(control, fd).
           andalso (change (\<lambda>s. s\<lparr>remote_close_control := Some control, remote_control_fd := Some fd\<rparr>))
          (andthen (cuda_answer (ipc_open env (handles ! receiver))) (\<lambda>region.
           andalso (p_hold (P_ipc region)) (andalso (change (\<lambda>s. s\<lparr>remote_region := Some region\<rparr>)) (ret region))))))"

record p2p_opened =
  q_ok :: int
  q_region :: "nat option"
  q_error :: string

definition p2p_open :: "nat \<Rightarrow> TransportKind list \<Rightarrow> 'h p2p_env \<Rightarrow> nat \<Rightarrow> 'h list \<Rightarrow> string list \<Rightarrow> (p2p_proc, p2p_opened) comp" where
  "p2p_open K kinds env rank handles control_names s =
     (if kinds ! rank \<noteq> P2p then (Inr \<lparr>q_ok = 1, q_region = None, q_error = []\<rparr>, s)
      else case open_peer_region K env rank handles control_names s of
        (Inr region, s') \<Rightarrow> (Inr \<lparr>q_ok = 1, q_region = Some region, q_error = []\<rparr>, s')
      | (Inl e, s') \<Rightarrow>
          (Inr \<lparr>q_ok = 0, q_region = None, q_error = text512 (''P2P outgoing edge '' @ string_of_nat rank @ ''->'' @
             string_of_nat ((rank + 1) mod K) @ '' mapping failed at global rank '' @ string_of_nat rank @ '': '' @ what e)\<rparr>, s'))"

text \<open>What the ranks contribute.\<close>

definition exported_by :: "nat \<Rightarrow> TransportKind list \<Rightarrow> (nat \<Rightarrow> 'h p2p_env) \<Rightarrow> (nat \<Rightarrow> p2p_proc) \<Rightarrow> nat \<Rightarrow> 'h p2p_local" where
  "exported_by K kinds env procs r = projr (fst (p2p_export K kinds (env r) r (procs r)))"

definition opened_by ::
    "nat \<Rightarrow> TransportKind list \<Rightarrow> (nat \<Rightarrow> 'h p2p_env) \<Rightarrow> (nat \<Rightarrow> p2p_proc) \<Rightarrow> 'h list \<Rightarrow> string list \<Rightarrow> nat \<Rightarrow> p2p_opened" where
  "opened_by K kinds env procs handles control_names r =
     projr (fst (p2p_open K kinds (env r) r handles control_names (snd (p2p_export K kinds (env r) r (procs r)))))"

definition throw_first_error :: "('u, 'h) exchange_world \<Rightarrow> string \<Rightarrow> nat \<Rightarrow> int \<Rightarrow> string list \<Rightarrow> (p2p_proc, unit) comp" where
  "throw_first_error w prefix rank all_ok errs =
     run_if (all_ok = 0)
       (andthen (lift (gather_first_error w ''MPI_Allgather(CUDA IPC errors)'' ''unknown CUDA IPC setup error'' rank errs))
          (\<lambda>e. raise (Runtime_error (prefix @ e))))"

definition create_mpi_p2p_connections ::
    "('u, 'h) exchange_world \<Rightarrow> nat \<Rightarrow> nat \<Rightarrow> TransportKind list \<Rightarrow> (nat \<Rightarrow> 'h p2p_env) \<Rightarrow> (nat \<Rightarrow> p2p_proc) \<Rightarrow> nat \<Rightarrow>
     (p2p_proc, (nat, nat) connection_resources) comp" where
  "create_mpi_p2p_connections w K C kinds env procs rank =
     (if P2p \<notin> set kinds then ret no_resources
      else on_exception
        (andalso (cuda_status_ok (p_set_device (env rank)))
        (andthen (p2p_export K kinds (env rank) rank) (\<lambda>mine.
         andthen (lift (mpi_check ''MPI_Allgather(CUDA IPC handles)'' (allgather_addr w ''MPI_Allgather(CUDA IPC handles)'' rank
            (map (\<lambda>r. e_handle (exported_by K kinds env procs r)) [0..<K])))) (\<lambda>handles.
         andthen (lift (mpi_check ''MPI_Allgather(CUDA IPC close controls)'' (allgather_text w ''MPI_Allgather(CUDA IPC close controls)'' rank
            (map (\<lambda>r. e_control (exported_by K kinds env procs r)) [0..<K])))) (\<lambda>control_names.
         andthen (lift (mpi_check ''MPI_Allreduce(CUDA IPC allocation)'' (allreduce_min w ''MPI_Allreduce(CUDA IPC allocation)'' rank
            (map (\<lambda>r. e_ok (exported_by K kinds env procs r)) [0..<K])))) (\<lambda>all_ok.
         andalso (throw_first_error w ''CUDA IPC FIFO allocation failed: '' rank all_ok
            (map (\<lambda>r. e_error (exported_by K kinds env procs r)) [0..<K]))
        (andthen (p2p_open K kinds (env rank) rank handles control_names) (\<lambda>opened.
         andthen (lift (mpi_check ''MPI_Allreduce(CUDA IPC mapping)'' (allreduce_min w ''MPI_Allreduce(CUDA IPC mapping)'' rank
            (map (\<lambda>r. q_ok (opened_by K kinds env procs handles control_names r)) [0..<K])))) (\<lambda>all_mapped.
         andthen (lift (mpi_check ''MPI_Allgather(CUDA IPC opened edges)'' (allgather_int w ''MPI_Allgather(CUDA IPC opened edges)'' rank
            (map (\<lambda>r. if q_region (opened_by K kinds env procs handles control_names r) = None then 0 else 1) [0..<K])))) (\<lambda>opened_edges.
         andalso (change (arm_close_wait (kinds ! incoming_edge K rank = P2p) (opened_edges ! incoming_edge K rank \<noteq> 0)))
        (andalso (throw_first_error w ''CUDA IPC FIFO mapping failed: '' rank all_mapped
            (map (\<lambda>r. q_error (opened_by K kinds env procs handles control_names r)) [0..<K]))
        (andalso (lift (barrier_check w ''MPI_Barrier(CUDA IPC initialize)'' rank))
        (andalso (change unlink_local_control)
           (ret (region_view C (if kinds ! incoming_edge K rank = P2p then e_region mine else None)
              (if kinds ! rank = P2p then q_region opened else None) rank)))))))))))))))
        (\<lambda>s. snd (destroy_p2p (ipc_close_error (env rank)) (peer_closed_in_time (env rank)) s)))"

section \<open>Ownership\<close>

definition opt_res :: "('x \<Rightarrow> p2p_res) \<Rightarrow> 'x option \<Rightarrow> p2p_res multiset" where
  "opt_res f x = (case x of None \<Rightarrow> {#} | Some y \<Rightarrow> {#f y#})"

lemma opt_res_simps [simp]: "opt_res f None = {#}" "opt_res f (Some y) = {#f y#}"
  by (simp_all add: opt_res_def)

definition p_owner_res :: "p2p_proc \<Rightarrow> p2p_res multiset" where
  "p_owner_res s = opt_res P_alloc (local_region s) + opt_res P_ipc (remote_region s) +
     (if local_control_name s = [] then {#} else {#P_name (local_control_name s)#}) +
     opt_res P_ctl (local_close_control s) + opt_res P_ctl (remote_close_control s) +
     opt_res P_fd (local_control_fd s) + opt_res P_fd (remote_control_fd s)"

definition p_owned :: "p2p_proc \<Rightarrow> bool" where
  "p_owned s \<longleftrightarrow> mset (p_held s) = p_owner_res s"

definition p_clean :: "p2p_proc \<Rightarrow> bool" where
  "p_clean s \<longleftrightarrow> p_held s = [] \<and> local_region s = None \<and> remote_region s = None \<and> local_control_name s = [] \<and>
     local_close_control s = None \<and> remote_close_control s = None \<and> local_control_fd s = None \<and> remote_control_fd s = None \<and>
     \<not> wait_for_close s"

lemma p_owned_members:
  assumes "p_owned s"
  shows "P_ipc p \<in> set (p_held s) \<longleftrightarrow> remote_region s = Some p" "P_alloc p \<in> set (p_held s) \<longleftrightarrow> local_region s = Some p"
proof -
  have m: "x \<in> set (p_held s) \<longleftrightarrow> x \<in># p_owner_res s" for x
    using assms by (metis p_owned_def set_mset_mset)
  show "P_ipc p \<in> set (p_held s) \<longleftrightarrow> remote_region s = Some p" "P_alloc p \<in> set (p_held s) \<longleftrightarrow> local_region s = Some p"
    by (auto simp: m p_owner_res_def opt_res_def split: option.splits)
qed


lemma mset_release [simp]: "mset (p_held (p_release x s)) = mset (p_held s) - {#x#}"
  by (simp add: p_release_def)

lemma release_fields [simp]:
  "local_region (p_release x s) = local_region s" "remote_region (p_release x s) = remote_region s"
  "local_control_name (p_release x s) = local_control_name s" "local_close_control (p_release x s) = local_close_control s"
  "remote_close_control (p_release x s) = remote_close_control s" "local_control_fd (p_release x s) = local_control_fd s"
  "remote_control_fd (p_release x s) = remote_control_fd s" "wait_for_close (p_release x s) = wait_for_close s"
  by (simp_all add: p_release_def)

lemma close_remote_owned: "p_owned s \<Longrightarrow> p_owned (snd (close_remote None s))"
  by (cases "remote_region s") (simp_all add: close_remote_def p_owned_def p_owner_res_def)

lemma free_local_owned: "p_owned s \<Longrightarrow> p_owned (free_local t s)"
  by (cases "local_region s") (simp_all add: free_local_def p_owned_def p_owner_res_def)

lemma unlink_control_owned: "p_owned s \<Longrightarrow> p_owned (unlink_local_control s)"
  by (simp add: unlink_local_control_def p_owned_def p_owner_res_def)

lemma unmap_remote_owned:
  "p_owned s \<Longrightarrow> p_owned ((unmap_control (remote_close_control s) (remote_control_fd s) s)\<lparr>remote_close_control := None, remote_control_fd := None\<rparr>)"
  by (cases "remote_close_control s"; cases "remote_control_fd s") (simp_all add: unmap_control_def p_owned_def p_owner_res_def)

lemma unmap_local_owned:
  "p_owned s \<Longrightarrow> p_owned ((unmap_control (local_close_control s) (local_control_fd s) s)\<lparr>local_close_control := None, local_control_fd := None\<rparr>)"
  by (cases "local_close_control s"; cases "local_control_fd s") (simp_all add: unmap_control_def p_owned_def p_owner_res_def)

lemma unmap_fields [simp]:
  "local_region (unmap_control p f s) = local_region s" "remote_region (unmap_control p f s) = remote_region s"
  "remote_close_control (unmap_control p f s) = remote_close_control s" "remote_control_fd (unmap_control p f s) = remote_control_fd s"
  by (simp_all add: unmap_control_def Let_def split: option.splits)

text \<open>The destructor gives everything back, but for a region whose peer has not closed it in time.\<close>

lemma destroy_p2p_owned:
  assumes "p_owned s" "t = snd (destroy_p2p None closed_in_time s)"
  shows "p_held t = (case local_region t of None \<Rightarrow> [] | Some p \<Rightarrow> [P_alloc p])"
    and "local_region t = (if sender_closed closed_in_time s then None else local_region s)"
proof -
  let ?c = "snd (close_remote None s)"
  have fields: "remote_region ?c = None" "local_region ?c = local_region s"
    "sender_closed closed_in_time ?c = sender_closed closed_in_time s"
    by (simp_all add: close_remote_def sender_closed_def split: option.splits)
  let ?f = "free_local closed_in_time ?c"
  have f: "p_owned ?f" "remote_region ?f = None"
    "local_region ?f = (if sender_closed closed_in_time s then None else local_region s)"
    using close_remote_owned[OF assms(1)] fields
    by (auto simp: free_local_owned) (simp_all add: free_local_def split: option.splits)
  let ?u = "(unmap_control (remote_close_control ?f) (remote_control_fd ?f) ?f)\<lparr>remote_close_control := None, remote_control_fd := None\<rparr>"
  let ?v = "(unmap_control (local_close_control ?u) (local_control_fd ?u) ?u)\<lparr>local_close_control := None, local_control_fd := None\<rparr>"
  have t: "t = unlink_local_control ?v"
    by (simp add: assms(2) destroy_p2p_def Let_def split: prod.splits)
  have lt: "local_region t = local_region ?f" unfolding t by (simp add: unlink_local_control_def)
  have "p_owned t" unfolding t by (intro unlink_control_owned unmap_local_owned unmap_remote_owned f(1))
  moreover have "p_owner_res t = opt_res P_alloc (local_region t)"
    unfolding t by (simp add: p_owner_res_def unlink_local_control_def f(2))
  ultimately show "p_held t = (case local_region t of None \<Rightarrow> [] | Some p \<Rightarrow> [P_alloc p])"
    by (cases "local_region t") (simp_all add: p_owned_def mset_single_iff)
  show "local_region t = (if sender_closed closed_in_time s then None else local_region s)" using lt f(3) by simp
qed

section \<open>The stages\<close>

lemmas p2p_comp = andalso_def andthen_def ret_def raise_def change_def with_state_def lift_def p_hold_def cuda_answer_def cuda_status_ok_def

lemma control_attempts_spec:
  "control_attempts n env rank s = (r, s') \<Longrightarrow>
   (case r of
      Inl e \<Rightarrow> \<exists>k. s' = s\<lparr>ctl_seq := k\<rparr>
    | Inr (name, control, fd) \<Rightarrow> \<exists>k q. name = control_name (p_pid env) rank k \<and>
        s' = s\<lparr>ctl_seq := q, p_held := P_ctl control # P_fd fd # P_name name # p_held s\<rparr>)"
proof (induction n arbitrary: s)
  case 0
  then show ?case by (auto simp: raise_def intro!: exI[of _ "ctl_seq s"])
next
  case (Suc n)
  show ?case
  proof (cases "ctl_open env (ctl_seq s)")
    case (Inl a)
    obtain err exists where a: "a = (err, exists)" by fastforce
    show ?thesis
    proof (cases exists)
      case True
      then have "control_attempts n env rank (s\<lparr>ctl_seq := ctl_seq s + 1\<rparr>) = (r, s')" using Suc.prems Inl a by (simp add: p2p_comp Let_def)
      from Suc.IH[OF this] show ?thesis by (auto split: sum.splits)
    qed (use Suc.prems Inl a in \<open>auto simp: p2p_comp Let_def\<close>)
  next
    case (Inr fd)
    then show ?thesis using Suc.prems
      by (auto simp: p2p_comp Let_def close_and_unlink_def p_release_def split: option.splits sum.splits)
  qed
qed


lemma control_name_nonempty [simp]: "control_name p r k \<noteq> []"
  by (simp add: control_name_def object_name_def)

definition nothing_opened :: "p2p_proc \<Rightarrow> bool" where
  "nothing_opened s \<longleftrightarrow> remote_region s = None \<and> remote_close_control s = None \<and> remote_control_fd s = None \<and> \<not> wait_for_close s"

lemma export_region_spec:
  assumes "p_clean s" "export_region env rank s = (x, s')"
  shows "p_owned s' \<and> nothing_opened s' \<and>
    (case x of Inl e \<Rightarrow> True
     | Inr (region, handle, name) \<Rightarrow> export_handle env region = Inr handle \<and> local_region s' = Some region \<and>
         local_close_control s' \<noteq> None \<and> (\<exists>k. name = control_name (p_pid env) rank k))"
proof (cases "region_malloc env")
  case (Inl e)
  then show ?thesis using assms
    by (auto simp: export_region_def p2p_comp p_clean_def p_owned_def p_owner_res_def nothing_opened_def)
next
  case (Inr region)
  let ?s = "s\<lparr>p_held := P_alloc region # p_held s, local_region := Some region\<rparr>"
  have c: "p_owned ?s" "nothing_opened ?s" using assms(1) by (auto simp: p_clean_def p_owned_def p_owner_res_def nothing_opened_def)
  show ?thesis
  proof (cases "region_memset env = None \<and> (\<exists>h. export_handle env region = Inr h)")
    case False
    then show ?thesis using assms(2) Inr c by (auto simp: export_region_def p2p_comp split: option.splits sum.splits)
  next
    case True
    then obtain h where h: "region_memset env = None" "export_handle env region = Inr h" by blast
    obtain y s2 where y: "create_close_control env rank ?s = (y, s2)" by fastforce
    note spec = control_attempts_spec[OF y[unfolded create_close_control_def]]
    show ?thesis
    proof (cases y)
      case y': (Inl e)
      then have "s' = s2" "x = Inl e" using assms(2) Inr h y by (auto simp: export_region_def p2p_comp)
      then show ?thesis using spec y' c by (auto simp: p_owned_def p_owner_res_def nothing_opened_def)
    next
      case y': (Inr z)
      obtain name control fd where z: "z = (name, control, fd)" by (cases z)
      have "s' = s2\<lparr>local_control_name := name, local_close_control := Some control, local_control_fd := Some fd\<rparr>"
        "x = Inr (region, h, name)" using assms(2) Inr h y y' z by (auto simp: export_region_def p2p_comp)
      then show ?thesis using spec y' z c assms(1) h by (auto simp: p_owned_def p_owner_res_def nothing_opened_def p_clean_def)
    qed
  qed
qed

lemma open_peer_region_spec:
  assumes "p_owned s" "nothing_opened s" "open_peer_region K env rank handles names s = (x, s')"
  shows "p_owned s' \<and> local_region s' = local_region s \<and> local_close_control s' = local_close_control s \<and>
    local_control_name s' = local_control_name s \<and> \<not> wait_for_close s' \<and>
    (case x of Inl e \<Rightarrow> remote_region s' = None
     | Inr p \<Rightarrow> remote_region s' = Some p \<and> remote_close_control s' \<noteq> None \<and> names ! ((rank + 1) mod K) \<noteq> [] \<and>
         ipc_open env (handles ! ((rank + 1) mod K)) = Inr p)"
  using assms
  by (auto simp: open_peer_region_def open_close_control_def p2p_comp Let_def nothing_opened_def p_owned_def p_owner_res_def
      split: sum.splits if_splits)

lemma p2p_export_spec:
  assumes "p_clean s" "p2p_export K kinds env rank s = (x, s')"
  shows "\<exists>l. x = Inr l \<and> p_owned s' \<and> nothing_opened s' \<and> (e_ok l = 0 \<or> e_ok l = 1) \<and>
    (e_ok l = 1 \<longrightarrow>
      (if kinds ! incoming_edge K rank = P2p
       then \<exists>region. e_region l = Some region \<and> local_region s' = Some region \<and> export_handle env region = Inr (e_handle l) \<and>
              local_close_control s' \<noteq> None
       else e_region l = None))"
proof (cases "kinds ! incoming_edge K rank = P2p")
  case False
  then show ?thesis using assms by (auto simp: p2p_export_def p_clean_def p_owned_def p_owner_res_def nothing_opened_def)
next
  case True
  obtain y t where y: "export_region env rank s = (y, t)" by fastforce
  show ?thesis using export_region_spec[OF assms(1) y] assms(2) y True
    by (cases y) (auto simp: p2p_export_def)
qed

lemma p2p_open_spec:
  assumes "p_owned s" "nothing_opened s" "p2p_open K kinds env rank handles names s = (x, s')"
  shows "\<exists>q. x = Inr q \<and> p_owned s' \<and> local_region s' = local_region s \<and> local_close_control s' = local_close_control s \<and>
    \<not> wait_for_close s' \<and> (q_ok q = 0 \<or> q_ok q = 1) \<and> q_region q = remote_region s' \<and>
    (q_ok q = 1 \<longrightarrow>
      (if kinds ! rank = P2p
       then \<exists>p. q_region q = Some p \<and> remote_close_control s' \<noteq> None \<and> ipc_open env (handles ! ((rank + 1) mod K)) = Inr p
       else q_region q = None))"
proof (cases "kinds ! rank = P2p")
  case False
  then show ?thesis using assms by (auto simp: p2p_open_def nothing_opened_def)
next
  case True
  obtain y t where y: "open_peer_region K env rank handles names s = (y, t)" by fastforce
  show ?thesis using open_peer_region_spec[OF assms(1,2) y] assms(3) y True
    by (cases y) (auto simp: p2p_open_def)
qed

lemma throw_first_error_eq:
  assumes "exchange_laws w" "0 < K" "\<And>r. r < K \<Longrightarrow> f r = 0 \<or> f r = (1 :: int)"
  shows "throw_first_error w prefix rank (Min (set (map f [0..<K]))) errs s =
    (if \<forall>r<K. f r = 1 then (Inr (), s) else (Inl (Runtime_error (agreed_text ''unknown CUDA IPC setup error'' prefix errs)), s))"
proof -
  have "allgather_text w op rank errs = Inr errs" for op using assms(1) by (simp add: exchange_laws_def)
  moreover have "Min (set (map f [0..<K])) = 0 \<longleftrightarrow> \<not> (\<forall>r<K. f r = 1)" using Min_flags(1)[of K f, OF assms(2,3)] by blast
  ultimately show ?thesis
    by (auto simp: throw_first_error_def andthen_def lift_def run_if_def ret_def raise_def gather_first_error_def agreed_text_def rbind_def
        simp del: set_map)
qed

lemma exported_facts:
  assumes "p_clean (procs r)" "s1 = snd (p2p_export K kinds (env r) r (procs r))" "l = exported_by K kinds env procs r"
  shows "p2p_export K kinds (env r) r (procs r) = (Inr l, s1)" "p_owned s1" "nothing_opened s1" "e_ok l = 0 \<or> e_ok l = 1"
    and "e_ok l = 1 \<longrightarrow>
      (if kinds ! incoming_edge K r = P2p
       then \<exists>region. e_region l = Some region \<and> local_region s1 = Some region \<and> export_handle (env r) region = Inr (e_handle l) \<and>
              local_close_control s1 \<noteq> None
       else e_region l = None)"
proof -
  obtain x t where x: "p2p_export K kinds (env r) r (procs r) = (x, t)" by fastforce
  from p2p_export_spec[OF assms(1) x] obtain l' where "x = Inr l'" by blast
  then have l: "x = Inr l" "t = s1" using assms(2,3) x by (simp_all add: exported_by_def)
  show "p2p_export K kinds (env r) r (procs r) = (Inr l, s1)" "p_owned s1" "nothing_opened s1" "e_ok l = 0 \<or> e_ok l = 1"
    "e_ok l = 1 \<longrightarrow>
      (if kinds ! incoming_edge K r = P2p
       then \<exists>region. e_region l = Some region \<and> local_region s1 = Some region \<and> export_handle (env r) region = Inr (e_handle l) \<and>
              local_close_control s1 \<noteq> None
       else e_region l = None)"
    using p2p_export_spec[OF assms(1) x] x l by auto
qed

lemma opened_facts:
  assumes "p_clean (procs r)" "s1 = snd (p2p_export K kinds (env r) r (procs r))"
    and "s2 = snd (p2p_open K kinds (env r) r handles names s1)" "q = opened_by K kinds env procs handles names r"
  shows "p2p_open K kinds (env r) r handles names s1 = (Inr q, s2)" "p_owned s2" "local_region s2 = local_region s1"
    and "local_close_control s2 = local_close_control s1" "\<not> wait_for_close s2" "q_ok q = 0 \<or> q_ok q = 1" "q_region q = remote_region s2"
    and "q_ok q = 1 \<longrightarrow> kinds ! r = P2p \<longrightarrow>
      (\<exists>p. remote_region s2 = Some p \<and> remote_close_control s2 \<noteq> None \<and> ipc_open (env r) (handles ! ((r + 1) mod K)) = Inr p)"
proof -
  obtain x t where x: "p2p_open K kinds (env r) r handles names s1 = (x, t)" by fastforce
  note e = exported_facts[where procs = procs and env = env and K = K and kinds = kinds and r = r, OF assms(1,2) refl]
  note spec = p2p_open_spec[OF e(2,3) x]
  then obtain q' where "x = Inr q'" by blast
  then have q: "x = Inr q" "t = s2" using assms(2-4) x by (simp_all add: opened_by_def)
  show "p2p_open K kinds (env r) r handles names s1 = (Inr q, s2)" "p_owned s2" "local_region s2 = local_region s1"
    "local_close_control s2 = local_close_control s1" "\<not> wait_for_close s2" "q_ok q = 0 \<or> q_ok q = 1" "q_region q = remote_region s2"
    "q_ok q = 1 \<longrightarrow> kinds ! r = P2p \<longrightarrow>
      (\<exists>p. remote_region s2 = Some p \<and> remote_close_control s2 \<noteq> None \<and> ipc_open (env r) (handles ! ((r + 1) mod K)) = Inr p)"
    using spec x q by auto
qed

lemma p2p_exchange_run:
  assumes "exchange_laws w" "0 < K" "P2p \<in> set kinds" "r < K" "\<forall>r<K. p_clean (procs r) \<and> p_set_device (env r) = None"
  shows "create_mpi_p2p_connections w K C kinds env procs r (procs r) =
    (let s1 = snd (p2p_export K kinds (env r) r (procs r)); made = exported_by K kinds env procs;
         handles = map (\<lambda>r. e_handle (made r)) [0..<K]; names = map (\<lambda>r. e_control (made r)) [0..<K];
         opened = opened_by K kinds env procs handles names;
         s2 = arm_close_wait (kinds ! incoming_edge K r = P2p) (q_region (opened (incoming_edge K r)) \<noteq> None)
                (snd (p2p_open K kinds (env r) r handles names s1));
         destroyed = (\<lambda>s. snd (destroy_p2p (ipc_close_error (env r)) (peer_closed_in_time (env r)) s)) in
     if \<not> (\<forall>q<K. e_ok (made q) = 1)
     then (Inl (Runtime_error (agreed_text ''unknown CUDA IPC setup error'' ''CUDA IPC FIFO allocation failed: ''
             (map (\<lambda>r. e_error (made r)) [0..<K]))), destroyed s1)
     else if \<not> (\<forall>q<K. q_ok (opened q) = 1)
     then (Inl (Runtime_error (agreed_text ''unknown CUDA IPC setup error'' ''CUDA IPC FIFO mapping failed: ''
             (map (\<lambda>r. q_error (opened r)) [0..<K]))), destroyed s2)
     else (Inr (region_view C (if kinds ! incoming_edge K r = P2p then e_region (made r) else None)
             (if kinds ! r = P2p then q_region (opened r) else None) r), unlink_local_control s2))"
proof -
  let ?made = "exported_by K kinds env procs"
  let ?handles = "map (\<lambda>r. e_handle (?made r)) [0..<K]" and ?names = "map (\<lambda>r. e_control (?made r)) [0..<K]"
  let ?opened = "opened_by K kinds env procs ?handles ?names"
  have clean: "p_clean (procs q)" if "q < K" for q using assms(5) that by blast
  have f1: "\<And>q. q < K \<Longrightarrow> e_ok (?made q) = 0 \<or> e_ok (?made q) = 1" by (rule exported_facts(4)[where procs = procs and env = env and K = K and kinds = kinds, OF clean refl refl])
  have f2: "\<And>q. q < K \<Longrightarrow> q_ok (?opened q) = 0 \<or> q_ok (?opened q) = 1" by (rule opened_facts(6)[where procs = procs and env = env and K = K and kinds = kinds, OF clean refl refl refl])
  note t1 = throw_first_error_eq[OF assms(1,2), of "\<lambda>q. e_ok (?made q)", OF f1]
    and t2 = throw_first_error_eq[OF assms(1,2), of "\<lambda>q. q_ok (?opened q)", OF f2]
  have laws: "allgather_text w op q xs = Inr xs" "allgather_int w op q is = Inr is" "allgather_addr w op q hs = Inr hs"
    "mpi_barrier w op q = None" "allreduce_min w op q (map f [0..<K]) = Inr (Min (set (map f [0..<K])))" for op q xs "is" hs f
    using assms(1,2) by (auto simp: exchange_laws_def)
  have inc: "incoming_edge K r < K" using assms(2) by (simp add: incoming_edge_def)
  obtain s1 where s1: "p2p_export K kinds (env r) r (procs r) = (Inr (?made r), s1)"
    using exported_facts(1)[where procs = procs and env = env and K = K and kinds = kinds and r = r, OF clean[OF assms(4)] refl refl] by metis
  have "s1 = snd (p2p_export K kinds (env r) r (procs r))" by (simp add: s1)
  from opened_facts(1)[where procs = procs and env = env and r = r, OF clean[OF assms(4)] this refl refl]
  obtain s2 where s: "p2p_export K kinds (env r) r (procs r) = (Inr (?made r), s1)"
    "p2p_open K kinds (env r) r ?handles ?names s1 = (Inr (?opened r), s2)" using s1 by metis
  have dev: "p_set_device (env r) = None" using assms(4,5) by blast
  show ?thesis
    using s assms(3) inc
    by (auto simp: create_mpi_p2p_connections_def on_exception_def andthen_def andalso_def Let_def lift_def laws t1 t2 dev
        cuda_status_ok_def cuda_answer_def ret_def run_if_def change_def barrier_check_def arm_close_wait_def
        simp del: set_map not_all)
qed

section \<open>Agreement\<close>

text \<open>The two ends of an edge: the sender's mapping is the opened handle of the receiver's region, and the receiver will wait for it.\<close>

definition p2p_edge :: "nat \<Rightarrow> 'h p2p_env \<Rightarrow> 'h p2p_env \<Rightarrow> p2p_proc \<Rightarrow> p2p_proc \<Rightarrow> (nat, nat) connection_resources \<Rightarrow>
    (nat, nat) connection_resources \<Rightarrow> bool" where
  "p2p_edge C env_s env_r s r view_s view_r \<longleftrightarrow>
     (\<exists>p q h. export_handle env_r q = Inr h \<and> ipc_open env_s h = Inr p \<and> remote_region s = Some p \<and> local_region r = Some q \<and>
        remote_close_control s \<noteq> None \<and> local_close_control r \<noteq> None \<and> wait_for_close r \<and>
        (\<forall>ch < C. v_send_fifo view_s ch = Some (connection_fifo C p ch) \<and> v_recv_fifo view_r ch = Some (connection_fifo C q ch) \<and>
           v_send_head view_s ch = Some (connection_head p ch) \<and> v_recv_head view_r ch = Some (connection_head q ch) \<and>
           v_send_tail view_s ch = Some (connection_tail C p ch) \<and> v_recv_tail view_r ch = Some (connection_tail C q ch)))"

lemma p2p_edgeI:
  assumes "export_handle env_r q = Inr h" "ipc_open env_s h = Inr p" "remote_region s = Some p" "local_region r = Some q"
    and "remote_close_control s \<noteq> None" "local_close_control r \<noteq> None" "wait_for_close r"
  shows "p2p_edge C env_s env_r s r (region_view C incoming (Some p) rank) (region_view C (Some q) outgoing rank')"
  unfolding p2p_edge_def
  by (rule exI[of _ p], rule exI[of _ q], rule exI[of _ h]) (simp add: assms region_view_def)

lemma arm_owned [simp]: "p_owned (arm_close_wait h b s) = p_owned s"
  by (simp add: arm_close_wait_def p_owned_def p_owner_res_def)

lemma arm_fields [simp]:
  "local_region (arm_close_wait h b s) = local_region s" "remote_region (arm_close_wait h b s) = remote_region s"
  "local_close_control (arm_close_wait h b s) = local_close_control s"
  "remote_close_control (arm_close_wait h b s) = remote_close_control s"
  "wait_for_close (arm_close_wait h b s) = (if h then b else wait_for_close s)"
  by (simp_all add: arm_close_wait_def)

lemma unlink_control_fields [simp]:
  "local_region (unlink_local_control s) = local_region s" "remote_region (unlink_local_control s) = remote_region s"
  "local_close_control (unlink_local_control s) = local_close_control s" "local_control_name (unlink_local_control s) = []"
  "remote_close_control (unlink_local_control s) = remote_close_control s" "wait_for_close (unlink_local_control s) = wait_for_close s"
  by (simp_all add: unlink_local_control_def)

lemma destroy_p2p_empty:
  assumes "p_owned s" "wait_for_close s \<longrightarrow> local_close_control s \<noteq> None"
  shows "p_held (snd (destroy_p2p None True s)) = []"
  using destroy_p2p_owned[OF assms(1) refl, of True] assms(2) by (auto simp: sender_closed_def split: option.splits if_splits)

text \<open>C15: Property: the exchange of CUDA IPC handles is agreed upon. Whatever the allocations, exports, system calls and openings of the
  single ranks answer, either all ranks throw with the same text, and a rank whose clean-up works keeps nothing; or all ranks
  return, each holds what its owner gives back, no name is left, and on every P2P edge the sender has opened the handle of the
  receiver's region, both views are built on it, and the receiver is armed to wait for the sender. Setting the device, which the
  code does before the first collective, is assumed to work.
\<close>

theorem p2p_exchange_agrees:
  assumes "exchange_laws w" "0 < K" "length kinds = K" "P2p \<in> set kinds"
    and "\<forall>r<K. p_clean (procs r) \<and> p_set_device (env r) = None"
    and "run = (\<lambda>r. create_mpi_p2p_connections w K C kinds env procs r (procs r))"
  shows "(\<exists>e. \<forall>r<K. fst (run r) = Inl e \<and>
       (ipc_close_error (env r) = None \<longrightarrow> peer_closed_in_time (env r) \<longrightarrow> p_held (snd (run r)) = [])) \<or>
    (\<exists>views. \<forall>r<K. fst (run r) = Inr (views r) \<and> p_owned (snd (run r)) \<and> local_control_name (snd (run r)) = [] \<and>
       (kinds ! r = P2p \<longrightarrow> p2p_edge C (env r) (env ((r + 1) mod K)) (snd (run r)) (snd (run ((r + 1) mod K)))
          (views r) (views ((r + 1) mod K))))"
proof -
  let ?made = "exported_by K kinds env procs"
  let ?handles = "map (\<lambda>r. e_handle (?made r)) [0..<K]" and ?names = "map (\<lambda>r. e_control (?made r)) [0..<K]"
  let ?opened = "opened_by K kinds env procs ?handles ?names"
  let ?s1 = "\<lambda>r. snd (p2p_export K kinds (env r) r (procs r))"
  let ?s2 = "\<lambda>r. snd (p2p_open K kinds (env r) r ?handles ?names (?s1 r))"
  let ?s3 = "\<lambda>r. arm_close_wait (kinds ! incoming_edge K r = P2p) (q_region (?opened (incoming_edge K r)) \<noteq> None) (?s2 r)"
  note run = p2p_exchange_run[OF assms(1,2,4) _ assms(5), of _ C, folded fun_cong[OF assms(6)], unfolded Let_def]
  have clean: "p_clean (procs r)" if "r < K" for r using assms(5) that by blast
  note made = exported_facts[where procs = procs and env = env and K = K and kinds = kinds, OF clean refl refl]
    and opened = opened_facts[where procs = procs and env = env and K = K and kinds = kinds and handles = ?handles and names = ?names,
      OF clean refl refl refl]
  show ?thesis
  proof (cases "\<forall>q<K. e_ok (?made q) = 1")
    case False
    have "p_held (snd (destroy_p2p None True (?s1 r))) = []" if "r < K" for r
      using made(2,3)[OF that] by (intro destroy_p2p_empty) (simp_all add: nothing_opened_def)
    then show ?thesis using run False by (intro disjI1) auto
  next
    case ok1: True
    have inc: "incoming_edge K r < K" for r using assms(2) by (simp add: incoming_edge_def)
    show ?thesis
    proof (cases "\<forall>q<K. q_ok (?opened q) = 1")
      case False
      have "p_held (snd (destroy_p2p None True (?s3 r))) = []" if "r < K" for r
        using made(5)[OF that] opened(2,4,5)[OF that] ok1 that by (intro destroy_p2p_empty) (auto split: if_splits)
      then show ?thesis using run False ok1 by (intro disjI1) auto
    next
      case ok2: True
      let ?view = "\<lambda>r. region_view C (if kinds ! incoming_edge K r = P2p then e_region (?made r) else None)
          (if kinds ! r = P2p then q_region (?opened r) else None) r"
      have r: "run r = (Inr (?view r), unlink_local_control (?s3 r))" if "r < K" for r using run[OF that] ok1 ok2 by auto
      have "p2p_edge C (env r) (env ((r + 1) mod K)) (unlink_local_control (?s3 r)) (unlink_local_control (?s3 ((r + 1) mod K)))
          (?view r) (?view ((r + 1) mod K))" if rK: "r < K" and kP: "kinds ! r = P2p" for r
      proof -
        let ?q = "(r + 1) mod K"
        have q: "?q < K" "incoming_edge K ?q = r" "?handles ! ?q = e_handle (?made ?q)" using rK incoming_edge_next[OF rK] by auto
        obtain region where m: "e_region (?made ?q) = Some region" "local_region (?s1 ?q) = Some region"
          "export_handle (env ?q) region = Inr (e_handle (?made ?q))" "local_close_control (?s1 ?q) \<noteq> None"
          using made(5)[OF q(1)] ok1 q(1,2) kP by auto
        obtain p where p: "remote_region (?s2 r) = Some p" "remote_close_control (?s2 r) \<noteq> None"
          "ipc_open (env r) (e_handle (?made ?q)) = Inr p" using opened(8)[OF rK, unfolded q(3)] ok2 rK kP by blast
        have o: "q_region (?opened r) = Some p" "local_region (?s2 ?q) = Some region" "local_close_control (?s2 ?q) \<noteq> None"
          using opened(7)[OF rK] opened(3,4)[OF q(1)] m p by simp_all
        show ?thesis using p2p_edgeI[OF m(3) p(3), of "unlink_local_control (?s3 r)" "unlink_local_control (?s3 ?q)"] m p o q kP by simp
      qed
      then show ?thesis using r opened(2) unlink_control_owned by (intro disjI2 exI[of _ ?view]) simp
    qed
  qed
qed

text \<open>Two processes whose calls all succeed.\<close>

definition demo_p2p_env :: "nat \<Rightarrow> nat p2p_env" where
  "demo_p2p_env r = \<lparr>p_pid = 40 + int r, p_set_device = None, region_malloc = Inr (16 + r), region_memset = None,
     export_handle = (\<lambda>p. Inr (p + 100)), null_handle = 0, ctl_open = (\<lambda>_. Inr 5), ctl_truncate = None, ctl_mmap = Inr 7,
     peer_ctl_open = (\<lambda>_. Inr 6), peer_ctl_mmap = Inr 8, ipc_open = (\<lambda>h. Inr (h + 1)), ipc_close_error = None,
     peer_closed_in_time = True\<rparr>"

definition demo_p2p_proc :: "nat \<Rightarrow> p2p_proc" where
  "demo_p2p_proc r = \<lparr>p_held = [], ctl_seq = 0, local_region = None, remote_region = None, local_control_name = [],
     local_close_control = None, remote_close_control = None, local_control_fd = None, remote_control_fd = None, wait_for_close = False\<rparr>"

definition demo_p2p_run :: "nat \<Rightarrow> (nat, nat) connection_resources result \<times> p2p_proc" where
  "demo_p2p_run r = create_mpi_p2p_connections (ideal_exchange :: (unit, nat) exchange_world) 2 1 [P2p, P2p] demo_p2p_env demo_p2p_proc r
     (demo_p2p_proc r)"

lemma demo_p2p_returns: "\<not> isl (fst (demo_p2p_run 0))"
  by code_simp

theorem p2p_exchange_agrees_witness:
  "\<exists>v v'. fst (demo_p2p_run 0) = Inr v \<and> fst (demo_p2p_run 1) = Inr v' \<and>
      p2p_edge 1 (demo_p2p_env 0) (demo_p2p_env 1) (snd (demo_p2p_run 0)) (snd (demo_p2p_run 1)) v v'"
proof -
  have a: "\<forall>r<2. p_clean (demo_p2p_proc r) \<and> p_set_device (demo_p2p_env r) = None"
    by (simp add: p_clean_def demo_p2p_proc_def demo_p2p_env_def)
  note p2p_exchange_agrees[OF ideal_exchange_laws _ _ _ a ext[OF demo_p2p_run_def]]
  then obtain views where v: "\<forall>r<2. fst (demo_p2p_run r) = Inr (views r) \<and> p_owned (snd (demo_p2p_run r)) \<and>
       local_control_name (snd (demo_p2p_run r)) = [] \<and>
       ([P2p, P2p] ! r = P2p \<longrightarrow> p2p_edge 1 (demo_p2p_env r) (demo_p2p_env ((r + 1) mod 2)) (snd (demo_p2p_run r))
          (snd (demo_p2p_run ((r + 1) mod 2))) (views r) (views ((r + 1) mod 2)))"
    using demo_p2p_returns by force
  from v[rule_format, of 0] v[rule_format, of 1] show ?thesis by (intro exI[of _ "views 0"] exI[of _ "views 1"]) simp
qed

section \<open>Teardown of an edge\<close>

text \<open>
  The destructors of the sender and of the receiver of an edge run in their own processes, at their own pace. The word is the close
  control both have mapped; \<open>td_pending\<close> stands between the sender's \<open>cudaIpcCloseMemHandle\<close> and its store. The receiver acts
  on the last value it has loaded, whether it stopped waiting for the word or for the deadline.
\<close>

record teardown =
  td_sender :: p2p_proc
  td_receiver :: p2p_proc
  td_pending :: bool
  td_word :: bool

inductive teardown_step :: "teardown \<Rightarrow> teardown \<Rightarrow> bool" where
  sender_closes: "close_remote status (td_sender t) = (sets_word, s) \<Longrightarrow> teardown_step t (t\<lparr>td_sender := s, td_pending := td_pending t \<or> sets_word\<rparr>)"
| sender_stores: "td_pending t \<Longrightarrow> teardown_step t (t\<lparr>td_word := True, td_pending := False\<rparr>)"
| receiver_frees: "teardown_step t (t\<lparr>td_receiver := free_local (td_word t) (td_receiver t)\<rparr>)"

definition region_safe :: "nat \<Rightarrow> nat \<Rightarrow> teardown \<Rightarrow> bool" where
  "region_safe p q t \<longleftrightarrow>
     (P_ipc p \<in> set (p_held (td_sender t)) \<longrightarrow>
        P_alloc q \<in> set (p_held (td_receiver t)) \<and> wait_for_close (td_receiver t) \<and> \<not> td_word t \<and> \<not> td_pending t \<and>
        count_list (p_held (td_sender t)) (P_ipc p) = 1 \<and> remote_region (td_sender t) \<in> {None, Some p})"

lemma count_remove1: "count_list (remove1 x xs) x = count_list xs x - 1"
  by (induction xs) auto

lemma close_remote_safe:
  assumes "close_remote status (td_sender t) = (sets_word, s)" "region_safe p q t"
  shows "region_safe p q (t\<lparr>td_sender := s, td_pending := td_pending t \<or> sets_word\<rparr>)"
proof (cases "remote_region (td_sender t)")
  case None
  then show ?thesis using assms by (simp add: close_remote_def region_safe_def)
next
  case (Some p')
  show ?thesis
  proof (cases "P_ipc p \<in> set (p_held s)")
    case True
    moreover have "set (p_held s) \<subseteq> set (p_held (td_sender t))"
      using assms(1) Some set_remove1_subset[of "P_ipc p'" "p_held (td_sender t)"]
      by (auto simp: close_remote_def p_release_def split: if_splits)
    ultimately have m: "P_ipc p \<in> set (p_held (td_sender t))" by blast
    then have t: "count_list (p_held (td_sender t)) (P_ipc p) = 1" "p' = p" using assms(2) Some by (auto simp: region_safe_def)
    have "P_ipc p \<notin> set (remove1 (P_ipc p) (p_held (td_sender t)))"
      by (rule count_list_0_iff[THEN iffD1]) (simp add: count_remove1 t(1) del: count_list_0_iff)
    then have "status \<noteq> None" using assms(1) Some t(2) True by (auto simp: close_remote_def p_release_def)
    then show ?thesis using assms Some m by (auto simp: region_safe_def close_remote_def)
  qed (simp add: region_safe_def)
qed

lemma region_safe_step: "teardown_step t t' \<Longrightarrow> region_safe p q t \<Longrightarrow> region_safe p q t'"
proof (induction rule: teardown_step.induct)
  case (sender_stores t)
  then show ?case by (auto simp: region_safe_def)
next
  case (receiver_frees t)
  then show ?case by (auto simp: region_safe_def free_local_def sender_closed_def split: option.splits)
qed (rule close_remote_safe)

text \<open>C16: Property: an exported region outlives the sender's mapping of it. Take an edge as the exchange leaves it. In whatever order
  the two destructors proceed, whatever \<open>cudaIpcCloseMemHandle\<close> answers and wherever the deadline falls, while the sender still has the
  region mapped, the receiver has not freed it.
\<close>

theorem p2p_region_outlives_mapping:
  assumes "p_owned s" "p_owned r" "p2p_edge C env_s env_r s r view_s view_r"
    and "remote_region s = Some p" "local_region r = Some q"
    and "teardown_step\<^sup>*\<^sup>* \<lparr>td_sender = s, td_receiver = r, td_pending = False, td_word = False\<rparr> t"
    and "P_ipc p \<in> set (p_held (td_sender t))"
  shows "P_alloc q \<in> set (p_held (td_receiver t))"
proof -
  have "count_list (p_held s) (P_ipc p) = 1"
    using assms(1,4) unfolding p_owned_def count_mset[symmetric] by (auto simp: p_owner_res_def opt_res_def split: option.splits)
  moreover have "wait_for_close r" using assms(3) by (auto simp: p2p_edge_def)
  ultimately have "region_safe p q \<lparr>td_sender = s, td_receiver = r, td_pending = False, td_word = False\<rparr>"
    using assms(4,5) p_owned_members(2)[OF assms(2), of q] by (simp add: region_safe_def)
  with assms(6) have "region_safe p q t" by (induction rule: rtranclp_induct) (auto intro: region_safe_step)
  then show ?thesis using assms(7) by (simp add: region_safe_def)
qed

lemma teardown_stays:
  "teardown_step\<^sup>*\<^sup>* t (t\<lparr>td_receiver := free_local (td_word t) (td_receiver t)\<rparr>)"
  by (intro r_into_rtranclp receiver_frees)

definition demo_sender :: p2p_proc where
  "demo_sender = (demo_p2p_proc 0)\<lparr>p_held := [P_ipc 3, P_ctl 8, P_fd 6], remote_region := Some 3, remote_close_control := Some 8,
     remote_control_fd := Some 6\<rparr>"

definition demo_receiver :: p2p_proc where
  "demo_receiver = (demo_p2p_proc 1)\<lparr>p_held := [P_alloc 17, P_ctl 7, P_fd 5], local_region := Some 17, local_close_control := Some 7,
     local_control_fd := Some 5, wait_for_close := True\<rparr>"

text \<open>The deadline of the receiver passes before the sender closes.\<close>

theorem p2p_region_outlives_mapping_witness:
  "P_alloc 17 \<in> set (p_held (free_local False demo_receiver))"
proof -
  let ?t = "\<lparr>td_sender = demo_sender, td_receiver = demo_receiver, td_pending = False, td_word = False\<rparr>"
  let ?env = "(demo_p2p_env 0)\<lparr>ipc_open := \<lambda>_. Inr 3\<rparr>"
  have "p2p_edge 1 ?env (demo_p2p_env 1) demo_sender demo_receiver (region_view 1 None (Some 3) (0 :: nat)) (region_view 1 (Some 17) None 1)"
    by (simp add: p2p_edge_def demo_sender_def demo_receiver_def demo_p2p_env_def region_view_def)
  moreover have "p_owned demo_sender" "p_owned demo_receiver"
    by (simp_all add: p_owned_def p_owner_res_def demo_sender_def demo_receiver_def demo_p2p_proc_def)
  ultimately show ?thesis
    using p2p_region_outlives_mapping[OF _ _ _ _ _ teardown_stays[of ?t], of 1 ?env "demo_p2p_env 1" _ _ 3 17]
    by (simp add: demo_sender_def demo_receiver_def)
qed

section \<open>The probe\<close>

text \<open>All ranks get the same answer, and an edge is up only if its handle could be exported, opened and closed.\<close>

lemma probe_agrees:
  assumes "exchange_laws w" "\<forall>r<K. probe_set_device (env r) = None" "rank < K"
  shows "probe_mpi_p2p_edges w K env node_ids rank =
    (let handles = map (\<lambda>r. fst (probe_local (env r))) [0..<K]; handle_ok = map (\<lambda>r. fst (snd (probe_local (env r)))) [0..<K] in
     Inr (map (\<lambda>r. probe_outgoing K (env r) node_ids handles handle_ok r \<noteq> 0) [0..<K]))"
  using assms by (simp add: probe_mpi_p2p_edges_def exchange_laws_def barrier_check_def rbind_def Let_def comp_def)

lemma probe_outgoing_sound:
  assumes "probe_outgoing K env node_ids handles handle_ok rank \<noteq> 0"
  shows "node_ids ! rank = node_ids ! ((rank + 1) mod K)" "handle_ok ! ((rank + 1) mod K) \<noteq> 0"
    "\<exists>p. probe_open env (handles ! ((rank + 1) mod K)) = Inr p" "probe_close env = None" "\<exists>p h. probe_export env p = Inr h"
  using assms by (auto simp: probe_outgoing_def probe_local_def Let_def split: if_splits sum.splits option.splits)

end
