(* ===== verification/Host_Buffer.thy ===== *)
theory Host_Buffer
  imports Comp_Logic "HOL-Library.Multiset" "HOL-Library.Word"
begin

text \<open>
  Memory of the host and of the devices, streams and NUMA placement: \<open>core/buffer.h\<close>, \<open>core/buffer.cu\<close>, \<open>core/numa.cu\<close>,
  \<open>core/stream.h\<close>. The state holds what the driver and the system keep for the process, the NUMA policy of the thread and the
  words of host memory; a class adds its members. A null pointer is \<open>None\<close>. What CUDA and the system answer is the
  argument \<open>host_env\<close>. The file and line in the text of a CUDA error are left out. The calls that give something back
  (\<open>cudaFree\<close>, \<open>cudaFreeHost\<close>, \<open>cudaHostUnregister\<close>, \<open>munmap\<close>, \<open>close\<close>, the destroy calls) are taken to succeed: the source ignores
  their answers and forgets the pointer, so a failing one would leave its object with the process.
\<close>

section \<open>The machine\<close>

datatype host_res =
  H_device nat | H_pinned nat | H_fd nat | H_map nat | H_registered nat | H_stream nat | H_event nat | H_graph nat | H_exec nat

record host =
  h_held :: "host_res multiset"
  h_policy :: int
  h_words :: "nat \<Rightarrow> nat \<Rightarrow> nat"

record host_env =
  numa_lib :: bool
  cuda_set :: "int \<Rightarrow> string option"
  cuda_malloc :: "64 word \<Rightarrow> string + nat option"
  cuda_host_alloc :: "64 word \<Rightarrow> string + nat option"
  cuda_device_ptr :: "nat option \<Rightarrow> int \<Rightarrow> string + nat"
  sys_page_size :: int
  mkstemp_fd :: "string + nat"
  ftruncate_error :: "string option"
  mmap_answer :: "string + nat"
  cuda_register :: "string option"
  cuda_create :: "string + nat"

definition cuda_check_throw :: "string + 'x \<Rightarrow> ('s, 'x) comp" where
  "cuda_check_throw a = (case a of Inl e \<Rightarrow> raise (Runtime_error (take 511 (''CUDA error: '' @ e))) | Inr x \<Rightarrow> ret x)"

definition check_set_device :: "host_env \<Rightarrow> int \<Rightarrow> ('s, unit) comp" where
  "check_set_device env device = cuda_check_throw (case cuda_set env device of Some e \<Rightarrow> Inl e | None \<Rightarrow> Inr ())"

definition opt_held :: "(nat \<Rightarrow> host_res) \<Rightarrow> nat option \<Rightarrow> host_res multiset" where
  "opt_held f p = (case p of None \<Rightarrow> {#} | Some a \<Rightarrow> {#f a#})"

definition take_up :: "host_res multiset \<Rightarrow> 'a host_scheme \<Rightarrow> 'a host_scheme" where
  "take_up m s = s\<lparr>h_held := h_held s + m\<rparr>"

definition give_back :: "host_res multiset \<Rightarrow> 'a host_scheme \<Rightarrow> 'a host_scheme" where
  "give_back m s = s\<lparr>h_held := h_held s - m\<rparr>"

section \<open>Device and pinned buffers\<close>

record device_buffer = host +
  db_device :: int
  db_count :: "64 word"
  db_ptr :: "nat option"

definition device_release :: "device_buffer \<Rightarrow> device_buffer" where
  "device_release s = (give_back (opt_held H_device (db_ptr s)) s)\<lparr>db_ptr := None, db_count := 0\<rparr>"

text \<open>\<open>elem\<close> is \<open>sizeof(T)\<close>; the product is of type \<open>size_t\<close> and wraps.\<close>

definition device_reset :: "host_env \<Rightarrow> 64 word \<Rightarrow> int \<Rightarrow> 64 word \<Rightarrow> (device_buffer, unit) comp" where
  "device_reset env elem device num =
     andalso (change device_release)
    (andalso (change (\<lambda>s. s\<lparr>db_device := device, db_count := num\<rparr>))
    (andalso (check_set_device env device)
    (andthen (cuda_check_throw (cuda_malloc env (num * elem))) (\<lambda>p.
       change (\<lambda>s. (take_up (opt_held H_device p) s)\<lparr>db_ptr := p\<rparr>)))))"

record pinned_buffer = host +
  pb_count :: "64 word"
  pb_flags :: nat
  pb_ptr :: "nat option"

definition pinned_release :: "pinned_buffer \<Rightarrow> pinned_buffer" where
  "pinned_release s = (give_back (opt_held H_pinned (pb_ptr s)) s)\<lparr>pb_ptr := None, pb_count := 0\<rparr>"

definition pinned_reset :: "host_env \<Rightarrow> 64 word \<Rightarrow> 64 word \<Rightarrow> nat \<Rightarrow> (pinned_buffer, unit) comp" where
  "pinned_reset env elem num flags =
     andalso (change pinned_release)
    (andalso (change (\<lambda>s. s\<lparr>pb_count := num, pb_flags := flags\<rparr>))
    (andthen (cuda_check_throw (cuda_host_alloc env (num * elem))) (\<lambda>p.
       change (\<lambda>s. (take_up (opt_held H_pinned p) s)\<lparr>pb_ptr := p\<rparr>))))"

section \<open>NUMA\<close>

definition numa_set_prefer :: "host_env \<Rightarrow> int \<Rightarrow> 'a host_scheme \<Rightarrow> 'a host_scheme" where
  "numa_set_prefer env node s = (if numa_lib env then s\<lparr>h_policy := node\<rparr> else s)"

text \<open>The answer of \<open>cudaGetDeviceProperties\<close> is the PCI address; \<open>read_node\<close> is the number read from the file of sysfs.\<close>

definition hex_char :: "nat \<Rightarrow> char" where
  "hex_char d = (if d < 10 then char_of (48 + d) else char_of (87 + d))"

fun hex_text :: "nat \<Rightarrow> string" where
  "hex_text n = (if n < 16 then [hex_char n] else hex_text (n div 16) @ [hex_char (n mod 16)])"

definition hex_padded :: "nat \<Rightarrow> nat \<Rightarrow> string" where
  "hex_padded width n = replicate (width - length (hex_text n)) CHR ''0'' @ hex_text n"

definition gpu_numa_node :: "(nat \<times> nat \<times> nat) option \<Rightarrow> (string \<Rightarrow> int option option) \<Rightarrow> int" where
  "gpu_numa_node properties read_node =
     (case properties of
        None \<Rightarrow> 0
      | Some (domain, bus, device) \<Rightarrow>
          (case read_node (''/sys/bus/pci/devices/'' @ hex_padded 4 domain @ '':'' @ hex_padded 2 bus @ '':'' @ hex_padded 2 device @
              ''.0/numa_node'') of
             None \<Rightarrow> 0
           | Some scanned \<Rightarrow> (let node = (case scanned of None \<Rightarrow> 0 | Some n \<Rightarrow> n) in if node < 0 then 0 else node)))"

text \<open>The processors of a node; \<open>alloc\<close> says whether the mask could be allocated, \<open>cpus\<close> is the mask, if it could be read.\<close>

definition pin_current_thread_to_numa_node ::
    "host_env \<Rightarrow> bool \<Rightarrow> (int \<Rightarrow> nat list option) \<Rightarrow> string option \<Rightarrow> int \<Rightarrow> nat list option result" where
  "pin_current_thread_to_numa_node env alloc cpus affinity_error node =
     (if node < 0 \<or> \<not> numa_lib env then Inr None
      else if \<not> alloc then Inl (Runtime_error ''numa_allocate_cpumask failed'')
      else (case cpus node of
              None \<Rightarrow> Inl (Runtime_error ''NUMA node has no available CPUs'')
            | Some node_cpus \<Rightarrow>
                if node_cpus = [] then Inl (Runtime_error ''NUMA node has no available CPUs'')
                else (case affinity_error of
                        Some e \<Rightarrow> Inl (Runtime_error (''numa_sched_setaffinity failed: '' @ e))
                      | None \<Rightarrow> Inr (Some node_cpus))))"

section \<open>Mapped arrays\<close>

record mapped_array = host +
  ma_count :: int
  ma_host :: "nat option"
  ma_devices :: "int list"
  ma_ptrs :: "nat option list"

definition mapped_release :: "mapped_array \<Rightarrow> mapped_array" where
  "mapped_release s = (give_back (opt_held H_pinned (ma_host s)) s)\<lparr>ma_host := None, ma_ptrs := [], ma_devices := [], ma_count := 0\<rparr>"

definition clear_host :: "mapped_array \<Rightarrow> mapped_array" where
  "clear_host s =
     (case ma_host s of
        None \<Rightarrow> s
      | Some p \<Rightarrow> s\<lparr>h_words := (h_words s)(p := (\<lambda>i. if int i < ma_count s then 0 else h_words s p i))\<rparr>)"

definition map_device :: "host_env \<Rightarrow> nat \<times> int \<Rightarrow> (mapped_array, unit) comp" where
  "map_device env = (\<lambda>(i, d).
     andalso (check_set_device env d)
       (with_state (\<lambda>s. andthen (cuda_check_throw (cuda_device_ptr env (ma_host s) d)) (\<lambda>p.
          change (\<lambda>s. s\<lparr>ma_ptrs := (ma_ptrs s)[i := Some p]\<rparr>)))))"

text \<open>
  The three classes share their \<open>reset\<close>; they differ in the size of an element, the text of an error, and in whether the memory is
  cleared. \<open>count * sizeof\<close> is a product of type \<open>size_t\<close>.
\<close>

definition mapped_reset ::
    "string \<Rightarrow> 64 word \<Rightarrow> (mapped_array \<Rightarrow> mapped_array) \<Rightarrow> host_env \<Rightarrow> int \<Rightarrow> int \<Rightarrow> int list \<Rightarrow> (mapped_array, unit) comp" where
  "mapped_reset text elem clear env num numa_node devices =
     andalso (change mapped_release)
     (if devices = [] then raise (Runtime_error text)
      else andalso (change (\<lambda>s. s\<lparr>ma_count := num, ma_devices := devices, ma_ptrs := replicate (length devices) None\<rparr>))
          (andalso (change (\<lambda>s. if 0 \<le> numa_node \<and> numa_lib env then numa_set_prefer env numa_node s else s))
          (andthen (cuda_check_throw (cuda_host_alloc env (of_int num * elem))) (\<lambda>p.
           andalso (change (\<lambda>s. (take_up (opt_held H_pinned p) s)\<lparr>ma_host := p\<rparr>))
          (andalso (change (\<lambda>s. if 0 \<le> numa_node \<and> numa_lib env then numa_set_prefer env (- 1) s else s))
          (andalso (change clear) (for_each (enumerate 0 devices) (map_device env))))))))"

definition MappedBuffer_reset :: "64 word \<Rightarrow> host_env \<Rightarrow> 64 word \<Rightarrow> int \<Rightarrow> int list \<Rightarrow> (mapped_array, unit) comp" where
  "MappedBuffer_reset elem env num = mapped_reset ''mapped buffer requires local devices'' elem id env (uint num)"

text \<open>
  The life of a buffer made by \<open>MappedBuffer(count, numa_node, devices)\<close>: the constructor resets; when that throws, the object was never
  made and its destructor does not run; otherwise the operations \<open>ms\<close> are called on it and the destructor ends it.
\<close>

definition MappedBuffer_life ::
    "64 word \<Rightarrow> host_env \<Rightarrow> 64 word \<Rightarrow> int \<Rightarrow> int list \<Rightarrow> (mapped_array, unit) comp list \<Rightarrow> mapped_array \<Rightarrow> mapped_array" where
  "MappedBuffer_life elem env num numa_node devices ms s =
     (case MappedBuffer_reset elem env num numa_node devices s of
        (Inl _, s') \<Rightarrow> s'
      | (Inr _, s') \<Rightarrow> mapped_release (fold (\<lambda>m s. snd (m s)) ms s'))"

definition MappedU64Array_reset :: "host_env \<Rightarrow> 32 word \<Rightarrow> int \<Rightarrow> int list \<Rightarrow> (mapped_array, unit) comp" where
  "MappedU64Array_reset env num = mapped_reset ''mapped counter requires local devices'' 8 clear_host env (sint num)"

definition MappedU32Array_reset :: "host_env \<Rightarrow> 32 word \<Rightarrow> int \<Rightarrow> int list \<Rightarrow> (mapped_array, unit) comp" where
  "MappedU32Array_reset env num = mapped_reset ''mapped counter requires local devices'' 4 clear_host env (sint num)"

definition mapped_device_ptr :: "string \<Rightarrow> int \<Rightarrow> mapped_array \<Rightarrow> nat option result" where
  "mapped_device_ptr text device s =
     (case List.find (\<lambda>x. fst x = device) (zip (ma_devices s) (ma_ptrs s)) of
        Some x \<Rightarrow> Inr (snd x) | None \<Rightarrow> Inl (Runtime_error text))"

section \<open>Registered buffers\<close>

record registered_buffer = host +
  rb_count :: "64 word"
  rb_bytes :: "64 word"
  rb_fd :: "nat option"
  rb_registered :: bool
  rb_host :: "nat option"
  rb_ptrs :: "nat option list"

definition round_up :: "64 word \<Rightarrow> 64 word \<Rightarrow> 64 word" where
  "round_up value alignment = (value + alignment - 1) div alignment * alignment"

definition throw_errno :: "string \<Rightarrow> string \<Rightarrow> ('s, 'x) comp" where
  "throw_errno call err = raise (Runtime_error (take 255 (call @ '' failed: '' @ err)))"

definition registered_release :: "nat \<Rightarrow> registered_buffer \<Rightarrow> registered_buffer" where
  "registered_release K s =
     (let s1 = (if rb_registered s then give_back (opt_held H_registered (rb_host s)) s else s)\<lparr>rb_registered := False\<rparr>;
          s2 = (give_back (opt_held H_map (rb_host s1)) s1)\<lparr>rb_host := None\<rparr>;
          s3 = (give_back (opt_held H_fd (rb_fd s2)) s2)\<lparr>rb_fd := None\<rparr>
      in s3\<lparr>rb_ptrs := replicate K None, rb_count := 0, rb_bytes := 0\<rparr>)"

definition register_device :: "host_env \<Rightarrow> nat \<Rightarrow> (registered_buffer, unit) comp" where
  "register_device env dev =
     andalso (check_set_device env (int dev))
       (with_state (\<lambda>s. andthen (cuda_check_throw (cuda_device_ptr env (rb_host s) (int dev))) (\<lambda>p.
          change (\<lambda>s. s\<lparr>rb_ptrs := (rb_ptrs s)[dev := Some p]\<rparr>))))"

definition registered_reset :: "nat \<Rightarrow> host_env \<Rightarrow> 64 word \<Rightarrow> (registered_buffer, unit) comp" where
  "registered_reset K env num =
     andalso (change (registered_release K))
    (andalso (change (\<lambda>s. s\<lparr>rb_count := num\<rparr>))
     (if sys_page_size env \<le> 0 then raise (Runtime_error ''sysconf(_SC_PAGESIZE) failed'')
      else andalso (change (\<lambda>s. s\<lparr>rb_bytes := round_up (num * 4) (of_int (sys_page_size env))\<rparr>))
        (case mkstemp_fd env of
           Inl err \<Rightarrow> throw_errno ''mkstemp(/dev/shm/nano-nccl-XXXXXX)'' err
         | Inr fd \<Rightarrow>
             andalso (change (\<lambda>s. (take_up {#H_fd fd#} s)\<lparr>rb_fd := Some fd\<rparr>))
            (case ftruncate_error env of
               Some err \<Rightarrow> throw_errno ''ftruncate'' err
             | None \<Rightarrow>
                 (case mmap_answer env of
                    Inl err \<Rightarrow> throw_errno ''mmap'' err
                  | Inr p \<Rightarrow>
                      andalso (change (\<lambda>s. (take_up {#H_map p#} s)\<lparr>rb_host := Some p,
                         h_words := (h_words s)(p := (\<lambda>i. if i < unat (rb_bytes s) div 4 then 0 else h_words s p i))\<rparr>))
                     (andalso (check_set_device env 0)
                     (andalso (cuda_check_throw (case cuda_register env of Some e \<Rightarrow> Inl e | None \<Rightarrow> Inr ()))
                     (andalso (change (\<lambda>s. (take_up {#H_registered p#} s)\<lparr>rb_registered := True\<rparr>))
                        (for_each [0..<K] (register_device env))))))))))"

section \<open>Streams, events and graphs\<close>

record stream_obj = host +
  st_device :: int
  st_handle :: "nat option"

definition Stream_create :: "(nat \<Rightarrow> host_res) \<Rightarrow> host_env \<Rightarrow> int \<Rightarrow> (stream_obj, unit) comp" where
  "Stream_create kind env device =
     andalso (change (\<lambda>s. s\<lparr>st_device := device, st_handle := None\<rparr>))
    (andalso (check_set_device env device)
    (andthen (cuda_check_throw (cuda_create env)) (\<lambda>h. change (\<lambda>s. (take_up {#kind h#} s)\<lparr>st_handle := Some h\<rparr>))))"

definition Stream_destroy :: "(nat \<Rightarrow> host_res) \<Rightarrow> stream_obj \<Rightarrow> stream_obj" where
  "Stream_destroy kind s = give_back (opt_held kind (st_handle s)) s"

text \<open>\<open>GraphExec\<close> is \<open>BatchGraphExec\<close> without the number of iterations.\<close>

record graph_exec = host +
  ge_graph :: "nat option"
  ge_exec :: "nat option"
  ge_count :: "64 word"
  ge_iters :: "32 word"

definition graph_release :: "graph_exec \<Rightarrow> graph_exec" where
  "graph_release s =
     (give_back (opt_held H_graph (ge_graph s)) (give_back (opt_held H_exec (ge_exec s)) s))
       \<lparr>ge_exec := None, ge_graph := None, ge_count := 0, ge_iters := 0\<rparr>"

definition graph_valid_for :: "64 word \<Rightarrow> graph_exec \<Rightarrow> bool" where
  "graph_valid_for num s \<longleftrightarrow> ge_exec s \<noteq> None \<and> ge_count s = num"

definition batch_valid_for :: "64 word \<Rightarrow> 32 word \<Rightarrow> graph_exec \<Rightarrow> bool" where
  "batch_valid_for num iters s \<longleftrightarrow> ge_exec s \<noteq> None \<and> ge_count s = num \<and> ge_iters s = iters"

section \<open>Ownership\<close>

text \<open>
  What the classes have in common: the process holds what belongs to the object beside what belongs to others; every operation,
  also one that throws, keeps the others' part, and the destructor leaves exactly that.
\<close>

locale held_object =
  fixes held :: "'s \<Rightarrow> host_res multiset" and own :: "'s \<Rightarrow> host_res multiset" and release :: "'s \<Rightarrow> 's" and ops :: "('s, unit) comp set"
  assumes release_gives: "held s = others + own s \<Longrightarrow> held (release s) = others"
    and ops_keep: "m \<in> ops \<Longrightarrow> preserves (\<lambda>s. held s = others + own s) m"
begin

definition use :: "('s, unit) comp list \<Rightarrow> 's \<Rightarrow> 's" where
  "use ms s = fold (\<lambda>m s. snd (m s)) ms s"

lemma use_keeps: "set ms \<subseteq> ops \<Longrightarrow> held s = others + own s \<Longrightarrow> held (use ms s) = others + own (use ms s)"
proof (induction ms arbitrary: s)
  case (Cons m ms)
  have "held (snd (m s)) = others + own (snd (m s))"
    using preserves_run[OF ops_keep[of m others]] Cons.prems by auto
  then show ?case using Cons by (simp add: use_def)
qed (simp add: use_def)

lemma destroyed: "set ms \<subseteq> ops \<Longrightarrow> held s = others + own s \<Longrightarrow> held (release (use ms s)) = others"
  using release_gives use_keeps by blast

end

lemmas host_comp = andalso_def andthen_def ret_def raise_def change_def with_state_def check_set_device_def cuda_check_throw_def throw_errno_def

lemma preserves_check [preserving]: "preserves I (cuda_check_throw a)"
  by (simp add: cuda_check_throw_def preserves_ret preserves_raise split: sum.split)

lemma preserves_check_set_device [preserving]: "preserves I (check_set_device env d)"
  by (simp add: check_set_device_def preserves_check)

lemma held_simps [simp]:
  "h_held (take_up m s) = h_held s + m" "h_held (give_back m s) = h_held s - m" "opt_held f None = {#}" "opt_held f (Some a) = {#f a#}"
  by (simp_all add: take_up_def give_back_def opt_held_def)

lemma other_fields [simp]:
  "h_policy (take_up m s) = h_policy s" "h_policy (give_back m s) = h_policy s"
  "h_words (take_up m s) = h_words s" "h_words (give_back m s) = h_words s"
  by (simp_all add: take_up_def give_back_def)

lemma scheme_fields [simp]:
  "db_ptr (take_up m d) = db_ptr d" "db_ptr (give_back m d) = db_ptr d"
  "pb_ptr (take_up m p) = pb_ptr p" "pb_ptr (give_back m p) = pb_ptr p"
  "ma_host (take_up m a) = ma_host a" "ma_host (give_back m a) = ma_host a" "ma_devices (take_up m a) = ma_devices a"
  "ma_ptrs (take_up m a) = ma_ptrs a" "ma_count (take_up m a) = ma_count a" "ma_host (numa_set_prefer env n a) = ma_host a"
  "ma_devices (numa_set_prefer env n a) = ma_devices a" "ma_ptrs (numa_set_prefer env n a) = ma_ptrs a"
  "ma_count (numa_set_prefer env n a) = ma_count a" "h_held (numa_set_prefer env n a) = h_held a"
  "rb_fd (take_up m r) = rb_fd r" "rb_fd (give_back m r) = rb_fd r" "rb_host (take_up m r) = rb_host r"
  "rb_host (give_back m r) = rb_host r" "rb_registered (take_up m r) = rb_registered r" "rb_registered (give_back m r) = rb_registered r"
  by (simp_all add: take_up_def give_back_def numa_set_prefer_def)

subsection \<open>The instances\<close>

lemma device_reset_keeps: "preserves (\<lambda>s. h_held s = others + opt_held H_device (db_ptr s)) (device_reset env elem device num)"
  by (auto simp: preserves_iff device_reset_def device_release_def host_comp split: sum.splits option.splits)

definition device_ops :: "(device_buffer, unit) comp set" where
  "device_ops = {m. m = change device_release \<or> (\<exists>env elem device num. m = device_reset env elem device num)}"

interpretation device: held_object h_held "\<lambda>s. opt_held H_device (db_ptr s)" device_release device_ops
proof
  show "h_held (device_release s) = others" if "h_held s = others + opt_held H_device (db_ptr s)" for s others
    using that by (simp add: device_release_def)
  show "preserves (\<lambda>s. h_held s = others + opt_held H_device (db_ptr s)) m" if "m \<in> device_ops" for m others
    using that device_reset_keeps by (auto simp: device_ops_def device_release_def intro!: preserves_change)
qed

lemma pinned_reset_keeps: "preserves (\<lambda>s. h_held s = others + opt_held H_pinned (pb_ptr s)) (pinned_reset env elem num flags)"
  by (auto simp: preserves_iff pinned_reset_def pinned_release_def host_comp split: sum.splits option.splits)

definition pinned_ops :: "(pinned_buffer, unit) comp set" where
  "pinned_ops = {m. m = change pinned_release \<or> (\<exists>env elem num flags. m = pinned_reset env elem num flags)}"

interpretation pinned: held_object h_held "\<lambda>s. opt_held H_pinned (pb_ptr s)" pinned_release pinned_ops
proof
  show "h_held (pinned_release s) = others" if "h_held s = others + opt_held H_pinned (pb_ptr s)" for s others
    using that by (simp add: pinned_release_def)
  show "preserves (\<lambda>s. h_held s = others + opt_held H_pinned (pb_ptr s)) m" if "m \<in> pinned_ops" for m others
    using that pinned_reset_keeps by (auto simp: pinned_ops_def pinned_release_def intro!: preserves_change)
qed

lemma map_device_frame:
  "(\<And>s ps. I (s\<lparr>ma_ptrs := ps\<rparr>) = I s) \<Longrightarrow> preserves I (for_each xs (map_device env))"
  unfolding map_device_def by (intro preserving preserves_change) auto

lemma clear_host_fields [simp]:
  "h_held (clear_host s) = h_held s" "ma_host (clear_host s) = ma_host s" "ma_devices (clear_host s) = ma_devices s"
  "ma_ptrs (clear_host s) = ma_ptrs s" "h_policy (clear_host s) = h_policy s" "ma_count (clear_host s) = ma_count s"
  by (simp_all add: clear_host_def split: option.splits)

definition mapped_ops :: "(mapped_array, unit) comp set" where
  "mapped_ops = {m. m = change mapped_release \<or> m = change clear_host \<or>
     (\<exists>elem env num node devices. m = MappedBuffer_reset elem env num node devices) \<or>
     (\<exists>env num node devices. m = MappedU64Array_reset env num node devices \<or> m = MappedU32Array_reset env num node devices)}"

lemma mapped_reset_keeps:
  assumes "\<And>s. h_held (clear s) = h_held s \<and> ma_host (clear s) = ma_host s"
  shows "preserves (\<lambda>s. h_held s = others + opt_held H_pinned (ma_host s)) (mapped_reset text elem clear env num node devices)"
proof (cases "devices = []")
  case True
  then show ?thesis by (auto simp: preserves_iff mapped_reset_def mapped_release_def host_comp)
next
  case False
  let ?I = "\<lambda>s :: mapped_array. h_held s = others + opt_held H_pinned (ma_host s)"
  have loop: "?I s \<Longrightarrow> ?I (snd (for_each xs (map_device env) s))" for s xs by (rule preserves_run[OF map_device_frame]) auto
  show ?thesis unfolding preserves_iff
  proof (intro allI impI)
    fix s :: mapped_array assume "?I s"
    then show "?I (snd (mapped_reset text elem clear env num node devices s))" using False
      by (cases "cuda_host_alloc env (of_int num * elem)")
         (auto simp: mapped_reset_def host_comp mapped_release_def assms intro!: loop)
  qed
qed

interpretation mapped: held_object h_held "\<lambda>s. opt_held H_pinned (ma_host s)" mapped_release mapped_ops
proof
  show "h_held (mapped_release s) = others" if "h_held s = others + opt_held H_pinned (ma_host s)" for s others
    using that by (simp add: mapped_release_def)
  show "preserves (\<lambda>s. h_held s = others + opt_held H_pinned (ma_host s)) m" if "m \<in> mapped_ops" for m others
    using that mapped_reset_keeps[of id] mapped_reset_keeps[of clear_host]
    by (auto simp: mapped_ops_def MappedBuffer_reset_def MappedU64Array_reset_def MappedU32Array_reset_def mapped_release_def
        intro!: preserves_change)
qed

definition registered_own :: "registered_buffer \<Rightarrow> host_res multiset" where
  "registered_own s = (if rb_registered s then opt_held H_registered (rb_host s) else {#}) + opt_held H_map (rb_host s) + opt_held H_fd (rb_fd s)"

definition registered_ops :: "nat \<Rightarrow> (registered_buffer, unit) comp set" where
  "registered_ops K = {m. m = change (registered_release K) \<or> (\<exists>env num. m = registered_reset K env num)}"

lemma registered_release_gives:
  "h_held s = others + registered_own s \<Longrightarrow>
   h_held (registered_release K s) = others \<and> rb_fd (registered_release K s) = None \<and> rb_host (registered_release K s) = None \<and>
   \<not> rb_registered (registered_release K s)"
  by (cases "rb_host s"; cases "rb_fd s") (simp_all add: registered_release_def registered_own_def Let_def)

lemma registered_reset_keeps: "preserves (\<lambda>s. h_held s = others + registered_own s) (registered_reset K env num)"
proof -
  let ?I = "\<lambda>s. h_held s = others + registered_own s"
  have "preserves (\<lambda>s. h_held s = others' + registered_own s) (for_each xs (register_device env))" for xs others'
    unfolding register_device_def by (intro preserving preserves_change) (simp add: registered_own_def)
  then have loop: "h_held s = others' + registered_own s \<Longrightarrow>
      h_held (snd (for_each xs (register_device env) s)) = others' + registered_own (snd (for_each xs (register_device env) s))"
    for s xs others' by (rule preserves_run)
  show ?thesis unfolding preserves_iff
  proof (intro allI impI)
    fix s assume "?I s"
    note r = registered_release_gives[OF this, of K]
    show "?I (snd (registered_reset K env num s))"
    proof (cases "mkstemp_fd env")
      case (Inl e)
      then show ?thesis using r by (auto simp: registered_reset_def host_comp registered_own_def)
    next
      case (Inr fd)
      then show ?thesis using r
        by (auto simp: registered_reset_def host_comp split: option.splits sum.splits intro!: loop) (simp_all add: registered_own_def)
    qed
  qed
qed

interpretation registered: held_object h_held registered_own "registered_release K" "registered_ops K" for K
proof
  show "h_held (registered_release K s) = others" if "h_held s = others + registered_own s" for s others
    using registered_release_gives[OF that] by blast
  show "preserves (\<lambda>s. h_held s = others + registered_own s) m" if "m \<in> registered_ops K" for m others
    using that registered_reset_keeps registered_release_gives
    by (auto simp: registered_ops_def preserves_iff change_def) (simp_all add: registered_own_def)
qed

text \<open>Operations on an object that was made without arguments: what they take up, the destructor gives back.\<close>

lemma mapped_array_gives_back:
  assumes "set ms \<subseteq> mapped_ops" "ma_host s = None"
  shows "h_held (mapped_release (fold (\<lambda>m s. snd (m s)) ms s)) = h_held s"
  using mapped.destroyed[OF assms(1), of s "h_held s"] assms(2) by (simp add: mapped.use_def)

text \<open>The same for the other classes.\<close>

lemma device_buffer_gives_back:
  "set ms \<subseteq> device_ops \<Longrightarrow> db_ptr s = None \<Longrightarrow> h_held (device_release (fold (\<lambda>m s. snd (m s)) ms s)) = h_held s"
  using device.destroyed[of ms s "h_held s"] by (simp add: device.use_def)

lemma pinned_buffer_gives_back:
  "set ms \<subseteq> pinned_ops \<Longrightarrow> pb_ptr s = None \<Longrightarrow> h_held (pinned_release (fold (\<lambda>m s. snd (m s)) ms s)) = h_held s"
  using pinned.destroyed[of ms s "h_held s"] by (simp add: pinned.use_def)

lemma registered_buffer_gives_back:
  "set ms \<subseteq> registered_ops K \<Longrightarrow> registered_own s = {#} \<Longrightarrow> h_held (registered_release K (fold (\<lambda>m s. snd (m s)) ms s)) = h_held s"
  using registered.destroyed[of ms K s "h_held s"] by (simp add: registered.use_def)

lemma stream_gives_back:
  assumes "Stream_create kind env device s = (r, s')"
  shows "h_held (if isl r then s' else Stream_destroy kind s') = h_held s"
  using assms by (auto simp: Stream_create_def Stream_destroy_def host_comp take_up_def give_back_def split: option.splits sum.splits)

definition demo_host_env :: "host_env" where
  "demo_host_env = \<lparr>numa_lib = True, cuda_set = (\<lambda>d. if d = 9 then Some ''invalid device ordinal'' else None), cuda_malloc = (\<lambda>_. Inr (Some 1)),
     cuda_host_alloc = (\<lambda>n. if n = 0 then Inl ''invalid argument'' else Inr (Some 5)), cuda_device_ptr = (\<lambda>h d. Inr (40 + nat d)),
     sys_page_size = 4096, mkstemp_fd = Inr 3, ftruncate_error = None, mmap_answer = Inr 7, cuda_register = Some ''out of memory'',
     cuda_create = Inr 2\<rparr>"

definition fresh_array :: mapped_array where
  "fresh_array = \<lparr>h_held = {#H_device 1#}, h_policy = - 1, h_words = (\<lambda>p i. 77), ma_count = 0, ma_host = None, ma_devices = [], ma_ptrs = []\<rparr>"

section \<open>What a reset leaves\<close>

lemma map_devices_result:
  assumes "for_each (enumerate k ds) (map_device env) s = (Inr (), s')" "length (ma_ptrs s) = k + length ds"
  shows "s' = s\<lparr>ma_ptrs := take k (ma_ptrs s) @ map (\<lambda>d. Some (projr (cuda_device_ptr env (ma_host s) d))) ds\<rparr> \<and>
    (\<forall>d\<in>set ds. \<exists>p. cuda_device_ptr env (ma_host s) d = Inr p)"
  using assms
proof (induction ds arbitrary: k s)
  case (Cons d ds)
  from Cons.prems(1) obtain p where p: "cuda_device_ptr env (ma_host s) d = Inr p"
    "for_each (enumerate (Suc k) ds) (map_device env) (s\<lparr>ma_ptrs := (ma_ptrs s)[k := Some p]\<rparr>) = (Inr (), s')"
    by (auto simp: map_device_def host_comp split: option.splits sum.splits)
  from Cons.IH[OF p(2)] Cons.prems(2) p(1) show ?case by (simp add: take_Suc_conv_app_nth)
qed (auto simp: ret_def)

lemma find_zip: "List.find (\<lambda>x. fst x = d) (zip ds (map f ds)) = (if d \<in> set ds then Some (d, f d) else None)"
  by (induction ds) auto

lemma mapped_reset_returns:
  assumes "mapped_reset text elem clear env num node devices s = (Inr (), s')"
    and "\<And>s. ma_host (clear s) = ma_host s \<and> ma_devices (clear s) = ma_devices s \<and> ma_ptrs (clear s) = ma_ptrs s \<and> h_policy (clear s) = h_policy s"
  shows "\<exists>t. s' = (clear t)\<lparr>ma_ptrs := map (\<lambda>d. Some (projr (cuda_device_ptr env (ma_host t) d))) devices\<rparr> \<and>
    ma_devices t = devices \<and> ma_count t = num \<and> devices \<noteq> [] \<and> (\<forall>d\<in>set devices. \<exists>p. cuda_device_ptr env (ma_host t) d = Inr p) \<and>
    h_policy t = (if 0 \<le> node \<and> numa_lib env then - 1 else h_policy s) \<and> cuda_host_alloc env (of_int num * elem) = Inr (ma_host t)"
proof -
  obtain p where p: "cuda_host_alloc env (of_int num * elem) = Inr p" "devices \<noteq> []"
    using assms(1) by (auto simp: mapped_reset_def host_comp split: sum.splits if_splits)
  define t0 where "t0 = (let s0 = (mapped_release s)\<lparr>ma_count := num, ma_devices := devices, ma_ptrs := replicate (length devices) None\<rparr> in
    if 0 \<le> node \<and> numa_lib env then numa_set_prefer env node s0 else s0)"
  define t where "t = (let t1 = (take_up (opt_held H_pinned p) t0)\<lparr>ma_host := p\<rparr> in
    if 0 \<le> node \<and> numa_lib env then numa_set_prefer env (- 1) t1 else t1)"
  have "for_each (enumerate 0 devices) (map_device env) (clear t) = (Inr (), s')"
    using assms(1) p by (simp add: mapped_reset_def host_comp t_def t0_def Let_def del: enumerate_simps)
  moreover have f: "ma_host t = p" "ma_devices t = devices" "ma_count t = num" "length (ma_ptrs t) = length devices"
    "h_policy t = (if 0 \<le> node \<and> numa_lib env then - 1 else h_policy s)"
    by (simp_all add: t_def t0_def Let_def) (simp_all add: numa_set_prefer_def mapped_release_def)
  ultimately show ?thesis using map_devices_result[of 0 devices env "clear t" s'] assms(2)[of t] p
    by (intro exI[of _ t]) auto
qed

lemma map_devices_outcome:
  "isl (fst (for_each (enumerate k ds) (map_device env) s)) \<longleftrightarrow>
     (\<exists>d\<in>set ds. cuda_set env d \<noteq> None \<or> isl (cuda_device_ptr env (ma_host s) d))"
proof (induction ds arbitrary: k s)
  case (Cons d ds)
  have "ma_host (s\<lparr>ma_ptrs := ps\<rparr>) = ma_host s" for ps by simp
  then show ?case using Cons.IH[of "Suc k"]
    by (cases "cuda_set env d"; cases "cuda_device_ptr env (ma_host s) d") (simp_all add: map_device_def host_comp)
qed (simp add: ret_def)

lemma map_devices_held: "h_held (snd (for_each xs (map_device env) s)) = h_held s"
  using preserves_run[OF map_device_frame[where I = "\<lambda>t. h_held t = h_held s" and env = env and xs = xs]] by simp

lemma buffer_reset_op: "MappedBuffer_reset elem env num node devices \<in> mapped_ops"
  unfolding mapped_ops_def by blast

text \<open>What the constructor holds when it throws.\<close>

lemma mapped_reset_outcome:
  assumes "ma_host s = None" "devices \<noteq> []" "cuda_host_alloc env (of_int num * elem) = Inr p"
  shows "isl (fst (mapped_reset text elem id env num node devices s)) \<longleftrightarrow>
      (\<exists>d\<in>set devices. cuda_set env d \<noteq> None \<or> isl (cuda_device_ptr env p d))"
    "h_held (snd (mapped_reset text elem id env num node devices s)) = h_held s + opt_held H_pinned p"
  using assms map_devices_outcome[of 0 devices env] map_devices_held[of "enumerate 0 devices" env]
  by (simp_all add: mapped_reset_def host_comp mapped_release_def del: enumerate_simps)

text \<open>C33: what the life of a mapped buffer leaves behind, exactly. Whatever CUDA answers to the constructor's calls and to the resets that
  follow, and however many of these throw, after the destructor the process holds what it held before, unless the constructor threw behind
  its allocation because a device could not be set or gave no pointer: then the destructor never runs and the pinned
  allocation stays. \<open>cudaFreeHost\<close> is taken to succeed, its answer is ignored by the source.\<close>

theorem mapped_buffer_leaves:
  assumes "set ms \<subseteq> mapped_ops" "ma_host s = None"
  shows "h_held (MappedBuffer_life elem env num node devices ms s) = h_held s +
    (case cuda_host_alloc env (num * elem) of
       Inl _ \<Rightarrow> {#}
     | Inr p \<Rightarrow> if devices \<noteq> [] \<and> (\<exists>d\<in>set devices. cuda_set env d \<noteq> None \<or> isl (cuda_device_ptr env p d))
               then opt_held H_pinned p else {#})"
proof -
  let ?m = "MappedBuffer_reset elem env num node devices"
  have m: "?m \<in> mapped_ops" by (rule buffer_reset_op)
  obtain r s' where run: "?m s = (r, s')" by (cases "?m s")
  have gone: "h_held (mapped_release (fold (\<lambda>m s. snd (m s)) ms s')) = h_held s"
    using mapped_array_gives_back[of "?m # ms" s] assms m run by simp
  have fin: "h_held (MappedBuffer_life elem env num node devices ms s) = (if isl r then h_held s' else h_held s)"
    using run gone by (cases r) (simp_all add: MappedBuffer_life_def)
  show ?thesis
  proof (cases "devices = [] \<or> isl (cuda_host_alloc env (num * elem))")
    case True
    then have "isl r \<and> h_held s' = h_held s"
      using run assms(2) by (cases "cuda_host_alloc env (num * elem)")
        (auto simp: MappedBuffer_reset_def mapped_reset_def host_comp mapped_release_def split: if_splits)
    then show ?thesis unfolding fin using True by (auto split: sum.splits)
  next
    case False
    then obtain p where p: "cuda_host_alloc env (of_int (uint num) * elem) = Inr p" "devices \<noteq> []"
      by (cases "cuda_host_alloc env (num * elem)") auto
    note out = mapped_reset_outcome[OF assms(2) p(2,1)]
    have "isl r \<longleftrightarrow> (\<exists>d\<in>set devices. cuda_set env d \<noteq> None \<or> isl (cuda_device_ptr env p d))"
      "h_held s' = h_held s + opt_held H_pinned p"
      using out run unfolding MappedBuffer_reset_def by (metis fst_conv, metis snd_conv)
    then show ?thesis unfolding fin using p by simp
  qed
qed

text \<open>The constructor names a device that does not exist.\<close>

theorem mapped_buffer_leaves_witness:
  "h_held (MappedBuffer_life 4 demo_host_env 2 0 [0, 9] [] fresh_array) = {#H_device 1, H_pinned 5#} \<and>
   h_held (MappedBuffer_life 4 demo_host_env 2 0 [0, 1] [MappedBuffer_reset 4 demo_host_env 3 0 [9]] fresh_array) = {#H_device 1#}"
proof -
  have "set [MappedBuffer_reset 4 demo_host_env 3 0 [9]] \<subseteq> mapped_ops" using buffer_reset_op by auto
  then show ?thesis
    using mapped_buffer_leaves[of "[]" fresh_array 4 demo_host_env 2 0 "[0, 9]"]
      mapped_buffer_leaves[of "[MappedBuffer_reset 4 demo_host_env 3 0 [9]]" fresh_array 4 demo_host_env 2 0 "[0, 1]"]
    by (simp add: fresh_array_def demo_host_env_def)
qed

text \<open>
  Property: a step counter that was reset has a pointer for each of its devices and for no other, all counters read zero, and the
  NUMA policy of the thread is the default one again.
\<close>

theorem counter_reset_usable:
  assumes "MappedU64Array_reset env num node devices s = (Inr (), s')" "h_policy s = - 1"
  shows "h_policy s' = - 1 \<and>
    (\<forall>d. mapped_device_ptr text d s' =
       (if d \<in> set devices then Inr (Some (projr (cuda_device_ptr env (ma_host s') d))) else Inl (Runtime_error text))) \<and>
    (\<forall>d \<in> set devices. \<not> isl (cuda_device_ptr env (ma_host s') d)) \<and>
    (\<forall>p i. ma_host s' = Some p \<and> int i < sint num \<longrightarrow> h_words s' p i = 0)"
proof -
  obtain t where t: "s' = (clear_host t)\<lparr>ma_ptrs := map (\<lambda>d. Some (projr (cuda_device_ptr env (ma_host t) d))) devices\<rparr>"
    "ma_devices t = devices" "ma_count t = sint num" "\<forall>d\<in>set devices. \<exists>p. cuda_device_ptr env (ma_host t) d = Inr p"
    "h_policy t = - 1"
    using mapped_reset_returns[OF assms(1)[unfolded MappedU64Array_reset_def]] assms(2) by (auto split: if_splits)
  have "h_words s' p i = 0" if "ma_host s' = Some p" "int i < sint num" for p i
    using that t(1,3) by (simp add: clear_host_def split: option.splits)
  moreover have "mapped_device_ptr text d s' =
       (if d \<in> set devices then Inr (Some (projr (cuda_device_ptr env (ma_host s') d))) else Inl (Runtime_error text))" for d
    using t(1,2) by (simp add: mapped_device_ptr_def find_zip)
  moreover have "h_policy s' = - 1" "\<forall>d \<in> set devices. \<not> isl (cuda_device_ptr env (ma_host s') d)" using t(1,4,5) by auto
  ultimately show ?thesis by blast
qed

theorem counter_reset_usable_witness:
  "mapped_device_ptr ''no pointer'' 1 (snd (MappedU64Array_reset demo_host_env 2 0 [0, 1] fresh_array)) = Inr (Some 41)"
proof -
  obtain s' where s': "MappedU64Array_reset demo_host_env 2 0 [0, 1] fresh_array = (Inr (), s')"
    by (simp add: MappedU64Array_reset_def mapped_reset_def host_comp demo_host_env_def map_device_def)
  have "h_policy fresh_array = - 1" by (simp add: fresh_array_def)
  from counter_reset_usable[OF s' this, of "''no pointer''"] have "mapped_device_ptr ''no pointer'' 1 s' = Inr (Some 41)"
    by (simp add: demo_host_env_def)
  then show ?thesis by (simp add: s')
qed

text \<open>
  Property: when the allocation fails, the preferred NUMA node of the thread stays set to the node of the buffer: the call that would
  restore the default policy stands after the check that throws, although the code means to keep the policy from later allocations.
\<close>

theorem failed_allocation_keeps_policy:
  assumes "devices \<noteq> []" "0 \<le> node" "numa_lib env" "cuda_host_alloc env (num * elem) = Inl err"
  shows "\<exists>s' e. MappedBuffer_reset elem env num node devices s = (Inl e, s') \<and> h_policy s' = node"
  using assms by (simp add: MappedBuffer_reset_def mapped_reset_def host_comp numa_set_prefer_def)

theorem failed_allocation_keeps_policy_witness:
  "h_policy fresh_array = - 1 \<and> h_policy (snd (MappedBuffer_reset 4 demo_host_env 0 3 [0] fresh_array)) = 3"
proof -
  have "\<exists>s' e. MappedBuffer_reset 4 demo_host_env 0 3 [0] fresh_array = (Inl e, s') \<and> h_policy s' = 3"
    by (rule failed_allocation_keeps_policy) (simp_all add: demo_host_env_def)
  then show ?thesis by (auto simp: fresh_array_def)
qed

text \<open>
  A constructor that throws does not run the destructor. \<open>RegisteredMappedBuffer(count)\<close> then leaves its descriptor and its mapping
  behind, here since \<open>cudaHostRegister\<close> fails.
\<close>

definition fresh_registered :: registered_buffer where
  "fresh_registered = \<lparr>h_held = {#}, h_policy = - 1, h_words = (\<lambda>p i. 77), rb_count = 0, rb_bytes = 0, rb_fd = None, rb_registered = False,
     rb_host = None, rb_ptrs = []\<rparr>"

lemma registered_constructor_leaks:
  "\<exists>e s. registered_reset 2 demo_host_env 10 fresh_registered = (Inl e, s) \<and> h_held s = {#H_fd 3, H_map 7#}"
  by (simp add: registered_reset_def registered_release_def fresh_registered_def demo_host_env_def host_comp Let_def take_up_def
      add_mset_commute)

section \<open>Sizes and nodes\<close>

text \<open>The rounded size is the least multiple of the page size that is large enough, as long as it fits in 64 bits.\<close>

lemma round_up_bounds:
  assumes "0 < page" "unat n + unat page < 2 ^ 64"
  shows "unat n \<le> unat (round_up n page)" "unat (round_up n page) < unat n + unat page" "unat page dvd unat (round_up n page)"
proof -
  let ?n = "unat n" and ?p = "unat page"
  have p: "0 < ?p" using assms(1) by (simp add: word_less_nat_alt)
  have "unat (n + page) = ?n + ?p" using assms(2) by (simp add: unat_plus_if' )
  moreover have "1 \<le> n + page" using calculation p by (simp add: word_le_nat_alt)
  ultimately have sub: "unat (n + page - 1) = ?n + ?p - 1" by (simp add: unat_sub)
  have q: "(?n + ?p - 1) div ?p * ?p \<le> ?n + ?p - 1" by (rule div_times_less_eq_dividend)
  have "unat ((n + page - 1) div page) * ?p < 2 ^ LENGTH(64)"
    using le_less_trans[OF q, of "2 ^ 64"] assms(2) sub by (simp add: unat_div)
  then have r: "unat (round_up n page) = (?n + ?p - 1) div ?p * ?p"
    by (simp add: round_up_def unat_mult_lem[THEN iffD1] unat_div sub)
  show "?p dvd unat (round_up n page)" by (simp add: r)
  show "unat (round_up n page) < ?n + ?p" using le_less_trans[OF q, of "?n + ?p"] p by (simp add: r)
  have "?n + ?p - 1 < (?n + ?p - 1) div ?p * ?p + ?p" using p by (metis dividend_less_times_div add.commute mult.commute)
  then show "?n \<le> unat (round_up n page)" using p by (simp add: r)
qed

lemma gpu_numa_node_nonneg: "0 \<le> gpu_numa_node properties read_node"
  by (simp add: gpu_numa_node_def Let_def split: option.splits prod.splits)

end
