(* ===== verification/P2p_Buffers.thy ===== *)
theory P2p_Buffers
  imports Host_Buffer Topology Geometry
begin

text \<open>
  The device buffers of P2P edges inside one process: \<open>transport/p2p/p2p_fifo.cu\<close> and \<open>transport/p2p/p2p_step_counters.cu\<close>, on the
  buffers of \<open>Host_Buffer\<close>. An object is a table of buffers, each with its device and its pointer; the log holds the asynchronous
  resets as pairs of pointer and stream.
\<close>

section \<open>Tables of buffers\<close>

record 'k buffer_table = host +
  bt_bufs :: "'k \<Rightarrow> (int \<times> nat option) option"
  bt_log :: "(nat option \<times> nat) list"

definition new_device_buffer :: "host_env \<Rightarrow> 64 word \<Rightarrow> int \<Rightarrow> 64 word \<Rightarrow> ('a host_scheme, nat option) comp" where
  "new_device_buffer env elem device num =
     andalso (check_set_device env device)
    (andthen (cuda_check_throw (cuda_malloc env (num * elem))) (\<lambda>p. andalso (change (take_up (opt_held H_device p))) (ret p)))"

text \<open>This is the constructor of \<open>DeviceBuffer\<close>.\<close>

lemma new_device_buffer_resets:
  assumes "db_ptr s = None" "t = s\<lparr>db_device := device, db_count := num\<rparr>"
  shows "device_reset env elem device num s =
    (case new_device_buffer env elem device num t of (Inl e, u) \<Rightarrow> (Inl e, u) | (Inr p, u) \<Rightarrow> (Inr (), u\<lparr>db_ptr := p\<rparr>))"
  using assms
  by (auto simp: device_reset_def new_device_buffer_def device_release_def host_comp take_up_def give_back_def split: option.splits sum.splits)

definition place :: "host_env \<Rightarrow> 64 word \<Rightarrow> int \<Rightarrow> 64 word \<Rightarrow> 'k \<Rightarrow> ('k buffer_table, unit) comp" where
  "place env elem device num k =
     andthen (new_device_buffer env elem device num) (\<lambda>p. change (\<lambda>s. s\<lparr>bt_bufs := (bt_bufs s)(k := Some (device, p))\<rparr>))"

definition delete_buffer :: "'k \<Rightarrow> 'k buffer_table \<Rightarrow> 'k buffer_table" where
  "delete_buffer k s =
     (case bt_bufs s k of
        None \<Rightarrow> s
      | Some b \<Rightarrow> (give_back (opt_held H_device (snd b)) s)\<lparr>bt_bufs := (bt_bufs s)(k := None)\<rparr>)"

definition delete_all :: "'k list \<Rightarrow> 'k buffer_table \<Rightarrow> 'k buffer_table" where
  "delete_all ks s = fold delete_buffer ks s"

section \<open>Peer access\<close>

definition peer_access_available :: "gpu_env \<Rightarrow> int \<Rightarrow> int \<Rightarrow> bool result" where
  "peer_access_available env src dst =
     (case can_access_peer env src dst of None \<Rightarrow> Inl (Runtime_error ''CUDA error: cudaDeviceCanAccessPeer'') | Some b \<Rightarrow> Inr b)"

definition require_peer_access :: "gpu_env \<Rightarrow> int \<Rightarrow> int \<Rightarrow> unit result" where
  "require_peer_access env src dst =
     rbind (peer_access_available env src dst) (\<lambda>b. throw_if (\<not> b)
       (Runtime_error (''P2P unavailable for ring edge '' @ string_of_int src @ '' -> '' @ string_of_int dst)))"

fun ring_available :: "gpu_env \<Rightarrow> nat \<Rightarrow> nat list \<Rightarrow> bool result" where
  "ring_available env K [] = Inr True"
| "ring_available env K (edge # edges) =
     (let receiver = int ((edge + 1) mod K) in
      rbind (peer_access_available env (int edge) receiver) (\<lambda>there.
        if \<not> there then Inr False
        else rbind (peer_access_available env receiver (int edge)) (\<lambda>back.
          if \<not> back then Inr False else ring_available env K edges)))"

definition p2p_ring_available :: "gpu_env \<Rightarrow> nat \<Rightarrow> bool result" where
  "p2p_ring_available env K = ring_available env K [0..<K]"

definition require_p2p_ring :: "gpu_env \<Rightarrow> nat \<Rightarrow> unit result" where
  "require_p2p_ring env K =
     rfold (\<lambda>edge _. rbind (require_peer_access env (int edge) (int ((edge + 1) mod K)))
       (\<lambda>_. require_peer_access env (int ((edge + 1) mod K)) (int edge))) [0..<K] ()"

text \<open>Unlike the function of the same name in \<open>p2p_topology.cu\<close>, this one ignores what \<open>cudaGetLastError\<close> reports.\<close>

definition fifo_enable_peer_access :: "gpu_env \<Rightarrow> int \<Rightarrow> int \<Rightarrow> (int \<times> int) list \<Rightarrow> (int \<times> int) list result" where
  "fifo_enable_peer_access env src dst peers =
     (case set_device env src of Some e \<Rightarrow> Inl (Runtime_error (''CUDA error: '' @ e)) | None \<Rightarrow>
      (case enable_peer env src dst of
         Peer_enabled \<Rightarrow> Inr ((src, dst) # peers)
       | Peer_already _ \<Rightarrow> Inr ((src, dst) # peers)
       | Peer_error e \<Rightarrow> Inl (Runtime_error e)))"

definition enable_p2p_ring_peer_access_or_throw :: "gpu_env \<Rightarrow> nat \<Rightarrow> (int \<times> int) list \<Rightarrow> (int \<times> int) list result" where
  "enable_p2p_ring_peer_access_or_throw env K peers =
     rbind (require_p2p_ring env K) (\<lambda>_.
       rfold (\<lambda>edge ps. rbind (fifo_enable_peer_access env (int edge) (int ((edge + 1) mod K)) ps)
         (\<lambda>ps. fifo_enable_peer_access env (int ((edge + 1) mod K)) (int edge) ps)) [0..<K] peers)"

section \<open>FIFOs\<close>

definition single_process_topology :: "nat \<Rightarrow> plan \<Rightarrow> process_topology" where
  "single_process_topology K plan = \<lparr>global_rank_count = int K, local_rank_offset = 0, devices = map int [0..<K], edge_kinds = plan, distributed = False\<rparr>"

definition make_full_p2p_plan :: "gpu_env \<Rightarrow> nat \<Rightarrow> nat \<Rightarrow> plan result" where
  "make_full_p2p_plan env K nranks =
     (if nranks \<noteq> K then Inl (Runtime_error (''P2pFifo requested nranks='' @ string_of_nat nranks @
          '' does not match configured kRanks='' @ string_of_nat K))
      else rbind (require_p2p_ring env K) (\<lambda>_. uniform_plan K P2p))"

definition fifo_cells :: "nat \<Rightarrow> nat \<Rightarrow> (nat \<times> nat) list" where
  "fifo_cells C K = List.product [0..<C] [0..<K]"

definition fifo_cell :: "nat \<Rightarrow> (nat \<times> nat \<Rightarrow> host_env) \<Rightarrow> 64 word \<Rightarrow> 64 word \<Rightarrow> plan \<Rightarrow> process_topology \<Rightarrow> nat \<times> nat \<Rightarrow>
    ((nat \<times> nat) buffer_table, unit) comp" where
  "fifo_cell K env elem slot_elems plan topology x =
     (let edge = snd x; receiver = (edge + 1) mod K in
      andthen (lift (edge_kind plan edge)) (\<lambda>kind.
        if kind \<noteq> P2p then ret ()
        else if \<not> is_local_global_rank topology (int edge) \<or> \<not> is_local_global_rank topology (int receiver)
        then raise (Runtime_error ''P2pFifo requires local p2p edges'')
        else andthen (lift (device_for_global_rank topology receiver)) (\<lambda>device.
          place (env x) elem device (of_nat kFifoSteps * slot_elems) x)))"

definition P2pFifo :: "nat \<Rightarrow> nat \<Rightarrow> (nat \<times> nat \<Rightarrow> host_env) \<Rightarrow> 64 word \<Rightarrow> 64 word \<Rightarrow> plan \<Rightarrow> process_topology \<Rightarrow>
    ((nat \<times> nat) buffer_table, unit) comp" where
  "P2pFifo C K env elem slot_elems plan topology =
     andalso (lift (validate_process_topology K topology))
       (on_exception (for_each (fifo_cells C K) (fifo_cell K env elem slot_elems plan topology)) (delete_all (fifo_cells C K)))"

definition destroy_fifo :: "nat \<Rightarrow> nat \<Rightarrow> (nat \<times> nat) buffer_table \<Rightarrow> (nat \<times> nat) buffer_table" where
  "destroy_fifo C K = delete_all (fifo_cells C K)"

definition edge_ptr :: "nat \<Rightarrow> nat \<Rightarrow> (nat \<times> nat) buffer_table \<Rightarrow> nat option result" where
  "edge_ptr channel edge s =
     (case bt_bufs s (channel, edge) of
        None \<Rightarrow> Inl (Runtime_error (''P2pFifo requested SHM edge '' @ string_of_nat edge))
      | Some b \<Rightarrow> Inr (snd b))"

section \<open>Step counters\<close>

definition counter_cell :: "nat \<Rightarrow> nat \<Rightarrow> (nat \<Rightarrow> host_env) \<Rightarrow> plan \<Rightarrow> process_topology \<Rightarrow> nat \<Rightarrow> (nat buffer_table, unit) comp" where
  "counter_cell C K env plan topology local_rank =
     (let global_rank = nat (local_rank_offset topology) + local_rank; prev = (global_rank + K - 1) mod K in
      andthen (lift (edge_kind plan global_rank)) (\<lambda>outgoing.
        andthen (if outgoing \<noteq> P2p then lift (edge_kind plan prev) else ret outgoing) (\<lambda>incoming.
          if outgoing \<noteq> P2p \<and> incoming \<noteq> P2p then ret ()
          else place (env global_rank) 8 (devices topology ! local_rank) (of_nat (4 * C)) global_rank)))"

definition P2pStepCounters :: "nat \<Rightarrow> nat \<Rightarrow> (nat \<Rightarrow> host_env) \<Rightarrow> plan \<Rightarrow> process_topology \<Rightarrow> (nat buffer_table, unit) comp" where
  "P2pStepCounters C K env plan topology =
     andalso (lift (validate_process_topology K topology))
       (on_exception (for_each [0..<length (devices topology)] (counter_cell C K env plan topology)) (delete_all [0..<K]))"

text \<open>The constructor for all ranks of one process; \<open>topology\<close> is the one of the uniform plan.\<close>

definition P2pStepCounters_nranks :: "nat \<Rightarrow> nat \<Rightarrow> gpu_env \<Rightarrow> (nat \<Rightarrow> host_env) \<Rightarrow> nat \<Rightarrow> (nat buffer_table, unit) comp" where
  "P2pStepCounters_nranks C K gpus env nranks =
     andthen (lift (uniform_plan K P2p)) (\<lambda>plan.
       if nranks \<noteq> K then raise (Runtime_error (''P2pStepCounters requested nranks='' @ string_of_nat nranks @
            '' does not match configured kRanks='' @ string_of_nat K))
       else andalso (lift (require_p2p_ring gpus K))
         (on_exception (for_each [0..<K] (\<lambda>r. place (env r) 8 (devices (single_process_topology K plan) ! r) (of_nat (4 * C)) r))
            (delete_all [0..<K])))"

definition reset_counter :: "(int \<Rightarrow> string option) \<Rightarrow> (nat \<Rightarrow> string option) \<Rightarrow> process_topology \<Rightarrow> nat list \<Rightarrow> nat \<Rightarrow>
    (nat buffer_table, unit) comp" where
  "reset_counter set_dev memset_error topology streams local_rank =
     with_state (\<lambda>s. case bt_bufs s (nat (local_rank_offset topology) + local_rank) of
        None \<Rightarrow> ret ()
      | Some b \<Rightarrow>
          andalso (cuda_check_throw (case set_dev (devices topology ! local_rank) of Some e \<Rightarrow> Inl e | None \<Rightarrow> Inr ()))
         (andalso (cuda_check_throw (case memset_error local_rank of Some e \<Rightarrow> Inl e | None \<Rightarrow> Inr ()))
            (change (\<lambda>s. s\<lparr>bt_log := (snd b, streams ! local_rank) # bt_log s\<rparr>))))"

definition reset_counters :: "(int \<Rightarrow> string option) \<Rightarrow> (nat \<Rightarrow> string option) \<Rightarrow> process_topology \<Rightarrow> nat list \<Rightarrow>
    (nat buffer_table, unit) comp" where
  "reset_counters set_dev memset_error topology streams =
     (if length streams \<noteq> length (devices topology)
      then raise (Runtime_error ''P2pStepCounters requires one stream per local rank'')
      else for_each [0..<length (devices topology)] (reset_counter set_dev memset_error topology streams))"

section \<open>All or nothing\<close>

definition buf_res :: "(int \<times> nat option) option \<Rightarrow> host_res multiset" where
  "buf_res b = (case b of None \<Rightarrow> {#} | Some x \<Rightarrow> opt_held H_device (snd x))"

definition table_own :: "'k list \<Rightarrow> 'k buffer_table \<Rightarrow> host_res multiset" where
  "table_own ks s = sum_list (map (\<lambda>k. buf_res (bt_bufs s k)) ks)"

lemma table_fields [simp]:
  "bt_bufs (take_up m s) = bt_bufs s" "bt_bufs (give_back m s) = bt_bufs s" "bt_log (take_up m s) = bt_log s"
  by (simp_all add: take_up_def give_back_def)

lemma table_own_cong: "(\<And>k. k \<in> set ks \<Longrightarrow> bt_bufs s k = bt_bufs t k) \<Longrightarrow> table_own ks s = table_own ks t"
  by (simp add: table_own_def cong: map_cong)

lemma table_own_update:
  assumes "distinct ks" "k \<in> set ks"
  shows "table_own ks (s\<lparr>bt_bufs := (bt_bufs s)(k := b)\<rparr>) + buf_res (bt_bufs s k) = table_own ks s + buf_res b"
  using assms
proof (induction ks)
  case (Cons x ks)
  show ?case
  proof (cases "x = k")
    case True
    then have "table_own ks (s\<lparr>bt_bufs := (bt_bufs s)(k := b)\<rparr>) = table_own ks s" using Cons.prems by (intro table_own_cong) auto
    then show ?thesis using True by (simp add: table_own_def)
  next
    case False
    then show ?thesis using Cons by (simp add: table_own_def)
  qed
qed simp

lemma table_own_held [simp]: "table_own ks (take_up m s) = table_own ks s" "table_own ks (give_back m s) = table_own ks s"
  by (simp_all add: table_own_def)

lemma delete_all_none: "bt_bufs s k = None \<Longrightarrow> bt_bufs (delete_all ks s) k = None"
  by (induction ks arbitrary: s) (auto simp: delete_all_def delete_buffer_def split: option.splits)

lemma delete_all_gives:
  assumes "distinct ks" "h_held s = others + table_own ks s"
  shows "h_held (delete_all ks s) = others \<and> (\<forall>k\<in>set ks. bt_bufs (delete_all ks s) k = None)"
  using assms
proof (induction ks arbitrary: s)
  case (Cons k ks)
  let ?s = "delete_buffer k s"
  have same: "bt_bufs ?s k' = bt_bufs s k'" if "k' \<noteq> k" for k' using that by (simp add: delete_buffer_def split: option.splits)
  have k: "bt_bufs ?s k = None" by (simp add: delete_buffer_def split: option.splits)
  have "h_held ?s = h_held s - buf_res (bt_bufs s k)" by (simp add: delete_buffer_def buf_res_def split: option.splits)
  moreover have "table_own ks ?s = table_own ks s" using Cons.prems(1) by (intro table_own_cong same) auto
  ultimately have "h_held ?s = others + table_own ks ?s" using Cons.prems(2) by (simp add: table_own_def)
  with Cons.IH[of ?s] Cons.prems(1) have ih: "h_held (delete_all ks ?s) = others" "\<forall>k\<in>set ks. bt_bufs (delete_all ks ?s) k = None" by auto
  show ?case using ih delete_all_none[OF k] by (simp add: delete_all_def)
qed (simp add: delete_all_def table_own_def)

text \<open>The loop over the cells: what is still to come is empty, what is there is owned.\<close>

definition filling :: "host_res multiset \<Rightarrow> 'k list \<Rightarrow> 'k set \<Rightarrow> 'k buffer_table \<Rightarrow> bool" where
  "filling others ks rest s \<longleftrightarrow> h_held s = others + table_own ks s \<and> (\<forall>k\<in>rest. bt_bufs s k = None)"

lemma filling_fresh: "\<forall>k. bt_bufs s k = None \<Longrightarrow> filling (h_held s) ks rest s"
proof -
  assume "\<forall>k. bt_bufs s k = None"
  then have "table_own ks s = {#}" by (induction ks) (simp_all add: table_own_def buf_res_def)
  then show ?thesis using \<open>\<forall>k. bt_bufs s k = None\<close> by (simp add: filling_def)
qed

lemma place_result:
  assumes "place env elem device num k s = (r, s')" "distinct ks" "k \<in> set ks" "filling others ks (insert k rest) s" "k \<notin> rest"
  shows "filling others ks rest s' \<and> (\<forall>k'. k' \<noteq> k \<longrightarrow> bt_bufs s' k' = bt_bufs s k') \<and>
    (case r of Inl e \<Rightarrow> True | Inr _ \<Rightarrow> \<exists>p. cuda_malloc env (num * elem) = Inr p \<and> bt_bufs s' k = Some (device, p))"
proof -
  have k: "bt_bufs s k = None" using assms(4) by (simp add: filling_def)
  have "table_own ks (s\<lparr>bt_bufs := (bt_bufs s)(k := Some (device, p))\<rparr>) = table_own ks s + opt_held H_device p" for p
    using table_own_update[OF assms(2,3), of s "Some (device, p)"] k by (simp add: buf_res_def)
  then have own: "table_own ks ((take_up m s)\<lparr>bt_bufs := (bt_bufs s)(k := Some (device, p))\<rparr>) = table_own ks s + opt_held H_device p" for m p
    by (simp add: table_own_def)
  show ?thesis using assms(1,4,5)
    by (auto simp: place_def new_device_buffer_def host_comp filling_def own split: sum.splits option.splits if_splits)
qed

definition fills :: "('x \<Rightarrow> ('k buffer_table, unit) comp) \<Rightarrow> ('x \<Rightarrow> 'k) \<Rightarrow> host_res multiset \<Rightarrow> 'k list \<Rightarrow> ('x \<Rightarrow> (int \<times> nat option) option \<Rightarrow> bool) \<Rightarrow> 'x \<Rightarrow> bool" where
  "fills body key others ks Q x \<longleftrightarrow>
     (\<forall>s r s' rest. body x s = (r, s') \<longrightarrow> filling others ks (insert (key x) rest) s \<longrightarrow> key x \<notin> rest \<longrightarrow>
        filling others ks rest s' \<and> (\<forall>k. k \<noteq> key x \<longrightarrow> bt_bufs s' k = bt_bufs s k) \<and> (\<not> isl r \<longrightarrow> Q x (bt_bufs s' (key x))))"

lemma fill_loop:
  assumes "\<And>x. x \<in> set xs \<Longrightarrow> fills body key others ks Q x" "for_each xs body s = (r, s')" "distinct (map key xs)"
    and "filling others ks (key ` set xs) s"
  shows "filling others ks {} s' \<and> (\<forall>k. k \<notin> key ` set xs \<longrightarrow> bt_bufs s' k = bt_bufs s k) \<and>
    (\<not> isl r \<longrightarrow> (\<forall>x\<in>set xs. Q x (bt_bufs s' (key x))))"
  using assms
proof (induction xs arbitrary: s)
  case Nil
  then show ?case by (auto simp: ret_def)
next
  case (Cons x xs)
  obtain r1 s1 where s1: "body x s = (r1, s1)" by fastforce
  have new: "key x \<notin> key ` set xs" using Cons.prems(3) by auto
  have one: "filling others ks (key ` set xs) s1" "\<forall>k. k \<noteq> key x \<longrightarrow> bt_bufs s1 k = bt_bufs s k" "\<not> isl r1 \<longrightarrow> Q x (bt_bufs s1 (key x))"
    using Cons.prems(1)[of x] s1 Cons.prems(4) new unfolding fills_def by auto
  show ?case
  proof (cases r1)
    case (Inl e)
    then have "r = Inl e" "s' = s1" using Cons.prems(2) s1 by (auto simp: host_comp)
    then show ?thesis using one by (auto simp: filling_def)
  next
    case (Inr u)
    then have "for_each xs body s1 = (r, s')" using Cons.prems(2) s1 by (auto simp: host_comp)
    from Cons.IH[OF _ this _ one(1)] Cons.prems(1,3) have
      ih: "filling others ks {} s'" "\<forall>k. k \<notin> key ` set xs \<longrightarrow> bt_bufs s' k = bt_bufs s1 k"
        "\<not> isl r \<longrightarrow> (\<forall>x\<in>set xs. Q x (bt_bufs s' (key x)))" by auto
    then show ?thesis using one Inr new by auto
  qed
qed

lemma fills_place:
  assumes "distinct ks" "k \<in> set ks" "place env elem device num k s = (r, s')" "filling others ks (insert k rest) s" "k \<notin> rest"
  shows "filling others ks rest s' \<and> (\<forall>k'. k' \<noteq> k \<longrightarrow> bt_bufs s' k' = bt_bufs s k') \<and> (\<not> isl r \<longrightarrow> (\<exists>p. bt_bufs s' k = Some (device, p)))"
  using place_result[OF assms(3,1,2,4,5)] by (cases r) auto

definition fifo_cell_ok :: "nat \<Rightarrow> plan \<Rightarrow> process_topology \<Rightarrow> nat \<times> nat \<Rightarrow> (int \<times> nat option) option \<Rightarrow> bool" where
  "fifo_cell_ok K plan topology x b \<longleftrightarrow>
     (if edge_kind plan (snd x) = Inr P2p
      then \<exists>device p. device_for_global_rank topology ((snd x + 1) mod K) = Inr device \<and> b = Some (device, p)
      else b = None)"

lemma fifo_cell_fills:
  assumes "x \<in> set (fifo_cells C K)"
  shows "fills (fifo_cell K env elem slot_elems plan topology) id others (fifo_cells C K) (fifo_cell_ok K plan topology) x"
proof -
  have d: "distinct (fifo_cells C K)" by (simp add: fifo_cells_def distinct_product)
  show ?thesis unfolding fills_def
  proof (intro allI impI)
    fix s r s' rest
    assume run: "fifo_cell K env elem slot_elems plan topology x s = (r, s')" and f: "filling others (fifo_cells C K) (insert (id x) rest) s" "id x \<notin> rest"
    have keep: "filling others (fifo_cells C K) rest s" "bt_bufs s x = None" using f by (auto simp: filling_def)
    show "filling others (fifo_cells C K) rest s' \<and> (\<forall>k. k \<noteq> id x \<longrightarrow> bt_bufs s' k = bt_bufs s k) \<and>
        (\<not> isl r \<longrightarrow> fifo_cell_ok K plan topology x (bt_bufs s' (id x)))"
    proof (cases "\<exists>device. edge_kind plan (snd x) = Inr P2p \<and> is_local_global_rank topology (int (snd x)) \<and>
        is_local_global_rank topology (int ((snd x + 1) mod K)) \<and> device_for_global_rank topology ((snd x + 1) mod K) = Inr device")
      case True
      then obtain device where dev: "edge_kind plan (snd x) = Inr P2p" "device_for_global_rank topology ((snd x + 1) mod K) = Inr device"
        and p: "place (env x) elem device (of_nat kFifoSteps * slot_elems) x s = (r, s')"
        using run by (auto simp: fifo_cell_def Let_def andthen_def lift_def)
      from fills_place[OF d assms p] f dev show ?thesis by (auto simp: fifo_cell_ok_def)
    next
      case False
      then have "s' = s" "\<not> isl r \<longrightarrow> edge_kind plan (snd x) \<noteq> Inr P2p"
        using run by (auto simp: fifo_cell_def Let_def andthen_def lift_def ret_def raise_def split: sum.splits if_splits)
      then show ?thesis using keep by (auto simp: fifo_cell_ok_def)
    qed
  qed
qed

text \<open>C34: Property: the constructor of the P2P FIFOs is all or nothing. When it throws, for whatever reason and after however many allocations, no buffer
  is left; when it returns, every P2P edge has a buffer per channel on the device of its receiver, no other edge has one, and the
  destructor gives all of them back.
\<close>

theorem p2p_fifo_all_or_nothing:
  assumes "P2pFifo C K env elem slot_elems plan topology s = (r, s')" "\<forall>x. bt_bufs s x = None"
  shows "if isl r then h_held s' = h_held s \<and> (\<forall>x. bt_bufs s' x = None)
    else (\<forall>c<C. \<forall>e<K. fifo_cell_ok K plan topology (c, e) (bt_bufs s' (c, e))) \<and> h_held (destroy_fifo C K s') = h_held s"
proof -
  have d: "distinct (fifo_cells C K)" by (simp add: fifo_cells_def distinct_product)
  have f: "filling (h_held s) (fifo_cells C K) (id ` set (fifo_cells C K)) s"
    by (rule filling_fresh[OF assms(2)])
  obtain r1 s1 where loop: "for_each (fifo_cells C K) (fifo_cell K env elem slot_elems plan topology) s = (r1, s1)" by fastforce
  have l: "filling (h_held s) (fifo_cells C K) {} s1" "\<forall>k. k \<notin> set (fifo_cells C K) \<longrightarrow> bt_bufs s1 k = None"
    "\<not> isl r1 \<longrightarrow> (\<forall>x\<in>set (fifo_cells C K). fifo_cell_ok K plan topology x (bt_bufs s1 x))"
    using fill_loop[OF fifo_cell_fills loop _ f] d assms(2) by auto
  have gone: "h_held (delete_all (fifo_cells C K) s1) = h_held s" "\<forall>k\<in>set (fifo_cells C K). bt_bufs (delete_all (fifo_cells C K) s1) k = None"
    using delete_all_gives[OF d, of s1 "h_held s"] l(1) by (auto simp: filling_def)
  have cells: "(c, e) \<in> set (fifo_cells C K) \<longleftrightarrow> c < C \<and> e < K" for c e by (simp add: fifo_cells_def)
  show ?thesis
  proof (cases "validate_process_topology K topology")
    case (Inl e)
    then have "r = Inl e" "s' = s" using assms(1) by (auto simp: P2pFifo_def andalso_def andthen_def lift_def)
    then show ?thesis using assms(2) by simp
  next
    case (Inr u)
    then have "(r, s') = (case r1 of Inl e \<Rightarrow> (Inl e, delete_all (fifo_cells C K) s1) | Inr a \<Rightarrow> (Inr a, s1))"
      using assms(1) loop by (simp add: P2pFifo_def andalso_def andthen_def lift_def on_exception_def split: sum.splits)
    moreover have "bt_bufs (delete_all (fifo_cells C K) s1) k = None" for k
      using gone(2) delete_all_none[of s1 k] l(2) by (cases "k \<in> set (fifo_cells C K)") simp_all
    ultimately show ?thesis using l(3) gone(1) cells by (cases r1) (auto simp: destroy_fifo_def)
  qed
qed

text \<open>The same for the step counters, whose cells are the ranks of the process.\<close>

definition counter_cell_ok :: "nat \<Rightarrow> plan \<Rightarrow> process_topology \<Rightarrow> nat \<Rightarrow> (int \<times> nat option) option \<Rightarrow> bool" where
  "counter_cell_ok K plan topology local_rank b \<longleftrightarrow>
     (let global_rank = nat (local_rank_offset topology) + local_rank in
      if edge_kind plan global_rank = Inr P2p \<or> edge_kind plan ((global_rank + K - 1) mod K) = Inr P2p
      then \<exists>p. b = Some (devices topology ! local_rank, p) else b = None)"

lemma counter_cell_fills:
  assumes "nat (local_rank_offset topology) + x < K"
  shows "fills (counter_cell C K env plan topology) (\<lambda>x. nat (local_rank_offset topology) + x) others [0..<K] (counter_cell_ok K plan topology) x"
  unfolding fills_def
proof (intro allI impI)
  fix s r s' rest
  let ?g = "nat (local_rank_offset topology) + x"
  assume run: "counter_cell C K env plan topology x s = (r, s')" and f: "filling others [0..<K] (insert ?g rest) s" "?g \<notin> rest"
  have keep: "filling others [0..<K] rest s" "bt_bufs s ?g = None" using f by (auto simp: filling_def)
  show "filling others [0..<K] rest s' \<and> (\<forall>k. k \<noteq> ?g \<longrightarrow> bt_bufs s' k = bt_bufs s k) \<and>
      (\<not> isl r \<longrightarrow> counter_cell_ok K plan topology x (bt_bufs s' ?g))"
  proof (cases "place (env ?g) 8 (devices topology ! x) (of_nat (4 * C)) ?g s = (r, s') \<and>
      (edge_kind plan ?g = Inr P2p \<or> edge_kind plan ((?g + K - 1) mod K) = Inr P2p)")
    case True
    then have p: "place (env ?g) 8 (devices topology ! x) (of_nat (4 * C)) ?g s = (r, s')" by blast
    have "distinct [0..<K]" "?g \<in> set [0..<K]" using assms by auto
    from fills_place[OF this p f] True show ?thesis by (auto simp: counter_cell_ok_def)
  next
    case False
    then have "s' = s" "\<not> isl r \<longrightarrow> edge_kind plan ?g \<noteq> Inr P2p \<and> edge_kind plan ((?g + K - 1) mod K) \<noteq> Inr P2p"
      using run by (auto simp: counter_cell_def Let_def andthen_def lift_def ret_def split: sum.splits if_splits)
    then show ?thesis using keep by (auto simp: counter_cell_ok_def)
  qed
qed

lemma validate_topology_range:
  assumes "validate_process_topology K t = Inr u" "x < length (devices t)"
  shows "nat (local_rank_offset t) + x < K"
  using assms by (auto simp: validate_process_topology_def split: if_splits)

lemma counters_all_or_nothing:
  assumes "P2pStepCounters C K env plan topology s = (r, s')" "\<forall>x. bt_bufs s x = None"
  shows "if isl r then h_held s' = h_held s \<and> (\<forall>x. bt_bufs s' x = None)
    else (\<forall>x<length (devices topology). counter_cell_ok K plan topology x (bt_bufs s' (nat (local_rank_offset topology) + x))) \<and>
      h_held (delete_all [0..<K] s') = h_held s"
proof (cases "validate_process_topology K topology")
  case (Inl e)
  then have "r = Inl e" "s' = s" using assms(1) by (auto simp: P2pStepCounters_def andalso_def andthen_def lift_def)
  then show ?thesis using assms(2) by simp
next
  case (Inr u)
  let ?key = "\<lambda>x. nat (local_rank_offset topology) + x" and ?xs = "[0..<length (devices topology)]"
  note range = validate_topology_range[OF Inr]
  obtain r1 s1 where loop: "for_each ?xs (counter_cell C K env plan topology) s = (r1, s1)" by fastforce
  have inj: "distinct (map ?key ?xs)" by (simp add: distinct_map inj_on_def)
  have l: "filling (h_held s) [0..<K] {} s1" "\<forall>k. k \<notin> ?key ` set ?xs \<longrightarrow> bt_bufs s1 k = None"
    "\<not> isl r1 \<longrightarrow> (\<forall>x\<in>set ?xs. counter_cell_ok K plan topology x (bt_bufs s1 (?key x)))"
    using fill_loop[OF counter_cell_fills loop inj filling_fresh[OF assms(2)]] range assms(2) by auto
  have out: "bt_bufs s1 k = None" if "k \<notin> set [0..<K]" for k
  proof -
    have "\<forall>x\<in>set ?xs. ?key x < K" using range by simp
    then have "k \<notin> ?key ` set ?xs" using that by (metis atLeast_upt imageE lessThan_iff)
    then show ?thesis using l(2) by blast
  qed
  have gone: "h_held (delete_all [0..<K] s1) = h_held s" "\<forall>k\<in>set [0..<K]. bt_bufs (delete_all [0..<K] s1) k = None"
    using delete_all_gives[of "[0..<K]" s1 "h_held s"] l(1) by (auto simp: filling_def)
  then have clean: "bt_bufs (delete_all [0..<K] s1) k = None" for k using delete_all_none[OF out] by blast
  have "(r, s') = (case r1 of Inl e \<Rightarrow> (Inl e, delete_all [0..<K] s1) | Inr a \<Rightarrow> (Inr a, s1))"
    using assms(1) loop Inr by (simp add: P2pStepCounters_def andalso_def andthen_def lift_def on_exception_def split: sum.splits)
  then show ?thesis using l(3) gone(1) clean by (cases r1) auto
qed

text \<open>Two ranks in one process, the second allocation fails.\<close>

definition demo_fifo_env :: "nat \<times> nat \<Rightarrow> host_env" where
  "demo_fifo_env x = demo_host_env\<lparr>cuda_malloc := (\<lambda>_. if snd x = 1 then Inl ''out of memory'' else Inr (Some 4))\<rparr>"

definition empty_table :: "(nat \<times> nat) buffer_table" where
  "empty_table = \<lparr>h_held = {#H_pinned 9#}, h_policy = - 1, h_words = (\<lambda>p i. 0), bt_bufs = (\<lambda>_. None), bt_log = []\<rparr>"

theorem p2p_fifo_all_or_nothing_witness:
  "isl (fst (P2pFifo 1 2 demo_fifo_env 4 1024 [P2p, P2p] (single_process_topology 2 [P2p, P2p]) empty_table)) \<and>
   h_held (snd (P2pFifo 1 2 demo_fifo_env 4 1024 [P2p, P2p] (single_process_topology 2 [P2p, P2p]) empty_table)) = {#H_pinned 9#}"
proof -
  let ?run = "P2pFifo 1 2 demo_fifo_env 4 1024 [P2p, P2p] (single_process_topology 2 [P2p, P2p]) empty_table"
  have "isl (fst ?run)" by code_simp
  moreover have "if isl (fst ?run) then h_held (snd ?run) = h_held empty_table \<and> (\<forall>x. bt_bufs (snd ?run) x = None)
    else (\<forall>c<1. \<forall>e<2. fifo_cell_ok 2 [P2p, P2p] (single_process_topology 2 [P2p, P2p]) (c, e) (bt_bufs (snd ?run) (c, e))) \<and>
      h_held (destroy_fifo 1 2 (snd ?run)) = h_held empty_table"
    by (rule p2p_fifo_all_or_nothing[of 1 2 demo_fifo_env 4 1024]) (simp_all add: empty_table_def)
  ultimately show ?thesis by (simp add: empty_table_def)
qed

end
