(* ===== verification/Socket_Descriptors.thy ===== *)
theory Socket_Descriptors
  imports Socket_Wire Comp_Logic "HOL-Library.Multiset"
begin

text \<open>
  Who closes a socket: \<open>SocketConnection\<close> and \<open>SocketEndpoint\<close> of \<open>transport/socket/socket_endpoint.cc\<close> and \<open>SocketFdOwner\<close> of
  \<open>communicator.cu\<close>. The state of the process is the multiset of its open descriptors. Objects live at the positions of a list,
  since moving involves two of them; the descriptor \<open>-1\<close> is \<open>None\<close>.
\<close>

section \<open>Connections\<close>

record socket_connection =
  c_fd :: "nat option"
  c_hello :: socket_hello

record sockets =
  s_open :: "nat multiset"
  s_objs :: "socket_connection list"

definition fd_held :: "nat option \<Rightarrow> nat multiset" where
  "fd_held fd = (case fd of None \<Rightarrow> {#} | Some f \<Rightarrow> {#f#})"

text \<open>\<open>close\<close>, which is also the destructor.\<close>

definition close_connection :: "nat \<Rightarrow> sockets \<Rightarrow> sockets" where
  "close_connection i s =
     (case c_fd (s_objs s ! i) of
        None \<Rightarrow> s
      | Some f \<Rightarrow> s\<lparr>s_open := s_open s - {#f#}, s_objs := (s_objs s)[i := (s_objs s ! i)\<lparr>c_fd := None\<rparr>]\<rparr>)"

definition release_connection :: "nat \<Rightarrow> sockets \<Rightarrow> nat option \<times> sockets" where
  "release_connection i s = (c_fd (s_objs s ! i), s\<lparr>s_objs := (s_objs s)[i := (s_objs s ! i)\<lparr>c_fd := None\<rparr>]\<rparr>)"

text \<open>The new object of a move construction is the last one of the list.\<close>

definition move_construct :: "nat \<Rightarrow> sockets \<Rightarrow> sockets" where
  "move_construct j s = s\<lparr>s_objs := (s_objs s)[j := (s_objs s ! j)\<lparr>c_fd := None\<rparr>] @ [s_objs s ! j]\<rparr>"

definition move_assign :: "nat \<Rightarrow> nat \<Rightarrow> sockets \<Rightarrow> sockets" where
  "move_assign i j s =
     (if i = j then s
      else let s1 = close_connection i s; other = s_objs s1 ! j in
        s1\<lparr>s_objs := (s_objs s1)[i := other, j := other\<lparr>c_fd := None\<rparr>]\<rparr>)"

definition new_connection :: "nat \<Rightarrow> socket_hello \<Rightarrow> sockets \<Rightarrow> sockets" where
  "new_connection fd hello s = s\<lparr>s_objs := s_objs s @ [\<lparr>c_fd = Some fd, c_hello = hello\<rparr>]\<rparr>"

section \<open>Endpoints\<close>

record socket_sys =
  sys_socket :: "string + nat"
  sys_reuse :: "string option"
  sys_bind :: "string option"
  sys_listen :: "string option"
  sys_getsockname :: "string + byte list"
  sys_connect :: "string option"

definition sys_check :: "string \<Rightarrow> string option \<Rightarrow> ('s, unit) comp" where
  "sys_check op status = (case status of None \<Rightarrow> ret () | Some e \<Rightarrow> raise (socket_error op e))"

definition create_from_environment ::
    "string option \<Rightarrow> string + ifaddr list \<Rightarrow> socket_sys \<Rightarrow> (nat multiset, nat \<times> 32 word \<times> 16 word) comp" where
  "create_from_environment ifname interfaces sys =
     andthen (lift (select_interface_address ifname interfaces)) (\<lambda>ip.
       (case sys_socket sys of
          Inl e \<Rightarrow> raise (socket_error ''socket'' e)
        | Inr fd \<Rightarrow>
            andalso (change (add_mset fd))
              (on_exception
                (andalso (sys_check ''setsockopt(SO_REUSEADDR)'' (sys_reuse sys))
                (andalso (sys_check ''bind'' (sys_bind sys))
                (andalso (sys_check ''listen'' (sys_listen sys))
                  (case sys_getsockname sys of
                     Inl e \<Rightarrow> raise (socket_error ''getsockname'' e)
                   | Inr port \<Rightarrow> ret (fd, ip, ntohs port)))))
                (\<lambda>s. s - {#fd#}))))"

definition close_endpoint :: "nat option \<Rightarrow> nat multiset \<Rightarrow> nat option \<times> nat multiset" where
  "close_endpoint listener s = (None, s - fd_held listener)"

text \<open>Connecting: the HELLO is written by \<open>connect_hello\<close>; while that call has not returned, neither has \<open>connect\<close>.\<close>

definition socket_connect :: "socket_sys \<Rightarrow> io list \<Rightarrow> socket_hello \<Rightarrow> byte list \<Rightarrow> nat multiset \<Rightarrow>
    socket_connection outcome \<times> byte list \<times> nat multiset" where
  "socket_connect sys script hello wire s =
     (case sys_socket sys of
        Inl e \<Rightarrow> (Thrown (socket_error ''socket'' e), wire, s)
      | Inr fd \<Rightarrow>
          (case sys_connect sys of
             Some e \<Rightarrow> (Thrown (socket_error ''connect'' e), wire, s)
           | None \<Rightarrow>
               (case connect_hello script hello wire of
                  (Done _, _, wire') \<Rightarrow> (Done \<lparr>c_fd = Some fd, c_hello = hello\<rparr>, wire', add_mset fd s)
                | (Waiting, _, wire') \<Rightarrow> (Waiting, wire', add_mset fd s)
                | (Thrown e, _, wire') \<Rightarrow> (Thrown e, wire', s))))"

text \<open>An answer of \<open>accept\<close> is a descriptor or an error with a flag for \<open>EINTR\<close>.\<close>

fun socket_accept :: "((string \<times> bool) + nat) list \<Rightarrow> nat multiset \<Rightarrow> socket_connection outcome \<times> nat multiset" where
  "socket_accept [] s = (Waiting, s)"
| "socket_accept (Inr fd # as) s =
     (Done \<lparr>c_fd = Some fd, c_hello = \<lparr>source_global_rank = - 1, destination_global_rank = - 1, channel = - 1\<rparr>\<rparr>, add_mset fd s)"
| "socket_accept (Inl (e, eintr) # as) s = (if eintr then socket_accept as s else (Thrown (socket_error ''accept'' e), s))"

section \<open>The owner of descriptors\<close>

type_synonym fd_owner = "socket_connection list"

definition SocketFdOwner :: "nat list \<Rightarrow> fd_owner" where
  "SocketFdOwner fds = map (\<lambda>fd. \<lparr>c_fd = Some fd, c_hello = \<lparr>source_global_rank = - 1, destination_global_rank = - 1, channel = - 1\<rparr>\<rparr>) fds"

definition owner_fds :: "fd_owner \<Rightarrow> nat multiset" where
  "owner_fds owner = sum_list (map (\<lambda>c. fd_held (c_fd c)) owner)"

text \<open>Clearing the vector destroys its elements.\<close>

definition close_all :: "fd_owner \<Rightarrow> nat multiset \<Rightarrow> fd_owner \<times> nat multiset" where
  "close_all owner s = ([], fold (\<lambda>c t. t - fd_held (c_fd c)) owner s)"

definition owner_move :: "fd_owner \<Rightarrow> fd_owner \<times> fd_owner" where
  "owner_move other = (other, [])"

definition owner_assign :: "fd_owner \<Rightarrow> fd_owner \<Rightarrow> nat multiset \<Rightarrow> fd_owner \<times> fd_owner \<times> nat multiset" where
  "owner_assign self other s = (other, [], snd (close_all self s))"

definition release_connections :: "fd_owner \<Rightarrow> socket_connection list \<times> fd_owner" where
  "release_connections owner = (owner, [])"

section \<open>Every descriptor has one owner\<close>

definition objs_fds :: "sockets \<Rightarrow> nat multiset" where
  "objs_fds s = sum_list (map (\<lambda>c. fd_held (c_fd c)) (s_objs s))"

definition owned_once :: "nat multiset \<Rightarrow> sockets \<Rightarrow> bool" where
  "owned_once others s \<longleftrightarrow> s_open s = others + objs_fds s"

text \<open>What a program does with connection objects; a new one gets a descriptor that the system has just opened.\<close>

inductive object_step :: "sockets \<Rightarrow> sockets \<Rightarrow> bool" where
  step_new: "object_step s (new_connection fd hello (s\<lparr>s_open := add_mset fd (s_open s)\<rparr>))"
| step_close: "i < length (s_objs s) \<Longrightarrow> object_step s (close_connection i s)"
| step_move: "j < length (s_objs s) \<Longrightarrow> object_step s (move_construct j s)"
| step_assign: "i < length (s_objs s) \<Longrightarrow> j < length (s_objs s) \<Longrightarrow> object_step s (move_assign i j s)"

lemma fd_held_simps [simp]: "fd_held None = {#}" "fd_held (Some f) = {#f#}"
  by (simp_all add: fd_held_def)

lemma fds_update:
  "i < length xs \<Longrightarrow> sum_list (map f (xs[i := x])) + f (xs ! i) = sum_list (map f xs) + (f x :: nat multiset)"
proof (induction xs arbitrary: i)
  case (Cons y ys)
  then show ?case by (cases i) (auto simp: ac_simps)
qed simp

lemma objs_fds_update:
  assumes "i < length (s_objs s)"
  shows "objs_fds (s\<lparr>s_objs := (s_objs s)[i := c]\<rparr>) + fd_held (c_fd (s_objs s ! i)) = objs_fds s + fd_held (c_fd c)"
  using fds_update[OF assms, of "\<lambda>c. fd_held (c_fd c)" c] by (simp add: objs_fds_def)

lemma close_connection_owned:
  assumes "i < length (s_objs s)" "owned_once others s"
  shows "owned_once others (close_connection i s)"
proof (cases "c_fd (s_objs s ! i)")
  case None
  then show ?thesis using assms(2) by (simp add: close_connection_def)
next
  case (Some f)
  have "objs_fds (s\<lparr>s_objs := (s_objs s)[i := (s_objs s ! i)\<lparr>c_fd := None\<rparr>]\<rparr>) + {#f#} = objs_fds s"
    using objs_fds_update[OF assms(1), of "(s_objs s ! i)\<lparr>c_fd := None\<rparr>"] Some by simp
  then show ?thesis using assms(2) Some by (simp add: close_connection_def owned_once_def objs_fds_def) (metis add_mset_remove_trivial union_mset_add_mset_right)
qed

lemma close_connection_objs:
  "length (s_objs (close_connection i s)) = length (s_objs s)"
  "i < length (s_objs s) \<Longrightarrow> c_fd (s_objs (close_connection i s) ! i) = None"
  by (auto simp: close_connection_def split: option.splits)

lemma move_assign_owned:
  assumes "i < length (s_objs s)" "j < length (s_objs s)" "owned_once others s"
  shows "owned_once others (move_assign i j s)"
proof (cases "i = j")
  case False
  let ?s = "close_connection i s"
  let ?other = "s_objs ?s ! j"
  let ?t = "?s\<lparr>s_objs := (s_objs ?s)[i := ?other]\<rparr>"
  have "objs_fds ?t = objs_fds ?s + fd_held (c_fd ?other)"
    using objs_fds_update[of i ?s ?other] assms(1) by (simp add: close_connection_objs)
  moreover have "objs_fds (?t\<lparr>s_objs := (s_objs ?t)[j := ?other\<lparr>c_fd := None\<rparr>]\<rparr>) + fd_held (c_fd ?other) = objs_fds ?t"
    using objs_fds_update[of j ?t "?other\<lparr>c_fd := None\<rparr>"] assms(2) False by (simp add: close_connection_objs)
  ultimately show ?thesis using close_connection_owned[OF assms(1,3)] False
    by (simp add: move_assign_def owned_once_def Let_def objs_fds_def)
qed (use assms in \<open>simp add: move_assign_def\<close>)

lemma move_construct_owned:
  assumes "j < length (s_objs s)" "owned_once others s"
  shows "owned_once others (move_construct j s)"
  using objs_fds_update[OF assms(1), of "(s_objs s ! j)\<lparr>c_fd := None\<rparr>"] assms(2)
  by (simp add: move_construct_def owned_once_def objs_fds_def)

lemma object_step_owned: "object_step s s' \<Longrightarrow> owned_once others s \<Longrightarrow> owned_once others s'"
proof (induction rule: object_step.induct)
  case (step_new s fd hello)
  then show ?case by (simp add: new_connection_def owned_once_def objs_fds_def)
qed (auto intro: close_connection_owned move_construct_owned move_assign_owned)

lemma close_each_owned:
  assumes "n \<le> length (s_objs s)" "owned_once others s" "t = fold close_connection [0..<n] s"
  shows "owned_once others t \<and> length (s_objs t) = length (s_objs s) \<and> (\<forall>i<n. c_fd (s_objs t ! i) = None)"
  using assms
proof (induction n arbitrary: t)
  case (Suc n)
  let ?u = "fold close_connection [0..<n] s"
  have u: "owned_once others ?u" "length (s_objs ?u) = length (s_objs s)" "\<forall>i<n. c_fd (s_objs ?u ! i) = None" using Suc.IH[OF _ Suc.prems(2)] Suc.prems(1) by auto
  have t: "t = close_connection n ?u" using Suc.prems(3) by simp
  have "c_fd (s_objs t ! i) = None" if "i < Suc n" for i
    using u that Suc.prems(1) by (cases "i = n") (auto simp: t close_connection_def split: option.splits)
  then show ?case using close_connection_owned[of n ?u others] u Suc.prems(1) by (simp add: t close_connection_objs)
qed simp

text \<open>
  Property: no descriptor is lost or closed twice. However connections are made, closed, moved and assigned, closing the objects that
  are left closes exactly the descriptors that were opened for them; those of others stay open.
\<close>

theorem descriptors_owned_once:
  assumes "object_step\<^sup>*\<^sup>* \<lparr>s_open = others, s_objs = []\<rparr> s"
  shows "s_open (fold close_connection [0..<length (s_objs s)] s) = others"
proof -
  have "owned_once others s"
    using assms by (induction rule: rtranclp_induct) (auto simp: owned_once_def objs_fds_def intro: object_step_owned[unfolded owned_once_def objs_fds_def])
  note c = close_each_owned[OF order_refl this refl]
  let ?t = "fold close_connection [0..<length (s_objs s)] s"
  have "objs_fds ?t = {#}"
  proof -
    have "\<forall>c\<in>set (s_objs ?t). c_fd c = None" using c by (metis in_set_conv_nth)
    moreover have "\<forall>c\<in>set xs. c_fd c = None \<Longrightarrow> sum_list (map (\<lambda>c. fd_held (c_fd c)) xs) = {#}" for xs by (induction xs) auto
    ultimately show ?thesis unfolding objs_fds_def by blast
  qed
  then show ?thesis using c by (simp add: owned_once_def)
qed

lemma moved_twice:
  "object_step\<^sup>*\<^sup>* \<lparr>s_open = {#9#}, s_objs = []\<rparr>
     (move_construct 0 (new_connection 4 hello \<lparr>s_open = {#4, 9#}, s_objs = []\<rparr>))"
proof -
  have "object_step \<lparr>s_open = {#9#}, s_objs = []\<rparr> (new_connection 4 hello \<lparr>s_open = {#4, 9#}, s_objs = []\<rparr>)"
    using step_new[of "\<lparr>s_open = {#9#}, s_objs = []\<rparr>" 4 hello] by simp
  moreover have "object_step (new_connection 4 hello \<lparr>s_open = {#4, 9#}, s_objs = []\<rparr>)
      (move_construct 0 (new_connection 4 hello \<lparr>s_open = {#4, 9#}, s_objs = []\<rparr>))"
    by (rule step_move) (simp add: new_connection_def)
  ultimately show ?thesis by (meson converse_rtranclp_into_rtranclp r_into_rtranclp)
qed

definition no_hello :: socket_hello where
  "no_hello = \<lparr>source_global_rank = - 1, destination_global_rank = - 1, channel = - 1\<rparr>"

theorem descriptors_owned_once_witness:
  "s_open (fold close_connection [0..<2] (move_construct 0 (new_connection 4 no_hello \<lparr>s_open = {#4, 9#}, s_objs = []\<rparr>))) = {#9#}"
  using descriptors_owned_once[OF moved_twice[of no_hello]] by (simp add: move_construct_def new_connection_def numeral_2_eq_2)

text \<open>The calls that open a descriptor: one that throws has closed it again.\<close>

lemma endpoint_failure_closes:
  "create_from_environment ifname interfaces sys s = (r, s') \<Longrightarrow>
   (case r of Inl e \<Rightarrow> s' = s | Inr (fd, _) \<Rightarrow> s' = add_mset fd s \<and> sys_socket sys = Inr fd)"
  by (auto simp: create_from_environment_def andthen_def andalso_def lift_def change_def on_exception_def sys_check_def raise_def ret_def
      split: sum.splits option.splits)

lemma connect_failure_closes:
  "socket_connect sys script hello wire s = (r, wire', s') \<Longrightarrow>
   (case r of Thrown e \<Rightarrow> s' = s | Done c \<Rightarrow> (\<exists>fd. c_fd c = Some fd \<and> s' = add_mset fd s) | Waiting \<Rightarrow> \<exists>fd. s' = add_mset fd s)"
  by (auto simp: socket_connect_def split: sum.splits option.splits outcome.splits prod.splits)

lemma owner_closes_its_own: "snd (close_all owner (others + owner_fds owner)) = others"
proof (induction owner arbitrary: others)
  case (Cons c owner)
  have "others + owner_fds (c # owner) - fd_held (c_fd c) = others + owner_fds owner" by (simp add: owner_fds_def)
  then show ?case using Cons by (simp add: close_all_def)
qed (simp add: close_all_def owner_fds_def)

end
