(* ===== verification/Profiling.thy ===== *)
theory Profiling
  imports Comp_Logic "HOL-Library.Word"
begin

text \<open>
  The statistics of the profiling builds: \<open>transport/rdma/rdma_proxy_timeline.cc\<close>, \<open>collective/all_reduce/ring_turnaround.h\<close> and
  \<open>collective/all_reduce/bench_profiling.h\<close>. Counters are 64-bit words; times are the differences of clock values that the
  code computes.
\<close>

section \<open>Stages and events\<close>

datatype timeline_stage = SendTailWait | SendPost | SendCqWait | RecvCqWait | RecvPublish | CtsPost | CtsCq | Stage_kCount

datatype timeline_event =
  SendReadyToPost | SendInterPost | SendPostToCq | RecvCqToPublish | RecvInterPublish | CtsReadyToPost | CtsInterPost |
  SendTailArmToPost | SendCtsArmToPost | SendTailToCtsReady | SendPostToNextTail | Event_kCount

definition stage_index :: "timeline_stage \<Rightarrow> nat" where
  "stage_index s = (case s of SendTailWait \<Rightarrow> 0 | SendPost \<Rightarrow> 1 | SendCqWait \<Rightarrow> 2 | RecvCqWait \<Rightarrow> 3 | RecvPublish \<Rightarrow> 4 | CtsPost \<Rightarrow> 5
     | CtsCq \<Rightarrow> 6 | Stage_kCount \<Rightarrow> 7)"

definition event_index :: "timeline_event \<Rightarrow> nat" where
  "event_index e = (case e of SendReadyToPost \<Rightarrow> 0 | SendInterPost \<Rightarrow> 1 | SendPostToCq \<Rightarrow> 2 | RecvCqToPublish \<Rightarrow> 3 | RecvInterPublish \<Rightarrow> 4
     | CtsReadyToPost \<Rightarrow> 5 | CtsInterPost \<Rightarrow> 6 | SendTailArmToPost \<Rightarrow> 7 | SendCtsArmToPost \<Rightarrow> 8 | SendTailToCtsReady \<Rightarrow> 9
     | SendPostToNextTail \<Rightarrow> 10 | Event_kCount \<Rightarrow> 11)"

definition kStageNames :: "string list" where
  "kStageNames = [''send_tail_wait'', ''send_post'', ''send_cq_wait'', ''recv_cq_wait'', ''recv_publish'', ''cts_post'', ''cts_cq'']"

definition kEventNames :: "string list" where
  "kEventNames = [''send_ready_to_post'', ''send_inter_post'', ''send_post_to_cq'', ''recv_cq_to_publish'', ''recv_inter_publish'',
     ''cts_ready_to_post'', ''cts_inter_post'', ''send_tail_arm_to_post'', ''send_cts_arm_to_post'', ''send_tail_to_cts_ready'',
     ''send_post_to_next_tail'']"

definition rdma_proxy_timeline_stage_name :: "timeline_stage \<Rightarrow> string" where
  "rdma_proxy_timeline_stage_name s = (if stage_index s \<ge> 7 then ''unknown'' else kStageNames ! stage_index s)"

definition rdma_proxy_timeline_event_name :: "timeline_event \<Rightarrow> string" where
  "rdma_proxy_timeline_event_name e = (if event_index e \<ge> 11 then ''unknown'' else kEventNames ! event_index e)"

section \<open>Histograms\<close>

definition kHistEdges :: "64 word list" where
  "kHistEdges = [250, 500, 1000, 2000, 5000, 8000, 10000, 12000, 15000, 20000, 30000]"

fun first_above :: "64 word \<Rightarrow> nat \<Rightarrow> 64 word list \<Rightarrow> nat" where
  "first_above ns i [] = i"
| "first_above ns i (e # es) = (if ns < e then i else first_above ns (i + 1) es)"

definition hist_bin :: "64 word \<Rightarrow> nat" where
  "hist_bin ns = first_above ns 0 kHistEdges"

record event_stats =
  es_count :: "64 word"
  es_sum :: "64 word"
  es_min :: "64 word"
  es_max :: "64 word"
  es_hist :: "64 word list"

definition empty_stats :: event_stats where
  "empty_stats = \<lparr>es_count = 0, es_sum = 0, es_min = - 1, es_max = 0, es_hist = replicate 12 0\<rparr>"

definition record_stats :: "64 word \<Rightarrow> event_stats \<Rightarrow> event_stats" where
  "record_stats ns s =
     s\<lparr>es_count := es_count s + 1, es_sum := es_sum s + ns, es_min := (if ns < es_min s then ns else es_min s),
       es_max := (if es_max s < ns then ns else es_max s),
       es_hist := (es_hist s)[hist_bin ns := es_hist s ! hist_bin ns + 1]\<rparr>"

definition depth_bin :: "64 word \<Rightarrow> nat" where
  "depth_bin depth = (if 4 \<le> depth then 4 else unat depth)"

definition record_depth :: "64 word \<Rightarrow> 64 word list \<Rightarrow> 64 word list" where
  "record_depth depth h = h[depth_bin depth := h ! depth_bin depth + 1]"

section \<open>Counters\<close>

record timeline_counters =
  tc_total :: "64 word list"
  tc_count :: "64 word list"
  tc_events :: "event_stats list"
  inflight_at_post :: "64 word list"
  free_slots_at_post :: "64 word list"
  inflight_at_cqe :: "64 word list"

definition fresh_counters :: timeline_counters where
  "fresh_counters = \<lparr>tc_total = replicate 7 0, tc_count = replicate 7 0, tc_events = replicate 11 empty_stats,
     inflight_at_post = replicate 5 0, free_slots_at_post = replicate 5 0, inflight_at_cqe = replicate 5 0\<rparr>"

definition counters_add :: "timeline_stage \<Rightarrow> 64 word \<Rightarrow> timeline_counters \<Rightarrow> timeline_counters" where
  "counters_add stage ns c =
     (let i = stage_index stage in
      if i \<ge> 7 then c else c\<lparr>tc_total := (tc_total c)[i := tc_total c ! i + ns], tc_count := (tc_count c)[i := tc_count c ! i + 1]\<rparr>)"

definition record_event :: "timeline_event \<Rightarrow> 64 word \<Rightarrow> timeline_counters \<Rightarrow> timeline_counters" where
  "record_event event ns c =
     (let i = event_index event in if i \<ge> 11 then c else c\<lparr>tc_events := (tc_events c)[i := record_stats ns (tc_events c ! i)]\<rparr>)"

text \<open>The scope object: \<open>elapsed\<close> is the difference of the two clock values in nanoseconds.\<close>

definition timeline_scope :: "bool \<Rightarrow> timeline_stage \<Rightarrow> int \<Rightarrow> timeline_counters option \<Rightarrow> timeline_counters option" where
  "timeline_scope enabled stage elapsed counters =
     (case counters of
        None \<Rightarrow> None
      | Some c \<Rightarrow> Some (if enabled then counters_add stage (if 0 < elapsed then of_int elapsed else 0) c else c))"

definition rdma_proxy_timeline_env_enabled :: "string option \<Rightarrow> bool" where
  "rdma_proxy_timeline_env_enabled value = (value = Some ''1'')"

section \<open>Reports\<close>

definition newline :: string where "newline = [char_of (10 :: nat)]"
definition word_text :: "64 word \<Rightarrow> string" where "word_text w = string_of_nat (unat w)"
definition text_or_empty :: "string option \<Rightarrow> string" where "text_or_empty t = (case t of None \<Rightarrow> [] | Some x \<Rightarrow> x)"
definition average :: "64 word \<Rightarrow> 64 word \<Rightarrow> 64 word" where "average sum_ns n = (if n = 0 then 0 else sum_ns div n)"

definition words_text :: "64 word list \<Rightarrow> string" where
  "words_text ws = concat (map (\<lambda>w. '' '' @ word_text w) ws)"

definition format_timeline :: "string option \<Rightarrow> int \<Rightarrow> int \<Rightarrow> int \<Rightarrow> string option \<Rightarrow> timeline_counters \<Rightarrow> string" where
  "format_timeline role_label source_rank destination_rank channel plane c =
     ''# rdma_proxy_timeline plane='' @ text_or_empty plane @ newline @
     ''# src='' @ string_of_int source_rank @ '' dst='' @ string_of_int destination_rank @ '' ch='' @ string_of_int channel @
     '' role='' @ text_or_empty role_label @ newline @
     ''# stage total_ns count avg_ns'' @ newline @
     concat (map (\<lambda>i. kStageNames ! i @ words_text [tc_total c ! i, tc_count c ! i, average (tc_total c ! i) (tc_count c ! i)] @ newline) [0..<7])"

definition depth_line :: "string \<Rightarrow> 64 word list \<Rightarrow> string" where
  "depth_line name h = ''depth_hist '' @ name @ words_text (take 5 h) @ newline"

definition format_v2 :: "string option \<Rightarrow> int \<Rightarrow> int \<Rightarrow> int \<Rightarrow> string option \<Rightarrow> timeline_counters \<Rightarrow> string" where
  "format_v2 role_label source_rank destination_rank channel plane c =
     ''# rdma_proxy_timeline_v2 plane='' @ text_or_empty plane @ '' role='' @ text_or_empty role_label @ '' src='' @
     string_of_int source_rank @ '' dst='' @ string_of_int destination_rank @ '' ch='' @ string_of_int channel @ newline @
     ''# metric count sum_ns avg_ns min_ns max_ns'' @ newline @
     concat (map (\<lambda>i. let s = tc_events c ! i in
       kEventNames ! i @ words_text [es_count s, es_sum s, average (es_sum s) (es_count s), if es_count s = 0 then 0 else es_min s, es_max s] @
       newline) [0..<11]) @
     ''# hist metric bin0 bin1 bin2 bin3 bin4 bin5 bin6 bin7 bin8 bin9 bin10 bin11'' @ newline @
     concat (map (\<lambda>i. ''hist '' @ kEventNames ! i @ words_text (take 12 (es_hist (tc_events c ! i))) @ newline) [0..<11]) @
     ''# depth_hist name c0 c1 c2 c3 c4'' @ newline @
     depth_line ''inflight_at_post'' (inflight_at_post c) @ depth_line ''free_slots_at_post'' (free_slots_at_post c) @
     depth_line ''inflight_at_cqe'' (inflight_at_cqe c)"

record ring_turnaround_stats =
  wait_wall_ns :: "64 word"
  wait_recv_ns :: "64 word"
  wait_send_ns :: "64 word"
  compute_ns :: "64 word"
  post_ns :: "64 word"
  ta_count :: "64 word"

definition format_ring_turnaround :: "ring_turnaround_stats \<Rightarrow> int \<Rightarrow> int \<Rightarrow> string" where
  "format_ring_turnaround stats local_rank channel =
     (let n = ta_count stats; line = (\<lambda>name sum_ns. name @ words_text [sum_ns, n, average sum_ns n] @ newline) in
      ''# ring_turnaround rank='' @ string_of_int local_rank @ '' ch='' @ string_of_int channel @ newline @
      ''# segment total_ns count avg_ns'' @ newline @
      line ''wait_wall'' (wait_wall_ns stats) @ line ''wait_recv'' (wait_recv_ns stats) @ line ''wait_send'' (wait_send_ns stats) @
      line ''compute'' (compute_ns stats) @ line ''post'' (post_ns stats))"

definition all_reduce_size_range_name :: "64 word \<Rightarrow> string" where
  "all_reduce_size_range_name bytes = ''all_reduce size='' @ word_text bytes @ ''B''"

definition all_reduce_iteration_range_name :: "64 word \<Rightarrow> int \<Rightarrow> string" where
  "all_reduce_iteration_range_name bytes iteration = all_reduce_size_range_name bytes @ '' iteration='' @ string_of_int iteration"

text \<open>The profiler session; the state is whether the profiler runs and the flag of the object.\<close>

record profiler =
  pr_running :: bool
  pr_started :: bool

definition profiler_start :: "string option \<Rightarrow> (profiler, unit) comp" where
  "profiler_start status =
     (case status of
        Some e \<Rightarrow> raise (Runtime_error (''CUDA error: '' @ e))
      | None \<Rightarrow> change (\<lambda>s. s\<lparr>pr_running := True, pr_started := True\<rparr>))"

definition profiler_stop :: "string option \<Rightarrow> (profiler, unit) comp" where
  "profiler_stop status =
     with_state (\<lambda>s.
       if \<not> pr_started s then ret ()
       else andalso (change (\<lambda>s. s\<lparr>pr_running := (pr_running s \<and> status \<noteq> None), pr_started := False\<rparr>))
         (case status of Some e \<Rightarrow> raise (Runtime_error (''CUDA error: '' @ e)) | None \<Rightarrow> ret ()))"

definition profiler_destroy :: "profiler \<Rightarrow> profiler" where
  "profiler_destroy s = (if pr_started s then s\<lparr>pr_running := False\<rparr> else s)"

section \<open>What the statistics say\<close>

lemma first_above_spec:
  "sorted es \<Longrightarrow> first_above ns i es = i + length (filter (\<lambda>e. e \<le> ns) es)"
proof (induction es arbitrary: i)
  case (Cons e es)
  show ?case
  proof (cases "ns < e")
    case True
    then have "filter (\<lambda>e. e \<le> ns) es = []" using Cons.prems by (auto simp: filter_empty_conv)
    then show ?thesis using True by simp
  next
    case False
    then show ?thesis using Cons by simp
  qed
qed simp

lemma hist_bin_edges: "hist_bin ns = length (filter (\<lambda>e. e \<le> ns) kHistEdges)"
  unfolding hist_bin_def by (subst first_above_spec) (simp_all add: kHistEdges_def)

lemma hist_bin_less: "hist_bin ns < 12"
proof -
  have "length (filter (\<lambda>e. e \<le> ns) kHistEdges) \<le> length kHistEdges" by (rule length_filter_le)
  then show ?thesis by (simp add: hist_bin_edges kHistEdges_def)
qed

definition bin_counts :: "nat \<Rightarrow> ('x \<Rightarrow> nat) \<Rightarrow> 'x list \<Rightarrow> 64 word list" where
  "bin_counts n f xs = map (\<lambda>b. of_nat (length (filter (\<lambda>x. f x = b) xs))) [0..<n]"

lemma bin_counts_snoc: "f x < n \<Longrightarrow> (bin_counts n f xs)[f x := bin_counts n f xs ! f x + 1] = bin_counts n f (xs @ [x])"
  by (rule nth_equalityI) (auto simp: bin_counts_def nth_list_update)

lemma bin_counts_total: "(\<And>x. f x < n) \<Longrightarrow> sum_list (bin_counts n f xs) = of_nat (length xs)"
proof (induction xs)
  case Nil
  then show ?case by (simp add: bin_counts_def sum_list_triv)
next
  case (Cons x xs)
  have "bin_counts n f (x # xs) = (bin_counts n f xs)[f x := bin_counts n f xs ! f x + 1]"
    using Cons.prems[of x] by (intro nth_equalityI) (auto simp: bin_counts_def nth_list_update)
  moreover have "sum_list (ys[i := ys ! i + 1]) = sum_list ys + (1 :: 64 word)" if "i < length ys" for i ys
    using that by (induction ys arbitrary: i) (auto simp: algebra_simps split: nat.splits)
  moreover have "f x < length (bin_counts n f xs)" using Cons.prems[of x] by (simp add: bin_counts_def)
  ultimately have "sum_list (bin_counts n f (x # xs)) = sum_list (bin_counts n f xs) + 1" by metis
  then show ?case using Cons by simp
qed

lemma record_stats_fields:
  "es_count (record_stats x s) = es_count s + 1" "es_sum (record_stats x s) = es_sum s + x" "es_min (record_stats x s) = min x (es_min s)"
  "es_max (record_stats x s) = max x (es_max s)" "es_hist (record_stats x s) = (es_hist s)[hist_bin x := es_hist s ! hist_bin x + 1]"
  by (auto simp: record_stats_def min_def max_def)

definition stats_of :: "64 word list \<Rightarrow> event_stats" where
  "stats_of xs = \<lparr>es_count = of_nat (length xs), es_sum = sum_list xs, es_min = Min (insert (- 1) (set xs)), es_max = Max (insert 0 (set xs)),
     es_hist = bin_counts 12 hist_bin xs\<rparr>"

text \<open>
  Property: the running statistics of an event are the statistics of the recorded times: their number, sum, least and greatest value and, per
  bin, how many of them lie between its edges. The sums wrap at 64 bits.
\<close>

theorem recorded_stats_exact: "fold record_stats xs empty_stats = stats_of xs"
proof (induction xs rule: rev_induct)
  case Nil
  then show ?case by (simp add: empty_stats_def stats_of_def bin_counts_def map_replicate_const)
next
  case (snoc x xs)
  have m: "Min (insert (- 1) (insert x (set xs))) = min x (Min (insert (- 1) (set xs)))"
    by (subst insert_commute) (rule Min_insert; simp)
  have M: "Max (insert 0 (insert x (set xs))) = max x (Max (insert 0 (set xs)))"
    by (subst insert_commute) (rule Max_insert; simp)
  have "es_min (stats_of (xs @ [x])) = min x (es_min (stats_of xs))" "es_max (stats_of (xs @ [x])) = max x (es_max (stats_of xs))"
    using m M by (simp_all add: stats_of_def del: Min_insert Max_insert)
  moreover have "es_hist (stats_of (xs @ [x])) = (es_hist (stats_of xs))[hist_bin x := es_hist (stats_of xs) ! hist_bin x + 1]"
    "es_count (stats_of (xs @ [x])) = es_count (stats_of xs) + 1" "es_sum (stats_of (xs @ [x])) = es_sum (stats_of xs) + x"
    by (simp_all add: stats_of_def bin_counts_snoc hist_bin_less)
  ultimately have "record_stats x (stats_of xs) = stats_of (xs @ [x])" by (intro event_stats.equality) (simp_all add: record_stats_fields)
  then show ?case using snoc by simp
qed

lemma depth_hist_exact: "fold record_depth xs (replicate 5 0) = bin_counts 5 depth_bin xs"
proof (induction xs rule: rev_induct)
  case Nil
  then show ?case by (simp add: bin_counts_def map_replicate_const)
next
  case (snoc x xs)
  have "depth_bin x < 5" by (simp add: depth_bin_def word_le_nat_alt)
  then show ?case using snoc by (simp add: record_depth_def bin_counts_snoc)
qed

lemma stats_consistent:
  "sum_list (es_hist (stats_of xs)) = es_count (stats_of xs)" "xs \<noteq> [] \<Longrightarrow> es_min (stats_of xs) \<le> es_max (stats_of xs)"
proof -
  show "sum_list (es_hist (stats_of xs)) = es_count (stats_of xs)"
    using bin_counts_total[of hist_bin 12 xs, OF hist_bin_less] by (simp add: stats_of_def)
  show "es_min (stats_of xs) \<le> es_max (stats_of xs)" if ne: "xs \<noteq> []"
  proof -
    obtain x where "x \<in> set xs" using ne by (cases xs) auto
    then have "Min (insert (- 1) (set xs)) \<le> x" "x \<le> Max (insert 0 (set xs))" by (auto intro: Min_le Max_ge)
    then have "Min (insert (- 1) (set xs)) \<le> Max (insert 0 (set xs))" by (rule order_trans)
    then show ?thesis unfolding stats_of_def event_stats.simps .
  qed
qed

end
