(* ===== verification/Spec2Isabelle.thy ===== *)
theory Spec2Isabelle
  imports All_Gather Ring_Abort Mpi_C_Api Communicator_Safety Rdma_Ready Rdma_Cts Mpi_Shm Mpi_P2p P2p_Buffers Socket_Descriptors Profiling
begin

text \<open>
  Verification of nano-nccl: ring collectives (AllReduce, ReduceScatter, AllGather) over several GPUs, in one
  process or in several MPI processes, with the transports shared memory, P2P, socket and RDMA.

  \<^bold>\<open>The program.\<close> A caller creates a communicator (\<open>c_api.cc\<close>, \<open>mpi_c_api.cc\<close>, \<open>mpi_communicator.cc\<close>). The creation
  decides which transport each edge of the ring uses (\<open>topology.cc\<close>, \<open>p2p_topology.cu\<close>), connects the processes, sets up the
  FIFOs of every edge and channel and starts proxies for the network edges. A collective call checks its arguments
  and launches one kernel per local rank (\<open>communicator.cu\<close>). The kernels (\<open>ring_simple_kernel.cuh\<close>) cut the buffer into
  parts, chunks and slices, and pass slices around the ring through the FIFOs, with one head and one tail counter per
  connection. On a network edge each kernel sees only the FIFO of its own process, and two proxies move the slices:
  over a stream socket (\<open>socket_proxy.cc\<close>) or over a queue pair (\<open>rdma_proxy.cc\<close>).

  \<^bold>\<open>Conventions.\<close> The macros \<open>kRanks\<close> and \<open>kChannels\<close> are arguments \<open>K\<close> and \<open>C\<close>. An exception is a value of \<open>exn\<close>; an
  operation that only may throw returns \<open>'a result\<close>, an operation of an object that may throw is a \<open>('s, 'a) comp\<close>
  (\<open>Comp_Logic\<close>), which returns the state at the throw, too. Machine integers are words where they can wrap (addresses, byte
  counts, sizes on the wire, flags) and numbers elsewhere: counters of 64 bits that grow by a constant per slice are
  natural numbers. CUDA, MPI, verbs, sockets, the environment and the arithmetic of the element types are arguments.
  Where a property relies on how they behave, this is a hypothesis, and a witness shows that it can hold.

  \<^bold>\<open>Theories.\<close>
  \<^item> \<open>Nano_Prelude\<close>, \<open>Comp_Logic\<close>: exceptions, strided loops, generic lemmas; the combinators for throwing operations and
    a Hoare logic with one postcondition for the return and one for the exception.
  \<^item> \<open>Types\<close> (\<open>types.h\<close>, \<open>traits.h\<close>), \<open>Geometry\<close> (\<open>ring_simple_geometry.h\<close>, \<open>transport/simple/\<close>): names and parsers, the cutting
    of buffers, the layout of connection regions. The parts of all channels tile the buffer.
  \<^item> \<open>Worker\<close> (\<open>ring_simple_kernel.cuh\<close>, data movers): the vector, packed and scalar loops of one thread; a block of threads in any order
    has the elementwise effect.
  \<^item> \<open>Ring_Kernel\<close> (the kernels), \<open>Ring_Net\<close>, \<open>Ring_System\<close>, \<open>Ring_Collective\<close>, \<open>Ring_Parts\<close>: kernels as programs of micro operations and
    their asynchronous step relation over all ranks and channels; the handshake on an edge; the locale
    \<open>ring_collective\<close> with what a staged collective has to provide, interpreted in \<open>All_Reduce\<close>, \<open>Reduce_Scatter\<close>
    and \<open>All_Gather\<close>. Every schedule ends, none gets stuck, and all end with the specified buffers, bit for bit the same on
    every rank for an AllReduce.
  \<^item> \<open>Block_Threads\<close>, \<open>Thread_Progress\<close>, \<open>Ring_Abort\<close> (the inside of the three waits): the two polling threads of a block, the status word they
    share and the abort flag, one access at a time. With the flag down every run of the threads is matched by a run of the block turns of
    \<open>Ring_Kernel\<close>, and every fair run ends, so that an AllReduce is correct down to these threads. Once the flag is up, a block
    passes at most the wait it is in and ends by itself; in the double wait one thread can overwrite the abort that the other one
    has reported.
  \<^item> \<open>C_Api\<close>, \<open>Mpi_C_Api\<close>: the entry points, their checks in order and their status; the leases that decide when MPI is finalized.
  \<^item> \<open>Topology\<close>, \<open>Bootstrap\<close>: resolution of the transports; consensus checks, the connection plan and the accept loop over
    all processes (\<open>mpi_communicator.cc\<close>): every process gets exactly its connections.
  \<^item> \<open>Communicator\<close>, \<open>Communicator_Safety\<close>: the object with a log of its CUDA calls. FIFOs are not replaced under a running kernel, launches
    are tracked or block later ones, a collective waits for the previous one, kernels get slots of a size they are correct for.
  \<^item> \<open>Edge_Spec\<close>: the locale \<open>reliable_edge\<close>, what a network edge promises to the two kernels (in order, each slice once, nothing
    stuck while no failure is recorded). \<open>Proxy_Fifo\<close> holds what the two network transports share. \<open>Socket_Wire\<close> is the byte level of
    the sockets, \<open>Socket_Proxy\<close> their proxies and the first interpretation of \<open>reliable_edge\<close>. \<open>Rdma_Proxy\<close> is
    \<open>rdma_proxy.cc\<close> with both data planes, \<open>Rdma_Edge\<close> and \<open>Rdma_Reliable\<close> the edge of the plane \<open>SendRecv\<close> and the second
    interpretation.
  \<^item> \<open>Rdma_Cts\<close>: the plane \<open>WriteCts\<close> at the grain of its shared memory, and the run in which a CTS record is lost.
  \<^item> \<open>Mpi_Exchange\<close>, \<open>Mpi_Shm\<close>, \<open>Mpi_P2p\<close>: how the processes of one host come to share the region of an edge, over POSIX shared memory
    (\<open>mpi_shm.cc\<close>) or CUDA IPC (\<open>mpi_p2p.cc\<close>), with what each process holds of the system; the ranks agree on the outcome, a
    failure leaves nothing behind, and a P2P region outlives the peer's mapping of it.
  \<^item> \<open>Host_Buffer\<close>: the buffer classes of \<open>core/\<close>, NUMA placement and streams, with the locale \<open>held_object\<close> that all buffer classes
    interpret: no sequence of resets leaks, whichever of them throw. \<open>Profiling\<close>: the statistics of the profiling builds.
  \<^item> \<open>P2p_Buffers\<close>: the tables of device buffers of the P2P edges inside a process; their constructors are all or nothing.
    \<open>Socket_Descriptors\<close>: who closes a socket, through moves and failures.
  \<^item> \<open>Rdma_Link\<close>, \<open>Rdma_Progress\<close>, \<open>Rdma_Setup\<close>, \<open>Rdma_Ready\<close>: endpoint, queue pairs and registered memory with the set of open verbs
    objects; the engine that drives all proxies; \<open>setup_rdma_transport\<close> with the exchange of addresses between all processes, and
    what it leaves behind.
  \<^item> This theory puts the C interface on the communicator: a successful \<open>nano_nccl_all_reduce\<close> launched the kernels that the
    ring theories are about, with arguments they are correct for.

  \<^bold>\<open>Loops and bounds.\<close> Loops that the code bounds are recursive functions. The waits of the kernels and the proxies are steps of a relation
  that stay disabled, so an endless wait is a reachable state without a step, and liveness is proved as such. The posting
  loops of the RDMA proxies take the FIFO's free credit as fuel (\<open>credit_rounds\<close>), each round uses at least one step of it. \<open>engine_run\<close>
  takes the number of passes it may make; the theorems about it are stated for one pass, from any state. \<open>accept_loop\<close> counts the
  connections it still expects, as the code does, and is \<open>Waiting\<close> when no more arrive. The socket loops take the list of answers of
  the operating system.

  The waits end after at most eighteen fair rounds of their threads (two threads with at most eight accesses each, the entry and the exit).

  \<^bold>\<open>Not modelled.\<close> The weak memory model: a release store and the acquire load that sees it are one atomic step each, in
  program order. The preemption of host threads inside one iteration of a proxy or one call of \<open>progress\<close>, which are one step. Failing calls of a clean-up
  (\<open>cudaFree\<close>, \<open>cudaFreeHost\<close>, \<open>munmap\<close>, \<open>close\<close>, \<open>shm_unlink\<close> and the like), whose answers the code ignores or only reports. Failures of
  \<open>MPI_Comm_rank\<close>, \<open>MPI_Comm_size\<close>, \<open>accept\<close> and of reading a hello during the bootstrap, which throw out of it. Overflow of \<open>int\<close> sums of ranks in
  \<open>topology.cc\<close>. For 16-bit maxima and minima the payload of a NaN and the sign of a zero (\<open>packed_agrees\<close> in \<open>Worker\<close>). The profiling hooks inside proxies and kernels. The factory that wraps the communicator.
\<close>

section \<open>The C interface on the communicator\<close>

definition as_call :: "unit result \<times> comm \<Rightarrow> unit call \<times> comm" where
  "as_call x = (case x of (Inr u, c) \<Rightarrow> (Returned u, c) | (Inl e, c) \<Rightarrow> (Threw e, c))"

definition query_call :: "'a result \<Rightarrow> 'a call" where
  "query_call r = (case r of Inr x \<Rightarrow> Returned x | Inl e \<Rightarrow> Threw e)"

text \<open>The methods of \<open>Communicator\<close> behind a C handle.\<close>

definition communicator_ops :: "nat \<Rightarrow> nat \<Rightarrow> bool \<Rightarrow> cuda \<Rightarrow> comm comm_ops" where
  "communicator_ops K C rdma cu =
     \<lparr>co_all_reduce = (\<lambda>s r t n d op c. as_call (all_reduce K C rdma cu
        \<lparr>send_buffer = s, recv_buffer = r, stream = t, elem_count = n, dtype = d, redop = op\<rparr> c)),
      co_reduce_scatter = (\<lambda>s r t n d op c. as_call (reduce_scatter K C rdma cu
        \<lparr>send_buffer = s, recv_buffer = r, stream = t, elem_count = n, dtype = d, redop = op\<rparr> c)),
      co_all_gather = (\<lambda>s r t n d c. as_call (all_gather K C rdma cu
        \<lparr>send_buffer = s, recv_buffer = r, stream = t, elem_count = n, dtype = d, redop = RSum\<rparr> c)),
      co_check_async_error = (\<lambda>c. query_call (check_async_error rdma c)),
      co_local_rank_count = (\<lambda>c. int (local_rank_count c)), co_global_rank_count = (\<lambda>c. int K),
      co_transport = transport, co_edge_transport = (\<lambda>c e. query_call (edge_transport K c e)),
      co_edge_uses_gdr = (\<lambda>c e. query_call (edge_uses_gdr K rdma c e))\<rparr>"

text \<open>C7: An AllReduce that the C interface reports as successful did its work: the arguments were valid,
  and every local rank's AllReduce kernel was launched on the caller's stream with the requested
  reduction, the caller's buffers and count, and FIFO slots the kernel is correct for.\<close>

theorem capi_all_reduce_launches:
  assumes "handle st = Some (Some c)" "0 < K" "0 < C" "K < 2 ^ 31" "\<forall>d. vector_elems d dvd slot_elems (m_fifo c d)"
    and "nano_nccl_all_reduce (communicator_ops K C rdma cu) (Some a) st = (NANO_NCCL_STATUS_SUCCESS, st')"
    and "r < local_rank_count c"
  shows "args_ok a (unat (a_count a)) (unat (a_count a)) \<and>
    (\<exists>c' new d op k s. handle st' = Some (Some c') \<and> log c' = new @ log c \<and>
      to_cpp_dtype (a_dtype a) = Some d \<and> to_cpp_redop (a_redop a) = Some op \<and>
      (Launch r d (K_all_reduce op) (a_stream a) k, s) \<in> set new \<and>
      launch_valid (cpp_args a d op) (Launch r d (K_all_reduce op) (a_stream a) k))"
proof -
  let ?ops = "communicator_ops K C rdma cu"
  have h: "validate_handle (handle (begin_call st)) = Inr c" using assms(1) by (simp add: begin_call_def validate_handle_def)
  have fail: "invalid m x \<noteq> (NANO_NCCL_STATUS_SUCCESS, st')" for m and x :: "comm cstate" by (simp add: invalid_def fail_def)
  from assms(6) fail obtain d op where d: "to_cpp_dtype (a_dtype a) = Some d" and op: "to_cpp_redop (a_redop a) = Some op"
    and v: "validate_buffer_args (a_send_buffer a) (a_recv_buffer a) (a_stream a) (a_count a) = None"
      "validate_buffer_overlap (a_send_buffer a) (a_recv_buffer a) (a_count a) (a_count a) (a_dtype a) = None"
    and run: "call_comm (co_all_reduce ?ops (a_send_buffer a) (a_recv_buffer a) (a_stream a) (a_count a) d op) c (begin_call st) =
        (NANO_NCCL_STATUS_SUCCESS, st')"
    by (auto simp: nano_nccl_all_reduce_def h Let_def split: option.splits)
  have nz: "unat (a_count a) \<noteq> 0" using v(1) by (auto simp: validate_buffer_args_def unat_eq_zero split: if_splits)
  have ok: "args_ok a (unat (a_count a)) (unat (a_count a))" using args_ok_checks[OF nz nz, of a] v d by simp
  obtain x c' where x: "run_collective All_reduce K C rdma cu (cpp_args a d op) c = (x, c')"
    by (cases "run_collective All_reduce K C rdma cu (cpp_args a d op) c")
  have "\<exists>u. x = Inr u \<and> handle st' = Some (Some c')"
    using run x by (cases x) (auto simp: call_comm_def communicator_ops_def as_call_def cpp_args_def translate_exceptions_def
        fail_def split: exn.splits)
  then obtain u where u: "x = Inr u" "handle st' = Some (Some c')" by blast
  obtain new k s where l: "log c' = new @ log c" "(Launch r d (K_all_reduce op) (a_stream a) k, s) \<in> set new"
    using collective_launches[OF x[unfolded u(1)] assms(7)] by (auto simp: cpp_args_def)
  have "fit_inv (cpp_args a d op) (log c) c'"
    using fit_inv_collective[OF assms(2,3), of c "cpp_args a d op" All_reduce rdma cu] assms(5) x by (simp add: slots_aligned_def)
  then obtain new' where "log c' = new' @ log c" "launches_valid (cpp_args a d op) new'" by (auto simp: fit_inv_def since_def)
  then have "launch_valid (cpp_args a d op) (Launch r d (K_all_reduce op) (a_stream a) k)"
    using l by (fastforce simp: launches_valid_def list_all_iff)
  with ok u(2) l d op show ?thesis by blast
qed

definition demo_capi_args :: cargs where
  "demo_capi_args = \<lparr>a_send_buffer = 4096, a_recv_buffer = 8192, a_stream = 7, a_count = 16, a_dtype = 0, a_redop = 0\<rparr>"

definition demo_handle :: "comm cstate" where
  "demo_handle = \<lparr>last_error = [], handle = Some (Some demo_comm)\<rparr>"

lemma ok_cuda_calls:
  "cuda_check ok_cuda c st = (Inr (), st\<lparr>log := (c, Cuda_ok) # log st\<rparr>)"
  "call_cuda ok_cuda c st = (Inr Cuda_ok, st\<lparr>log := (c, Cuda_ok) # log st\<rparr>)"
  by (simp_all add: cuda_check_def call_cuda_def andthen_def throw_status_def ret_def ok_cuda_def Let_def)

lemma demo_all_reduce_ok: "fst (all_reduce 2 1 False ok_cuda demo_call demo_comm) = Inr ()"
proof -
  have v: "validate_all_reduce demo_call = Inr ()" by (simp add: validate_all_reduce_def validate_buffers_def demo_call_def
      checked_product_def address_range_def dtype_bytes_def)
  have e: "check_async_error False demo_comm = Inr ()" by (simp add: check_async_error_def demo_comm_def)
  let ?st = "demo_comm\<lparr>m_fifo := (m_fifo demo_comm)(Float := \<lparr>slot_elems = 1048576, shm_fifo = [], p2p_fifo = False\<rparr>)\<rparr>"
  have f: "ensure_fifo_buffers 2 1 ok_cuda Float (unat (16 :: 64 word)) demo_comm = (Inr (), ?st)"
    using demo_ensure_fifo by simp
  have d: "dtype demo_call = Float" "redop demo_call = RSum" "elem_count demo_call = 16" by (simp_all add: demo_call_def)
  have "fst (run_typed 2 1 False ok_cuda (K_all_reduce RSum) demo_call 16 demo_comm) = Inr ()"
    unfolding run_typed_eq andalso_def andthen_def d f prod.case sum.case launch_body_def init_control_def
      launch_ring_simple_eq launch_one_def
    by (simp add: andalso_def andthen_def with_state_def demo_call_def demo_comm_def begin_fallback_tracking_def change_def
        on_exception_def wait_for_previous_launch_on_stream_def ret_def run_if_def reset_control_def ensure_completion_events_def
        local_rank_count_def ok_cuda_calls rank_topology_def ring_edge_index_def record_completion_def)
  then show ?thesis
    by (simp add: all_reduce_def andalso_def andthen_def with_state_def lift_def e v typed_def d)
qed

theorem capi_all_reduce_launches_witness:
  "\<exists>c' new k s. handle (snd (nano_nccl_all_reduce (communicator_ops 2 1 False ok_cuda) (Some demo_capi_args) demo_handle)) = Some (Some c') \<and>
     log c' = new @ log demo_comm \<and> (Launch 0 Float (K_all_reduce RSum) 7 k, s) \<in> set new"
proof -
  let ?r = "nano_nccl_all_reduce (communicator_ops 2 1 False ok_cuda) (Some demo_capi_args) demo_handle"
  have args: "args_ok demo_capi_args (unat (a_count demo_capi_args)) (unat (a_count demo_capi_args))"
    by (simp add: args_ok_def demo_capi_args_def buffers_separate_def bytes_of_def dtype_size_def)
  obtain c' where c': "all_reduce 2 1 False ok_cuda demo_call demo_comm = (Inr (), c')"
    using demo_all_reduce_ok by (metis prod.collapse)
  have chk: "validate_buffer_args 4096 8192 7 16 = None" "validate_buffer_overlap 4096 8192 16 16 0 = None"
    using args_ok_checks[of 16 16 demo_capi_args] args by (simp_all add: demo_capi_args_def)
  have ok: "?r = (NANO_NCCL_STATUS_SUCCESS, snd ?r)"
    using chk c' by (simp add: nano_nccl_all_reduce_def demo_handle_def demo_capi_args_def begin_call_def validate_handle_def
        to_cpp_dtype_def to_cpp_redop_def call_comm_def communicator_ops_def as_call_def demo_call_def translate_exceptions_def Let_def)
  from conjunct2[OF capi_all_reduce_launches, OF _ _ _ _ _ ok, of demo_comm 0] show ?thesis
    by (simp add: demo_handle_def demo_comm_def local_rank_count_def demo_capi_args_def to_cpp_dtype_def to_cpp_redop_def) blast
qed

end
